(* ===== verification/Prelude.thy ===== *)
theory Prelude
  imports Main "HOL-Library.Word" "HOL-Library.Signed_Division"
begin

text \<open>
  Shared vocabulary of the development: the machine integers of the Rust sources as words,
  the saturating and checked operations of the Rust standard library, byte serialisation,
  sums over storage maps, and the dispatch rules of FRAME (origins, errors, and the rollback
  of the storage writes of a call that returns an error).
\<close>

section \<open>Machine integers\<close>

type_synonym u8 = "8 word"
type_synonym u32 = "32 word"
type_synonym u64 = "64 word"
type_synonym u128 = "128 word"
type_synonym i64 = "64 word" \<comment> \<open>read with \<open>sint\<close>\<close>
type_synonym i128 = "128 word" \<comment> \<open>read with \<open>sint\<close>\<close>
type_synonym h256 = "256 word" \<comment> \<open>32 bytes, the first byte the most significant\<close>

named_theorems rust_arith \<open>unsigned readings of the Rust integer operations\<close>

definition saturating_add :: "'a::len word \<Rightarrow> 'a word \<Rightarrow> 'a word" where
  "saturating_add a b = (if unat a + unat b < 2 ^ LENGTH('a) then a + b else - 1)"

definition saturating_sub :: "'a::len word \<Rightarrow> 'a word \<Rightarrow> 'a word" where
  "saturating_sub a b = (if b \<le> a then a - b else 0)"

definition saturating_mul :: "'a::len word \<Rightarrow> 'a word \<Rightarrow> 'a word" where
  "saturating_mul a b = (if unat a * unat b < 2 ^ LENGTH('a) then a * b else - 1)"

definition checked_add :: "'a::len word \<Rightarrow> 'a word \<Rightarrow> 'a word option" where
  "checked_add a b = (if unat a + unat b < 2 ^ LENGTH('a) then Some (a + b) else None)"

definition checked_sub :: "'a::len word \<Rightarrow> 'a word \<Rightarrow> 'a word option" where
  "checked_sub a b = (if b \<le> a then Some (a - b) else None)"

definition checked_mul :: "'a::len word \<Rightarrow> 'a word \<Rightarrow> 'a word option" where
  "checked_mul a b = (if unat a * unat b < 2 ^ LENGTH('a) then Some (a * b) else None)"

lemma unat_max_word: "unat (- 1 :: 'a::len word) = 2 ^ LENGTH('a) - 1"
  by (simp add: unsigned_minus_1_eq_mask mask_eq_exp_minus_1)

lemma unat_le_max: "unat (w :: 'a::len word) \<le> 2 ^ LENGTH('a) - 1"
proof -
  have "unat w < 2 ^ LENGTH('a)" by (rule unsigned_less)
  then show ?thesis by linarith
qed

lemma unat_of_nat_less: "n < 2 ^ LENGTH('a) \<Longrightarrow> unat (of_nat n :: 'a::len word) = n"
  by (simp add: unsigned_of_nat take_bit_nat_eq_self)

lemma unat_min: "unat (min a b) = min (unat a) (unat b)" for a b :: "'a::len word"
  by (auto simp: min_def word_le_nat_alt)

lemma unat_max: "unat (max a b) = max (unat a) (unat b)" for a b :: "'a::len word"
  by (auto simp: max_def word_le_nat_alt)

lemma u128_less: "unat (w :: u128) < 2 ^ 128"
  using unsigned_less [where 'a = nat, of w] by simp

lemma u64_less: "unat (w :: u64) < 2 ^ 64"
  using unsigned_less [where 'a = nat, of w] by simp

lemma u32_less: "unat (w :: u32) < 2 ^ 32"
  using unsigned_less [where 'a = nat, of w] by simp

lemma unat_saturating_add [rust_arith]:
  "unat (saturating_add a b) = min (unat a + unat b) (2 ^ LENGTH('a) - 1)"
  for a b :: "'a::len word"
  by (auto simp: saturating_add_def unat_max_word unat_add_lem [THEN iffD1] min_def)

lemma unat_saturating_add_exact:
  "unat a + unat b < 2 ^ LENGTH('a) \<Longrightarrow> unat (saturating_add a b) = unat a + unat b"
  for a b :: "'a::len word"
  by (simp add: unat_saturating_add)

lemma unat_saturating_sub [rust_arith]: "unat (saturating_sub a b) = unat a - unat b"
  for a b :: "'a::len word"
  by (auto simp: saturating_sub_def unat_sub word_le_nat_alt)

lemma unat_saturating_mul [rust_arith]:
  "unat (saturating_mul a b) = min (unat a * unat b) (2 ^ LENGTH('a) - 1)"
  for a b :: "'a::len word"
proof (cases "unat a * unat b < 2 ^ LENGTH('a)")
  case True
  then show ?thesis by (simp add: saturating_mul_def unat_mult_lem [THEN iffD1])
next
  case False
  then have "2 ^ LENGTH('a) - 1 \<le> unat a * unat b" by linarith
  with False show ?thesis by (simp add: saturating_mul_def unat_max_word del: One_nat_def)
qed

lemma checked_add_SomeD:
  "checked_add a b = Some c \<Longrightarrow> unat c = unat a + unat b"
  for a b :: "'a::len word"
  by (auto simp: checked_add_def unat_add_lem [THEN iffD1] split: if_splits)

lemma checked_add_None_iff:
  "checked_add a b = None \<longleftrightarrow> 2 ^ LENGTH('a) \<le> unat a + unat b"
  for a b :: "'a::len word"
  by (auto simp: checked_add_def)

lemma checked_sub_SomeD:
  "checked_sub a b = Some c \<Longrightarrow> unat b \<le> unat a \<and> unat c = unat a - unat b"
  for a b :: "'a::len word"
  by (auto simp: checked_sub_def unat_sub word_le_nat_alt split: if_splits)

lemma checked_mul_SomeD:
  "checked_mul a b = Some c \<Longrightarrow> unat c = unat a * unat b"
  for a b :: "'a::len word"
  by (auto simp: checked_mul_def unat_mult_lem [THEN iffD1] split: if_splits)

text \<open>
  Signed operations: \<open>saturating_add\<close> on signed integers, and the division and remainder of
  Rust, which truncate towards zero.
\<close>

definition signed_saturating_add :: "'a::len word \<Rightarrow> 'a word \<Rightarrow> 'a word" where
  "signed_saturating_add a b =
     word_of_int (max (- (2 ^ (LENGTH('a) - 1))) (min (2 ^ (LENGTH('a) - 1) - 1) (sint a + sint b)))"

definition signed_div :: "'a::len word \<Rightarrow> 'a word \<Rightarrow> 'a word" where
  "signed_div a b = word_of_int (sint a sdiv sint b)"

definition signed_rem :: "'a::len word \<Rightarrow> 'a word \<Rightarrow> 'a word" where
  "signed_rem a b = word_of_int (sint a smod sint b)"

definition signed_less :: "'a::len word \<Rightarrow> 'a word \<Rightarrow> bool" where
  "signed_less a b \<longleftrightarrow> sint a < sint b"

section \<open>Bytes\<close>

definition ascii :: "string \<Rightarrow> u8 list" where
  "ascii s = map (\<lambda>c. of_nat (of_char c)) s"

text \<open>\<open>to_le_bytes\<close> of a \<open>w\<close>-bit integer, and the 32 bytes of a hash in display order.\<close>

definition le_bytes :: "'a::len word \<Rightarrow> u8 list" where
  "le_bytes w = map (\<lambda>i. ucast (drop_bit (8 * i) w)) [0..<LENGTH('a) div 8]"

definition be_bytes :: "'a::len word \<Rightarrow> u8 list" where
  "be_bytes w = rev (le_bytes w)"

text \<open>The value a byte string denotes, the least significant byte first, and last.\<close>

fun le_value :: "u8 list \<Rightarrow> nat" where
  "le_value [] = 0"
| "le_value (b # bs) = unat b + 256 * le_value bs"

definition be_value :: "u8 list \<Rightarrow> nat" where
  "be_value bs = le_value (rev bs)"

lemma length_le_bytes [simp]: "length (le_bytes (w :: 'a::len word)) = LENGTH('a) div 8"
  by (simp add: le_bytes_def)

lemma length_be_bytes [simp]: "length (be_bytes (w :: 'a::len word)) = LENGTH('a) div 8"
  by (simp add: be_bytes_def)

lemma le_bytes_nth:
  "i < LENGTH('a) div 8 \<Longrightarrow> le_bytes (w :: 'a::len word) ! i = ucast (drop_bit (8 * i) w)"
  by (simp add: le_bytes_def)

lemma le_value_snoc: "le_value (bs @ [b]) = le_value bs + 256 ^ length bs * unat b"
  by (induction bs) (simp_all add: algebra_simps)

lemma le_value_map_drop:
  "le_value (map (\<lambda>i. ucast (drop_bit (8 * i) w)) [0..<n]) = unat w mod 256 ^ n" for w :: "'a::len word"
proof (induction n)
  case (Suc n)
  have "unat (ucast (drop_bit (8 * n) w) :: u8) = unat w div 256 ^ n mod 256"
  proof -
    have "unat (drop_bit (8 * n) w) = unat w div 2 ^ (8 * n)"
      by (rule trans [OF unat_drop_bit_eq drop_bit_eq_div])
    then show ?thesis by (simp add: unsigned_ucast_eq take_bit_eq_mod power_mult)
  qed
  then show ?case using Suc by (simp add: le_value_snoc mod_mult2_eq mult.commute [of 256])
qed simp

lemma le_value_le_bytes:
  assumes "8 dvd LENGTH('a)"
  shows "le_value (le_bytes (w :: 'a::len word)) = unat w"
proof -
  obtain k where k: "LENGTH('a) = 8 * k" using assms by (rule dvdE)
  have "unat w < 256 ^ k" using unsigned_less [where 'a = nat, of w] by (simp add: k power_mult)
  then show ?thesis by (simp add: le_bytes_def le_value_map_drop k)
qed

lemma be_value_be_bytes:
  "8 dvd LENGTH('a) \<Longrightarrow> be_value (be_bytes (w :: 'a::len word)) = unat w"
  by (simp add: be_value_def be_bytes_def le_value_le_bytes)

lemma le_bytes_bit:
  assumes "n < LENGTH('a)" and "8 dvd LENGTH('a)"
  shows "bit (w :: 'a::len word) n \<longleftrightarrow> bit (le_bytes w ! (n div 8)) (n mod 8)"
proof -
  have "n div 8 < LENGTH('a) div 8"
    using assms by (auto elim!: dvdE)
  then have "le_bytes w ! (n div 8) = ucast (drop_bit (8 * (n div 8)) w)"
    by (rule le_bytes_nth)
  then show ?thesis
    by (simp add: bit_simps)
qed

lemma le_bytes_inject:
  assumes "8 dvd LENGTH('a)"
  shows "le_bytes (v :: 'a::len word) = le_bytes w \<longleftrightarrow> v = w"
proof
  assume eq: "le_bytes v = le_bytes w"
  show "v = w"
  proof (rule bit_word_eqI)
    fix n assume "n < LENGTH('a)"
    then show "bit v n \<longleftrightarrow> bit w n"
      using le_bytes_bit [OF _ assms, of n v] le_bytes_bit [OF _ assms, of n w] eq by simp
  qed
qed simp

lemma be_bytes_inject:
  assumes "8 dvd LENGTH('a)"
  shows "be_bytes (v :: 'a::len word) = be_bytes w \<longleftrightarrow> v = w"
  by (simp add: be_bytes_def le_bytes_inject [OF assms])

text \<open>Every byte string of the right length is the encoding of a word.\<close>

lemma le_value_less: "le_value bs < 256 ^ length bs"
proof (induction bs)
  case (Cons b bs)
  have "unat b < 256" using unsigned_less [where 'a = nat, of b] by simp
  then show ?case using Cons by simp
qed simp

lemma le_value_inject: "length bs = length cs \<Longrightarrow> le_value bs = le_value cs \<Longrightarrow> bs = cs"
proof (induction bs cs rule: list_induct2)
  case (Cons b bs c cs)
  have "unat b < 256" "unat c < 256"
    using unsigned_less [where 'a = nat, of b] unsigned_less [where 'a = nat, of c] by simp_all
  moreover have "(unat b + 256 * le_value bs) mod 256 = (unat c + 256 * le_value cs) mod 256"
    using Cons.prems by simp
  ultimately have "unat b = unat c" by simp
  moreover from this have "le_value bs = le_value cs" using Cons.prems by simp
  ultimately show ?case using Cons.IH by (simp add: word_unat_eq_iff)
qed simp

lemma le_bytes_of_value:
  assumes "8 dvd LENGTH('a)" and "length bs = LENGTH('a) div 8"
  shows "le_bytes (of_nat (le_value bs) :: 'a::len word) = bs"
proof (rule le_value_inject)
  have "le_value bs < 2 ^ LENGTH('a)" using le_value_less [of bs] assms by (auto simp: power_mult elim!: dvdE)
  then show "le_value (le_bytes (of_nat (le_value bs) :: 'a word)) = le_value bs"
    by (simp add: le_value_le_bytes assms(1) unat_of_nat_less)
qed (use assms in simp)

lemma be_bytes_of_value:
  "8 dvd LENGTH('a) \<Longrightarrow> length bs = LENGTH('a) div 8 \<Longrightarrow> be_bytes (of_nat (be_value bs) :: 'a::len word) = bs"
  by (simp add: be_bytes_def be_value_def le_bytes_of_value)

lemma append_eq_same_length:
  "length xs = length ys \<Longrightarrow> xs @ us = ys @ vs \<longleftrightarrow> xs = ys \<and> us = vs"
  by simp

section \<open>Sums over storage maps\<close>

definition storage_sum :: "('v \<Rightarrow> nat) \<Rightarrow> ('k \<rightharpoonup> 'v) \<Rightarrow> nat" where
  "storage_sum f m = (\<Sum>k \<in> dom m. f (the (m k)))"

lemma storage_sum_empty [simp]: "storage_sum f Map.empty = 0"
  by (simp add: storage_sum_def)

lemma storage_sum_fresh:
  assumes "finite (dom m)" and "m k = None"
  shows "storage_sum f (m(k \<mapsto> v)) = storage_sum f m + f v"
proof -
  have "k \<notin> dom m" using assms by auto
  moreover have "(\<Sum>j \<in> dom m. f (the ((m(k \<mapsto> v)) j))) = (\<Sum>j \<in> dom m. f (the (m j)))"
    using \<open>k \<notin> dom m\<close> by (intro sum.cong) auto
  ultimately show ?thesis
    using assms by (simp add: storage_sum_def add.commute)
qed

lemma storage_sum_delete:
  assumes "finite (dom m)" and "m k = Some v"
  shows "storage_sum f m = storage_sum f (m(k := None)) + f v"
proof -
  have "m = (m(k := None))(k \<mapsto> v)"
    using assms by auto
  moreover have "storage_sum f ((m(k := None))(k \<mapsto> v)) = storage_sum f (m(k := None)) + f v"
    using assms by (intro storage_sum_fresh) auto
  ultimately show ?thesis by simp
qed

lemma storage_sum_member_le:
  assumes "finite (dom m)" and "m k = Some v"
  shows "f v \<le> storage_sum f m"
  using storage_sum_delete [OF assms, of f] by simp

lemma storage_sum_mono:
  assumes "\<And>k v. m k = Some v \<Longrightarrow> f v \<le> g v"
  shows "storage_sum f m \<le> storage_sum g m"
  unfolding storage_sum_def using assms by (intro sum_mono) force

lemma storage_sum_submap:
  assumes "finite (dom n)" and "\<And>k v. m k = Some v \<Longrightarrow> f v \<noteq> 0 \<Longrightarrow> n k = Some v"
  shows "storage_sum f m \<le> storage_sum f n"
proof (cases "finite (dom m)")
  case True
  let ?A = "{k \<in> dom m. f (the (m k)) \<noteq> 0}"
  have "storage_sum f m = (\<Sum>k \<in> ?A. f (the (m k)))"
    unfolding storage_sum_def using True by (intro sum.mono_neutral_right) auto
  also have "\<dots> = (\<Sum>k \<in> ?A. f (the (n k)))"
    using assms(2) by (intro sum.cong) auto
  also have "\<dots> \<le> storage_sum f n"
    unfolding storage_sum_def using assms by (intro sum_mono2) auto
  finally show ?thesis .
qed (simp add: storage_sum_def)

section \<open>Dispatch\<close>

text \<open>
  The origin of a call and the error of a dispatchable. \<open>BadOrigin\<close> is what
  \<open>ensure_signed\<close>, \<open>ensure_root\<close> and \<open>ensure_none\<close> return; \<open>Module\<close> carries an error of the
  pallet.
\<close>

type_synonym account_id = h256 \<comment> \<open>\<open>AccountId32\<close>\<close>

datatype origin = Root | Signed account_id | NoneOrigin

datatype 'e dispatch_error = BadOrigin | Module 'e

fun ensure_signed :: "origin \<Rightarrow> 'e dispatch_error + account_id" where
  "ensure_signed (Signed who) = Inr who"
| "ensure_signed _ = Inl BadOrigin"

fun ensure_root :: "origin \<Rightarrow> 'e dispatch_error + unit" where
  "ensure_root Root = Inr ()"
| "ensure_root _ = Inl BadOrigin"

fun ensure_none :: "origin \<Rightarrow> 'e dispatch_error + unit" where
  "ensure_none NoneOrigin = Inr ()"
| "ensure_none _ = Inl BadOrigin"

lemma ensure_signed_Inr [simp]: "ensure_signed o1 = Inr who \<longleftrightarrow> o1 = Signed who"
  by (cases o1) auto

lemma ensure_root_Inr [simp]: "ensure_root o1 = Inr u \<longleftrightarrow> o1 = Root"
  by (cases o1) auto

lemma ensure_none_Inr [simp]: "ensure_none o1 = Inr u \<longleftrightarrow> o1 = NoneOrigin"
  by (cases o1) auto

text \<open>
  A handler that may write before it fails returns the state it reached next to its result;
  FRAME runs every dispatchable in a storage layer, so the writes of a failed call are
  discarded.
\<close>

definition dispatch :: "('s \<Rightarrow> ('e dispatch_error + unit) \<times> 's) \<Rightarrow> 's \<Rightarrow> ('e dispatch_error + unit) \<times> 's"
  where "dispatch call s = (case call s of (Inl e, _) \<Rightarrow> (Inl e, s) | (Inr u, s') \<Rightarrow> (Inr u, s'))"

lemma dispatch_error_rolls_back: "fst (dispatch call s) = Inl e \<Longrightarrow> snd (dispatch call s) = s"
  by (auto simp: dispatch_def split: prod.splits sum.splits)

text \<open>A bounded vector refuses the element that would exceed its bound.\<close>

definition try_push :: "nat \<Rightarrow> 'a \<Rightarrow> 'a list \<Rightarrow> 'a list option" where
  "try_push bound x xs = (if length xs < bound then Some (xs @ [x]) else None)"

lemma try_push_SomeD: "try_push n x xs = Some ys \<Longrightarrow> ys = xs @ [x] \<and> length ys \<le> n"
  by (auto simp: try_push_def split: if_splits)

end
