(* ===== verification/Primitives.thy ===== *)
theory Primitives
  imports Prelude
begin

text \<open>
  The shared types and constants of \<open>substrate-node/primitives/src/lib.rs\<close>: amounts,
  transaction identifiers, addresses, unspent outputs, transaction inputs and outputs, the
  mining proof and the Phi measurement. Only the constants that modelled code reads are
  declared.
\<close>

named_theorems qbc_consts \<open>constants of the primitives crate and of the pallets\<close>

type_synonym qbc_balance = u128
type_synonym tx_id = h256
type_synonym address = h256 \<comment> \<open>\<open>Address([u8; 32])\<close>, the first byte the most significant\<close>
type_synonym difficulty = u64
type_synonym utxo_key = "tx_id \<times> u32"

definition QBC_UNIT :: qbc_balance where
  [qbc_consts]: "QBC_UNIT = 100000000"

definition PHI_SCALED :: u128 where
  [qbc_consts]: "PHI_SCALED = 1618033988749895000"

definition PHI_DENOM :: u128 where
  [qbc_consts]: "PHI_DENOM = 1000000000000000000"

definition MAX_SUPPLY :: qbc_balance where
  [qbc_consts]: "MAX_SUPPLY = 3300000000 * QBC_UNIT"

definition INITIAL_REWARD :: qbc_balance where
  [qbc_consts]: "INITIAL_REWARD = 1527000000"

definition HALVING_INTERVAL :: u64 where
  [qbc_consts]: "HALVING_INTERVAL = 15474020"

definition TARGET_BLOCK_TIME_MS :: u64 where
  [qbc_consts]: "TARGET_BLOCK_TIME_MS = 3300"

definition DIFFICULTY_WINDOW :: u32 where
  [qbc_consts]: "DIFFICULTY_WINDOW = 144"

definition MAX_ADJUSTMENT_FACTOR :: u32 where
  [qbc_consts]: "MAX_ADJUSTMENT_FACTOR = 110"

definition MIN_ADJUSTMENT_FACTOR :: u32 where
  [qbc_consts]: "MIN_ADJUSTMENT_FACTOR = 90"

definition COINBASE_MATURITY :: u32 where
  [qbc_consts]: "COINBASE_MATURITY = 100"

definition FEE_BURN_PERCENTAGE :: u64 where
  [qbc_consts]: "FEE_BURN_PERCENTAGE = 50"

definition TAIL_EMISSION_REWARD :: u64 where
  [qbc_consts]: "TAIL_EMISSION_REWARD = 10000000"

definition INITIAL_DIFFICULTY :: difficulty where
  [qbc_consts]: "INITIAL_DIFFICULTY = 1000000"

definition PHI_THRESHOLD_SCALED :: u64 where
  [qbc_consts]: "PHI_THRESHOLD_SCALED = 3000"

definition TWO_PI_SCALED :: i64 where
  [qbc_consts]: "TWO_PI_SCALED = 6283185307180"

definition THETA_ADVANCE_PER_BLOCK :: i64 where
  [qbc_consts]: "THETA_ADVANCE_PER_BLOCK = 23999632297"

definition HAMILTONIAN_V2 :: u8 where
  [qbc_consts]: "HAMILTONIAN_V2 = 2"

text \<open>The unspent output, \<open>Utxo\<close>.\<close>

record utxo =
  utxo_txid :: tx_id
  utxo_vout :: u32
  utxo_address :: address
  utxo_amount :: qbc_balance
  utxo_block_height :: u64
  utxo_is_coinbase :: bool

text \<open>\<open>TransactionInput\<close> and \<open>TransactionOutput\<close>.\<close>

record tx_input =
  prev_txid :: tx_id
  prev_vout :: u32

record tx_output =
  out_address :: address
  out_amount :: qbc_balance

definition utxo_key :: "utxo \<Rightarrow> utxo_key" where
  "utxo_key u = (utxo_txid u, utxo_vout u)"

definition input_key :: "tx_input \<Rightarrow> utxo_key" where
  "input_key i = (prev_txid i, prev_vout i)"

text \<open>The mining proof, \<open>VqeProof\<close> (its parameter vector holds at most 32 angles).\<close>

record vqe_proof =
  vqe_params :: "i64 list"
  vqe_energy :: i128
  hamiltonian_seed :: h256
  n_qubits :: u8

record phi_measurement =
  phi_block_height :: u64
  phi_scaled :: u64
  knowledge_nodes :: u64
  knowledge_edges :: u64

end
