(* ===== verification/Dilithium.thy ===== *)
theory Dilithium
  imports Primitives
begin

text \<open>
  The key registry of \<open>substrate-node/pallets/qbc-dilithium/src/lib.rs\<close> and the Dilithium5
  host function of \<open>substrate-node/primitives/src/lib.rs\<close>. The signature scheme itself
  (crate \<open>pqcrypto-dilithium\<close>) and SHA-256 are not under \<open>src/\<close>: they are the parameters
  \<open>pq\<close> and \<open>sha\<close>. The theory shows that the WASM path of the verifier agrees with the native
  one and that a revoked key never comes back.
\<close>

section \<open>Signature verification\<close>

text \<open>What the code uses of \<open>pqcrypto_dilithium::dilithium5\<close>.\<close>

record ('pk, 'sig) pqcrypto =
  pk_from_bytes :: "u8 list \<Rightarrow> 'pk option"
  sig_from_bytes :: "u8 list \<Rightarrow> 'sig option"
  verify_detached :: "'sig \<Rightarrow> u8 list \<Rightarrow> 'pk \<Rightarrow> bool"

definition DILITHIUM5_PK_SIZE :: nat where
  [qbc_consts]: "DILITHIUM5_PK_SIZE = 2592"

definition DILITHIUM5_SIG_SIZE :: nat where
  [qbc_consts]: "DILITHIUM5_SIG_SIZE = 4627"

text \<open>The three library calls that both builds end in.\<close>

definition dilithium5_verify :: "('pk, 'sig) pqcrypto \<Rightarrow> u8 list \<Rightarrow> u8 list \<Rightarrow> u8 list \<Rightarrow> bool" where
  "dilithium5_verify pq public_key message signature =
     (case pk_from_bytes pq public_key of
        None \<Rightarrow> False
      | Some pk \<Rightarrow>
          (case sig_from_bytes pq signature of
             None \<Rightarrow> False
           | Some sig \<Rightarrow> verify_detached pq sig message pk))"

text \<open>\<open>dilithium_verify::verify\<close> as the native (\<open>std\<close>) build compiles it.\<close>

definition verify_native :: "('pk, 'sig) pqcrypto \<Rightarrow> u8 list \<Rightarrow> u8 list \<Rightarrow> u8 list \<Rightarrow> bool" where
  "verify_native pq public_key message signature =
     (if length public_key \<noteq> DILITHIUM5_PK_SIZE then False
      else if length signature \<noteq> DILITHIUM5_SIG_SIZE then False
      else if message = [] then False
      else dilithium5_verify pq public_key message signature)"

text \<open>
  The host function reads the packed data from the externalities storage under
  \<open>DILITHIUM_VERIFY_KEY\<close>.
\<close>

type_synonym host_storage = "string \<rightharpoonup> u8 list"

definition DILITHIUM_VERIFY_KEY :: string where
  "DILITHIUM_VERIFY_KEY = '':dilithium_verify_data:''"

definition verify_dilithium5 :: "('pk, 'sig) pqcrypto \<Rightarrow> host_storage \<Rightarrow> u32" where
  "verify_dilithium5 pq storage =
     (case storage DILITHIUM_VERIFY_KEY of
        None \<Rightarrow> 0
      | Some data \<Rightarrow>
          (let HEADER = DILITHIUM5_PK_SIZE + DILITHIUM5_SIG_SIZE in
           if length data \<le> HEADER then 0
           else
             (let public_key = take DILITHIUM5_PK_SIZE data;
                  signature = take DILITHIUM5_SIG_SIZE (drop DILITHIUM5_PK_SIZE data);
                  message = drop HEADER data
              in if message = [] then 0
                 else if dilithium5_verify pq public_key message signature then 1 else 0)))"

text \<open>\<open>dilithium_verify::verify\<close> as the WASM (\<open>no_std\<close>) build compiles it.\<close>

definition verify_wasm ::
  "('pk, 'sig) pqcrypto \<Rightarrow> u8 list \<Rightarrow> u8 list \<Rightarrow> u8 list \<Rightarrow> host_storage \<Rightarrow> bool \<times> host_storage" where
  "verify_wasm pq public_key message signature storage =
     (if length public_key \<noteq> DILITHIUM5_PK_SIZE then (False, storage)
      else if length signature \<noteq> DILITHIUM5_SIG_SIZE then (False, storage)
      else if message = [] then (False, storage)
      else
        (let packed = public_key @ signature @ message;
             storage1 = storage(DILITHIUM_VERIFY_KEY \<mapsto> packed);
             result = verify_dilithium5 pq storage1;
             storage2 = storage1(DILITHIUM_VERIFY_KEY := None)
         in (result = 1, storage2)))"

lemma verify_dilithium5_packed:
  assumes "length public_key = DILITHIUM5_PK_SIZE" and "length signature = DILITHIUM5_SIG_SIZE"
    and "message \<noteq> []"
  shows "verify_dilithium5 pq (storage(DILITHIUM_VERIFY_KEY \<mapsto> public_key @ signature @ message)) =
    (if dilithium5_verify pq public_key message signature then 1 else 0)"
  using assms by (simp add: verify_dilithium5_def Let_def)

text \<open>
  The WASM build of the verifier, which packs the key, the signature and the message into
  storage and calls the host function, decides exactly what the native build decides, and
  leaves no entry under its storage key behind when there was none.
\<close>

theorem verify_wasm_agrees_with_native:
  assumes "storage DILITHIUM_VERIFY_KEY = None"
  shows "verify_wasm pq public_key message signature storage =
    (verify_native pq public_key message signature, storage)"
proof -
  have "(storage(DILITHIUM_VERIFY_KEY \<mapsto> d))(DILITHIUM_VERIFY_KEY := None) = storage" for d
    using assms by auto
  then show ?thesis
    by (auto simp: verify_wasm_def verify_native_def Let_def verify_dilithium5_packed)
qed

theorem verify_wasm_agrees_with_native_witness:
  "verify_wasm \<lparr>pk_from_bytes = Some, sig_from_bytes = Some, verify_detached = (\<lambda>s m k. True)\<rparr>
     (replicate 2592 0) [7] (replicate 4627 0) Map.empty = (True, Map.empty)"
  by (subst verify_wasm_agrees_with_native)
    (simp_all add: verify_native_def dilithium5_verify_def qbc_consts)

section \<open>The key registry\<close>

datatype dilithium_event = KeyRegistered address | KeyRevokedEvent address

datatype dilithium_error =
  InvalidPublicKey | KeyAlreadyRegistered | InvalidSignature | KeyNotFound | KeyRevoked

record dilithium_state =
  public_keys :: "address \<rightharpoonup> u8 list"
  total_keys :: u64
  revoked_keys :: "address \<rightharpoonup> bool"
  dil_events :: "dilithium_event list"

text \<open>The getter of \<open>RevokedKeys\<close>, a value query with default \<open>false\<close>.\<close>

definition is_revoked :: "dilithium_state \<Rightarrow> address \<Rightarrow> bool" where
  "is_revoked s a = (case revoked_keys s a of None \<Rightarrow> False | Some b \<Rightarrow> b)"

definition derive_address :: "(u8 list \<Rightarrow> h256) \<Rightarrow> u8 list \<Rightarrow> address" where
  "derive_address sha public_key = sha public_key"

definition verify_signature :: "('pk, 'sig) pqcrypto \<Rightarrow> u8 list \<Rightarrow> u8 list \<Rightarrow> u8 list \<Rightarrow> bool" where
  "verify_signature pq public_key message signature = verify_native pq public_key message signature"

definition get_public_key :: "dilithium_state \<Rightarrow> address \<Rightarrow> u8 list option" where
  "get_public_key s a = public_keys s a"

definition register_key ::
  "(u8 list \<Rightarrow> h256) \<Rightarrow> origin \<Rightarrow> u8 list \<Rightarrow> dilithium_state \<Rightarrow> dilithium_error dispatch_error + dilithium_state"
where
  "register_key sha orig public_key s =
     (case ensure_signed orig of
        Inl e \<Rightarrow> Inl e
      | Inr _ \<Rightarrow>
          if length public_key \<noteq> DILITHIUM5_PK_SIZE then Inl (Module InvalidPublicKey)
          else
            (let a = derive_address sha public_key in
             if public_keys s a \<noteq> None then Inl (Module KeyAlreadyRegistered)
             else if is_revoked s a then Inl (Module KeyRevoked)
             else Inr (s\<lparr>public_keys := (public_keys s)(a \<mapsto> public_key),
                         total_keys := saturating_add (total_keys s) 1,
                         dil_events := dil_events s @ [KeyRegistered a]\<rparr>)))"

definition revocation_msg :: "u8 list" where
  "revocation_msg = ascii ''QUBITCOIN_KEY_REVOCATION''"

definition revoke_key ::
  "('pk, 'sig) pqcrypto \<Rightarrow> origin \<Rightarrow> address \<Rightarrow> u8 list \<Rightarrow> dilithium_state
    \<Rightarrow> dilithium_error dispatch_error + dilithium_state"
where
  "revoke_key pq orig a revocation_sig s =
     (case ensure_signed orig of
        Inl e \<Rightarrow> Inl e
      | Inr _ \<Rightarrow>
          (case public_keys s a of
             None \<Rightarrow> Inl (Module KeyNotFound)
           | Some pk \<Rightarrow>
               if is_revoked s a then Inl (Module KeyRevoked)
               else if \<not> verify_signature pq pk revocation_msg revocation_sig
                 then Inl (Module InvalidSignature)
               else Inr (s\<lparr>public_keys := (public_keys s)(a := None),
                           revoked_keys := (revoked_keys s)(a \<mapsto> True),
                           total_keys := saturating_sub (total_keys s) 1,
                           dil_events := dil_events s @ [KeyRevokedEvent a]\<rparr>)))"

definition sudo_register_key_for_address ::
  "origin \<Rightarrow> address \<Rightarrow> u8 list \<Rightarrow> dilithium_state \<Rightarrow> dilithium_error dispatch_error + dilithium_state"
where
  "sudo_register_key_for_address orig a public_key s =
     (case ensure_root orig of
        Inl e \<Rightarrow> Inl e
      | Inr _ \<Rightarrow>
          if length public_key \<noteq> DILITHIUM5_PK_SIZE then Inl (Module InvalidPublicKey)
          else if public_keys s a \<noteq> None then Inl (Module KeyAlreadyRegistered)
          else if is_revoked s a then Inl (Module KeyRevoked)
          else Inr (s\<lparr>public_keys := (public_keys s)(a \<mapsto> public_key),
                      total_keys := saturating_add (total_keys s) 1,
                      dil_events := dil_events s @ [KeyRegistered a]\<rparr>))"

section \<open>Runs of the registry\<close>

text \<open>Any interleaving of successful calls; a failed call leaves the registry as it was.\<close>

inductive dil_step ::
  "(u8 list \<Rightarrow> h256) \<Rightarrow> ('pk, 'sig) pqcrypto \<Rightarrow> dilithium_state \<Rightarrow> dilithium_state \<Rightarrow> bool"
  for sha pq
where
  dil_register: "register_key sha orig pk s = Inr t \<Longrightarrow> dil_step sha pq s t"
| dil_revoke: "revoke_key pq orig a sg s = Inr t \<Longrightarrow> dil_step sha pq s t"
| dil_sudo: "sudo_register_key_for_address orig a pk s = Inr t \<Longrightarrow> dil_step sha pq s t"

definition dil_genesis :: dilithium_state where
  "dil_genesis = \<lparr>public_keys = Map.empty, total_keys = 0, revoked_keys = Map.empty, dil_events = []\<rparr>"

inductive dil_reachable ::
  "(u8 list \<Rightarrow> h256) \<Rightarrow> ('pk, 'sig) pqcrypto \<Rightarrow> dilithium_state \<Rightarrow> bool"
  for sha pq
where
  dil_start: "dil_reachable sha pq dil_genesis"
| dil_next: "dil_reachable sha pq s \<Longrightarrow> dil_step sha pq s t \<Longrightarrow> dil_reachable sha pq t"

text \<open>
  The registry invariant: stored keys have the Dilithium5 size, no revoked address holds a
  key, and the counter is the number of registered keys (as long as fewer than \<open>2 ^ 64\<close>
  events were deposited, so that the counter cannot have saturated).
\<close>

definition dil_inv :: "dilithium_state \<Rightarrow> bool" where
  "dil_inv s \<longleftrightarrow>
     finite (dom (public_keys s)) \<and>
     (\<forall>a pk. public_keys s a = Some pk \<longrightarrow> length pk = DILITHIUM5_PK_SIZE) \<and>
     (\<forall>a. is_revoked s a \<longrightarrow> public_keys s a = None) \<and>
     card (dom (public_keys s)) \<le> length (dil_events s) \<and>
     (length (dil_events s) < 2 ^ 64 \<longrightarrow> unat (total_keys s) = card (dom (public_keys s)))"

lemma register_key_InrD:
  assumes "register_key sha orig pk s = Inr t"
  shows "\<exists>who. orig = Signed who" and "length pk = DILITHIUM5_PK_SIZE"
    and "public_keys s (sha pk) = None" and "\<not> is_revoked s (sha pk)"
    and "t = s\<lparr>public_keys := (public_keys s)(sha pk \<mapsto> pk),
                total_keys := saturating_add (total_keys s) 1,
                dil_events := dil_events s @ [KeyRegistered (sha pk)]\<rparr>"
  using assms
  by (auto simp: register_key_def derive_address_def Let_def split: sum.splits if_splits)

lemma revoke_key_InrD:
  assumes "revoke_key pq orig a sg s = Inr t"
  obtains pk where "public_keys s a = Some pk" and "\<not> is_revoked s a"
    and "verify_signature pq pk revocation_msg sg"
    and "t = s\<lparr>public_keys := (public_keys s)(a := None), revoked_keys := (revoked_keys s)(a \<mapsto> True),
                total_keys := saturating_sub (total_keys s) 1,
                dil_events := dil_events s @ [KeyRevokedEvent a]\<rparr>"
  using assms
  by (auto simp: revoke_key_def split: sum.splits if_splits option.splits)

lemma sudo_register_InrD:
  assumes "sudo_register_key_for_address orig a pk s = Inr t"
  shows "orig = Root" and "length pk = DILITHIUM5_PK_SIZE"
    and "public_keys s a = None" and "\<not> is_revoked s a"
    and "t = s\<lparr>public_keys := (public_keys s)(a \<mapsto> pk),
                total_keys := saturating_add (total_keys s) 1,
                dil_events := dil_events s @ [KeyRegistered a]\<rparr>"
  using assms
  by (auto simp: sudo_register_key_for_address_def split: sum.splits if_splits)

text \<open>What each step does to the registry, in the two forms a step can take.\<close>

lemma dil_step_cases:
  assumes "dil_step sha pq s t"
  obtains (register) a pk where "length pk = DILITHIUM5_PK_SIZE" "public_keys s a = None" "\<not> is_revoked s a"
      "t = s\<lparr>public_keys := (public_keys s)(a \<mapsto> pk), total_keys := saturating_add (total_keys s) 1,
             dil_events := dil_events s @ [KeyRegistered a]\<rparr>"
    | (revoke) a pk where "public_keys s a = Some pk" "\<not> is_revoked s a"
      "t = s\<lparr>public_keys := (public_keys s)(a := None), revoked_keys := (revoked_keys s)(a \<mapsto> True),
             total_keys := saturating_sub (total_keys s) 1, dil_events := dil_events s @ [KeyRevokedEvent a]\<rparr>"
  using assms
proof (cases rule: dil_step.cases)
  case (dil_register orig pk)
  then show ?thesis using register_key_InrD [OF dil_register] register by blast
next
  case (dil_revoke orig a sg)
  then show ?thesis using revoke_key_InrD [OF dil_revoke] revoke by metis
next
  case (dil_sudo orig a pk)
  then show ?thesis using sudo_register_InrD [OF dil_sudo] register by blast
qed

lemma dil_inv_step:
  assumes inv: "dil_inv s" and step: "dil_step sha pq s t"
  shows "dil_inv t"
  using step
proof (cases rule: dil_step_cases)
  case (register a pk)
  have "unat (saturating_add (total_keys s) 1) = Suc (card (dom (public_keys s)))"
    if "Suc (length (dil_events s)) < 2 ^ 64"
    using inv that by (simp add: dil_inv_def unat_saturating_add)
  then show ?thesis
    using inv register by (auto simp: dil_inv_def is_revoked_def domIff)
next
  case (revoke a pk)
  have "a \<in> dom (public_keys s)" using revoke(1) by auto
  moreover have "card (dom (public_keys s)) - 1 \<le> length (dil_events s)"
    using inv unfolding dil_inv_def by linarith
  ultimately show ?thesis
    using inv revoke
    by (auto simp: dil_inv_def is_revoked_def rust_arith dom_fun_upd card_Diff_singleton split: if_splits)
qed

lemma dil_inv_genesis: "dil_inv dil_genesis"
  by (simp add: dil_inv_def dil_genesis_def is_revoked_def)

lemma dil_reachable_inv: "dil_reachable sha pq s \<Longrightarrow> dil_inv s"
  by (induction rule: dil_reachable.induct) (auto intro: dil_inv_genesis dil_inv_step)

lemma dil_step_revoked:
  "dil_step sha pq s t \<Longrightarrow> is_revoked s a \<Longrightarrow> is_revoked t a"
  by (erule dil_step_cases) (auto simp: is_revoked_def split: if_splits)

lemma dil_steps_revoked:
  assumes "rtranclp (dil_step sha pq) s t" and "is_revoked s a" and "dil_inv s"
  shows "is_revoked t a \<and> dil_inv t \<and> public_keys t a = None"
  using assms(1)
proof (induction rule: rtranclp_induct)
  case base
  then show ?case using assms by (simp add: dil_inv_def)
next
  case (step u v)
  then have "is_revoked v a" "dil_inv v" by (auto intro: dil_step_revoked dil_inv_step)
  then show ?case by (simp add: dil_inv_def)
qed

text \<open>
  In every reachable registry the stored keys have the Dilithium5 size, no revoked address
  has a key, and the counter is the number of registered keys.
\<close>

theorem registry_invariant:
  assumes "dil_reachable sha pq s"
  shows "(\<forall>a pk. public_keys s a = Some pk \<longrightarrow> length pk = 2592 \<and> \<not> is_revoked s a) \<and>
    finite (dom (public_keys s)) \<and>
    (length (dil_events s) < 2 ^ 64 \<longrightarrow> unat (total_keys s) = card (dom (public_keys s)))"
  using dil_reachable_inv [OF assms] by (auto simp: dil_inv_def qbc_consts)

lemma example_register:
  "register_key (\<lambda>_. 9) (Signed 1) (replicate 2592 0) dil_genesis =
     Inr (dil_genesis\<lparr>public_keys := [9 \<mapsto> replicate 2592 0], total_keys := 1, dil_events := [KeyRegistered 9]\<rparr>)"
  by (simp add: register_key_def derive_address_def is_revoked_def dil_genesis_def qbc_consts saturating_add_def)

theorem registry_invariant_witness:
  "unat (total_keys (dil_genesis\<lparr>public_keys := [9 \<mapsto> replicate 2592 0], total_keys := 1,
     dil_events := [KeyRegistered 9]\<rparr>)) = 1"
proof -
  have "dil_reachable (\<lambda>_. 9) \<lparr>pk_from_bytes = Some, sig_from_bytes = Some, verify_detached = (\<lambda>s m k. True)\<rparr>
      (dil_genesis\<lparr>public_keys := [9 \<mapsto> replicate 2592 0], total_keys := 1, dil_events := [KeyRegistered 9]\<rparr>)"
    by (rule dil_next [OF dil_start dil_register [OF example_register]])
  from registry_invariant [OF this] show ?thesis by simp
qed

end
