(* ===== verification/Ledger_Spec.thy ===== *)
theory Ledger_Spec
  imports Prelude
begin

text \<open>
  The contract of a keyed ledger, as the transaction and reversal handlers use the UTXO
  storage: an entry can be taken out under its key or put in under a fresh key, and each of
  the two keeps the ledger invariant and moves the ledger's value by the worth of the entry.
  The client lemmas lift the two laws to the loops of the handlers and to the composition
  \<open>take all inputs, then put all outputs\<close>, which preserves value up to the fee.
\<close>

locale ledger =
  fixes ok :: "'s \<Rightarrow> bool"
    and entry :: "'s \<Rightarrow> 'k \<rightharpoonup> 'v"
    and volume :: "'s \<Rightarrow> nat"
    and entries :: "'s \<Rightarrow> nat"
    and worth :: "'v \<Rightarrow> nat"
    and fits :: "'k \<Rightarrow> 'v \<Rightarrow> bool"
    and take_entry :: "'k \<Rightarrow> 'v \<Rightarrow> 's \<Rightarrow> 's"
    and put_entry :: "'k \<Rightarrow> 'v \<Rightarrow> 's \<Rightarrow> 's"
    and capacity :: nat
    and room :: nat
  assumes take_ok: "ok s \<Longrightarrow> entry s k = Some v \<Longrightarrow> ok (take_entry k v s)"
    and take_entry_at: "ok s \<Longrightarrow> entry s k = Some v \<Longrightarrow> entry (take_entry k v s) = (entry s)(k := None)"
    and take_volume: "ok s \<Longrightarrow> entry s k = Some v \<Longrightarrow> volume (take_entry k v s) + worth v = volume s"
    and take_entries: "ok s \<Longrightarrow> entry s k = Some v \<Longrightarrow> Suc (entries (take_entry k v s)) = entries s"
    and put_ok: "ok s \<Longrightarrow> entry s k = None \<Longrightarrow> fits k v \<Longrightarrow> volume s + worth v < capacity \<Longrightarrow>
      entries s + 1 < room \<Longrightarrow> ok (put_entry k v s)"
    and put_entry_at: "ok s \<Longrightarrow> entry s k = None \<Longrightarrow> entry (put_entry k v s) = (entry s)(k \<mapsto> v)"
    and put_volume: "ok s \<Longrightarrow> entry s k = None \<Longrightarrow> volume (put_entry k v s) = volume s + worth v"
    and put_entries: "ok s \<Longrightarrow> entry s k = None \<Longrightarrow> entries (put_entry k v s) = Suc (entries s)"
begin

definition take_all :: "('k \<times> 'v) list \<Rightarrow> 's \<Rightarrow> 's" where
  "take_all kvs = fold (\<lambda>(k, v). take_entry k v) kvs"

definition put_all :: "('k \<times> 'v) list \<Rightarrow> 's \<Rightarrow> 's" where
  "put_all kvs = fold (\<lambda>(k, v). put_entry k v) kvs"

definition total_worth :: "('k \<times> 'v) list \<Rightarrow> nat" where
  "total_worth kvs = (\<Sum>kv \<leftarrow> kvs. worth (snd kv))"

lemma take_all_simps [simp]:
  "take_all [] s = s" "take_all ((k, v) # kvs) s = take_all kvs (take_entry k v s)"
  by (simp_all add: take_all_def)

lemma put_all_simps [simp]:
  "put_all [] s = s" "put_all ((k, v) # kvs) s = put_all kvs (put_entry k v s)"
  by (simp_all add: put_all_def)

lemma total_worth_simps [simp]:
  "total_worth [] = 0" "total_worth ((k, v) # kvs) = worth v + total_worth kvs"
  by (simp_all add: total_worth_def)

lemma take_all_correct:
  assumes "ok s" and "distinct (map fst kvs)" and "\<And>k v. (k, v) \<in> set kvs \<Longrightarrow> entry s k = Some v"
  shows "ok (take_all kvs s) \<and> volume (take_all kvs s) + total_worth kvs = volume s \<and>
    entries (take_all kvs s) + length kvs = entries s \<and>
    (\<forall>k. entry (take_all kvs s) k = (if k \<in> fst ` set kvs then None else entry s k))"
  using assms
proof (induction kvs arbitrary: s)
  case (Cons kv kvs)
  obtain k v where kv: "kv = (k, v)" by (cases kv)
  have here: "entry s k = Some v" using Cons.prems(3) kv by simp
  have rest: "entry (take_entry k v s) j = Some w" if "(j, w) \<in> set kvs" for j w
  proof -
    have "j \<in> set (map fst kvs)" using that by force
    then have "j \<noteq> k" using Cons.prems(2) kv by auto
    then show ?thesis
      using that Cons.prems(3) kv by (simp add: take_entry_at [OF Cons.prems(1) here])
  qed
  have "distinct (map fst kvs)" using Cons.prems(2) by simp
  note IH = Cons.IH [OF take_ok [OF Cons.prems(1) here] this rest]
  show ?case
    using IH take_volume [OF Cons.prems(1) here] take_entries [OF Cons.prems(1) here]
    by (auto simp: kv take_entry_at [OF Cons.prems(1) here])
qed simp

lemma put_all_correct:
  assumes "ok s" and "distinct (map fst kvs)" and "\<And>k v. (k, v) \<in> set kvs \<Longrightarrow> entry s k = None \<and> fits k v"
    and "volume s + total_worth kvs < capacity" and "entries s + length kvs < room"
  shows "ok (put_all kvs s) \<and> volume (put_all kvs s) = volume s + total_worth kvs \<and>
    entries (put_all kvs s) = entries s + length kvs \<and>
    (\<forall>k. entry (put_all kvs s) k = (case map_of kvs k of None \<Rightarrow> entry s k | Some v \<Rightarrow> Some v))"
  using assms
proof (induction kvs arbitrary: s)
  case (Cons kv kvs)
  obtain k v where kv: "kv = (k, v)" by (cases kv)
  have here: "entry s k = None" and fit: "fits k v" using Cons.prems(3) kv by auto
  have ok': "ok (put_entry k v s)"
    using Cons.prems(4,5) kv by (intro put_ok Cons.prems(1) here fit) auto
  have fresh: "k \<notin> fst ` set kvs" using Cons.prems(2) kv by simp
  have rest: "entry (put_entry k v s) j = None \<and> fits j w" if "(j, w) \<in> set kvs" for j w
    using that fresh Cons.prems(3) kv by (force simp: put_entry_at [OF Cons.prems(1) here])
  have dist: "distinct (map fst kvs)" using Cons.prems(2) by simp
  have bounds: "volume (put_entry k v s) + total_worth kvs < capacity"
    "entries (put_entry k v s) + length kvs < room"
    using Cons.prems(4,5) kv
    by (auto simp: put_volume [OF Cons.prems(1) here] put_entries [OF Cons.prems(1) here])
  note IH = Cons.IH [OF ok' dist rest bounds]
  have "map_of kvs k = None" using fresh by (simp add: map_of_eq_None_iff)
  then show ?case
    using IH
    by (auto simp: kv put_volume [OF Cons.prems(1) here] put_entries [OF Cons.prems(1) here]
        put_entry_at [OF Cons.prems(1) here] split: option.splits)
qed simp

text \<open>Take the inputs out, put the outputs in: what leaves the ledger is the difference.\<close>

lemma transfer_correct:
  assumes "ok s" and "distinct (map fst ins)" and "\<And>k v. (k, v) \<in> set ins \<Longrightarrow> entry s k = Some v"
    and "distinct (map fst outs)" and "\<And>k v. (k, v) \<in> set outs \<Longrightarrow> entry s k = None \<and> fits k v"
    and "total_worth outs \<le> total_worth ins" and "volume s < capacity"
    and "entries s + length outs < room"
  shows "ok (put_all outs (take_all ins s)) \<and>
    volume (put_all outs (take_all ins s)) + total_worth ins = volume s + total_worth outs \<and>
    (\<forall>k. entry (put_all outs (take_all ins s)) k =
      (case map_of outs k of Some v \<Rightarrow> Some v
       | None \<Rightarrow> if k \<in> fst ` set ins then None else entry s k))"
proof -
  let ?t = "take_all ins s"
  note T = take_all_correct [OF assms(1-3), simplified]
  have fresh: "entry ?t k = None \<and> fits k v" if "(k, v) \<in> set outs" for k v
    using T assms(5) [OF that] by auto
  have bounds: "volume ?t + total_worth outs < capacity" "entries ?t + length outs < room"
    using T assms(6-8) by linarith+
  show ?thesis
    using put_all_correct [of ?t outs, OF _ assms(4) fresh bounds] T
    by (auto split: option.splits)
qed

end

end
