(* ===== verification/Utxo.thy ===== *)
theory Utxo
  imports Dilithium Ledger_Spec
begin

text \<open>
  The UTXO ledger of \<open>substrate-node/pallets/qbc-utxo/src/lib.rs\<close>: storage, events and errors,
  the transaction call, the coinbase and fee functions the consensus pallet calls, and the
  genesis build. The freeze checker is an argument (the reversibility pallet supplies it),
  SHA-256 and the signature library are parameters. The ledger invariant ties the balance
  cache and the counter to the set of unspent outputs.
\<close>

section \<open>Storage, events and errors\<close>

definition MAX_INPUTS :: nat where [qbc_consts]: "MAX_INPUTS = 256"
definition MAX_OUTPUTS :: nat where [qbc_consts]: "MAX_OUTPUTS = 256"

datatype utxo_event =
  TransactionProcessed tx_id u32 u32
| UtxoCreated tx_id u32 address qbc_balance
| UtxoSpent tx_id u32
| CoinbaseCreated tx_id address qbc_balance
| FeesBurned qbc_balance qbc_balance

datatype utxo_error =
  UtxoNotFound | UtxoInvalidSignature | InsufficientFunds | NoInputs | NoOutputs | DuplicateInput
| ZeroAmountOutput | CoinbaseNotMature | AmountOverflow | UtxoAlreadySpent | UtxoFrozen

record utxo_state =
  utxo_set :: "utxo_key \<rightharpoonup> utxo"
  balances :: "address \<Rightarrow> qbc_balance"
  utxo_count :: u64
  tx_count :: u64
  current_height :: u64
  accumulated_fees :: qbc_balance
  total_fees_burned :: qbc_balance
  spent_utxos :: "utxo_key \<rightharpoonup> bool"
  height_migration_done :: bool
  utxo_events :: "utxo_event list"

section \<open>Messages and identifiers\<close>

definition input_bytes :: "tx_input \<Rightarrow> u8 list" where
  "input_bytes i = be_bytes (prev_txid i) @ le_bytes (prev_vout i)"

definition output_bytes :: "tx_output \<Rightarrow> u8 list" where
  "output_bytes out = be_bytes (out_address out) @ le_bytes (out_amount out)"

definition signing_message :: "tx_input list \<Rightarrow> tx_output list \<Rightarrow> u8 list" where
  "signing_message inputs outputs = concat (map input_bytes inputs) @ concat (map output_bytes outputs)"

definition compute_txid :: "(u8 list \<Rightarrow> h256) \<Rightarrow> tx_input list \<Rightarrow> tx_output list \<Rightarrow> tx_id" where
  "compute_txid sha inputs outputs =
     sha (concat (map input_bytes inputs) @ concat (map output_bytes outputs))"

section \<open>The transaction call\<close>

text \<open>The two nested loops over index pairs.\<close>

fun has_duplicate_input :: "tx_input list \<Rightarrow> bool" where
  "has_duplicate_input [] = False"
| "has_duplicate_input (i # rest) =
     (list_ex (\<lambda>j. prev_txid i = prev_txid j \<and> prev_vout i = prev_vout j) rest \<or> has_duplicate_input rest)"

text \<open>The loop over the inputs, with the running total and the outputs found so far.\<close>

fun validate_inputs ::
  "('pk, 'sig) pqcrypto \<Rightarrow> dilithium_state \<Rightarrow> utxo_state \<Rightarrow> u8 list \<Rightarrow> u8 list list
    \<Rightarrow> tx_input list \<Rightarrow> nat \<Rightarrow> qbc_balance \<Rightarrow> utxo list \<Rightarrow> utxo_error + qbc_balance \<times> utxo list"
where
  "validate_inputs pq dil s msg signatures [] i running acc = Inr (running, acc)"
| "validate_inputs pq dil s msg signatures (inp # rest) i running acc =
     (case utxo_set s (prev_txid inp, prev_vout inp) of
        None \<Rightarrow> Inl UtxoNotFound
      | Some u \<Rightarrow>
          if utxo_is_coinbase u \<and>
             \<not> ucast COINBASE_MATURITY \<le> saturating_sub (current_height s) (utxo_block_height u)
          then Inl CoinbaseNotMature
          else if \<not> i < length signatures then Inl UtxoInvalidSignature
          else
            (case get_public_key dil (utxo_address u) of
               None \<Rightarrow> Inl UtxoInvalidSignature
             | Some pk \<Rightarrow>
                 if \<not> verify_signature pq pk msg (signatures ! i) then Inl UtxoInvalidSignature
                 else
                   (case checked_add running (utxo_amount u) of
                      None \<Rightarrow> Inl AmountOverflow
                    | Some running' \<Rightarrow>
                        validate_inputs pq dil s msg signatures rest (i + 1) running' (acc @ [u]))))"

fun sum_outputs :: "tx_output list \<Rightarrow> qbc_balance \<Rightarrow> utxo_error + qbc_balance" where
  "sum_outputs [] running = Inr running"
| "sum_outputs (out # rest) running =
     (if \<not> 0 < out_amount out then Inl ZeroAmountOutput
      else (case checked_add running (out_amount out) of
              None \<Rightarrow> Inl AmountOverflow
            | Some running' \<Rightarrow> sum_outputs rest running'))"

text \<open>The body of the loop that removes the spent outputs, and of the one that creates the new ones.\<close>

definition spend_utxo :: "tx_input \<Rightarrow> utxo \<Rightarrow> utxo_state \<Rightarrow> utxo_state" where
  "spend_utxo inp u s =
     s\<lparr>utxo_set := (utxo_set s)((prev_txid inp, prev_vout inp) := None),
       spent_utxos := (spent_utxos s)((prev_txid inp, prev_vout inp) \<mapsto> True),
       balances := (balances s)(utxo_address u := saturating_sub (balances s (utxo_address u)) (utxo_amount u)),
       utxo_count := saturating_sub (utxo_count s) 1,
       utxo_events := utxo_events s @ [UtxoSpent (prev_txid inp) (prev_vout inp)]\<rparr>"

definition insert_utxo :: "utxo_key \<Rightarrow> utxo \<Rightarrow> utxo_state \<Rightarrow> utxo_state" where
  "insert_utxo k u s =
     s\<lparr>utxo_set := (utxo_set s)(k \<mapsto> u),
       balances := (balances s)(utxo_address u := saturating_add (balances s (utxo_address u)) (utxo_amount u)),
       utxo_count := saturating_add (utxo_count s) 1\<rparr>"

definition create_utxo :: "utxo_key \<Rightarrow> utxo \<Rightarrow> utxo_state \<Rightarrow> utxo_state" where
  "create_utxo k u s =
     (let s' = insert_utxo k u s
      in s'\<lparr>utxo_events := utxo_events s' @ [UtxoCreated (fst k) (snd k) (utxo_address u) (utxo_amount u)]\<rparr>)"

definition output_utxo :: "tx_id \<Rightarrow> u64 \<Rightarrow> nat \<times> tx_output \<Rightarrow> utxo" where
  "output_utxo txid height = (\<lambda>(vout, out).
     \<lparr>utxo_txid = txid, utxo_vout = of_nat vout, utxo_address = out_address out,
      utxo_amount = out_amount out, utxo_block_height = height, utxo_is_coinbase = False\<rparr>)"

definition create_output :: "tx_id \<Rightarrow> u64 \<Rightarrow> nat \<times> tx_output \<Rightarrow> utxo_state \<Rightarrow> utxo_state" where
  "create_output txid height vo = create_utxo (txid, of_nat (fst vo)) (output_utxo txid height vo)"

definition apply_transaction ::
  "tx_id \<Rightarrow> u64 \<Rightarrow> tx_input list \<Rightarrow> utxo list \<Rightarrow> tx_output list \<Rightarrow> utxo_state \<Rightarrow> utxo_state"
where
  "apply_transaction txid height inputs input_utxos outputs s =
     (let s1 = fold (\<lambda>(inp, u). spend_utxo inp u) (zip inputs input_utxos) s;
          s2 = fold (create_output txid height) (enumerate 0 outputs) s1
      in s2\<lparr>tx_count := saturating_add (tx_count s2) 1,
            utxo_events := utxo_events s2 @
              [TransactionProcessed txid (of_nat (length inputs)) (of_nat (length outputs))]\<rparr>)"

definition submit_transaction ::
  "(u8 list \<Rightarrow> h256) \<Rightarrow> ('pk, 'sig) pqcrypto \<Rightarrow> (utxo_key \<Rightarrow> bool) \<Rightarrow> dilithium_state \<Rightarrow> origin
    \<Rightarrow> tx_input list \<Rightarrow> tx_output list \<Rightarrow> u8 list list \<Rightarrow> utxo_state
    \<Rightarrow> utxo_error dispatch_error + utxo_state"
where
  "submit_transaction sha pq is_frozen dil orig inputs outputs signatures s =
     (case ensure_signed orig of
        Inl e \<Rightarrow> Inl e
      | Inr _ \<Rightarrow>
          if inputs = [] then Inl (Module NoInputs)
          else if outputs = [] then Inl (Module NoOutputs)
          else if has_duplicate_input inputs then Inl (Module DuplicateInput)
          else if list_ex (\<lambda>inp. spent_utxos s (prev_txid inp, prev_vout inp) \<noteq> None) inputs
            then Inl (Module UtxoAlreadySpent)
          else if list_ex (\<lambda>inp. is_frozen (prev_txid inp, prev_vout inp)) inputs
            then Inl (Module UtxoFrozen)
          else
            (case validate_inputs pq dil s (signing_message inputs outputs) signatures inputs 0 0 [] of
               Inl e \<Rightarrow> Inl (Module e)
             | Inr (total_input, input_utxos) \<Rightarrow>
                 (case sum_outputs outputs 0 of
                    Inl e \<Rightarrow> Inl (Module e)
                  | Inr total_output \<Rightarrow>
                      if \<not> total_output \<le> total_input then Inl (Module InsufficientFunds)
                      else
                        (let fee = saturating_sub total_input total_output;
                             s1 = (if 0 < fee
                                   then s\<lparr>accumulated_fees := saturating_add (accumulated_fees s) fee\<rparr>
                                   else s);
                             txid = compute_txid sha inputs outputs
                         in Inr (apply_transaction txid (current_height s) inputs input_utxos outputs s1)))))"

section \<open>The functions the consensus pallet calls, hooks and genesis\<close>

definition create_coinbase :: "tx_id \<Rightarrow> address \<Rightarrow> qbc_balance \<Rightarrow> u64 \<Rightarrow> utxo_state \<Rightarrow> utxo_state" where
  "create_coinbase txid addr reward block_height s =
     (let u = \<lparr>utxo_txid = txid, utxo_vout = 0, utxo_address = addr, utxo_amount = reward,
               utxo_block_height = block_height, utxo_is_coinbase = True\<rparr>;
          s' = insert_utxo (txid, 0) u s
      in s'\<lparr>utxo_events := utxo_events s' @ [CoinbaseCreated txid addr reward]\<rparr>)"

definition finalize_fees_with_burn :: "utxo_state \<Rightarrow> qbc_balance \<times> utxo_state" where
  "finalize_fees_with_burn s =
     (let total_fees = accumulated_fees s in
      if total_fees = 0 then (0, s)
      else
        (let burn_amount = (total_fees + 1) div 2;
             miner_share = saturating_sub total_fees burn_amount;
             s1 = s\<lparr>total_fees_burned := saturating_add (total_fees_burned s) burn_amount\<rparr>;
             s2 = s1\<lparr>accumulated_fees := 0\<rparr>;
             total_burned = total_fees_burned s2
         in (miner_share, s2\<lparr>utxo_events := utxo_events s2 @ [FeesBurned burn_amount total_burned]\<rparr>)))"

definition reset_accumulated_fees :: "utxo_state \<Rightarrow> utxo_state" where
  "reset_accumulated_fees s = s\<lparr>accumulated_fees := 0\<rparr>"

definition set_block_height :: "u64 \<Rightarrow> utxo_state \<Rightarrow> utxo_state" where
  "set_block_height height s = s\<lparr>spent_utxos := Map.empty, current_height := height\<rparr>"

definition utxo_on_initialize :: "utxo_state \<Rightarrow> utxo_state" where
  "utxo_on_initialize s =
     (if \<not> height_migration_done s
      then s\<lparr>current_height := saturating_add (current_height s) 80000, height_migration_done := True\<rparr>
      else s)"

definition utxo_empty :: utxo_state where
  "utxo_empty = \<lparr>utxo_set = Map.empty, balances = (\<lambda>_. 0), utxo_count = 0, tx_count = 0,
     current_height = 0, accumulated_fees = 0, total_fees_burned = 0, spent_utxos = Map.empty,
     height_migration_done = False, utxo_events = []\<rparr>"

definition genesis_utxo :: "utxo \<Rightarrow> utxo_state \<Rightarrow> utxo_state" where
  "genesis_utxo u = create_utxo (utxo_txid u, utxo_vout u) u"

definition utxo_genesis_build :: "utxo list \<Rightarrow> utxo_state" where
  "utxo_genesis_build us =
     (let max_height = fold max (map utxo_block_height us) 0;
          s0 = (if 0 < max_height then utxo_empty\<lparr>current_height := max_height\<rparr> else utxo_empty)
      in fold genesis_utxo us s0)"

section \<open>The ledger invariant\<close>

definition amount_of :: "utxo \<Rightarrow> nat" where
  "amount_of u = unat (utxo_amount u)"

definition holding :: "address \<Rightarrow> utxo \<Rightarrow> nat" where
  "holding a u = (if utxo_address u = a then amount_of u else 0)"

text \<open>The value of the unspent outputs.\<close>

definition ledger_value :: "utxo_state \<Rightarrow> nat" where
  "ledger_value s = storage_sum amount_of (utxo_set s)"

definition utxo_entries :: "utxo_state \<Rightarrow> nat" where
  "utxo_entries s = card (dom (utxo_set s))"

text \<open>
  Every output is stored under its own key, the balance cache is the sum of the outputs of
  the address, and the counter is the number of outputs.
\<close>

definition ledger_inv :: "utxo_state \<Rightarrow> bool" where
  "ledger_inv s \<longleftrightarrow>
     finite (dom (utxo_set s)) \<and>
     (\<forall>k u. utxo_set s k = Some u \<longrightarrow> utxo_key u = k) \<and>
     (\<forall>a. unat (balances s a) = storage_sum (holding a) (utxo_set s)) \<and>
     unat (utxo_count s) = utxo_entries s"

lemma ledger_invI:
  assumes "finite (dom (utxo_set s))" and "\<And>k u. utxo_set s k = Some u \<Longrightarrow> utxo_key u = k"
    and "\<And>a. unat (balances s a) = storage_sum (holding a) (utxo_set s)"
    and "unat (utxo_count s) = utxo_entries s"
  shows "ledger_inv s"
  using assms by (simp add: ledger_inv_def)

lemma ledger_invD:
  assumes "ledger_inv s"
  shows "finite (dom (utxo_set s))" and "utxo_set s k = Some u \<Longrightarrow> utxo_key u = k"
    and "unat (balances s a) = storage_sum (holding a) (utxo_set s)"
    and "unat (utxo_count s) = utxo_entries s"
  using assms unfolding ledger_inv_def by blast+

text \<open>The invariant and the value read only three fields.\<close>

definition same_ledger :: "utxo_state \<Rightarrow> utxo_state \<Rightarrow> bool" where
  "same_ledger s t \<longleftrightarrow> utxo_set s = utxo_set t \<and> balances s = balances t \<and> utxo_count s = utxo_count t"

lemma same_ledger_inv: "same_ledger s t \<Longrightarrow> ledger_inv s = ledger_inv t"
  by (simp add: same_ledger_def ledger_inv_def utxo_entries_def)

lemma same_ledger_value: "same_ledger s t \<Longrightarrow> ledger_value s = ledger_value t"
  by (simp add: same_ledger_def ledger_value_def)

lemma holding_le_amount: "holding a u \<le> amount_of u"
  by (simp add: holding_def)

lemma balance_le_value:
  assumes "ledger_inv s"
  shows "unat (balances s a) \<le> ledger_value s"
  unfolding ledger_invD(3) [OF assms] ledger_value_def by (intro storage_sum_mono holding_le_amount)

definition remove_utxo :: "utxo_key \<Rightarrow> utxo \<Rightarrow> utxo_state \<Rightarrow> utxo_state" where
  "remove_utxo k u s =
     s\<lparr>utxo_set := (utxo_set s)(k := None),
       balances := (balances s)(utxo_address u := saturating_sub (balances s (utxo_address u)) (utxo_amount u)),
       utxo_count := saturating_sub (utxo_count s) 1\<rparr>"

lemma remove_utxo_inv:
  assumes inv: "ledger_inv s" and k: "utxo_set s k = Some u"
  shows "ledger_inv (remove_utxo k u s)"
proof (rule ledger_invI)
  note I = ledger_invD [OF inv]
  show "finite (dom (utxo_set (remove_utxo k u s)))"
    using I(1) by (simp add: remove_utxo_def)
  show "utxo_key v = j" if "utxo_set (remove_utxo k u s) j = Some v" for j v
    using that I(2) by (simp add: remove_utxo_def split: if_splits)
  show "unat (balances (remove_utxo k u s) a) = storage_sum (holding a) (utxo_set (remove_utxo k u s))" for a
    using storage_sum_delete [OF I(1) k, of "holding a"] I(3) [of a]
    by (auto simp: remove_utxo_def rust_arith holding_def amount_of_def)
  have "k \<in> dom (utxo_set s)" using k by auto
  then show "unat (utxo_count (remove_utxo k u s)) = utxo_entries (remove_utxo k u s)"
    using I(1,4) by (simp add: remove_utxo_def rust_arith utxo_entries_def dom_fun_upd card_Diff_singleton)
qed

lemma remove_utxo_value:
  assumes "ledger_inv s" and "utxo_set s k = Some u"
  shows "ledger_value (remove_utxo k u s) + amount_of u = ledger_value s"
  using storage_sum_delete [OF ledger_invD(1) [OF assms(1)] assms(2), of amount_of]
  by (simp add: ledger_value_def remove_utxo_def)

lemma remove_utxo_entries:
  assumes "ledger_inv s" and "utxo_set s k = Some u"
  shows "Suc (utxo_entries (remove_utxo k u s)) = utxo_entries s"
proof -
  have "k \<in> dom (utxo_set s)" using assms(2) by auto
  then show ?thesis
    using card_Suc_Diff1 [OF ledger_invD(1) [OF assms(1)]] by (simp add: utxo_entries_def remove_utxo_def)
qed

lemma insert_utxo_inv:
  assumes inv: "ledger_inv s" and k: "utxo_set s k = None" and key: "utxo_key u = k"
    and room: "ledger_value s + amount_of u < 2 ^ 128" and count: "utxo_entries s + 1 < 2 ^ 64"
  shows "ledger_inv (insert_utxo k u s)"
proof (rule ledger_invI)
  note I = ledger_invD [OF inv]
  show "finite (dom (utxo_set (insert_utxo k u s)))"
    using I(1) by (simp add: insert_utxo_def)
  show "utxo_key v = j" if "utxo_set (insert_utxo k u s) j = Some v" for j v
    using that I(2) key by (auto simp: insert_utxo_def split: if_splits)
  show "unat (balances (insert_utxo k u s) a) = storage_sum (holding a) (utxo_set (insert_utxo k u s))" for a
    using storage_sum_fresh [OF I(1) k, of "holding a" u] I(3) [of a] balance_le_value [OF inv, of a] room
    by (auto simp: insert_utxo_def holding_def amount_of_def unat_saturating_add_exact)
  have "k \<notin> dom (utxo_set s)" using k by auto
  then show "unat (utxo_count (insert_utxo k u s)) = utxo_entries (insert_utxo k u s)"
    using I(1,4) count by (simp add: insert_utxo_def utxo_entries_def unat_saturating_add_exact)
qed

lemma insert_utxo_value:
  assumes "ledger_inv s" and "utxo_set s k = None"
  shows "ledger_value (insert_utxo k u s) = ledger_value s + amount_of u"
  using storage_sum_fresh [OF ledger_invD(1) [OF assms(1)] assms(2), of amount_of u]
  by (simp add: ledger_value_def insert_utxo_def)

lemma insert_utxo_entries:
  assumes "ledger_inv s" and "utxo_set s k = None"
  shows "utxo_entries (insert_utxo k u s) = Suc (utxo_entries s)"
proof -
  have "k \<notin> dom (utxo_set s)" using assms(2) by auto
  then show ?thesis
    using ledger_invD(1) [OF assms(1)] by (simp add: utxo_entries_def insert_utxo_def)
qed

section \<open>The ledger contract on the bodies of the loops\<close>

definition key_input :: "utxo_key \<Rightarrow> tx_input" where
  "key_input k = \<lparr>prev_txid = fst k, prev_vout = snd k\<rparr>"

lemma key_input_input_key [simp]: "key_input (input_key i) = i"
  by (simp add: key_input_def input_key_def)

lemma input_key_eq_iff [simp]: "input_key i = input_key j \<longleftrightarrow> i = j"
  by (metis key_input_input_key)

lemma spend_utxo_remove: "same_ledger (spend_utxo inp u s) (remove_utxo (input_key inp) u s)"
  by (simp add: same_ledger_def spend_utxo_def remove_utxo_def input_key_def)

lemma create_utxo_insert: "same_ledger (create_utxo k u s) (insert_utxo k u s)"
  by (simp add: same_ledger_def create_utxo_def Let_def)

interpretation ul: ledger ledger_inv utxo_set ledger_value utxo_entries amount_of
    "\<lambda>k u. utxo_key u = k" "\<lambda>k. spend_utxo (key_input k)" create_utxo "2 ^ 128" "2 ^ 64"
proof unfold_locales
  fix s k u assume s: "ledger_inv s" "utxo_set s k = Some u"
  have key: "input_key (key_input k) = k" by (simp add: input_key_def key_input_def)
  note same = spend_utxo_remove [of "key_input k" u s, unfolded key]
  show "ledger_inv (spend_utxo (key_input k) u s)"
    using remove_utxo_inv [OF s] by (simp add: same_ledger_inv [OF same])
  show "utxo_set (spend_utxo (key_input k) u s) = (utxo_set s)(k := None)"
    by (simp add: spend_utxo_def key_input_def)
  show "ledger_value (spend_utxo (key_input k) u s) + amount_of u = ledger_value s"
    using remove_utxo_value [OF s] by (simp add: same_ledger_value [OF same])
  show "Suc (utxo_entries (spend_utxo (key_input k) u s)) = utxo_entries s"
    using remove_utxo_entries [OF s] same by (simp add: utxo_entries_def same_ledger_def)
next
  fix s k u assume s: "ledger_inv s" "utxo_set s k = None"
  note same = create_utxo_insert [of k u s]
  show "ledger_value (create_utxo k u s) = ledger_value s + amount_of u"
    using insert_utxo_value [OF s] by (simp add: same_ledger_value [OF same])
  show "utxo_set (create_utxo k u s) = (utxo_set s)(k \<mapsto> u)"
    by (simp add: create_utxo_def Let_def insert_utxo_def)
  show "utxo_entries (create_utxo k u s) = Suc (utxo_entries s)"
    using insert_utxo_entries [OF s] same by (simp add: utxo_entries_def same_ledger_def)
  assume "utxo_key u = k" "ledger_value s + amount_of u < 2 ^ 128" "utxo_entries s + 1 < 2 ^ 64"
  with insert_utxo_inv [OF s this(1)] show "ledger_inv (create_utxo k u s)"
    by (simp add: same_ledger_inv [OF same])
qed

text \<open>The outputs of a transaction, with their keys.\<close>

definition keyed_outputs :: "tx_id \<Rightarrow> u64 \<Rightarrow> tx_output list \<Rightarrow> (utxo_key \<times> utxo) list" where
  "keyed_outputs txid height outputs =
     map (\<lambda>vo. ((txid, of_nat (fst vo)), output_utxo txid height vo)) (enumerate 0 outputs)"

lemma fold_spend_take_all:
  "fold (\<lambda>(inp, u). spend_utxo inp u) (zip inputs us) s = ul.take_all (zip (map input_key inputs) us) s"
  by (simp add: ul.take_all_def zip_map1 fold_map comp_def case_prod_unfold)

lemma fold_create_put_all:
  "fold (create_output txid height) (enumerate 0 outputs) s =
    ul.put_all (keyed_outputs txid height outputs) s"
  by (simp add: ul.put_all_def keyed_outputs_def fold_map comp_def create_output_def [abs_def])

lemma map_fst_enumerate_map: "map (\<lambda>vo. f (fst vo)) (enumerate n xs) = map f [n..<n + length xs]"
  by (simp add: map_map [symmetric, unfolded comp_def] del: map_map)

lemma sum_enumerate: "(\<Sum>vo \<leftarrow> enumerate n xs. f (snd vo)) = (\<Sum>x \<leftarrow> xs. f x)"
  by (induction xs arbitrary: n) auto

lemma map_fst_keyed_outputs:
  "map fst (keyed_outputs txid height outputs) = map (\<lambda>v. (txid, of_nat v)) [0..<length outputs]"
  using map_fst_enumerate_map [of "\<lambda>v. (txid, of_nat v)" 0 outputs]
  by (simp add: keyed_outputs_def comp_def)

lemma distinct_keyed_outputs:
  assumes "length outputs \<le> 2 ^ 32"
  shows "distinct (map fst (keyed_outputs txid height outputs))"
proof -
  have "inj_on (\<lambda>v. (txid, of_nat v :: u32)) {0..<length outputs}"
    using assms by (intro inj_onI) (auto simp: of_nat_inverse dest!: arg_cong [where f = unat] simp flip: unat_of_nat)
  then show ?thesis
    by (simp add: map_fst_keyed_outputs distinct_map)
qed

section \<open>What the transaction call accepts\<close>

text \<open>
  The conditions on one input, at position \<open>i\<close>: the output exists, a coinbase is mature, and
  the key registered for its address verifies the signature at that position over the message
  of the whole transaction.
\<close>

definition spendable ::
  "('pk, 'sig) pqcrypto \<Rightarrow> dilithium_state \<Rightarrow> utxo_state \<Rightarrow> u8 list \<Rightarrow> u8 list list \<Rightarrow> nat
    \<Rightarrow> tx_input \<Rightarrow> utxo \<Rightarrow> bool"
where
  "spendable pq dil s msg signatures i inp u \<longleftrightarrow>
     utxo_set s (input_key inp) = Some u \<and>
     (utxo_is_coinbase u \<longrightarrow> unat (utxo_block_height u) + 100 \<le> unat (current_height s)) \<and>
     i < length signatures \<and>
     (\<exists>pk. public_keys dil (utxo_address u) = Some pk \<and> verify_signature pq pk msg (signatures ! i))"

lemma coinbase_mature_iff:
  "ucast COINBASE_MATURITY \<le> saturating_sub h b \<longleftrightarrow> unat b + 100 \<le> unat h" for h b :: u64
  by (auto simp: word_le_nat_alt rust_arith qbc_consts)

lemma validate_inputs_step:
  "validate_inputs pq dil s msg sigs (inp # rest) i n acc =
    (case utxo_set s (input_key inp) of
       None \<Rightarrow> Inl UtxoNotFound
     | Some u \<Rightarrow>
         if utxo_is_coinbase u \<and> \<not> unat (utxo_block_height u) + 100 \<le> unat (current_height s)
         then Inl CoinbaseNotMature
         else if \<not> spendable pq dil s msg sigs i inp u then Inl UtxoInvalidSignature
         else (case checked_add n (utxo_amount u) of
                 None \<Rightarrow> Inl AmountOverflow
               | Some n' \<Rightarrow> validate_inputs pq dil s msg sigs rest (i + 1) n' (acc @ [u])))"
  by (auto simp: spendable_def input_key_def coinbase_mature_iff get_public_key_def split: option.splits)

lemma validate_inputs_Inr:
  assumes "validate_inputs pq dil s msg sigs inputs i n acc = Inr (n', acc')"
  shows "\<exists>us. acc' = acc @ us \<and> length us = length inputs \<and>
    (\<forall>j < length inputs. spendable pq dil s msg sigs (i + j) (inputs ! j) (us ! j)) \<and>
    unat n' = unat n + (\<Sum>u \<leftarrow> us. amount_of u)"
  using assms
proof (induction inputs arbitrary: i n acc)
  case (Cons inp rest)
  from Cons.prems obtain u m where u: "spendable pq dil s msg sigs i inp u"
    and m: "checked_add n (utxo_amount u) = Some m"
    and next_in: "validate_inputs pq dil s msg sigs rest (i + 1) m (acc @ [u]) = Inr (n', acc')"
    by (auto simp only: validate_inputs_step split: option.splits if_splits)
  from Cons.IH [OF next_in] obtain us where us: "acc' = acc @ u # us" "length us = length rest"
    "\<forall>j < length rest. spendable pq dil s msg sigs (i + 1 + j) (rest ! j) (us ! j)"
    "unat n' = unat m + (\<Sum>u \<leftarrow> us. amount_of u)" by auto
  have "spendable pq dil s msg sigs (i + j) ((inp # rest) ! j) ((u # us) ! j)"
    if "j < length (inp # rest)" for j
    using that u us(3) by (cases j) auto
  then show ?case
    using us checked_add_SomeD [OF m] by (intro exI [of _ "u # us"]) (simp add: amount_of_def)
qed simp

lemma validate_inputs_accepts:
  assumes "length us = length inputs"
    and "\<And>j. j < length inputs \<Longrightarrow> spendable pq dil s msg sigs (i + j) (inputs ! j) (us ! j)"
    and "unat n + (\<Sum>u \<leftarrow> us. amount_of u) < 2 ^ 128"
  shows "\<exists>n'. validate_inputs pq dil s msg sigs inputs i n acc = Inr (n', acc @ us) \<and>
    unat n' = unat n + (\<Sum>u \<leftarrow> us. amount_of u)"
  using assms
proof (induction inputs arbitrary: i n acc us)
  case (Cons inp rest)
  obtain u us' where us: "us = u # us'" using Cons.prems(1) by (cases us) auto
  have u: "spendable pq dil s msg sigs i inp u" using Cons.prems(2) [of 0] us by simp
  have "unat n + amount_of u < 2 ^ 128" using Cons.prems(3) us by simp
  then have "checked_add n (utxo_amount u) \<noteq> None" by (simp add: checked_add_None_iff amount_of_def)
  then obtain m where m: "checked_add n (utxo_amount u) = Some m" "unat m = unat n + amount_of u"
    using checked_add_SomeD [of n "utxo_amount u"] by (auto simp: amount_of_def)
  have "\<exists>n'. validate_inputs pq dil s msg sigs rest (i + 1) m (acc @ [u]) = Inr (n', (acc @ [u]) @ us') \<and>
      unat n' = unat m + (\<Sum>u \<leftarrow> us'. amount_of u)"
  proof (rule Cons.IH)
    show "spendable pq dil s msg sigs (i + 1 + j) (rest ! j) (us' ! j)" if "j < length rest" for j
      using Cons.prems(2) [of "Suc j"] us that by simp
  qed (use Cons.prems us m in auto)
  moreover have "validate_inputs pq dil s msg sigs (inp # rest) i n acc =
      validate_inputs pq dil s msg sigs rest (i + 1) m (acc @ [u])"
    using u m(1) by (simp only: validate_inputs_step) (auto simp: spendable_def)
  ultimately show ?case using us m by auto
qed simp

definition outputs_value :: "tx_output list \<Rightarrow> nat" where
  "outputs_value outputs = (\<Sum>out \<leftarrow> outputs. unat (out_amount out))"

lemma sum_outputs_Inr_iff:
  "sum_outputs outputs n = Inr n' \<longleftrightarrow>
    (\<forall>out \<in> set outputs. out_amount out \<noteq> 0) \<and> unat n' = unat n + outputs_value outputs"
proof (induction outputs arbitrary: n)
  case Nil
  then show ?case by (auto simp: outputs_value_def word_unat_eq_iff)
next
  case (Cons out rest)
  show ?case
  proof (cases "checked_add n (out_amount out)")
    case None
    moreover have "unat n' < 2 ^ 128" by (rule u128_less)
    moreover have "2 ^ 128 \<le> unat n + unat (out_amount out)" using None by (simp add: checked_add_None_iff)
    ultimately show ?thesis using None by (auto simp: outputs_value_def)
  next
    case (Some m)
    then show ?thesis
      using Cons.IH [of m] checked_add_SomeD [OF Some] by (auto simp: word_neq_0_conv outputs_value_def)
  qed
qed

lemma has_duplicate_input_iff: "has_duplicate_input inputs \<longleftrightarrow> \<not> distinct inputs"
proof (induction inputs)
  case (Cons i rest)
  have "(prev_txid i = prev_txid j \<and> prev_vout i = prev_vout j) \<longleftrightarrow> i = j" for j
    using input_key_eq_iff [of i j] by (simp add: input_key_def)
  with Cons show ?case by (simp add: list_ex_iff)
qed simp

text \<open>The specification of a valid transaction, with the outputs its inputs refer to.\<close>

definition tx_valid ::
  "('pk, 'sig) pqcrypto \<Rightarrow> (utxo_key \<Rightarrow> bool) \<Rightarrow> dilithium_state \<Rightarrow> tx_input list \<Rightarrow> tx_output list
    \<Rightarrow> u8 list list \<Rightarrow> utxo_state \<Rightarrow> utxo list \<Rightarrow> bool"
where
  "tx_valid pq is_frozen dil inputs outputs sigs s us \<longleftrightarrow>
     inputs \<noteq> [] \<and> outputs \<noteq> [] \<and> distinct inputs \<and>
     (\<forall>inp \<in> set inputs. spent_utxos s (input_key inp) = None \<and> \<not> is_frozen (input_key inp)) \<and>
     length us = length inputs \<and>
     (\<forall>j < length inputs. spendable pq dil s (signing_message inputs outputs) sigs j (inputs ! j) (us ! j)) \<and>
     (\<forall>out \<in> set outputs. out_amount out \<noteq> 0) \<and>
     outputs_value outputs \<le> (\<Sum>u \<leftarrow> us. amount_of u) \<and> (\<Sum>u \<leftarrow> us. amount_of u) < 2 ^ 128"

text \<open>The state after a valid transaction.\<close>

definition transaction_effect ::
  "(u8 list \<Rightarrow> h256) \<Rightarrow> tx_input list \<Rightarrow> tx_output list \<Rightarrow> utxo list \<Rightarrow> utxo_state \<Rightarrow> utxo_state" where
  "transaction_effect sha inputs outputs us s =
     apply_transaction (compute_txid sha inputs outputs) (current_height s) inputs us outputs
       (s\<lparr>accumulated_fees := saturating_add (accumulated_fees s)
           (of_nat ((\<Sum>u \<leftarrow> us. amount_of u) - outputs_value outputs))\<rparr>)"

lemma submit_transaction_InrD:
  assumes "submit_transaction sha pq is_frozen dil orig inputs outputs sigs s = Inr t"
  shows "(\<exists>who. orig = Signed who) \<and>
    (\<exists>us. tx_valid pq is_frozen dil inputs outputs sigs s us \<and> t = transaction_effect sha inputs outputs us s)"
proof -
  let ?msg = "signing_message inputs outputs"
  from assms obtain who n us m where
    who: "orig = Signed who" and ne: "inputs \<noteq> []" "outputs \<noteq> []" and d: "distinct inputs" and
    fr: "\<forall>inp \<in> set inputs. spent_utxos s (input_key inp) = None \<and> \<not> is_frozen (input_key inp)" and
    vi: "validate_inputs pq dil s ?msg sigs inputs 0 0 [] = Inr (n, us)" and
    so: "sum_outputs outputs 0 = Inr m" and le: "m \<le> n" and
    t: "t = (let fee = saturating_sub n m;
          s1 = (if 0 < fee then s\<lparr>accumulated_fees := saturating_add (accumulated_fees s) fee\<rparr> else s)
        in apply_transaction (compute_txid sha inputs outputs) (current_height s) inputs us outputs s1)"
    by (auto simp: submit_transaction_def has_duplicate_input_iff list_ex_iff input_key_def Let_def
        split: sum.splits if_splits)
  from validate_inputs_Inr [OF vi] have us: "length us = length inputs"
    "\<forall>j < length inputs. spendable pq dil s ?msg sigs j (inputs ! j) (us ! j)"
    "unat n = (\<Sum>u \<leftarrow> us. amount_of u)" by auto
  from so have m: "unat m = outputs_value outputs" "\<forall>out \<in> set outputs. out_amount out \<noteq> 0"
    by (auto simp: sum_outputs_Inr_iff)
  have "unat n < 2 ^ 128" by (rule u128_less)
  then have valid: "tx_valid pq is_frozen dil inputs outputs sigs s us"
    using ne d fr us m le by (auto simp: tx_valid_def word_le_nat_alt)
  have fee: "saturating_sub n m = of_nat ((\<Sum>u \<leftarrow> us. amount_of u) - outputs_value outputs)"
    unfolding m(1) [symmetric] us(3) [symmetric] unat_saturating_sub [symmetric] by simp
  have zero: "saturating_add f 0 = f" for f :: u128
    using unat_saturating_add [of f 0] unat_le_max [of f] by (simp add: saturating_add_def)
  have "\<not> 0 < w \<longleftrightarrow> w = 0" for w :: u128 by (simp add: word_gt_0)
  then have "t = transaction_effect sha inputs outputs us s"
    unfolding t fee transaction_effect_def Let_def by (auto simp: zero)
  with who valid show ?thesis by blast
qed

lemma submit_transaction_accepts:
  assumes "tx_valid pq is_frozen dil inputs outputs sigs s us"
  shows "\<exists>t. submit_transaction sha pq is_frozen dil (Signed who) inputs outputs sigs s = Inr t"
proof -
  note V = assms [unfolded tx_valid_def]
  have "\<exists>n. validate_inputs pq dil s (signing_message inputs outputs) sigs inputs 0 0 [] = Inr (n, [] @ us) \<and>
      unat n = unat (0 :: u128) + (\<Sum>u \<leftarrow> us. amount_of u)"
    by (rule validate_inputs_accepts) (use V in simp_all)
  then obtain n where n: "validate_inputs pq dil s (signing_message inputs outputs) sigs inputs 0 0 [] = Inr (n, us)"
    "unat n = (\<Sum>u \<leftarrow> us. amount_of u)"
    by auto
  have lt: "outputs_value outputs < 2 ^ 128" using V by linarith
  then have "unat (of_nat (outputs_value outputs) :: u128) = outputs_value outputs"
    by (simp add: unat_of_nat_less)
  then have m: "sum_outputs outputs 0 = Inr (of_nat (outputs_value outputs))"
    "(of_nat (outputs_value outputs) :: u128) \<le> n"
    using V n by (auto simp: sum_outputs_Inr_iff word_le_nat_alt)
  show ?thesis
    using V n m
    by (auto simp: submit_transaction_def has_duplicate_input_iff list_ex_iff input_key_def Let_def)
qed

section \<open>Value, authorisation and double spending\<close>

lemma apply_transaction_ledger:
  "same_ledger (apply_transaction txid h inputs us outputs s)
    (ul.put_all (keyed_outputs txid h outputs) (ul.take_all (zip (map input_key inputs) us) s))"
  by (simp add: apply_transaction_def Let_def fold_spend_take_all fold_create_put_all same_ledger_def)

definition tx_room :: "(u8 list \<Rightarrow> h256) \<Rightarrow> tx_input list \<Rightarrow> tx_output list \<Rightarrow> utxo_state \<Rightarrow> bool" where
  "tx_room sha inputs outputs s \<longleftrightarrow>
     (\<forall>v. utxo_set s (compute_txid sha inputs outputs, v) = None) \<and>
     length outputs \<le> MAX_OUTPUTS \<and> utxo_entries s + length outputs < 2 ^ 64"

lemma total_worth_zip:
  "length ks = length us \<Longrightarrow> ul.total_worth (zip ks us) = (\<Sum>u \<leftarrow> us. amount_of u)"
  by (induction ks us rule: list_induct2) (auto simp: ul.total_worth_def)

lemma total_worth_keyed_outputs: "ul.total_worth (keyed_outputs txid h outputs) = outputs_value outputs"
  using sum_enumerate [of "\<lambda>out. unat (out_amount out)" 0 outputs]
  by (simp add: ul.total_worth_def keyed_outputs_def comp_def outputs_value_def amount_of_def
      output_utxo_def case_prod_unfold)

lemma length_keyed_outputs: "length (keyed_outputs txid h outputs) = length outputs"
  by (simp add: keyed_outputs_def)

lemma keyed_outputs_fits:
  "(k, u) \<in> set (keyed_outputs txid h outputs) \<Longrightarrow> utxo_key u = k \<and> fst k = txid"
  by (auto simp: keyed_outputs_def output_utxo_def utxo_key_def)

lemma transaction_effect_ledger:
  assumes inv: "ledger_inv s" and lt: "ledger_value s < 2 ^ 128"
    and v: "tx_valid pq fr dil inputs outputs sigs s us" and room: "tx_room sha inputs outputs s"
  defines "txid \<equiv> compute_txid sha inputs outputs" and "t \<equiv> transaction_effect sha inputs outputs us s"
  shows "ledger_inv t \<and> ledger_value t + (\<Sum>u \<leftarrow> us. amount_of u) = ledger_value s + outputs_value outputs \<and>
    (\<forall>k. utxo_set t k =
      (case map_of (keyed_outputs txid (current_height s) outputs) k of Some u \<Rightarrow> Some u
       | None \<Rightarrow> if k \<in> input_key ` set inputs then None else utxo_set s k))"
proof -
  let ?ins = "zip (map input_key inputs) us" and ?outs = "keyed_outputs txid (current_height s) outputs"
  define s1 where "s1 = s\<lparr>accumulated_fees := saturating_add (accumulated_fees s)
    (of_nat ((\<Sum>u \<leftarrow> us. amount_of u) - outputs_value outputs))\<rparr>"
  have same1: "same_ledger s1 s" by (simp add: s1_def same_ledger_def)
  have s1: "ledger_inv s1" "ledger_value s1 = ledger_value s" "utxo_set s1 = utxo_set s"
    "utxo_entries s1 = utxo_entries s"
    using same1 inv same_ledger_inv [OF same1] same_ledger_value [OF same1]
    by (auto simp: same_ledger_def utxo_entries_def)
  have same: "same_ledger t (ul.put_all ?outs (ul.take_all ?ins s1))"
    using apply_transaction_ledger by (simp add: t_def transaction_effect_def s1_def txid_def)
  note V = v [unfolded tx_valid_def]
  have len: "length (map input_key inputs) = length us" using V by simp
  have keys: "fst ` set ?ins = input_key ` set inputs"
    unfolding list.set_map [symmetric] map_fst_zip [OF len] by simp
  have "ledger_inv (ul.put_all ?outs (ul.take_all ?ins s1)) \<and>
    ledger_value (ul.put_all ?outs (ul.take_all ?ins s1)) + ul.total_worth ?ins =
      ledger_value s1 + ul.total_worth ?outs \<and>
    (\<forall>k. utxo_set (ul.put_all ?outs (ul.take_all ?ins s1)) k =
      (case map_of ?outs k of Some v \<Rightarrow> Some v
       | None \<Rightarrow> if k \<in> fst ` set ?ins then None else utxo_set s1 k))"
  proof (rule ul.transfer_correct [OF s1(1)])
    show "distinct (map fst ?ins)" using V by (simp add: distinct_map inj_on_def)
    show "utxo_set s1 k = Some u" if "(k, u) \<in> set ?ins" for k u
      using that V s1(3) by (auto simp: in_set_zip spendable_def)
    show "distinct (map fst ?outs)"
      using room by (intro distinct_keyed_outputs) (simp add: tx_room_def qbc_consts)
    show "utxo_set s1 k = None \<and> utxo_key u = k" if "(k, u) \<in> set ?outs" for k u
      using keyed_outputs_fits [OF that] room s1(3) by (cases k) (simp add: tx_room_def txid_def)
  qed (use V lt room s1 in \<open>auto simp: total_worth_zip total_worth_keyed_outputs tx_room_def
        length_keyed_outputs\<close>)
  then show ?thesis
    using same_ledger_inv [OF same] same_ledger_value [OF same] same
    unfolding keys total_worth_zip [OF len] total_worth_keyed_outputs s1(2,3)
    by (simp add: same_ledger_def)
qed

text \<open>The parts of the state that the ledger part does not mention.\<close>

lemma fold_spend_frame:
  "accumulated_fees (fold (\<lambda>(inp, u). spend_utxo inp u) ius s) = accumulated_fees s"
  "total_fees_burned (fold (\<lambda>(inp, u). spend_utxo inp u) ius s) = total_fees_burned s"
  "current_height (fold (\<lambda>(inp, u). spend_utxo inp u) ius s) = current_height s"
  "dom (spent_utxos (fold (\<lambda>(inp, u). spend_utxo inp u) ius s)) =
    dom (spent_utxos s) \<union> (\<lambda>(inp, u). input_key inp) ` set ius"
  by (induction ius arbitrary: s) (auto simp: spend_utxo_def input_key_def)

lemma fold_create_frame:
  "accumulated_fees (fold (create_output txid h) vos s) = accumulated_fees s"
  "total_fees_burned (fold (create_output txid h) vos s) = total_fees_burned s"
  "current_height (fold (create_output txid h) vos s) = current_height s"
  "spent_utxos (fold (create_output txid h) vos s) = spent_utxos s"
  by (induction vos arbitrary: s) (auto simp: create_output_def create_utxo_def insert_utxo_def Let_def)

lemma transaction_effect_frame:
  assumes "length us = length inputs"
  shows "accumulated_fees (transaction_effect sha inputs outputs us s) =
      saturating_add (accumulated_fees s) (of_nat ((\<Sum>u \<leftarrow> us. amount_of u) - outputs_value outputs))"
    and "total_fees_burned (transaction_effect sha inputs outputs us s) = total_fees_burned s"
    and "current_height (transaction_effect sha inputs outputs us s) = current_height s"
    and "dom (spent_utxos (transaction_effect sha inputs outputs us s)) =
      dom (spent_utxos s) \<union> input_key ` set inputs"
proof -
  have "(\<lambda>(inp, u). input_key inp) ` set (zip inputs us) = input_key ` set inputs"
    using assms map_fst_zip [of inputs us]
    by (metis (no_types, lifting) case_prod_beta image_cong image_image list.set_map)
  then show "dom (spent_utxos (transaction_effect sha inputs outputs us s)) =
      dom (spent_utxos s) \<union> input_key ` set inputs"
    by (simp add: transaction_effect_def apply_transaction_def Let_def fold_create_frame fold_spend_frame)
qed (simp_all add: transaction_effect_def apply_transaction_def Let_def fold_create_frame fold_spend_frame)

lemma create_coinbase_insert:
  "same_ledger (create_coinbase txid a r h s)
    (insert_utxo (txid, 0) \<lparr>utxo_txid = txid, utxo_vout = 0, utxo_address = a, utxo_amount = r,
       utxo_block_height = h, utxo_is_coinbase = True\<rparr> s)"
  by (simp add: same_ledger_def create_coinbase_def Let_def)

lemma create_coinbase_ledger:
  assumes "ledger_inv s" and "utxo_set s (txid, 0) = None" and "ledger_value s + unat r < 2 ^ 128"
    and "utxo_entries s + 1 < 2 ^ 64"
  shows "ledger_inv (create_coinbase txid a r h s)"
    and "ledger_value (create_coinbase txid a r h s) = ledger_value s + unat r"
  using assms insert_utxo_inv [OF assms(1,2)] insert_utxo_value [OF assms(1,2)]
    same_ledger_inv [OF create_coinbase_insert] same_ledger_value [OF create_coinbase_insert]
  by (simp_all add: amount_of_def utxo_key_def)

lemma create_coinbase_frame [simp]:
  "accumulated_fees (create_coinbase txid a r h s) = accumulated_fees s"
  "total_fees_burned (create_coinbase txid a r h s) = total_fees_burned s"
  "current_height (create_coinbase txid a r h s) = current_height s"
  "spent_utxos (create_coinbase txid a r h s) = spent_utxos s"
  "tx_count (create_coinbase txid a r h s) = tx_count s"
  by (simp_all add: create_coinbase_def insert_utxo_def Let_def)

lemma ledger_inv_empty: "ledger_inv utxo_empty"
  by (simp add: ledger_inv_def utxo_empty_def utxo_entries_def)

lemma ledger_value_empty [simp]: "ledger_value utxo_empty = 0" "utxo_entries utxo_empty = 0"
  by (simp_all add: ledger_value_def utxo_entries_def utxo_empty_def)

lemma set_block_height_ledger [simp]:
  "ledger_inv (set_block_height h s) = ledger_inv s"
  "ledger_value (set_block_height h s) = ledger_value s"
  "utxo_entries (set_block_height h s) = utxo_entries s"
  "utxo_set (set_block_height h s) = utxo_set s"
  "accumulated_fees (set_block_height h s) = accumulated_fees s"
  "total_fees_burned (set_block_height h s) = total_fees_burned s"
  "current_height (set_block_height h s) = h"
  "spent_utxos (set_block_height h s) = Map.empty"
  by (simp_all add: set_block_height_def ledger_inv_def ledger_value_def utxo_entries_def)

subsection \<open>A concrete ledger\<close>

text \<open>One mature coinbase of 100 units, its owner's key, and a payment of 60 with a fee of 40.\<close>

definition example_pq :: "(u8 list, u8 list) pqcrypto" where
  "example_pq = \<lparr>pk_from_bytes = Some, sig_from_bytes = Some, verify_detached = (\<lambda>s m k. True)\<rparr>"

definition example_keys :: dilithium_state where
  "example_keys = dil_genesis\<lparr>public_keys := [9 \<mapsto> replicate 2592 1]\<rparr>"

definition example_ledger :: utxo_state where
  "example_ledger = set_block_height 200 (create_coinbase 5 9 100 0 utxo_empty)"

definition example_inputs :: "tx_input list" where
  "example_inputs = [\<lparr>prev_txid = 5, prev_vout = 0\<rparr>]"

definition example_outputs :: "tx_output list" where
  "example_outputs = [\<lparr>out_address = 3, out_amount = 60\<rparr>]"

definition example_signatures :: "u8 list list" where
  "example_signatures = [replicate 4627 0]"

lemma signing_message_nonempty: "inputs \<noteq> [] \<Longrightarrow> signing_message inputs outputs \<noteq> []"
proof -
  have "be_bytes (w :: h256) \<noteq> []" for w
  proof
    assume "be_bytes w = []"
    then have "length (be_bytes w) = 0" by (rule arg_cong [where f = length, THEN trans]) simp
    then show False by (simp only: length_be_bytes) simp
  qed
  then show "inputs \<noteq> [] \<Longrightarrow> ?thesis"
    by (cases inputs) (auto simp: signing_message_def input_bytes_def)
qed

lemma example_utxo:
  "utxo_set example_ledger = [(5, 0) \<mapsto> \<lparr>utxo_txid = 5, utxo_vout = 0, utxo_address = 9,
     utxo_amount = 100, utxo_block_height = 0, utxo_is_coinbase = True\<rparr>]"
  by (simp add: example_ledger_def create_coinbase_def insert_utxo_def Let_def utxo_empty_def)

lemma example_ledger_inv: "ledger_inv example_ledger" "ledger_value example_ledger = 100"
  "utxo_entries example_ledger = 1"
proof -
  have fresh: "utxo_set utxo_empty (5, 0) = None" by (simp add: utxo_empty_def)
  note C = create_coinbase_ledger [OF ledger_inv_empty fresh, of 100 9 0]
  show "ledger_inv example_ledger" unfolding example_ledger_def set_block_height_ledger
    by (rule C(1)) simp_all
  show "ledger_value example_ledger = 100" unfolding example_ledger_def set_block_height_ledger
    by (subst C(2)) simp_all
  show "utxo_entries example_ledger = 1" by (simp add: utxo_entries_def example_utxo)
qed

lemma example_valid:
  "tx_valid example_pq (\<lambda>_. False) example_keys example_inputs example_outputs example_signatures
     example_ledger [\<lparr>utxo_txid = 5, utxo_vout = 0, utxo_address = 9,
     utxo_amount = 100, utxo_block_height = 0, utxo_is_coinbase = True\<rparr>]"
proof -
  have "verify_signature example_pq (replicate 2592 1) (signing_message example_inputs example_outputs)
      (replicate 4627 0)"
    using signing_message_nonempty [of example_inputs]
    by (simp add: verify_signature_def verify_native_def dilithium5_verify_def example_pq_def qbc_consts
        example_inputs_def)
  then show ?thesis
    by (simp add: tx_valid_def spendable_def example_utxo example_keys_def example_signatures_def
        example_inputs_def example_outputs_def input_key_def amount_of_def outputs_value_def)
      (simp add: example_ledger_def)
qed

lemma example_room: "tx_room (\<lambda>_. 7) example_inputs example_outputs example_ledger"
  by (simp add: tx_room_def example_utxo compute_txid_def example_outputs_def qbc_consts example_ledger_inv)

subsection \<open>The properties\<close>

text \<open>
  C2. The transaction call accepts a signed call exactly when the transaction is valid: it has
  inputs and outputs, no input twice, none spent in this block or frozen, every input is an
  existing output whose coinbase is mature and whose owner's registered key verifies the
  signature over the whole transaction, no output is zero, and the inputs cover the outputs
  without overflow.
\<close>

theorem submit_transaction_accepts_iff_valid:
  "(\<exists>t. submit_transaction sha pq is_frozen dil (Signed who) inputs outputs sigs s = Inr t) \<longleftrightarrow>
   (\<exists>us. tx_valid pq is_frozen dil inputs outputs sigs s us)"
proof
  assume "\<exists>t. submit_transaction sha pq is_frozen dil (Signed who) inputs outputs sigs s = Inr t"
  then show "\<exists>us. tx_valid pq is_frozen dil inputs outputs sigs s us"
    using submit_transaction_InrD by metis
next
  assume "\<exists>us. tx_valid pq is_frozen dil inputs outputs sigs s us"
  then obtain us where "tx_valid pq is_frozen dil inputs outputs sigs s us" ..
  then show "\<exists>t. submit_transaction sha pq is_frozen dil (Signed who) inputs outputs sigs s = Inr t"
    by (rule submit_transaction_accepts)
qed

text \<open>
  A transaction that is accepted keeps the ledger invariant, and what leaves the unspent
  outputs is exactly what enters the accumulated fees: no value is created or lost.
\<close>

theorem submit_transaction_conserves_value:
  assumes "submit_transaction sha pq is_frozen dil orig inputs outputs sigs s = Inr t"
    and "ledger_inv s" and "ledger_value s + unat (accumulated_fees s) < 2 ^ 128"
    and "tx_room sha inputs outputs s"
  shows "ledger_inv t \<and>
    ledger_value t + unat (accumulated_fees t) = ledger_value s + unat (accumulated_fees s)"
proof -
  from submit_transaction_InrD [OF assms(1)] obtain us where
    v: "tx_valid pq is_frozen dil inputs outputs sigs s us"
    and t: "t = transaction_effect sha inputs outputs us s" by blast
  have "ledger_value s < 2 ^ 128" using assms(3) by simp
  note E = transaction_effect_ledger [OF assms(2) this v assms(4), folded t]
  have us: "length us = length inputs" "outputs_value outputs \<le> (\<Sum>u \<leftarrow> us. amount_of u)"
    "(\<Sum>u \<leftarrow> us. amount_of u) < 2 ^ 128" using v by (auto simp: tx_valid_def)
  let ?fee = "(\<Sum>u \<leftarrow> us. amount_of u) - outputs_value outputs"
  have "unat (of_nat ?fee :: u128) = ?fee" using us(3) by (intro unat_of_nat_less) simp
  moreover have "?fee \<le> ledger_value s" using E us(2) by linarith
  ultimately have "unat (accumulated_fees t) = unat (accumulated_fees s) + ?fee"
    using assms(3) by (simp add: t transaction_effect_frame [OF us(1)] unat_saturating_add)
  then show ?thesis using E us(2) by linarith
qed

theorem submit_transaction_conserves_value_witness:
  "\<exists>t. submit_transaction (\<lambda>_. 7) example_pq (\<lambda>_. False) example_keys (Signed 1) example_inputs
      example_outputs example_signatures example_ledger = Inr t \<and>
    ledger_inv t \<and> ledger_value t + unat (accumulated_fees t) = 100"
proof -
  obtain t where t: "submit_transaction (\<lambda>_. 7) example_pq (\<lambda>_. False) example_keys (Signed 1) example_inputs
      example_outputs example_signatures example_ledger = Inr t"
    using submit_transaction_accepts [OF example_valid] by blast
  have zero: "accumulated_fees example_ledger = 0" by (simp add: example_ledger_def utxo_empty_def)
  show ?thesis
    using submit_transaction_conserves_value [OF t example_ledger_inv(1) _ example_room] t zero
    by (auto simp: example_ledger_inv)
qed

text \<open>
  C3. Nobody's balance falls without their consent: when the balance of an address is lower
  after a transaction, the key registered for the address verifies one of the signatures over
  the message that lists all inputs and outputs.
\<close>

theorem balance_falls_only_by_signature:
  assumes "submit_transaction sha pq is_frozen dil orig inputs outputs sigs s = Inr t"
    and "ledger_inv s" and "ledger_value s + unat (accumulated_fees s) < 2 ^ 128"
    and "tx_room sha inputs outputs s"
    and "balances t a < balances s a"
  shows "\<exists>pk i. public_keys dil a = Some pk \<and> i < length sigs \<and>
    verify_signature pq pk (signing_message inputs outputs) (sigs ! i)"
proof (rule ccontr)
  assume no: "\<not> ?thesis"
  from submit_transaction_InrD [OF assms(1)] obtain us where
    v: "tx_valid pq is_frozen dil inputs outputs sigs s us"
    and t: "t = transaction_effect sha inputs outputs us s" by blast
  have "ledger_value s < 2 ^ 128" using assms(3) by simp
  note E = transaction_effect_ledger [OF assms(2) this v assms(4), folded t]
  have other: "utxo_address u \<noteq> a" if "utxo_set s k = Some u" "k \<in> input_key ` set inputs" for k u
    using that v no by (auto simp: tx_valid_def spendable_def in_set_conv_nth)
      (metis option.inject)
  have "utxo_set t k = Some u" if "utxo_set s k = Some u" and "holding a u \<noteq> 0" for k u
  proof -
    have "k \<notin> input_key ` set inputs" using other [OF that(1)] that(2) by (auto simp: holding_def split: if_splits)
    moreover have "map_of (keyed_outputs (compute_txid sha inputs outputs) (current_height s) outputs) k = None"
      using keyed_outputs_fits assms(4) that(1)
      by (cases k) (fastforce simp: map_of_eq_None_iff tx_room_def)
    ultimately show ?thesis using E that(1) by (cases k) simp
  qed
  then have "storage_sum (holding a) (utxo_set s) \<le> storage_sum (holding a) (utxo_set t)"
    using E ledger_invD(1) by (intro storage_sum_submap) blast+
  then have "unat (balances s a) \<le> unat (balances t a)"
    using E ledger_invD(3) [of t a] ledger_invD(3) [OF assms(2), of a] by auto
  with assms(5) show False by (simp add: word_less_nat_alt)
qed

section \<open>A block of transactions\<close>

text \<open>
  The transactions of one block in order; a failed call is rolled back and leaves no trace.
  The list that is returned holds the inputs of the accepted ones.
\<close>

type_synonym tx_call = "origin \<times> tx_input list \<times> tx_output list \<times> u8 list list"

fun run_block ::
  "(u8 list \<Rightarrow> h256) \<Rightarrow> ('pk, 'sig) pqcrypto \<Rightarrow> (utxo_key \<Rightarrow> bool) \<Rightarrow> dilithium_state \<Rightarrow> tx_call list
    \<Rightarrow> utxo_state \<Rightarrow> tx_input list \<times> utxo_state"
where
  "run_block sha pq is_frozen dil [] s = ([], s)"
| "run_block sha pq is_frozen dil ((orig, inputs, outputs, sigs) # calls) s =
     (case submit_transaction sha pq is_frozen dil orig inputs outputs sigs s of
        Inl _ \<Rightarrow> run_block sha pq is_frozen dil calls s
      | Inr t \<Rightarrow> (let (spent, t') = run_block sha pq is_frozen dil calls t in (inputs @ spent, t')))"

lemma submit_transaction_spends:
  assumes "submit_transaction sha pq fr dil orig inputs outputs sigs s = Inr t"
  shows "distinct inputs" and "\<forall>inp \<in> set inputs. input_key inp \<notin> dom (spent_utxos s)"
    and "dom (spent_utxos t) = dom (spent_utxos s) \<union> input_key ` set inputs"
proof -
  from submit_transaction_InrD [OF assms] obtain us where
    v: "tx_valid pq fr dil inputs outputs sigs s us"
    and t: "t = transaction_effect sha inputs outputs us s" by blast
  from v show "distinct inputs" and "\<forall>inp \<in> set inputs. input_key inp \<notin> dom (spent_utxos s)"
    by (auto simp: tx_valid_def)
  from v show "dom (spent_utxos t) = dom (spent_utxos s) \<union> input_key ` set inputs"
    by (simp add: t tx_valid_def transaction_effect_frame)
qed

lemma run_block_spends:
  "run_block sha pq fr dil calls s = (spent, t) \<Longrightarrow>
    distinct spent \<and> (\<forall>inp \<in> set spent. input_key inp \<notin> dom (spent_utxos s))"
proof (induction calls arbitrary: s spent t)
  case (Cons call calls)
  obtain orig inputs outputs sigs where call: "call = (orig, inputs, outputs, sigs)" by (cases call)
  show ?case
  proof (cases "submit_transaction sha pq fr dil orig inputs outputs sigs s")
    case (Inl e)
    then show ?thesis using Cons call by simp
  next
    case (Inr s1)
    obtain rest where rest: "run_block sha pq fr dil calls s1 = (rest, t)" "spent = inputs @ rest"
      using Cons.prems Inr call by (auto split: prod.splits)
    note S = submit_transaction_spends [OF Inr]
    from Cons.IH [OF rest(1)] S show ?thesis by (auto simp: rest(2))
  qed
qed simp

text \<open>
  C4. No output is spent twice within a block: over any sequence of transaction calls, the
  inputs of the accepted ones are pairwise distinct and none of them was spent before.
\<close>

theorem no_double_spend_in_block:
  "distinct (fst (run_block sha pq is_frozen dil calls s)) \<and>
   fst (run_block sha pq is_frozen dil calls s) =
     filter (\<lambda>inp. spent_utxos s (input_key inp) = None) (fst (run_block sha pq is_frozen dil calls s))"
proof -
  have "distinct (fst (run_block sha pq is_frozen dil calls s))"
    and "\<forall>inp \<in> set (fst (run_block sha pq is_frozen dil calls s)). input_key inp \<notin> dom (spent_utxos s)"
    using run_block_spends [of sha pq is_frozen dil calls s, OF surjective_pairing] by blast+
  then show ?thesis by (auto simp: filter_id_conv domIff intro!: filter_True [symmetric])
qed

section \<open>Fees\<close>

definition circulating :: "utxo_state \<Rightarrow> nat" where
  "circulating s = ledger_value s + unat (accumulated_fees s) + unat (total_fees_burned s)"

lemma finalize_fees_correct:
  assumes "unat (accumulated_fees s) + unat (total_fees_burned s) + 1 < 2 ^ 128"
    and "finalize_fees_with_burn s = (share, t)"
  shows "unat share = unat (accumulated_fees s) div 2"
    and "unat (total_fees_burned t) = unat (total_fees_burned s) + (unat (accumulated_fees s) + 1) div 2"
    and "accumulated_fees t = 0" and "same_ledger t s" and "current_height t = current_height s"
    and "spent_utxos t = spent_utxos s"
proof -
  let ?f = "accumulated_fees s"
  have half: "unat ((?f + 1) div 2) = (unat ?f + 1) div 2"
    using assms(1) by (simp add: unat_div unat_add_lem [THEN iffD1])
  have "unat share = unat ?f div 2 \<and>
    unat (total_fees_burned t) = unat (total_fees_burned s) + (unat ?f + 1) div 2"
  proof (cases "?f = 0")
    case True
    then show ?thesis using assms by (simp add: finalize_fees_with_burn_def)
  next
    case False
    have "unat ?f - (unat ?f + 1) div 2 = unat ?f div 2" by presburger
    moreover have "unat (total_fees_burned s) + (unat ?f + 1) div 2 < 2 ^ 128" using assms(1) by linarith
    ultimately show ?thesis
      using False assms(2) by (auto simp: finalize_fees_with_burn_def Let_def rust_arith half)
  qed
  then show "unat share = unat (accumulated_fees s) div 2"
    and "unat (total_fees_burned t) = unat (total_fees_burned s) + (unat (accumulated_fees s) + 1) div 2"
    by auto
qed (use assms(2) in \<open>auto simp: finalize_fees_with_burn_def Let_def same_ledger_def split: if_splits\<close>)

text \<open>
  Closing the fees of a block neither creates nor loses value: the miner's share is the
  accumulated fees halved, rounded down, the rest is added to the burned total, the
  accumulator is cleared, and the ledger itself is untouched.
\<close>

theorem finalize_fees_splits_exactly:
  assumes "unat (accumulated_fees s) + unat (total_fees_burned s) + 1 < 2 ^ 128"
    and "finalize_fees_with_burn s = (share, t)"
  shows "unat share = unat (accumulated_fees s) div 2 \<and> accumulated_fees t = 0 \<and>
    circulating t + unat share = circulating s \<and>
    utxo_set t = utxo_set s \<and> balances t = balances s \<and> utxo_count t = utxo_count s"
proof -
  note F = finalize_fees_correct [OF assms]
  have "unat (accumulated_fees s) = (unat (accumulated_fees s) + 1) div 2 + unat (accumulated_fees s) div 2"
    by presburger
  then show ?thesis
    using F same_ledger_value [OF F(4)] by (simp add: circulating_def same_ledger_def)
qed

theorem finalize_fees_splits_exactly_witness:
  "fst (finalize_fees_with_burn (utxo_empty\<lparr>accumulated_fees := 7\<rparr>)) = 3"
proof -
  let ?s = "utxo_empty\<lparr>accumulated_fees := 7\<rparr>"
  have "unat (fst (finalize_fees_with_burn ?s)) = 3"
    using finalize_fees_splits_exactly [of ?s, OF _ surjective_pairing]
    by (simp add: utxo_empty_def)
  then show ?thesis by (simp add: word_unat_eq_iff)
qed

section \<open>The signed message\<close>

lemma concat_map_same_length:
  assumes "\<And>x. length (f x) = n" and "inj f" and "length xs = length ys"
  shows "concat (map f xs) @ us = concat (map f ys) @ vs \<longleftrightarrow> xs = ys \<and> us = vs"
  using assms(3) by (induction xs ys rule: list_induct2) (auto simp: assms(1) append_eq_same_length inj_eq [OF assms(2)])

lemma length_concat_map: "(\<And>x. length (f x) = n) \<Longrightarrow> length (concat (map f xs)) = n * length xs"
  by (induction xs) auto

lemma length_input_bytes: "length (input_bytes i) = 36"
  by (simp add: input_bytes_def)

lemma length_output_bytes: "length (output_bytes out) = 48"
  by (simp add: output_bytes_def)

lemma inj_input_bytes: "inj input_bytes"
  by (rule injI) (auto simp: input_bytes_def append_eq_same_length be_bytes_inject le_bytes_inject)

lemma inj_output_bytes: "inj output_bytes"
  by (rule injI) (auto simp: output_bytes_def append_eq_same_length be_bytes_inject le_bytes_inject)

lemma length_signing_message:
  "length (signing_message inputs outputs) = 36 * length inputs + 48 * length outputs"
  by (simp add: signing_message_def length_concat_map [of input_bytes, OF length_input_bytes]
      length_concat_map [of output_bytes, OF length_output_bytes])

lemma concat_replicate_replicate: "concat (replicate m (replicate n x)) = replicate (n * m) x"
  by (induction m) (simp_all add: replicate_add [symmetric])

text \<open>
  The signed message binds the transaction: among transactions with the same number of
  inputs, equal messages mean equal inputs and equal outputs, in order.
\<close>

theorem signing_message_injective:
  assumes "length inputs = length inputs'"
  shows "signing_message inputs outputs = signing_message inputs' outputs' \<longleftrightarrow>
    inputs = inputs' \<and> outputs = outputs'"
proof
  assume eq: "signing_message inputs outputs = signing_message inputs' outputs'"
  have "36 * length inputs + 48 * length outputs = 36 * length inputs' + 48 * length outputs'"
    unfolding length_signing_message [symmetric] eq ..
  then have len: "length outputs = length outputs'" using assms by simp
  from eq have "inputs = inputs'" and
    tail: "concat (map output_bytes outputs) @ [] = concat (map output_bytes outputs') @ []"
    using concat_map_same_length [OF length_input_bytes inj_input_bytes assms]
    by (auto simp: signing_message_def)
  with concat_map_same_length [OF length_output_bytes inj_output_bytes len]
  show "inputs = inputs' \<and> outputs = outputs'" by blast
qed simp

theorem signing_message_injective_witness:
  "signing_message example_inputs example_outputs \<noteq>
    signing_message example_inputs [\<lparr>out_address = 4, out_amount = 60\<rparr>]"
  by (subst signing_message_injective) (simp_all add: example_outputs_def)

text \<open>Any 36 bytes are those of an input, any 48 those of an output.\<close>

lemma input_of_bytes:
  assumes "length bs = 36"
  obtains i where "input_bytes i = bs"
proof
  show "input_bytes \<lparr>prev_txid = of_nat (be_value (take 32 bs)), prev_vout = of_nat (le_value (drop 32 bs))\<rparr> = bs"
    using assms by (simp add: input_bytes_def be_bytes_of_value le_bytes_of_value)
qed

lemma output_of_bytes:
  assumes "length bs = 48" and "last bs \<noteq> 0"
  obtains out where "output_bytes out = bs" and "0 < out_amount out"
proof
  let ?o = "\<lparr>out_address = of_nat (be_value (take 32 bs)), out_amount = of_nat (le_value (drop 32 bs))\<rparr>"
  show "output_bytes ?o = bs"
    using assms(1) by (simp add: output_bytes_def be_bytes_of_value le_bytes_of_value)
  have "le_bytes (out_amount ?o) = drop 32 bs" using assms(1) by (simp add: le_bytes_of_value)
  moreover have "le_bytes (0 :: u128) = replicate 16 0" by (simp add: le_bytes_def map_replicate_const)
  moreover have "last (drop 32 bs) \<noteq> last (replicate 16 0)" using assms by (simp add: last_drop)
  ultimately show "0 < out_amount ?o" by (metis word_neq_0_conv)
qed

text \<open>
  The number of inputs is not part of the message: there are a transaction with five
  distinct inputs and one output and a transaction with one input and four outputs, all of
  positive amounts, with the same signed bytes and the same identifier. (Five inputs take as
  many bytes as one input and three outputs.)
\<close>

theorem signing_message_shape_ambiguous:
  "\<exists>inputs outputs inputs' outputs'. length inputs = 5 \<and> length inputs' = 1 \<and> distinct inputs \<and>
     list_all (\<lambda>out. 0 < out_amount out) (outputs @ outputs') \<and>
     signing_message inputs outputs = signing_message inputs' outputs' \<and>
     compute_txid sha inputs outputs = compute_txid sha inputs' outputs'"
proof -
  let ?r = "\<lambda>n b. replicate n b :: u8 list"
  obtain i1 where i1: "input_bytes i1 = ?r 36 1" by (rule input_of_bytes [of "?r 36 1"]) simp
  obtain i2 where i2: "input_bytes i2 = ?r 36 2" by (rule input_of_bytes [of "?r 36 2"]) simp
  obtain i3 where i3: "input_bytes i3 = ?r 36 3" by (rule input_of_bytes [of "?r 36 3"]) simp
  obtain i4 where i4: "input_bytes i4 = ?r 36 4" by (rule input_of_bytes [of "?r 36 4"]) simp
  obtain i5 where i5: "input_bytes i5 = ?r 36 5" by (rule input_of_bytes [of "?r 36 5"]) simp
  note I = i1 i2 i3 i4 i5
  obtain a where a: "output_bytes a = ?r 36 2 @ ?r 12 3" "0 < out_amount a"
    by (rule output_of_bytes [of "?r 36 2 @ ?r 12 3"]) simp_all
  obtain b where b: "output_bytes b = ?r 24 3 @ ?r 24 4" "0 < out_amount b"
    by (rule output_of_bytes [of "?r 24 3 @ ?r 24 4"]) simp_all
  obtain c where c: "output_bytes c = ?r 12 4 @ ?r 36 5" "0 < out_amount c"
    by (rule output_of_bytes [of "?r 12 4 @ ?r 36 5"]) simp_all
  obtain d where d: "output_bytes d = ?r 48 6" "0 < out_amount d"
    by (rule output_of_bytes [of "?r 48 6"]) simp_all
  have join: "?r m x @ ?r n x @ xs = ?r (m + n) x @ xs" for m n x xs by (simp add: replicate_add)
  have eq: "signing_message [i1, i2, i3, i4, i5] [d] = signing_message [i1] [a, b, c, d]"
    unfolding signing_message_def using join by (simp add: I a(1) b(1) c(1) d(1))
  have "distinct (map input_bytes [i1, i2, i3, i4, i5])" by (simp add: I)
  then have "distinct [i1, i2, i3, i4, i5]" unfolding distinct_map by blast
  moreover have "compute_txid sha inputs outputs = sha (signing_message inputs outputs)" for inputs outputs
    by (simp add: compute_txid_def signing_message_def)
  ultimately show ?thesis
    using eq a(2) b(2) c(2) d(2)
    by (intro exI [of _ "[i1, i2, i3, i4, i5]"] exI [of _ "[d]"] exI [of _ "[i1]"] exI [of _ "[a, b, c, d]"]) simp
qed

section \<open>Genesis\<close>

lemma fold_genesis_put_all:
  "fold genesis_utxo us s = ul.put_all (map (\<lambda>u. (utxo_key u, u)) us) s"
  by (simp add: ul.put_all_def fold_map comp_def genesis_utxo_def [abs_def] utxo_key_def)

text \<open>
  A genesis list with distinct keys, whose amounts fit the balance type, builds a ledger
  that satisfies the invariant and holds exactly the listed value.
\<close>

theorem genesis_build_correct:
  assumes "distinct (map utxo_key us)" and "(\<Sum>u \<leftarrow> us. amount_of u) < 2 ^ 128" and "length us < 2 ^ 64"
  shows "ledger_inv (utxo_genesis_build us) \<and>
    ledger_value (utxo_genesis_build us) = (\<Sum>u \<leftarrow> us. amount_of u) \<and>
    utxo_set (utxo_genesis_build us) = map_of (map (\<lambda>u. (utxo_key u, u)) us)"
proof -
  let ?kus = "map (\<lambda>u. (utxo_key u, u)) us"
  define s0 where "s0 = (let h = fold max (map utxo_block_height us) 0
    in if 0 < h then utxo_empty\<lparr>current_height := h\<rparr> else utxo_empty)"
  have same: "same_ledger s0 utxo_empty" by (simp add: s0_def Let_def same_ledger_def)
  have s0: "ledger_inv s0" "ledger_value s0 = 0" "utxo_entries s0 = 0" "utxo_set s0 = Map.empty"
    using same_ledger_inv [OF same] same_ledger_value [OF same] same ledger_inv_empty
    by (auto simp: same_ledger_def utxo_entries_def ledger_value_def)
      (simp_all add: utxo_empty_def)
  have worth: "ul.total_worth ?kus = (\<Sum>u \<leftarrow> us. amount_of u)" by (simp add: ul.total_worth_def comp_def)
  have build: "utxo_genesis_build us = ul.put_all ?kus s0"
    by (simp add: utxo_genesis_build_def Let_def fold_genesis_put_all s0_def)
  have "ledger_inv (ul.put_all ?kus s0) \<and> ledger_value (ul.put_all ?kus s0) = ledger_value s0 + ul.total_worth ?kus \<and>
    utxo_entries (ul.put_all ?kus s0) = utxo_entries s0 + length ?kus \<and>
    (\<forall>k. utxo_set (ul.put_all ?kus s0) k = (case map_of ?kus k of None \<Rightarrow> utxo_set s0 k | Some v \<Rightarrow> Some v))"
    by (rule ul.put_all_correct [OF s0(1)]) (use assms s0 worth in \<open>auto simp: comp_def\<close>)
  note P = this
  have "utxo_set (ul.put_all ?kus s0) k = map_of ?kus k" for k
    using P s0(4) by (cases k; cases "map_of ?kus k") auto
  then have "utxo_set (ul.put_all ?kus s0) = map_of ?kus" by (rule ext)
  then show ?thesis using P unfolding build worth s0 by simp
qed

theorem genesis_build_correct_witness:
  "ledger_value (utxo_genesis_build [\<lparr>utxo_txid = 5, utxo_vout = 0, utxo_address = 9,
     utxo_amount = 100, utxo_block_height = 208680, utxo_is_coinbase = True\<rparr>]) = 100"
  using genesis_build_correct [of "[\<lparr>utxo_txid = 5, utxo_vout = 0, utxo_address = 9,
     utxo_amount = 100, utxo_block_height = 208680, utxo_is_coinbase = True\<rparr>]"]
  by (simp add: amount_of_def)

section \<open>Revoked owners\<close>

text \<open>
  Revocation is final for the ledger: once an address is revoked in a reachable registry,
  no later registry state lets any transaction spend an output of that address.
\<close>

theorem revoked_owner_cannot_spend:
  assumes "dil_reachable sha pq d" and "is_revoked d a" and "rtranclp (dil_step sha pq) d d'"
    and "inp \<in> set inputs" and "utxo_set s (input_key inp) = Some u" and "utxo_address u = a"
  shows "\<exists>e. submit_transaction sha' pq is_frozen d' orig inputs outputs sigs s = Inl e"
proof (cases "submit_transaction sha' pq is_frozen d' orig inputs outputs sigs s")
  case (Inr t)
  from submit_transaction_InrD [OF Inr] obtain us where "tx_valid pq is_frozen d' inputs outputs sigs s us"
    by blast
  moreover obtain j where "j < length inputs" "inputs ! j = inp"
    using assms(4) by (auto simp: in_set_conv_nth)
  ultimately have "public_keys d' a \<noteq> None"
    using assms(5,6) by (auto simp: tx_valid_def spendable_def)
  then show ?thesis
    using dil_steps_revoked [OF assms(3,2) dil_reachable_inv [OF assms(1)]] by simp
qed simp

definition example_revoked :: dilithium_state where
  "example_revoked = \<lparr>public_keys = Map.empty, total_keys = 0, revoked_keys = [9 \<mapsto> True],
     dil_events = [KeyRegistered 9, KeyRevokedEvent 9]\<rparr>"

lemma example_revoked_reachable: "dil_reachable (\<lambda>_. 9) example_pq example_revoked"
proof -
  let ?d = "dil_genesis\<lparr>public_keys := [9 \<mapsto> replicate 2592 0], total_keys := 1, dil_events := [KeyRegistered 9]\<rparr>"
  have "revoke_key example_pq (Signed 1) 9 (replicate 4627 0) ?d = Inr example_revoked"
    by (simp add: revoke_key_def is_revoked_def dil_genesis_def example_revoked_def verify_signature_def
        verify_native_def dilithium5_verify_def example_pq_def qbc_consts saturating_sub_def revocation_msg_def ascii_def)
  then show ?thesis
    by (rule dil_next [OF dil_next [OF dil_start dil_register [OF example_register]] dil_revoke])
qed

theorem revoked_owner_cannot_spend_witness:
  "\<exists>e. submit_transaction (\<lambda>_. 7) example_pq (\<lambda>_. False) example_revoked (Signed 1) example_inputs
     example_outputs example_signatures example_ledger = Inl e"
  by (rule revoked_owner_cannot_spend [OF example_revoked_reachable, where a = 9])
    (auto simp: is_revoked_def example_revoked_def example_inputs_def example_utxo input_key_def)

text \<open>A witness for the consent property: the owner's balance falls by the payment.\<close>

theorem balance_falls_only_by_signature_witness:
  "\<exists>pk i. public_keys example_keys 9 = Some pk \<and> i < length example_signatures \<and>
    verify_signature example_pq pk (signing_message example_inputs example_outputs) (example_signatures ! i)"
proof -
  obtain t where t: "submit_transaction (\<lambda>_. 7) example_pq (\<lambda>_. False) example_keys (Signed 1) example_inputs
      example_outputs example_signatures example_ledger = Inr t"
    using submit_transaction_accepts [OF example_valid] by blast
  from submit_transaction_InrD [OF t] obtain us where
    v: "tx_valid example_pq (\<lambda>_. False) example_keys example_inputs example_outputs example_signatures example_ledger us"
    and te: "t = transaction_effect (\<lambda>_. 7) example_inputs example_outputs us example_ledger" by blast
  have us: "us = [the (utxo_set example_ledger (5, 0))]"
    using v by (auto simp: tx_valid_def spendable_def example_inputs_def input_key_def length_Suc_conv)
  have "balances t 9 < balances example_ledger 9"
    by (simp add: te us transaction_effect_def apply_transaction_def Let_def example_inputs_def example_outputs_def
        example_utxo spend_utxo_def create_output_def create_utxo_def insert_utxo_def output_utxo_def
        enumerate_eq_zip)
      (simp add: example_ledger_def create_coinbase_def insert_utxo_def set_block_height_def utxo_empty_def
        Let_def saturating_add_def saturating_sub_def)
  moreover have "accumulated_fees example_ledger = 0" by (simp add: example_ledger_def utxo_empty_def)
  ultimately show ?thesis
    by (intro balance_falls_only_by_signature [OF t example_ledger_inv(1) _ example_room])
      (simp_all add: example_ledger_inv)
qed

end
