(* ===== verification/Economics.thy ===== *)
theory Economics
  imports Primitives
begin

text \<open>
  The emission schedule of \<open>substrate-node/pallets/qbc-economics/src/lib.rs\<close>: the phi-halving
  loop in 128-bit fixed point, the tail emission floor, the supply cap and the fee burn. The
  loop is shown equal to a reference schedule over the natural numbers (so none of its
  saturating operations saturates), and the cap is an invariant of block authoring.
\<close>

section \<open>Storage and operations\<close>

datatype economics_event =
  RewardCalculated u64 qbc_balance u32
| NewEra u32 qbc_balance
| EconFeesBurned qbc_balance qbc_balance

record economics_state =
  total_emitted :: qbc_balance
  current_era :: u32
  era_start_block :: u64
  econ_fees_burned :: qbc_balance
  supply_migration_done :: bool
  econ_events :: "economics_event list"

definition economics_genesis :: "qbc_balance \<Rightarrow> economics_state" where
  "economics_genesis initial_emitted = \<lparr>total_emitted = initial_emitted, current_era = 0,
     era_start_block = 0, econ_fees_burned = 0, supply_migration_done = False, econ_events = []\<rparr>"

definition on_runtime_upgrade :: "economics_state \<Rightarrow> economics_state" where
  "on_runtime_upgrade s =
     (if \<not> supply_migration_done s
      then s\<lparr>total_emitted := saturating_add (total_emitted s) 122160000000000,
             supply_migration_done := True\<rparr>
      else s)"

definition MAX_ERA :: u32 where [qbc_consts]: "MAX_ERA = 100"

text \<open>The body of the halving loop, and the loop with its early exit.\<close>

definition phi_step :: "u128 \<Rightarrow> u128" where
  "phi_step reward =
     (let quotient = reward div PHI_SCALED; remainder = reward mod PHI_SCALED
      in saturating_add (saturating_mul quotient PHI_DENOM)
           (saturating_mul remainder PHI_DENOM div PHI_SCALED))"

fun phi_decay :: "nat \<Rightarrow> u128 \<Rightarrow> u128" where
  "phi_decay 0 reward = reward"
| "phi_decay (Suc n) reward =
     (let reward' = phi_step reward
      in if reward' < PHI_DENOM then PHI_DENOM else phi_decay n reward')"

definition era_of :: "u64 \<Rightarrow> u32" where
  "era_of block_height = ucast (block_height div HALVING_INTERVAL)"

definition base_reward :: "u32 \<Rightarrow> qbc_balance" where
  "base_reward era =
     (let base = (if era = 0 then INITIAL_REWARD
                  else (let capped_era = min era MAX_ERA;
                            reward = phi_decay (unat capped_era) (INITIAL_REWARD * PHI_DENOM);
                            result = reward div PHI_DENOM
                        in max result 1))
      in if base < ucast TAIL_EMISSION_REWARD then ucast TAIL_EMISSION_REWARD else base)"

definition calculate_reward :: "u64 \<Rightarrow> economics_state \<Rightarrow> qbc_balance" where
  "calculate_reward block_height s =
     (let base = base_reward (era_of block_height);
          remaining = saturating_sub MAX_SUPPLY (total_emitted s)
      in if remaining = 0 then 0 else min base remaining)"

definition compute_total_emitted :: "u64 \<Rightarrow> economics_state \<Rightarrow> qbc_balance" where
  "compute_total_emitted block_height s = total_emitted s"

definition on_block_authored :: "u64 \<Rightarrow> economics_state \<Rightarrow> qbc_balance \<times> economics_state" where
  "on_block_authored block_height s =
     (let reward = calculate_reward block_height s;
          era = era_of block_height;
          s1 = s\<lparr>total_emitted := min (saturating_add (total_emitted s) reward) MAX_SUPPLY\<rparr>;
          s2 = (if current_era s1 < era
                then s1\<lparr>current_era := era, era_start_block := block_height,
                        econ_events := econ_events s1 @ [NewEra era reward]\<rparr>
                else s1)
      in (reward, s2\<lparr>econ_events := econ_events s2 @ [RewardCalculated block_height reward era]\<rparr>))"

definition burn_fees :: "qbc_balance \<Rightarrow> economics_state \<Rightarrow> (qbc_balance \<times> qbc_balance) \<times> economics_state" where
  "burn_fees total_fees s =
     (if total_fees = 0 then ((0, 0), s)
      else
        (let burned = total_fees * ucast FEE_BURN_PERCENTAGE div 100;
             miner_portion = total_fees - burned
         in ((miner_portion, burned),
             s\<lparr>econ_fees_burned := saturating_add (econ_fees_burned s) burned,
               econ_events := econ_events s @ [EconFeesBurned burned miner_portion]\<rparr>)))"

section \<open>The halving loop computes the reference schedule\<close>

text \<open>The reference: division by phi in exact natural arithmetic, rounded down in each era.\<close>

definition phi_div :: "nat \<Rightarrow> nat" where
  "phi_div r = r * 1000000000000000000 div 1618033988749895000"

definition phi_schedule :: "nat \<Rightarrow> nat" where
  "phi_schedule era = (phi_div ^^ era) (1527000000 * 1000000000000000000) div 1000000000000000000"

lemma phi_div_le: "phi_div r \<le> r"
  by (simp add: phi_div_def div_le_mono2 less_eq_div_iff_mult_less_eq)

lemma phi_div_mono: "r \<le> r' \<Longrightarrow> phi_div r \<le> phi_div r'"
  by (simp add: phi_div_def div_le_mono)

lemma phi_div_iterate_le: "(phi_div ^^ n) r \<le> r"
  by (induction n) (auto intro: order_trans [OF phi_div_le])

lemma phi_schedule_antimono: "phi_schedule (Suc era) \<le> phi_schedule era"
  by (simp add: phi_schedule_def div_le_mono phi_div_le)

lemma phi_div_split:
  "phi_div (q * 1618033988749895000 + m) = q * 1000000000000000000 + m * 1000000000000000000 div 1618033988749895000"
proof -
  have "(q * 1618033988749895000 + m) * 1000000000000000000 =
      m * 1000000000000000000 + 1618033988749895000 * (q * 1000000000000000000)" by algebra
  then show ?thesis by (simp only: phi_div_def)
qed

text \<open>No operation of the loop body saturates, and the body is an exact floor division.\<close>

lemma phi_step_exact:
  assumes "unat reward \<le> 1527000000 * 1000000000000000000"
  shows "unat (phi_step reward) = phi_div (unat reward)"
proof -
  define q where "q = unat reward div 1618033988749895000"
  define m where "m = unat reward mod 1618033988749895000"
  have r: "unat reward = q * 1618033988749895000 + m" by (simp add: q_def m_def)
  have m: "m < 1618033988749895000" by (simp add: m_def)
  have q: "q \<le> 943738000" using assms unfolding q_def by linarith
  have md: "m * 1000000000000000000 div 1618033988749895000 \<le> m"
    using phi_div_le [of m] by (simp add: phi_div_def)
  have "unat (phi_step reward) =
      min (min (q * 1000000000000000000) (2 ^ 128 - 1) +
        min (m * 1000000000000000000) (2 ^ 128 - 1) div 1618033988749895000) (2 ^ 128 - 1)"
    by (simp add: phi_step_def Let_def rust_arith unat_div unat_mod qbc_consts q_def m_def)
  also have "\<dots> = q * 1000000000000000000 + m * 1000000000000000000 div 1618033988749895000"
    using m q md by (simp add: min_def)
  also have "\<dots> = phi_div (unat reward)" by (simp only: r phi_div_split)
  finally show ?thesis .
qed

lemma phi_decay_schedule:
  assumes "unat reward \<le> 1527000000 * 1000000000000000000"
  shows "max 1 (unat (phi_decay n reward) div 1000000000000000000) =
    max 1 ((phi_div ^^ n) (unat reward) div 1000000000000000000)"
  using assms
proof (induction n arbitrary: reward)
  case (Suc n)
  note step = phi_step_exact [OF Suc.prems]
  have iter: "(phi_div ^^ Suc n) (unat reward) = (phi_div ^^ n) (phi_div (unat reward))"
    by (simp add: funpow_Suc_right del: funpow.simps)
  show ?case
  proof (cases "phi_step reward < PHI_DENOM")
    case True
    then have "phi_div (unat reward) < 1000000000000000000"
      by (simp add: word_less_nat_alt step qbc_consts)
    then have "(phi_div ^^ n) (phi_div (unat reward)) < 1000000000000000000"
      using phi_div_iterate_le [of n] by (meson order.strict_trans1)
    with True show ?thesis by (simp add: iter qbc_consts del: funpow.simps)
  next
    case False
    have "unat (phi_step reward) \<le> 1527000000 * 1000000000000000000"
      using Suc.prems phi_div_le [of "unat reward"] by (simp add: step)
    from Suc.IH [OF this] False show ?thesis by (simp add: iter step Let_def del: funpow.simps)
  qed
qed simp

lemma phi_schedule_0: "phi_schedule 0 = 1527000000"
  by (simp add: phi_schedule_def)

lemma base_reward_schedule:
  "unat (base_reward era) = max 10000000 (phi_schedule (min (unat era) 100))"
proof (cases "era = 0")
  case True
  then show ?thesis by (simp add: base_reward_def phi_schedule_0 qbc_consts Let_def)
next
  case False
  let ?r = "phi_decay (unat (min era MAX_ERA)) (INITIAL_REWARD * PHI_DENOM)"
  have start: "unat (INITIAL_REWARD * PHI_DENOM) = 1527000000 * 1000000000000000000"
    by (simp add: qbc_consts)
  have "max 1 (unat ?r div 1000000000000000000) =
      max 1 ((phi_div ^^ unat (min era MAX_ERA)) (unat (INITIAL_REWARD * PHI_DENOM)) div 1000000000000000000)"
    by (rule phi_decay_schedule) (simp only: start order_refl)
  also have "\<dots> = max 1 (phi_schedule (min (unat era) 100))"
    unfolding start phi_schedule_def by (simp add: unat_min qbc_consts)
  finally have core: "max 1 (unat ?r div 1000000000000000000) = max 1 (phi_schedule (min (unat era) 100))" .
  have "unat (max (?r div PHI_DENOM) 1) = max 1 (unat ?r div 1000000000000000000)"
    by (simp add: unat_max unat_div qbc_consts max.commute)
  then have "unat (max (?r div PHI_DENOM) 1) = max 1 (phi_schedule (min (unat era) 100))"
    using core by simp
  with False show ?thesis
    by (simp add: base_reward_def Let_def word_less_nat_alt TAIL_EMISSION_REWARD_def max_def)
qed

lemma base_reward_bounds: "10000000 \<le> unat (base_reward era)" "unat (base_reward era) \<le> 1527000000"
proof -
  have "phi_schedule n \<le> 1527000000" for n
    by (induction n) (auto simp: phi_schedule_0 intro: order_trans [OF phi_schedule_antimono])
  then show "10000000 \<le> unat (base_reward era)" "unat (base_reward era) \<le> 1527000000"
    by (simp_all add: base_reward_schedule)
qed

text \<open>
  C12. The reward of an era, before the supply cap, is the reference schedule: the initial
  reward divided by phi once per era with exact rounding down, at most 100 times, and never
  less than the tail emission. In particular the fixed-point loop neither overflows nor
  saturates.
\<close>

theorem base_reward_is_schedule:
  "unat (base_reward era) = max 10000000 (phi_schedule (min (unat era) 100))"
  by (rule base_reward_schedule)

text \<open>
  The reward never grows from one era to the next.
\<close>

theorem base_reward_antimono:
  assumes "era \<le> era'"
  shows "base_reward era' \<le> base_reward era"
proof -
  have "phi_schedule n \<le> phi_schedule m" if "m \<le> n" for m n
    using that phi_schedule_antimono by (metis lift_Suc_antimono_le)
  then have "phi_schedule (min (unat era') 100) \<le> phi_schedule (min (unat era) 100)"
    using assms by (simp add: word_le_nat_alt)
  then show ?thesis by (simp add: word_le_nat_alt base_reward_schedule)
qed

theorem base_reward_antimono_witness: "base_reward 2 \<le> base_reward 1"
  by (rule base_reward_antimono) simp

section \<open>The supply cap\<close>

definition emission_inv :: "economics_state \<Rightarrow> bool" where
  "emission_inv s \<longleftrightarrow> total_emitted s \<le> MAX_SUPPLY"

lemma calculate_reward_le: "unat (calculate_reward h s) \<le> unat MAX_SUPPLY - unat (total_emitted s)"
  by (simp add: calculate_reward_def Let_def unat_min rust_arith)

lemma on_block_authored_correct:
  assumes "emission_inv s" and "on_block_authored h s = (reward, t)"
  shows "reward = calculate_reward h s" and "emission_inv t"
    and "unat (total_emitted t) = unat (total_emitted s) + unat reward"
    and "current_era t = max (current_era s) (era_of h)"
proof -
  show r: "reward = calculate_reward h s"
    using assms(2) by (simp add: on_block_authored_def Let_def)
  have "total_emitted t = min (saturating_add (total_emitted s) reward) MAX_SUPPLY"
    using assms(2) by (auto simp: on_block_authored_def Let_def split: if_splits)
  moreover have "unat (total_emitted s) + unat reward \<le> unat MAX_SUPPLY"
    using calculate_reward_le [of h s] assms(1) by (simp add: r emission_inv_def word_le_nat_alt)
  ultimately show "unat (total_emitted t) = unat (total_emitted s) + unat reward" and "emission_inv t"
    by (auto simp: emission_inv_def unat_min rust_arith qbc_consts word_le_nat_alt)
  show "current_era t = max (current_era s) (era_of h)"
    using assms(2) by (auto simp: on_block_authored_def Let_def max_def not_le split: if_splits)
qed

text \<open>
  The supply cap: authoring a block under the cap stays under the cap, adds exactly the
  reward to the emitted total, and the reward is at most the initial one and at least the
  tail emission while that much supply remains.
\<close>

theorem emission_capped:
  assumes "total_emitted s \<le> MAX_SUPPLY" and "on_block_authored h s = (reward, t)"
  shows "total_emitted t \<le> MAX_SUPPLY \<and> unat (total_emitted t) = unat (total_emitted s) + unat reward \<and>
    unat reward \<le> 1527000000 \<and>
    min 10000000 (330000000000000000 - unat (total_emitted s)) \<le> unat reward"
proof -
  note B = on_block_authored_correct [OF _ assms(2)]
  have "unat reward = min (unat (base_reward (era_of h))) (330000000000000000 - unat (total_emitted s))"
    using B(1) assms(1)
    by (auto simp: emission_inv_def calculate_reward_def Let_def unat_min rust_arith qbc_consts word_unat_eq_iff)
  then show ?thesis
    using B assms(1) base_reward_bounds [of "era_of h"] by (auto simp: emission_inv_def)
qed

theorem emission_capped_witness:
  "unat (total_emitted (snd (on_block_authored 5 (economics_genesis 3300000000000000)))) =
    3300000000000000 + unat (fst (on_block_authored 5 (economics_genesis 3300000000000000)))"
  using emission_capped [of "economics_genesis 3300000000000000" 5, OF _ surjective_pairing]
  by (simp add: economics_genesis_def qbc_consts)

fun author_blocks :: "u64 list \<Rightarrow> economics_state \<Rightarrow> nat \<times> economics_state" where
  "author_blocks [] s = (0, s)"
| "author_blocks (h # hs) s =
     (let (reward, t) = on_block_authored h s; (paid, u) = author_blocks hs t
      in (unat reward + paid, u))"

lemma author_blocks_emitted:
  "emission_inv s \<Longrightarrow> author_blocks hs s = (paid, t) \<Longrightarrow>
    emission_inv t \<and> unat (total_emitted t) = unat (total_emitted s) + paid"
proof (induction hs arbitrary: s paid t)
  case (Cons h hs)
  obtain reward u where u: "on_block_authored h s = (reward, u)" by fastforce
  obtain rest v where v: "author_blocks hs u = (rest, v)" by fastforce
  from Cons.prems u v show ?case
    using on_block_authored_correct [OF Cons.prems(1) u] Cons.IH [OF _ v] by simp
qed simp

text \<open>
  Any run of authored blocks keeps the emitted total equal to its start plus the rewards
  paid, and never above the cap.
\<close>

theorem author_blocks_capped:
  assumes "total_emitted s \<le> MAX_SUPPLY" and "author_blocks hs s = (paid, t)"
  shows "total_emitted t \<le> MAX_SUPPLY \<and> unat (total_emitted t) = unat (total_emitted s) + paid"
  using author_blocks_emitted [of s hs paid t] assms by (simp add: emission_inv_def)

theorem author_blocks_capped_witness:
  "total_emitted (snd (author_blocks [1, 2, 3] (economics_genesis 3300000000000000))) \<le> MAX_SUPPLY"
  using author_blocks_capped [of "economics_genesis 3300000000000000" "[1, 2, 3]", OF _ surjective_pairing]
  by (simp add: economics_genesis_def qbc_consts)

text \<open>
  The fee burn splits the fees without loss, as long as fifty times the fees fit the
  balance type; unlike the ledger's own fee close it rounds the burned half down.
\<close>

theorem burn_fees_splits:
  assumes "unat total_fees * 50 < 2 ^ 128"
    and "burn_fees total_fees s = ((miner, burned), t)"
  shows "unat miner + unat burned = unat total_fees \<and> unat burned = unat total_fees div 2"
proof (cases "total_fees = 0")
  case True
  then show ?thesis using assms(2) by (simp add: burn_fees_def)
next
  case False
  have b: "unat (total_fees * 50 div 100) = unat total_fees div 2"
    using assms(1) by (simp add: unat_div unat_mult_lem [THEN iffD1])
  have "unat (total_fees - total_fees * 50 div 100) = unat total_fees - unat total_fees div 2"
    by (subst unat_sub) (simp_all add: word_le_nat_alt b)
  with False b show ?thesis
    using assms(2) by (auto simp: burn_fees_def Let_def qbc_consts)
qed

theorem burn_fees_splits_witness:
  "fst (burn_fees 15 (economics_genesis 0)) = (8, 7)"
proof -
  have "unat (fst (fst (burn_fees 15 (economics_genesis 0)))) + unat (snd (fst (burn_fees 15 (economics_genesis 0)))) = 15 \<and>
    unat (snd (fst (burn_fees 15 (economics_genesis 0)))) = 7"
    using burn_fees_splits [of 15 "economics_genesis 0" "fst (fst (burn_fees 15 (economics_genesis 0)))"
        "snd (fst (burn_fees 15 (economics_genesis 0)))" "snd (burn_fees 15 (economics_genesis 0))"]
    by simp
  then show ?thesis by (simp add: prod_eq_iff word_unat_eq_iff)
qed

end
