(* ===== verification/Retention.thy ===== *)
theory Retention
  imports Prelude
begin

text \<open>
  The contract of a per-height history that is pruned as it grows: three pallets insert an
  entry under a block height and remove the entry one retention window below it. The client
  lemmas show that the history holds the last window of heights, and possibly height zero,
  which the guard never prunes, as long as heights are recorded one after the other.
\<close>

locale retention =
  fixes window :: u64
    and history :: "'s \<Rightarrow> u64 \<rightharpoonup> 'v"
    and record_at :: "u64 \<Rightarrow> 'v \<Rightarrow> 's \<Rightarrow> 's"
  assumes window_pos: "0 < window"
    and record_history: "history (record_at h v s) =
      (let m = (history s)(h \<mapsto> v) in if window < h then m(saturating_sub h window := None) else m)"
begin

definition within :: "u64 \<Rightarrow> 's \<Rightarrow> bool" where
  "within h s \<longleftrightarrow>
     (\<forall>k \<in> dom (history s). k = 0 \<or> (unat k \<le> unat h \<and> unat h < unat k + unat window))"

lemma recorded: "history (record_at h v s) h = Some v"
proof -
  have "saturating_sub h window \<noteq> h" if "window < h"
  proof
    assume eq: "saturating_sub h window = h"
    have "unat h - unat window = unat h" using arg_cong [OF eq, where f = unat] by (simp add: unat_saturating_sub)
    then show False using that window_pos by (simp add: word_less_nat_alt)
  qed
  then show ?thesis by (auto simp: record_history Let_def)
qed

lemma others_kept:
  "k \<noteq> h \<Longrightarrow> window < h \<longrightarrow> unat k + unat window \<noteq> unat h \<Longrightarrow> history (record_at h v s) k = history s k"
  by (auto simp: record_history Let_def unat_saturating_sub word_less_nat_alt dest!: arg_cong [where f = unat])

lemma within_next:
  assumes "within h s" and "unat h' = unat h + 1"
  shows "within h' (record_at h' v s)"
  unfolding within_def
proof
  fix k assume k: "k \<in> dom (history (record_at h' v s))"
  have w: "0 < unat window" using window_pos by (simp add: word_less_nat_alt)
  show "k = 0 \<or> (unat k \<le> unat h' \<and> unat h' < unat k + unat window)"
  proof (cases "k = h' \<or> k = 0")
    case True
    then show ?thesis using w by auto
  next
    case False
    with k have old: "k \<in> dom (history s)"
      by (auto simp: record_history Let_def split: if_splits)
    then have *: "unat k \<le> unat h" "unat h < unat k + unat window"
      using assms(1) False by (auto simp: within_def)
    have "unat k + unat window \<noteq> unat h'"
    proof
      assume eq: "unat k + unat window = unat h'"
      have "0 < unat k" using False by (simp add: unat_gt_0)
      then have pruned: "window < h'" using eq by (simp add: word_less_nat_alt)
      have "unat (saturating_sub h' window) = unat k" using eq by (simp add: unat_saturating_sub)
      then have "saturating_sub h' window = k" by (simp add: word_unat_eq_iff)
      with k pruned show False by (simp add: record_history Let_def)
    qed
    then show ?thesis using * assms(2) by linarith
  qed
qed

text \<open>Heights recorded one after the other.\<close>

fun record_run :: "u64 \<Rightarrow> 'v list \<Rightarrow> 's \<Rightarrow> 's" where
  "record_run h [] s = s"
| "record_run h (v # vs) s = record_run (h + 1) vs (record_at (h + 1) v s)"

lemma record_run_within:
  "within h s \<Longrightarrow> unat h + length vs < 2 ^ 64 \<Longrightarrow> within (h + of_nat (length vs)) (record_run h vs s)"
proof (induction vs arbitrary: h s)
  case (Cons v vs)
  have "unat h + 1 < 2 ^ 64" using Cons.prems by simp
  then have next_h: "unat (h + 1) = unat h + 1" by (subst unat_add_lem [THEN iffD1]) simp_all
  from Cons.IH [OF within_next [OF Cons.prems(1) next_h]] show ?case
    using Cons.prems next_h by (simp add: ac_simps)
qed simp

lemma within_card:
  assumes "within h s"
  shows "card (dom (history s)) \<le> unat window + 1"
proof -
  let ?K = "insert 0 {unat h + 1 - unat window ..< unat h + 1}"
  have "unat k \<in> ?K" if "k \<in> dom (history s)" for k
  proof -
    have "k = 0 \<or> (unat k \<le> unat h \<and> unat h < unat k + unat window)"
      using assms that by (simp add: within_def)
    then show ?thesis by auto
  qed
  then have sub: "unat ` dom (history s) \<subseteq> ?K" by (rule image_subsetI)
  have "card (unat ` dom (history s)) \<le> card ?K" by (rule card_mono [OF _ sub]) simp
  also have "\<dots> \<le> Suc (card {unat h + 1 - unat window ..< unat h + 1})" by (simp add: card_insert_if)
  also have "\<dots> \<le> unat window + 1" by simp
  finally have "card (unat ` dom (history s)) \<le> unat window + 1" .
  moreover have "card (unat ` dom (history s)) = card (dom (history s))"
    by (rule card_image) (simp add: inj_on_def word_unat_eq_iff)
  ultimately show ?thesis by simp
qed

lemma zero_stays:
  "v0 = history s 0 \<Longrightarrow> 0 < h \<Longrightarrow> history (record_at h v s) 0 = v0"
proof -
  assume a: "v0 = history s 0" "0 < h"
  have "saturating_sub h window \<noteq> 0" if "window < h"
  proof
    assume "saturating_sub h window = 0"
    from arg_cong [OF this, where f = unat] that show False
      by (simp add: unat_saturating_sub word_less_nat_alt)
  qed
  then show ?thesis using a by (auto simp: record_history Let_def)
qed

lemma run_zero_stays:
  "unat h + length vs < 2 ^ 64 \<Longrightarrow> history (record_run h vs s) 0 = history s 0"
proof (induction vs arbitrary: h s)
  case (Cons v vs)
  have "unat h + 1 < 2 ^ 64" using Cons.prems by simp
  then have next_h: "unat (h + 1) = unat h + 1" by (subst unat_add_lem [THEN iffD1]) simp_all
  then have "0 < h + 1" by (simp add: word_less_nat_alt)
  then show ?case using Cons next_h zero_stays [OF refl] by simp
qed simp

text \<open>What a run of consecutive heights leaves to be looked up.\<close>

lemma run_keeps:
  assumes "unat k \<le> unat h" and "unat h + length vs < unat k + unat window" and "unat h + length vs < 2 ^ 64"
  shows "history (record_run h vs s) k = history s k"
  using assms
proof (induction vs arbitrary: h s)
  case (Cons v vs)
  have "unat h + 1 < 2 ^ 64" using Cons.prems by simp
  then have next_h: "unat (h + 1) = unat h + 1" by (subst unat_add_lem [THEN iffD1]) simp_all
  have "history (record_run (h + 1) vs (record_at (h + 1) v s)) k = history (record_at (h + 1) v s) k"
    by (rule Cons.IH) (use Cons.prems next_h in simp_all)
  also have "\<dots> = history s k"
    by (rule others_kept) (use Cons.prems next_h in auto)
  finally show ?case by simp
qed simp

lemma run_lookup:
  assumes "unat h + length vs < 2 ^ 64" and "i < length vs" and "length vs - i \<le> unat window"
  shows "history (record_run h vs s) (h + of_nat (Suc i)) = Some (vs ! i)"
  using assms
proof (induction vs arbitrary: h s i)
  case (Cons v vs)
  have "unat h + 1 < 2 ^ 64" using Cons.prems by simp
  then have next_h: "unat (h + 1) = unat h + 1" by (subst unat_add_lem [THEN iffD1]) simp_all
  show ?case
  proof (cases i)
    case 0
    have "history (record_run (h + 1) vs (record_at (h + 1) v s)) (h + 1) = history (record_at (h + 1) v s) (h + 1)"
      by (rule run_keeps) (use Cons.prems 0 next_h in simp_all)
    then show ?thesis using 0 by (simp add: recorded)
  next
    case (Suc j)
    have "history (record_run (h + 1) vs (record_at (h + 1) v s)) (h + 1 + of_nat (Suc j)) = Some (vs ! j)"
      by (rule Cons.IH) (use Cons.prems Suc next_h in simp_all)
    then show ?thesis using Suc by (simp add: ac_simps)
  qed
qed simp

end

end
