(* ===== verification/Consensus.thy ===== *)
theory Consensus
  imports Utxo Economics Retention
begin

text \<open>
  Mining and difficulty of \<open>substrate-node/pallets/qbc-consensus/src/lib.rs\<close>: the mining proof
  call with all its checks and writes across the three pallets, the transaction pool check,
  the difficulty adjustment, and the byte encodings of the seeds and identifiers. Ed25519,
  SHA-256, the block environment and the floating-point energy and phase computations of the
  crates \<open>vqe-verifier\<close> and \<open>bimetric-physics\<close> are parameters.
\<close>

section \<open>Parameters\<close>

text \<open>
  The environment of a block: the parent hash and the timestamp of the chain, and the
  functions the handler calls outside this development. \<open>removed_count\<close> is the number FRAME
  reports for clearing a prefix that holds so many entries.
\<close>

record mining_env =
  env_sha :: "u8 list \<Rightarrow> h256"
  ed25519_verify :: "u8 list \<Rightarrow> u8 list \<Rightarrow> h256 \<Rightarrow> bool"
  parent_hash :: h256
  chain_now :: u64
  compute_energy_versioned :: "h256 \<Rightarrow> i64 list \<Rightarrow> i64 \<Rightarrow> u8 \<Rightarrow> i128 option"
  geometric_weight_scaled :: "i64 list \<Rightarrow> i64"
  active_sephirot :: "i64 \<Rightarrow> u8"
  removed_count :: "nat \<Rightarrow> u32"

section \<open>Storage, events and errors\<close>

definition SUSY_RETENTION_WINDOW :: u64 where [qbc_consts]: "SUSY_RETENTION_WINDOW = 100000"
definition DIFFICULTY_RESET_HEIGHT_167 :: u64 where [qbc_consts]: "DIFFICULTY_RESET_HEIGHT_167 = 167"
definition DIFFICULTY_RESET_HEIGHT_724 :: u64 where [qbc_consts]: "DIFFICULTY_RESET_HEIGHT_724 = 724"
definition DIFFICULTY_RESET_HEIGHT_2750 :: u64 where [qbc_consts]: "DIFFICULTY_RESET_HEIGHT_2750 = 2750"
definition DIFFICULTY_RESET_HEIGHT_215469 :: u64 where [qbc_consts]: "DIFFICULTY_RESET_HEIGHT_215469 = 215469"
definition DIFFICULTY_FLOOR :: u64 where [qbc_consts]: "DIFFICULTY_FLOOR = 500000"
definition DIFFICULTY_CEILING :: u64 where [qbc_consts]: "DIFFICULTY_CEILING = 1000000000"
definition DIFFICULTY_MEANINGFUL_MAX :: u64 where [qbc_consts]: "DIFFICULTY_MEANINGFUL_MAX = 10000000"
definition ENERGY_VALIDATION_TOLERANCE :: i128 where [qbc_consts]: "ENERGY_VALIDATION_TOLERANCE = 1000"
definition MAX_RECENT_PROOF_HASHES :: u32 where [qbc_consts]: "MAX_RECENT_PROOF_HASHES = 1000"

datatype consensus_event =
  BlockMined u64 address i128 difficulty qbc_balance
| DifficultyAdjusted difficulty difficulty u64
| SusySolutionStored u64 i128 u8
| PhaseAdvanced u64 i64 i64 u8

datatype consensus_error =
  EnergyAboveDifficulty | InvalidHamiltonianSeed | InvalidVqeParams | InvalidMinerAddress
| DuplicateProof | MinerRateLimited | EnergyVerificationFailed | InvalidMinerSignature

record consensus_state =
  current_difficulty :: difficulty
  block_timestamps :: "u64 list"
  last_miner :: "address option"
  blocks_mined :: u64
  susy_solutions :: "u64 \<rightharpoonup> vqe_proof"
  recent_proof_hashes :: "(u64 \<times> h256) list" \<comment> \<open>the keys of the double map, without repetition\<close>
  recent_proof_hash_count :: u32
  proof_hash_oldest_block :: u64
  last_miner_block :: "address \<Rightarrow> u64"
  network_theta :: i64
  network_alpha :: i64
  cons_events :: "consensus_event list"

definition consensus_genesis :: "difficulty \<Rightarrow> consensus_state" where
  "consensus_genesis initial_difficulty = \<lparr>current_difficulty = initial_difficulty,
     block_timestamps = [], last_miner = None, blocks_mined = 0, susy_solutions = Map.empty,
     recent_proof_hashes = [], recent_proof_hash_count = 0, proof_hash_oldest_block = 0,
     last_miner_block = (\<lambda>_. 0), network_theta = 0, network_alpha = 0, cons_events = []\<rparr>"

text \<open>The storage of the three pallets the mining call writes.\<close>

record chain_state =
  ch_utxo :: utxo_state
  ch_econ :: economics_state
  ch_cons :: consensus_state

section \<open>Byte encodings\<close>

definition HEX_CHARS :: "u8 list" where
  "HEX_CHARS = ascii ''0123456789abcdef''"

definition hex_byte :: "u8 \<Rightarrow> u8 list" where
  "hex_byte b = [HEX_CHARS ! unat (drop_bit 4 b), HEX_CHARS ! unat (and b 0x0f)]"

definition bytes_to_hex :: "u8 list \<Rightarrow> u8 list" where
  "bytes_to_hex bytes = concat (map hex_byte bytes)"

text \<open>The digits are pushed least significant first and reversed at the end.\<close>

function decimal_digits :: "u64 \<Rightarrow> u8 list" where
  "decimal_digits n = (if 0 < n then (48 + ucast (n mod 10)) # decimal_digits (n div 10) else [])"
  by auto
termination
  by (relation "measure unat") (auto simp: unat_div word_less_nat_alt)

declare decimal_digits.simps [simp del]

definition u64_to_decimal_bytes :: "u64 \<Rightarrow> u8 list" where
  "u64_to_decimal_bytes n = (if n = 0 then [48] else rev (decimal_digits n))"

definition mining_proof_signing_message :: "vqe_proof \<Rightarrow> u8 list" where
  "mining_proof_signing_message proof =
     ascii ''qbc-mining-v1:'' @ be_bytes (hamiltonian_seed proof) @ le_bytes (vqe_energy proof) @
     concat (map le_bytes (vqe_params proof)) @ [n_qubits proof]"

definition pubkey_to_address :: "mining_env \<Rightarrow> h256 \<Rightarrow> address" where
  "pubkey_to_address env pubkey = env_sha env (be_bytes pubkey)"

definition seed_data :: "h256 \<Rightarrow> u64 \<Rightarrow> u8 list" where
  "seed_data parent block_height =
     bytes_to_hex (be_bytes parent) @ [58] @ u64_to_decimal_bytes block_height"

definition derive_hamiltonian_seed :: "mining_env \<Rightarrow> u64 \<Rightarrow> h256" where
  "derive_hamiltonian_seed env block_height = env_sha env (seed_data (parent_hash env) block_height)"

definition proof_hash_data :: "vqe_proof \<Rightarrow> address \<Rightarrow> u64 \<Rightarrow> u8 list" where
  "proof_hash_data proof miner block_height =
     ascii ''mining-proof-v1:'' @ be_bytes (hamiltonian_seed proof) @ le_bytes (vqe_energy proof) @
     [n_qubits proof] @ concat (map le_bytes (vqe_params proof)) @ be_bytes miner @ le_bytes block_height"

definition compute_proof_hash :: "mining_env \<Rightarrow> vqe_proof \<Rightarrow> address \<Rightarrow> u64 \<Rightarrow> h256" where
  "compute_proof_hash env proof miner block_height = env_sha env (proof_hash_data proof miner block_height)"

definition coinbase_data :: "h256 \<Rightarrow> u64 \<Rightarrow> u8 list" where
  "coinbase_data parent block_height =
     ascii ''coinbase-'' @ u64_to_decimal_bytes block_height @ [45] @ bytes_to_hex (be_bytes parent)"

definition coinbase_txid :: "mining_env \<Rightarrow> u64 \<Rightarrow> tx_id" where
  "coinbase_txid env block_height = env_sha env (coinbase_data (parent_hash env) block_height)"

section \<open>Difficulty adjustment\<close>

definition TIMESTAMP_BOUND :: nat where
  [qbc_consts]: "TIMESTAMP_BOUND = unat DIFFICULTY_WINDOW + 1"

definition push_timestamp :: "u64 \<Rightarrow> u64 list \<Rightarrow> u64 list" where
  "push_timestamp ts xs =
     (case try_push TIMESTAMP_BOUND ts xs of
        Some ys \<Rightarrow> ys
      | None \<Rightarrow>
          (let zs = (if xs = [] then xs else tl xs)
           in case try_push TIMESTAMP_BOUND ts zs of Some ys \<Rightarrow> ys | None \<Rightarrow> zs))"

definition adjusted_difficulty :: "difficulty \<Rightarrow> u64 \<Rightarrow> difficulty" where
  "adjusted_difficulty old_difficulty ratio_100 =
     (let ratio = (if 100 < ratio_100 \<and> DIFFICULTY_MEANINGFUL_MAX < old_difficulty then 100 else ratio_100);
          clamped = min (max ratio (ucast MIN_ADJUSTMENT_FACTOR)) (ucast MAX_ADJUSTMENT_FACTOR);
          new_difficulty = ucast ((ucast old_difficulty :: u128) * ucast clamped div 100) :: u64
      in min (max new_difficulty DIFFICULTY_FLOOR) DIFFICULTY_CEILING)"

definition put_difficulty :: "difficulty \<Rightarrow> u64 \<Rightarrow> consensus_state \<Rightarrow> consensus_state" where
  "put_difficulty new_difficulty block_height s =
     s\<lparr>current_difficulty := new_difficulty,
       cons_events := cons_events s @ [DifficultyAdjusted (current_difficulty s) new_difficulty block_height]\<rparr>"

definition is_reset_height :: "u64 \<Rightarrow> bool" where
  "is_reset_height h \<longleftrightarrow> h = DIFFICULTY_RESET_HEIGHT_167 \<or> h = DIFFICULTY_RESET_HEIGHT_724 \<or>
     h = DIFFICULTY_RESET_HEIGHT_2750 \<or> h = DIFFICULTY_RESET_HEIGHT_215469"

definition adjust_difficulty :: "u64 \<Rightarrow> u64 \<Rightarrow> consensus_state \<Rightarrow> consensus_state" where
  "adjust_difficulty timestamp_ms block_height s =
     (if is_reset_height block_height
      then
        (let s1 = put_difficulty INITIAL_DIFFICULTY block_height s
         in s1\<lparr>block_timestamps := push_timestamp timestamp_ms (block_timestamps s1)\<rparr>)
      else
        (let ts = push_timestamp timestamp_ms (block_timestamps s);
             s1 = s\<lparr>block_timestamps := ts\<rparr>;
             len = length ts
         in if len < 2 then s1
            else
              (let window_size = min len (unat DIFFICULTY_WINDOW);
                   oldest = ts ! (len - window_size);
                   newest = ts ! (len - 1);
                   actual_time_ms = saturating_sub newest oldest;
                   expected_time_ms = (of_nat window_size - 1) * TARGET_BLOCK_TIME_MS
               in if expected_time_ms = 0 then s1
                  else
                    (let ratio_100 = (actual_time_ms * 100) div expected_time_ms;
                         new_difficulty = adjusted_difficulty (current_difficulty s1) ratio_100
                     in if new_difficulty \<noteq> current_difficulty s1
                        then put_difficulty new_difficulty block_height s1 else s1))))"

section \<open>The mining call\<close>

text \<open>Inserting a proof hash and pruning whole heights while more than the maximum are counted.\<close>

definition entries_at :: "u64 \<Rightarrow> (u64 \<times> h256) list \<Rightarrow> nat" where
  "entries_at h m = length (filter (\<lambda>e. fst e = h) m)"

function prune_proofs ::
  "(nat \<Rightarrow> u32) \<Rightarrow> u32 \<Rightarrow> u64 \<Rightarrow> (u64 \<times> h256) list \<Rightarrow> u32 \<times> u64 \<times> (u64 \<times> h256) list" where
  "prune_proofs removed_of count oldest m =
     (if MAX_RECENT_PROOF_HASHES < count
      then
        (let removed = removed_of (entries_at oldest m);
             m' = filter (\<lambda>e. fst e \<noteq> oldest) m;
             count' = (if 0 < removed then saturating_sub count removed else count);
             oldest' = saturating_add oldest 1
         in if removed = 0 then (count', oldest', m')
            else prune_proofs removed_of count' oldest' m')
      else (count, oldest, m))"
  by auto
termination
  by (relation "measure (\<lambda>(_, count, _). unat count)")
    (auto simp: rust_arith word_less_nat_alt qbc_consts unat_gt_0 intro!: diff_less)

declare prune_proofs.simps [simp del]

definition record_proof_hash :: "mining_env \<Rightarrow> u64 \<Rightarrow> h256 \<Rightarrow> consensus_state \<Rightarrow> consensus_state" where
  "record_proof_hash env block_height proof_hash s =
     (let m = List.insert (block_height, proof_hash) (recent_proof_hashes s);
          (count, oldest, m') = prune_proofs (removed_count env)
            (saturating_add (recent_proof_hash_count s) 1) (proof_hash_oldest_block s) m
      in s\<lparr>recent_proof_hashes := m', recent_proof_hash_count := count, proof_hash_oldest_block := oldest\<rparr>)"

definition store_solution :: "u64 \<Rightarrow> vqe_proof \<Rightarrow> consensus_state \<Rightarrow> consensus_state" where
  "store_solution block_height proof s =
     (let m = (susy_solutions s)(block_height \<mapsto> proof)
      in s\<lparr>susy_solutions :=
             (if SUSY_RETENTION_WINDOW < block_height
              then m(saturating_sub block_height SUSY_RETENTION_WINDOW := None) else m)\<rparr>)"

definition energy_threshold :: "difficulty \<Rightarrow> i128" where
  "energy_threshold difficulty = ucast difficulty * 1000000"

text \<open>The writes of an accepted proof, in the order of the handler.\<close>

definition accept_proof ::
  "mining_env \<Rightarrow> vqe_proof \<Rightarrow> address \<Rightarrow> u64 \<Rightarrow> h256 \<Rightarrow> i128 \<Rightarrow> chain_state \<Rightarrow> chain_state"
where
  "accept_proof env proof miner_address block_height proof_hash computed_energy c =
     (let u0 = ch_utxo c; e0 = ch_econ c; k0 = ch_cons c;
          difficulty = current_difficulty k0;
          new_theta = signed_rem (network_theta k0 + THETA_ADVANCE_PER_BLOCK) TWO_PI_SCALED;
          alpha_scaled = geometric_weight_scaled env (vqe_params proof);
          new_alpha = signed_div (network_alpha k0 * 9 + alpha_scaled) 10;
          k1 = k0\<lparr>network_theta := new_theta, network_alpha := new_alpha\<rparr>;
          sephirot = active_sephirot env new_theta;
          reward = calculate_reward block_height e0;
          (_, e1) = on_block_authored block_height e0;
          (miner_fee_share, u1) = finalize_fees_with_burn u0;
          total_reward = saturating_add reward miner_fee_share;
          u2 = create_coinbase (coinbase_txid env block_height) miner_address total_reward block_height u1;
          u3 = set_block_height block_height u2;
          k2 = adjust_difficulty (chain_now env) block_height k1;
          k3 = store_solution block_height (proof\<lparr>vqe_energy := computed_energy\<rparr>) k2;
          k4 = record_proof_hash env block_height proof_hash k3;
          k5 = k4\<lparr>last_miner_block := (last_miner_block k4)(miner_address := block_height),
                  last_miner := Some miner_address,
                  blocks_mined := saturating_add (blocks_mined k4) 1,
                  cons_events := cons_events k4 @
                    [BlockMined block_height miner_address computed_energy difficulty total_reward,
                     SusySolutionStored block_height computed_energy (n_qubits proof),
                     PhaseAdvanced block_height new_theta new_alpha sephirot]\<rparr>
      in \<lparr>ch_utxo = u3, ch_econ = e1, ch_cons = k5\<rparr>)"

definition submit_mining_proof ::
  "mining_env \<Rightarrow> origin \<Rightarrow> vqe_proof \<Rightarrow> h256 \<Rightarrow> u8 list \<Rightarrow> chain_state
    \<Rightarrow> consensus_error dispatch_error + chain_state"
where
  "submit_mining_proof env orig proof miner_public_key miner_signature c =
     (case ensure_none orig of
        Inl e \<Rightarrow> Inl e
      | Inr _ \<Rightarrow>
          if \<not> ed25519_verify env miner_signature (mining_proof_signing_message proof) miner_public_key
          then Inl (Module InvalidMinerSignature)
          else
            (let k = ch_cons c;
                 miner_address = pubkey_to_address env miner_public_key;
                 block_height = current_height (ch_utxo c) + 1;
                 difficulty = current_difficulty k;
                 expected_seed = derive_hamiltonian_seed env block_height;
                 proof_hash = compute_proof_hash env proof miner_address block_height;
                 difficulty_threshold = energy_threshold difficulty;
                 tolerance_scaled = ENERGY_VALIDATION_TOLERANCE * 1000000
             in if \<not> 0 < n_qubits proof then Inl (Module InvalidVqeParams)
                else if vqe_params proof = [] then Inl (Module InvalidVqeParams)
                else if hamiltonian_seed proof \<noteq> expected_seed then Inl (Module InvalidHamiltonianSeed)
                else if (block_height, proof_hash) \<in> set (recent_proof_hashes k)
                  then Inl (Module DuplicateProof)
                else if \<not> last_miner_block k miner_address < block_height
                  then Inl (Module MinerRateLimited)
                else if \<not> signed_less (vqe_energy proof) (signed_saturating_add difficulty_threshold tolerance_scaled)
                  then Inl (Module EnergyAboveDifficulty)
                else
                  (case compute_energy_versioned env expected_seed (vqe_params proof) (network_theta k) HAMILTONIAN_V2 of
                     None \<Rightarrow> Inl (Module InvalidVqeParams)
                   | Some computed_energy \<Rightarrow>
                       if \<not> signed_less computed_energy difficulty_threshold
                       then Inl (Module EnergyAboveDifficulty)
                       else Inr (accept_proof env proof miner_address block_height proof_hash computed_energy c))))"

section \<open>The transaction pool check\<close>

datatype consensus_call = SubmitMiningProof vqe_proof h256 "u8 list" | OtherCall

datatype tx_validity =
  InvalidCall | InvalidCustom u8 | InvalidBadProof | InvalidStale
| ValidTransaction u64 address \<comment> \<open>the tag it provides: the height and the miner\<close>

definition validate_unsigned :: "mining_env \<Rightarrow> consensus_call \<Rightarrow> chain_state \<Rightarrow> tx_validity" where
  "validate_unsigned env call c =
     (case call of
        OtherCall \<Rightarrow> InvalidCall
      | SubmitMiningProof proof miner_public_key miner_signature \<Rightarrow>
          if n_qubits proof = 0 \<or> vqe_params proof = [] then InvalidCustom 1
          else if \<not> ed25519_verify env miner_signature (mining_proof_signing_message proof) miner_public_key
            then InvalidBadProof
          else
            (let difficulty_threshold = energy_threshold (current_difficulty (ch_cons c));
                 pool_margin = 1000000000000
             in if \<not> signed_less (vqe_energy proof) (signed_saturating_add difficulty_threshold pool_margin)
                then InvalidCustom 2
                else
                  (let block_height = current_height (ch_utxo c) + 1;
                       miner_address = pubkey_to_address env miner_public_key
                   in if block_height \<le> last_miner_block (ch_cons c) miner_address then InvalidStale
                      else ValidTransaction block_height miner_address)))"

section \<open>The encodings are injective\<close>

lemma nibbles_eq:
  assumes "drop_bit 4 a = drop_bit 4 b" and "and a 0x0f = and b 0x0f"
  shows "a = (b :: u8)"
proof (rule bit_word_eqI)
  fix n assume "n < LENGTH(8)"
  have mask: "(0x0f :: u8) = mask 4" by (simp add: mask_eq_exp_minus_1)
  have "bit a n = bit b n" if "n < 4"
    using arg_cong [OF assms(2) [unfolded mask], where f = "\<lambda>w. bit w n"] that by (simp add: bit_simps)
  moreover have "bit a n = bit b n" if "\<not> n < 4"
    using arg_cong [OF assms(1), where f = "\<lambda>w. bit w (n - 4)"] that by (simp add: bit_simps)
  ultimately show "bit a n = bit b n" by blast
qed

lemma HEX_CHARS_distinct: "distinct HEX_CHARS" "length HEX_CHARS = 16"
  by (simp_all add: HEX_CHARS_def ascii_def)

lemma nibble_less: "unat (drop_bit 4 b :: u8) < 16" "unat (and b 0x0f :: u8) < 16"
proof -
  have "unat b < 256" using unsigned_less [of b, where 'a = nat] by simp
  then show "unat (drop_bit 4 b :: u8) < 16" by (simp add: drop_bit_eq_div unat_div)
  have "and b 0x0f \<le> 0x0f" by (rule word_and_le1)
  then show "unat (and b 0x0f :: u8) < 16" by (simp add: word_le_nat_alt)
qed

lemma inj_hex_byte: "inj hex_byte"
proof (rule injI)
  fix a b assume "hex_byte a = hex_byte b"
  then have nth: "HEX_CHARS ! unat (drop_bit 4 a) = HEX_CHARS ! unat (drop_bit 4 b)"
    "HEX_CHARS ! unat (and a 0x0f) = HEX_CHARS ! unat (and b 0x0f)"
    unfolding hex_byte_def by (metis list.inject)+
  note idx = nth_eq_iff_index_eq [OF HEX_CHARS_distinct(1), unfolded HEX_CHARS_distinct(2)]
  have hi: "unat (drop_bit 4 a) = unat (drop_bit 4 b)"
    by (rule iffD1 [OF idx [OF nibble_less(1) nibble_less(1)] nth(1)])
  have lo: "unat (and a 0x0f) = unat (and b 0x0f)"
    by (rule iffD1 [OF idx [OF nibble_less(2) nibble_less(2)] nth(2)])
  show "a = b" by (rule nibbles_eq) (simp_all only: word_unat_eq_iff hi lo)
qed

lemma length_hex_byte: "length (hex_byte b) = 2"
  by (simp add: hex_byte_def)

lemma length_bytes_to_hex: "length (bytes_to_hex bs) = 2 * length bs"
  by (simp add: bytes_to_hex_def length_concat_map [of hex_byte, OF length_hex_byte])

lemma bytes_to_hex_inject:
  "length bs = length cs \<Longrightarrow> bytes_to_hex bs = bytes_to_hex cs \<longleftrightarrow> bs = cs"
  using concat_map_same_length [OF length_hex_byte inj_hex_byte, of bs cs "[]" "[]"]
  by (simp add: bytes_to_hex_def)

text \<open>Reading the digits back.\<close>

fun digits_value :: "u8 list \<Rightarrow> nat" where
  "digits_value [] = 0"
| "digits_value (d # ds) = (unat d - 48) + 10 * digits_value ds"

lemma digits_value_decimal: "digits_value (decimal_digits n) = unat n"
proof (induction n rule: decimal_digits.induct)
  case (1 n)
  have d: "unat (ucast (n mod 10) :: u8) = unat n mod 10"
    by (simp add: unsigned_ucast_eq unat_mod take_bit_nat_eq_self)
  have "unat (48 + ucast (n mod 10) :: u8) = 48 + unat n mod 10"
    by (subst unat_add_lem [THEN iffD1]) (simp_all add: d)
  then show ?case
    using 1 by (subst decimal_digits.simps) (auto simp: unat_div word_gt_0)
qed

lemma digits_value_u64: "digits_value (rev (u64_to_decimal_bytes n)) = unat n"
  by (simp add: u64_to_decimal_bytes_def digits_value_decimal)

lemma u64_to_decimal_inject: "u64_to_decimal_bytes m = u64_to_decimal_bytes n \<longleftrightarrow> m = n"
  by (metis digits_value_u64 word_unat_eq_iff)

lemma seed_data_inject: "seed_data p h = seed_data p' h' \<longleftrightarrow> p = p' \<and> h = h'"
proof -
  have "length (bytes_to_hex (be_bytes p)) = length (bytes_to_hex (be_bytes p'))"
    by (simp add: length_bytes_to_hex)
  then show ?thesis
    by (simp add: seed_data_def bytes_to_hex_inject be_bytes_inject u64_to_decimal_inject)
qed

lemma coinbase_data_inject: "coinbase_data p h = coinbase_data p' h' \<longleftrightarrow> p = p' \<and> h = h'"
proof -
  have "length (45 # bytes_to_hex (be_bytes p)) = length (45 # bytes_to_hex (be_bytes p'))"
    by (simp add: length_bytes_to_hex)
  then show ?thesis
    by (auto simp: coinbase_data_def bytes_to_hex_inject be_bytes_inject u64_to_decimal_inject
        append_eq_append_conv simp del: length_Cons)
qed

text \<open>
  The encodings are unambiguous: the bytes hashed for a Hamiltonian seed, and those hashed
  for a coinbase identifier, determine the parent hash and the block height; so two blocks
  share a seed or a coinbase identifier only when SHA-256 collides.
\<close>

theorem seed_and_coinbase_data_injective:
  "(seed_data p h = seed_data p' h' \<longleftrightarrow> p = p' \<and> h = h') \<and>
   (coinbase_data p h = coinbase_data p' h' \<longleftrightarrow> p = p' \<and> h = h')"
  by (simp add: seed_data_inject coinbase_data_inject)

section \<open>Difficulty\<close>

lemma clamp_difficulty:
  "unat (adjusted_difficulty old r) =
    min (max ((unat old * min (max (if 100 < unat r \<and> 10000000 < unat old then 100 else unat r) 90) 110 div 100)
      mod 2 ^ 64) 500000) 1000000000"
proof -
  let ?c = "min (max (if 100 < unat r \<and> 10000000 < unat old then 100 else unat r) 90) 110"
  define c where "c = min (max (if 100 < r \<and> DIFFICULTY_MEANINGFUL_MAX < old then 100 else r)
    (ucast MIN_ADJUSTMENT_FACTOR)) (ucast MAX_ADJUSTMENT_FACTOR)"
  have c: "unat c = ?c"
    by (simp add: c_def unat_min unat_max qbc_consts word_less_nat_alt if_distrib [of unat] cong: if_cong)
  have up: "unat (ucast w :: u128) = unat w" for w :: u64
    using u64_less [of w] by (simp add: unsigned_ucast_eq take_bit_nat_eq_self)
  have "unat old * unat c < 2 ^ 128"
  proof -
    have "unat c \<le> 110" by (simp add: c)
    then have "unat old * unat c \<le> unat old * 110" by (rule mult_le_mono2)
    also have "\<dots> < 2 ^ 128" using u64_less [of old] by simp
    finally show ?thesis .
  qed
  then have "unat ((ucast old :: u128) * ucast c div 100) = unat old * unat c div 100"
    by (simp add: unat_div unat_mult_lem [THEN iffD1] up)
  then have "unat (ucast ((ucast old :: u128) * ucast c div 100) :: u64) = (unat old * ?c div 100) mod 2 ^ 64"
    by (simp add: unsigned_ucast_eq take_bit_eq_mod c)
  moreover have "adjusted_difficulty old r =
      min (max (ucast ((ucast old :: u128) * ucast c div 100)) DIFFICULTY_FLOOR) DIFFICULTY_CEILING"
    by (simp only: adjusted_difficulty_def Let_def c_def)
  moreover have "unat DIFFICULTY_FLOOR = 500000" "unat DIFFICULTY_CEILING = 1000000000"
    by (simp_all add: qbc_consts)
  ultimately show ?thesis by (simp only: unat_min unat_max)
qed

lemma push_timestamp_bounds:
  "length xs \<le> 145 \<Longrightarrow> length (push_timestamp ts xs) \<le> 145 \<and> last (push_timestamp ts xs) = ts"
  by (cases xs) (auto simp: push_timestamp_def try_push_def TIMESTAMP_BOUND_def DIFFICULTY_WINDOW_def Let_def)

text \<open>What the adjustment does to the difficulty.\<close>

lemma adjust_difficulty_cases:
  "current_difficulty (adjust_difficulty now h s) =
     (if is_reset_height h then INITIAL_DIFFICULTY else current_difficulty s) \<or>
   (\<not> is_reset_height h \<and> (\<exists>r. current_difficulty (adjust_difficulty now h s) =
     adjusted_difficulty (current_difficulty s) r))"
  by (auto simp: adjust_difficulty_def put_difficulty_def Let_def)

lemma adjust_difficulty_timestamps:
  "block_timestamps (adjust_difficulty now h s) = push_timestamp now (block_timestamps s)"
  by (auto simp: adjust_difficulty_def put_difficulty_def Let_def)

lemma adjust_difficulty_frame [simp]:
  "last_miner_block (adjust_difficulty now h s) = last_miner_block s"
  "network_theta (adjust_difficulty now h s) = network_theta s"
  "network_alpha (adjust_difficulty now h s) = network_alpha s"
  "susy_solutions (adjust_difficulty now h s) = susy_solutions s"
  "recent_proof_hashes (adjust_difficulty now h s) = recent_proof_hashes s"
  "recent_proof_hash_count (adjust_difficulty now h s) = recent_proof_hash_count s"
  "proof_hash_oldest_block (adjust_difficulty now h s) = proof_hash_oldest_block s"
  "blocks_mined (adjust_difficulty now h s) = blocks_mined s"
  by (auto simp: adjust_difficulty_def put_difficulty_def Let_def)

lemma clamp_difficulty_in_range:
  assumes "unat old \<le> 1000000000"
  shows "unat (adjusted_difficulty old r) =
    min (max (unat old * min (max (if 100 < unat r \<and> 10000000 < unat old then 100 else unat r) 90) 110 div 100)
      500000) 1000000000"
proof -
  let ?c = "min (max (if 100 < unat r \<and> 10000000 < unat old then 100 else unat r) 90) 110"
  have "unat old * ?c div 100 \<le> 1000000000 * 110 div 100"
    using assms by (intro div_le_mono mult_le_mono) auto
  then have "(unat old * ?c div 100) mod 2 ^ 64 = unat old * ?c div 100" by simp
  then show ?thesis by (simp only: clamp_difficulty)
qed

text \<open>
  One adjustment of a difficulty within the floor and the ceiling stays within them, moves
  it by at most ten percent (up to rounding down), does not lower it when blocks are slow and
  does not raise it when blocks are fast or when it already exceeds the meaningful maximum.
\<close>

theorem adjusted_difficulty_bounded:
  fixes old :: difficulty and r :: u64
  assumes "500000 \<le> old" and "old \<le> 1000000000"
  defines "new \<equiv> adjusted_difficulty old r"
  shows "500000 \<le> new \<and> new \<le> 1000000000 \<and>
    90 * unat old \<le> 100 * unat new + 99 \<and> 100 * unat new \<le> 110 * unat old \<and>
    (r < 100 \<or> old \<le> new) \<and> (100 < r \<or> new \<le> old) \<and> (old \<le> 10000000 \<or> new \<le> old)"
proof -
  let ?c = "min (max (if 100 < unat r \<and> 10000000 < unat old then 100 else unat r) 90) (110 :: nat)"
  let ?x = "unat old * ?c div 100"
  have old: "500000 \<le> unat old" "unat old \<le> 1000000000"
    using assms(1,2) by (simp_all add: word_le_nat_alt)
  have n: "unat new = min (max ?x 500000) 1000000000"
    unfolding new_def by (rule clamp_difficulty_in_range [OF old(2)])
  have c: "90 \<le> ?c" "?c \<le> 110" by auto
  have x: "90 * unat old \<le> 100 * ?x + 99" "100 * ?x \<le> 110 * unat old"
  proof -
    have "unat old * 90 \<le> unat old * ?c" using c(1) by (rule mult_le_mono2)
    moreover have "unat old * ?c \<le> unat old * 110" using c(2) by (rule mult_le_mono2)
    ultimately show "90 * unat old \<le> 100 * ?x + 99" "100 * ?x \<le> 110 * unat old" by linarith+
  qed
  have up: "unat old \<le> ?x" if "100 \<le> ?c"
  proof -
    have "unat old * 100 \<le> unat old * ?c" using that by (rule mult_le_mono2)
    then show ?thesis by linarith
  qed
  have down: "?x \<le> unat old" if "?c \<le> 100"
  proof -
    have "unat old * ?c \<le> unat old * 100" using that by (rule mult_le_mono2)
    then show ?thesis by linarith
  qed
  have bounds: "500000 \<le> unat new" "unat new \<le> 1000000000" "90 * unat old \<le> 100 * unat new + 99"
    "100 * unat new \<le> 110 * unat old" using x old unfolding n by linarith+
  have slow: "unat old \<le> unat new" if "100 \<le> unat r"
  proof -
    have "100 \<le> ?c" using that by simp
    from up [OF this] show ?thesis using old unfolding n by linarith
  qed
  have fast: "unat new \<le> unat old" if "unat r \<le> 100 \<or> 10000000 < unat old"
  proof -
    have "?c \<le> 100" using that by auto
    from down [OF this] show ?thesis using old unfolding n by linarith
  qed
  show ?thesis using bounds slow fast by (simp add: word_le_nat_alt word_less_nat_alt) linarith
qed

theorem adjusted_difficulty_bounded_witness:
  "adjusted_difficulty 1000000 50 \<le> 1000000 \<and> 500000 \<le> adjusted_difficulty 1000000 50"
  using adjusted_difficulty_bounded [of 1000000 50] by simp

definition difficulty_inv :: "consensus_state \<Rightarrow> bool" where
  "difficulty_inv s \<longleftrightarrow> 500000 \<le> current_difficulty s \<and> current_difficulty s \<le> 1000000000 \<and>
     length (block_timestamps s) \<le> 145"

lemma adjust_difficulty_inv:
  assumes "difficulty_inv s"
  shows "difficulty_inv (adjust_difficulty now h s)" "last (block_timestamps (adjust_difficulty now h s)) = now"
proof -
  have cap: "500000 \<le> adjusted_difficulty old r" "adjusted_difficulty old r \<le> 1000000000" for old r
  proof -
    obtain x where "unat (adjusted_difficulty old r) = min (max x 500000) 1000000000"
      using clamp_difficulty by blast
    then show "500000 \<le> adjusted_difficulty old r" "adjusted_difficulty old r \<le> 1000000000"
      by (simp_all add: word_le_nat_alt)
  qed
  have "500000 \<le> current_difficulty (adjust_difficulty now h s) \<and>
      current_difficulty (adjust_difficulty now h s) \<le> 1000000000"
    using adjust_difficulty_cases [of now h s] assms cap
    by (auto simp: difficulty_inv_def INITIAL_DIFFICULTY_def split: if_splits)
  then show "difficulty_inv (adjust_difficulty now h s)" "last (block_timestamps (adjust_difficulty now h s)) = now"
    using assms push_timestamp_bounds [of "block_timestamps s" now]
    by (auto simp: difficulty_inv_def adjust_difficulty_timestamps)
qed

text \<open>
  The range of the difficulty: from a difficulty within the floor and the
  ceiling, the call that adjusts it ends within them at every height, reset heights included,
  and the window holds at most 145 timestamps, the last of which is the block's.
\<close>

theorem adjust_difficulty_keeps_range:
  fixes now h :: u64 and s :: consensus_state
  assumes "500000 \<le> current_difficulty s" and "current_difficulty s \<le> 1000000000"
    and "length (block_timestamps s) \<le> 145"
  defines "t \<equiv> adjust_difficulty now h s"
  shows "500000 \<le> current_difficulty t \<and> current_difficulty t \<le> 1000000000 \<and>
    length (block_timestamps t) \<le> 145 \<and> last (block_timestamps t) = now"
  using adjust_difficulty_inv [of s now h] assms by (simp add: difficulty_inv_def)

theorem adjust_difficulty_keeps_range_witness:
  "current_difficulty (adjust_difficulty 3300 7 (consensus_genesis 1000000)) \<le> 1000000000"
  using adjust_difficulty_keeps_range [of "consensus_genesis 1000000" 3300 7]
  by (simp add: consensus_genesis_def)

section \<open>The pace of the blocks\<close>












section \<open>What the mining call accepts\<close>

lemma submit_mining_proof_InrD:
  assumes "submit_mining_proof env orig proof pk sg c = Inr c'"
  defines "h \<equiv> current_height (ch_utxo c) + 1" and "miner \<equiv> pubkey_to_address env pk"
  obtains e where "orig = NoneOrigin"
    and "ed25519_verify env sg (mining_proof_signing_message proof) pk"
    and "n_qubits proof \<noteq> 0" and "vqe_params proof \<noteq> []"
    and "hamiltonian_seed proof = derive_hamiltonian_seed env h"
    and "(h, compute_proof_hash env proof miner h) \<notin> set (recent_proof_hashes (ch_cons c))"
    and "last_miner_block (ch_cons c) miner < h"
    and "signed_less (vqe_energy proof)
      (signed_saturating_add (energy_threshold (current_difficulty (ch_cons c))) (ENERGY_VALIDATION_TOLERANCE * 1000000))"
    and "compute_energy_versioned env (derive_hamiltonian_seed env h) (vqe_params proof)
      (network_theta (ch_cons c)) HAMILTONIAN_V2 = Some e"
    and "signed_less e (energy_threshold (current_difficulty (ch_cons c)))"
    and "c' = accept_proof env proof miner h (compute_proof_hash env proof miner h) e c"
  using assms
  by (auto simp: submit_mining_proof_def Let_def word_gt_0 split: sum.splits if_splits option.splits)

lemma mining_heights:
  assumes "submit_mining_proof env orig proof pk sg c = Inr c'"
  shows "current_height (ch_utxo c') = current_height (ch_utxo c) + 1"
    and "last_miner_block (ch_cons c') =
      (last_miner_block (ch_cons c))(pubkey_to_address env pk := current_height (ch_utxo c) + 1)"
  using assms
  by (auto elim!: submit_mining_proof_InrD simp: accept_proof_def Let_def record_proof_hash_def
      store_solution_def split: prod.splits)

text \<open>The parts of the state after an accepted proof, per pallet.\<close>

lemma accept_proof_value:
  assumes inv: "ledger_inv (ch_utxo c)" and cap: "emission_inv (ch_econ c)"
    and room: "circulating (ch_utxo c) + unat MAX_SUPPLY + 1 < 2 ^ 128"
    and fresh: "utxo_set (ch_utxo c) (coinbase_txid env h, 0) = None"
    and count: "utxo_entries (ch_utxo c) + 1 < 2 ^ 64"
    and def: "c' = accept_proof env proof miner h ph e c"
  shows "ledger_inv (ch_utxo c')" and "emission_inv (ch_econ c')"
    and "circulating (ch_utxo c') = circulating (ch_utxo c) + unat (calculate_reward h (ch_econ c))"
    and "unat (total_emitted (ch_econ c')) =
      unat (total_emitted (ch_econ c)) + unat (calculate_reward h (ch_econ c))"
proof -
  let ?u = "ch_utxo c" and ?r = "calculate_reward h (ch_econ c)"
  obtain share u1 where f: "finalize_fees_with_burn ?u = (share, u1)" by fastforce
  obtain r e1 where b: "on_block_authored h (ch_econ c) = (r, e1)" by fastforce
  let ?total = "saturating_add ?r share"
  have utxo: "ch_utxo c' = set_block_height h (create_coinbase (coinbase_txid env h) miner ?total h u1)"
    and econ: "ch_econ c' = e1"
    by (simp_all add: def accept_proof_def Let_def f b split: prod.splits)
  have fits: "unat (accumulated_fees ?u) + unat (total_fees_burned ?u) + 1 < 2 ^ 128"
    using room by (simp add: circulating_def)
  note F = finalize_fees_correct [OF fits f]
  have le: "unat ?r \<le> unat MAX_SUPPLY"
    using calculate_reward_le [of h "ch_econ c"] by linarith
  have total: "unat ?total = unat ?r + unat share"
    using le F(1) room by (intro unat_saturating_add_exact) (simp add: circulating_def)
  have same: "utxo_set u1 = utxo_set ?u" using F(4) by (simp add: same_ledger_def)
  have entries: "utxo_entries u1 = utxo_entries ?u" by (simp add: utxo_entries_def same)
  have u1: "ledger_inv u1" "ledger_value u1 = ledger_value ?u"
    using same_ledger_inv [OF F(4)] same_ledger_value [OF F(4)] inv by auto
  have value1: "ledger_value u1 + unat ?total < 2 ^ 128"
    using total le F(1) room u1(2) by (simp add: circulating_def)
  have fresh1: "utxo_set u1 (coinbase_txid env h, 0) = None" using fresh same by simp
  have count1: "utxo_entries u1 + 1 < 2 ^ 64" using count entries by simp
  note C = create_coinbase_ledger [OF u1(1) fresh1 value1 count1, of miner h]
  show "ledger_inv (ch_utxo c')" by (simp add: utxo C(1))
  have "(unat (accumulated_fees ?u) + 1) div 2 + unat (accumulated_fees ?u) div 2 = unat (accumulated_fees ?u)"
    by presburger
  then show "circulating (ch_utxo c') = circulating ?u + unat ?r"
    unfolding circulating_def utxo set_block_height_ledger create_coinbase_frame C(2)
    using F total u1(2) by simp
  note B = on_block_authored_correct [OF cap b]
  show "emission_inv (ch_econ c')" using B by (simp add: econ)
  show "unat (total_emitted (ch_econ c')) = unat (total_emitted (ch_econ c)) + unat ?r"
    using B by (simp add: econ)
qed

subsection \<open>A concrete block\<close>

definition example_env :: mining_env where
  "example_env = \<lparr>env_sha = (\<lambda>bs. of_nat (length bs)), ed25519_verify = (\<lambda>s m k. True), parent_hash = 1,
     chain_now = 3300, compute_energy_versioned = (\<lambda>s p t v. Some 5), geometric_weight_scaled = (\<lambda>p. 0),
     active_sephirot = (\<lambda>t. 0), removed_count = of_nat\<rparr>"

definition example_chain :: chain_state where
  "example_chain = \<lparr>ch_utxo = utxo_empty, ch_econ = economics_genesis 0, ch_cons = consensus_genesis 1000000\<rparr>"

definition example_proof :: vqe_proof where
  "example_proof = \<lparr>vqe_params = [1], vqe_energy = 5, hamiltonian_seed = derive_hamiltonian_seed example_env 1,
     n_qubits = 4\<rparr>"

lemma example_mining:
  "submit_mining_proof example_env NoneOrigin example_proof 7 [] example_chain =
    Inr (accept_proof example_env example_proof (pubkey_to_address example_env 7) 1
      (compute_proof_hash example_env example_proof (pubkey_to_address example_env 7) 1) 5 example_chain)"
proof -
  have "signed_less 5 (energy_threshold 1000000)"
    and "signed_less 5 (signed_saturating_add (energy_threshold 1000000) (ENERGY_VALIDATION_TOLERANCE * 1000000))"
    by (simp_all add: signed_less_def signed_saturating_add_def energy_threshold_def qbc_consts)
  then show ?thesis
    by (simp add: submit_mining_proof_def Let_def example_chain_def utxo_empty_def consensus_genesis_def
        example_env_def [THEN arg_cong [where f = ed25519_verify]]
        example_env_def [THEN arg_cong [where f = compute_energy_versioned]] example_proof_def)
qed

lemma example_chain_inv: "ledger_inv (ch_utxo example_chain)" "emission_inv (ch_econ example_chain)"
  "circulating (ch_utxo example_chain) = 0" "utxo_set (ch_utxo example_chain) = Map.empty"
  "utxo_entries (ch_utxo example_chain) = 0"
  using ledger_inv_empty
  by (simp_all add: example_chain_def circulating_def emission_inv_def economics_genesis_def)
    (simp_all add: utxo_empty_def)

subsection \<open>The properties\<close>

text \<open>
  C5. Mining creates exactly the scheduled money: an accepted proof keeps the ledger invariant
  and the emission cap, and the unspent outputs plus pending fees plus burned fees grow by
  exactly the amount by which the emitted total grows, which is the scheduled reward.
\<close>

theorem mining_mints_exactly_the_reward:
  assumes "submit_mining_proof env orig proof pk sg c = Inr c'"
    and "ledger_inv (ch_utxo c)" and "total_emitted (ch_econ c) \<le> MAX_SUPPLY"
    and "circulating (ch_utxo c) + unat MAX_SUPPLY + 1 < 2 ^ 128"
    and "utxo_set (ch_utxo c) (coinbase_txid env (current_height (ch_utxo c) + 1), 0) = None"
    and "utxo_entries (ch_utxo c) + 1 < 2 ^ 64"
  shows "ledger_inv (ch_utxo c') \<and> total_emitted (ch_econ c') \<le> MAX_SUPPLY \<and>
    circulating (ch_utxo c') + unat (total_emitted (ch_econ c)) =
      circulating (ch_utxo c) + unat (total_emitted (ch_econ c')) \<and>
    unat (total_emitted (ch_econ c')) = unat (total_emitted (ch_econ c)) +
      unat (calculate_reward (current_height (ch_utxo c) + 1) (ch_econ c))"
proof -
  from assms(1) obtain e where c': "c' = accept_proof env proof (pubkey_to_address env pk)
      (current_height (ch_utxo c) + 1)
      (compute_proof_hash env proof (pubkey_to_address env pk) (current_height (ch_utxo c) + 1)) e c"
    by (rule submit_mining_proof_InrD)
  have "emission_inv (ch_econ c)" using assms(3) by (simp add: emission_inv_def)
  note V = accept_proof_value [OF assms(2) this assms(4-6) c']
  show ?thesis using V by (simp add: emission_inv_def)
qed

theorem mining_mints_exactly_the_reward_witness:
  "\<exists>c'. submit_mining_proof example_env NoneOrigin example_proof 7 [] example_chain = Inr c' \<and>
    ledger_inv (ch_utxo c') \<and> total_emitted (ch_econ c') \<le> MAX_SUPPLY"
proof -
  have "total_emitted (ch_econ example_chain) \<le> MAX_SUPPLY"
    using example_chain_inv(2) by (simp add: emission_inv_def)
  with mining_mints_exactly_the_reward [OF example_mining example_chain_inv(1)] example_mining
  show ?thesis by (simp add: example_chain_inv qbc_consts)
qed

text \<open>
  A mining proof cannot be replayed: when the same proof is accepted twice, for different
  parent blocks or different heights, the two seed preimages are a collision of SHA-256.
\<close>

theorem mining_replay_is_a_collision:
  assumes "submit_mining_proof env orig proof pk sg c = Inr c'"
    and "submit_mining_proof env' orig' proof pk' sg' d = Inr d'"
    and "env_sha env' = env_sha env"
    and "parent_hash env \<noteq> parent_hash env' \<or> current_height (ch_utxo c) \<noteq> current_height (ch_utxo d)"
  shows "seed_data (parent_hash env) (current_height (ch_utxo c) + 1) \<noteq>
      seed_data (parent_hash env') (current_height (ch_utxo d) + 1) \<and>
    env_sha env (seed_data (parent_hash env) (current_height (ch_utxo c) + 1)) =
      env_sha env (seed_data (parent_hash env') (current_height (ch_utxo d) + 1))"
proof -
  from assms(1) have "hamiltonian_seed proof = derive_hamiltonian_seed env (current_height (ch_utxo c) + 1)"
    by (rule submit_mining_proof_InrD)
  moreover from assms(2)
  have "hamiltonian_seed proof = derive_hamiltonian_seed env' (current_height (ch_utxo d) + 1)"
    by (rule submit_mining_proof_InrD)
  ultimately show ?thesis
    using assms(3,4) by (auto simp: derive_hamiltonian_seed_def seed_data_inject)
qed

text \<open>The example environment hashes by length, so it does collide: heights 1 and 2 share a seed.\<close>

theorem mining_replay_is_a_collision_witness:
  "seed_data 1 1 \<noteq> seed_data 1 2 \<and> env_sha example_env (seed_data 1 1) = env_sha example_env (seed_data 1 2)"
proof -
  let ?d = "example_chain\<lparr>ch_utxo := set_block_height 1 utxo_empty\<rparr>"
  have "length (u64_to_decimal_bytes 2) = 1" "length (u64_to_decimal_bytes 1) = 1"
    by (simp_all add: u64_to_decimal_bytes_def decimal_digits.simps)
  then have seed: "derive_hamiltonian_seed example_env 2 = derive_hamiltonian_seed example_env 1"
    by (simp add: derive_hamiltonian_seed_def seed_data_def example_env_def)
  have less: "signed_less 5 (energy_threshold 1000000)"
    "signed_less 5 (signed_saturating_add (energy_threshold 1000000) (ENERGY_VALIDATION_TOLERANCE * 1000000))"
    by (simp_all add: signed_less_def signed_saturating_add_def energy_threshold_def qbc_consts)
  have "\<exists>d'. submit_mining_proof example_env NoneOrigin example_proof 7 [] ?d = Inr d'"
    using less seed
    by (simp add: submit_mining_proof_def Let_def example_chain_def consensus_genesis_def
        example_env_def [THEN arg_cong [where f = ed25519_verify]]
        example_env_def [THEN arg_cong [where f = compute_energy_versioned]] example_proof_def)
  then obtain d' where d': "submit_mining_proof example_env NoneOrigin example_proof 7 [] ?d = Inr d'" ..
  have "current_height (ch_utxo example_chain) = 0" by (simp add: example_chain_def utxo_empty_def)
  with mining_replay_is_a_collision [OF example_mining d' refl] show ?thesis
    by (simp add: example_env_def [THEN arg_cong [where f = parent_hash]])
qed

lemma signed_take_bit_nonneg: "0 \<le> k \<Longrightarrow> k < 2 ^ n \<Longrightarrow> signed_take_bit n k = (k :: int)"
  by (rule signed_take_bit_int_eq_self) (auto intro: order_trans [of _ 0])

lemma sint_energy_threshold: "sint (energy_threshold d) = uint d * 1000000"
proof -
  have d: "0 \<le> uint d" "uint d < 2 ^ 64" using unsigned_less [of d, where 'a = int] by simp_all
  have u: "uint (ucast d :: i128) = uint d"
    using d by (simp add: unsigned_ucast_eq take_bit_int_eq_self)
  have s: "sint (ucast d :: i128) = uint d"
    using d by (simp add: sint_uint u signed_take_bit_nonneg)
  show ?thesis
    using d by (simp add: energy_threshold_def sint_word_ariths s signed_take_bit_nonneg)
qed

lemma sint_signed_saturating_add:
  fixes a b :: i128
  assumes "- (2 ^ 127) \<le> sint a + sint b" and "sint a + sint b < 2 ^ 127"
  shows "sint (signed_saturating_add a b) = sint a + sint b"
  using assms by (simp add: signed_saturating_add_def min_def max_def signed_of_int signed_take_bit_int_eq_self)

lemma energy_margin:
  assumes "0 \<le> sint m" and "sint m < 2 ^ 100"
  shows "sint (signed_saturating_add (energy_threshold d) m) = uint d * 1000000 + sint m"
proof -
  have "0 \<le> uint d" "uint d < 2 ^ 64" using unsigned_less [of d, where 'a = int] by simp_all
  then have "0 \<le> sint (energy_threshold d) + sint m" using assms by (simp add: sint_energy_threshold)
  then have "- (2 ^ 127) \<le> sint (energy_threshold d) + sint m" by (rule order_trans [rotated]) simp
  moreover from \<open>uint d < 2 ^ 64\<close> assms have "sint (energy_threshold d) + sint m < 2 ^ 127"
    by (simp_all add: sint_energy_threshold)
  ultimately show ?thesis by (simp only: sint_signed_saturating_add) (simp only: sint_energy_threshold)
qed

text \<open>
  Whatever the call accepts, the transaction pool lets through: a proof that is accepted
  passes the pool check in the same state, tagged with its height and miner.
\<close>

theorem pool_admits_what_dispatch_accepts:
  assumes "submit_mining_proof env orig proof pk sg c = Inr c'"
  shows "validate_unsigned env (SubmitMiningProof proof pk sg) c =
    ValidTransaction (current_height (ch_utxo c) + 1) (pubkey_to_address env pk)"
proof -
  let ?d = "current_difficulty (ch_cons c)"
  from assms obtain e where
    *: "ed25519_verify env sg (mining_proof_signing_message proof) pk" "n_qubits proof \<noteq> 0" "vqe_params proof \<noteq> []"
      "last_miner_block (ch_cons c) (pubkey_to_address env pk) < current_height (ch_utxo c) + 1"
    and less: "signed_less (vqe_energy proof)
      (signed_saturating_add (energy_threshold ?d) (ENERGY_VALIDATION_TOLERANCE * 1000000))"
    by (rule submit_mining_proof_InrD)
  have "signed_less (vqe_energy proof) (signed_saturating_add (energy_threshold ?d) 1000000000000)"
    using less by (simp add: signed_less_def energy_margin ENERGY_VALIDATION_TOLERANCE_def)
  with * show ?thesis by (simp add: validate_unsigned_def Let_def)
qed

theorem pool_admits_what_dispatch_accepts_witness:
  "validate_unsigned example_env (SubmitMiningProof example_proof 7 []) example_chain =
    ValidTransaction 1 (pubkey_to_address example_env 7)"
  using pool_admits_what_dispatch_accepts [OF example_mining]
  by (simp add: example_chain_def utxo_empty_def)

definition rate_inv :: "chain_state \<Rightarrow> bool" where
  "rate_inv c \<longleftrightarrow> (\<forall>a. last_miner_block (ch_cons c) a \<le> current_height (ch_utxo c))"

text \<open>
  The rate limit never fires: when every miner's last height is at most the current one,
  which every accepted proof preserves, no mining call is rejected for rate limiting, because
  the height it is compared with is always the next one.
\<close>

theorem rate_limit_never_fires:
  assumes "rate_inv c" and "current_height (ch_utxo c) < - 1"
  shows "submit_mining_proof env orig proof pk sg c \<noteq> Inl (Module MinerRateLimited) \<and>
    (\<forall>c'. submit_mining_proof env orig proof pk sg c \<noteq> Inr c' \<or> rate_inv c')"
proof -
  let ?h = "current_height (ch_utxo c)"
  have "unat ?h + 1 < 2 ^ 64" using assms(2) by (simp add: word_less_nat_alt unat_max_word)
  then have "unat (?h + 1) = unat ?h + 1" by (subst unat_add_lem [THEN iffD1]) simp_all
  then have step: "?h < ?h + 1" by (simp add: word_less_nat_alt)
  then have below: "last_miner_block (ch_cons c) a < ?h + 1" for a
    using assms(1) by (auto simp: rate_inv_def intro: order.strict_trans1)
  have "rate_inv c'" if "submit_mining_proof env orig proof pk sg c = Inr c'" for c'
    using mining_heights [OF that] below by (auto simp: rate_inv_def less_imp_le)
  moreover have "submit_mining_proof env orig proof pk sg c \<noteq> Inl (Module MinerRateLimited)"
    using below by (cases orig) (simp_all add: submit_mining_proof_def Let_def split: option.splits)
  ultimately show ?thesis by blast
qed

theorem rate_limit_never_fires_witness:
  "submit_mining_proof example_env NoneOrigin example_proof 7 [] example_chain \<noteq> Inl (Module MinerRateLimited)"
  using rate_limit_never_fires [of example_chain]
  by (simp add: rate_inv_def example_chain_def consensus_genesis_def utxo_empty_def word_less_nat_alt unat_max_word)

section \<open>Phase, solutions and proof hashes\<close>

text \<open>
  The network phase stays a reduced angle: from a phase in \<open>[0, 2 pi)\<close> every accepted
  proof leads to one in that range, advanced by the fixed step.
\<close>

theorem phase_stays_reduced:
  assumes "submit_mining_proof env orig proof pk sg c = Inr c'"
    and "0 \<le> sint (network_theta (ch_cons c))" and "sint (network_theta (ch_cons c)) < 6283185307180"
  shows "sint (network_theta (ch_cons c')) =
      (sint (network_theta (ch_cons c)) + 23999632297) mod 6283185307180 \<and>
    0 \<le> sint (network_theta (ch_cons c')) \<and> sint (network_theta (ch_cons c')) < 6283185307180"
proof -
  let ?\<theta> = "network_theta (ch_cons c)"
  have "network_theta (ch_cons c') = signed_rem (?\<theta> + THETA_ADVANCE_PER_BLOCK) TWO_PI_SCALED"
    using assms(1)
    by (auto elim!: submit_mining_proof_InrD simp: accept_proof_def Let_def record_proof_hash_def
        store_solution_def split: prod.splits)
  moreover have "sint (?\<theta> + THETA_ADVANCE_PER_BLOCK) = sint ?\<theta> + 23999632297"
    using assms(2,3) by (simp add: sint_word_ariths qbc_consts signed_take_bit_nonneg)
  moreover have "sint TWO_PI_SCALED = 6283185307180" by (simp add: qbc_consts)
  moreover have "(sint ?\<theta> + 23999632297) smod 6283185307180 = (sint ?\<theta> + 23999632297) mod 6283185307180"
    using assms(2) by (simp add: signed_modulo_int_def)
  moreover have "0 \<le> (sint ?\<theta> + 23999632297) mod 6283185307180" "(sint ?\<theta> + 23999632297) mod 6283185307180 < 6283185307180"
    by simp_all
  ultimately show ?thesis
    by (simp add: signed_rem_def signed_of_int signed_take_bit_nonneg del: pos_mod_bound pos_mod_sign)
qed

theorem phase_stays_reduced_witness:
  "\<exists>c'. submit_mining_proof example_env NoneOrigin example_proof 7 [] example_chain = Inr c' \<and>
    sint (network_theta (ch_cons c')) = 23999632297"
  using phase_stays_reduced [OF example_mining] example_mining
  by (simp add: example_chain_def consensus_genesis_def)

lemma prune_proofs_stalls:
  assumes "entries_at oldest m = 0" and "removed_of 0 = 0"
  shows "prune_proofs removed_of count oldest m =
    (count, if MAX_RECENT_PROOF_HASHES < count then saturating_add oldest 1 else oldest, m)"
proof -
  have "filter (\<lambda>e. fst e \<noteq> oldest) m = m"
    using assms(1) by (auto simp: entries_at_def filter_empty_conv intro!: filter_True)
  then show ?thesis using assms by (subst prune_proofs.simps) (simp add: Let_def)
qed

lemma accept_proof_hashes:
  assumes "submit_mining_proof env orig proof pk sg c = Inr c'"
  defines "k \<equiv> ch_cons c" and "k' \<equiv> ch_cons c'" and "h \<equiv> current_height (ch_utxo c) + 1"
  shows "(recent_proof_hash_count k', proof_hash_oldest_block k', recent_proof_hashes k') =
    prune_proofs (removed_count env) (saturating_add (recent_proof_hash_count k) 1) (proof_hash_oldest_block k)
      ((h, compute_proof_hash env proof (pubkey_to_address env pk) h) # recent_proof_hashes k)"
  using assms
  by (auto elim!: submit_mining_proof_InrD simp: accept_proof_def Let_def record_proof_hash_def
      store_solution_def List.insert_def split: prod.splits)

text \<open>
  The bound of 1000 on recorded proof hashes is not kept: while the pruning pointer stands
  at a height without entries (it starts at zero, far below the first height of the chain), a
  further accepted proof adds its entry and removes none, whatever the count already is.
\<close>

theorem proof_hash_pruning_stalls:
  assumes "submit_mining_proof env orig proof pk sg c = Inr c'"
    and "entries_at (proof_hash_oldest_block (ch_cons c)) (recent_proof_hashes (ch_cons c)) = 0"
    and "proof_hash_oldest_block (ch_cons c) \<noteq> current_height (ch_utxo c) + 1"
    and "removed_count env 0 = 0" and "recent_proof_hash_count (ch_cons c) < - 1"
  shows "unat (recent_proof_hash_count (ch_cons c')) = unat (recent_proof_hash_count (ch_cons c)) + 1 \<and>
    length (recent_proof_hashes (ch_cons c')) = length (recent_proof_hashes (ch_cons c)) + 1"
proof -
  have "unat (recent_proof_hash_count (ch_cons c)) + 1 < 2 ^ 32"
    using assms(5) by (simp add: word_less_nat_alt unat_max_word)
  then have "unat (saturating_add (recent_proof_hash_count (ch_cons c)) 1) =
      unat (recent_proof_hash_count (ch_cons c)) + 1"
    by (simp add: unat_saturating_add_exact)
  moreover have "entries_at (proof_hash_oldest_block (ch_cons c))
      ((current_height (ch_utxo c) + 1, x) # recent_proof_hashes (ch_cons c)) = 0" for x
    using assms(2,3) by (simp add: entries_at_def)
  ultimately show ?thesis
    using accept_proof_hashes [OF assms(1)] prune_proofs_stalls [where removed_of = "removed_count env", OF _ assms(4)] by simp
qed

theorem proof_hash_pruning_stalls_witness:
  "\<exists>c c'. unat (recent_proof_hash_count (ch_cons c)) = 1000 \<and>
     submit_mining_proof example_env NoneOrigin example_proof 7 [] c = Inr c' \<and>
     unat (recent_proof_hash_count (ch_cons c')) = 1001"
proof -
  let ?c = "example_chain\<lparr>ch_cons := (consensus_genesis 1000000)\<lparr>recent_proof_hash_count := 1000\<rparr>\<rparr>"
  have less: "signed_less 5 (energy_threshold 1000000)"
    "signed_less 5 (signed_saturating_add (energy_threshold 1000000) (ENERGY_VALIDATION_TOLERANCE * 1000000))"
    by (simp_all add: signed_less_def signed_saturating_add_def energy_threshold_def qbc_consts)
  have "\<exists>c'. submit_mining_proof example_env NoneOrigin example_proof 7 [] ?c = Inr c'"
    using less
    by (simp add: submit_mining_proof_def Let_def example_chain_def consensus_genesis_def utxo_empty_def
        example_env_def [THEN arg_cong [where f = ed25519_verify]]
        example_env_def [THEN arg_cong [where f = compute_energy_versioned]] example_proof_def)
  then obtain c' where c': "submit_mining_proof example_env NoneOrigin example_proof 7 [] ?c = Inr c'" ..
  from proof_hash_pruning_stalls [OF c'] c' show ?thesis
    by (intro exI [of _ ?c] exI [of _ c'])
      (simp add: example_chain_def consensus_genesis_def utxo_empty_def entries_at_def
        word_less_nat_alt unat_max_word example_env_def [THEN arg_cong [where f = removed_count]])
qed

text \<open>The solutions are a retained history, and what an accepted proof leaves in it.\<close>

lemma susy_solutions_store:
  "susy_solutions (store_solution h v s) =
     (let m = (susy_solutions s)(h \<mapsto> v)
      in if SUSY_RETENTION_WINDOW < h then m(saturating_sub h SUSY_RETENTION_WINDOW := None) else m)"
  by (simp add: store_solution_def Let_def)

interpretation sr: retention SUSY_RETENTION_WINDOW susy_solutions store_solution
  by unfold_locales (simp_all add: qbc_consts susy_solutions_store)

lemma mining_solution:
  assumes "submit_mining_proof env orig proof pk sg c = Inr c'"
  defines "h \<equiv> current_height (ch_utxo c) + 1"
  shows "\<exists>e. signed_less e (energy_threshold (current_difficulty (ch_cons c))) \<and>
    compute_energy_versioned env (hamiltonian_seed proof) (vqe_params proof) (network_theta (ch_cons c)) HAMILTONIAN_V2 = Some e \<and>
    susy_solutions (ch_cons c') = susy_solutions (store_solution h (proof\<lparr>vqe_energy := e\<rparr>) (ch_cons c))"
  using assms
  by (auto elim!: submit_mining_proof_InrD simp: accept_proof_def Let_def record_proof_hash_def
      store_solution_def split: prod.splits)

text \<open>
  What is stored and paid is what the runtime computed: after an accepted proof the
  solution recorded at the new height carries the energy recomputed from its own parameters
  and seed, that energy is below the difficulty threshold, and the miner's coinbase stands in
  the ledger under the address derived from the public key that signed the proof.
\<close>

theorem mining_records_verified_work:
  assumes "submit_mining_proof env orig proof pk sg c = Inr c'"
  shows "\<exists>p u. susy_solutions (ch_cons c') (current_height (ch_utxo c) + 1) = Some p \<and>
    compute_energy_versioned env (hamiltonian_seed p) (vqe_params p) (network_theta (ch_cons c)) HAMILTONIAN_V2 =
      Some (vqe_energy p) \<and>
    signed_less (vqe_energy p) (energy_threshold (current_difficulty (ch_cons c))) \<and>
    ed25519_verify env sg (mining_proof_signing_message proof) pk \<and>
    utxo_set (ch_utxo c') (coinbase_txid env (current_height (ch_utxo c) + 1), 0) = Some u \<and>
    utxo_address u = pubkey_to_address env pk \<and> utxo_is_coinbase u \<and>
    calculate_reward (current_height (ch_utxo c) + 1) (ch_econ c) \<le> utxo_amount u"
proof -
  let ?h = "current_height (ch_utxo c) + 1"
  obtain e where e: "signed_less e (energy_threshold (current_difficulty (ch_cons c)))"
    "compute_energy_versioned env (hamiltonian_seed proof) (vqe_params proof) (network_theta (ch_cons c)) HAMILTONIAN_V2 = Some e"
    "susy_solutions (ch_cons c') = susy_solutions (store_solution ?h (proof\<lparr>vqe_energy := e\<rparr>) (ch_cons c))"
    using mining_solution [OF assms] by blast
  have stored: "susy_solutions (ch_cons c') ?h = Some (proof\<lparr>vqe_energy := e\<rparr>)"
    by (simp add: e(3) sr.recorded)
  have sig: "ed25519_verify env sg (mining_proof_signing_message proof) pk"
    using assms by (rule submit_mining_proof_InrD)
  have sat: "a \<le> saturating_add a b" for a b :: u128
    using unat_le_max [of a] by (simp add: word_le_nat_alt unat_saturating_add)
  have "\<exists>u. utxo_set (ch_utxo c') (coinbase_txid env ?h, 0) = Some u \<and>
    utxo_address u = pubkey_to_address env pk \<and> utxo_is_coinbase u \<and>
    calculate_reward ?h (ch_econ c) \<le> utxo_amount u"
    using assms sat
    by (auto elim!: submit_mining_proof_InrD simp: accept_proof_def Let_def create_coinbase_def insert_utxo_def
        split: prod.splits)
  with stored e sig show ?thesis by fastforce
qed

theorem mining_records_verified_work_witness:
  "\<exists>c' u. submit_mining_proof example_env NoneOrigin example_proof 7 [] example_chain = Inr c' \<and>
    utxo_set (ch_utxo c') (coinbase_txid example_env 1, 0) = Some u \<and>
    utxo_address u = pubkey_to_address example_env 7"
  using mining_records_verified_work [OF example_mining] example_mining
  by (auto simp: example_chain_def utxo_empty_def)

text \<open>Runs of accepted proofs.\<close>

inductive mining_run :: "nat \<Rightarrow> chain_state \<Rightarrow> chain_state \<Rightarrow> bool" where
  no_proofs: "mining_run 0 c c"
| next_proof: "mining_run n c c' \<Longrightarrow> submit_mining_proof env orig proof pk sg c' = Inr c'' \<Longrightarrow> mining_run (Suc n) c c''"

lemma mining_run_solutions:
  assumes "mining_run n c c'" and "susy_solutions (ch_cons c) = Map.empty"
    and "unat (current_height (ch_utxo c)) + n < 2 ^ 64"
  shows "unat (current_height (ch_utxo c')) = unat (current_height (ch_utxo c)) + n \<and>
    sr.within (current_height (ch_utxo c')) (ch_cons c')"
  using assms
proof (induction rule: mining_run.induct)
  case (no_proofs c)
  then show ?case by (simp add: sr.within_def)
next
  case (next_proof n c c' env orig vqe pk sg c'')
  have IH: "unat (current_height (ch_utxo c')) = unat (current_height (ch_utxo c)) + n"
    "sr.within (current_height (ch_utxo c')) (ch_cons c')"
    using next_proof by simp_all
  let ?h = "current_height (ch_utxo c') + 1"
  have "unat (current_height (ch_utxo c')) + 1 < 2 ^ 64" using IH(1) next_proof.prems(2) by simp
  then have h: "unat ?h = unat (current_height (ch_utxo c')) + 1"
    by (subst unat_add_lem [THEN iffD1]) simp_all
  obtain e where "susy_solutions (ch_cons c'') = susy_solutions (store_solution ?h (vqe\<lparr>vqe_energy := e\<rparr>) (ch_cons c'))"
    using mining_solution [OF next_proof.hyps(2)] by blast
  moreover have "current_height (ch_utxo c'') = ?h" by (rule mining_heights(1) [OF next_proof.hyps(2)])
  ultimately show ?case
    using sr.within_next [OF IH(2) h, of "vqe\<lparr>vqe_energy := e\<rparr>"] h IH(1) by (simp add: sr.within_def)
qed

text \<open>
  The store of solutions stays within its retention window: after any run of accepted
  proofs from a chain that stores none, the height has grown by one per proof, every stored
  solution belongs to one of the last hundred thousand heights, and there are at most as many.
\<close>

theorem solutions_within_window:
  assumes "mining_run n c c'" and "susy_solutions (ch_cons c) = Map.empty"
    and "unat (current_height (ch_utxo c)) + n < 2 ^ 64"
  shows "unat (current_height (ch_utxo c')) = unat (current_height (ch_utxo c)) + n \<and>
    (\<forall>k \<in> dom (susy_solutions (ch_cons c')).
       k = 0 \<or> (k \<le> current_height (ch_utxo c') \<and> unat (current_height (ch_utxo c')) < unat k + 100000)) \<and>
    card (dom (susy_solutions (ch_cons c'))) \<le> 100001"
proof -
  note R = mining_run_solutions [OF assms]
  have w: "unat SUSY_RETENTION_WINDOW = 100000" by (simp add: qbc_consts)
  show ?thesis
    using R sr.within_card [OF conjunct2 [OF R]] unfolding sr.within_def word_le_nat_alt w by auto
qed

theorem solutions_within_window_witness:
  "\<exists>c'. submit_mining_proof example_env NoneOrigin example_proof 7 [] example_chain = Inr c' \<and>
     current_height (ch_utxo c') = 1 \<and> card (dom (susy_solutions (ch_cons c'))) \<le> 100001"
proof -
  obtain c' where c': "submit_mining_proof example_env NoneOrigin example_proof 7 [] example_chain = Inr c'"
    using example_mining by blast
  have e: "susy_solutions (ch_cons example_chain) = Map.empty" "current_height (ch_utxo example_chain) = 0"
    by (simp_all add: example_chain_def consensus_genesis_def utxo_empty_def)
  from solutions_within_window [OF next_proof [OF no_proofs c'] e(1)] c' e(2) show ?thesis
    by (auto simp: word_unat_eq_iff)
qed

end
