(* ===== verification/Reversibility.thy ===== *)
theory Reversibility
  imports Utxo
begin

text \<open>
  Governed reversals, \<open>substrate-node/pallets/qbc-reversibility/src/lib.rs\<close>: requests, votes,
  execution, expiry, pruning and the governance calls, over the storage of this pallet and
  the ledger of the UTXO pallet it writes. The theory shows that an execution moves value and
  creates none, that it needs the threshold of distinct governors, and that it happens at
  most once per request.
\<close>

section \<open>Storage, events and errors\<close>

definition MAX_GOVERNORS :: nat where [qbc_consts]: "MAX_GOVERNORS = 10"
definition DEFAULT_REVERSAL_WINDOW :: u64 where [qbc_consts]: "DEFAULT_REVERSAL_WINDOW = 26182"
definition DEFAULT_APPROVAL_THRESHOLD :: u32 where [qbc_consts]: "DEFAULT_APPROVAL_THRESHOLD = 3"

datatype reversal_status = Pending | Approved | Executed | Expired | Rejected

record reversal_request =
  rq_request_id :: h256
  rq_target_txid :: tx_id
  rq_original_sender :: address
  rq_amount :: qbc_balance
  rq_target_block_height :: u64
  rq_request_block_height :: u64
  rq_expiry_block_height :: u64
  rq_approval_count :: u32
  rq_status :: reversal_status
  rq_reason :: "u8 list"
  rq_requester :: address

record reversal_execution =
  ex_request_id :: h256
  ex_reversal_txid :: tx_id
  ex_execution_block_height :: u64
  ex_amount :: qbc_balance
  ex_original_txid :: tx_id
  ex_recipient :: address

datatype reversal_event =
  ReversalRequested h256 tx_id qbc_balance address u64
| ReversalApproved h256 address u32 u32
| ReversalExecuted h256 tx_id tx_id qbc_balance address
| ReversalExpired h256 tx_id
| GovernorAdded address
| GovernorRemoved address
| ReversalWindowUpdated u64 u64
| ThresholdUpdated u32 u32
| UtxoFrozenEvent tx_id u32

datatype reversal_error =
  TransactionNotFound | CoinbaseNotReversible | RevUtxoAlreadySpent | ReversalWindowExpired
| NotGovernor | AlreadyVoted | RequestNotFound | RequestNotPending | AlreadyExecuted
| GovernorListFull | GovernorNotFound | ThresholdExceedsGovernors | ThresholdTooLow
| DuplicateRequest | UtxoAlreadyFrozen | RevAmountOverflow | ReasonTooLong | NoGovernors

record reversal_state =
  reversal_window :: u64
  approval_threshold :: u32
  governors :: "address list"
  reversal_requests :: "h256 \<rightharpoonup> reversal_request"
  reversal_votes :: "h256 \<Rightarrow> address list"
  executed_reversals :: "h256 \<rightharpoonup> reversal_execution"
  expired_reversals :: "h256 \<rightharpoonup> reversal_request"
  total_requests :: u64
  total_executed :: u64
  total_expired :: u64
  frozen_utxos :: "utxo_key \<rightharpoonup> bool"
  expiry_index :: "u64 \<Rightarrow> h256 list"
  rev_events :: "reversal_event list"

type_synonym rev_world = "reversal_state \<times> utxo_state"

text \<open>The getter of \<open>FrozenUtxos\<close>, and the freeze check this pallet gives to the ledger.\<close>

definition utxo_is_frozen :: "reversal_state \<Rightarrow> utxo_key \<Rightarrow> bool" where
  "utxo_is_frozen s k = (case frozen_utxos s k of None \<Rightarrow> False | Some b \<Rightarrow> b)"

definition governor_count :: "reversal_state \<Rightarrow> u32" where
  "governor_count s = of_nat (length (governors s))"

definition reversal_stats :: "reversal_state \<Rightarrow> u64 \<times> u64 \<times> u64" where
  "reversal_stats s = (total_requests s, total_executed s, total_expired s)"

text \<open>The genesis build panics (\<open>None\<close>) on a governor list over the bound.\<close>

definition reversal_genesis :: "address list \<Rightarrow> u64 \<Rightarrow> u32 \<Rightarrow> reversal_state option" where
  "reversal_genesis govs window threshold =
     (if govs \<noteq> [] \<and> MAX_GOVERNORS < length govs then None
      else Some \<lparr>reversal_window = (if 0 < window then window else DEFAULT_REVERSAL_WINDOW),
        approval_threshold = (if 0 < threshold then threshold else DEFAULT_APPROVAL_THRESHOLD),
        governors = govs, reversal_requests = Map.empty, reversal_votes = (\<lambda>_. []),
        executed_reversals = Map.empty, expired_reversals = Map.empty, total_requests = 0,
        total_executed = 0, total_expired = 0, frozen_utxos = Map.empty, expiry_index = (\<lambda>_. []),
        rev_events = []\<rparr>)"

section \<open>Identifiers\<close>

definition account_to_address :: "(u8 list \<Rightarrow> h256) \<Rightarrow> account_id \<Rightarrow> address" where
  "account_to_address sha account = sha (be_bytes account)"

definition compute_request_id :: "(u8 list \<Rightarrow> h256) \<Rightarrow> tx_id \<Rightarrow> u64 \<Rightarrow> h256" where
  "compute_request_id sha target_txid block_height =
     sha (ascii ''reversal-request-v1:'' @ be_bytes target_txid @ le_bytes block_height)"

definition compute_reversal_txid :: "(u8 list \<Rightarrow> h256) \<Rightarrow> h256 \<Rightarrow> u64 \<Rightarrow> tx_id" where
  "compute_reversal_txid sha request_id block_height =
     sha (ascii ''reversal-tx-v1:'' @ be_bytes request_id @ le_bytes block_height)"

section \<open>Submitting a request\<close>

text \<open>The scan over the possible output indices of the target transaction.\<close>

definition all_vouts :: "u32 list" where
  "all_vouts = map of_nat [0..<256]"

fun scan_target ::
  "reversal_state \<Rightarrow> utxo_state \<Rightarrow> tx_id \<Rightarrow> u32 list \<Rightarrow> qbc_balance \<Rightarrow> u64 \<Rightarrow> bool
    \<Rightarrow> reversal_error + qbc_balance \<times> u64 \<times> bool"
where
  "scan_target r u txid [] amount height found = Inr (amount, height, found)"
| "scan_target r u txid (vout # vouts) amount height found =
     (case utxo_set u (txid, vout) of
        None \<Rightarrow> scan_target r u txid vouts amount height found
      | Some x \<Rightarrow>
          if utxo_is_coinbase x then Inl CoinbaseNotReversible
          else if utxo_is_frozen r (txid, vout) then Inl UtxoAlreadyFrozen
          else (case checked_add amount (utxo_amount x) of
                  None \<Rightarrow> Inl RevAmountOverflow
                | Some amount' \<Rightarrow> scan_target r u txid vouts amount' (utxo_block_height x) True))"

definition push_expiry :: "u64 \<Rightarrow> h256 \<Rightarrow> (u64 \<Rightarrow> h256 list) \<Rightarrow> u64 \<Rightarrow> h256 list" where
  "push_expiry expiry request_id idx =
     idx(expiry := (case try_push MAX_GOVERNORS request_id (idx expiry) of
                      None \<Rightarrow> idx expiry | Some ids \<Rightarrow> ids))"

definition submit_reversal_request ::
  "(u8 list \<Rightarrow> h256) \<Rightarrow> origin \<Rightarrow> tx_id \<Rightarrow> address \<Rightarrow> u8 list \<Rightarrow> rev_world
    \<Rightarrow> reversal_error dispatch_error + rev_world"
where
  "submit_reversal_request sha orig target_txid original_sender reason = (\<lambda>(r, u).
     (case ensure_signed orig of
        Inl e \<Rightarrow> Inl e
      | Inr caller \<Rightarrow>
          if governors r = [] then Inl (Module NoGovernors)
          else
            (case scan_target r u target_txid all_vouts 0 0 False of
               Inl e \<Rightarrow> Inl (Module e)
             | Inr (amount, target_block_height, found_any) \<Rightarrow>
                 (let requester_address = account_to_address sha caller;
                      height = current_height u;
                      window = reversal_window r;
                      block_age = saturating_sub height target_block_height;
                      request_id = compute_request_id sha target_txid height;
                      expiry = saturating_add height window
                  in if \<not> found_any then Inl (Module TransactionNotFound)
                     else if \<not> block_age \<le> window then Inl (Module ReversalWindowExpired)
                     else if reversal_requests r request_id \<noteq> None then Inl (Module DuplicateRequest)
                     else
                       (let request = \<lparr>rq_request_id = request_id, rq_target_txid = target_txid,
                              rq_original_sender = original_sender, rq_amount = amount,
                              rq_target_block_height = target_block_height, rq_request_block_height = height,
                              rq_expiry_block_height = expiry, rq_approval_count = 0, rq_status = Pending,
                              rq_reason = reason, rq_requester = requester_address\<rparr>
                        in Inr (r\<lparr>reversal_requests := (reversal_requests r)(request_id \<mapsto> request),
                                  total_requests := saturating_add (total_requests r) 1,
                                  expiry_index := push_expiry expiry request_id (expiry_index r),
                                  rev_events := rev_events r @
                                    [ReversalRequested request_id target_txid amount requester_address expiry]\<rparr>, u))))))"

section \<open>Approval and execution\<close>

text \<open>The body of the freezing loop, with the running total.\<close>

definition freeze_utxo :: "utxo_key \<Rightarrow> utxo \<Rightarrow> rev_world \<Rightarrow> rev_world" where
  "freeze_utxo k x = (\<lambda>(r, u).
     (r\<lparr>frozen_utxos := (frozen_utxos r)(k \<mapsto> True),
        rev_events := rev_events r @ [UtxoFrozenEvent (fst k) (snd k)]\<rparr>,
      u\<lparr>utxo_set := (utxo_set u)(k := None),
        balances := (balances u)(utxo_address x := saturating_sub (balances u (utxo_address x)) (utxo_amount x)),
        utxo_count := saturating_sub (utxo_count u) 1\<rparr>))"

fun freeze_outputs :: "tx_id \<Rightarrow> u32 list \<Rightarrow> qbc_balance \<Rightarrow> rev_world \<Rightarrow> qbc_balance \<times> rev_world" where
  "freeze_outputs txid [] reversed w = (reversed, w)"
| "freeze_outputs txid (vout # vouts) reversed w =
     (case utxo_set (snd w) (txid, vout) of
        None \<Rightarrow> freeze_outputs txid vouts reversed w
      | Some x \<Rightarrow>
          if utxo_is_frozen (fst w) (txid, vout) then freeze_outputs txid vouts reversed w
          else if utxo_is_coinbase x then freeze_outputs txid vouts reversed w
          else freeze_outputs txid vouts (saturating_add reversed (utxo_amount x))
                 (freeze_utxo (txid, vout) x w))"

definition return_utxo :: "utxo_key \<Rightarrow> utxo \<Rightarrow> rev_world \<Rightarrow> rev_world" where
  "return_utxo k x = (\<lambda>(r, u).
     (r, u\<lparr>utxo_set := (utxo_set u)(k \<mapsto> x),
           balances := (balances u)(utxo_address x := saturating_add (balances u (utxo_address x)) (utxo_amount x)),
           utxo_count := saturating_add (utxo_count u) 1,
           tx_count := saturating_add (tx_count u) 1\<rparr>))"

definition set_executed :: "h256 \<Rightarrow> (h256 \<rightharpoonup> reversal_request) \<Rightarrow> h256 \<rightharpoonup> reversal_request" where
  "set_executed request_id m =
     (case m request_id of
        None \<Rightarrow> m
      | Some r \<Rightarrow> m(request_id \<mapsto> r\<lparr>rq_status := Executed\<rparr>))"

definition execute_reversal :: "(u8 list \<Rightarrow> h256) \<Rightarrow> h256 \<Rightarrow> reversal_request \<Rightarrow> rev_world \<Rightarrow> rev_world" where
  "execute_reversal sha request_id request w =
     (let height = current_height (snd w);
          (total_reversed, w1) = freeze_outputs (rq_target_txid request) all_vouts 0 w;
          reversal_txid = compute_reversal_txid sha request_id height;
          reversal_utxo = \<lparr>utxo_txid = reversal_txid, utxo_vout = 0, utxo_address = rq_original_sender request,
            utxo_amount = total_reversed, utxo_block_height = height, utxo_is_coinbase = False\<rparr>;
          (r2, u2) = (if 0 < total_reversed then return_utxo (reversal_txid, 0) reversal_utxo w1 else w1);
          execution = \<lparr>ex_request_id = request_id, ex_reversal_txid = reversal_txid,
            ex_execution_block_height = height, ex_amount = total_reversed,
            ex_original_txid = rq_target_txid request, ex_recipient = rq_original_sender request\<rparr>
      in (r2\<lparr>executed_reversals := (executed_reversals r2)(request_id \<mapsto> execution),
             reversal_requests := set_executed request_id (reversal_requests r2),
             reversal_votes := (reversal_votes r2)(request_id := []),
             total_executed := saturating_add (total_executed r2) 1,
             rev_events := rev_events r2 @
               [ReversalExecuted request_id (rq_target_txid request) reversal_txid total_reversed
                 (rq_original_sender request)]\<rparr>, u2))"

definition expire_state :: "h256 \<Rightarrow> reversal_request \<Rightarrow> reversal_state \<Rightarrow> reversal_state" where
  "expire_state request_id request r =
     r\<lparr>expired_reversals := (expired_reversals r)(request_id \<mapsto> request\<lparr>rq_status := Expired\<rparr>),
       reversal_requests := (reversal_requests r)(request_id := None),
       total_expired := saturating_add (total_expired r) 1,
       rev_events := rev_events r @ [ReversalExpired request_id (rq_target_txid request)]\<rparr>"

definition record_vote :: "h256 \<Rightarrow> address \<Rightarrow> address list \<Rightarrow> u32 \<Rightarrow> reversal_state \<Rightarrow> reversal_state" where
  "record_vote request_id governor votes count r =
     r\<lparr>reversal_votes := (reversal_votes r)(request_id := votes),
       rev_events := rev_events r @ [ReversalApproved request_id governor count (approval_threshold r)]\<rparr>"

definition approve_reversal ::
  "(u8 list \<Rightarrow> h256) \<Rightarrow> origin \<Rightarrow> h256 \<Rightarrow> rev_world \<Rightarrow> reversal_error dispatch_error + rev_world"
where
  "approve_reversal sha orig request_id = (\<lambda>(r, u).
     (case ensure_signed orig of
        Inl e \<Rightarrow> Inl e
      | Inr caller \<Rightarrow>
          (let governor_address = account_to_address sha caller in
           if \<not> list_ex (\<lambda>g. g = governor_address) (governors r) then Inl (Module NotGovernor)
           else
             (case reversal_requests r request_id of
                None \<Rightarrow> Inl (Module RequestNotFound)
              | Some request \<Rightarrow>
                  if rq_status request \<noteq> Pending then Inl (Module RequestNotPending)
                  else if rq_expiry_block_height request < current_height u
                    then Inr (expire_state request_id request r, u)
                  else if list_ex (\<lambda>v. v = governor_address) (reversal_votes r request_id)
                    then Inl (Module AlreadyVoted)
                  else
                    (case try_push MAX_GOVERNORS governor_address (reversal_votes r request_id) of
                       None \<Rightarrow> Inl (Module GovernorListFull)
                     | Some votes \<Rightarrow>
                         (let request1 = request\<lparr>rq_approval_count := rq_approval_count request + 1\<rparr>;
                              threshold = approval_threshold r;
                              r1 = record_vote request_id governor_address votes (rq_approval_count request1) r
                          in if threshold \<le> rq_approval_count request1
                             then
                               (let request2 = request1\<lparr>rq_status := Approved\<rparr>;
                                    r2 = r1\<lparr>reversal_requests := (reversal_requests r1)(request_id \<mapsto> request2)\<rparr>
                                in Inr (execute_reversal sha request_id request2 (r2, u)))
                             else
                               Inr (r1\<lparr>reversal_requests := (reversal_requests r1)(request_id \<mapsto> request1)\<rparr>, u)))))))"

section \<open>Governance, expiry and pruning\<close>

definition add_governor :: "origin \<Rightarrow> address \<Rightarrow> reversal_state \<Rightarrow> reversal_error dispatch_error + reversal_state" where
  "add_governor orig a r =
     (case ensure_root orig of
        Inl e \<Rightarrow> Inl e
      | Inr _ \<Rightarrow>
          if list_ex (\<lambda>g. g = a) (governors r) then Inl (Module GovernorListFull)
          else (case try_push MAX_GOVERNORS a (governors r) of
                  None \<Rightarrow> Inl (Module GovernorListFull)
                | Some gs \<Rightarrow> Inr (r\<lparr>governors := gs, rev_events := rev_events r @ [GovernorAdded a]\<rparr>)))"

definition remove_governor :: "origin \<Rightarrow> address \<Rightarrow> reversal_state \<Rightarrow> reversal_error dispatch_error + reversal_state" where
  "remove_governor orig a r =
     (case ensure_root orig of
        Inl e \<Rightarrow> Inl e
      | Inr _ \<Rightarrow>
          if \<not> list_ex (\<lambda>g. g = a) (governors r) then Inl (Module GovernorNotFound)
          else
            (let gs = remove1 a (governors r);
                 threshold = approval_threshold r;
                 threshold' = (if gs \<noteq> [] \<and> of_nat (length gs) < threshold then of_nat (length gs) else threshold)
             in Inr (r\<lparr>governors := gs, approval_threshold := threshold',
                       rev_events := rev_events r @ [GovernorRemoved a]\<rparr>)))"

definition set_reversal_window :: "origin \<Rightarrow> u64 \<Rightarrow> reversal_state \<Rightarrow> reversal_error dispatch_error + reversal_state" where
  "set_reversal_window orig new_window r =
     (case ensure_root orig of
        Inl e \<Rightarrow> Inl e
      | Inr _ \<Rightarrow> Inr (r\<lparr>reversal_window := new_window,
          rev_events := rev_events r @ [ReversalWindowUpdated (reversal_window r) new_window]\<rparr>))"

definition set_approval_threshold :: "origin \<Rightarrow> u32 \<Rightarrow> reversal_state \<Rightarrow> reversal_error dispatch_error + reversal_state" where
  "set_approval_threshold orig new_threshold r =
     (case ensure_root orig of
        Inl e \<Rightarrow> Inl e
      | Inr _ \<Rightarrow>
          if \<not> 1 \<le> new_threshold then Inl (Module ThresholdTooLow)
          else if \<not> unat new_threshold \<le> length (governors r) then Inl (Module ThresholdExceedsGovernors)
          else Inr (r\<lparr>approval_threshold := new_threshold,
                      rev_events := rev_events r @ [ThresholdUpdated (approval_threshold r) new_threshold]\<rparr>))"

definition expire_request :: "origin \<Rightarrow> h256 \<Rightarrow> rev_world \<Rightarrow> reversal_error dispatch_error + rev_world" where
  "expire_request orig request_id = (\<lambda>(r, u).
     (case ensure_signed orig of
        Inl e \<Rightarrow> Inl e
      | Inr _ \<Rightarrow>
          (case reversal_requests r request_id of
             None \<Rightarrow> Inl (Module RequestNotFound)
           | Some request \<Rightarrow>
               if rq_status request \<noteq> Pending then Inl (Module RequestNotPending)
               else if \<not> rq_expiry_block_height request < current_height u then Inl (Module RequestNotPending)
               else Inr ((expire_state request_id request r)
                      \<lparr>reversal_votes := (reversal_votes r)(request_id := [])\<rparr>, u))))"

text \<open>
  The inner loop removes expired records until \<open>max_entries\<close> are pruned; the outer loop walks
  the heights up to the cutoff. It runs on fuel and returns \<open>None\<close> when the fuel is spent.
\<close>

fun prune_ids :: "u32 \<Rightarrow> h256 list \<Rightarrow> u32 \<Rightarrow> (h256 \<rightharpoonup> reversal_request) \<Rightarrow> u32 \<times> (h256 \<rightharpoonup> reversal_request)" where
  "prune_ids max_entries [] pruned m = (pruned, m)"
| "prune_ids max_entries (i # ids) pruned m =
     (if max_entries \<le> pruned then (pruned, m)
      else prune_ids max_entries ids (pruned + 1) (m(i := None)))"

fun prune_scan ::
  "nat \<Rightarrow> (u64 \<Rightarrow> h256 list) \<Rightarrow> u64 \<Rightarrow> u32 \<Rightarrow> u64 \<Rightarrow> u32 \<Rightarrow> u64 list \<Rightarrow> (h256 \<rightharpoonup> reversal_request)
    \<Rightarrow> (u64 list \<times> (h256 \<rightharpoonup> reversal_request)) option"
where
  "prune_scan 0 idx cutoff max_entries height pruned cleaned m = None"
| "prune_scan (Suc fuel) idx cutoff max_entries height pruned cleaned m =
     (if height \<le> cutoff \<and> pruned < max_entries
      then
        (let request_ids = idx height;
             (pruned', m') = (if request_ids \<noteq> [] then prune_ids max_entries request_ids pruned m else (pruned, m));
             cleaned' = (if request_ids \<noteq> [] then cleaned @ [height] else cleaned)
         in prune_scan fuel idx cutoff max_entries (saturating_add height 1) pruned' cleaned' m')
      else Some (cleaned, m))"

definition prune_start :: "u64 \<Rightarrow> u64 \<Rightarrow> u32 \<Rightarrow> u64 \<times> u64" where
  "prune_start height max_age_blocks max_entries =
     (let cutoff = saturating_sub height max_age_blocks;
          scan_limit = max (saturating_mul (ucast max_entries) 4) 1000
      in (saturating_sub cutoff scan_limit, cutoff))"

definition prune_expired_reversals ::
  "nat \<Rightarrow> origin \<Rightarrow> u64 \<Rightarrow> u32 \<Rightarrow> rev_world \<Rightarrow> (reversal_error dispatch_error + rev_world) option"
where
  "prune_expired_reversals fuel orig max_age_blocks max_entries = (\<lambda>(r, u).
     (case ensure_root orig of
        Inl e \<Rightarrow> Some (Inl e)
      | Inr _ \<Rightarrow>
          (let (scan_start, cutoff) = prune_start (current_height u) max_age_blocks max_entries in
           case prune_scan fuel (expiry_index r) cutoff max_entries scan_start 0 [] (expired_reversals r) of
             None \<Rightarrow> None
           | Some (cleaned, m) \<Rightarrow>
               Some (Inr (r\<lparr>expired_reversals := m,
                            expiry_index := fold (\<lambda>h idx. idx(h := [])) cleaned (expiry_index r)\<rparr>, u)))))"

section \<open>Execution is a ledger transfer\<close>

lemma freeze_utxo_remove: "same_ledger (snd (freeze_utxo k x w)) (remove_utxo k x (snd w))"
  by (cases w) (simp add: freeze_utxo_def remove_utxo_def same_ledger_def)

lemma return_utxo_insert: "same_ledger (snd (return_utxo k x w)) (insert_utxo k x (snd w))"
  by (cases w) (simp add: return_utxo_def insert_utxo_def same_ledger_def)

interpretation rl: ledger "\<lambda>w. ledger_inv (snd w)" "\<lambda>w. utxo_set (snd w)" "\<lambda>w. ledger_value (snd w)"
    "\<lambda>w. utxo_entries (snd w)" amount_of "\<lambda>k u. utxo_key u = k" freeze_utxo return_utxo "2 ^ 128" "2 ^ 64"
proof unfold_locales
  fix w :: rev_world and k u assume s: "ledger_inv (snd w)" "utxo_set (snd w) k = Some u"
  note same = freeze_utxo_remove [of k u w]
  show "ledger_inv (snd (freeze_utxo k u w))"
    using remove_utxo_inv [OF s] by (simp add: same_ledger_inv [OF same])
  show "utxo_set (snd (freeze_utxo k u w)) = (utxo_set (snd w))(k := None)"
    using same by (simp add: same_ledger_def remove_utxo_def)
  show "ledger_value (snd (freeze_utxo k u w)) + amount_of u = ledger_value (snd w)"
    using remove_utxo_value [OF s] by (simp add: same_ledger_value [OF same])
  show "Suc (utxo_entries (snd (freeze_utxo k u w))) = utxo_entries (snd w)"
    using remove_utxo_entries [OF s] same by (simp add: utxo_entries_def same_ledger_def)
next
  fix w :: rev_world and k u assume s: "ledger_inv (snd w)" "utxo_set (snd w) k = None"
  note same = return_utxo_insert [of k u w]
  show "ledger_value (snd (return_utxo k u w)) = ledger_value (snd w) + amount_of u"
    using insert_utxo_value [OF s] by (simp add: same_ledger_value [OF same])
  show "utxo_set (snd (return_utxo k u w)) = (utxo_set (snd w))(k \<mapsto> u)"
    using same by (simp add: same_ledger_def insert_utxo_def)
  show "utxo_entries (snd (return_utxo k u w)) = Suc (utxo_entries (snd w))"
    using insert_utxo_entries [OF s] same by (simp add: utxo_entries_def same_ledger_def)
  assume "utxo_key u = k" "ledger_value (snd w) + amount_of u < 2 ^ 128" "utxo_entries (snd w) + 1 < 2 ^ 64"
  with insert_utxo_inv [OF s this(1)] show "ledger_inv (snd (return_utxo k u w))"
    by (simp add: same_ledger_inv [OF same])
qed

text \<open>The outputs an execution takes: present, not frozen yet and not coinbase.\<close>

fun reversible :: "tx_id \<Rightarrow> u32 list \<Rightarrow> rev_world \<Rightarrow> (utxo_key \<times> utxo) list" where
  "reversible txid [] w = []"
| "reversible txid (vout # vouts) w =
     (case utxo_set (snd w) (txid, vout) of
        None \<Rightarrow> reversible txid vouts w
      | Some x \<Rightarrow>
          if utxo_is_frozen (fst w) (txid, vout) \<or> utxo_is_coinbase x then reversible txid vouts w
          else ((txid, vout), x) # reversible txid vouts w)"

lemma reversible_freeze_other:
  "v \<notin> set vouts \<Longrightarrow> reversible txid vouts (freeze_utxo (txid, v) x w) = reversible txid vouts w"
  by (induction vouts) (auto simp: freeze_utxo_def utxo_is_frozen_def split: prod.splits option.splits)

lemma reversible_in:
  "((t, v), x) \<in> set (reversible txid vouts w) \<longleftrightarrow>
    t = txid \<and> v \<in> set vouts \<and> utxo_set (snd w) (txid, v) = Some x \<and>
    \<not> utxo_is_frozen (fst w) (txid, v) \<and> \<not> utxo_is_coinbase x"
  by (induction vouts) (auto split: option.splits)

lemma distinct_reversible: "distinct vouts \<Longrightarrow> distinct (map fst (reversible txid vouts w))"
proof (induction vouts)
  case (Cons v vouts)
  have "(txid, v) \<notin> fst ` set (reversible txid vouts w)"
  proof
    assume "(txid, v) \<in> fst ` set (reversible txid vouts w)"
    then obtain x where "((txid, v), x) \<in> set (reversible txid vouts w)" by auto
    then have "v \<in> set vouts" by (simp only: reversible_in)
    with Cons.prems show False by simp
  qed
  with Cons show ?case by (auto split: option.splits)
qed simp

lemma freeze_outputs_take_all:
  "distinct vouts \<Longrightarrow> snd (freeze_outputs txid vouts n w) = rl.take_all (reversible txid vouts w) w"
proof (induction vouts arbitrary: n w)
  case (Cons v vouts)
  then show ?case
    by (auto simp: reversible_freeze_other split: option.splits)
qed simp

lemma freeze_outputs_total:
  "distinct vouts \<Longrightarrow> unat n + rl.total_worth (reversible txid vouts w) < 2 ^ 128 \<Longrightarrow>
    unat (fst (freeze_outputs txid vouts n w)) = unat n + rl.total_worth (reversible txid vouts w)"
proof (induction vouts arbitrary: n w)
  case (Cons v vouts)
  note other = reversible_freeze_other [of v vouts txid]
  show ?case
  proof (cases "utxo_set (snd w) (txid, v)")
    case None
    then show ?thesis using Cons.IH [of n w] Cons.prems by simp
  next
    case (Some x)
    show ?thesis
    proof (cases "utxo_is_frozen (fst w) (txid, v) \<or> utxo_is_coinbase x")
      case True
      then show ?thesis using Some Cons.IH [of n w] Cons.prems by auto
    next
      case False
      have "unat n + amount_of x < 2 ^ 128" using Some False Cons.prems by simp
      then have "unat (saturating_add n (utxo_amount x)) = unat n + amount_of x"
        by (simp add: amount_of_def unat_saturating_add_exact)
      then show ?thesis
        using Some False other Cons.IH [of "saturating_add n (utxo_amount x)" "freeze_utxo (txid, v) x w"]
          Cons.prems by simp
    qed
  qed
qed simp

lemma distinct_all_vouts: "distinct all_vouts"
proof -
  have "inj_on (of_nat :: nat \<Rightarrow> u32) {0..<256}"
    by (rule inj_onI) (auto dest!: arg_cong [where f = unat] simp: unat_of_nat_less)
  then show ?thesis by (simp add: all_vouts_def distinct_map)
qed

text \<open>What an execution does to the ledger.\<close>

lemma execute_reversal_ledger:
  fixes rq :: reversal_request
  assumes inv: "ledger_inv (snd w)" and room: "ledger_value (snd w) < 2 ^ 128"
    and fresh: "utxo_set (snd w) (compute_reversal_txid sha rid (current_height (snd w)), 0) = None"
    and count: "utxo_entries (snd w) + 1 < 2 ^ 64"
  defines "w' \<equiv> execute_reversal sha rid rq w"
  defines "taken \<equiv> reversible (rq_target_txid rq) all_vouts w"
  shows "ledger_inv (snd w')" and "ledger_value (snd w') = ledger_value (snd w)"
    and "\<And>k. k \<in> fst ` set taken \<Longrightarrow> k \<noteq> (compute_reversal_txid sha rid (current_height (snd w)), 0) \<Longrightarrow>
      utxo_set (snd w') k = None"
    and "unat (ex_amount (the (executed_reversals (fst w') rid))) = rl.total_worth taken"
proof -
  let ?k = "(compute_reversal_txid sha rid (current_height (snd w)), 0 :: u32)"
  let ?frozen = "freeze_outputs (rq_target_txid rq) all_vouts 0 w"
  let ?w1 = "snd ?frozen" and ?n = "fst ?frozen"
  let ?u = "\<lparr>utxo_txid = fst ?k, utxo_vout = 0, utxo_address = rq_original_sender rq, utxo_amount = ?n,
      utxo_block_height = current_height (snd w), utxo_is_coinbase = False\<rparr>"
  have w1: "?w1 = rl.take_all taken w"
    unfolding taken_def by (rule freeze_outputs_take_all [OF distinct_all_vouts])
  have "ledger_inv (snd (rl.take_all taken w)) \<and>
    ledger_value (snd (rl.take_all taken w)) + rl.total_worth taken = ledger_value (snd w) \<and>
    utxo_entries (snd (rl.take_all taken w)) + length taken = utxo_entries (snd w) \<and>
    (\<forall>k. utxo_set (snd (rl.take_all taken w)) k = (if k \<in> fst ` set taken then None else utxo_set (snd w) k))"
    by (rule rl.take_all_correct [OF inv])
      (auto simp: taken_def distinct_reversible [OF distinct_all_vouts] reversible_in)
  note T = this [folded w1]
  have n: "unat ?n = rl.total_worth taken"
    using freeze_outputs_total [OF distinct_all_vouts, of 0 "rq_target_txid rq" w] T room
    by (simp add: taken_def)
  have amount: "amount_of ?u = rl.total_worth taken" by (simp add: amount_of_def n)
  have snd_w': "snd w' = snd (if 0 < ?n then return_utxo ?k ?u ?w1 else ?w1)"
    by (simp add: w'_def execute_reversal_def Let_def case_prod_unfold)
  have fresh1: "utxo_set (snd ?w1) ?k = None" using T fresh by simp
  have key: "utxo_key ?u = ?k" by (simp add: utxo_key_def)
  have P: "ledger_inv (snd (return_utxo ?k ?u ?w1))"
    using T room count amount by (intro rl.put_ok fresh1 key) auto
  have V: "ledger_value (snd (return_utxo ?k ?u ?w1)) = ledger_value (snd w)"
    using T amount rl.put_volume [OF _ fresh1, of ?u] by simp
  have E: "utxo_set (snd (return_utxo ?k ?u ?w1)) = (utxo_set (snd ?w1))(?k \<mapsto> ?u)"
    using T rl.put_entry_at [OF _ fresh1, of ?u] by simp
  have zero: "rl.total_worth taken = 0" if "\<not> 0 < ?n"
    using that n by (simp add: word_gt_0)
  show "ledger_inv (snd w')" "ledger_value (snd w') = ledger_value (snd w)"
    using P V T zero by (auto simp: snd_w')
  show "utxo_set (snd w') k = None" if "k \<in> fst ` set taken" "k \<noteq> ?k" for k
    using that T E by (cases k) (auto simp: snd_w')
  have "ex_amount (the (executed_reversals (fst w') rid)) = ?n"
    by (simp add: w'_def execute_reversal_def Let_def case_prod_unfold)
  then show "unat (ex_amount (the (executed_reversals (fst w') rid))) = rl.total_worth taken"
    by (simp add: n)
qed

lemma freeze_utxo_frozen: "utxo_is_frozen (fst w) k \<Longrightarrow> utxo_is_frozen (fst (freeze_utxo j x w)) k"
  by (cases w) (auto simp: freeze_utxo_def utxo_is_frozen_def)

lemma frozen_after_freeze_outputs:
  "utxo_is_frozen (fst w) k \<Longrightarrow> utxo_is_frozen (fst (snd (freeze_outputs txid vouts n w))) k"
proof (induction vouts arbitrary: n w)
  case (Cons v vouts)
  show ?case
    using Cons.IH [OF Cons.prems] Cons.IH [OF freeze_utxo_frozen [OF Cons.prems]]
    by (cases "utxo_set (snd w) (txid, v)") simp_all
qed simp

lemma freeze_outputs_freezes:
  "k \<in> fst ` set (reversible txid vouts w) \<Longrightarrow> distinct vouts \<Longrightarrow>
    utxo_is_frozen (fst (snd (freeze_outputs txid vouts n w))) k"
proof (induction vouts arbitrary: n w)
  case (Cons v vouts)
  have "utxo_is_frozen (fst (freeze_utxo (txid, v) x w)) (txid, v)" for x
    by (cases w) (simp add: freeze_utxo_def utxo_is_frozen_def)
  note here = this
  show ?case
  proof (cases "utxo_set (snd w) (txid, v)")
    case None
    then show ?thesis using Cons.IH [of w n] Cons.prems by simp
  next
    case (Some x)
    show ?thesis
    proof (cases "utxo_is_frozen (fst w) (txid, v) \<or> utxo_is_coinbase x")
      case True
      then show ?thesis using Some Cons.IH [of w n] Cons.prems by auto
    next
      case False
      note later = Cons.IH [of "freeze_utxo (txid, v) x w" "saturating_add n (utxo_amount x)"]
      have "k = (txid, v) \<or> k \<in> fst ` set (reversible txid vouts (freeze_utxo (txid, v) x w))"
        using Some False Cons.prems reversible_freeze_other [of v vouts txid x w] by auto
      moreover have "freeze_outputs txid (v # vouts) n w =
          freeze_outputs txid vouts (saturating_add n (utxo_amount x)) (freeze_utxo (txid, v) x w)"
        using Some False by simp
      ultimately show ?thesis
        using later Cons.prems(2) frozen_after_freeze_outputs [OF here] by auto
    qed
  qed
qed simp

lemma execute_reversal_frozen:
  "frozen_utxos (fst (execute_reversal sha rid rq w)) =
    frozen_utxos (fst (snd (freeze_outputs (rq_target_txid rq) all_vouts 0 w)))"
  by (cases "snd (freeze_outputs (rq_target_txid rq) all_vouts 0 w)")
    (auto simp: execute_reversal_def Let_def case_prod_unfold return_utxo_def)

lemma freeze_outputs_fees:
  "accumulated_fees (snd (snd (freeze_outputs txid vouts n w))) = accumulated_fees (snd w) \<and>
   total_fees_burned (snd (snd (freeze_outputs txid vouts n w))) = total_fees_burned (snd w)"
proof (induction vouts arbitrary: n w)
  case (Cons v vouts)
  have "accumulated_fees (snd (freeze_utxo k x w)) = accumulated_fees (snd w)"
    "total_fees_burned (snd (freeze_utxo k x w)) = total_fees_burned (snd w)" for k x
    by (cases w; simp add: freeze_utxo_def)+
  then show ?case
    using Cons.IH by (cases "utxo_set (snd w) (txid, v)") simp_all
qed simp

lemma execute_reversal_fees:
  "accumulated_fees (snd (execute_reversal sha rid rq w)) = accumulated_fees (snd w) \<and>
   total_fees_burned (snd (execute_reversal sha rid rq w)) = total_fees_burned (snd w)"
proof -
  obtain total r1 u1 where f: "freeze_outputs (rq_target_txid rq) all_vouts 0 w = (total, r1, u1)"
    by (metis prod_cases3)
  then show ?thesis
    using freeze_outputs_fees [of "rq_target_txid rq" all_vouts 0 w]
    by (simp add: execute_reversal_def Let_def return_utxo_def)
qed

section \<open>Runs of the pallet\<close>

text \<open>
  Any interleaving of successful calls, with arbitrary changes of the ledger by the other
  pallets in between.
\<close>

inductive rev_step :: "(u8 list \<Rightarrow> h256) \<Rightarrow> rev_world \<Rightarrow> rev_world \<Rightarrow> bool" for sha where
  rev_submit: "submit_reversal_request sha orig txid sender reason w = Inr w' \<Longrightarrow> rev_step sha w w'"
| rev_approve: "approve_reversal sha orig rid w = Inr w' \<Longrightarrow> rev_step sha w w'"
| rev_add: "add_governor orig a r = Inr r' \<Longrightarrow> rev_step sha (r, u) (r', u)"
| rev_remove: "remove_governor orig a r = Inr r' \<Longrightarrow> rev_step sha (r, u) (r', u)"
| rev_window: "set_reversal_window orig h r = Inr r' \<Longrightarrow> rev_step sha (r, u) (r', u)"
| rev_threshold: "set_approval_threshold orig n r = Inr r' \<Longrightarrow> rev_step sha (r, u) (r', u)"
| rev_expire: "expire_request orig rid w = Inr w' \<Longrightarrow> rev_step sha w w'"
| rev_prune: "prune_expired_reversals fuel orig age entries w = Some (Inr w') \<Longrightarrow> rev_step sha w w'"
| rev_ledger: "rev_step sha (r, u) (r, u')"

inductive rev_reachable :: "(u8 list \<Rightarrow> h256) \<Rightarrow> rev_world \<Rightarrow> bool" for sha where
  rev_start: "reversal_genesis govs window threshold = Some r \<Longrightarrow> rev_reachable sha (r, u)"
| rev_next: "rev_reachable sha w \<Longrightarrow> rev_step sha w w' \<Longrightarrow> rev_reachable sha w'"

text \<open>The governors whose approval of a request is on record.\<close>

definition approvers :: "h256 \<Rightarrow> reversal_event list \<Rightarrow> address set" where
  "approvers rid es = {v. \<exists>n th. ReversalApproved rid v n th \<in> set es}"

text \<open>A vote was cast that met the threshold in force, and it was counted correctly.\<close>

definition threshold_met :: "h256 \<Rightarrow> reversal_event list \<Rightarrow> bool" where
  "threshold_met rid es \<longleftrightarrow>
     (\<exists>v n th. ReversalApproved rid v n th \<in> set es \<and> th \<le> n \<and> unat n \<le> card (approvers rid es))"

definition rev_inv :: "reversal_state \<Rightarrow> bool" where
  "rev_inv r \<longleftrightarrow>
     (\<forall>i. distinct (reversal_votes r i) \<and> set (reversal_votes r i) \<subseteq> approvers i (rev_events r)) \<and>
     (\<forall>i q. reversal_requests r i = Some q \<longrightarrow>
        rq_request_id q = i \<and> rq_status q \<in> {Pending, Executed} \<and>
        (rq_status q = Pending \<longrightarrow> unat (rq_approval_count q) \<le> length (reversal_votes r i))) \<and>
     (\<forall>i x. executed_reversals r i = Some x \<longrightarrow>
        (\<exists>q. reversal_requests r i = Some q \<and> rq_status q = Executed) \<and> threshold_met i (rev_events r))"

lemma finite_approvers: "finite (approvers i es)"
proof -
  have "approvers i es \<subseteq> (\<lambda>e. case e of ReversalApproved _ v _ _ \<Rightarrow> v | _ \<Rightarrow> 0) ` set es"
    by (force simp: approvers_def image_iff)
  then show ?thesis using finite_surj by blast
qed

lemma approvers_append: "approvers i (es @ fs) = approvers i es \<union> approvers i fs"
  by (auto simp: approvers_def)

lemma approvers_Nil [simp]: "approvers i [] = {}"
  by (simp add: approvers_def)

lemma card_approvers_append: "card (approvers i es) \<le> card (approvers i (es @ fs))"
  by (rule card_mono [OF finite_approvers]) (simp add: approvers_append)

lemma threshold_met_append: "threshold_met i es \<Longrightarrow> threshold_met i (es @ fs)"
  using order_trans [OF _ card_approvers_append] by (fastforce simp: threshold_met_def)

text \<open>Steps that only append events of other kinds and leave requests, votes and records alone.\<close>

lemma rev_inv_same:
  assumes "rev_inv r" and "reversal_votes r' = reversal_votes r" and "reversal_requests r' = reversal_requests r"
    and "executed_reversals r' = executed_reversals r" and "rev_events r' = rev_events r @ es"
  shows "rev_inv r'"
  using assms threshold_met_append by (fastforce simp: rev_inv_def approvers_append)

lemma freeze_outputs_frame:
  defines "f \<equiv> \<lambda>w. fst w"
  shows "reversal_votes (f (snd (freeze_outputs txid vouts n w))) = reversal_votes (f w) \<and>
    reversal_requests (f (snd (freeze_outputs txid vouts n w))) = reversal_requests (f w) \<and>
    executed_reversals (f (snd (freeze_outputs txid vouts n w))) = executed_reversals (f w) \<and>
    (\<exists>es. rev_events (f (snd (freeze_outputs txid vouts n w))) = rev_events (f w) @ es \<and>
      (\<forall>i. approvers i es = {}))"
proof (induction vouts arbitrary: n w)
  case (Cons v vouts)
  have here: "reversal_votes (fst (freeze_utxo k x w)) = reversal_votes (fst w)"
    "reversal_requests (fst (freeze_utxo k x w)) = reversal_requests (fst w)"
    "executed_reversals (fst (freeze_utxo k x w)) = executed_reversals (fst w)"
    "rev_events (fst (freeze_utxo k x w)) = rev_events (fst w) @ [UtxoFrozenEvent (fst k) (snd k)]" for k x
    by (cases w; simp add: freeze_utxo_def)+
  show ?case
  proof (cases "utxo_set (snd w) (txid, v)")
    case None
    then show ?thesis using Cons.IH [of n w] by simp
  next
    case (Some x)
    then show ?thesis
      using Cons.IH [of n w] Cons.IH [of "saturating_add n (utxo_amount x)" "freeze_utxo (txid, v) x w"] here
      by (auto simp: f_def approvers_append approvers_def)
  qed
qed (simp add: f_def)

lemma execute_reversal_fst:
  "\<exists>x t n. ex_recipient x = rq_original_sender rq \<and> (\<forall>i. approvers i n = {}) \<and>
    fst (execute_reversal sha rid rq w) =
      (fst (snd (freeze_outputs (rq_target_txid rq) all_vouts 0 w)))
        \<lparr>executed_reversals := (executed_reversals (fst (snd (freeze_outputs (rq_target_txid rq) all_vouts 0 w))))(rid \<mapsto> x),
         reversal_requests := set_executed rid
           (reversal_requests (fst (snd (freeze_outputs (rq_target_txid rq) all_vouts 0 w)))),
         reversal_votes := (reversal_votes (fst (snd (freeze_outputs (rq_target_txid rq) all_vouts 0 w))))(rid := []),
         total_executed := t,
         rev_events := rev_events (fst (snd (freeze_outputs (rq_target_txid rq) all_vouts 0 w))) @ n\<rparr>"
proof -
  obtain total r1 u1 where f: "freeze_outputs (rq_target_txid rq) all_vouts 0 w = (total, r1, u1)"
    by (metis prod_cases3)
  show ?thesis
    unfolding execute_reversal_def Let_def f
    by (intro exI [of _ "\<lparr>ex_request_id = rid, ex_reversal_txid = compute_reversal_txid sha rid (current_height (snd w)),
        ex_execution_block_height = current_height (snd w), ex_amount = total,
        ex_original_txid = rq_target_txid rq, ex_recipient = rq_original_sender rq\<rparr>"]
        exI [of _ "saturating_add (total_executed r1) 1"]
        exI [of _ "[ReversalExecuted rid (rq_target_txid rq)
          (compute_reversal_txid sha rid (current_height (snd w))) total (rq_original_sender rq)]"])
      (simp add: return_utxo_def approvers_def)
qed

lemma execute_reversal_fields:
  shows "reversal_votes (fst (execute_reversal sha rid rq w)) = (reversal_votes (fst w))(rid := [])"
    and "reversal_requests (fst (execute_reversal sha rid rq w)) = set_executed rid (reversal_requests (fst w))"
    and "\<exists>x. executed_reversals (fst (execute_reversal sha rid rq w)) = (executed_reversals (fst w))(rid \<mapsto> x) \<and>
      ex_recipient x = rq_original_sender rq"
    and "\<exists>es. rev_events (fst (execute_reversal sha rid rq w)) = rev_events (fst w) @ es \<and>
      (\<forall>i. approvers i es = {})"
proof -
  obtain x t n where e: "ex_recipient x = rq_original_sender rq" "\<forall>i. approvers i n = {}"
    "fst (execute_reversal sha rid rq w) =
      (fst (snd (freeze_outputs (rq_target_txid rq) all_vouts 0 w)))
        \<lparr>executed_reversals := (executed_reversals (fst (snd (freeze_outputs (rq_target_txid rq) all_vouts 0 w))))(rid \<mapsto> x),
         reversal_requests := set_executed rid
           (reversal_requests (fst (snd (freeze_outputs (rq_target_txid rq) all_vouts 0 w)))),
         reversal_votes := (reversal_votes (fst (snd (freeze_outputs (rq_target_txid rq) all_vouts 0 w))))(rid := []),
         total_executed := t,
         rev_events := rev_events (fst (snd (freeze_outputs (rq_target_txid rq) all_vouts 0 w))) @ n\<rparr>"
    using execute_reversal_fst by blast
  note F = freeze_outputs_frame [of "rq_target_txid rq" all_vouts 0 w]
  show "reversal_votes (fst (execute_reversal sha rid rq w)) = (reversal_votes (fst w))(rid := [])"
    and "reversal_requests (fst (execute_reversal sha rid rq w)) = set_executed rid (reversal_requests (fst w))"
    and "\<exists>x. executed_reversals (fst (execute_reversal sha rid rq w)) = (executed_reversals (fst w))(rid \<mapsto> x) \<and>
      ex_recipient x = rq_original_sender rq"
    and "\<exists>es. rev_events (fst (execute_reversal sha rid rq w)) = rev_events (fst w) @ es \<and>
      (\<forall>i. approvers i es = {})"
    using F e(1,2) by (auto simp: e(3) approvers_append)
qed

text \<open>What each call does to requests, votes and records.\<close>

lemma submit_reversal_request_InrD:
  assumes "submit_reversal_request sha orig txid sender reason (r, u) = Inr w'"
  obtains q e rid where "reversal_requests r rid = None" "rq_request_id q = rid" "rq_status q = Pending"
    "rq_approval_count q = 0" "rq_original_sender q = sender" "rid = compute_request_id sha txid (current_height u)"
    "reversal_votes (fst w') = reversal_votes r" "reversal_requests (fst w') = (reversal_requests r)(rid \<mapsto> q)"
    "executed_reversals (fst w') = executed_reversals r" "snd w' = u"
    "rev_events (fst w') = rev_events r @ [ReversalRequested rid txid e (rq_requester q) (rq_expiry_block_height q)]"
proof -
  let ?rid = "compute_request_id sha txid (current_height u)"
  let ?expiry = "saturating_add (current_height u) (reversal_window r)"
  let ?q = "\<lambda>amount height who. \<lparr>rq_request_id = ?rid, rq_target_txid = txid,
    rq_original_sender = sender, rq_amount = amount, rq_target_block_height = height,
    rq_request_block_height = current_height u, rq_expiry_block_height = ?expiry, rq_approval_count = 0,
    rq_status = Pending, rq_reason = reason, rq_requester = account_to_address sha who\<rparr>"
  from assms obtain who amount height where none: "reversal_requests r ?rid = None"
    and w': "w' = (r\<lparr>reversal_requests := (reversal_requests r)(?rid \<mapsto> ?q amount height who),
      total_requests := saturating_add (total_requests r) 1,
      expiry_index := push_expiry ?expiry ?rid (expiry_index r),
      rev_events := rev_events r @ [ReversalRequested ?rid txid amount (account_to_address sha who) ?expiry]\<rparr>, u)"
    by (auto simp: submit_reversal_request_def Let_def split: sum.splits if_splits option.splits)
  show thesis
    by (rule that [of ?rid "?q amount height who" amount]) (simp_all add: none w')
qed

lemma approve_reversal_cases:
  assumes "approve_reversal sha orig rid (r, u) = Inr w'"
  obtains (expired) q who where "orig = Signed who" "reversal_requests r rid = Some q" "rq_status q = Pending"
      "rq_expiry_block_height q < current_height u" "w' = (expire_state rid q r, u)"
    | (voted) q who g where "orig = Signed who" "g = account_to_address sha who" "g \<in> set (governors r)"
      "reversal_requests r rid = Some q" "rq_status q = Pending" "current_height u \<le> rq_expiry_block_height q"
      "g \<notin> set (reversal_votes r rid)" "length (reversal_votes r rid) < MAX_GOVERNORS"
      "\<not> approval_threshold r \<le> rq_approval_count q + 1"
      "w' = ((record_vote rid g (reversal_votes r rid @ [g]) (rq_approval_count q + 1) r)
        \<lparr>reversal_requests := (reversal_requests r)(rid \<mapsto> q\<lparr>rq_approval_count := rq_approval_count q + 1\<rparr>)\<rparr>, u)"
    | (executed) q who g where "orig = Signed who" "g = account_to_address sha who" "g \<in> set (governors r)"
      "reversal_requests r rid = Some q" "rq_status q = Pending" "current_height u \<le> rq_expiry_block_height q"
      "g \<notin> set (reversal_votes r rid)" "length (reversal_votes r rid) < MAX_GOVERNORS"
      "approval_threshold r \<le> rq_approval_count q + 1"
      "w' = execute_reversal sha rid (q\<lparr>rq_approval_count := rq_approval_count q + 1, rq_status := Approved\<rparr>)
        ((record_vote rid g (reversal_votes r rid @ [g]) (rq_approval_count q + 1) r)
          \<lparr>reversal_requests := (reversal_requests r)(rid \<mapsto>
             q\<lparr>rq_approval_count := rq_approval_count q + 1, rq_status := Approved\<rparr>)\<rparr>, u)"
proof (cases "ensure_signed orig :: reversal_error dispatch_error + account_id")
  case (Inl e)
  then show ?thesis using assms by (simp add: approve_reversal_def)
next
  case (Inr who)
  then have who: "orig = Signed who" by simp
  let ?g = "account_to_address sha who"
  from assms who have gov: "?g \<in> set (governors r)"
    by (auto simp: approve_reversal_def list_ex_iff Let_def split: if_splits)
  from assms who gov obtain q where q: "reversal_requests r rid = Some q" "rq_status q = Pending"
    by (auto simp: approve_reversal_def list_ex_iff Let_def split: option.splits if_splits)
  show ?thesis
  proof (cases "rq_expiry_block_height q < current_height u")
    case True
    then show ?thesis using assms who gov q expired by (simp add: approve_reversal_def list_ex_iff Let_def)
  next
    case False
    with assms who gov q have vote: "?g \<notin> set (reversal_votes r rid)" "length (reversal_votes r rid) < MAX_GOVERNORS"
      by (auto simp: approve_reversal_def list_ex_iff Let_def try_push_def split: if_splits)
    show ?thesis
    proof (cases "approval_threshold r \<le> rq_approval_count q + 1")
      case True
      show ?thesis
        by (rule executed [OF who refl gov q _ vote True])
          (use assms who gov q vote False True in
            \<open>simp_all add: approve_reversal_def list_ex_iff Let_def try_push_def record_vote_def\<close>)
    next
      case below: False
      show ?thesis
        by (rule voted [OF who refl gov q _ vote below])
          (use assms who gov q vote False below in
            \<open>simp_all add: approve_reversal_def list_ex_iff Let_def try_push_def record_vote_def\<close>)
    qed
  qed
qed

lemma expire_request_InrD:
  assumes "expire_request orig rid (r, u) = Inr w'"
  obtains q where "reversal_requests r rid = Some q" "rq_status q = Pending"
    "rq_expiry_block_height q < current_height u"
    "w' = ((expire_state rid q r)\<lparr>reversal_votes := (reversal_votes r)(rid := [])\<rparr>, u)"
  using assms by (auto simp: expire_request_def split: sum.splits option.splits if_splits)

lemma prune_InrD:
  assumes "prune_expired_reversals fuel orig age entries (r, u) = Some (Inr w')"
  shows "\<exists>m i. w' = (r\<lparr>expired_reversals := m, expiry_index := i\<rparr>, u)"
  using assms by (auto simp: prune_expired_reversals_def split: sum.splits option.splits prod.splits)

text \<open>The governance calls leave requests, votes and records alone.\<close>

definition same_cases :: "reversal_state \<Rightarrow> reversal_state \<Rightarrow> bool" where
  "same_cases r r' \<longleftrightarrow> reversal_votes r' = reversal_votes r \<and> reversal_requests r' = reversal_requests r \<and>
     executed_reversals r' = executed_reversals r \<and> (\<exists>es. rev_events r' = rev_events r @ es)"

lemma governance_same_cases:
  "add_governor orig a r = Inr r' \<Longrightarrow> same_cases r r'"
  "remove_governor orig a r = Inr r' \<Longrightarrow> same_cases r r'"
  "set_reversal_window orig h r = Inr r' \<Longrightarrow> same_cases r r'"
  "set_approval_threshold orig n r = Inr r' \<Longrightarrow> same_cases r r'"
  by (auto simp: same_cases_def add_governor_def remove_governor_def set_reversal_window_def
      set_approval_threshold_def Let_def split: sum.splits if_splits option.splits)

text \<open>Recording a vote keeps the invariant of the votes; the count reaches the number of approvers.\<close>

lemma record_vote_facts:
  assumes inv: "rev_inv r" and q: "reversal_requests r rid = Some q" "rq_status q = Pending"
    and g: "g \<notin> set (reversal_votes r rid)" and len: "length (reversal_votes r rid) < MAX_GOVERNORS"
  defines "es \<equiv> rev_events r @ [ReversalApproved rid g (rq_approval_count q + 1) (approval_threshold r)]"
  shows "distinct (reversal_votes r rid @ [g])" and "set (reversal_votes r rid @ [g]) \<subseteq> approvers rid es"
    and "unat (rq_approval_count q + 1) \<le> length (reversal_votes r rid @ [g])"
    and "unat (rq_approval_count q + 1) \<le> card (approvers rid es)"
proof -
  have g_in: "g \<in> approvers rid es" by (auto simp: approvers_def es_def)
  show d: "distinct (reversal_votes r rid @ [g])" and s: "set (reversal_votes r rid @ [g]) \<subseteq> approvers rid es"
    using inv g g_in by (auto simp: rev_inv_def es_def approvers_append)
  have c: "unat (rq_approval_count q) \<le> length (reversal_votes r rid)"
    using inv q by (auto simp: rev_inv_def)
  then have "unat (rq_approval_count q) + 1 < 2 ^ 32" using len by (simp add: MAX_GOVERNORS_def)
  then have "unat (rq_approval_count q + 1) = unat (rq_approval_count q) + 1"
    by (subst unat_add_lem [THEN iffD1]) simp_all
  then show l: "unat (rq_approval_count q + 1) \<le> length (reversal_votes r rid @ [g])" using c by simp
  have "length (reversal_votes r rid @ [g]) \<le> card (approvers rid es)"
    using card_mono [OF finite_approvers s] distinct_card [OF d] by simp
  with l show "unat (rq_approval_count q + 1) \<le> card (approvers rid es)" by linarith
qed

lemma rev_inv_same_cases: "rev_inv r \<Longrightarrow> same_cases r r' \<Longrightarrow> rev_inv r'"
  using rev_inv_same by (auto simp: same_cases_def)

lemma rev_invI:
  assumes "\<And>i. distinct (reversal_votes r i)" and "\<And>i. set (reversal_votes r i) \<subseteq> approvers i (rev_events r)"
    and "\<And>i q. reversal_requests r i = Some q \<Longrightarrow> rq_request_id q = i \<and> rq_status q \<in> {Pending, Executed} \<and>
      (rq_status q = Pending \<longrightarrow> unat (rq_approval_count q) \<le> length (reversal_votes r i))"
    and "\<And>i x. executed_reversals r i = Some x \<Longrightarrow>
      (\<exists>q. reversal_requests r i = Some q \<and> rq_status q = Executed) \<and> threshold_met i (rev_events r)"
  shows "rev_inv r"
  using assms by (simp add: rev_inv_def)

lemma rev_invD:
  assumes "rev_inv r"
  shows "distinct (reversal_votes r i)"
    and "v \<in> set (reversal_votes r i) \<Longrightarrow> v \<in> approvers i (rev_events r)"
    and "reversal_requests r i = Some q \<Longrightarrow> rq_request_id q = i \<and> rq_status q \<in> {Pending, Executed} \<and>
      (rq_status q = Pending \<longrightarrow> unat (rq_approval_count q) \<le> length (reversal_votes r i))"
    and "executed_reversals r i = Some x \<Longrightarrow>
      (\<exists>q. reversal_requests r i = Some q \<and> rq_status q = Executed) \<and> threshold_met i (rev_events r)"
  using assms by (auto simp: rev_inv_def)

lemma submit_keeps_inv:
  assumes inv: "rev_inv r" and step: "submit_reversal_request sha orig txid sender reason (r, u) = Inr w'"
  shows "rev_inv (fst w')"
proof -
  from step obtain q e rid where S: "reversal_requests r rid = None" "rq_request_id q = rid" "rq_status q = Pending"
    "rq_approval_count q = 0" "reversal_votes (fst w') = reversal_votes r"
    "reversal_requests (fst w') = (reversal_requests r)(rid \<mapsto> q)" "executed_reversals (fst w') = executed_reversals r"
    "rev_events (fst w') = rev_events r @ [ReversalRequested rid txid e (rq_requester q) (rq_expiry_block_height q)]"
    by (rule submit_reversal_request_InrD)
  note I = rev_invD [OF inv]
  have "i \<noteq> rid" if "executed_reversals r i = Some x" for i x
    using I(4) [OF that] S(1) by auto
  then show ?thesis
    using I S by (intro rev_invI) (auto simp: approvers_append threshold_met_append split: if_splits)
qed

lemma expire_keeps_inv:
  assumes inv: "rev_inv r" and q: "reversal_requests r rid = Some q" "rq_status q = Pending"
  shows "rev_inv (expire_state rid q r)"
    and "rev_inv ((expire_state rid q r)\<lparr>reversal_votes := (reversal_votes r)(rid := [])\<rparr>)"
proof -
  note I = rev_invD [OF inv]
  have "i \<noteq> rid" if "executed_reversals r i = Some x" for i x
    using I(4) [OF that] q by auto
  then show "rev_inv (expire_state rid q r)"
    and "rev_inv ((expire_state rid q r)\<lparr>reversal_votes := (reversal_votes r)(rid := [])\<rparr>)"
    by (intro rev_invI; use I in \<open>auto simp: expire_state_def approvers_append threshold_met_append split: if_splits\<close>)+
qed

lemma approve_keeps_inv:
  assumes inv: "rev_inv r" and step: "approve_reversal sha orig rid (r, u) = Inr w'"
  shows "rev_inv (fst w')"
  using step
proof (cases rule: approve_reversal_cases)
  case (expired q who)
  then show ?thesis using expire_keeps_inv(1) [OF inv] by simp
next
  case (voted q who g)
  note R = record_vote_facts [OF inv voted(4,5,7,8)] and I = rev_invD [OF inv]
  have "i \<noteq> rid" if "executed_reversals r i = Some x" for i x
    using I(4) [OF that] voted(4,5) by auto
  then show ?thesis
    unfolding voted(10) using R I(1,3,4) I(2) [of _ rid] I(2) I(3) [OF voted(4)] voted(5)
    by (intro rev_invI; simp add: record_vote_def approvers_append threshold_met_append split: if_splits)
      (auto simp: approvers_append)
next
  case (executed q who g)
  note R = record_vote_facts [OF inv executed(4,5,7,8)] and I = rev_invD [OF inv]
  let ?n = "rq_approval_count q + 1"
  let ?q2 = "q\<lparr>rq_approval_count := ?n, rq_status := Approved\<rparr>"
  let ?r2 = "(record_vote rid g (reversal_votes r rid @ [g]) ?n r)
      \<lparr>reversal_requests := (reversal_requests r)(rid \<mapsto> ?q2)\<rparr>"
  note F = execute_reversal_fields [of sha rid ?q2 "(?r2, u)"]
  let ?es = "rev_events r @ [ReversalApproved rid g ?n (approval_threshold r)]"
  have w': "w' = execute_reversal sha rid ?q2 (?r2, u)" by (rule executed(10))
  obtain es where es: "rev_events (fst w') = ?es @ es"
    using F(4) by (auto simp: w' record_vote_def)
  obtain x where x: "executed_reversals (fst w') = (executed_reversals r)(rid \<mapsto> x)"
    using F(3) by (auto simp: w' record_vote_def)
  have votes: "reversal_votes (fst w') = (reversal_votes r)(rid := [])"
    using F(1) by (simp add: w' record_vote_def)
  have requests: "reversal_requests (fst w') =
      (reversal_requests r)(rid \<mapsto> ?q2\<lparr>rq_status := Executed\<rparr>)"
    using F(2) by (simp add: w' set_executed_def)
  have met: "threshold_met rid ?es"
    unfolding threshold_met_def using R(4) executed(9) by fastforce
  show ?thesis
  proof (rule rev_invI)
    show "distinct (reversal_votes (fst w') i)" for i using I(1) by (simp add: votes)
    show "set (reversal_votes (fst w') i) \<subseteq> approvers i (rev_events (fst w'))" for i
      using I(2) [of _ i] by (auto simp: votes es approvers_append)
    show "rq_request_id p = i \<and> rq_status p \<in> {Pending, Executed} \<and>
        (rq_status p = Pending \<longrightarrow> unat (rq_approval_count p) \<le> length (reversal_votes (fst w') i))"
      if "reversal_requests (fst w') i = Some p" for i p
      using that I(3) [of i p] I(3) [OF executed(4)] by (auto simp: requests votes split: if_splits)
    show "(\<exists>p. reversal_requests (fst w') i = Some p \<and> rq_status p = Executed) \<and> threshold_met i (rev_events (fst w'))"
      if "executed_reversals (fst w') i = Some y" for i y
    proof -
      have "threshold_met rid (rev_events (fst w'))" unfolding es by (rule threshold_met_append [OF met])
      moreover have "threshold_met i (rev_events (fst w'))" if "threshold_met i (rev_events r)"
        using that by (simp add: es threshold_met_append)
      ultimately show ?thesis
        using that I(4) [of i y] by (auto simp: x requests split: if_splits)
    qed
  qed
qed

lemma rev_step_inv: "rev_step sha w w' \<Longrightarrow> rev_inv (fst w) \<Longrightarrow> rev_inv (fst w')"
proof (induction rule: rev_step.induct)
  case (rev_submit orig txid sender reason w w')
  then show ?case by (cases w) (auto intro: submit_keeps_inv)
next
  case (rev_approve orig rid w w')
  then show ?case by (cases w) (auto intro: approve_keeps_inv)
next
  case (rev_expire orig rid w w')
  obtain r u where w: "w = (r, u)" by (cases w)
  from rev_expire(1) [unfolded w] obtain q where "reversal_requests r rid = Some q" "rq_status q = Pending"
    "w' = ((expire_state rid q r)\<lparr>reversal_votes := (reversal_votes r)(rid := [])\<rparr>, u)"
    by (rule expire_request_InrD)
  then show ?case using expire_keeps_inv(2) rev_expire(2) w by simp
next
  case (rev_prune fuel orig age entries w w')
  obtain r u where w: "w = (r, u)" by (cases w)
  show ?case
    using prune_InrD [OF rev_prune(1) [unfolded w]] rev_prune(2) w
    by (auto simp: same_cases_def intro!: rev_inv_same_cases [of r])
qed (auto intro: rev_inv_same_cases governance_same_cases)

lemma rev_genesis_inv: "reversal_genesis govs window threshold = Some r \<Longrightarrow> rev_inv r"
  by (auto simp: reversal_genesis_def rev_inv_def split: if_splits)

lemma rev_reachable_inv: "rev_reachable sha w \<Longrightarrow> rev_inv (fst w)"
  by (induction rule: rev_reachable.induct) (auto intro: rev_genesis_inv rev_step_inv)

section \<open>The properties\<close>

subsection \<open>A concrete reversal\<close>

text \<open>
  One governor (the address \<open>32\<close> that the example hash assigns to every account), threshold 1,
  and an ordinary output of 60 units in the ledger.
\<close>

definition example_sha :: "u8 list \<Rightarrow> h256" where
  "example_sha bs = of_nat (length bs)"

definition example_output :: utxo where
  "example_output = \<lparr>utxo_txid = 5, utxo_vout = 0, utxo_address = 9, utxo_amount = 60,
     utxo_block_height = 3, utxo_is_coinbase = False\<rparr>"

definition example_rev_ledger :: utxo_state where
  "example_rev_ledger = create_utxo (5, 0) example_output utxo_empty"

definition example_request :: reversal_request where
  "example_request = \<lparr>rq_request_id = 60, rq_target_txid = 5, rq_original_sender = 4, rq_amount = 60,
     rq_target_block_height = 3, rq_request_block_height = 0, rq_expiry_block_height = 26182,
     rq_approval_count = 0, rq_status = Pending, rq_reason = [], rq_requester = 32\<rparr>"

definition example_rev_state :: reversal_state where
  "example_rev_state = \<lparr>reversal_window = 26182, approval_threshold = 1, governors = [32],
     reversal_requests = [60 \<mapsto> example_request], reversal_votes = (\<lambda>_. []), executed_reversals = Map.empty,
     expired_reversals = Map.empty, total_requests = 1, total_executed = 0, total_expired = 0,
     frozen_utxos = Map.empty, expiry_index = push_expiry 26182 60 (\<lambda>_. []),
     rev_events = [ReversalRequested 60 5 60 32 26182]\<rparr>"

lemma example_rev_ledger_facts: "ledger_inv example_rev_ledger" "ledger_value example_rev_ledger = 60"
  "utxo_entries example_rev_ledger = 1" "utxo_set example_rev_ledger = [(5, 0) \<mapsto> example_output]"
  "current_height example_rev_ledger = 0"
proof -
  have fresh: "utxo_set utxo_empty (5, 0) = None" by (simp add: utxo_empty_def)
  have key: "utxo_key example_output = (5, 0)" and worth: "amount_of example_output = 60"
    by (simp_all add: example_output_def utxo_key_def amount_of_def)
  show "ledger_inv example_rev_ledger"
    unfolding example_rev_ledger_def by (rule ul.put_ok [OF ledger_inv_empty fresh key]) (simp_all add: worth)
  show "ledger_value example_rev_ledger = 60"
    unfolding example_rev_ledger_def ul.put_volume [OF ledger_inv_empty fresh] by (simp add: worth)
  show "utxo_entries example_rev_ledger = 1"
    unfolding example_rev_ledger_def ul.put_entries [OF ledger_inv_empty fresh] by simp
  show "utxo_set example_rev_ledger = [(5, 0) \<mapsto> example_output]" "current_height example_rev_ledger = 0"
    by (simp_all add: example_rev_ledger_def create_utxo_def insert_utxo_def Let_def utxo_empty_def)
qed

lemma example_approval:
  "\<exists>w'. approve_reversal example_sha (Signed 1) 60 (example_rev_state, example_rev_ledger) = Inr w' \<and>
    w' = execute_reversal example_sha 60 (example_request\<lparr>rq_approval_count := 1, rq_status := Approved\<rparr>)
      ((record_vote 60 32 [32] 1 example_rev_state)
        \<lparr>reversal_requests := [60 \<mapsto> example_request\<lparr>rq_approval_count := 1, rq_status := Approved\<rparr>]\<rparr>,
       example_rev_ledger)"
  by (simp add: approve_reversal_def account_to_address_def example_sha_def example_rev_state_def Let_def
      example_request_def example_rev_ledger_facts try_push_def MAX_GOVERNORS_def record_vote_def)

subsection \<open>The statements\<close>

lemma approve_reversal_value:
  assumes "approve_reversal sha orig rid (r, u) = Inr (r', u')"
    and "ledger_inv u" and "ledger_value u < 2 ^ 128" and "utxo_entries u + 1 < 2 ^ 64"
    and "utxo_set u (compute_reversal_txid sha rid (current_height u), 0) = None"
  shows "ledger_inv u' \<and> ledger_value u' = ledger_value u \<and> circulating u' = circulating u"
  using assms(1)
proof (cases rule: approve_reversal_cases)
  case (executed q who g)
  let ?q2 = "q\<lparr>rq_approval_count := rq_approval_count q + 1, rq_status := Approved\<rparr>"
  let ?w = "((record_vote rid g (reversal_votes r rid @ [g]) (rq_approval_count q + 1) r)
      \<lparr>reversal_requests := (reversal_requests r)(rid \<mapsto> ?q2)\<rparr>, u)"
  have u': "u' = snd (execute_reversal sha rid ?q2 ?w)" using executed(10) by (metis snd_conv)
  show ?thesis
    unfolding u' using execute_reversal_ledger [where w = ?w and sha = sha and rid = rid and rq = ?q2] assms(2-5) execute_reversal_fees [of sha rid ?q2 ?w]
    by (simp add: circulating_def)
qed (use assms in auto)

text \<open>
  A governor's approval, whether it only counts, executes the reversal or finds the request
  expired, keeps the ledger invariant and the total value of the unspent outputs: a reversal
  moves value and creates none.
\<close>

theorem approve_reversal_conserves_value:
  assumes "approve_reversal sha orig rid (r, u) = Inr (r', u')"
    and "ledger_inv u" and "ledger_value u < 2 ^ 128" and "utxo_entries u + 1 < 2 ^ 64"
    and "utxo_set u (compute_reversal_txid sha rid (current_height u), 0) = None"
  shows "ledger_inv u' \<and> ledger_value u' = ledger_value u"
  using approve_reversal_value [OF assms] by blast

theorem approve_reversal_conserves_value_witness:
  "\<exists>r' u'. approve_reversal example_sha (Signed 1) 60 (example_rev_state, example_rev_ledger) = Inr (r', u') \<and>
    executed_reversals r' 60 \<noteq> None \<and> ledger_inv u' \<and> ledger_value u' = 60"
proof -
  obtain r' u' where w': "approve_reversal example_sha (Signed 1) 60 (example_rev_state, example_rev_ledger) = Inr (r', u')"
    and e: "(r', u') = execute_reversal example_sha 60 (example_request\<lparr>rq_approval_count := 1, rq_status := Approved\<rparr>)
      ((record_vote 60 32 [32] 1 example_rev_state)
        \<lparr>reversal_requests := [60 \<mapsto> example_request\<lparr>rq_approval_count := 1, rq_status := Approved\<rparr>]\<rparr>,
       example_rev_ledger)"
    using example_approval by (metis prod.collapse)
  have "executed_reversals r' 60 \<noteq> None"
    using execute_reversal_fields(3) e by (metis fst_conv fun_upd_same option.distinct(1))
  moreover have "ledger_inv u' \<and> ledger_value u' = ledger_value example_rev_ledger"
    by (rule approve_reversal_conserves_value [OF w'])
      (simp_all add: example_rev_ledger_facts compute_reversal_txid_def example_sha_def ascii_def)
  ultimately show ?thesis using w' by (auto simp: example_rev_ledger_facts)
qed

text \<open>
  C8. Governance: in every reachable state, a reversal that is on record as executed had a vote
  that met the approval threshold in force, and the counted approvals were cast by at least
  that many distinct addresses.
\<close>

theorem executed_only_with_threshold:
  assumes "rev_reachable sha (r, u)" and "executed_reversals r rid = Some x"
  shows "\<exists>g n th. ReversalApproved rid g n th \<in> set (rev_events r) \<and> th \<le> n \<and>
    unat n \<le> card {v. \<exists>n th. ReversalApproved rid v n th \<in> set (rev_events r)}"
  using rev_invD(4) [OF rev_reachable_inv [OF assms(1), simplified] assms(2)]
  by (simp add: threshold_met_def approvers_def)

lemma new_approval_is_governor:
  assumes "approve_reversal sha orig rid (r, u) = Inr (r', u')"
    and "v \<in> approvers i (rev_events r')" and "v \<notin> approvers i (rev_events r)"
  shows "v \<in> set (governors r) \<and> (\<exists>who. orig = Signed who \<and> v = account_to_address sha who)"
  using assms(1)
proof (cases rule: approve_reversal_cases)
  case (executed q who g)
  let ?q2 = "q\<lparr>rq_approval_count := rq_approval_count q + 1, rq_status := Approved\<rparr>"
  let ?w = "((record_vote rid g (reversal_votes r rid @ [g]) (rq_approval_count q + 1) r)
      \<lparr>reversal_requests := (reversal_requests r)(rid \<mapsto> ?q2)\<rparr>, u)"
  have r': "r' = fst (execute_reversal sha rid ?q2 ?w)" using executed(10) by (metis fst_conv)
  obtain es where "rev_events r' = rev_events (fst ?w) @ es" "\<forall>i. approvers i es = {}"
    using execute_reversal_fields(4) [of sha rid ?q2 ?w] r' by blast
  then show ?thesis
    using assms(2,3) executed(1,2,3) by (auto simp: record_vote_def approvers_append) (auto simp: approvers_def)
qed (use assms in \<open>auto simp: expire_state_def record_vote_def approvers_append approvers_def\<close>)

text \<open>
  Only governors approve: an approval event that a step adds names an address that was on
  the governor list before the step and derives from the signed origin.
\<close>

theorem approvals_come_from_governors:
  assumes "rev_step sha (r, u) (r', u')"
    and "ReversalApproved i v n th \<in> set (rev_events r')" and "\<forall>n th. ReversalApproved i v n th \<notin> set (rev_events r)"
  shows "v \<in> set (governors r)"
proof -
  have new: "v \<in> approvers i (rev_events r')" "v \<notin> approvers i (rev_events r)"
    using assms(2,3) by (auto simp: approvers_def)
  have same: "v \<in> approvers i (rev_events r)"
    if "\<exists>es. rev_events r' = rev_events r @ es \<and> (\<forall>i. approvers i es = {})"
    using that new(1) by (auto simp: approvers_append)
  from assms(1) show ?thesis
  proof (cases rule: rev_step.cases)
    case (rev_approve orig rid)
    from new_approval_is_governor [OF rev_approve new] show ?thesis by blast
  next
    case (rev_submit orig txid sender reason)
    then have "\<exists>es. rev_events r' = rev_events r @ es \<and> (\<forall>i. approvers i es = {})"
      by (auto elim!: submit_reversal_request_InrD simp: approvers_def)
    with same new show ?thesis by blast
  next
    case (rev_expire orig rid)
    then have "\<exists>es. rev_events r' = rev_events r @ es \<and> (\<forall>i. approvers i es = {})"
      by (auto elim!: expire_request_InrD simp: approvers_def expire_state_def)
    with same new show ?thesis by blast
  next
    case (rev_prune fuel orig age entries)
    then have "rev_events r' = rev_events r" by (auto dest!: prune_InrD)
    with new show ?thesis by simp
  qed (use same new in \<open>auto simp: add_governor_def remove_governor_def set_reversal_window_def
      set_approval_threshold_def Let_def approvers_def split: sum.splits if_splits option.splits dest!: try_push_SomeD\<close>)
qed

lemma example_approved:
  obtains r' u' where
    "approve_reversal example_sha (Signed 1) 60 (example_rev_state, example_rev_ledger) = Inr (r', u')"
    "executed_reversals r' 60 \<noteq> None" "ReversalApproved 60 32 1 1 \<in> set (rev_events r')"
proof -
  obtain r' u' where w': "approve_reversal example_sha (Signed 1) 60 (example_rev_state, example_rev_ledger) = Inr (r', u')"
    and e: "(r', u') = execute_reversal example_sha 60 (example_request\<lparr>rq_approval_count := 1, rq_status := Approved\<rparr>)
      ((record_vote 60 32 [32] 1 example_rev_state)
        \<lparr>reversal_requests := [60 \<mapsto> example_request\<lparr>rq_approval_count := 1, rq_status := Approved\<rparr>]\<rparr>,
       example_rev_ledger)"
    using example_approval by (metis prod.collapse)
  have "executed_reversals r' 60 \<noteq> None"
    using execute_reversal_fields(3) e by (metis fst_conv fun_upd_same option.distinct(1))
  moreover obtain es where "rev_events r' = rev_events (record_vote 60 32 [32] 1 example_rev_state) @ es"
    using execute_reversal_fields(4) e by (metis (no_types, lifting) fst_conv reversal_state.select_convs(13)
        reversal_state.surjective reversal_state.update_convs(4))
  then have "ReversalApproved 60 32 1 1 \<in> set (rev_events r')"
    by (simp add: record_vote_def example_rev_state_def)
  ultimately show thesis using that w' by blast
qed

lemma example_reachable: "rev_reachable example_sha (example_rev_state, u)"
proof -
  let ?r0 = "\<lparr>reversal_window = 26182, approval_threshold = 1, governors = [32], reversal_requests = Map.empty,
    reversal_votes = (\<lambda>_. []), executed_reversals = Map.empty, expired_reversals = Map.empty, total_requests = 0,
    total_executed = 0, total_expired = 0, frozen_utxos = Map.empty, expiry_index = (\<lambda>_. []), rev_events = []\<rparr>"
  have g: "reversal_genesis [32] 0 1 = Some ?r0"
    by (simp add: reversal_genesis_def qbc_consts)
  have vouts: "all_vouts = 0 # map of_nat [1..<256]"
    by (simp add: all_vouts_def upt_rec [of 0])
  have none: "0 \<notin> set (map of_nat [1..<256] :: u32 list)"
    by (auto dest!: arg_cong [where f = unat] simp: unat_of_nat_less)
  have rest: "scan_target r example_rev_ledger 5 vs n h b = Inr (n, h, b)" if "0 \<notin> set vs" for r vs n h b
    using that by (induction vs) (auto simp: example_rev_ledger_facts)
  have scan: "scan_target ?r0 example_rev_ledger 5 all_vouts 0 0 False = Inr (60, 3, True)"
    unfolding vouts using rest [OF none]
    by (simp add: example_rev_ledger_facts example_output_def utxo_is_frozen_def checked_add_def)
  have rid: "compute_request_id example_sha 5 0 = 60"
    by (simp add: compute_request_id_def example_sha_def ascii_def)
  have "submit_reversal_request example_sha (Signed 1) 5 4 [] (?r0, example_rev_ledger) =
      Inr (example_rev_state, example_rev_ledger)"
    using scan rid
    by (simp add: submit_reversal_request_def Let_def example_rev_ledger_facts account_to_address_def
        saturating_sub_def saturating_add_def example_rev_state_def example_request_def)
      (simp add: example_sha_def)
  then have "rev_reachable example_sha (example_rev_state, example_rev_ledger)"
    by (rule rev_next [OF rev_start [OF g] rev_submit])
  then show ?thesis by (rule rev_next [OF _ rev_ledger])
qed

theorem executed_only_with_threshold_witness:
  "\<exists>r' u' g n th. rev_reachable example_sha (r', u') \<and> ReversalApproved 60 g n th \<in> set (rev_events r') \<and> th \<le> n"
proof -
  obtain r' u' where w: "approve_reversal example_sha (Signed 1) 60 (example_rev_state, example_rev_ledger) = Inr (r', u')"
    and x: "executed_reversals r' 60 \<noteq> None" by (rule example_approved)
  have reach: "rev_reachable example_sha (r', u')"
    by (rule rev_next [OF example_reachable rev_approve [OF w]])
  from x obtain y where "executed_reversals r' 60 = Some y" by blast
  from executed_only_with_threshold [OF reach this] reach show ?thesis by blast
qed

theorem approvals_come_from_governors_witness: "32 \<in> set (governors example_rev_state)"
proof -
  obtain r' u' where w: "approve_reversal example_sha (Signed 1) 60 (example_rev_state, example_rev_ledger) = Inr (r', u')"
    and e: "ReversalApproved 60 32 1 1 \<in> set (rev_events r')" by (rule example_approved)
  show ?thesis
    by (rule approvals_come_from_governors [OF rev_approve [OF w] e]) (simp add: example_rev_state_def)
qed

lemma approve_leaves_others:
  assumes "approve_reversal sha orig rid' (r, u) = Inr w'" and "rid' \<noteq> rid"
  shows "executed_reversals (fst w') rid = executed_reversals r rid"
  using assms(1)
proof (cases rule: approve_reversal_cases)
  case (executed q who g)
  let ?q2 = "q\<lparr>rq_approval_count := rq_approval_count q + 1, rq_status := Approved\<rparr>"
  let ?w = "((record_vote rid' g (reversal_votes r rid' @ [g]) (rq_approval_count q + 1) r)
      \<lparr>reversal_requests := (reversal_requests r)(rid' \<mapsto> ?q2)\<rparr>, u)"
  obtain x where "executed_reversals (fst (execute_reversal sha rid' ?q2 ?w)) = (executed_reversals (fst ?w))(rid' \<mapsto> x)"
    using execute_reversal_fields(3) by blast
  then show ?thesis unfolding executed(10) using assms(2) by (simp add: record_vote_def)
qed (simp_all add: expire_state_def record_vote_def)

text \<open>
  C9. A reversal is executed at most once: no later step changes the record of an executed
  reversal, and no approval of it is accepted again.
\<close>

theorem executed_at_most_once:
  assumes "rev_reachable sha (r, u)" and "executed_reversals r rid = Some x"
    and "rev_step sha (r, u) (r', u')"
  shows "executed_reversals r' rid = Some x \<and> (\<exists>e. approve_reversal sha orig rid (r, u) = Inl e)"
proof -
  have inv: "rev_inv r" using rev_reachable_inv [OF assms(1)] by simp
  obtain q where q: "reversal_requests r rid = Some q" "rq_status q = Executed"
    using rev_invD(4) [OF inv assms(2)] by blast
  have refused: "\<exists>e. approve_reversal sha o1 rid (r, u) = Inl e" for o1
  proof (cases "approve_reversal sha o1 rid (r, u)")
    case (Inr w')
    then show ?thesis by (cases rule: approve_reversal_cases) (use q in auto)
  qed simp
  have "executed_reversals r' rid = Some x"
    using assms(3)
  proof (cases rule: rev_step.cases)
    case (rev_submit orig txid sender reason)
    then show ?thesis using assms(2) by (auto elim!: submit_reversal_request_InrD)
  next
    case (rev_approve orig rid')
    then have "rid' \<noteq> rid" using refused [of orig] by auto
    with approve_leaves_others [OF rev_approve] show ?thesis using assms(2) by simp
  next
    case (rev_expire orig rid')
    then show ?thesis using assms(2) by (auto elim!: expire_request_InrD simp: expire_state_def)
  next
    case (rev_prune fuel orig age entries)
    then show ?thesis using assms(2) by (auto dest!: prune_InrD)
  qed (use assms(2) in \<open>auto dest!: governance_same_cases simp: same_cases_def\<close>)
  then show ?thesis using refused by blast
qed

theorem executed_at_most_once_witness:
  "\<exists>r' u'. executed_reversals r' 60 \<noteq> None \<and> (\<exists>e. approve_reversal example_sha (Signed 1) 60 (r', u') = Inl e)"
proof -
  obtain r' u' where w: "approve_reversal example_sha (Signed 1) 60 (example_rev_state, example_rev_ledger) = Inr (r', u')"
    and x: "executed_reversals r' 60 \<noteq> None" by (rule example_approved)
  have reach: "rev_reachable example_sha (r', u')"
    by (rule rev_next [OF example_reachable rev_approve [OF w]])
  from x obtain y where y: "executed_reversals r' 60 = Some y" by blast
  from executed_at_most_once [OF reach y rev_ledger] x show ?thesis by blast
qed

text \<open>The approvals of several governors one after the other.\<close>

fun approve_all ::
  "(u8 list \<Rightarrow> h256) \<Rightarrow> account_id list \<Rightarrow> h256 \<Rightarrow> rev_world \<Rightarrow> reversal_error dispatch_error + rev_world" where
  "approve_all sha [] rid w = Inr w"
| "approve_all sha (a # accounts) rid w =
     (case approve_reversal sha (Signed a) rid w of Inl e \<Rightarrow> Inl e | Inr w' \<Rightarrow> approve_all sha accounts rid w')"

lemma approve_all_executes:
  "reversal_requests r rid = Some q \<Longrightarrow> rq_status q = Pending \<Longrightarrow> current_height u \<le> rq_expiry_block_height q \<Longrightarrow>
   unat (rq_approval_count q) = length (reversal_votes r rid) \<Longrightarrow> distinct (reversal_votes r rid @ map (account_to_address sha) accounts) \<Longrightarrow>
   account_to_address sha ` set accounts \<subseteq> set (governors r) \<Longrightarrow> accounts \<noteq> [] \<Longrightarrow>
   length (reversal_votes r rid) + length accounts = unat (approval_threshold r) \<Longrightarrow> unat (approval_threshold r) \<le> MAX_GOVERNORS \<Longrightarrow>
   \<exists>w'. approve_all sha accounts rid (r, u) = Inr w' \<and> executed_reversals (fst w') rid \<noteq> None \<and>
     map_option rq_status (reversal_requests (fst w') rid) = Some Executed"
proof (induction accounts arbitrary: r q)
  case (Cons a accounts)
  let ?g = "account_to_address sha a" and ?votes = "reversal_votes r rid"
  let ?n = "rq_approval_count q + 1"
  let ?q = "q\<lparr>rq_approval_count := ?n\<rparr>"
  let ?r = "(record_vote rid ?g (?votes @ [?g]) ?n r)\<lparr>reversal_requests := (reversal_requests r)(rid \<mapsto> ?q)\<rparr>"
  have gov: "list_ex (\<lambda>g. g = ?g) (governors r)" and new: "\<not> list_ex (\<lambda>v. v = ?g) ?votes"
    using Cons.prems(5,6) by (auto simp: list_ex_iff)
  have room: "try_push MAX_GOVERNORS ?g ?votes = Some (?votes @ [?g])"
    using Cons.prems(8,9) by (simp add: try_push_def)
  have "unat (rq_approval_count q) + 1 < 2 ^ 32" using Cons.prems(4,8,9) by (simp add: MAX_GOVERNORS_def)
  then have n: "unat ?n = Suc (length ?votes)" using Cons.prems(4) unat_add_lem [of "rq_approval_count q" 1] by simp
  have open': "\<not> rq_expiry_block_height q < current_height u" using Cons.prems(3) by simp
  show ?case
  proof (cases "accounts = []")
    case True
    then have "approval_threshold r \<le> ?n" using n Cons.prems(8) by (simp add: word_le_nat_alt)
    then obtain w where w: "approve_reversal sha (Signed a) rid (r, u) = Inr (execute_reversal sha rid
        (?q\<lparr>rq_status := Approved\<rparr>) (w, u))" "reversal_requests w rid = Some (?q\<lparr>rq_status := Approved\<rparr>)"
      using Cons.prems(1,2) gov new room open' by (simp add: approve_reversal_def Let_def)
    let ?e = "execute_reversal sha rid (?q\<lparr>rq_status := Approved\<rparr>) (w, u)"
    have "executed_reversals (fst ?e) rid \<noteq> None" "map_option rq_status (reversal_requests (fst ?e) rid) = Some Executed"
      using execute_reversal_fields(3) [of sha rid "?q\<lparr>rq_status := Approved\<rparr>" "(w, u)"] w(2)
      by (auto simp: execute_reversal_fields(2) set_executed_def)
    then show ?thesis using w(1) True by simp
  next
    case False
    then have "\<not> approval_threshold r \<le> ?n" using n Cons.prems(8) by (cases accounts) (simp_all add: word_le_nat_alt)
    then have step: "approve_reversal sha (Signed a) rid (r, u) = Inr (?r, u)"
      using Cons.prems(1,2) gov new room open'
      by (simp add: approve_reversal_def Let_def record_vote_def)
    have "\<exists>w'. approve_all sha accounts rid (?r, u) = Inr w' \<and> executed_reversals (fst w') rid \<noteq> None \<and>
        map_option rq_status (reversal_requests (fst w') rid) = Some Executed"
      by (rule Cons.IH [of _ ?q]) (use Cons.prems False n in \<open>auto simp: record_vote_def\<close>)
    then show ?thesis using step by simp
  qed
qed simp

text \<open>
  C11. Enough governors can execute a request: when a pending request that has not expired has no
  votes yet and as many different governors as the threshold asks for approve it one after the
  other, every call succeeds and the last one executes the reversal.
\<close>

theorem enough_governors_execute:
  assumes "reversal_requests r rid = Some q" and "rq_status q = Pending" and "current_height u \<le> rq_expiry_block_height q"
    and "rq_approval_count q = 0" and "reversal_votes r rid = []"
    and "distinct (map (account_to_address sha) accounts)" and "account_to_address sha ` set accounts \<subseteq> set (governors r)"
    and "length accounts = unat (approval_threshold r)" and "accounts \<noteq> []" and "length accounts \<le> MAX_GOVERNORS"
  shows "\<exists>w'. approve_all sha accounts rid (r, u) = Inr w' \<and> executed_reversals (fst w') rid \<noteq> None \<and>
    map_option rq_status (reversal_requests (fst w') rid) = Some Executed"
  by (rule approve_all_executes [OF assms(1-3)]) (use assms(4-10) in simp_all)

theorem enough_governors_execute_witness:
  "\<exists>w'. approve_all example_sha [1] 60 (example_rev_state, example_rev_ledger) = Inr w' \<and> executed_reversals (fst w') 60 \<noteq> None"
proof -
  have "reversal_requests example_rev_state 60 = Some example_request" by (simp add: example_rev_state_def)
  then have "\<exists>w'. approve_all example_sha [1] 60 (example_rev_state, example_rev_ledger) = Inr w' \<and>
      executed_reversals (fst w') 60 \<noteq> None \<and> map_option rq_status (reversal_requests (fst w') 60) = Some Executed"
    by (rule enough_governors_execute)
      (simp_all add: example_request_def example_rev_ledger_facts example_rev_state_def account_to_address_def
        example_sha_def MAX_GOVERNORS_def)
  then show ?thesis by blast
qed

lemma execute_reversal_keeps_frozen:
  "utxo_is_frozen (fst w) k \<Longrightarrow> utxo_is_frozen (fst (execute_reversal sha rid rq w)) k"
  using frozen_after_freeze_outputs [of w k "rq_target_txid rq" all_vouts 0]
  by (simp add: utxo_is_frozen_def execute_reversal_frozen)

lemma frozen_record [simp]:
  "utxo_is_frozen (record_vote rid g vs n r) k = utxo_is_frozen r k"
  "utxo_is_frozen (expire_state rid q r) k = utxo_is_frozen r k"
  "utxo_is_frozen (r\<lparr>reversal_requests := m\<rparr>) k = utxo_is_frozen r k"
  "utxo_is_frozen (r\<lparr>reversal_votes := vm\<rparr>) k = utxo_is_frozen r k"
  by (simp_all add: utxo_is_frozen_def record_vote_def expire_state_def)

lemma rev_step_frozen: "rev_step sha w w' \<Longrightarrow> utxo_is_frozen (fst w) k \<Longrightarrow> utxo_is_frozen (fst w') k"
proof (induction rule: rev_step.induct)
  case (rev_submit orig txid sender reason w w')
  have "frozen_utxos (fst w') = frozen_utxos (fst w)"
    using rev_submit(1)
    by (cases w) (auto simp: submit_reversal_request_def Let_def split: sum.splits if_splits option.splits)
  with rev_submit(2) show ?case by (simp add: utxo_is_frozen_def)
next
  case (rev_approve orig rid w w')
  obtain r u where w: "w = (r, u)" by (cases w)
  from rev_approve(1) [unfolded w] rev_approve(2) w show ?case
    by (cases rule: approve_reversal_cases) (auto intro!: execute_reversal_keeps_frozen)
next
  case (rev_expire orig rid w w')
  obtain r u where w: "w = (r, u)" by (cases w)
  from rev_expire(1) [unfolded w] rev_expire(2) w show ?case
    by (auto elim!: expire_request_InrD)
next
  case (rev_prune fuel orig age entries w w')
  then show ?case by (cases w) (auto dest!: prune_InrD simp: utxo_is_frozen_def)
qed (auto simp: add_governor_def remove_governor_def set_reversal_window_def set_approval_threshold_def Let_def
    utxo_is_frozen_def split: sum.splits if_splits option.splits)

lemma rev_steps_frozen: "rtranclp (rev_step sha) w w' \<Longrightarrow> utxo_is_frozen (fst w) k \<Longrightarrow> utxo_is_frozen (fst w') k"
  by (induction rule: rtranclp_induct) (auto intro: rev_step_frozen)

lemma all_vouts_complete: "unat v < 256 \<Longrightarrow> v \<in> set all_vouts"
  unfolding all_vouts_def set_map by (rule image_eqI [of _ _ "unat v"]) simp_all

text \<open>
  C10. A reversed output stays unspendable: once the deciding approval of a request has
  executed it, every output of the target transaction that was there (and is not a coinbase)
  is frozen, and no later state of the pallet lets the ledger accept a transaction that
  spends it.
\<close>

theorem reversed_output_is_unspendable:
  assumes "approve_reversal sha orig rid (r, u) = Inr (r', u')"
    and "executed_reversals r rid = None" and "executed_reversals r' rid \<noteq> None"
    and "reversal_requests r rid = Some q" and "utxo_set u (rq_target_txid q, v) = Some x"
    and "unat v < 256" and "\<not> utxo_is_coinbase x"
    and "rtranclp (rev_step sha) (r', u') (rb, ub)"
    and "inp \<in> set inputs" and "input_key inp = (rq_target_txid q, v)"
  shows "utxo_is_frozen rb (rq_target_txid q, v) \<and>
    (\<exists>e. submit_transaction sha' pq (utxo_is_frozen rb) dil orig' inputs outputs sigs s = Inl e)"
proof -
  from assms(1) have "utxo_is_frozen r' (rq_target_txid q, v)"
  proof (cases rule: approve_reversal_cases)
    case (executed p who g)
    let ?q2 = "p\<lparr>rq_approval_count := rq_approval_count p + 1, rq_status := Approved\<rparr>"
    let ?w = "((record_vote rid g (reversal_votes r rid @ [g]) (rq_approval_count p + 1) r)
        \<lparr>reversal_requests := (reversal_requests r)(rid \<mapsto> ?q2)\<rparr>, u)"
    have r': "r' = fst (execute_reversal sha rid ?q2 ?w)" using executed(10) by (metis fst_conv)
    have p: "p = q" using executed(4) assms(4) by simp
    show ?thesis
    proof (cases "utxo_is_frozen r (rq_target_txid q, v)")
      case True
      then show ?thesis unfolding r' by (intro execute_reversal_keeps_frozen) simp
    next
      case False
      then have "((rq_target_txid q, v), x) \<in> set (reversible (rq_target_txid q) all_vouts ?w)"
        using assms(5-7) all_vouts_complete by (simp add: reversible_in)
      then have "(rq_target_txid q, v) \<in> fst ` set (reversible (rq_target_txid q) all_vouts ?w)" by force
      from freeze_outputs_freezes [OF this distinct_all_vouts, of 0] p show ?thesis
        unfolding r' by (simp add: utxo_is_frozen_def execute_reversal_frozen)
    qed
  qed (use assms(2,3) in \<open>auto simp: expire_state_def record_vote_def\<close>)
  then have frozen: "utxo_is_frozen rb (rq_target_txid q, v)"
    using rev_steps_frozen [OF assms(8)] by simp
  have "\<exists>e. submit_transaction sha' pq (utxo_is_frozen rb) dil orig' inputs outputs sigs s = Inl e"
  proof (cases "submit_transaction sha' pq (utxo_is_frozen rb) dil orig' inputs outputs sigs s")
    case (Inr t)
    then obtain us where "tx_valid pq (utxo_is_frozen rb) dil inputs outputs sigs s us"
      using submit_transaction_InrD by blast
    then show ?thesis using assms(9,10) frozen by (auto simp: tx_valid_def)
  qed simp
  with frozen show ?thesis by blast
qed

theorem reversed_output_is_unspendable_witness:
  "\<exists>r' u'. approve_reversal example_sha (Signed 1) 60 (example_rev_state, example_rev_ledger) = Inr (r', u') \<and>
    utxo_is_frozen r' (5, 0) \<and>
    (\<exists>e. submit_transaction (\<lambda>_. 7) example_pq (utxo_is_frozen r') example_keys (Signed 1) example_inputs
       example_outputs example_signatures example_rev_ledger = Inl e)"
proof -
  obtain r' u' where w: "approve_reversal example_sha (Signed 1) 60 (example_rev_state, example_rev_ledger) = Inr (r', u')"
    and x: "executed_reversals r' 60 \<noteq> None" by (rule example_approved)
  have "reversal_requests example_rev_state 60 = Some example_request"
    "executed_reversals example_rev_state 60 = None" by (simp_all add: example_rev_state_def)
  then have "utxo_is_frozen r' (rq_target_txid example_request, 0) \<and>
    (\<exists>e. submit_transaction (\<lambda>_. 7) example_pq (utxo_is_frozen r') example_keys (Signed 1) example_inputs
       example_outputs example_signatures example_rev_ledger = Inl e)"
    by (intro reversed_output_is_unspendable [OF w _ x, where q = example_request and x = example_output and ub = u'
          and inp = "\<lparr>prev_txid = 5, prev_vout = 0\<rparr>"])
      (simp_all add: example_rev_ledger_facts example_request_def example_output_def example_inputs_def input_key_def)
  then show ?thesis using w by (auto simp: example_request_def)
qed

subsection \<open>Governance bounds\<close>

definition governance_inv :: "reversal_state \<Rightarrow> bool" where
  "governance_inv r \<longleftrightarrow> distinct (governors r) \<and> length (governors r) \<le> 10 \<and> 1 \<le> approval_threshold r \<and>
     unat (approval_threshold r) \<le> max 1 (length (governors r))"

lemma execute_reversal_governance:
  "governors (fst (execute_reversal sha rid rq w)) = governors (fst w) \<and>
   approval_threshold (fst (execute_reversal sha rid rq w)) = approval_threshold (fst w)"
proof -
  have frame: "governors (fst (snd (freeze_outputs txid vouts n w))) = governors (fst w) \<and>
    approval_threshold (fst (snd (freeze_outputs txid vouts n w))) = approval_threshold (fst w)" for txid vouts n w
  proof (induction vouts arbitrary: n w)
    case (Cons v vouts)
    have "governors (fst (freeze_utxo k x w)) = governors (fst w)"
      "approval_threshold (fst (freeze_utxo k x w)) = approval_threshold (fst w)" for k x
      by (cases w; simp add: freeze_utxo_def)+
    then show ?case
      using Cons.IH [of n w]
        Cons.IH [of "saturating_add n (utxo_amount (the (utxo_set (snd w) (txid, v))))"
          "freeze_utxo (txid, v) (the (utxo_set (snd w) (txid, v))) w"]
      by (cases "utxo_set (snd w) (txid, v)") simp_all
  qed simp
  obtain x t n where "fst (execute_reversal sha rid rq w) =
      (fst (snd (freeze_outputs (rq_target_txid rq) all_vouts 0 w)))
        \<lparr>executed_reversals := (executed_reversals (fst (snd (freeze_outputs (rq_target_txid rq) all_vouts 0 w))))(rid \<mapsto> x),
         reversal_requests := set_executed rid
           (reversal_requests (fst (snd (freeze_outputs (rq_target_txid rq) all_vouts 0 w)))),
         reversal_votes := (reversal_votes (fst (snd (freeze_outputs (rq_target_txid rq) all_vouts 0 w))))(rid := []),
         total_executed := t,
         rev_events := rev_events (fst (snd (freeze_outputs (rq_target_txid rq) all_vouts 0 w))) @ n\<rparr>"
    using execute_reversal_fst by blast
  then show ?thesis using frame [of "rq_target_txid rq" all_vouts 0 w] by simp
qed

lemma remove_governor_inv:
  assumes "governance_inv r" and "remove_governor orig a r = Inr r'"
  shows "governance_inv r'"
proof -
  let ?gs = "remove1 a (governors r)"
  have r': "governors r' = ?gs" "approval_threshold r' =
      (if ?gs \<noteq> [] \<and> of_nat (length ?gs) < approval_threshold r then of_nat (length ?gs) else approval_threshold r)"
    and mem: "a \<in> set (governors r)"
    using assms(2) by (auto simp: remove_governor_def Let_def list_ex_iff split: sum.splits if_splits)
  have G: "distinct (governors r)" "length (governors r) \<le> 10" "1 \<le> unat (approval_threshold r)"
    "unat (approval_threshold r) \<le> max 1 (length (governors r))"
    using assms(1) by (auto simp: governance_inv_def word_le_nat_alt)
  have len: "length ?gs = length (governors r) - 1" using mem by (simp add: length_remove1)
  have "length ?gs < 2 ^ 32" using len G(2) by simp
  then have n: "unat (of_nat (length ?gs) :: u32) = length ?gs" by (intro unat_of_nat_less) simp
  have "1 \<le> unat (approval_threshold r') \<and> unat (approval_threshold r') \<le> max 1 (length ?gs)"
  proof (cases "?gs = []")
    case True
    then have "length (governors r) \<le> 1" using len by simp
    then show ?thesis using True G by (simp add: r'(2))
  next
    case False
    then show ?thesis using G n by (auto simp: r'(2) word_less_nat_alt Suc_le_eq)
  qed
  then show ?thesis
    using G len by (simp add: governance_inv_def r'(1) word_le_nat_alt)
qed

lemma rev_step_governance: "rev_step sha w w' \<Longrightarrow> governance_inv (fst w) \<Longrightarrow> governance_inv (fst w')"
proof (induction rule: rev_step.induct)
  case (rev_submit orig txid sender reason w w')
  then show ?case
    by (cases w) (auto simp: submit_reversal_request_def Let_def governance_inv_def split: sum.splits if_splits option.splits)
next
  case (rev_approve orig rid w w')
  obtain r u where w: "w = (r, u)" by (cases w)
  from rev_approve(1) [unfolded w] rev_approve(2) w show ?case
    by (cases rule: approve_reversal_cases)
      (auto simp: governance_inv_def execute_reversal_governance expire_state_def record_vote_def)
next
  case (rev_expire orig rid w w')
  obtain r u where w: "w = (r, u)" by (cases w)
  from rev_expire(1) [unfolded w] rev_expire(2) w show ?case
    by (auto elim!: expire_request_InrD simp: governance_inv_def expire_state_def)
next
  case (rev_prune fuel orig age entries w w')
  then show ?case by (cases w) (auto dest!: prune_InrD simp: governance_inv_def)
next
  case (rev_add orig a r r' u)
  then show ?case
    by (auto simp: add_governor_def governance_inv_def try_push_def MAX_GOVERNORS_def list_ex_iff
        split: sum.splits if_splits)
next
  case (rev_remove orig a r r' u)
  then show ?case by (auto intro: remove_governor_inv)
qed (auto simp: set_reversal_window_def set_approval_threshold_def governance_inv_def split: sum.splits if_splits)

text \<open>
  The threshold stays reachable: from a state with distinct governors, at most ten of them,
  and a threshold between one and their number, every run keeps the governors distinct and at
  most ten and the threshold at least one and at most the number of governors (one when the
  list has become empty).
\<close>

theorem threshold_stays_meetable:
  assumes "rtranclp (rev_step sha) (r, u) (r', u')"
    and "distinct (governors r)" and "length (governors r) \<le> 10"
    and "1 \<le> approval_threshold r" and "unat (approval_threshold r) \<le> length (governors r)"
  shows "distinct (governors r') \<and> length (governors r') \<le> 10 \<and> 1 \<le> approval_threshold r' \<and>
    unat (approval_threshold r') \<le> max 1 (length (governors r'))"
proof -
  have "governance_inv (fst (r, u))" using assms(2-5) by (simp add: governance_inv_def)
  from assms(1) this have "governance_inv (fst (r', u'))"
    by (induction rule: rtranclp_induct) (auto intro: rev_step_governance)
  then show ?thesis by (simp add: governance_inv_def)
qed

theorem threshold_stays_meetable_witness:
  "1 \<le> approval_threshold (example_rev_state\<lparr>governors := [], rev_events := rev_events example_rev_state @ [GovernorRemoved 32]\<rparr>)"
proof -
  have "remove_governor Root 32 example_rev_state =
      Inr (example_rev_state\<lparr>governors := [], rev_events := rev_events example_rev_state @ [GovernorRemoved 32]\<rparr>)"
    by (simp add: remove_governor_def example_rev_state_def Let_def)
  from threshold_stays_meetable [OF r_into_rtranclp [where r = "rev_step example_sha", OF rev_remove [OF this]]] show ?thesis
    by (simp add: example_rev_state_def)
qed

subsection \<open>The pruning loop\<close>

lemma prune_scan_returns:
  assumes "cutoff < - 1" and "unat cutoff + 1 - unat height < fuel"
  shows "prune_scan fuel idx cutoff max_entries height pruned cleaned m \<noteq> None"
  using assms(2)
proof (induction fuel arbitrary: height pruned cleaned m)
  case (Suc fuel)
  show ?case
  proof (cases "height \<le> cutoff \<and> pruned < max_entries")
    case True
    have "unat cutoff + 1 < 2 ^ 64" using assms(1) by (simp add: word_less_nat_alt unat_max_word)
    then have "unat (saturating_add height 1) = unat height + 1"
      using True by (simp add: unat_saturating_add word_le_nat_alt)
    then have "unat cutoff + 1 - unat (saturating_add height 1) < fuel"
      using Suc.prems True unfolding word_le_nat_alt by linarith
    then show ?thesis using Suc.IH by (simp add: Let_def case_prod_unfold)
  qed auto
qed simp

lemma prune_start_span:
  "unat (snd (prune_start h age entries)) - unat (fst (prune_start h age entries)) \<le> max (4 * unat entries) 1000"
proof -
  have "unat (saturating_mul (ucast entries :: u64) 4) = 4 * unat entries"
  proof -
    have "unat (ucast entries :: u64) = unat entries"
      using u32_less [of entries] by (simp add: unsigned_ucast_eq take_bit_nat_eq_self)
    then show ?thesis using u32_less [of entries] by (simp add: unat_saturating_mul)
  qed
  then show ?thesis by (simp add: prune_start_def Let_def unat_saturating_sub unat_max)
qed

text \<open>
  Pruning returns: unless the cutoff is the largest height there is, the scan ends after at
  most \<open>max (4 * max_entries) 1000 + 1\<close> heights, so this much fuel always gives a result.
\<close>

theorem prune_expired_reversals_returns:
  assumes "saturating_sub (current_height u) age < - 1" and "max (4 * unat entries) 1000 + 1 < fuel"
  shows "prune_expired_reversals fuel orig age entries (r, u) \<noteq> None"
proof -
  let ?p = "prune_start (current_height u) age entries"
  have cutoff: "snd ?p < - 1" using assms(1) by (simp add: prune_start_def Let_def)
  have "unat (snd ?p) + 1 - unat (fst ?p) < fuel"
    using prune_start_span [of "current_height u" age entries] assms(2) by linarith
  from prune_scan_returns [OF cutoff this]
  obtain y where "prune_scan fuel (expiry_index r) (snd ?p) entries (fst ?p) 0 [] (expired_reversals r) = Some y"
    by blast
  then show ?thesis
    by (cases orig) (auto simp: prune_expired_reversals_def case_prod_unfold Let_def)
qed

theorem prune_expired_reversals_returns_witness:
  "prune_expired_reversals 1002 Root 100 10 (example_rev_state, set_block_height 300000 utxo_empty) \<noteq> None"
  by (rule prune_expired_reversals_returns) (simp_all add: saturating_sub_def word_less_nat_alt unat_max_word)

text \<open>
  The recipient of a reversal is whoever the requester names: whether a request is accepted
  does not depend on the address given as the original sender, and an execution pays the
  reversed amount to that address.
\<close>

theorem reversal_recipient_is_unchecked:
  "(\<exists>w'. submit_reversal_request sha orig txid sender reason w = Inr w') =
     (\<exists>w'. submit_reversal_request sha orig txid sender' reason w = Inr w') \<and>
   (\<exists>x. executed_reversals (fst (execute_reversal sha rid q w)) rid = Some x \<and>
     ex_recipient x = rq_original_sender q)"
proof
  show "(\<exists>w'. submit_reversal_request sha orig txid sender reason w = Inr w') =
     (\<exists>w'. submit_reversal_request sha orig txid sender' reason w = Inr w')"
    by (cases w) (auto simp: submit_reversal_request_def Let_def split: sum.splits)
  show "\<exists>x. executed_reversals (fst (execute_reversal sha rid q w)) rid = Some x \<and>
     ex_recipient x = rq_original_sender q"
    using execute_reversal_fields(3) [of sha rid q w] by auto
qed

end
