(* ===== verification/QvmAnchor.thy ===== *)
theory QvmAnchor
  imports Primitives Retention
begin

text \<open>
  The anchor of the external QVM (\<open>substrate-node/pallets/qbc-qvm-anchor/src/lib.rs\<close>): its
  storage, its genesis and its three dispatchables. The history of state roots is a retained
  history in the sense of the locale of theory Retention.
\<close>

definition MAX_ENDPOINT_LEN :: nat where
  [qbc_consts]: "MAX_ENDPOINT_LEN = 256"

definition STATE_ROOT_RETENTION_WINDOW :: u64 where
  [qbc_consts]: "STATE_ROOT_RETENTION_WINDOW = 100000"

datatype qvm_event =
    StateRootUpdated u64 h256
  | ContractDeployed h256 u64
  | EndpointUpdated

datatype qvm_error = ZeroStateRoot

record qvm_state =
  qvm_state_root :: h256
  qvm_endpoint :: "u8 list"
  total_contracts :: u64
  total_gas_consumed :: u128
  state_root_history :: "u64 \<rightharpoonup> h256"
  qvm_events :: "qvm_event list"

text \<open>The storage before genesis holds the default of every item.\<close>

definition qvm_default :: qvm_state where
  "qvm_default = \<lparr>qvm_state_root = 0, qvm_endpoint = [], total_contracts = 0,
     total_gas_consumed = 0, state_root_history = Map.empty, qvm_events = []\<rparr>"

definition qvm_genesis :: "u8 list \<Rightarrow> qvm_state \<Rightarrow> qvm_state" where
  "qvm_genesis endpoint s =
     (if length endpoint \<le> MAX_ENDPOINT_LEN then s\<lparr>qvm_endpoint := endpoint\<rparr> else s)"

definition record_state_root :: "u64 \<Rightarrow> h256 \<Rightarrow> qvm_state \<Rightarrow> qvm_state" where
  "record_state_root block_height root s =
     (let m = (state_root_history s)(block_height \<mapsto> root)
      in s\<lparr>state_root_history :=
             (if STATE_ROOT_RETENTION_WINDOW < block_height
              then m(saturating_sub block_height STATE_ROOT_RETENTION_WINDOW := None) else m)\<rparr>)"

definition update_state_root ::
  "origin \<Rightarrow> u64 \<Rightarrow> h256 \<Rightarrow> qvm_state \<Rightarrow> qvm_error dispatch_error + qvm_state" where
  "update_state_root orig block_height root s =
     (case ensure_root orig of Inl e \<Rightarrow> Inl e
      | Inr _ \<Rightarrow>
        if root = 0 then Inl (Module ZeroStateRoot)
        else let s1 = record_state_root block_height root (s\<lparr>qvm_state_root := root\<rparr>)
             in Inr (s1\<lparr>qvm_events := qvm_events s1 @ [StateRootUpdated block_height root]\<rparr>))"

text \<open>The endpoint of the call is a bounded vector: decoding a longer one fails before dispatch.\<close>

definition set_qvm_endpoint ::
  "origin \<Rightarrow> u8 list \<Rightarrow> qvm_state \<Rightarrow> qvm_error dispatch_error + qvm_state" where
  "set_qvm_endpoint orig endpoint s =
     (case ensure_root orig of Inl e \<Rightarrow> Inl e
      | Inr _ \<Rightarrow> Inr (s\<lparr>qvm_endpoint := endpoint, qvm_events := qvm_events s @ [EndpointUpdated]\<rparr>))"

definition record_deployment ::
  "origin \<Rightarrow> h256 \<Rightarrow> u64 \<Rightarrow> qvm_state \<Rightarrow> qvm_error dispatch_error + qvm_state" where
  "record_deployment orig contract_address gas_used s =
     (case ensure_root orig of Inl e \<Rightarrow> Inl e
      | Inr _ \<Rightarrow> Inr (s\<lparr>total_contracts := saturating_add (total_contracts s) 1,
                      total_gas_consumed := saturating_add (total_gas_consumed s) (ucast gas_used),
                      qvm_events := qvm_events s @ [ContractDeployed contract_address gas_used]\<rparr>))"

section \<open>The state root history is a retained history\<close>

lemma state_root_history_record:
  "state_root_history (record_state_root h v s) =
     (let m = (state_root_history s)(h \<mapsto> v)
      in if STATE_ROOT_RETENTION_WINDOW < h then m(saturating_sub h STATE_ROOT_RETENTION_WINDOW := None) else m)"
  by (simp add: record_state_root_def Let_def)

interpretation qr: retention STATE_ROOT_RETENTION_WINDOW state_root_history record_state_root
  by unfold_locales (simp_all add: qbc_consts state_root_history_record)

text \<open>Roots recorded for the heights after \<open>h\<close>, one call per block.\<close>

fun update_run :: "u64 \<Rightarrow> h256 list \<Rightarrow> qvm_state \<Rightarrow> qvm_error dispatch_error + qvm_state" where
  "update_run h [] s = Inr s"
| "update_run h (r # rs) s =
     (case update_state_root Root (h + 1) r s of Inl e \<Rightarrow> Inl e | Inr s' \<Rightarrow> update_run (h + 1) rs s')"

lemma record_run_cong:
  "state_root_history s = state_root_history t \<Longrightarrow>
   state_root_history (qr.record_run h rs s) = state_root_history (qr.record_run h rs t)"
proof (induction rs arbitrary: h s t)
  case (Cons r rs)
  show ?case by simp (rule Cons.IH, simp add: state_root_history_record Cons.prems)
qed simp

lemma update_run_history:
  assumes "0 \<notin> set rs"
  shows "\<exists>s'. update_run h rs s = Inr s' \<and> state_root_history s' = state_root_history (qr.record_run h rs s) \<and>
    qvm_state_root s' = (if rs = [] then qvm_state_root s else last rs)"
  using assms
proof (induction rs arbitrary: h s)
  case (Cons r rs)
  obtain s1 where s1: "update_state_root Root (h + 1) r s = Inr s1"
    "state_root_history s1 = state_root_history (record_state_root (h + 1) r s)" "qvm_state_root s1 = r"
    using Cons.prems by (auto simp: update_state_root_def record_state_root_def Let_def)
  obtain s' where "update_run (h + 1) rs s1 = Inr s'"
    "state_root_history s' = state_root_history (qr.record_run (h + 1) rs s1)"
    "qvm_state_root s' = (if rs = [] then r else last rs)"
    using Cons.IH [of "h + 1" s1] Cons.prems s1(3) by auto
  with s1 show ?case using record_run_cong [OF s1(2)] by auto
qed simp

text \<open>
  State roots recorded block after block are all accepted when none of them is zero; each
  of the last hundred thousand can be looked up under its height, the current root is the last
  one, and the storage holds at most one entry per height of the window.
\<close>

theorem state_roots_retained:
  assumes "0 \<notin> set rs" and "rs \<noteq> []" and "unat h + length rs < 2 ^ 64" and "state_root_history s = Map.empty"
  shows "\<exists>s'. update_run h rs s = Inr s' \<and> qvm_state_root s' = last rs \<and>
    (\<forall>i < length rs. length rs - i \<le> unat STATE_ROOT_RETENTION_WINDOW \<longrightarrow>
       state_root_history s' (h + of_nat (Suc i)) = Some (rs ! i)) \<and>
    card (dom (state_root_history s')) \<le> unat STATE_ROOT_RETENTION_WINDOW + 1"
proof -
  have "qr.within h s" using assms(4) by (simp add: qr.within_def)
  note W = qr.within_card [OF qr.record_run_within [OF this assms(3)]]
  obtain s' where "update_run h rs s = Inr s'" "state_root_history s' = state_root_history (qr.record_run h rs s)"
    "qvm_state_root s' = last rs"
    using update_run_history [OF assms(1)] assms(2) by (metis (no_types))
  then show ?thesis using W qr.run_lookup [OF assms(3)] by auto
qed

theorem state_roots_retained_witness:
  "\<exists>s'. update_run 41 [7, 7, 9] (qvm_genesis (ascii ''http://localhost:50052'') qvm_default) = Inr s' \<and>
     state_root_history s' 43 = Some 7 \<and> state_root_history s' 44 = Some 9"
proof -
  let ?s = "qvm_genesis (ascii ''http://localhost:50052'') qvm_default"
  have "state_root_history ?s = Map.empty" by (simp add: qvm_genesis_def qvm_default_def)
  from state_roots_retained [of "[7, 7, 9]" 41, OF _ _ _ this]
  obtain s' where s': "update_run 41 [7, 7, 9] ?s = Inr s'"
    "\<forall>i < 3. 3 - i \<le> unat STATE_ROOT_RETENTION_WINDOW \<longrightarrow> state_root_history s' (41 + of_nat (Suc i)) = Some ([7, 7, 9] ! i)"
    by (auto simp: numeral_3_eq_3)
  from s'(2) [rule_format, of 1] s'(2) [rule_format, of 2] s'(1) show ?thesis
    by (simp add: qbc_consts)
qed

section \<open>Runs of the pallet\<close>

inductive qvm_step :: "qvm_state \<Rightarrow> qvm_state \<Rightarrow> bool" where
  step_root: "update_state_root orig h r s = Inr s' \<Longrightarrow> qvm_step s s'"
| step_endpoint: "set_qvm_endpoint orig endpoint s = Inr s' \<Longrightarrow> length endpoint \<le> MAX_ENDPOINT_LEN \<Longrightarrow> qvm_step s s'"
| step_deployment: "record_deployment orig addr gas s = Inr s' \<Longrightarrow> qvm_step s s'"

text \<open>The events of the run, read as an independent account of the deployments.\<close>

fun deployed_gas :: "qvm_event \<Rightarrow> nat option" where
  "deployed_gas (ContractDeployed _ gas) = Some (unat gas)"
| "deployed_gas _ = None"

definition qvm_inv :: "qvm_state \<Rightarrow> bool" where
  "qvm_inv s \<longleftrightarrow> length (qvm_endpoint s) \<le> MAX_ENDPOINT_LEN \<and>
     unat (total_contracts s) = min (length (List.map_filter deployed_gas (qvm_events s))) (2 ^ 64 - 1) \<and>
     unat (total_gas_consumed s) = min (sum_list (List.map_filter deployed_gas (qvm_events s))) (2 ^ 128 - 1) \<and>
     0 \<notin> ran (state_root_history s)"

lemma map_filter_snoc:
  "List.map_filter f (xs @ [x]) = List.map_filter f xs @ (case f x of None \<Rightarrow> [] | Some y \<Rightarrow> [y])"
  by (simp add: List.map_filter_def split: option.splits)

lemma update_state_root_InrD:
  assumes "update_state_root orig h r s = Inr s'"
  shows "orig = Root" "r \<noteq> 0" "qvm_state_root s' = r"
    "state_root_history s' = state_root_history (record_state_root h r s)"
    "qvm_endpoint s' = qvm_endpoint s" "total_contracts s' = total_contracts s"
    "total_gas_consumed s' = total_gas_consumed s" "qvm_events s' = qvm_events s @ [StateRootUpdated h r]"
  using assms
  by (cases orig; auto simp: update_state_root_def record_state_root_def Let_def split: if_splits)+

lemma record_deployment_InrD:
  assumes "record_deployment orig addr gas s = Inr s'"
  shows "orig = Root" "s' = s\<lparr>total_contracts := saturating_add (total_contracts s) 1,
    total_gas_consumed := saturating_add (total_gas_consumed s) (ucast gas),
    qvm_events := qvm_events s @ [ContractDeployed addr gas]\<rparr>"
  using assms by (cases orig; auto simp: record_deployment_def)+

lemma set_qvm_endpoint_InrD:
  assumes "set_qvm_endpoint orig endpoint s = Inr s'"
  shows "orig = Root" "s' = s\<lparr>qvm_endpoint := endpoint, qvm_events := qvm_events s @ [EndpointUpdated]\<rparr>"
  using assms by (cases orig; auto simp: set_qvm_endpoint_def)+

lemma qvm_step_inv:
  assumes "qvm_step s s'" and "qvm_inv s"
  shows "qvm_inv s'"
  using assms(1)
proof (cases rule: qvm_step.cases)
  case (step_root orig h r)
  note U = update_state_root_InrD [OF step_root]
  have "0 \<notin> ran (state_root_history s')"
    using assms(2) U(2) unfolding U(4)
    by (auto simp: qvm_inv_def record_state_root_def Let_def ran_def split: if_splits)
  then show ?thesis using assms(2) by (simp add: qvm_inv_def U map_filter_snoc)
next
  case (step_endpoint orig endpoint)
  then show ?thesis using assms(2) set_qvm_endpoint_InrD [OF step_endpoint(1)] by (simp add: qvm_inv_def map_filter_snoc)
next
  case (step_deployment orig addr gas)
  have gas: "unat (ucast gas :: u128) = unat gas" by (simp add: unsigned_ucast_eq take_bit_nat_eq_self u64_less [THEN order.strict_trans])
  show ?thesis using assms(2) record_deployment_InrD [OF step_deployment]
    by (auto simp: qvm_inv_def map_filter_snoc unat_saturating_add gas min_def)
qed

text \<open>
  Over every run of the pallet from its genesis the endpoint fits its bound, the contract
  counter and the gas counter are the saturated count and sum over the deployment events, and
  no stored state root is zero.
\<close>

theorem qvm_accounts_are_the_events:
  assumes "rtranclp qvm_step (qvm_genesis endpoint qvm_default) s"
  shows "length (qvm_endpoint s) \<le> 256 \<and>
     unat (total_contracts s) = min (length (List.map_filter deployed_gas (qvm_events s))) (2 ^ 64 - 1) \<and>
     unat (total_gas_consumed s) = min (sum_list (List.map_filter deployed_gas (qvm_events s))) (2 ^ 128 - 1) \<and>
     0 \<notin> ran (state_root_history s)"
  using assms
proof -
  have "qvm_inv s"
    using assms
  proof (induction rule: rtranclp_induct)
    case base
    then show ?case
      by (simp add: qvm_inv_def qvm_genesis_def qvm_default_def qbc_consts map_filter_simps)
  next
    case (step y z)
    from qvm_step_inv [OF step.hyps(2) step.IH] show ?case .
  qed
  then show ?thesis by (simp add: qvm_inv_def qbc_consts)
qed

theorem qvm_accounts_are_the_events_witness:
  "\<exists>s'. record_deployment Root 5 21000 (qvm_genesis [] qvm_default) = Inr s' \<and>
     unat (total_contracts s') = 1 \<and> unat (total_gas_consumed s') = 21000"
proof -
  obtain s' where s': "record_deployment Root 5 21000 (qvm_genesis [] qvm_default) = Inr s'"
    by (simp add: record_deployment_def)
  then have run: "rtranclp qvm_step (qvm_genesis [] qvm_default) s'"
    by (intro r_into_rtranclp step_deployment)
  have "qvm_events s' = [ContractDeployed 5 21000]"
    using record_deployment_InrD(2) [OF s'] by (simp add: qvm_genesis_def qvm_default_def)
  with qvm_accounts_are_the_events [OF run] s' show ?thesis by (simp add: map_filter_simps)
qed

end
