(* ===== verification/AetherAnchor.thy ===== *)
theory AetherAnchor
  imports Primitives Retention
begin

text \<open>
  The anchor of the Aether Tree engine (\<open>substrate-node/pallets/qbc-aether-anchor/src/lib.rs\<close>):
  its storage, its genesis, the recording of a block's Phi measurement and the endpoint call.
  The recording handler writes before it fails on one branch, so it returns the state it
  reached next to its result and is run through \<open>dispatch\<close>. The Phi history is a retained
  history in the sense of the locale of theory Retention.
\<close>

definition PHI_HISTORY_RETENTION_WINDOW :: u64 where
  [qbc_consts]: "PHI_HISTORY_RETENTION_WINDOW = 100000"

definition MAX_PHI_DELTA_SCALED :: u64 where
  [qbc_consts]: "MAX_PHI_DELTA_SCALED = 500"

definition PHI_WINDOW_SIZE :: u64 where
  [qbc_consts]: "PHI_WINDOW_SIZE = 10"

definition AETHER_ENDPOINT_LEN :: nat where
  [qbc_consts]: "AETHER_ENDPOINT_LEN = 256"

datatype aether_event =
    PhiMeasured u64 u64
  | ConsciousnessEmergence u64 u64
  | KnowledgeRootUpdated u64 h256
  | ThoughtProofRecorded u64 h256
  | AetherEndpointUpdated
  | NeuralPayloadRecorded u64 h256

datatype aether_error = PhiDeltaTooLarge | NotValidator

record aether_state =
  knowledge_root :: h256
  current_phi :: u64
  thought_proof_hash :: h256
  consciousness_events :: u64
  knowledge_node_count :: u64
  knowledge_edge_count :: u64
  reasoning_ops :: u64
  phi_history :: "u64 \<rightharpoonup> phi_measurement"
  aether_endpoint :: "u8 list"
  recent_phi_values :: "u64 \<Rightarrow> u64" \<comment> \<open>a value query: zero where nothing is stored\<close>
  phi_window_index :: u64
  phi_outlier_count :: u64
  neural_payload_hash :: h256
  aether_events :: "aether_event list"

definition aether_default :: aether_state where
  "aether_default = \<lparr>knowledge_root = 0, current_phi = 0, thought_proof_hash = 0,
     consciousness_events = 0, knowledge_node_count = 0, knowledge_edge_count = 0,
     reasoning_ops = 0, phi_history = Map.empty, aether_endpoint = [],
     recent_phi_values = (\<lambda>_. 0), phi_window_index = 0, phi_outlier_count = 0,
     neural_payload_hash = 0, aether_events = []\<rparr>"

definition aether_genesis :: "u8 list \<Rightarrow> aether_state \<Rightarrow> aether_state" where
  "aether_genesis endpoint s =
     (let s1 = s\<lparr>current_phi := 0, knowledge_node_count := 0, knowledge_edge_count := 0, consciousness_events := 0\<rparr>;
          s2 = (if length endpoint \<le> AETHER_ENDPOINT_LEN then s1\<lparr>aether_endpoint := endpoint\<rparr> else s1);
          genesis_measurement = \<lparr>phi_block_height = 0, phi_scaled = 0, knowledge_nodes = 0, knowledge_edges = 0\<rparr>
      in s2\<lparr>phi_history := (phi_history s2)(0 \<mapsto> genesis_measurement)\<rparr>)"

text \<open>The arguments of the call, as the extrinsic carries them.\<close>

record block_state =
  bs_block_height :: u64
  bs_knowledge_root :: h256
  bs_phi_scaled :: u64
  bs_knowledge_nodes :: u64
  bs_knowledge_edges :: u64
  bs_thought_proof_hash :: h256
  bs_reasoning_ops :: u64
  bs_neural_payload_hash :: h256

definition recorder_allowed :: "account_id list \<Rightarrow> origin \<Rightarrow> aether_error dispatch_error + unit" where
  "recorder_allowed validators orig =
     (case (ensure_root orig :: aether_error dispatch_error + unit) of
        Inr _ \<Rightarrow> Inr ()
      | Inl _ \<Rightarrow>
        (case ensure_signed orig of
           Inl e \<Rightarrow> Inl e
         | Inr who \<Rightarrow> if who \<in> set validators then Inr () else Inl (Module NotValidator)))"

definition phi_delta :: "u64 \<Rightarrow> u64 \<Rightarrow> u64" where
  "phi_delta phi prev_phi = (if prev_phi < phi then phi - prev_phi else prev_phi - phi)"

definition push_recent_phi :: "u64 \<Rightarrow> aether_state \<Rightarrow> aether_state" where
  "push_recent_phi phi s =
     (let idx = phi_window_index s
      in s\<lparr>recent_phi_values := (recent_phi_values s)(idx mod PHI_WINDOW_SIZE := phi),
           phi_window_index := idx + 1\<rparr>)"

definition store_measurement :: "u64 \<Rightarrow> phi_measurement \<Rightarrow> aether_state \<Rightarrow> aether_state" where
  "store_measurement block_height measurement s =
     (let m = (phi_history s)(block_height \<mapsto> measurement)
      in s\<lparr>phi_history :=
             (if PHI_HISTORY_RETENTION_WINDOW < block_height
              then m(saturating_sub block_height PHI_HISTORY_RETENTION_WINDOW := None) else m)\<rparr>)"

text \<open>The writes of an accepted measurement, in the order of the handler.\<close>

definition accept_measurement :: "block_state \<Rightarrow> u64 \<Rightarrow> aether_state \<Rightarrow> aether_state" where
  "accept_measurement b prev_phi s =
     (let h = bs_block_height b; phi = bs_phi_scaled b;
          s1 = push_recent_phi phi s;
          s2 = s1\<lparr>knowledge_root := bs_knowledge_root b, current_phi := phi,
                  thought_proof_hash := bs_thought_proof_hash b,
                  knowledge_node_count := bs_knowledge_nodes b,
                  knowledge_edge_count := bs_knowledge_edges b,
                  reasoning_ops := saturating_add (reasoning_ops s1) (bs_reasoning_ops b)\<rparr>;
          measurement = \<lparr>phi_block_height = h, phi_scaled = phi,
                         knowledge_nodes = bs_knowledge_nodes b, knowledge_edges = bs_knowledge_edges b\<rparr>;
          s3 = store_measurement h measurement s2;
          s4 = (if PHI_THRESHOLD_SCALED \<le> phi \<and> prev_phi < PHI_THRESHOLD_SCALED
                then s3\<lparr>consciousness_events := saturating_add (consciousness_events s3) 1,
                        aether_events := aether_events s3 @ [ConsciousnessEmergence h phi]\<rparr>
                else s3);
          s5 = s4\<lparr>aether_events := aether_events s4 @
                  [PhiMeasured h phi, KnowledgeRootUpdated h (bs_knowledge_root b),
                   ThoughtProofRecorded h (bs_thought_proof_hash b)]\<rparr>
      in if bs_neural_payload_hash b \<noteq> 0
         then s5\<lparr>neural_payload_hash := bs_neural_payload_hash b,
                 aether_events := aether_events s5 @ [NeuralPayloadRecorded h (bs_neural_payload_hash b)]\<rparr>
         else s5)"

definition record_block_state ::
  "account_id list \<Rightarrow> origin \<Rightarrow> block_state \<Rightarrow> aether_state \<Rightarrow>
     (aether_error dispatch_error + unit) \<times> aether_state" where
  "record_block_state validators orig b s =
     (case recorder_allowed validators orig of
        Inl e \<Rightarrow> (Inl e, s)
      | Inr _ \<Rightarrow>
        (let prev_phi = current_phi s; delta = phi_delta (bs_phi_scaled b) prev_phi
         in if 0 < prev_phi \<and> MAX_PHI_DELTA_SCALED < delta
            then (Inl (Module PhiDeltaTooLarge), s\<lparr>phi_outlier_count := saturating_add (phi_outlier_count s) 1\<rparr>)
            else (Inr (), accept_measurement b prev_phi s)))"

definition set_aether_endpoint ::
  "origin \<Rightarrow> u8 list \<Rightarrow> aether_state \<Rightarrow> (aether_error dispatch_error + unit) \<times> aether_state" where
  "set_aether_endpoint orig endpoint s =
     (case ensure_root orig of Inl e \<Rightarrow> (Inl e, s)
      | Inr _ \<Rightarrow> (Inr (), s\<lparr>aether_endpoint := endpoint, aether_events := aether_events s @ [AetherEndpointUpdated]\<rparr>))"

section \<open>What an accepted measurement leaves\<close>

lemma store_measurement_frame [simp]:
  "current_phi (store_measurement h m s) = current_phi s"
  "consciousness_events (store_measurement h m s) = consciousness_events s"
  "reasoning_ops (store_measurement h m s) = reasoning_ops s"
  "recent_phi_values (store_measurement h m s) = recent_phi_values s"
  "phi_window_index (store_measurement h m s) = phi_window_index s"
  "phi_outlier_count (store_measurement h m s) = phi_outlier_count s"
  "knowledge_root (store_measurement h m s) = knowledge_root s"
  "aether_endpoint (store_measurement h m s) = aether_endpoint s"
  by (simp_all add: store_measurement_def Let_def)

lemma push_recent_phi_frame [simp]:
  "consciousness_events (push_recent_phi p s) = consciousness_events s"
  "reasoning_ops (push_recent_phi p s) = reasoning_ops s"
  "phi_history (push_recent_phi p s) = phi_history s"
  "phi_outlier_count (push_recent_phi p s) = phi_outlier_count s"
  "aether_endpoint (push_recent_phi p s) = aether_endpoint s"
  "recent_phi_values (push_recent_phi p s) =
     (recent_phi_values s)(phi_window_index s mod PHI_WINDOW_SIZE := p)"
  "phi_window_index (push_recent_phi p s) = phi_window_index s + 1"
  by (simp_all add: push_recent_phi_def Let_def)

definition measurement_of :: "block_state \<Rightarrow> phi_measurement" where
  "measurement_of b = \<lparr>phi_block_height = bs_block_height b, phi_scaled = bs_phi_scaled b,
     knowledge_nodes = bs_knowledge_nodes b, knowledge_edges = bs_knowledge_edges b\<rparr>"

definition crosses :: "u64 \<Rightarrow> u64 \<Rightarrow> bool" where
  "crosses prev phi \<longleftrightarrow> prev < PHI_THRESHOLD_SCALED \<and> PHI_THRESHOLD_SCALED \<le> phi"

lemma accept_measurement_fields:
  "current_phi (accept_measurement b prev s) = bs_phi_scaled b"
  "consciousness_events (accept_measurement b prev s) =
     (if crosses prev (bs_phi_scaled b) then saturating_add (consciousness_events s) 1 else consciousness_events s)"
  "phi_outlier_count (accept_measurement b prev s) = phi_outlier_count s"
  "recent_phi_values (accept_measurement b prev s) =
     (recent_phi_values s)(phi_window_index s mod PHI_WINDOW_SIZE := bs_phi_scaled b)"
  "phi_window_index (accept_measurement b prev s) = phi_window_index s + 1"
  "phi_history (accept_measurement b prev s) =
     phi_history (store_measurement (bs_block_height b) (measurement_of b) s)"
  "knowledge_root (accept_measurement b prev s) = bs_knowledge_root b"
  "aether_endpoint (accept_measurement b prev s) = aether_endpoint s"
  by (simp_all add: accept_measurement_def Let_def crosses_def measurement_of_def)
     (simp_all add: store_measurement_def Let_def measurement_of_def)

lemma recorder_allowed_iff:
  "recorder_allowed validators orig = Inr u \<longleftrightarrow> orig = Root \<or> (\<exists>who. orig = Signed who \<and> who \<in> set validators)"
  by (cases orig) (auto simp: recorder_allowed_def)

lemma dispatch_InrD:
  assumes "dispatch (record_block_state validators orig b) s = (Inr u, s')"
  shows "recorder_allowed validators orig = Inr ()"
    and "current_phi s = 0 \<or> phi_delta (bs_phi_scaled b) (current_phi s) \<le> MAX_PHI_DELTA_SCALED"
    and "s' = accept_measurement b (current_phi s) s"
  using assms
  by (auto simp: dispatch_def record_block_state_def Let_def not_less
      split: sum.splits if_splits)

lemma unat_phi_delta: "unat (phi_delta a b) = (unat a - unat b) + (unat b - unat a)"
  by (auto simp: phi_delta_def unat_sub word_less_nat_alt word_le_nat_alt)

section \<open>The Phi history is a retained history\<close>

lemma phi_history_store:
  "phi_history (store_measurement h v s) =
     (let m = (phi_history s)(h \<mapsto> v)
      in if PHI_HISTORY_RETENTION_WINDOW < h then m(saturating_sub h PHI_HISTORY_RETENTION_WINDOW := None) else m)"
  by (simp add: store_measurement_def Let_def)

interpretation pr: retention PHI_HISTORY_RETENTION_WINDOW phi_history store_measurement
  by unfold_locales (simp_all add: qbc_consts phi_history_store)

section \<open>Runs of the pallet\<close>

inductive aether_step :: "account_id list \<Rightarrow> aether_state \<Rightarrow> aether_state \<Rightarrow> bool" for validators where
  aether_record: "aether_step validators s (snd (dispatch (record_block_state validators orig b) s))"
| aether_endpoint_call: "length endpoint \<le> AETHER_ENDPOINT_LEN \<Longrightarrow>
    aether_step validators s (snd (dispatch (set_aether_endpoint orig endpoint) s))"

text \<open>The Phi values a run accepted, oldest first, read off its events.\<close>

fun measured_phi :: "aether_event \<Rightarrow> u64 option" where
  "measured_phi (PhiMeasured _ phi) = Some phi"
| "measured_phi _ = None"

definition phis :: "aether_state \<Rightarrow> u64 list" where
  "phis s = List.map_filter measured_phi (aether_events s)"

fun crossings :: "u64 list \<Rightarrow> nat" where
  "crossings (p # q # r) = (if crosses p q then 1 else 0) + crossings (q # r)"
| "crossings _ = 0"

lemma crossings_snoc:
  "ps \<noteq> [] \<Longrightarrow> crossings (ps @ [q]) = crossings ps + (if crosses (last ps) q then 1 else 0)"
  by (induction ps rule: crossings.induct) auto

definition near :: "u64 \<Rightarrow> u64 \<Rightarrow> bool" where
  "near prev phi \<longleftrightarrow> prev = 0 \<or> unat phi \<le> unat prev + 500 \<and> unat prev \<le> unat phi + 500"

lemma near_snoc:
  "ps \<noteq> [] \<Longrightarrow> successively near (ps @ [q]) \<longleftrightarrow> successively near ps \<and> near (last ps) q"
  by (simp add: successively_append_iff)

definition aether_inv :: "aether_state \<Rightarrow> bool" where
  "aether_inv s \<longleftrightarrow>
     current_phi s = last (0 # phis s) \<and> successively near (0 # phis s) \<and>
     unat (consciousness_events s) = min (crossings (0 # phis s)) (2 ^ 64 - 1) \<and>
     phi_outlier_count s = 0 \<and> length (aether_endpoint s) \<le> AETHER_ENDPOINT_LEN"

lemma accept_measurement_phis: "phis (accept_measurement b prev s) = phis s @ [bs_phi_scaled b]"
  by (simp add: phis_def accept_measurement_def Let_def List.map_filter_def store_measurement_def push_recent_phi_def)

lemma aether_call_cases:
  obtains (rejected) "snd (dispatch (record_block_state validators orig b) s) = s"
  | (accepted) u where "dispatch (record_block_state validators orig b) s =
      (Inr u, accept_measurement b (current_phi s) s)"
      "current_phi s = 0 \<or> phi_delta (bs_phi_scaled b) (current_phi s) \<le> MAX_PHI_DELTA_SCALED"
proof (cases "fst (dispatch (record_block_state validators orig b) s)")
  case (Inl e)
  from rejected [OF dispatch_error_rolls_back [OF Inl]] show ?thesis .
next
  case (Inr u)
  then obtain s' where *: "dispatch (record_block_state validators orig b) s = (Inr u, s')"
    by (cases "dispatch (record_block_state validators orig b) s") auto
  show ?thesis using accepted dispatch_InrD [OF *] * by blast
qed

lemma endpoint_call_frame:
  assumes "s' = snd (dispatch (set_aether_endpoint orig endpoint) s)"
  shows "current_phi s' = current_phi s" "phis s' = phis s" "consciousness_events s' = consciousness_events s"
    "phi_outlier_count s' = phi_outlier_count s" "recent_phi_values s' = recent_phi_values s"
    "phi_window_index s' = phi_window_index s" "phi_history s' = phi_history s"
    "aether_endpoint s' = aether_endpoint s \<or> aether_endpoint s' = endpoint"
  unfolding assms
  by (cases orig; simp add: dispatch_def set_aether_endpoint_def phis_def List.map_filter_def)+

lemma aether_step_inv:
  assumes "aether_step validators s s'" and "aether_inv s"
  shows "aether_inv s'"
  using assms(1)
proof (cases rule: aether_step.cases)
  case (aether_record orig b)
  show ?thesis
  proof (cases rule: aether_call_cases [of validators orig b s])
    case rejected
    then show ?thesis using aether_record assms(2) by simp
  next
    case (accepted u)
    then have s': "s' = accept_measurement b (current_phi s) s" using aether_record by simp
    let ?p = "bs_phi_scaled b"
    have I: "current_phi s = last (0 # phis s)" "successively near (0 # phis s)"
      "unat (consciousness_events s) = min (crossings (0 # phis s)) (2 ^ 64 - 1)"
      using assms(2) by (auto simp: aether_inv_def)
    have "unat (phi_delta ?p (current_phi s)) \<le> 500" if "current_phi s \<noteq> 0"
      using accepted(2) that by (simp add: word_le_nat_alt qbc_consts)
    then have near: "near (last (0 # phis s)) ?p"
      unfolding near_def I(1) [symmetric] unat_phi_delta by (auto simp: word_neq_0_conv)
    have phis: "0 # phis s' = (0 # phis s) @ [?p]" by (simp add: s' accept_measurement_phis)
    have "crossings (0 # phis s') = crossings (0 # phis s) + (if crosses (current_phi s) ?p then 1 else 0)"
      unfolding phis I(1) by (rule crossings_snoc) simp
    then have "unat (consciousness_events s') = min (crossings (0 # phis s')) (2 ^ 64 - 1)"
      using I(3) by (auto simp: s' accept_measurement_fields unat_saturating_add min_def)
    moreover have "successively near (0 # phis s')"
      using near I(2) unfolding phis by (subst near_snoc) simp_all
    moreover have "current_phi s' = last (0 # phis s')"
      unfolding phis by (simp add: s' accept_measurement_fields)
    ultimately show ?thesis
      using assms(2) by (simp add: aether_inv_def s' accept_measurement_fields)
  qed
next
  case (aether_endpoint_call endpoint orig)
  note F = endpoint_call_frame [OF aether_endpoint_call(1)]
  show ?thesis using assms(2) F(8) aether_endpoint_call(2) by (auto simp: aether_inv_def F(1-7))
qed

lemma genesis_unmeasured:
  "phis (aether_genesis endpoint aether_default) = []"
  "current_phi (aether_genesis endpoint aether_default) = 0"
  by (simp_all add: aether_genesis_def aether_default_def Let_def phis_def List.map_filter_def)

lemma aether_genesis_inv: "aether_inv (aether_genesis endpoint aether_default)"
  by (simp add: aether_inv_def aether_genesis_def aether_default_def Let_def phis_def
      List.map_filter_def qbc_consts)

lemma aether_reachable_inv:
  "rtranclp (aether_step validators) (aether_genesis endpoint aether_default) s \<Longrightarrow> aether_inv s"
  by (induction rule: rtranclp_induct) (auto intro: aether_genesis_inv aether_step_inv)

text \<open>
  The Phi guard over every run of the pallet from its genesis, whoever calls it: the current
  Phi is the last accepted measurement, and two consecutive accepted measurements differ by at
  most 500, unless the earlier one is zero.
\<close>

theorem phi_moves_slowly:
  assumes "rtranclp (aether_step validators) (aether_genesis endpoint aether_default) s"
  shows "current_phi s = last (0 # phis s) \<and>
    (\<forall>i. Suc i < length (phis s) \<longrightarrow> phis s ! i \<noteq> 0 \<longrightarrow>
       unat (phis s ! Suc i) \<le> unat (phis s ! i) + 500 \<and> unat (phis s ! i) \<le> unat (phis s ! Suc i) + 500)"
proof -
  have "aether_inv s" using assms by (rule aether_reachable_inv)
  then have "current_phi s = last (0 # phis s)" "successively near (phis s)"
    by (auto simp: aether_inv_def successively_Cons)
  then show ?thesis by (auto simp: successively_conv_nth near_def)
qed

definition example_block_state :: "u64 \<Rightarrow> u64 \<Rightarrow> block_state" where
  "example_block_state h phi = \<lparr>bs_block_height = h, bs_knowledge_root = 11, bs_phi_scaled = phi,
     bs_knowledge_nodes = 3, bs_knowledge_edges = 2, bs_thought_proof_hash = 12,
     bs_reasoning_ops = 1, bs_neural_payload_hash = 0\<rparr>"

definition example_aether :: aether_state where
  "example_aether = aether_genesis (ascii ''http://localhost:50053'') aether_default"

definition example_aether_run :: "u64 list \<Rightarrow> aether_state" where
  "example_aether_run ps =
     fold (\<lambda>p s. snd (dispatch (record_block_state [5] (Signed 5) (example_block_state 1 p)) s)) ps example_aether"

lemma example_aether_runs: "rtranclp (aether_step [5]) (aether_genesis (ascii ''http://localhost:50053'') aether_default) (example_aether_run ps)"
proof (induction ps rule: rev_induct)
  case (snoc p ps)
  have "example_aether_run (ps @ [p]) =
    snd (dispatch (record_block_state [5] (Signed 5) (example_block_state 1 p)) (example_aether_run ps))"
    by (simp add: example_aether_run_def)
  then have "aether_step [5] (example_aether_run ps) (example_aether_run (ps @ [p]))"
    using aether_record [of "[5]" "example_aether_run ps" "Signed 5" "example_block_state 1 p"] by simp
  with snoc show ?case by (rule rtranclp.rtrancl_into_rtrancl)
qed (simp add: example_aether_run_def example_aether_def)

text \<open>The examples evaluate on the accepted values and the current Phi alone.\<close>

fun phi_trace :: "u64 \<Rightarrow> u64 list \<Rightarrow> u64 list" where
  "phi_trace cur [] = []"
| "phi_trace cur (p # ps) =
     (if 0 < cur \<and> MAX_PHI_DELTA_SCALED < phi_delta p cur then phi_trace cur ps else p # phi_trace p ps)"

lemma example_block_phi [simp]: "bs_phi_scaled (example_block_state h p) = p"
  by (simp add: example_block_state_def)

lemma example_call:
  "dispatch (record_block_state [5] (Signed 5) (example_block_state h p)) s =
     (if 0 < current_phi s \<and> MAX_PHI_DELTA_SCALED < phi_delta p (current_phi s)
      then (Inl (Module PhiDeltaTooLarge), s) else (Inr (), accept_measurement (example_block_state h p) (current_phi s) s))"
  by (simp add: dispatch_def record_block_state_def recorder_allowed_def Let_def)

lemma fold_phis:
  "phis (fold (\<lambda>p s. snd (dispatch (record_block_state [5] (Signed 5) (example_block_state 1 p)) s)) ps s) =
     phis s @ phi_trace (current_phi s) ps"
proof (induction ps arbitrary: s)
  case (Cons p ps)
  show ?case
    using Cons.IH [of s] Cons.IH [of "accept_measurement (example_block_state 1 p) (current_phi s) s"]
    by (simp add: example_call accept_measurement_phis accept_measurement_fields)
qed simp

lemma example_run_phis: "phis (example_aether_run ps) = phi_trace 0 ps"
  by (simp add: example_aether_run_def fold_phis example_aether_def genesis_unmeasured)

lemma example_run_current: "current_phi (example_aether_run ps) = last (0 # phi_trace 0 ps)"
  using aether_reachable_inv [OF example_aether_runs] by (simp add: aether_inv_def example_run_phis)

theorem phi_moves_slowly_witness:
  "phis (example_aether_run [2800, 3200, 4000]) = [2800, 3200] \<and>
   current_phi (example_aether_run [2800, 3200, 4000]) = 3200"
proof -
  have "phis (example_aether_run [2800, 3200, 4000]) = [2800, 3200]"
    by (simp add: example_run_phis phi_delta_def qbc_consts)
  then show ?thesis using phi_moves_slowly [OF example_aether_runs [of "[2800, 3200, 4000]"]] by simp
qed

text \<open>
  The guard can be stepped over: from any Phi of at most 500 a validator takes it to zero
  with one accepted call, and from zero to any value with the next.
\<close>

theorem phi_guard_resets_at_zero:
  assumes "unat (current_phi s) \<le> 500" and "who \<in> set validators"
    and "bs_phi_scaled down = 0"
  shows "\<exists>s1 s2. dispatch (record_block_state validators (Signed who) down) s = (Inr (), s1) \<and>
    dispatch (record_block_state validators (Signed who) up) s1 = (Inr (), s2) \<and>
    current_phi s2 = bs_phi_scaled up"
proof -
  have "phi_delta 0 (current_phi s) \<le> MAX_PHI_DELTA_SCALED"
    using assms(1) by (simp add: word_le_nat_alt unat_phi_delta qbc_consts)
  moreover have "recorder_allowed validators (Signed who) = Inr ()"
    using assms(2) by (simp add: recorder_allowed_iff)
  ultimately show ?thesis
    using assms(3)
    by (auto simp: dispatch_def record_block_state_def Let_def accept_measurement_fields not_less)
qed

theorem phi_guard_resets_at_zero_witness:
  "\<exists>s1 s2. dispatch (record_block_state [5] (Signed 5) (example_block_state 2 0)) (example_aether_run [400]) = (Inr (), s1) \<and>
     dispatch (record_block_state [5] (Signed 5) (example_block_state 3 9000)) s1 = (Inr (), s2) \<and> current_phi s2 = 9000"
proof -
  have "current_phi (example_aether_run [400]) = 400" by (simp add: example_run_current)
  then show ?thesis
    using phi_guard_resets_at_zero [of "example_aether_run [400]" 5 "[5]" "example_block_state 2 0" "example_block_state 3 9000"]
    by (simp add: example_block_state_def)
qed

text \<open>
  The outlier counter never counts: over every run of the pallet from its genesis it stays
  zero, because the only branch that increments it then returns an error, and the writes of a
  failed call are discarded.
\<close>

theorem phi_outliers_never_counted:
  assumes "rtranclp (aether_step validators) (aether_genesis endpoint aether_default) s"
  shows "phi_outlier_count s = 0"
  using aether_reachable_inv [OF assms] by (simp add: aether_inv_def)

theorem phi_outliers_never_counted_witness:
  "fst (dispatch (record_block_state [5] (Signed 5) (example_block_state 1 9000)) (example_aether_run [400])) =
     Inl (Module PhiDeltaTooLarge) \<and> phi_outlier_count (example_aether_run [400, 9000]) = 0"
proof
  show "fst (dispatch (record_block_state [5] (Signed 5) (example_block_state 1 9000)) (example_aether_run [400])) =
     Inl (Module PhiDeltaTooLarge)" by (simp add: example_call example_run_current phi_delta_def qbc_consts)
qed (rule phi_outliers_never_counted [OF example_aether_runs])

text \<open>
  The consciousness counter counts exactly the upward crossings of the threshold 3000 in
  the sequence of accepted measurements, starting from the genesis value zero.
\<close>

theorem consciousness_counts_crossings:
  assumes "rtranclp (aether_step validators) (aether_genesis endpoint aether_default) s"
  shows "unat (consciousness_events s) = min (crossings (0 # phis s)) (2 ^ 64 - 1)"
  using aether_reachable_inv [OF assms] by (simp add: aether_inv_def)

theorem consciousness_counts_crossings_witness:
  "consciousness_events (example_aether_run [2800, 3200, 2900, 3000, 3100]) = 2"
proof -
  have "crossings (0 # phis (example_aether_run [2800, 3200, 2900, 3000, 3100])) = 2"
    by (simp add: example_run_phis phi_delta_def crosses_def qbc_consts)
  then have "unat (consciousness_events (example_aether_run [2800, 3200, 2900, 3000, 3100])) = 2"
    using consciousness_counts_crossings [OF example_aether_runs [of "[2800, 3200, 2900, 3000, 3100]"]] by simp
  then show ?thesis by (simp add: word_unat_eq_iff)
qed

section \<open>The circular buffer of recent values\<close>

text \<open>
  The buffer after \<open>n\<close> accepted values: slot \<open>(n - 1 - j) mod 10\<close> holds the value accepted
  \<open>j\<close> calls ago.
\<close>

definition recent_inv :: "aether_state \<Rightarrow> bool" where
  "recent_inv s \<longleftrightarrow> phi_window_index s = of_nat (length (phis s)) \<and>
     (length (phis s) < 2 ^ 64 \<longrightarrow>
      (\<forall>i < length (phis s). length (phis s) \<le> i + 10 \<longrightarrow>
         recent_phi_values s (of_nat (i mod 10)) = phis s ! i))"

lemma slot_of_index:
  assumes "n < 2 ^ 64"
  shows "(of_nat n :: u64) mod PHI_WINDOW_SIZE = of_nat (n mod 10)"
  using assms by (simp add: word_unat_eq_iff unat_mod unat_of_nat_less qbc_consts)

lemma slots_distinct:
  fixes i n :: nat
  assumes "i < n" and "n < i + 10"
  shows "of_nat (i mod 10) \<noteq> (of_nat (n mod 10) :: u64)"
proof
  assume "of_nat (i mod 10) = (of_nat (n mod 10) :: u64)"
  from arg_cong [OF this, where f = unat] have "i mod 10 = n mod 10"
    by (simp add: unat_of_nat_less)
  then show False using assms by (metis mod_eq_dvd_iff_nat nat_dvd_not_less add_less_cancel_left le_add_diff_inverse
        less_imp_le zero_less_diff)
qed

lemma recent_inv_accept:
  assumes "recent_inv s"
  shows "recent_inv (accept_measurement b prev s)"
proof -
  let ?n = "length (phis s)" and ?p = "bs_phi_scaled b" and ?t = "accept_measurement b prev s"
  have "recent_phi_values ?t (of_nat (i mod 10)) = phis ?t ! i"
    if "Suc ?n < 2 ^ 64" "i < Suc ?n" "Suc ?n \<le> i + 10" for i
  proof (cases "i = ?n")
    case True
    then show ?thesis using assms that
      by (simp add: recent_inv_def accept_measurement_fields accept_measurement_phis slot_of_index)
  next
    case False
    then show ?thesis using assms that slots_distinct [of i ?n]
      by (simp add: recent_inv_def accept_measurement_fields accept_measurement_phis slot_of_index nth_append)
  qed
  then show ?thesis using assms
    by (simp add: recent_inv_def accept_measurement_fields accept_measurement_phis)
qed

lemma aether_reachable_recent:
  "rtranclp (aether_step validators) (aether_genesis endpoint aether_default) s \<Longrightarrow> recent_inv s"
proof (induction rule: rtranclp_induct)
  case base
  then show ?case
    by (simp add: recent_inv_def aether_genesis_def aether_default_def Let_def phis_def List.map_filter_def)
next
  case (step s t)
  from step.hyps(2) show ?case
  proof (cases rule: aether_step.cases)
    case (aether_record orig b)
    then show ?thesis using step.IH recent_inv_accept
      by (cases rule: aether_call_cases [of validators orig b s]) auto
  next
    case (aether_endpoint_call endpoint orig)
    then show ?thesis using step.IH endpoint_call_frame(2,5,6) [OF aether_endpoint_call(1)]
      by (simp add: recent_inv_def)
  qed
qed

text \<open>
  The circular buffer holds the last ten accepted measurements: over every run from genesis
  of fewer than \<open>2 ^ 64\<close> accepted measurements, the slot of each of the last ten carries it.
\<close>

theorem recent_values_are_the_last_ten:
  assumes "rtranclp (aether_step validators) (aether_genesis endpoint aether_default) s"
    and "length (phis s) < 2 ^ 64" and "i < length (phis s)" and "length (phis s) \<le> i + 10"
  shows "recent_phi_values s (of_nat (i mod 10)) = phis s ! i"
  using aether_reachable_recent [OF assms(1)] assms(2-4) by (simp add: recent_inv_def)

theorem recent_values_are_the_last_ten_witness:
  "recent_phi_values (example_aether_run [1, 2, 3, 4, 5, 6, 7, 8, 9, 10, 11, 12]) 1 = 12 \<and>
   recent_phi_values (example_aether_run [1, 2, 3, 4, 5, 6, 7, 8, 9, 10, 11, 12]) 2 = 3"
proof -
  let ?r = "example_aether_run [1, 2, 3, 4, 5, 6, 7, 8, 9, 10, 11, 12]"
  have p: "phis ?r = [1, 2, 3, 4, 5, 6, 7, 8, 9, 10, 11, 12]"
    by (simp add: example_run_phis phi_delta_def qbc_consts)
  show ?thesis
    using recent_values_are_the_last_ten [OF example_aether_runs [of "[1, 2, 3, 4, 5, 6, 7, 8, 9, 10, 11, 12]"], of 11]
      recent_values_are_the_last_ten [OF example_aether_runs [of "[1, 2, 3, 4, 5, 6, 7, 8, 9, 10, 11, 12]"], of 2]
    by (simp add: p)
qed

section \<open>The history of measurements\<close>

text \<open>Measurements recorded for consecutive heights by one caller.\<close>

fun measurement_run ::
  "account_id list \<Rightarrow> origin \<Rightarrow> block_state list \<Rightarrow> aether_state \<Rightarrow> aether_state" where
  "measurement_run validators orig [] s = s"
| "measurement_run validators orig (b # bs) s =
     measurement_run validators orig bs (snd (dispatch (record_block_state validators orig b) s))"

lemma measurement_run_history:
  assumes "recorder_allowed validators orig = Inr ()"
    and "successively near (current_phi s # map bs_phi_scaled bs)"
    and "\<forall>i < length bs. bs_block_height (bs ! i) = h + of_nat (Suc i)"
    and "phi_history t = phi_history s"
  shows "phi_history (measurement_run validators orig bs s) = phi_history (pr.record_run h (map measurement_of bs) t)"
  using assms
proof (induction bs arbitrary: h s t)
  case (Cons b bs)
  have n: "near (current_phi s) (bs_phi_scaled b)" using Cons.prems(2) by (simp add: successively_Cons)
  then have "\<not> (0 < current_phi s \<and> MAX_PHI_DELTA_SCALED < phi_delta (bs_phi_scaled b) (current_phi s))"
    by (auto simp: near_def word_less_nat_alt unat_phi_delta qbc_consts)
  then have d: "snd (dispatch (record_block_state validators orig b) s) = accept_measurement b (current_phi s) s"
    using Cons.prems(1) by (auto simp: dispatch_def record_block_state_def)
  have hb: "bs_block_height b = h + 1" using Cons.prems(3) [rule_format, of 0] by simp
  have "phi_history (measurement_run validators orig bs (accept_measurement b (current_phi s) s)) =
      phi_history (pr.record_run (h + 1) (map measurement_of bs) (store_measurement (h + 1) (measurement_of b) t))"
  proof (rule Cons.IH)
    show "successively near (current_phi (accept_measurement b (current_phi s) s) # map bs_phi_scaled bs)"
      using Cons.prems(2) by (simp add: accept_measurement_fields successively_Cons)
    show "\<forall>i < length bs. bs_block_height (bs ! i) = h + 1 + of_nat (Suc i)"
      using Cons.prems(3) by (auto simp: ac_simps dest: spec [of _ "Suc _"])
    show "phi_history (store_measurement (h + 1) (measurement_of b) t) = phi_history (accept_measurement b (current_phi s) s)"
      using Cons.prems(4) by (simp add: accept_measurement_fields hb phi_history_store)
  qed (rule Cons.prems(1))
  then show ?case by (simp add: d)
qed simp

text \<open>
  The Phi history after the measurements of consecutive blocks from genesis: each of the
  last hundred thousand can be looked up under its height with its four numbers, the history
  holds at most one entry per height of the window and the genesis entry, and the genesis entry
  is never pruned.
\<close>

theorem phi_history_retained:
  assumes "recorder_allowed validators orig = Inr ()"
    and "successively near (map bs_phi_scaled bs)"
    and "\<forall>i < length bs. bs_block_height (bs ! i) = of_nat (Suc i)"
    and "length bs < 2 ^ 64"
  shows "(\<forall>i < length bs. length bs - i \<le> 100000 \<longrightarrow>
      phi_history (measurement_run validators orig bs (aether_genesis endpoint aether_default)) (of_nat (Suc i)) =
        Some (measurement_of (bs ! i))) \<and>
    card (dom (phi_history (measurement_run validators orig bs (aether_genesis endpoint aether_default)))) \<le> 100001 \<and>
    phi_history (measurement_run validators orig bs (aether_genesis endpoint aether_default)) 0 \<noteq> None"
proof -
  let ?s = "aether_genesis endpoint aether_default"
  have g: "current_phi ?s = 0" "phi_history ?s = [0 \<mapsto> \<lparr>phi_block_height = 0, phi_scaled = 0, knowledge_nodes = 0, knowledge_edges = 0\<rparr>]"
    by (simp_all add: aether_genesis_def aether_default_def Let_def)
  have "successively near (current_phi ?s # map bs_phi_scaled bs)"
    using assms(2) g by (simp add: successively_Cons near_def)
  then have H: "phi_history (measurement_run validators orig bs ?s) = phi_history (pr.record_run 0 (map measurement_of bs) ?s)"
    by (intro measurement_run_history [OF assms(1)]) (use assms(3) in simp_all)
  have "pr.within 0 ?s" by (simp add: pr.within_def g)
  note C = pr.within_card [OF pr.record_run_within [OF this, of "map measurement_of bs"]]
  show ?thesis
    using C assms(4) pr.run_lookup [of 0 "map measurement_of bs"] pr.run_zero_stays [of 0 "map measurement_of bs" ?s]
    unfolding H by (simp add: g qbc_consts)
qed

theorem phi_history_retained_witness:
  "phi_history (measurement_run [5] Root [example_block_state 1 3000, example_block_state 2 3400] example_aether) 2 =
     Some \<lparr>phi_block_height = 2, phi_scaled = 3400, knowledge_nodes = 3, knowledge_edges = 2\<rparr>"
proof -
  let ?bs = "[example_block_state 1 3000, example_block_state 2 3400]"
  have "recorder_allowed [5] Root = Inr ()" "successively near (map bs_phi_scaled ?bs)"
    "\<forall>i < length ?bs. bs_block_height (?bs ! i) = of_nat (Suc i)"
    by (auto simp: recorder_allowed_iff near_def example_block_state_def less_Suc_eq)
  from phi_history_retained [OF this, THEN conjunct1, rule_format, of 1] show ?thesis
    by (simp add: example_aether_def measurement_of_def example_block_state_def)
qed

end
