(* ===== verification/ContractBridge.thy ===== *)
theory ContractBridge
  imports Prelude
begin

text \<open>
  The calldata builder of the Aether anchor
  (\<open>substrate-node/pallets/qbc-aether-anchor/src/contract_bridge.rs\<close>): the selectors, the
  addresses of the ten contracts, the ABI encodings and the batch of calls of a cognitive cycle.
\<close>

type_synonym h160 = "160 word" \<comment> \<open>20 bytes, the first byte the most significant\<close>
type_synonym u256 = "256 word"

section \<open>Selectors and addresses\<close>

definition SEL_RECORD_ACTIVATION :: "u8 list" where
  "SEL_RECORD_ACTIVATION = [0xcf, 0x58, 0xb6, 0x97]"

definition SEL_UPDATE_QUANTUM_STATE :: "u8 list" where
  "SEL_UPDATE_QUANTUM_STATE = [0xa6, 0xeb, 0x8c, 0xd4]"

definition SEL_SET_ENERGY_LEVEL :: "u8 list" where
  "SEL_SET_ENERGY_LEVEL = [0x3d, 0x98, 0x39, 0xac]"

definition SEL_SET_COGNITIVE_MASS :: "u8 list" where
  "SEL_SET_COGNITIVE_MASS = [0xc2, 0x3b, 0xf5, 0x24]"

definition SEL_PROCESS_MESSAGE :: "u8 list" where
  "SEL_PROCESS_MESSAGE = [0x6b, 0x27, 0xd6, 0xca]"

lemmas selectors = SEL_RECORD_ACTIVATION_def SEL_UPDATE_QUANTUM_STATE_def SEL_SET_ENERGY_LEVEL_def
  SEL_SET_COGNITIVE_MASS_def SEL_PROCESS_MESSAGE_def

datatype sephirah_id =
    Keter | Chochmah | Binah | Chesed | Gevurah | Tiferet | Netzach | Hod | Yesod | Malkuth

fun sephirah_index :: "sephirah_id \<Rightarrow> nat" where
  "sephirah_index Keter = 0"
| "sephirah_index Chochmah = 1"
| "sephirah_index Binah = 2"
| "sephirah_index Chesed = 3"
| "sephirah_index Gevurah = 4"
| "sephirah_index Tiferet = 5"
| "sephirah_index Netzach = 6"
| "sephirah_index Hod = 7"
| "sephirah_index Yesod = 8"
| "sephirah_index Malkuth = 9"

definition all_sephirot :: "sephirah_id list" where
  "all_sephirot = [Keter, Chochmah, Binah, Chesed, Gevurah, Tiferet, Netzach, Hod, Yesod, Malkuth]"

definition SEPHIROT_ADDRESSES :: "h160 list" where
  "SEPHIROT_ADDRESSES =
    [0x70f0880765a6574e3ba7c25bc369a9aa72be8fb1,
     0x0fd8430e1d3c74d8ea77bae433b74b4dcec44a2b,
     0x48f968a4926a4783b178bb67be63cbd074d2f887,
     0x533eb7f3c2fb721c7d2b74d6ff246ca8201ad2db,
     0x65de61b759dfc92d0272244161df0fc9d41a2bcc,
     0xc20fafbcc6fb5f70ef2b31b18b611c6bc2b20999,
     0x3c3fd097760646875f5f2abb2a64891245461a20,
     0x6eaaf710a7312b2bda75a7c55ac5076d9dbc5d86,
     0x6b4e05615dea5a0f492ef24b7cfa1cbc957d5578,
     0x5d242419d98ec93b87be4b80a97176b4e3cdd419]"

definition sephirah_address :: "sephirah_id \<Rightarrow> h160" where
  "sephirah_address i = SEPHIROT_ADDRESSES ! sephirah_index i"

section \<open>ABI encoding\<close>

definition encode_u256 :: "u256 \<Rightarrow> u8 list" where
  "encode_u256 v = be_bytes v"

definition encode_u8 :: "u8 \<Rightarrow> u8 list" where
  "encode_u8 v = (replicate 32 0)[31 := v]"

definition build_record_activation_calldata :: "u8 list" where
  "build_record_activation_calldata = SEL_RECORD_ACTIVATION"

definition build_update_quantum_state_calldata :: "h256 \<Rightarrow> u8 list" where
  "build_update_quantum_state_calldata state_hash = SEL_UPDATE_QUANTUM_STATE @ be_bytes state_hash"

definition build_set_energy_calldata :: "u256 \<Rightarrow> u8 list" where
  "build_set_energy_calldata energy = SEL_SET_ENERGY_LEVEL @ encode_u256 energy"

definition build_set_cognitive_mass_calldata :: "u256 \<Rightarrow> u8 list" where
  "build_set_cognitive_mass_calldata mass = SEL_SET_COGNITIVE_MASS @ encode_u256 mass"

text \<open>Lengths are \<open>usize\<close> values, 64 bits wide.\<close>

definition padded_payload_len :: "u64 \<Rightarrow> u64" where
  "padded_payload_len len = and (len + 31) (not 31)"

definition build_process_message_calldata :: "u8 \<Rightarrow> h256 \<Rightarrow> u8 list \<Rightarrow> u8 list" where
  "build_process_message_calldata from_id msg_type payload =
     (let len = of_nat (length payload);
          padding = padded_payload_len len - len
      in SEL_PROCESS_MESSAGE @ encode_u8 from_id @ be_bytes msg_type @ encode_u256 96 @
         encode_u256 (ucast len) @ payload @ replicate (unat padding) 0)"

section \<open>The batch of a cognitive cycle\<close>

record sephirah_cycle_params =
  cp_state_hash :: h256
  cp_energy :: u256
  cp_cognitive_mass :: u256

record sephirot_call =
  call_address :: h160
  call_data :: "u8 list"

text \<open>The parameters are an array of ten.\<close>

definition activate_sephirot_cycle :: "sephirah_cycle_params list \<Rightarrow> sephirot_call list" where
  "activate_sephirot_cycle params =
     concat (map (\<lambda>(i, sephirah_id).
       let address = sephirah_address sephirah_id; p = params ! i
       in [\<lparr>call_address = address, call_data = build_record_activation_calldata\<rparr>,
           \<lparr>call_address = address, call_data = build_update_quantum_state_calldata (cp_state_hash p)\<rparr>,
           \<lparr>call_address = address, call_data = build_set_energy_calldata (cp_energy p)\<rparr>,
           \<lparr>call_address = address, call_data = build_set_cognitive_mass_calldata (cp_cognitive_mass p)\<rparr>])
       (enumerate 0 all_sephirot))"

section \<open>Padding\<close>

lemma clear_low_bits: "and w (not (mask n)) = w - take_bit n w" for w :: "'a::len word"
proof -
  have "and w (not (mask n)) = push_bit n (drop_bit n w)"
    by (rule bit_word_eqI) (auto simp: bit_simps)
  moreover have "push_bit n (drop_bit n w) + take_bit n w = w" by (rule bits_ident)
  ultimately show ?thesis by (metis add_diff_cancel)
qed

lemma unat_and_not_31: "unat (and w (not 31) :: u64) = unat w div 32 * 32"
proof -
  have t: "unat (take_bit 5 w) = unat w mod 32" by (simp add: take_bit_eq_mod unat_mod)
  have "and w (not (31 :: u64)) = w - take_bit 5 w"
    using clear_low_bits [of w 5] by (simp add: mask_eq_exp_minus_1)
  moreover have "take_bit 5 w \<le> w" by (simp add: word_le_nat_alt t)
  ultimately have "unat (and w (not (31 :: u64))) = unat w - unat w mod 32" by (simp add: unat_sub t)
  then show ?thesis by (simp add: minus_mod_eq_div_mult)
qed

lemma unat_padded_payload_len:
  assumes "n + 31 < 2 ^ 64"
  shows "unat (padded_payload_len (of_nat n)) = (n + 31) div 32 * 32"
proof -
  have n: "unat (of_nat n + 31 :: u64) = n + 31"
    using assms unat_of_nat_less [of "n + 31", where 'a = 64] by simp
  show ?thesis unfolding padded_payload_len_def unat_and_not_31 n ..
qed

lemma selectors_length [simp]:
  "length SEL_RECORD_ACTIVATION = 4" "length SEL_UPDATE_QUANTUM_STATE = 4" "length SEL_SET_ENERGY_LEVEL = 4"
  "length SEL_SET_COGNITIVE_MASS = 4" "length SEL_PROCESS_MESSAGE = 4"
  by (simp_all add: selectors)

lemma length_encodings [simp]: "length (encode_u256 v) = 32" "length (encode_u8 b) = 32"
  by (simp_all add: encode_u256_def encode_u8_def)

text \<open>
  The calls of the interface a contract of the cycle answers to, and the calldata the bridge
  builds for each.
\<close>

datatype sephirah_message =
    RecordActivation
  | UpdateQuantumState h256
  | SetEnergyLevel u256
  | SetCognitiveMass u256
  | ProcessMessage u8 h256 "u8 list"

fun encode_message :: "sephirah_message \<Rightarrow> u8 list" where
  "encode_message RecordActivation = build_record_activation_calldata"
| "encode_message (UpdateQuantumState h) = build_update_quantum_state_calldata h"
| "encode_message (SetEnergyLevel e) = build_set_energy_calldata e"
| "encode_message (SetCognitiveMass m) = build_set_cognitive_mass_calldata m"
| "encode_message (ProcessMessage f m p) = build_process_message_calldata f m p"

text \<open>
  A reader of the ABI: it dispatches on the selector, reads the head words at their fixed
  positions, and follows the offset of the dynamic argument.
\<close>

definition word_at :: "nat \<Rightarrow> u8 list \<Rightarrow> u8 list" where
  "word_at n bs = take 32 (drop n bs)"

definition decode_message :: "u8 list \<Rightarrow> sephirah_message option" where
  "decode_message cd =
     (let sel = take 4 cd; args = drop 4 cd
      in if sel = SEL_RECORD_ACTIVATION then Some RecordActivation
         else if sel = SEL_UPDATE_QUANTUM_STATE then Some (UpdateQuantumState (of_nat (be_value (word_at 0 args))))
         else if sel = SEL_SET_ENERGY_LEVEL then Some (SetEnergyLevel (of_nat (be_value (word_at 0 args))))
         else if sel = SEL_SET_COGNITIVE_MASS then Some (SetCognitiveMass (of_nat (be_value (word_at 0 args))))
         else if sel = SEL_PROCESS_MESSAGE
         then let offset = be_value (word_at 64 args); len = be_value (word_at offset args)
              in Some (ProcessMessage (of_nat (be_value (word_at 0 args))) (of_nat (be_value (word_at 32 args)))
                   (take len (drop (offset + 32) args)))
         else None)"

lemma word_at_append [simp]:
  "length ws = 32 \<Longrightarrow> word_at 0 (ws @ bs) = ws"
  "length ws = 32 \<Longrightarrow> 32 \<le> n \<Longrightarrow> word_at n (ws @ bs) = word_at (n - 32) bs"
  by (simp_all add: word_at_def)

lemma be_value_encodings [simp]:
  "be_value (encode_u256 v) = unat v" "be_value (be_bytes (h :: h256)) = unat h"
  "be_value (encode_u8 b) = unat b"
proof -
  have "rev (encode_u8 b) = b # replicate 31 0"
    by (simp add: encode_u8_def list_update_append numeral_eq_Suc)
  moreover have "le_value (replicate n 0) = 0" for n by (induction n) simp_all
  ultimately show "be_value (encode_u8 b) = unat b" by (simp add: be_value_def)
qed (simp_all add: encode_u256_def be_value_be_bytes)

lemma be_bytes_length32: "length (be_bytes (h :: h256)) = 32"
  by simp

lemma decode_fixed:
  "decode_message build_record_activation_calldata = Some RecordActivation"
  "decode_message (build_update_quantum_state_calldata h) = Some (UpdateQuantumState h)"
  "decode_message (build_set_energy_calldata e) = Some (SetEnergyLevel e)"
  "decode_message (build_set_cognitive_mass_calldata m) = Some (SetCognitiveMass m)"
  by (simp_all add: decode_message_def Let_def build_record_activation_calldata_def
      build_update_quantum_state_calldata_def build_set_energy_calldata_def
      build_set_cognitive_mass_calldata_def) (simp_all add: selectors word_at_def)

text \<open>
  The calldata the bridge builds round trips: a reader of the contract ABI recovers from it
  the function called and every argument, for payloads of any length a vector can have.
\<close>

theorem calldata_roundtrip:
  assumes "\<And>f m p. msg = ProcessMessage f m p \<Longrightarrow> length p < 2 ^ 63"
  shows "decode_message (encode_message msg) = Some msg"
proof (cases msg)
  case (ProcessMessage f m p)
  have len: "length p < 2 ^ 63" using assms ProcessMessage by blast
  then have ul: "unat (ucast (of_nat (length p) :: u64) :: u256) = length p"
    by (simp add: unsigned_ucast_eq take_bit_nat_eq_self unat_of_nat_less)
  have sel: "SEL_PROCESS_MESSAGE \<noteq> SEL_RECORD_ACTIVATION" "SEL_PROCESS_MESSAGE \<noteq> SEL_UPDATE_QUANTUM_STATE"
    "SEL_PROCESS_MESSAGE \<noteq> SEL_SET_ENERGY_LEVEL" "SEL_PROCESS_MESSAGE \<noteq> SEL_SET_COGNITIVE_MASS"
    by (simp_all add: selectors)
  show ?thesis
    unfolding ProcessMessage encode_message.simps build_process_message_calldata_def decode_message_def Let_def
    by (simp add: sel ul)
qed (simp_all add: decode_fixed)

theorem calldata_roundtrip_witness:
  "decode_message (build_process_message_calldata 5 1 (ascii ''hello sephirot'')) =
     Some (ProcessMessage 5 1 (ascii ''hello sephirot''))"
  using calldata_roundtrip [of "ProcessMessage 5 1 (ascii ''hello sephirot'')"] by (simp add: ascii_def)

section \<open>The cycle addresses every contract\<close>

lemma sephirah_address_inject [simp]: "sephirah_address i = sephirah_address j \<longleftrightarrow> i = j"
  by (cases i; cases j; simp add: sephirah_address_def SEPHIROT_ADDRESSES_def)

text \<open>
  The batch of a cycle holds forty calls, and each of the ten contracts receives exactly
  four of them, in this order, with the parameters of its own position: the activation, the
  state hash, the energy and the cognitive mass, as the contract reads them.
\<close>

theorem cycle_reaches_every_contract:
  "length (activate_sephirot_cycle params) = 40 \<and>
    map (\<lambda>c. decode_message (call_data c))
        (filter (\<lambda>c. call_address c = sephirah_address sephirah) (activate_sephirot_cycle params)) =
      [Some RecordActivation,
       Some (UpdateQuantumState (cp_state_hash (params ! sephirah_index sephirah))),
       Some (SetEnergyLevel (cp_energy (params ! sephirah_index sephirah))),
       Some (SetCognitiveMass (cp_cognitive_mass (params ! sephirah_index sephirah)))]"
  by (cases sephirah)
    (simp_all add: activate_sephirot_cycle_def all_sephirot_def Let_def enumerate_eq_zip upt_conv_Cons decode_fixed numeral_eq_Suc)

text \<open>
  A message to a contract occupies a whole number of words after its selector, the least
  that holds its payload, with a zero tail.
\<close>

theorem process_message_layout:
  assumes "length payload < 2 ^ 63"
  shows "length (build_process_message_calldata from_id msg_type payload) = 132 + (length payload + 31) div 32 * 32 \<and>
    take (length payload) (drop 132 (build_process_message_calldata from_id msg_type payload)) = payload \<and>
    set (drop (132 + length payload) (build_process_message_calldata from_id msg_type payload)) \<subseteq> {0}"
proof -
  let ?n = "length payload"
  have p: "unat (padded_payload_len (of_nat ?n)) = (?n + 31) div 32 * 32"
    using assms by (intro unat_padded_payload_len) simp
  have le: "?n \<le> (?n + 31) div 32 * 32" by presburger
  have n: "unat (of_nat ?n :: u64) = ?n" using assms by (intro unat_of_nat_less) simp
  have "unat (padded_payload_len (of_nat ?n) - of_nat ?n) = (?n + 31) div 32 * 32 - ?n"
    using le by (simp add: unat_sub word_le_nat_alt p n)
  then show ?thesis using le by (simp add: build_process_message_calldata_def Let_def set_replicate_conv_if)
qed

theorem process_message_layout_witness:
  "length (build_process_message_calldata 5 1 (ascii ''hello sephirot'')) = 164"
  using process_message_layout [of "ascii ''hello sephirot''" 5 1] by (simp add: ascii_def)

end
