(* ===== verification/Poseidon2.thy ===== *)
theory Poseidon2
  imports Prelude
begin

unbundle bit_operations_syntax

text \<open>
  The Poseidon2 hash of \<open>substrate-node/primitives/src/poseidon2.rs\<close>: the field arithmetic of
  the Goldilocks prime, the permutation, the compile-time generator of the round constants with
  its own SHA-256, the sponge, and the Merkle tree with its verifier. The lemmas relate every
  operation to arithmetic modulo the prime and show what the tree's verifier accepts.
\<close>

section \<open>Constants\<close>

definition GOLDILOCKS_P :: u64 where
  "GOLDILOCKS_P = 0xFFFFFFFF00000001"

definition FULL_ROUNDS_BEGIN :: nat where "FULL_ROUNDS_BEGIN = 4"
definition FULL_ROUNDS_END :: nat where "FULL_ROUNDS_END = 4"
definition PARTIAL_ROUNDS :: nat where "PARTIAL_ROUNDS = 56"
definition STATE_WIDTH :: nat where "STATE_WIDTH = 3"
definition SBOX_EXP :: u64 where "SBOX_EXP = 5"

definition MDS :: "u64 list list" where
  "MDS = [[2, 1, 1], [1, 2, 1], [1, 1, 2]]"

section \<open>SHA-256 of a single block\<close>

definition SHA_K :: "u32 list" where
  "SHA_K = concat
    [[0x428a2f98, 0x71374491, 0xb5c0fbcf, 0xe9b5dba5], [0x3956c25b, 0x59f111f1, 0x923f82a4, 0xab1c5ed5],
     [0xd807aa98, 0x12835b01, 0x243185be, 0x550c7dc3], [0x72be5d74, 0x80deb1fe, 0x9bdc06a7, 0xc19bf174],
     [0xe49b69c1, 0xefbe4786, 0x0fc19dc6, 0x240ca1cc], [0x2de92c6f, 0x4a7484aa, 0x5cb0a9dc, 0x76f988da],
     [0x983e5152, 0xa831c66d, 0xb00327c8, 0xbf597fc7], [0xc6e00bf3, 0xd5a79147, 0x06ca6351, 0x14292967],
     [0x27b70a85, 0x2e1b2138, 0x4d2c6dfc, 0x53380d13], [0x650a7354, 0x766a0abb, 0x81c2c92e, 0x92722c85],
     [0xa2bfe8a1, 0xa81a664b, 0xc24b8b70, 0xc76c51a3], [0xd192e819, 0xd6990624, 0xf40e3585, 0x106aa070],
     [0x19a4c116, 0x1e376c08, 0x2748774c, 0x34b0bcb5], [0x391c0cb3, 0x4ed8aa4a, 0x5b9cca4f, 0x682e6ff3],
     [0x748f82ee, 0x78a5636f, 0x84c87814, 0x8cc70208], [0x90befffa, 0xa4506ceb, 0xbef9a3f7, 0xc67178f2]]"

definition rotr32 :: "u32 \<Rightarrow> nat \<Rightarrow> u32" where
  "rotr32 x n = drop_bit n x OR push_bit (32 - n) x"

definition SHA_INIT :: "u32 list" where
  "SHA_INIT = [0x6a09e667, 0xbb67ae85, 0x3c6ef372, 0xa54ff53a, 0x510e527f, 0x9b05688c, 0x1f83d9ab, 0x5be0cd19]"

text \<open>The padded block of 64 bytes, the message schedule, and one round of the compression.\<close>

definition sha_block :: "u8 list \<Rightarrow> nat \<Rightarrow> u8 list" where
  "sha_block input len = take len input @ [0x80] @ replicate (55 - len) 0 @ be_bytes (of_nat len * 8 :: u64)"

fun be_words :: "u8 list \<Rightarrow> u32 list" where
  "be_words (a # b # c # d # rest) =
     (push_bit 24 (ucast a) OR push_bit 16 (ucast b) OR push_bit 8 (ucast c) OR ucast d) # be_words rest"
| "be_words _ = []"

definition schedule_step :: "nat \<Rightarrow> u32 list \<Rightarrow> u32 list" where
  "schedule_step j w =
     (let s0 = rotr32 (w ! (j - 15)) 7 XOR rotr32 (w ! (j - 15)) 18 XOR drop_bit 3 (w ! (j - 15));
          s1 = rotr32 (w ! (j - 2)) 17 XOR rotr32 (w ! (j - 2)) 19 XOR drop_bit 10 (w ! (j - 2))
      in w @ [w ! (j - 16) + s0 + w ! (j - 7) + s1])"

definition schedule :: "u32 list \<Rightarrow> u32 list" where
  "schedule w = fold schedule_step [16..<64] w"

fun sha_round :: "u32 \<times> u32 \<Rightarrow> u32 list \<Rightarrow> u32 list" where
  "sha_round (k, w) [a, b, c, d, e, f, g, h] =
     (let s1 = rotr32 e 6 XOR rotr32 e 11 XOR rotr32 e 25;
          ch = (e AND f) XOR (NOT e AND g);
          temp1 = h + s1 + ch + k + w;
          s0 = rotr32 a 2 XOR rotr32 a 13 XOR rotr32 a 22;
          maj = (a AND b) XOR (a AND c) XOR (b AND c);
          temp2 = s0 + maj
      in [temp1 + temp2, a, b, c, d + temp1, e, f, g])"
| "sha_round _ s = s"

definition sha256_block :: "u8 list \<Rightarrow> nat \<Rightarrow> u8 list" where
  "sha256_block input len =
     (let w = schedule (be_words (sha_block input len));
          out = fold sha_round (zip SHA_K w) SHA_INIT
      in concat (map be_bytes (map2 (+) SHA_INIT out)))"

text \<open>The published test vector of SHA-256 for the message \<open>abc\<close>.\<close>

lemma sha256_abc:
  "sha256_block (ascii ''abc'') 3 =
    [0xba, 0x78, 0x16, 0xbf, 0x8f, 0x01, 0xcf, 0xea, 0x41, 0x41, 0x40, 0xde, 0x5d, 0xae, 0x22, 0x23,
     0xb0, 0x03, 0x61, 0xa3, 0x96, 0x17, 0x7a, 0x9c, 0xb4, 0x10, 0xff, 0x61, 0xf2, 0x00, 0x15, 0xad]"
  by code_simp

section \<open>The round constants\<close>

definition extract_constant :: "u8 list \<Rightarrow> u64" where
  "extract_constant state =
     (let raw = of_nat (le_value (take 8 state)); reduced = raw mod GOLDILOCKS_P
      in if reduced = 0 then 1 else reduced)"

fun constant_chain :: "nat \<Rightarrow> u8 list \<Rightarrow> u64 list" where
  "constant_chain 0 state = []"
| "constant_chain (Suc n) state =
     (let state' = sha256_block state 32 in extract_constant state' # constant_chain n state')"

definition generate_round_constants :: "u64 list" where
  "generate_round_constants = constant_chain 80 (sha256_block (ascii ''QBC-Poseidon2-RC-v1'') 19)"

definition ROUND_CONSTANTS :: "u64 list" where
  "ROUND_CONSTANTS = generate_round_constants"

section \<open>Field arithmetic\<close>

definition field_add :: "u64 \<Rightarrow> u64 \<Rightarrow> u64" where
  "field_add a b =
     (let sum = a + b; overflow = \<not> unat a + unat b < 2 ^ 64
      in if overflow \<or> GOLDILOCKS_P \<le> sum then sum - GOLDILOCKS_P else sum)"

definition field_mul :: "u64 \<Rightarrow> u64 \<Rightarrow> u64" where
  "field_mul a b = (let product = (ucast a :: u128) * ucast b in ucast (product mod ucast GOLDILOCKS_P))"

lemma unat_shift1 [simp]: "unat (drop_bit (Suc 0) (e :: u64)) = unat e div 2"
  by (rule trans [OF unat_drop_bit_eq]) (simp add: drop_bit_eq_div)

function pow_loop :: "u128 \<Rightarrow> u128 \<Rightarrow> u64 \<Rightarrow> u128" where
  "pow_loop res b e =
     (let p = ucast GOLDILOCKS_P in
      if 0 < e
      then pow_loop (if e AND 1 = 1 then (res * b) mod p else res) ((b * b) mod p) (drop_bit 1 e)
      else res)"
  by auto
termination
  by (relation "measure (\<lambda>(_, _, e). unat e)")
    (auto simp: word_less_nat_alt)

declare pow_loop.simps [simp del]

definition field_pow :: "u64 \<Rightarrow> u64 \<Rightarrow> u64" where
  "field_pow base exp = (if exp = 0 then 1 else ucast (pow_loop 1 (ucast base) exp))"

section \<open>The permutation\<close>

text \<open>The state is the array of three elements; the constants are consumed through an index.\<close>

type_synonym poseidon_state = "u64 list"

definition poseidon_new :: poseidon_state where
  "poseidon_new = replicate STATE_WIDTH 0"

definition add_round_constants :: "poseidon_state \<times> nat \<Rightarrow> poseidon_state \<times> nat" where
  "add_round_constants = (\<lambda>(elements, rc_idx).
     (map (\<lambda>i. field_add (elements ! i) (ROUND_CONSTANTS ! (rc_idx + i))) [0..<STATE_WIDTH], rc_idx + STATE_WIDTH))"

definition add_round_constants_partial :: "poseidon_state \<times> nat \<Rightarrow> poseidon_state \<times> nat" where
  "add_round_constants_partial = (\<lambda>(elements, rc_idx).
     (elements[0 := field_add (elements ! 0) (ROUND_CONSTANTS ! rc_idx)], rc_idx + 1))"

definition full_sbox :: "poseidon_state \<Rightarrow> poseidon_state" where
  "full_sbox elements = map (\<lambda>x. field_pow x SBOX_EXP) elements"

definition partial_sbox :: "poseidon_state \<Rightarrow> poseidon_state" where
  "partial_sbox elements = elements[0 := field_pow (elements ! 0) SBOX_EXP]"

definition mds_mix :: "poseidon_state \<Rightarrow> poseidon_state" where
  "mds_mix elements =
     map (\<lambda>i. fold (\<lambda>j acc. field_add acc (field_mul (MDS ! i ! j) (elements ! j))) [0..<STATE_WIDTH] 0) [0..<STATE_WIDTH]"

definition full_round :: "poseidon_state \<times> nat \<Rightarrow> poseidon_state \<times> nat" where
  "full_round s = (let (elements, rc_idx) = add_round_constants s in (mds_mix (full_sbox elements), rc_idx))"

definition partial_round :: "poseidon_state \<times> nat \<Rightarrow> poseidon_state \<times> nat" where
  "partial_round s =
     (let (elements, rc_idx) = add_round_constants_partial s in (mds_mix (partial_sbox elements), rc_idx))"

definition permute :: "poseidon_state \<Rightarrow> poseidon_state" where
  "permute elements =
     fst ((full_round ^^ FULL_ROUNDS_END) ((partial_round ^^ PARTIAL_ROUNDS) ((full_round ^^ FULL_ROUNDS_BEGIN) (elements, 0))))"

section \<open>The hash functions\<close>

text \<open>\<open>Poseidon2Hash\<close> is an array of eight bytes.\<close>

type_synonym poseidon2_hash = "u8 list"

definition from_u64 :: "u64 \<Rightarrow> poseidon2_hash" where "from_u64 v = le_bytes v"
definition as_u64 :: "poseidon2_hash \<Rightarrow> u64" where "as_u64 h = of_nat (le_value h)"

definition poseidon2_hash_two :: "u64 \<Rightarrow> u64 \<Rightarrow> poseidon2_hash" where
  "poseidon2_hash_two left right = from_u64 (permute (poseidon_new[0 := left, 1 := right]) ! 0)"

definition poseidon2_hash_one :: "u64 \<Rightarrow> poseidon2_hash" where
  "poseidon2_hash_one input = poseidon2_hash_two input 0"

fun chunks8 :: "u8 list \<Rightarrow> u8 list list" where
  "chunks8 data = (if data = [] then [] else take 8 data # chunks8 (drop 8 data))"

declare chunks8.simps [simp del]

definition chunk_value :: "u8 list \<Rightarrow> u64" where
  "chunk_value chunk = of_nat (le_value (chunk @ replicate (8 - length chunk) 0)) mod GOLDILOCKS_P"

fun absorb :: "u64 list \<Rightarrow> poseidon_state \<Rightarrow> poseidon_state" where
  "absorb [] s = s"
| "absorb [x] s = permute (s[0 := field_add (s ! 0) x])"
| "absorb (x # y # rest) s = absorb rest (permute (s[0 := field_add (s ! 0) x, 1 := field_add (s ! 1) y]))"

definition poseidon2_hash_bytes :: "u8 list \<Rightarrow> poseidon2_hash" where
  "poseidon2_hash_bytes data =
     (let s = absorb (map chunk_value (chunks8 data)) poseidon_new;
          s' = permute (s[STATE_WIDTH - 1 := field_add (s ! (STATE_WIDTH - 1)) ((of_nat (length data) + 1) mod GOLDILOCKS_P)])
      in from_u64 (s' ! 0))"

section \<open>The Merkle tree\<close>

function pow2_from :: "nat \<Rightarrow> nat \<Rightarrow> nat" where
  "pow2_from p n = (if n \<le> p \<or> p = 0 then p else pow2_from (2 * p) n)"
  by auto
termination by (relation "measure (\<lambda>(p, n). n - p)") auto

declare pow2_from.simps [simp del]

definition next_power_of_two :: "nat \<Rightarrow> nat" where
  "next_power_of_two n = pow2_from 1 n"

text \<open>One level: the pairs of \<open>chunks(2)\<close>; a chunk of one element would panic on its second.\<close>

fun hash_level :: "u64 list \<Rightarrow> u64 list option" where
  "hash_level (x # y # rest) = map_option ((#) (as_u64 (poseidon2_hash_two x y))) (hash_level rest)"
| "hash_level [x] = None"
| "hash_level [] = Some []"

lemma hash_level_length: "hash_level xs = Some ys \<Longrightarrow> length xs = 2 * length ys"
  by (induction xs arbitrary: ys rule: hash_level.induct) auto

function build_tree :: "u64 list \<Rightarrow> u64 option" where
  "build_tree current =
     (if 1 < length current
      then (case hash_level current of None \<Rightarrow> None | Some next_level \<Rightarrow> build_tree next_level)
      else Some (current ! 0))"
  by auto
termination by (relation "measure length") (auto dest!: hash_level_length)

declare build_tree.simps [simp del]

definition poseidon2_merkle_root :: "poseidon2_hash list \<Rightarrow> poseidon2_hash option" where
  "poseidon2_merkle_root leaves =
     (if leaves = [] then Some (from_u64 0)
      else if length leaves = 1 then Some (leaves ! 0)
      else (let next_pow2 = next_power_of_two (length leaves);
                current = map as_u64 leaves @ replicate (next_pow2 - length leaves) 0
            in map_option from_u64 (build_tree current)))"

definition merkle_step :: "poseidon2_hash \<Rightarrow> u64 \<times> u64 \<Rightarrow> u64 \<times> u64" where
  "merkle_step sibling = (\<lambda>(current, idx).
     (let sib = as_u64 sibling
      in (if idx AND 1 = 0 then as_u64 (poseidon2_hash_two current sib)
          else as_u64 (poseidon2_hash_two sib current), drop_bit 1 idx)))"

definition poseidon2_merkle_verify :: "poseidon2_hash \<Rightarrow> poseidon2_hash list \<Rightarrow> u64 \<Rightarrow> poseidon2_hash \<Rightarrow> bool" where
  "poseidon2_merkle_verify leaf path index root =
     (fst (fold merkle_step path (as_u64 leaf, index)) = as_u64 root)"


section \<open>Field arithmetic is arithmetic modulo the prime\<close>

abbreviation "prime_p \<equiv> 18446744069414584321 :: nat"

definition canonical :: "u64 \<Rightarrow> bool" where
  "canonical x \<longleftrightarrow> unat x < prime_p"

lemma len64: "LENGTH(64) = 64"
  by simp

lemma unat_P: "unat GOLDILOCKS_P = prime_p"
  by (simp add: GOLDILOCKS_P_def)

lemma unat_field_add_any:
  assumes "canonical b"
  shows "unat (field_add a b) =
     (if unat a + unat b < prime_p then unat a + unat b else unat a + unat b - prime_p)"
proof -
  let ?n = "unat a + unat b"
  have lt: "unat a < 2 ^ 64" "unat b < 2 ^ 64" "unat b < prime_p"
    using assms u64_less [of a] u64_less [of b] by (auto simp: canonical_def)
  show ?thesis
  proof (cases "?n < 2 ^ 64")
    case True
    then have "unat (a + b) = ?n" by (simp add: unat_add_lem [THEN iffD1])
    then show ?thesis using True
      by (simp add: field_add_def Let_def word_le_nat_alt unat_P unat_sub)
  next
    case False
    have s: "unat (a + b) = ?n - 2 ^ 64"
      using lt False by (simp add: unat_word_ariths mod_if)
    have "a + b - GOLDILOCKS_P = of_nat (?n - prime_p)"
      using False by (simp add: word_unat_eq_iff of_nat_diff GOLDILOCKS_P_def)
    moreover have "?n - prime_p < 2 ^ 64" using lt by simp
    ultimately have "unat (a + b - GOLDILOCKS_P) = ?n - prime_p" by (metis unat_of_nat_less len64)
    then show ?thesis using False by (simp add: field_add_def Let_def)
  qed
qed

lemma field_add_mod:
  assumes "canonical a" and "canonical b"
  shows "canonical (field_add a b)" and "unat (field_add a b) = (unat a + unat b) mod prime_p"
  using assms unat_field_add_any [OF assms(2), of a] by (auto simp: canonical_def mod_if)

lemma unat_field_mul: "unat (field_mul a b) = unat a * unat b mod prime_p"
proof -
  have up: "unat (ucast x :: u128) = unat x" for x :: u64
    using u64_less [of x] by (simp add: unsigned_ucast_eq take_bit_nat_eq_self)
  have "unat a * unat b < 2 ^ 64 * 2 ^ 64" by (intro mult_strict_mono u64_less) simp_all
  then have "unat ((ucast a :: u128) * ucast b) = unat a * unat b"
    by (subst unat_mult_lem [THEN iffD1]) (simp_all add: up)
  then have "unat (((ucast a :: u128) * ucast b) mod ucast GOLDILOCKS_P) = unat a * unat b mod prime_p"
    by (simp add: unat_mod up unat_P)
  moreover have "unat a * unat b mod prime_p < 2 ^ 64"
    by (rule less_trans [OF mod_less_divisor]) simp_all
  ultimately show ?thesis by (simp add: field_mul_def Let_def unsigned_ucast_eq take_bit_nat_eq_self)
qed

text \<open>The square-and-multiply loop, with both accumulators below the modulus after one step.\<close>

lemma unat_mulmod:
  fixes x y :: u128
  assumes "unat x < 2 ^ 64" and "unat y < 2 ^ 64"
  shows "unat ((x * y) mod ucast GOLDILOCKS_P) = unat x * unat y mod prime_p"
proof -
  have "unat x * unat y < 2 ^ 64 * 2 ^ 64" using assms by (intro mult_strict_mono) simp_all
  then have "unat (x * y) = unat x * unat y" by (subst unat_mult_lem [THEN iffD1]) simp_all
  then show ?thesis by (simp add: unat_mod GOLDILOCKS_P_def)
qed

lemma mod_p_less: "n mod prime_p < 2 ^ 64"
  by (rule less_trans [OF mod_less_divisor]) simp_all

lemma odd_bit: "e AND 1 = 1 \<longleftrightarrow> odd (unat e)" for e :: u64
  by (simp add: and_one_eq word_unat_eq_iff unat_mod odd_iff_mod_2_eq_one)

lemma pow_loop_mod:
  assumes "unat res < 2 ^ 64" and "unat b < 2 ^ 64"
  shows "unat (pow_loop res b e) mod prime_p = unat res * unat b ^ unat e mod prime_p \<and>
    (unat res < prime_p \<longrightarrow> unat (pow_loop res b e) < prime_p)"
  using assms
proof (induction res b e rule: pow_loop.induct)
  case (1 res b e)
  let ?p = "ucast GOLDILOCKS_P :: u128"
  show ?case
  proof (cases "0 < e")
    case False
    then have "e = 0" by (simp add: word_gt_0)
    then show ?thesis by (subst (1 2) pow_loop.simps) (simp add: Let_def)
  next
    case True
    let ?res = "if e AND 1 = 1 then (res * b) mod ?p else res" and ?b = "(b * b) mod ?p"
    have b: "unat ?b = unat b * unat b mod prime_p" by (rule unat_mulmod [OF 1(3,3)])
    have r: "unat ?res = (if odd (unat e) then unat res * unat b mod prime_p else unat res)"
      using unat_mulmod [OF 1(2,3)] by (simp add: odd_bit)
    have lt: "unat ?res < 2 ^ 64" "unat ?b < 2 ^ 64"
      using r b 1(2) mod_p_less by (simp_all split: if_splits)
    have step: "pow_loop res b e = pow_loop ?res ?b (drop_bit 1 e)"
      using True by (subst pow_loop.simps) (simp add: Let_def)
    note IH = 1(1) [OF refl True lt]
    have e: "unat e = 2 * (unat e div 2) + unat e mod 2" by simp
    have sq: "(unat b * unat b mod prime_p) ^ (unat e div 2) mod prime_p = unat b ^ (2 * (unat e div 2)) mod prime_p"
      by (simp add: power_mod power2_eq_square [symmetric] power_mult)
    have "unat ?res * unat ?b ^ (unat e div 2) mod prime_p = unat res * unat b ^ unat e mod prime_p"
    proof (cases "odd (unat e)")
      case odd: True
      then have "unat e = Suc (2 * (unat e div 2))" using e by (simp add: odd_iff_mod_2_eq_one)
      then have p: "unat b ^ unat e = unat b * unat b ^ (2 * (unat e div 2))" by (metis power_Suc)
      have "unat ?res * unat ?b ^ (unat e div 2) mod prime_p =
          (unat res * unat b mod prime_p) * ((unat b * unat b mod prime_p) ^ (unat e div 2) mod prime_p) mod prime_p"
        using odd by (simp add: r b mod_mult_right_eq)
      also have "\<dots> = unat res * unat b * unat b ^ (2 * (unat e div 2)) mod prime_p"
        unfolding sq by (simp only: mod_mult_left_eq mod_mult_right_eq)
      finally show ?thesis by (simp add: p mult.assoc)
    next
      case even: False
      then have p: "unat b ^ unat e = unat b ^ (2 * (unat e div 2))" by simp
      have "unat ?res * unat ?b ^ (unat e div 2) mod prime_p =
          unat res * ((unat b * unat b mod prime_p) ^ (unat e div 2) mod prime_p) mod prime_p"
        using even by (simp add: r b mod_mult_right_eq)
      also have "\<dots> = unat res * unat b ^ (2 * (unat e div 2)) mod prime_p"
        unfolding sq by (simp only: mod_mult_right_eq)
      finally show ?thesis by (simp only: p)
    qed
    moreover have "unat ?res < prime_p" if "unat res < prime_p"
      unfolding r using that by simp
    ultimately show ?thesis using IH unfolding step by simp
  qed
qed

lemma unat_field_pow:
  assumes "exp \<noteq> 0"
  shows "unat (field_pow base exp) = unat base ^ unat exp mod prime_p"
proof -
  have up: "unat (ucast base :: u128) = unat base"
    using u64_less [of base] by (simp add: unsigned_ucast_eq take_bit_nat_eq_self)
  have L: "unat (pow_loop 1 (ucast base) exp) mod prime_p = unat base ^ unat exp mod prime_p"
    "unat (pow_loop 1 (ucast base) exp) < prime_p"
    using pow_loop_mod [of 1 "ucast base" exp] u64_less [of base] by (auto simp: up)
  then have "unat (pow_loop 1 (ucast base) exp) < 2 ^ 64" by simp
  then show ?thesis using assms L by (simp add: field_pow_def unsigned_ucast_eq take_bit_nat_eq_self)
qed

section \<open>The round constants are nonzero field elements\<close>

lemma extract_constant_canonical: "canonical (extract_constant st) \<and> extract_constant st \<noteq> 0"
proof -
  have "unat (raw mod GOLDILOCKS_P) < prime_p" for raw by (simp add: unat_mod unat_P)
  then show ?thesis by (auto simp: extract_constant_def Let_def canonical_def)
qed

lemma constant_chain_props:
  "length (constant_chain n st) = n \<and> (\<forall>c \<in> set (constant_chain n st). canonical c \<and> c \<noteq> 0)"
  by (induction n arbitrary: st) (auto simp: Let_def extract_constant_canonical)

lemma round_constants:
  "length ROUND_CONSTANTS = 80" "i < 80 \<Longrightarrow> canonical (ROUND_CONSTANTS ! i)"
proof -
  have *: "length ROUND_CONSTANTS = 80 \<and> (\<forall>c \<in> set ROUND_CONSTANTS. canonical c \<and> c \<noteq> 0)"
    unfolding ROUND_CONSTANTS_def generate_round_constants_def by (rule constant_chain_props)
  then show "length ROUND_CONSTANTS = 80" ..
  show "i < 80 \<Longrightarrow> canonical (ROUND_CONSTANTS ! i)" using * by simp
qed

section \<open>The permutation refines its description over the field\<close>

text \<open>
  The rounds as arithmetic modulo the prime, on three numbers: a full round adds three
  constants, raises every element to the fifth power and mixes; a partial round does so on the
  first element only.
\<close>

definition spec_mix :: "nat list \<Rightarrow> nat list" where
  "spec_mix s = (let x = s ! 0; y = s ! 1; z = s ! 2
     in [(2 * x + y + z) mod prime_p, (x + 2 * y + z) mod prime_p, (x + y + 2 * z) mod prime_p])"

definition spec_full :: "nat list \<Rightarrow> nat list \<Rightarrow> nat list" where
  "spec_full c s = spec_mix (map2 (\<lambda>a b. (a + b) ^ 5 mod prime_p) s c)"

definition spec_partial :: "nat \<Rightarrow> nat list \<Rightarrow> nat list" where
  "spec_partial c s = spec_mix [(s ! 0 + c) ^ 5 mod prime_p, s ! 1, s ! 2]"

definition spec_permute :: "nat list \<Rightarrow> nat list \<Rightarrow> nat list" where
  "spec_permute c s =
     fold (\<lambda>r. spec_full (take 3 (drop (68 + 3 * r) c))) [0..<4]
       (fold (\<lambda>k. spec_partial (c ! (12 + k))) [0..<56]
         (fold (\<lambda>r. spec_full (take 3 (drop (3 * r) c))) [0..<4] s))"

definition good :: "poseidon_state \<Rightarrow> bool" where
  "good s \<longleftrightarrow> length s = 3 \<and> list_all canonical s"

lemma good_cases:
  assumes "good s"
  obtains x y z where "s = [x, y, z]" "canonical x" "canonical y" "canonical z"
  using assms by (auto simp: good_def numeral_3_eq_3 length_Suc_conv)

lemma canonical_results:
  "canonical (field_mul a b)" "e \<noteq> 0 \<Longrightarrow> canonical (field_pow a e)" "canonical 0"
  by (simp_all add: canonical_def unat_field_mul unat_field_pow)

lemma field_add_zero: "canonical b \<Longrightarrow> field_add 0 b = b"
  by (rule word_unat_eq_iff [THEN iffD2]) (simp add: field_add_mod canonical_results, simp add: canonical_def)

lemma mds_mix_spec:
  assumes "good s"
  shows "good (mds_mix s)" and "map unat (mds_mix s) = spec_mix (map unat s)"
proof -
  obtain x y z where s: "s = [x, y, z]" "canonical x" "canonical y" "canonical z"
    using good_cases [OF assms] .
  have one: "field_mul 1 a = a" if "canonical a" for a
    by (rule word_unat_eq_iff [THEN iffD2]) (use that in \<open>simp add: unat_field_mul canonical_def\<close>)
  have two: "unat (field_mul 2 a) = 2 * unat a mod prime_p" for a
    by (simp add: unat_field_mul)
  have m: "mds_mix s =
    [field_add (field_add (field_mul 2 x) y) z, field_add (field_add x (field_mul 2 y)) z,
     field_add (field_add x y) (field_mul 2 z)]"
    using s by (simp add: mds_mix_def STATE_WIDTH_def MDS_def upt_conv_Cons numeral_2_eq_2 one
        field_add_zero canonical_results)
  show "good (mds_mix s)"
    unfolding m using s by (simp add: good_def field_add_mod canonical_results)
  show "map unat (mds_mix s) = spec_mix (map unat s)"
    unfolding m using s by (simp add: spec_mix_def Let_def field_add_mod canonical_results two mod_simps numeral_2_eq_2)
qed

lemma add_then_pow:
  assumes "canonical a" and "canonical c"
  shows "unat (field_pow (field_add a c) SBOX_EXP) = (unat a + unat c) ^ 5 mod prime_p"
  using assms by (simp add: unat_field_pow SBOX_EXP_def field_add_mod power_mod)

lemma full_round_spec:
  assumes "good s" and "i + 3 \<le> 80"
  shows "snd (full_round (s, i)) = i + 3" and "good (fst (full_round (s, i)))"
    and "map unat (fst (full_round (s, i))) = spec_full (take 3 (drop i (map unat ROUND_CONSTANTS))) (map unat s)"
proof -
  obtain x y z where s: "s = [x, y, z]" "canonical x" "canonical y" "canonical z"
    using good_cases [OF assms(1)] .
  let ?c = "\<lambda>k. ROUND_CONSTANTS ! (i + k)"
  have c: "canonical (?c 0)" "canonical (?c 1)" "canonical (?c 2)"
    using assms(2) round_constants(2) by simp_all
  let ?b = "map (\<lambda>(a, c). field_pow (field_add a c) SBOX_EXP) [(x, ?c 0), (y, ?c 1), (z, ?c 2)]"
  have f: "full_round (s, i) = (mds_mix ?b, i + 3)"
    by (simp add: full_round_def add_round_constants_def full_sbox_def s(1) STATE_WIDTH_def upt_conv_Cons numeral_2_eq_2)
  have g: "good ?b" by (simp add: good_def canonical_results SBOX_EXP_def)
  have t: "take 3 (drop i (map unat ROUND_CONSTANTS)) = [unat (?c 0), unat (?c 1), unat (?c 2)]"
    using assms(2) round_constants(1)
    by (intro nth_equalityI) (auto simp: nth_append less_Suc_eq numeral_3_eq_3 numeral_2_eq_2)
  show "snd (full_round (s, i)) = i + 3" by (simp add: f)
  show "good (fst (full_round (s, i)))" using mds_mix_spec(1) [OF g] by (simp add: f)
  show "map unat (fst (full_round (s, i))) = spec_full (take 3 (drop i (map unat ROUND_CONSTANTS))) (map unat s)"
    unfolding f t spec_full_def using mds_mix_spec(2) [OF g] s c by (simp add: add_then_pow)
qed

lemma partial_round_spec:
  assumes "good s" and "i < 80"
  shows "snd (partial_round (s, i)) = i + 1" and "good (fst (partial_round (s, i)))"
    and "map unat (fst (partial_round (s, i))) = spec_partial (map unat ROUND_CONSTANTS ! i) (map unat s)"
proof -
  obtain x y z where s: "s = [x, y, z]" "canonical x" "canonical y" "canonical z"
    using good_cases [OF assms(1)] .
  have c: "canonical (ROUND_CONSTANTS ! i)" using assms(2) by (rule round_constants(2))
  let ?b = "[field_pow (field_add x (ROUND_CONSTANTS ! i)) SBOX_EXP, y, z]"
  have f: "partial_round (s, i) = (mds_mix ?b, i + 1)"
    by (simp add: partial_round_def add_round_constants_partial_def partial_sbox_def s(1))
  have g: "good ?b" using s by (simp add: good_def canonical_results SBOX_EXP_def)
  show "snd (partial_round (s, i)) = i + 1" by (simp add: f)
  show "good (fst (partial_round (s, i)))" using mds_mix_spec(1) [OF g] by (simp add: f)
  show "map unat (fst (partial_round (s, i))) = spec_partial (map unat ROUND_CONSTANTS ! i) (map unat s)"
    unfolding f spec_partial_def using mds_mix_spec(2) [OF g] s c assms(2)
    by (simp add: add_then_pow round_constants(1))
qed

lemma full_rounds_spec:
  assumes "good s" and "i + 3 * n \<le> 80"
  shows "snd ((full_round ^^ n) (s, i)) = i + 3 * n \<and> good (fst ((full_round ^^ n) (s, i))) \<and>
    map unat (fst ((full_round ^^ n) (s, i))) =
      fold (\<lambda>r. spec_full (take 3 (drop (i + 3 * r) (map unat ROUND_CONSTANTS)))) [0..<n] (map unat s)"
  using assms
proof (induction n)
  case (Suc n)
  let ?t = "(full_round ^^ n) (s, i)"
  have IH: "?t = (fst ?t, i + 3 * n)" "good (fst ?t)" using Suc by (simp_all add: prod_eq_iff)
  have "i + 3 * n + 3 \<le> 80" using Suc.prems by simp
  note F = full_round_spec [OF IH(2) this]
  show ?case using F Suc IH(1) [symmetric] by simp
qed simp

lemma partial_rounds_spec:
  assumes "good s" and "i + n \<le> 80"
  shows "snd ((partial_round ^^ n) (s, i)) = i + n \<and> good (fst ((partial_round ^^ n) (s, i))) \<and>
    map unat (fst ((partial_round ^^ n) (s, i))) =
      fold (\<lambda>k. spec_partial (map unat ROUND_CONSTANTS ! (i + k))) [0..<n] (map unat s)"
  using assms
proof (induction n)
  case (Suc n)
  let ?t = "(partial_round ^^ n) (s, i)"
  have IH: "?t = (fst ?t, i + n)" "good (fst ?t)" using Suc by (simp_all add: prod_eq_iff)
  have "i + n < 80" using Suc.prems by simp
  note F = partial_round_spec [OF IH(2) this]
  show ?case using F Suc IH(1) [symmetric] by simp
qed simp

lemma permute_spec:
  assumes "good s"
  shows "good (permute s) \<and> map unat (permute s) = spec_permute (map unat ROUND_CONSTANTS) (map unat s)"
proof -
  let ?a = "(full_round ^^ 4) (s, 0)"
  note A = full_rounds_spec [OF assms, of 0 4]
  have a: "?a = (fst ?a, 12)" using A by (simp add: prod_eq_iff)
  let ?b = "(partial_round ^^ 56) (fst ?a, 12)"
  note B = partial_rounds_spec [of "fst ?a" 12 56]
  have b: "?b = (fst ?b, 68)" using A B by (simp add: prod_eq_iff)
  note C = full_rounds_spec [of "fst ?b" 68 4]
  have "permute s = fst ((full_round ^^ 4) (fst ?b, 68))"
    unfolding permute_def FULL_ROUNDS_BEGIN_def FULL_ROUNDS_END_def PARTIAL_ROUNDS_def using a b by simp
  then show ?thesis using A B C unfolding spec_permute_def by simp
qed

section \<open>The fifth power is not injective: collisions\<close>

text \<open>
  Five divides the order of the multiplicative group of the field, so there is a fifth root of
  unity other than one: multiplying by it leaves the S-box unchanged.
\<close>

definition OMEGA :: nat where "OMEGA = 1373043270956696022"
definition OMEGA_INV :: nat where "OMEGA_INV = 14374118087968855019"

lemma omega_root: "OMEGA ^ 5 mod prime_p = 1" "(OMEGA - 1) * OMEGA_INV mod prime_p = 1"
  by (simp_all add: OMEGA_def OMEGA_INV_def)

lemma omega_moves:
  assumes "0 < y" and "y < prime_p"
  shows "OMEGA * y mod prime_p \<noteq> y"
proof
  assume eq: "OMEGA * y mod prime_p = y"
  have "OMEGA * y = (OMEGA - 1) * y + y" by (simp add: OMEGA_def)
  then have "((OMEGA - 1) * y + y) mod prime_p = (0 + y) mod prime_p" using eq assms by simp
  then have "prime_p dvd (OMEGA - 1) * y" by (simp add: mod_eq_dvd_iff_nat)
  then have "prime_p dvd ((OMEGA - 1) * OMEGA_INV) * y" by (metis dvd_mult2 mult.assoc mult.commute)
  then have "((OMEGA - 1) * OMEGA_INV mod prime_p) * y mod prime_p = 0" by (simp add: mod_mult_left_eq dvd_eq_mod_eq_0)
  then show False using assms unfolding omega_root by simp
qed

lemma omega_fifth: "(OMEGA * y mod prime_p) ^ 5 mod prime_p = y ^ 5 mod prime_p"
proof -
  have "(OMEGA * y mod prime_p) ^ 5 mod prime_p = (OMEGA ^ 5 mod prime_p) * y ^ 5 mod prime_p"
    by (simp only: power_mod power_mult_distrib mod_mult_left_eq)
  then show ?thesis unfolding omega_root by simp
qed

lemma other_summand:
  assumes "canonical x" and "canonical c" and "field_add x c \<noteq> 0"
  obtains x' where "canonical x'" "x' \<noteq> x" "field_pow (field_add x' c) SBOX_EXP = field_pow (field_add x c) SBOX_EXP"
proof -
  let ?y = "unat (field_add x c)"
  have y: "?y < prime_p" "0 < ?y"
    using assms(3) field_add_mod(1) [OF assms(1,2)] by (simp_all add: canonical_def unat_gt_0)
  let ?z = "OMEGA * ?y mod prime_p"
  let ?x = "(?z + (prime_p - unat c)) mod prime_p"
  have c: "unat c < prime_p" using assms(2) by (simp add: canonical_def)
  have x: "unat (of_nat ?x :: u64) = ?x" by (rule unat_of_nat_less) (use mod_p_less in simp)
  then have can: "canonical (of_nat ?x)" by (simp add: canonical_def)
  have "unat (field_add (of_nat ?x) c) = (?x + unat c) mod prime_p"
    by (simp only: field_add_mod(2) [OF can assms(2)] x)
  also have "\<dots> = (?z + (prime_p - unat c) + unat c) mod prime_p" by (rule mod_add_left_eq)
  also have "\<dots> = ?z" using c by simp
  finally have z: "unat (field_add (of_nat ?x) c) = ?z" .
  show thesis
  proof (rule that [OF can])
    show "of_nat ?x \<noteq> x"
    proof
      assume "of_nat ?x = x"
      then have "?z = ?y" using z by simp
      then show False using omega_moves [OF y(2,1)] by simp
    qed
    show "field_pow (field_add (of_nat ?x) c) SBOX_EXP = field_pow (field_add x c) SBOX_EXP"
      by (rule word_unat_eq_iff [THEN iffD2]) (simp add: unat_field_pow SBOX_EXP_def z omega_fifth)
  qed
qed

lemma as_u64_from_u64 [simp]: "as_u64 (from_u64 v) = v"
  by (simp add: as_u64_def from_u64_def le_value_le_bytes)

lemma from_u64_inject [simp]: "from_u64 v = from_u64 w \<longleftrightarrow> v = w"
  by (metis as_u64_from_u64)

lemma start_state: "poseidon_new[0 := l, 1 := r] = [l, r, 0]"
  by (simp add: poseidon_new_def STATE_WIDTH_def numeral_3_eq_3)

lemma permute_first_sbox:
  assumes "full_sbox (fst (add_round_constants (s, 0))) = full_sbox (fst (add_round_constants (t, 0)))"
  shows "permute s = permute t"
proof -
  have "full_round (s, 0) = full_round (t, 0)"
    using assms by (simp add: full_round_def add_round_constants_def)
  moreover have "(full_round ^^ FULL_ROUNDS_BEGIN) x = (full_round ^^ 3) (full_round x)" for x
    by (simp add: FULL_ROUNDS_BEGIN_def numeral_eq_Suc funpow_swap1)
  ultimately show ?thesis by (simp add: permute_def)
qed

lemma first_sbox:
  "full_sbox (fst (add_round_constants ([x, y, z], 0))) =
     [field_pow (field_add x (ROUND_CONSTANTS ! 0)) SBOX_EXP, field_pow (field_add y (ROUND_CONSTANTS ! 1)) SBOX_EXP,
      field_pow (field_add z (ROUND_CONSTANTS ! 2)) SBOX_EXP]"
  by (simp add: full_sbox_def add_round_constants_def STATE_WIDTH_def upt_conv_Cons numeral_2_eq_2)

lemma hash_two_other_left:
  assumes "canonical left" and "field_add left (ROUND_CONSTANTS ! 0) \<noteq> 0"
  obtains left' where "canonical left'" "left' \<noteq> left" "poseidon2_hash_two left' right = poseidon2_hash_two left right"
proof -
  obtain l where l: "canonical l" "l \<noteq> left"
    "field_pow (field_add l (ROUND_CONSTANTS ! 0)) SBOX_EXP = field_pow (field_add left (ROUND_CONSTANTS ! 0)) SBOX_EXP"
    using other_summand [OF assms(1) round_constants(2) assms(2)] by auto
  have "permute [l, right, 0] = permute [left, right, 0]"
    by (rule permute_first_sbox) (simp only: first_sbox l(3))
  then show thesis using that [OF l(1,2)] by (simp only: poseidon2_hash_two_def start_state)
qed

lemma hash_two_other_right:
  assumes "canonical right" and "field_add right (ROUND_CONSTANTS ! 1) \<noteq> 0"
  obtains right' where "canonical right'" "right' \<noteq> right" "poseidon2_hash_two left right' = poseidon2_hash_two left right"
proof -
  obtain r where r: "canonical r" "r \<noteq> right"
    "field_pow (field_add r (ROUND_CONSTANTS ! 1)) SBOX_EXP = field_pow (field_add right (ROUND_CONSTANTS ! 1)) SBOX_EXP"
    using other_summand [OF assms(1) round_constants(2) assms(2)] by auto
  have "permute [left, r, 0] = permute [left, right, 0]"
    by (rule permute_first_sbox) (simp only: first_sbox r(3))
  then show thesis using that [OF r(1,2)] by (simp only: poseidon2_hash_two_def start_state)
qed

text \<open>
  The field operations are arithmetic modulo the Goldilocks prime: on reduced operands the
  addition, and on any operands the multiplication and the square-and-multiply power with a
  positive exponent, return the reduced result.
\<close>

theorem field_operations_correct:
  assumes "unat a < prime_p" and "unat b < prime_p" and "exp \<noteq> 0"
  shows "unat (field_add a b) = (unat a + unat b) mod prime_p \<and>
    unat (field_mul c d) = unat c * unat d mod prime_p \<and>
    unat (field_pow c exp) = unat c ^ unat exp mod prime_p"
  using assms by (simp add: field_add_mod canonical_def unat_field_mul unat_field_pow)

theorem field_operations_correct_witness:
  "unat (field_pow 7 5) = 16807 \<and> unat (field_add (GOLDILOCKS_P - 1) 3) = 2"
proof -
  have "unat (GOLDILOCKS_P - 1) = 18446744069414584320" by (simp add: GOLDILOCKS_P_def)
  then show ?thesis
    using field_operations_correct [of "GOLDILOCKS_P - 1" 3 5 7 7] by simp
qed

text \<open>
  C20. The compression of two reduced elements is the three-phase permutation over the field:
  four full rounds, fifty-six partial and four full ones over the state of both inputs and a
  zero, consuming each of the eighty constants once and in order; its first element is the hash.
\<close>

theorem hash_two_refines_field_rounds:
  assumes "unat left < prime_p" and "unat right < prime_p"
  shows "unat (as_u64 (poseidon2_hash_two left right)) =
      spec_permute (map unat ROUND_CONSTANTS) [unat left, unat right, 0] ! 0 \<and>
    length ROUND_CONSTANTS = 80"
proof -
  have "good [left, right, 0]" using assms by (simp add: good_def canonical_def)
  then have P: "good (permute [left, right, 0])"
    "map unat (permute [left, right, 0]) = spec_permute (map unat ROUND_CONSTANTS) [unat left, unat right, 0]"
    using permute_spec [of "[left, right, 0]"] by simp_all
  have "0 < length (permute [left, right, 0])" using P(1) by (simp add: good_def)
  then have "unat (permute [left, right, 0] ! 0) = map unat (permute [left, right, 0]) ! 0" by simp
  then show ?thesis unfolding P(2) by (simp add: poseidon2_hash_two_def start_state round_constants(1) del: One_nat_def)
qed

theorem hash_two_refines_field_rounds_witness:
  "unat (as_u64 (poseidon2_hash_two 1 2)) = spec_permute (map unat ROUND_CONSTANTS) [1, 2, 0] ! 0"
  using hash_two_refines_field_rounds [of 1 2] by simp

text \<open>
  C21. The compression has collisions everywhere: for every right input and every reduced left
  input (but one), there is another reduced left input with the same hash, because the S-box
  exponent 5 divides the order of the multiplicative group of this field.
\<close>

theorem poseidon2_collides:
  assumes "unat left < prime_p" and "field_add left (ROUND_CONSTANTS ! 0) \<noteq> 0"
  shows "\<exists>left'. unat left' < prime_p \<and> left' \<noteq> left \<and> poseidon2_hash_two left' right = poseidon2_hash_two left right"
  using hash_two_other_left [of left right] assms by (auto simp: canonical_def)

lemma usable_left:
  obtains x where "x = 0 \<or> x = 1" "field_add x (ROUND_CONSTANTS ! 0) \<noteq> 0"
proof (cases "field_add 0 (ROUND_CONSTANTS ! 0) = 0")
  case True
  have c: "canonical (ROUND_CONSTANTS ! 0)" by (rule round_constants(2)) simp
  then have "ROUND_CONSTANTS ! 0 = 0" using True by (simp add: field_add_zero)
  then have "field_add 1 (ROUND_CONSTANTS ! 0) = 1"
    by (simp add: field_add_def GOLDILOCKS_P_def word_le_nat_alt)
  with that [of 1] show thesis by simp
qed (rule that [of 0], simp_all)

theorem poseidon2_collides_witness:
  "\<exists>left \<in> {0, 1}. \<exists>left'. left' \<noteq> left \<and> poseidon2_hash_two left' 7 = poseidon2_hash_two left 7"
proof -
  obtain x where x: "x = 0 \<or> x = 1" "field_add x (ROUND_CONSTANTS ! 0) \<noteq> 0" by (rule usable_left)
  with poseidon2_collides [of x 7] show ?thesis by fastforce
qed

section \<open>The Merkle tree and its verifier\<close>

lemma pow2_from_power:
  "\<exists>k. pow2_from (2 ^ a) n = 2 ^ k \<and> n \<le> 2 ^ k \<and> (a < k \<longrightarrow> 2 ^ k < 2 * n)"
proof (induction "2 ^ a :: nat" n arbitrary: a rule: pow2_from.induct)
  case (1 n)
  show ?case
  proof (cases "n \<le> 2 ^ a")
    case True
    then show ?thesis by (subst pow2_from.simps) auto
  next
    case False
    then have "\<exists>k. pow2_from (2 ^ Suc a) n = 2 ^ k \<and> n \<le> 2 ^ k \<and> (Suc a < k \<longrightarrow> 2 ^ k < 2 * n)"
      by (intro 1) simp_all
    then obtain k where k: "pow2_from (2 ^ Suc a) n = 2 ^ k" "n \<le> 2 ^ k" "Suc a < k \<longrightarrow> 2 ^ k < 2 * n" by blast
    have "pow2_from (2 ^ a) n = 2 ^ k" using False k(1) by (subst pow2_from.simps) simp
    moreover have "(2 :: nat) ^ k < 2 * n" if "a < k"
      using that False k by (cases "k = Suc a") auto
    ultimately show ?thesis using k by blast
  qed
qed

lemma next_power_of_two_power:
  obtains k where "next_power_of_two n = 2 ^ k" "n \<le> 2 ^ k" "k \<noteq> 0 \<longrightarrow> 2 ^ k < 2 * n"
  using pow2_from_power [of 0 n] by (auto simp: next_power_of_two_def)

text \<open>The pairing as a total function, used to describe the tree.\<close>

fun hash_pairs :: "u64 list \<Rightarrow> u64 list" where
  "hash_pairs (x # y # rest) = as_u64 (poseidon2_hash_two x y) # hash_pairs rest"
| "hash_pairs _ = []"

lemma hash_level_even: "even (length xs) \<Longrightarrow> hash_level xs = Some (hash_pairs xs)"
  by (induction xs rule: hash_level.induct) auto

lemma length_hash_pairs [simp]: "length (hash_pairs xs) = length xs div 2"
  by (induction xs rule: hash_pairs.induct) auto

lemma hash_pairs_nth:
  "i < length xs div 2 \<Longrightarrow>
   hash_pairs xs ! i = as_u64 (poseidon2_hash_two (xs ! (2 * i)) (xs ! Suc (2 * i)))"
proof (induction xs arbitrary: i rule: hash_pairs.induct)
  case (1 x y rest)
  then show ?case by (cases i) auto
qed auto

lemma build_tree_power: "length xs = 2 ^ k \<Longrightarrow> build_tree xs = Some ((hash_pairs ^^ k) xs ! 0)"
proof (induction k arbitrary: xs)
  case 0
  then show ?case by (subst build_tree.simps) simp
next
  case (Suc k)
  have "1 < length xs" unfolding Suc.prems by (rule one_less_power) simp_all
  then have "build_tree xs = build_tree (hash_pairs xs)"
    using Suc.prems by (subst build_tree.simps) (simp add: hash_level_even)
  then show ?case using Suc.IH [of "hash_pairs xs"] Suc.prems by (simp add: funpow_swap1)
qed

text \<open>The sibling path of a position, from the leaves to the root.\<close>

fun merkle_path :: "nat \<Rightarrow> nat \<Rightarrow> u64 list \<Rightarrow> poseidon2_hash list" where
  "merkle_path 0 i xs = []"
| "merkle_path (Suc k) i xs =
     from_u64 (xs ! (if even i then i + 1 else i - 1)) # merkle_path k (i div 2) (hash_pairs xs)"

lemma length_merkle_path [simp]: "length (merkle_path k i xs) = k"
  by (induction k arbitrary: i xs) auto

lemma shift_of_nat:
  assumes "i < 2 ^ 64"
  shows "drop_bit 1 (of_nat i :: u64) = of_nat (i div 2)" and "(of_nat i :: u64) AND 1 = 0 \<longleftrightarrow> even i"
  using assms
  by (auto simp: word_unat_eq_iff unat_of_nat_less and_one_eq unat_mod even_iff_mod_2_eq_zero)

lemma merkle_path_verifies:
  "length xs = 2 ^ k \<Longrightarrow> i < 2 ^ k \<Longrightarrow> i < 2 ^ 64 \<Longrightarrow>
   fst (fold merkle_step (merkle_path k i xs) (xs ! i, of_nat i)) = (hash_pairs ^^ k) xs ! 0"
proof (induction k arbitrary: i xs)
  case (Suc k)
  have "merkle_step (from_u64 (xs ! (if even i then i + 1 else i - 1))) (xs ! i, of_nat i) =
      (hash_pairs xs ! (i div 2), of_nat (i div 2))"
  proof (cases "even i")
    case True
    then obtain j where "i = 2 * j" by blast
    then show ?thesis using Suc.prems shift_of_nat [OF Suc.prems(3)] hash_pairs_nth [of j xs]
      by (simp add: merkle_step_def Let_def)
  next
    case False
    then obtain j where "i = 2 * j + 1" by (blast elim: oddE)
    then show ?thesis using Suc.prems shift_of_nat [OF Suc.prems(3)] hash_pairs_nth [of j xs]
      by (simp add: merkle_step_def Let_def)
  qed
  then show ?case using Suc.IH [of "hash_pairs xs" "i div 2"] Suc.prems
    by (simp add: funpow_swap1 less_mult_imp_div_less)
qed simp

text \<open>
  Merkle completeness: for every nonempty list of leaves the root is defined, and the sibling
  path of each leaf, of the height of the tree over the padded list, is accepted at its position.
\<close>

theorem merkle_verifies_every_leaf:
  assumes "i < length leaves" and "length leaves < 2 ^ 63" and "\<And>l. l \<in> set leaves \<Longrightarrow> length l = 8"
  shows "\<exists>k root. poseidon2_merkle_root leaves = Some root \<and> 2 ^ k < 2 * length leaves \<and>
    poseidon2_merkle_verify (leaves ! i)
      (merkle_path k i (map as_u64 leaves @ replicate (2 ^ k - length leaves) 0)) (of_nat i) root"
proof (cases "length leaves = 1")
  case True
  then show ?thesis using assms(1)
    by (intro exI [of _ 0] exI [of _ "leaves ! 0"])
      (auto simp: poseidon2_merkle_root_def poseidon2_merkle_verify_def)
next
  case False
  obtain k where k: "next_power_of_two (length leaves) = 2 ^ k" "length leaves \<le> 2 ^ k" "k \<noteq> 0 \<longrightarrow> 2 ^ k < 2 * length leaves"
    by (rule next_power_of_two_power)
  let ?xs = "map as_u64 leaves @ replicate (2 ^ k - length leaves) 0"
  have len: "length ?xs = 2 ^ k" using k by simp
  have i: "i < 2 ^ k" "i < 2 ^ 64" "?xs ! i = as_u64 (leaves ! i)" using assms(1,2) k by (simp_all add: nth_append)
  have "poseidon2_merkle_root leaves = Some (from_u64 ((hash_pairs ^^ k) ?xs ! 0))"
    using False assms(1) k(1) build_tree_power [OF len] by (auto simp: poseidon2_merkle_root_def Let_def)
  moreover have "(2 :: nat) ^ k < 2 * length leaves" using k assms(1) by (cases "k = 0") auto
  moreover have "fst (fold merkle_step (merkle_path k i ?xs) (as_u64 (leaves ! i), of_nat i)) = (hash_pairs ^^ k) ?xs ! 0"
    using merkle_path_verifies [OF len i(1,2)] i(3) by simp
  ultimately show ?thesis by (auto simp: poseidon2_merkle_verify_def)
qed

theorem merkle_verifies_every_leaf_witness:
  "\<exists>root path. poseidon2_merkle_root [from_u64 1, from_u64 2, from_u64 3] = Some root \<and>
     poseidon2_merkle_verify (from_u64 3) path 2 root"
proof -
  let ?ls = "[from_u64 1, from_u64 2, from_u64 3]"
  have "\<exists>k root. poseidon2_merkle_root ?ls = Some root \<and> 2 ^ k < 2 * length ?ls \<and>
    poseidon2_merkle_verify (?ls ! 2) (merkle_path k 2 (map as_u64 ?ls @ replicate (2 ^ k - length ?ls) 0)) (of_nat 2) root"
    by (rule merkle_verifies_every_leaf) (auto simp: from_u64_def)
  then show ?thesis by auto
qed

text \<open>
  Every accepted proof can be moved to a forged leaf: whatever a nonempty path, a position
  and a root accept, they also accept another leaf, as long as the leaf is a reduced element and
  not the single one whose first S-box input is zero.
\<close>

theorem merkle_leaf_forgery:
  assumes "poseidon2_merkle_verify leaf (sibling # path) index root"
    and "unat (as_u64 leaf) < prime_p"
    and "field_add (as_u64 leaf) (ROUND_CONSTANTS ! unat (index AND 1)) \<noteq> 0"
  shows "\<exists>leaf'. length leaf' = 8 \<and> as_u64 leaf' \<noteq> as_u64 leaf \<and>
    poseidon2_merkle_verify leaf' (sibling # path) index root"
proof -
  have can: "canonical (as_u64 leaf)" using assms(2) by (simp add: canonical_def)
  obtain v where v: "v \<noteq> as_u64 leaf" "merkle_step sibling (v, index) = merkle_step sibling (as_u64 leaf, index)"
  proof (cases "index AND 1 = 0")
    case True
    have nz: "field_add (as_u64 leaf) (ROUND_CONSTANTS ! 0) \<noteq> 0" using assms(3) unfolding True by simp
    obtain w where "w \<noteq> as_u64 leaf" "poseidon2_hash_two w (as_u64 sibling) = poseidon2_hash_two (as_u64 leaf) (as_u64 sibling)"
      by (rule hash_two_other_left [OF can nz])
    then show thesis by (intro that [of w]) (simp_all add: merkle_step_def True)
  next
    case False
    then have one: "index AND 1 = 1" by (simp add: and_one_eq word_unat_eq_iff unat_mod)
    have nz: "field_add (as_u64 leaf) (ROUND_CONSTANTS ! 1) \<noteq> 0" using assms(3) unfolding one by simp
    obtain w where "w \<noteq> as_u64 leaf" "poseidon2_hash_two (as_u64 sibling) w = poseidon2_hash_two (as_u64 sibling) (as_u64 leaf)"
      by (rule hash_two_other_right [OF can nz])
    then show thesis by (intro that [of w]) (simp_all add: merkle_step_def one)
  qed
  then show ?thesis
    using assms(1) by (intro exI [of _ "from_u64 v"]) (simp add: poseidon2_merkle_verify_def, simp add: from_u64_def)
qed

theorem merkle_leaf_forgery_witness:
  "\<exists>leaf leaf' root. as_u64 leaf' \<noteq> as_u64 leaf \<and> poseidon2_merkle_verify leaf [from_u64 9] 0 root \<and>
     poseidon2_merkle_verify leaf' [from_u64 9] 0 root"
proof -
  obtain x where x: "x = 0 \<or> x = 1" "field_add x (ROUND_CONSTANTS ! 0) \<noteq> 0" by (rule usable_left)
  have v: "poseidon2_merkle_verify (from_u64 x) [from_u64 9] 0 (poseidon2_hash_two x 9)"
    by (simp add: poseidon2_merkle_verify_def merkle_step_def)
  from merkle_leaf_forgery [OF v] x
  obtain leaf' where "as_u64 leaf' \<noteq> x" "poseidon2_merkle_verify leaf' [from_u64 9] 0 (poseidon2_hash_two x 9)"
    by auto
  with v show ?thesis
    by (intro exI [of _ "from_u64 x"] exI [of _ leaf'] exI [of _ "poseidon2_hash_two x 9"]) simp
qed

text \<open>
  The root does not determine the number of leaves: appending a zero leaf to a list whose
  length is not a power of two leaves the root unchanged.
\<close>

theorem merkle_root_ignores_zero_leaf:
  assumes "2 ^ k < length leaves" and "length leaves < 2 ^ Suc k"
  shows "poseidon2_merkle_root (leaves @ [from_u64 0]) = poseidon2_merkle_root leaves"
proof -
  have pow: "next_power_of_two n = 2 ^ Suc k" if n: "2 ^ k < n" "n \<le> 2 ^ Suc k" for n
  proof -
    obtain j where j: "next_power_of_two n = 2 ^ j" "n \<le> 2 ^ j" "j \<noteq> 0 \<longrightarrow> 2 ^ j < 2 * n"
      by (rule next_power_of_two_power)
    have "(2 :: nat) ^ k < 2 ^ j" by (rule less_le_trans [OF n(1) j(2)])
    moreover have "(2 :: nat) ^ j < 2 ^ Suc (Suc k)" using j(3) n calculation by (cases "j = 0") auto
    ultimately have "k < j" "j < Suc (Suc k)"
      by (auto intro: power_less_imp_less_exp [of "2 :: nat"])
    then have "j = Suc k" by simp
    then show ?thesis using j(1) by simp
  qed
  have "1 \<le> (2 :: nat) ^ k" by simp
  then have "1 < length leaves" using assms(1) by linarith
  then show ?thesis
    using assms pow [of "length leaves"] pow [of "Suc (length leaves)"]
    by (auto simp: poseidon2_merkle_root_def Let_def replicate_append_same Suc_diff_Suc
        simp flip: replicate_Suc)
qed

theorem merkle_root_ignores_zero_leaf_witness:
  "poseidon2_merkle_root [from_u64 1, from_u64 2, from_u64 3, from_u64 0] =
     poseidon2_merkle_root [from_u64 1, from_u64 2, from_u64 3]"
  using merkle_root_ignores_zero_leaf [of 1 "[from_u64 1, from_u64 2, from_u64 3]"] by simp

end
