(* ===== verification/ForkChoice.thy ===== *)
theory ForkChoice
  imports Primitives
begin

text \<open>
  The fork choice of the node (\<open>substrate-node/node/src/weighted_chain.rs\<close>): the cumulative
  weight of a block with its cache in the auxiliary store, the choice among the leaves, and the
  finality target. The client database is a parameter: the headers, the leaves, the best block
  and the difficulty stored in the state of a block (read and decoded by client code). Walks
  along parents have fuel, and the lemmas say how much is enough.
\<close>

section \<open>The database\<close>

record block_header =
  hdr_number :: u32
  hdr_parent :: h256
  hdr_rest :: h256 \<comment> \<open>the roots and the digest, which this code does not read\<close>

datatype chain_error =
    UnknownBlock h256
  | MissingHeader h256
  | Application
  | Backend

text \<open>
  \<open>bk_hash\<close> is the hash of a header, \<open>bk_difficulty\<close> the value of \<open>CurrentDifficulty\<close> in the
  state of a block if it can be read and decoded, and \<open>bk_aux_fails\<close> says for which blocks a
  write to the auxiliary store fails.
\<close>

record chain_backend =
  bk_header :: "h256 \<Rightarrow> chain_error + block_header option"
  bk_hash :: "block_header \<Rightarrow> h256"
  bk_leaves :: "chain_error + h256 list"
  bk_best :: h256
  bk_difficulty :: "h256 \<Rightarrow> u64 option"
  bk_aux_fails :: "h256 \<Rightarrow> bool"

type_synonym aux_store = "u8 list \<rightharpoonup> u8 list"

definition DIFFICULTY_SCALE :: u128 where
  "DIFFICULTY_SCALE = 1000000000000"

definition AUX_KEY_PREFIX :: "u8 list" where
  "AUX_KEY_PREFIX = ascii ''qbc_weight:''"

definition aux_key :: "h256 \<Rightarrow> u8 list" where
  "aux_key hash = AUX_KEY_PREFIX @ be_bytes hash"

definition read_weight :: "aux_store \<Rightarrow> h256 \<Rightarrow> u128 option" where
  "read_weight aux hash =
     (case aux (aux_key hash) of
        None \<Rightarrow> None
      | Some bytes \<Rightarrow> if length bytes = 16 then Some (of_nat (le_value bytes)) else None)"

definition write_weight :: "chain_backend \<Rightarrow> h256 \<Rightarrow> u128 \<Rightarrow> aux_store \<Rightarrow> aux_store" where
  "write_weight bk hash weight aux =
     (if bk_aux_fails bk hash then aux else aux(aux_key hash \<mapsto> le_bytes weight))"

definition difficulty_at :: "chain_backend \<Rightarrow> h256 \<Rightarrow> u64" where
  "difficulty_at bk at = (case bk_difficulty bk at of Some d \<Rightarrow> d | None \<Rightarrow> INITIAL_DIFFICULTY)"

section \<open>Cumulative weight\<close>

fun walk_back ::
  "nat \<Rightarrow> chain_backend \<Rightarrow> aux_store \<Rightarrow> h256 \<Rightarrow> (h256 \<times> u64) list \<Rightarrow> (chain_error + u128 \<times> (h256 \<times> u64) list) option"
where
  "walk_back 0 bk aux cur chain = None"
| "walk_back (Suc fuel) bk aux cur chain =
     (case bk_header bk cur of
        Inl e \<Rightarrow> Some (Inl e)
      | Inr None \<Rightarrow> Some (Inl (UnknownBlock cur))
      | Inr (Some header) \<Rightarrow>
          (let chain' = chain @ [(cur, difficulty_at bk cur)]
           in if hdr_number header = 0 then Some (Inr (0, chain'))
              else (case read_weight aux (hdr_parent header) of
                      Some w \<Rightarrow> Some (Inr (w, chain'))
                    | None \<Rightarrow> walk_back fuel bk aux (hdr_parent header) chain')))"

definition block_weight :: "u64 \<Rightarrow> u128" where
  "block_weight difficulty = (let diff = if difficulty = 0 then 1 else ucast difficulty in DIFFICULTY_SCALE div diff)"

fun add_weights :: "chain_backend \<Rightarrow> (h256 \<times> u64) list \<Rightarrow> u128 \<Rightarrow> aux_store \<Rightarrow> u128 \<times> aux_store" where
  "add_weights bk [] weight aux = (weight, aux)"
| "add_weights bk ((hash, difficulty) # rest) weight aux =
     (let weight' = saturating_add weight (block_weight difficulty)
      in add_weights bk rest weight' (write_weight bk hash weight' aux))"

definition cumulative_weight ::
  "nat \<Rightarrow> chain_backend \<Rightarrow> h256 \<Rightarrow> aux_store \<Rightarrow> ((chain_error + u128) \<times> aux_store) option" where
  "cumulative_weight fuel bk hash aux =
     (case read_weight aux hash of
        Some w \<Rightarrow> Some (Inr w, aux)
      | None \<Rightarrow>
          (case walk_back fuel bk aux hash [] of
             None \<Rightarrow> None
           | Some (Inl e) \<Rightarrow> Some (Inl e, aux)
           | Some (Inr (base, chain)) \<Rightarrow>
               (let (w, aux') = add_weights bk (rev chain) base aux in Some (Inr w, aux'))))"

text \<open>The eager caching of an imported block: errors are only logged.\<close>

definition on_block_imported :: "nat \<Rightarrow> chain_backend \<Rightarrow> h256 \<Rightarrow> aux_store \<Rightarrow> aux_store option" where
  "on_block_imported fuel bk hash aux = map_option snd (cumulative_weight fuel bk hash aux)"

section \<open>The best leaf\<close>

fun better_leaves ::
  "nat \<Rightarrow> chain_backend \<Rightarrow> h256 list \<Rightarrow> h256 \<Rightarrow> u128 \<Rightarrow> aux_store \<Rightarrow> ((chain_error + h256) \<times> aux_store) option"
where
  "better_leaves fuel bk [] best_hash best_weight aux = Some (Inr best_hash, aux)"
| "better_leaves fuel bk (leaf # leaves) best_hash best_weight aux =
     (case cumulative_weight fuel bk leaf aux of
        None \<Rightarrow> None
      | Some (Inl e, aux') \<Rightarrow> Some (Inl e, aux')
      | Some (Inr w, aux') \<Rightarrow>
          if best_weight < w \<or> w = best_weight \<and> leaf < best_hash
          then better_leaves fuel bk leaves leaf w aux'
          else better_leaves fuel bk leaves best_hash best_weight aux')"

definition header_or :: "chain_backend \<Rightarrow> (h256 \<Rightarrow> chain_error) \<Rightarrow> h256 \<Rightarrow> chain_error + block_header" where
  "header_or bk missing hash =
     (case bk_header bk hash of Inl e \<Rightarrow> Inl e | Inr None \<Rightarrow> Inl (missing hash) | Inr (Some h) \<Rightarrow> Inr h)"

definition best_header_weighted ::
  "nat \<Rightarrow> chain_backend \<Rightarrow> aux_store \<Rightarrow> ((chain_error + block_header) \<times> aux_store) option" where
  "best_header_weighted fuel bk aux =
     (case bk_leaves bk of
        Inl e \<Rightarrow> Some (Inl e, aux)
      | Inr [] \<Rightarrow> Some (header_or bk UnknownBlock (bk_best bk), aux)
      | Inr (leaf # leaves) \<Rightarrow>
          (case cumulative_weight fuel bk leaf aux of
             None \<Rightarrow> None
           | Some (Inl e, aux') \<Rightarrow> Some (Inl e, aux')
           | Some (Inr w, aux') \<Rightarrow>
               (case better_leaves fuel bk leaves leaf w aux' of
                  None \<Rightarrow> None
                | Some (Inl e, aux'') \<Rightarrow> Some (Inl e, aux'')
                | Some (Inr best, aux'') \<Rightarrow> Some (header_or bk UnknownBlock best, aux''))))"

section \<open>The finality target\<close>

text \<open>The walk down to the highest allowed number, and the walk that looks for the base.\<close>

fun lower_to :: "nat \<Rightarrow> chain_backend \<Rightarrow> u32 \<Rightarrow> block_header \<Rightarrow> h256 \<Rightarrow> (chain_error + block_header \<times> h256) option" where
  "lower_to 0 bk max_number head best_hash = None"
| "lower_to (Suc fuel) bk max_number head best_hash =
     (if max_number < hdr_number head
      then (case header_or bk MissingHeader (hdr_parent head) of
              Inl e \<Rightarrow> Some (Inl e)
            | Inr h \<Rightarrow> lower_to fuel bk max_number h (hdr_parent head))
      else Some (Inr (head, best_hash)))"

fun find_base :: "nat \<Rightarrow> chain_backend \<Rightarrow> h256 \<Rightarrow> u32 \<Rightarrow> block_header \<Rightarrow> h256 \<Rightarrow> (chain_error + h256) option" where
  "find_base 0 bk base_hash base_number head best_hash = None"
| "find_base (Suc fuel) bk base_hash base_number head best_hash =
     (if bk_hash bk head \<noteq> base_hash
      then if hdr_number head < base_number then Some (Inl Application)
           else (case header_or bk (\<lambda>_. MissingHeader best_hash) (hdr_parent head) of
                   Inl e \<Rightarrow> Some (Inl e)
                 | Inr h \<Rightarrow> find_base fuel bk base_hash base_number h best_hash)
      else Some (Inr best_hash))"

definition finality_target_weighted ::
  "nat \<Rightarrow> chain_backend \<Rightarrow> h256 \<Rightarrow> u32 option \<Rightarrow> aux_store \<Rightarrow> ((chain_error + h256) \<times> aux_store) option" where
  "finality_target_weighted fuel bk base_hash maybe_max_number aux =
     (case best_header_weighted fuel bk aux of
        None \<Rightarrow> None
      | Some (Inl e, aux') \<Rightarrow> Some (Inl e, aux')
      | Some (Inr head, aux') \<Rightarrow>
          (case header_or bk MissingHeader base_hash of
             Inl e \<Rightarrow> Some (Inl e, aux')
           | Inr base_header \<Rightarrow>
               (let base_number = hdr_number base_header;
                    lowered = (case maybe_max_number of
                                 None \<Rightarrow> Some (Inr (head, bk_hash bk head))
                               | Some max_number \<Rightarrow>
                                   if max_number < base_number then Some (Inl Application)
                                   else lower_to fuel bk max_number head (bk_hash bk head))
                in (case lowered of
                      None \<Rightarrow> None
                    | Some (Inl e) \<Rightarrow> Some (Inl e, aux')
                    | Some (Inr (head', best_hash)) \<Rightarrow>
                        map_option (\<lambda>r. (r, aux')) (find_base fuel bk base_hash base_number head' best_hash)))))"

section \<open>Well-formed databases\<close>

text \<open>
  A database of linked blocks: the hash of a stored header is its key, the genesis block has
  number zero, and the parent of any other stored block is stored with the number below.
\<close>

definition linked :: "chain_backend \<Rightarrow> bool" where
  "linked bk \<longleftrightarrow> (\<forall>h b. bk_header bk h = Inr (Some b) \<longrightarrow> bk_hash bk b = h \<and>
     (hdr_number b \<noteq> 0 \<longrightarrow> (\<exists>pd. bk_header bk (hdr_parent b) = Inr (Some pd) \<and>
        unat (hdr_number b) = Suc (unat (hdr_number pd)))))"

definition stored :: "chain_backend \<Rightarrow> h256 \<Rightarrow> bool" where
  "stored bk h \<longleftrightarrow> (\<exists>b. bk_header bk h = Inr (Some b))"

definition number_of :: "chain_backend \<Rightarrow> h256 \<Rightarrow> nat" where
  "number_of bk h = (case bk_header bk h of Inr (Some b) \<Rightarrow> unat (hdr_number b) | _ \<Rightarrow> 0)"

definition parent_of :: "chain_backend \<Rightarrow> h256 \<Rightarrow> h256" where
  "parent_of bk h = (case bk_header bk h of Inr (Some b) \<Rightarrow> hdr_parent b | _ \<Rightarrow> h)"

text \<open>The ancestry of a block, from itself to the genesis block, and the sum of its weights.\<close>

definition ancestry :: "chain_backend \<Rightarrow> h256 \<Rightarrow> h256 list" where
  "ancestry bk h = map (\<lambda>i. (parent_of bk ^^ i) h) [0..<Suc (number_of bk h)]"

definition chain_weight :: "chain_backend \<Rightarrow> h256 \<Rightarrow> nat" where
  "chain_weight bk h =
     min (\<Sum>x \<leftarrow> ancestry bk h. 1000000000000 div (if difficulty_at bk x = 0 then 1 else unat (difficulty_at bk x))) (2 ^ 128 - 1)"

definition cache_ok :: "chain_backend \<Rightarrow> aux_store \<Rightarrow> bool" where
  "cache_ok bk aux \<longleftrightarrow> (\<forall>h w. read_weight aux h = Some w \<longrightarrow> stored bk h \<longrightarrow> unat w = chain_weight bk h)"

lemma linkedD:
  assumes "linked bk" and "stored bk h"
  obtains b where "bk_header bk h = Inr (Some b)" "bk_hash bk b = h" "number_of bk h = unat (hdr_number b)"
    "parent_of bk h = hdr_parent b"
    "hdr_number b \<noteq> 0 \<Longrightarrow> stored bk (hdr_parent b) \<and> number_of bk h = Suc (number_of bk (hdr_parent b))"
proof -
  obtain b where b: "bk_header bk h = Inr (Some b)" using assms(2) by (auto simp: stored_def)
  have "stored bk (hdr_parent b) \<and> unat (hdr_number b) = Suc (number_of bk (hdr_parent b))" if "hdr_number b \<noteq> 0"
    using assms(1) b that by (fastforce simp: linked_def stored_def number_of_def)
  moreover have "bk_hash bk b = h" using assms(1) b by (simp add: linked_def)
  ultimately show thesis using that [of b] b by (simp add: number_of_def parent_of_def)
qed

lemma ancestry_Suc:
  "number_of bk h = Suc (number_of bk (parent_of bk h)) \<Longrightarrow> ancestry bk h = h # ancestry bk (parent_of bk h)"
proof -
  assume n: "number_of bk h = Suc (number_of bk (parent_of bk h))"
  have "ancestry bk h = (parent_of bk ^^ 0) h # map (\<lambda>i. (parent_of bk ^^ Suc i) h) [0..<Suc (number_of bk (parent_of bk h))]"
    unfolding ancestry_def n by (subst upt_conv_Cons) (simp_all add: map_Suc_upt [symmetric] comp_def del: upt_Suc funpow.simps)
  then show ?thesis by (simp add: ancestry_def funpow_swap1 del: upt_Suc)
qed

lemma ancestry_0: "number_of bk h = 0 \<Longrightarrow> ancestry bk h = [h]"
  by (simp add: ancestry_def)

section \<open>The cache\<close>

lemma aux_key_inject [simp]: "aux_key h = aux_key h' \<longleftrightarrow> h = h'"
  by (simp add: aux_key_def be_bytes_inject)

lemma read_write_weight:
  "read_weight (write_weight bk h w aux) h' =
     (if h' = h \<and> \<not> bk_aux_fails bk h then Some w else read_weight aux h')"
  by (auto simp: read_weight_def write_weight_def le_value_le_bytes)

lemma write_keeps_cache:
  "cache_ok bk aux \<Longrightarrow> unat w = chain_weight bk h \<Longrightarrow> cache_ok bk (write_weight bk h w aux)"
  by (auto simp: cache_ok_def read_write_weight)

lemma unat_block_weight: "unat (block_weight d) = 1000000000000 div (if d = 0 then 1 else unat d)"
  using u64_less [of d]
  by (simp add: block_weight_def Let_def DIFFICULTY_SCALE_def unat_div unsigned_ucast_eq take_bit_nat_eq_self)

lemma chain_weight_Suc:
  assumes "number_of bk h = Suc (number_of bk (parent_of bk h))"
  shows "chain_weight bk h =
    min (chain_weight bk (parent_of bk h) + unat (block_weight (difficulty_at bk h))) (2 ^ 128 - 1)"
  by (simp add: chain_weight_def ancestry_Suc [OF assms] unat_block_weight min_def)

lemma chain_weight_0:
  "number_of bk h = 0 \<Longrightarrow> chain_weight bk h = unat (block_weight (difficulty_at bk h))"
proof -
  have le: "1000000000000 div n \<le> (2 :: nat) ^ 128 - 1" for n
    by (rule order_trans [OF div_le_dividend]) simp
  show "number_of bk h = 0 \<Longrightarrow> ?thesis"
    unfolding chain_weight_def unat_block_weight using min_absorb1 [OF le] by (simp add: ancestry_0)
qed

lemma walk_back_weight:
  assumes "linked bk" and "cache_ok bk aux"
  shows "stored bk cur \<Longrightarrow> number_of bk cur < fuel \<Longrightarrow>
    \<exists>base c. walk_back fuel bk aux cur chain = Some (Inr (base, chain @ c)) \<and>
      (\<forall>rest aux'. cache_ok bk aux' \<longrightarrow> (\<exists>w aux''. unat w = chain_weight bk cur \<and> cache_ok bk aux'' \<and>
         add_weights bk (rev c @ rest) base aux' = add_weights bk rest w aux''))"
proof (induction fuel arbitrary: cur chain)
  case (Suc fuel)
  from linkedD [OF assms(1) Suc.prems(1)] obtain b where b: "bk_header bk cur = Inr (Some b)"
    "number_of bk cur = unat (hdr_number b)" "parent_of bk cur = hdr_parent b"
    "hdr_number b \<noteq> 0 \<Longrightarrow> stored bk (hdr_parent b) \<and> number_of bk cur = Suc (number_of bk (hdr_parent b))"
    by metis
  let ?d = "difficulty_at bk cur"
  have last_step: "\<exists>w aux''. unat w = chain_weight bk cur \<and> cache_ok bk aux'' \<and>
      add_weights bk ((cur, ?d) # rest) base aux' = add_weights bk rest w aux''"
    if "cache_ok bk aux'" "unat (saturating_add base (block_weight ?d)) = chain_weight bk cur" for rest base aux'
    using that write_keeps_cache [OF that] by (auto simp: Let_def)
  show ?case
  proof (cases "hdr_number b = 0")
    case True
    have "unat (saturating_add 0 (block_weight ?d)) = chain_weight bk cur"
      using chain_weight_0 [of bk cur] True b(2) unat_le_max [of "block_weight ?d"]
      by (simp add: unat_saturating_add)
    then show ?thesis using True b(1) last_step
      by (intro exI [of _ 0] exI [of _ "[(cur, ?d)]"]) (simp add: Let_def)
  next
    case False
    with b have p: "stored bk (hdr_parent b)" "number_of bk cur = Suc (number_of bk (hdr_parent b))" by auto
    have w: "unat (saturating_add base (block_weight ?d)) = chain_weight bk cur"
      if "unat base = chain_weight bk (hdr_parent b)" for base
      using chain_weight_Suc [of bk cur] p(2) b(3) that by (simp add: unat_saturating_add)
    show ?thesis
    proof (cases "read_weight aux (hdr_parent b)")
      case (Some base)
      then have "unat base = chain_weight bk (hdr_parent b)" using assms(2) p(1) by (simp add: cache_ok_def)
      then show ?thesis using False b(1) Some last_step w
        by (intro exI [of _ base] exI [of _ "[(cur, ?d)]"]) (simp add: Let_def)
    next
      case None
      have "number_of bk (hdr_parent b) < fuel" using Suc.prems(2) p(2) by simp
      from Suc.IH [OF p(1) this, of "chain @ [(cur, ?d)]"] obtain base c where c:
        "walk_back fuel bk aux (hdr_parent b) (chain @ [(cur, ?d)]) = Some (Inr (base, (chain @ [(cur, ?d)]) @ c))"
        "\<And>rest aux'. cache_ok bk aux' \<Longrightarrow> \<exists>w aux''. unat w = chain_weight bk (hdr_parent b) \<and> cache_ok bk aux'' \<and>
           add_weights bk (rev c @ rest) base aux' = add_weights bk rest w aux''" by blast
      have "\<exists>w aux''. unat w = chain_weight bk cur \<and> cache_ok bk aux'' \<and>
          add_weights bk (rev ((cur, ?d) # c) @ rest) base aux' = add_weights bk rest w aux''"
        if ok: "cache_ok bk aux'" for rest aux'
      proof -
        from c(2) [OF ok, of "(cur, ?d) # rest"] obtain w0 a where "unat w0 = chain_weight bk (hdr_parent b)" "cache_ok bk a"
          "add_weights bk (rev c @ (cur, ?d) # rest) base aux' = add_weights bk ((cur, ?d) # rest) w0 a" by blast
        then show ?thesis using last_step [OF _ w] by simp
      qed
      then show ?thesis using False b(1) None c(1)
        by (intro exI [of _ base] exI [of _ "(cur, ?d) # c"]) (simp add: Let_def)
    qed
  qed
qed simp

lemma cumulative_weight_ok:
  assumes "linked bk" and "cache_ok bk aux" and "stored bk h" and "number_of bk h < fuel"
  obtains w aux' where "cumulative_weight fuel bk h aux = Some (Inr w, aux')" "unat w = chain_weight bk h" "cache_ok bk aux'"
proof (cases "read_weight aux h")
  case (Some w)
  then show thesis using that assms by (simp add: cumulative_weight_def cache_ok_def)
next
  case None
  from walk_back_weight [OF assms, of "[]"] obtain base c w aux' where
    "walk_back fuel bk aux h [] = Some (Inr (base, c))" "unat w = chain_weight bk h" "cache_ok bk aux'"
    "add_weights bk (rev c @ []) base aux = add_weights bk [] w aux'"
    using assms(2) by (metis append_Nil)
  then show thesis using that None by (simp add: cumulative_weight_def)
qed

section \<open>The best leaf is the heaviest\<close>

text \<open>\<open>a\<close> is preferred to \<open>b\<close>: more weight, or the same weight and a smaller hash.\<close>

definition preferred :: "chain_backend \<Rightarrow> h256 \<Rightarrow> h256 \<Rightarrow> bool" where
  "preferred bk a b \<longleftrightarrow> chain_weight bk b < chain_weight bk a \<or> chain_weight bk b = chain_weight bk a \<and> a \<le> b"

lemma preferred_trans: "preferred bk a b \<Longrightarrow> preferred bk b c \<Longrightarrow> preferred bk a c"
  by (auto simp: preferred_def)

lemma preferred_antisym: "preferred bk a b \<Longrightarrow> preferred bk b a \<Longrightarrow> a = b"
  by (auto simp: preferred_def)

lemma better_leaves_ok:
  assumes "linked bk"
  shows "\<forall>l \<in> set leaves. stored bk l \<and> number_of bk l < fuel \<Longrightarrow> cache_ok bk aux \<Longrightarrow> unat w = chain_weight bk best \<Longrightarrow>
    \<exists>r aux'. better_leaves fuel bk leaves best w aux = Some (Inr r, aux') \<and> cache_ok bk aux' \<and>
      r \<in> insert best (set leaves) \<and> (\<forall>l \<in> insert best (set leaves). preferred bk r l)"
proof (induction leaves arbitrary: best w aux)
  case Nil
  then show ?case by (simp add: preferred_def)
next
  case (Cons leaf leaves)
  obtain v aux1 where v: "cumulative_weight fuel bk leaf aux = Some (Inr v, aux1)" "unat v = chain_weight bk leaf" "cache_ok bk aux1"
    by (rule cumulative_weight_ok [OF assms Cons.prems(2), of leaf fuel]) (use Cons.prems(1) in auto)
  have rest: "\<forall>l \<in> set leaves. stored bk l \<and> number_of bk l < fuel" using Cons.prems(1) by simp
  have step: ?case
    if "preferred bk c leaf" "preferred bk c best" "c \<in> {leaf, best}"
      and "better_leaves fuel bk (leaf # leaves) best w aux = better_leaves fuel bk leaves c u aux1" "unat u = chain_weight bk c"
    for c u
  proof -
    from Cons.IH [OF rest v(3) that(5)] obtain r aux2 where r: "better_leaves fuel bk leaves c u aux1 = Some (Inr r, aux2)"
      "cache_ok bk aux2" "r \<in> insert c (set leaves)" "\<forall>l \<in> insert c (set leaves). preferred bk r l" by blast
    have rc: "preferred bk r c" using r(4) by simp
    have "r \<in> insert best (set (leaf # leaves))" using r(3) that(3) by auto
    moreover have "\<forall>l \<in> insert best (set (leaf # leaves)). preferred bk r l"
      using r(4) preferred_trans [OF rc that(1)] preferred_trans [OF rc that(2)] by simp
    ultimately show ?thesis using r(1,2) that(4) by metis
  qed
  show ?case
  proof (cases "w < v \<or> v = w \<and> leaf < best")
    case True
    then have "preferred bk leaf best" using v(2) Cons.prems(3) by (auto simp: preferred_def word_less_nat_alt word_le_nat_alt)
    then show ?thesis using True v(1,2) by (intro step [of leaf v]) (simp_all add: preferred_def)
  next
    case False
    then have "preferred bk best leaf"
      using v(2) Cons.prems(3) by (auto simp: preferred_def word_less_nat_alt word_le_nat_alt not_less word_unat_eq_iff)
    then show ?thesis using False v(1) Cons.prems(3) by (intro step [of best w]) (auto simp: preferred_def)
  qed
qed

lemma best_header_ok:
  assumes "linked bk" and "cache_ok bk aux" and "bk_leaves bk = Inr leaves" and "leaves \<noteq> []"
    and "\<forall>l \<in> set leaves. stored bk l \<and> number_of bk l < fuel"
  obtains best b aux' where "best_header_weighted fuel bk aux = Some (Inr b, aux')" "cache_ok bk aux'"
    "best \<in> set leaves" "bk_header bk best = Inr (Some b)" "bk_hash bk b = best" "\<forall>l \<in> set leaves. preferred bk best l"
proof -
  obtain leaf rest where l: "leaves = leaf # rest" using assms(4) by (cases leaves) auto
  obtain w aux1 where w: "cumulative_weight fuel bk leaf aux = Some (Inr w, aux1)" "unat w = chain_weight bk leaf" "cache_ok bk aux1"
    by (rule cumulative_weight_ok [OF assms(1,2), of leaf fuel]) (use assms(5) l in auto)
  obtain best aux2 where best: "better_leaves fuel bk rest leaf w aux1 = Some (Inr best, aux2)" "cache_ok bk aux2"
    "best \<in> set leaves" "\<forall>l \<in> set leaves. preferred bk best l"
    using better_leaves_ok [OF assms(1) _ w(3,2), of rest fuel] assms(5) l by auto
  obtain b where "bk_header bk best = Inr (Some b)" "bk_hash bk b = best"
    using linkedD [OF assms(1), of best] assms(5) best(3) by metis
  then show thesis using that best w(1) assms(3) l by (simp add: best_header_weighted_def header_or_def)
qed

text \<open>
  The cumulative weight is the sum over the ancestry: in a linked database, with any cache
  whose entries are right, the weight of a stored block is computed with fuel above its number,
  is the saturated sum of the scaled inverse difficulties from the block to the genesis block,
  and the cache stays right, whichever writes to it fail.
\<close>

theorem cumulative_weight_is_the_sum:
  assumes "linked bk" and "cache_ok bk aux" and "stored bk h" and "number_of bk h < fuel"
  shows "\<exists>w aux'. cumulative_weight fuel bk h aux = Some (Inr w, aux') \<and> cache_ok bk aux' \<and>
    unat w = min (\<Sum>x \<leftarrow> ancestry bk h.
      1000000000000 div (if difficulty_at bk x = 0 then 1 else unat (difficulty_at bk x))) (2 ^ 128 - 1)"
proof -
  obtain w aux' where "cumulative_weight fuel bk h aux = Some (Inr w, aux')" "unat w = chain_weight bk h" "cache_ok bk aux'"
    by (rule cumulative_weight_ok [OF assms])
  then show ?thesis unfolding chain_weight_def by blast
qed

text \<open>
  A small database for the witnesses: genesis 1, block 2 on it, and two children of block 2,
  block 3 with difficulty 500 and block 4 with 1000; writes to the cache fail for block 2.
\<close>

definition example_header :: "h256 \<Rightarrow> block_header option" where
  "example_header h =
     (if h = 1 then Some \<lparr>hdr_number = 0, hdr_parent = 0, hdr_rest = 1\<rparr>
      else if h = 2 then Some \<lparr>hdr_number = 1, hdr_parent = 1, hdr_rest = 2\<rparr>
      else if h = 3 \<or> h = 4 then Some \<lparr>hdr_number = 2, hdr_parent = 2, hdr_rest = h\<rparr> else None)"

definition example_backend :: chain_backend where
  "example_backend =
     \<lparr>bk_header = (\<lambda>h. Inr (example_header h)), bk_hash = hdr_rest, bk_leaves = Inr [4, 3], bk_best = 4,
      bk_difficulty = (\<lambda>h. if h = 3 then Some 500 else Some 1000), bk_aux_fails = (\<lambda>h. h = 2)\<rparr>"

lemma example_linked: "linked example_backend"
  by (auto simp: linked_def example_backend_def example_header_def split: if_splits)

lemma example_ancestry:
  "ancestry example_backend 3 = [3, 2, 1]" "ancestry example_backend 4 = [4, 2, 1]"
proof -
  have n: "number_of example_backend 3 = 2" "number_of example_backend 4 = 2" "number_of example_backend 2 = 1" "number_of example_backend 1 = 0"
    "parent_of example_backend 3 = 2" "parent_of example_backend 4 = 2" "parent_of example_backend 2 = 1"
    by (simp_all add: number_of_def parent_of_def example_backend_def example_header_def)
  have two: "ancestry example_backend 2 = [2, 1]"
    using ancestry_Suc [of example_backend 2] by (simp add: n ancestry_0)
  show "ancestry example_backend 3 = [3, 2, 1]"
    using ancestry_Suc [of example_backend 3] by (simp add: n two)
  show "ancestry example_backend 4 = [4, 2, 1]"
    using ancestry_Suc [of example_backend 4] by (simp add: n two)
qed

theorem cumulative_weight_is_the_sum_witness:
  "\<exists>w aux'. cumulative_weight 3 example_backend 3 Map.empty = Some (Inr w, aux') \<and> unat w = 4000000000"
proof -
  let ?b = example_backend
  have s: "stored ?b 3" "number_of ?b 3 < 3" "cache_ok ?b Map.empty"
    by (auto simp: stored_def number_of_def cache_ok_def read_weight_def example_backend_def example_header_def)
  show ?thesis
    using cumulative_weight_is_the_sum [OF example_linked s(3,1,2)]
    unfolding example_ancestry by (auto simp: difficulty_at_def example_backend_def)
qed

text \<open>
  C6. The best header is the heaviest leaf: among the leaves of a linked database the chosen
  header belongs to a leaf that has more cumulative weight than any other leaf, or as much and
  a smaller hash.
\<close>

theorem best_header_is_heaviest:
  assumes "linked bk" and "cache_ok bk aux" and "bk_leaves bk = Inr leaves" and "leaves \<noteq> []"
    and "\<forall>l \<in> set leaves. stored bk l \<and> number_of bk l < fuel"
  shows "\<exists>b aux'. best_header_weighted fuel bk aux = Some (Inr b, aux') \<and> cache_ok bk aux' \<and>
    bk_hash bk b \<in> set leaves \<and> bk_header bk (bk_hash bk b) = Inr (Some b) \<and>
    (\<forall>l \<in> set leaves. chain_weight bk l < chain_weight bk (bk_hash bk b) \<or>
       chain_weight bk l = chain_weight bk (bk_hash bk b) \<and> bk_hash bk b \<le> l)"
proof -
  obtain best b aux' where "best_header_weighted fuel bk aux = Some (Inr b, aux')" "cache_ok bk aux'"
    "best \<in> set leaves" "bk_header bk best = Inr (Some b)" "bk_hash bk b = best" "\<forall>l \<in> set leaves. preferred bk best l"
    by (rule best_header_ok [OF assms])
  then show ?thesis unfolding preferred_def by auto
qed

theorem best_header_is_heaviest_witness:
  "\<exists>b aux'. best_header_weighted 3 example_backend Map.empty = Some (Inr b, aux') \<and> bk_hash example_backend b = 3"
proof -
  let ?b = example_backend
  have c: "cache_ok ?b Map.empty" by (simp add: cache_ok_def read_weight_def)
  have l: "bk_leaves ?b = Inr [4, 3]" by (simp add: example_backend_def)
  have s: "\<forall>l \<in> set [4, 3]. stored ?b l \<and> number_of ?b l < 3"
    by (auto simp: stored_def number_of_def example_backend_def example_header_def)
  have w: "chain_weight ?b 3 = 4000000000" "chain_weight ?b 4 = 3000000000"
    unfolding chain_weight_def example_ancestry by (simp_all add: difficulty_at_def example_backend_def)
  from best_header_is_heaviest [OF example_linked c l _ s] w show ?thesis by fastforce
qed

text \<open>
  C7. The fork choice is deterministic: two nodes whose databases hold the same headers,
  difficulties and set of leaves choose the same header, whatever the order in which they list
  the leaves, whatever their caches hold that is right, and whatever cache writes fail.
\<close>

theorem fork_choice_is_deterministic:
  assumes "linked bk" and "bk_leaves bk = Inr leaves" and "leaves \<noteq> []" and "set leaves' = set leaves"
    and "bk' = bk\<lparr>bk_leaves := Inr leaves', bk_aux_fails := fails\<rparr>"
    and "cache_ok bk aux" and "cache_ok bk aux'"
    and "\<forall>l \<in> set leaves. stored bk l \<and> number_of bk l < fuel"
  shows "map_option fst (best_header_weighted fuel bk aux) = map_option fst (best_header_weighted fuel bk' aux')"
proof -
  have same: "number_of bk' = number_of bk" "parent_of bk' = parent_of bk" "stored bk' = stored bk"
      "difficulty_at bk' = difficulty_at bk" "linked bk' = linked bk" "bk_header bk' = bk_header bk"
      "bk_leaves bk' = Inr leaves'"
    by (simp_all add: assms(5) fun_eq_iff number_of_def parent_of_def stored_def difficulty_at_def linked_def)
  have w: "chain_weight bk' = chain_weight bk" by (intro ext) (simp only: chain_weight_def ancestry_def same)
  obtain x b a where x: "best_header_weighted fuel bk aux = Some (Inr b, a)" "x \<in> set leaves"
    "bk_header bk x = Inr (Some b)" "\<forall>l \<in> set leaves. preferred bk x l"
    by (rule best_header_ok [OF assms(1,6,2,3,8)])
  have c': "cache_ok bk' aux'" using assms(7) by (simp add: cache_ok_def same w)
  have l': "leaves' \<noteq> []" "\<forall>l \<in> set leaves'. stored bk' l \<and> number_of bk' l < fuel"
    using assms(3,4,8) by (auto simp: same)
  have lk': "linked bk'" using assms(1) same by simp
  obtain y b' a' where y: "best_header_weighted fuel bk' aux' = Some (Inr b', a')" "y \<in> set leaves'"
    "bk_header bk' y = Inr (Some b')" "\<forall>l \<in> set leaves'. preferred bk' y l"
    by (rule best_header_ok [OF lk' c' same(7) l'])
  have "preferred bk x y" "preferred bk y x"
    using x(2,4) y(2,4) assms(4) by (auto simp: preferred_def w)
  then have "x = y" by (rule preferred_antisym)
  then show ?thesis using x(1,3) y(1,3) same(6) by simp
qed

theorem fork_choice_is_deterministic_witness:
  "map_option fst (best_header_weighted 3 example_backend Map.empty) =
   map_option fst (best_header_weighted 3 (example_backend\<lparr>bk_leaves := Inr [3, 4], bk_aux_fails := \<lambda>_. False\<rparr>) Map.empty)"
  by (rule fork_choice_is_deterministic [OF example_linked, of "[4, 3]" "[3, 4]"])
    (auto simp: stored_def number_of_def cache_ok_def read_weight_def example_backend_def example_header_def)

section \<open>The finality target is on the best chain\<close>

lemma parents_stored:
  assumes "linked bk" and "stored bk h"
  shows "i \<le> number_of bk h \<Longrightarrow> stored bk ((parent_of bk ^^ i) h) \<and> number_of bk ((parent_of bk ^^ i) h) = number_of bk h - i"
proof (induction i)
  case (Suc i)
  let ?x = "(parent_of bk ^^ i) h"
  have IH: "stored bk ?x" "number_of bk ?x = number_of bk h - i" using Suc by simp_all
  then have "number_of bk ?x \<noteq> 0" using Suc.prems by simp
  with linkedD [OF assms(1) IH(1)] have "stored bk (parent_of bk ?x) \<and> number_of bk ?x = Suc (number_of bk (parent_of bk ?x))"
    by (metis unsigned_0)
  then show ?case using IH(2) by auto
qed (use assms in simp)

lemma header_at:
  assumes "linked bk" and "stored bk h"
  obtains b where "bk_header bk h = Inr (Some b)" "bk_hash bk b = h" "unat (hdr_number b) = number_of bk h"
    "hdr_parent b = parent_of bk h"
  using linkedD [OF assms] by metis

lemma lower_to_ok:
  assumes "linked bk"
  shows "stored bk h \<Longrightarrow> bk_header bk h = Inr (Some b) \<Longrightarrow> number_of bk h - unat m < fuel \<Longrightarrow>
    \<exists>b'. lower_to fuel bk m b h = Some (Inr (b', (parent_of bk ^^ (number_of bk h - unat m)) h)) \<and>
      bk_header bk ((parent_of bk ^^ (number_of bk h - unat m)) h) = Inr (Some b')"
proof (induction fuel arbitrary: h b)
  case (Suc fuel)
  have b: "unat (hdr_number b) = number_of bk h" "hdr_parent b = parent_of bk h"
    using header_at [OF assms Suc.prems(1)] Suc.prems(2) by (metis Inr_inject option.inject)+
  show ?case
  proof (cases "m < hdr_number b")
    case True
    then have n: "number_of bk h - unat m = Suc (number_of bk h - 1 - unat m)" "1 \<le> number_of bk h"
      using b(1) by (simp_all add: word_less_nat_alt)
    have p: "stored bk (parent_of bk h)" "number_of bk (parent_of bk h) = number_of bk h - 1"
      using parents_stored [OF assms Suc.prems(1) n(2)] by simp_all
    obtain c where c: "bk_header bk (parent_of bk h) = Inr (Some c)" using p(1) by (auto simp: stored_def)
    have "number_of bk (parent_of bk h) - unat m < fuel" using Suc.prems(3) p(2) n by simp
    from Suc.IH [OF p(1) c this] True b(2) c n p(2) show ?thesis
      by (simp add: header_or_def funpow_swap1)
  next
    case False
    then have "number_of bk h - unat m = 0" using b(1) by (simp add: word_less_nat_alt)
    then show ?thesis using False Suc.prems(2) by simp
  qed
qed simp

lemma find_base_ok:
  assumes "linked bk"
  shows "stored bk h \<Longrightarrow> bk_header bk h = Inr (Some b) \<Longrightarrow> i < fuel \<Longrightarrow> i \<le> number_of bk h \<Longrightarrow>
    base = (parent_of bk ^^ i) h \<Longrightarrow> unat n \<le> number_of bk base \<Longrightarrow> find_base fuel bk base n b best = Some (Inr best)"
proof (induction fuel arbitrary: h b i)
  case (Suc fuel)
  have b: "bk_hash bk b = h" "unat (hdr_number b) = number_of bk h" "hdr_parent b = parent_of bk h"
    using header_at [OF assms Suc.prems(1)] Suc.prems(2) by (metis Inr_inject option.inject)+
  show ?case
  proof (cases "h = base")
    case True
    then show ?thesis using b(1) by simp
  next
    case False
    then obtain j where j: "i = Suc j" using Suc.prems(5) by (cases i) auto
    have "number_of bk base = number_of bk h - i"
      using parents_stored [OF assms Suc.prems(1,4)] Suc.prems(5) by simp
    then have "\<not> hdr_number b < n" using Suc.prems(6) b(2) by (simp add: word_less_nat_alt)
    moreover have p: "stored bk (parent_of bk h)" "number_of bk (parent_of bk h) = number_of bk h - 1"
      using parents_stored [OF assms Suc.prems(1), of 1] Suc.prems(4) j by simp_all
    then obtain c where c: "bk_header bk (parent_of bk h) = Inr (Some c)" by (auto simp: stored_def)
    have "find_base fuel bk base n c best = Some (Inr best)"
      by (rule Suc.IH [OF p(1) c, of j]) (use Suc.prems(3-6) j p(2) in \<open>simp_all add: funpow_swap1\<close>)
    ultimately show ?thesis using False b c by (simp add: header_or_def)
  qed
qed simp

lemma in_ancestry: "x \<in> set (ancestry bk h) \<longleftrightarrow> (\<exists>i \<le> number_of bk h. x = (parent_of bk ^^ i) h)"
  unfolding ancestry_def by (auto simp: less_Suc_eq_le simp del: upt_Suc)

lemma ancestor_stored:
  assumes "linked bk" and "stored bk h" and "x \<in> set (ancestry bk h)"
  obtains i where "i \<le> number_of bk h" "x = (parent_of bk ^^ i) h" "stored bk x" "number_of bk x = number_of bk h - i"
  using assms(3) parents_stored [OF assms(1,2)] by (auto simp: in_ancestry)

text \<open>
  The finality target: with a base on the chain of the best leaf and a highest allowed
  number not below the base, the target is returned, it is the block of the best chain whose
  number is the smaller of that limit and the number of the best leaf, and the base is among
  its ancestors.
\<close>

theorem finality_target_on_best_chain:
  assumes "linked bk" and "cache_ok bk aux" and "best_header_weighted fuel bk aux = Some (Inr b, aux')"
    and "best = bk_hash bk b" and "bk_header bk best = Inr (Some b)" and "number_of bk best < fuel"
    and "base \<in> set (ancestry bk best)" and "number_of bk base \<le> unat m"
  shows "\<exists>t. finality_target_weighted fuel bk base (Some m) aux = Some (Inr t, aux') \<and>
    t \<in> set (ancestry bk best) \<and> base \<in> set (ancestry bk t) \<and> number_of bk t = min (unat m) (number_of bk best)"
proof -
  let ?d = "number_of bk best - unat m"
  let ?t = "(parent_of bk ^^ ?d) best"
  have st: "stored bk best" using assms(5) by (simp add: stored_def)
  obtain i where i: "i \<le> number_of bk best" "base = (parent_of bk ^^ i) best" "stored bk base" "number_of bk base = number_of bk best - i"
    by (rule ancestor_stored [OF assms(1) st assms(7)])
  obtain c where c: "bk_header bk base = Inr (Some c)" "unat (hdr_number c) = number_of bk base"
    using header_at [OF assms(1) i(3)] by metis
  have "number_of bk best - unat m < fuel" using assms(6) by simp
  from lower_to_ok [OF assms(1) st assms(5) this] obtain t where t:
    "lower_to fuel bk m b best = Some (Inr (t, ?t))" "bk_header bk ?t = Inr (Some t)" by blast
  have tn: "stored bk ?t" "number_of bk ?t = number_of bk best - ?d"
    using parents_stored [OF assms(1) st, of ?d] by simp_all
  have di: "?d \<le> i" using i(1,4) assms(8) by simp
  have bt: "base = (parent_of bk ^^ (i - ?d)) ?t"
    using di i(2) by (simp add: funpow_add [symmetric, THEN fun_cong, unfolded comp_apply])
  have "find_base fuel bk base (hdr_number c) t ?t = Some (Inr ?t)"
    by (rule find_base_ok [OF assms(1) tn(1) t(2) _ _ bt]) (use assms(6) i(1) di tn(2) c(2) in simp_all)
  then have f: "finality_target_weighted fuel bk base (Some m) aux = Some (Inr ?t, aux')"
    using assms(3,4,8) c t(1) by (simp add: finality_target_weighted_def header_or_def word_less_nat_alt)
  moreover have "base \<in> set (ancestry bk ?t)" using bt tn(2) i(1) di by (auto simp: in_ancestry intro!: exI [of _ "i - ?d"])
  moreover have "?t \<in> set (ancestry bk best)" unfolding in_ancestry by (intro exI [of _ ?d]) simp
  moreover have "number_of bk ?t = min (unat m) (number_of bk best)" using tn(2) by (simp add: min_def)
  ultimately show ?thesis by blast
qed

theorem finality_target_on_best_chain_witness:
  "\<exists>t aux'. finality_target_weighted 3 example_backend 1 (Some 1) Map.empty = Some (Inr t, aux') \<and>
     number_of example_backend t = 1"
proof -
  let ?b = example_backend
  have c: "cache_ok ?b Map.empty" by (simp add: cache_ok_def read_weight_def)
  have l: "bk_leaves ?b = Inr [4, 3]" by (simp add: example_backend_def)
  have s: "\<forall>l \<in> set [4, 3]. stored ?b l \<and> number_of ?b l < 3"
    by (auto simp: stored_def number_of_def example_backend_def example_header_def)
  obtain best b aux' where h: "best_header_weighted 3 ?b Map.empty = Some (Inr b, aux')" "best \<in> set [4, 3]"
    "bk_header ?b best = Inr (Some b)" "bk_hash ?b b = best"
    by (rule best_header_ok [OF example_linked c l _ s]) auto
  have a: "1 \<in> set (ancestry ?b best)" using h(2) by (auto simp: example_ancestry)
  have "number_of ?b best = 2" "number_of ?b 1 = 0"
    using h(2) by (auto simp: number_of_def example_backend_def example_header_def)
  with a show ?thesis
    using finality_target_on_best_chain [OF example_linked c h(1) h(4) [symmetric] h(3), of 1 1] by auto
qed

end
