(* ===== verification/Terms.thy ===== *)
theory Terms
  imports Prelude "HOL-Library.Monad_Syntax"
begin

text \<open>
  First-order terms, substitutions and unification
  (\<open>aether-core/crates/aether-logic/src/term.rs\<close> and \<open>unify.rs\<close>). A substitution is an
  association list read with \<open>map_of\<close>. \<open>Term::substitute\<close> follows bindings recursively, so it
  does not return on a cyclic substitution: it and everything that calls it are partial
  functions into \<open>option\<close> whose value \<open>None\<close> is a call that does not return. An answer that is
  itself optional in the source is therefore an option inside an option.
\<close>

section \<open>Terms\<close>

type_synonym symbol = u32

datatype fol_term =
    Variable u32
  | Constant symbol
  | Compound symbol "fol_term list"

type_synonym substitution = "(u32 \<times> fol_term) list"

record symbol_table =
  to_id :: "string \<rightharpoonup> u32"
  to_name :: "string list"

definition new_symbols :: symbol_table where
  "new_symbols = \<lparr>to_id = Map.empty, to_name = []\<rparr>"

definition intern_symbol :: "string \<Rightarrow> symbol_table \<Rightarrow> symbol \<times> symbol_table" where
  "intern_symbol name st =
     (case to_id st name of
        Some i \<Rightarrow> (i, st)
      | None \<Rightarrow>
          (let i = of_nat (length (to_name st))
           in (i, \<lparr>to_id = (to_id st)(name \<mapsto> i), to_name = to_name st @ [name]\<rparr>)))"

definition try_resolve :: "symbol_table \<Rightarrow> symbol \<Rightarrow> string option" where
  "try_resolve st s = (if unat s < length (to_name st) then Some (to_name st ! unat s) else None)"

text \<open>\<open>resolve\<close> panics on a symbol that is not in the table: the value \<open>None\<close>.\<close>

definition resolve_symbol :: "symbol_table \<Rightarrow> symbol \<Rightarrow> string option" where
  "resolve_symbol st s = (if unat s < length (to_name st) then Some (to_name st ! unat s) else None)"

definition symbols_len :: "symbol_table \<Rightarrow> nat" where
  "symbols_len st = length (to_name st)"

definition symbols_empty :: "symbol_table \<Rightarrow> bool" where
  "symbols_empty st \<longleftrightarrow> to_name st = []"

fun collect_vars :: "fol_term \<Rightarrow> u32 set \<Rightarrow> u32 set" where
  "collect_vars (Variable v) out = insert v out"
| "collect_vars (Constant c) out = out"
| "collect_vars (Compound f args) out = fold collect_vars args out"

definition variables :: "fol_term \<Rightarrow> u32 set" where
  "variables t = collect_vars t {}"

fun contains_var :: "fol_term \<Rightarrow> u32 \<Rightarrow> bool" where
  "contains_var (Variable v) var \<longleftrightarrow> v = var"
| "contains_var (Constant c) var \<longleftrightarrow> False"
| "contains_var (Compound f args) var \<longleftrightarrow> list_ex (\<lambda>a. contains_var a var) args"

fun is_ground :: "fol_term \<Rightarrow> bool" where
  "is_ground (Variable v) \<longleftrightarrow> False"
| "is_ground (Constant c) \<longleftrightarrow> True"
| "is_ground (Compound f args) \<longleftrightarrow> list_all is_ground args"

section \<open>Substitution\<close>

text \<open>The traversal of a list by a call that may not return.\<close>

fun mapo :: "('a \<Rightarrow> 'b option) \<Rightarrow> 'a list \<Rightarrow> 'b list option" where
  "mapo f [] = Some []"
| "mapo f (x # xs) = do { y \<leftarrow> f x; ys \<leftarrow> mapo f xs; Some (y # ys) }"

lemma mapo_cong [fundef_cong]:
  "xs = ys \<Longrightarrow> (\<And>x. x \<in> set ys \<Longrightarrow> f x = g x) \<Longrightarrow> mapo f xs = mapo g ys"
  by (induction ys arbitrary: xs) auto

lemma mapo_mono [partial_function_mono]:
  assumes "\<And>y. mono_option (\<lambda>f. B y f)"
  shows "mono_option (\<lambda>f. mapo (\<lambda>y. B y f) xs)"
proof (induction xs)
  case Nil
  show ?case by (simp add: option.const_mono)
next
  case (Cons x xs)
  show ?case unfolding mapo.simps by (intro bind_mono assms Cons option.const_mono)
qed

lemma mapo_Some: "(\<And>x. x \<in> set xs \<Longrightarrow> f x = Some (g x)) \<Longrightarrow> mapo f xs = Some (map g xs)"
  by (induction xs) auto

lemma mapo_SomeD: "mapo f xs = Some ys \<Longrightarrow> list_all2 (\<lambda>x y. f x = Some y) xs ys"
  by (induction xs arbitrary: ys) (auto split: Option.bind_splits)

partial_function (option) substitute :: "substitution \<Rightarrow> fol_term \<Rightarrow> fol_term option" where
  "substitute bindings t =
     (case t of
        Variable v \<Rightarrow> (case map_of bindings v of Some bound \<Rightarrow> substitute bindings bound | None \<Rightarrow> Some t)
      | Constant c \<Rightarrow> Some t
      | Compound f args \<Rightarrow>
          do { new_args \<leftarrow> mapo (\<lambda>a. substitute bindings a) args; Some (Compound f new_args) })"

definition apply_sub :: "substitution \<Rightarrow> fol_term \<Rightarrow> fol_term option" where
  "apply_sub sub t = substitute sub t"

definition compose :: "substitution \<Rightarrow> substitution \<Rightarrow> substitution option" where
  "compose base other =
     do { result \<leftarrow> mapo (\<lambda>(var, t). do { t' \<leftarrow> substitute other t; Some (var, t') }) base;
          Some (result @ filter (\<lambda>(var, t). map_of base var = None) other) }"

section \<open>Unification\<close>

text \<open>The loop over the pairs of arguments, and the algorithm.\<close>

fun unify_args ::
  "(fol_term \<Rightarrow> fol_term \<Rightarrow> substitution \<Rightarrow> substitution option option) \<Rightarrow> (fol_term \<times> fol_term) list \<Rightarrow>
   substitution \<Rightarrow> substitution option option"
where
  "unify_args U [] sub = Some (Some sub)"
| "unify_args U ((a1, a2) # rest) sub =
     do { r \<leftarrow> U a1 a2 sub; case r of Some s \<Rightarrow> unify_args U rest s | None \<Rightarrow> Some None }"

lemma unify_args_mono [partial_function_mono]:
  assumes "\<And>a b s. mono_option (\<lambda>f. B a b s f)"
  shows "mono_option (\<lambda>f. unify_args (\<lambda>a b s. B a b s f) ps sub)"
proof (induction ps arbitrary: sub)
  case Nil
  show ?case by (simp add: option.const_mono)
next
  case (Cons p ps)
  obtain a b where p: "p = (a, b)" by (cases p)
  have "mono_option (\<lambda>f. case r of Some s \<Rightarrow> unify_args (\<lambda>a b s. B a b s f) ps s | None \<Rightarrow> Some None)" for r
    by (cases r) (simp_all add: Cons option.const_mono)
  then show ?case unfolding p unify_args.simps by (intro bind_mono assms)
qed

partial_function (option) unify_with_sub ::
  "fol_term \<Rightarrow> fol_term \<Rightarrow> substitution \<Rightarrow> substitution option option" where
  "unify_with_sub u1 u2 sub =
     do { t1 \<leftarrow> apply_sub sub u1;
          t2 \<leftarrow> apply_sub sub u2;
          if t1 = t2 then Some (Some sub)
          else (case (t1, t2) of
                  (Variable v, _) \<Rightarrow> Some (if contains_var t2 v then None else Some ((v, t2) # sub))
                | (_, Variable v) \<Rightarrow> Some (if contains_var t1 v then None else Some ((v, t1) # sub))
                | (Compound f1 args1, Compound f2 args2) \<Rightarrow>
                    if f1 \<noteq> f2 \<or> length args1 \<noteq> length args2 then Some None
                    else unify_args (\<lambda>a b s. unify_with_sub a b s) (zip args1 args2) sub
                | _ \<Rightarrow> Some None) }"

definition unify :: "fol_term \<Rightarrow> fol_term \<Rightarrow> substitution option option" where
  "unify t1 t2 = unify_with_sub t1 t2 []"

section \<open>Instances and solutions\<close>

text \<open>
  The mathematical side: the instance of a term under a total assignment of terms to variables,
  the assignments that solve a substitution read as a set of equations, and the substitutions
  whose bindings have no cycle.
\<close>

fun inst :: "(u32 \<Rightarrow> fol_term) \<Rightarrow> fol_term \<Rightarrow> fol_term" where
  "inst \<theta> (Variable v) = \<theta> v"
| "inst \<theta> (Constant c) = Constant c"
| "inst \<theta> (Compound f args) = Compound f (map (inst \<theta>) args)"

definition solves :: "(u32 \<Rightarrow> fol_term) \<Rightarrow> substitution \<Rightarrow> bool" where
  "solves \<theta> sub \<longleftrightarrow> (\<forall>v t. map_of sub v = Some t \<longrightarrow> \<theta> v = inst \<theta> t)"

definition depends :: "substitution \<Rightarrow> (u32 \<times> u32) set" where
  "depends sub = {(w, v). \<exists>t. map_of sub v = Some t \<and> w \<in> variables t}"

definition acyclic_sub :: "substitution \<Rightarrow> bool" where
  "acyclic_sub sub \<longleftrightarrow> wf (depends sub)"

definition sub_vars :: "substitution \<Rightarrow> u32 set" where
  "sub_vars sub = {w. \<exists>v t. map_of sub v = Some t \<and> (w = v \<or> w \<in> variables t)}"

definition full :: "substitution \<Rightarrow> u32 \<Rightarrow> fol_term" where
  "full sub v = (case substitute sub (Variable v) of Some t \<Rightarrow> t | None \<Rightarrow> Variable v)"

lemma collect_vars_union: "collect_vars t out = out \<union> variables t"
proof (induction t arbitrary: out)
  case (Compound f args)
  have "fold collect_vars ts out = out \<union> \<Union> (variables ` set ts)" if "set ts \<subseteq> set args" for ts out
    using that
  proof (induction ts arbitrary: out)
    case (Cons t ts)
    have "collect_vars t out = out \<union> variables t" by (rule Compound.IH) (use Cons.prems in simp)
    then show ?case using Cons.IH [of "out \<union> variables t"] Cons.prems by (simp add: Un_assoc)
  qed simp
  from this [of args out] this [of args "{}"] show ?case by (simp add: variables_def)
qed (simp_all add: variables_def)

lemma variables_simps [simp]:
  "variables (Variable v) = {v}" "variables (Constant c) = {}"
  "variables (Compound f args) = \<Union> (variables ` set args)"
proof -
  have "fold collect_vars args out = out \<union> \<Union> (variables ` set args)" for out
    by (induction args arbitrary: out) (auto simp: collect_vars_union)
  then show "variables (Compound f args) = \<Union> (variables ` set args)" by (simp add: variables_def)
qed (simp_all add: variables_def)

lemma contains_var_iff [simp]: "contains_var t v \<longleftrightarrow> v \<in> variables t"
  by (induction t) (auto simp: list_ex_iff)

lemma is_ground_iff: "is_ground t \<longleftrightarrow> variables t = {}"
  by (induction t) (auto simp: list_all_iff)

lemma finite_variables [simp]: "finite (variables t)"
  by (induction t) auto

lemma inst_cong: "(\<And>v. v \<in> variables t \<Longrightarrow> \<theta> v = \<theta>' v) \<Longrightarrow> inst \<theta> t = inst \<theta>' t"
  by (induction t) auto

lemma inst_Variable [simp]: "inst Variable t = t"
  by (induction t) (auto intro: map_idI)

lemma inst_ident: "(\<And>v. v \<in> variables t \<Longrightarrow> \<theta> v = Variable v) \<Longrightarrow> inst \<theta> t = t"
  using inst_cong [of t \<theta> Variable] by simp

lemma inst_ground: "variables t = {} \<Longrightarrow> inst \<theta> t = t"
  by (rule inst_ident) simp

lemma inst_inst: "inst \<theta> (inst \<sigma> t) = inst (\<lambda>v. inst \<theta> (\<sigma> v)) t"
  by (induction t) auto

lemma variables_inst: "variables (inst \<theta> t) = (\<Union>v \<in> variables t. variables (\<theta> v))"
  by (induction t) auto

lemma size_inst_member: "v \<in> variables t \<Longrightarrow> t \<noteq> Variable v \<Longrightarrow> size (\<theta> v) < size (inst \<theta> t)"
proof -
  have le: "v \<in> variables t \<Longrightarrow> size (\<theta> v) \<le> size (inst \<theta> t)" for t
  proof (induction t)
    case (Compound f args)
    then obtain a where a: "a \<in> set args" "v \<in> variables a" by auto
    then have "size (inst \<theta> a) \<le> size_list size (map (inst \<theta>) args)" by (intro size_list_estimation') auto
    then show ?case using Compound.IH [OF a] by simp
  qed simp_all
  assume v: "v \<in> variables t" "t \<noteq> Variable v"
  then obtain f args where t: "t = Compound f args" by (cases t) auto
  then obtain a where a: "a \<in> set args" "v \<in> variables a" using v by auto
  then have "size (inst \<theta> a) \<le> size_list size (map (inst \<theta>) args)" by (intro size_list_estimation') auto
  then show ?thesis using le [OF a(2)] t by simp
qed

lemma occurs_no_solution: "v \<in> variables t \<Longrightarrow> t \<noteq> Variable v \<Longrightarrow> \<theta> v \<noteq> inst \<theta> t"
  using size_inst_member [of v t \<theta>] by auto

section \<open>Acyclic substitutions\<close>

lemma substitute_simps:
  "substitute sub (Variable v) = (case map_of sub v of Some b \<Rightarrow> substitute sub b | None \<Rightarrow> Some (Variable v))"
  "substitute sub (Constant c) = Some (Constant c)"
  "substitute sub (Compound f args) = do { as \<leftarrow> mapo (substitute sub) args; Some (Compound f as) }"
  by (simp_all add: substitute.simps [of sub])

lemma acyclic_induct [consumes 1, case_names step]:
  assumes "acyclic_sub sub"
    and "\<And>v. (\<And>t w. map_of sub v = Some t \<Longrightarrow> w \<in> variables t \<Longrightarrow> P w) \<Longrightarrow> P v"
  shows "P v"
  using assms(1) unfolding acyclic_sub_def
proof (induction v rule: wf_induct_rule)
  case (less v)
  show ?case by (rule assms(2)) (rule less.IH, auto simp: depends_def)
qed

lemma substitute_by_vars:
  "(\<And>w. w \<in> variables t \<Longrightarrow> substitute sub (Variable w) \<noteq> None) \<Longrightarrow> substitute sub t = Some (inst (full sub) t)"
proof (induction t)
  case (Variable v)
  then show ?case by (auto simp: full_def)
next
  case (Compound f args)
  have "mapo (substitute sub) args = Some (map (inst (full sub)) args)"
    by (rule mapo_Some, rule Compound.IH) (use Compound.prems in auto)
  then show ?case by (simp add: substitute_simps)
qed (simp add: substitute_simps)

lemma substitute_full:
  assumes "acyclic_sub sub"
  shows "substitute sub t = Some (inst (full sub) t)"
proof -
  have "substitute sub (Variable w) \<noteq> None" for w
    using assms
  proof (induction w rule: acyclic_induct)
    case (step v)
    show ?case
    proof (cases "map_of sub v")
      case (Some t)
      then show ?thesis using substitute_by_vars [of t sub] step by (simp add: substitute_simps)
    qed (simp add: substitute_simps)
  qed
  then show ?thesis by (intro substitute_by_vars)
qed

lemma full_unbound [simp]: "map_of sub v = None \<Longrightarrow> full sub v = Variable v"
  by (simp add: full_def substitute_simps)

lemma full_bound: "acyclic_sub sub \<Longrightarrow> map_of sub v = Some t \<Longrightarrow> full sub v = inst (full sub) t"
  using substitute_full [of sub "Variable v"] substitute_full [of sub t] by (simp add: substitute_simps)

lemma full_solves: "acyclic_sub sub \<Longrightarrow> solves (full sub) sub"
  by (simp add: solves_def full_bound)

lemma solves_full:
  assumes "acyclic_sub sub" and "solves \<theta> sub"
  shows "inst \<theta> (full sub v) = \<theta> v"
  using assms(1)
proof (induction v rule: acyclic_induct)
  case (step v)
  show ?case
  proof (cases "map_of sub v")
    case (Some t)
    have "inst \<theta> (inst (full sub) t) = inst \<theta> t" unfolding inst_inst by (rule inst_cong) (rule step [OF Some])
    then show ?thesis using Some full_bound [OF assms(1) Some] assms(2) by (simp add: solves_def)
  qed simp
qed

lemma solves_inst: "acyclic_sub sub \<Longrightarrow> solves \<theta> sub \<Longrightarrow> inst \<theta> (inst (full sub) t) = inst \<theta> t"
  by (simp add: inst_inst solves_full)

lemma vars_full:
  assumes "acyclic_sub sub" and "w \<in> variables (full sub v)"
  shows "map_of sub w = None \<and> (w = v \<or> w \<in> sub_vars sub)"
  using assms
proof (induction v rule: acyclic_induct)
  case (step v)
  show ?case
  proof (cases "map_of sub v")
    case (Some t)
    then obtain x where x: "x \<in> variables t" "w \<in> variables (full sub x)"
      using step.prems full_bound [OF assms(1) Some] by (auto simp: variables_inst)
    have "x \<in> sub_vars sub" using Some x(1) by (auto simp: sub_vars_def)
    then show ?thesis using step.IH [OF Some x] by auto
  qed (use step.prems in simp)
qed

lemma vars_inst_full:
  "acyclic_sub sub \<Longrightarrow> w \<in> variables (inst (full sub) t) \<Longrightarrow> map_of sub w = None \<and> w \<in> variables t \<union> sub_vars sub"
  using vars_full by (fastforce simp: variables_inst)

lemma full_idem: "acyclic_sub sub \<Longrightarrow> inst (full sub) (inst (full sub) t) = inst (full sub) t"
  by (rule solves_inst [OF _ full_solves])

lemma acyclic_Nil [simp]: "acyclic_sub []"
  by (simp add: acyclic_sub_def depends_def)

lemma full_Nil [simp]: "full [] = Variable"
  by (rule ext) simp

lemma acyclicI:
  assumes "\<And>P v. (\<And>v. (\<And>t w. map_of sub v = Some t \<Longrightarrow> w \<in> variables t \<Longrightarrow> P w) \<Longrightarrow> P v) \<Longrightarrow> P v"
  shows "acyclic_sub sub"
  unfolding acyclic_sub_def
proof (rule wfUNIVI)
  fix P v assume "\<forall>v. (\<forall>w. (w, v) \<in> depends sub \<longrightarrow> P w) \<longrightarrow> P v"
  then have "P x" if "\<And>t w. map_of sub x = Some t \<Longrightarrow> w \<in> variables t \<Longrightarrow> P w" for x
    using that by (auto simp: depends_def)
  then show "P v" by (rule assms)
qed

lemma acyclic_Cons:
  assumes "acyclic_sub sub" and "map_of sub v = None" and "v \<notin> variables t"
    and "\<And>w. w \<in> variables t \<Longrightarrow> map_of sub w = None"
  shows "acyclic_sub ((v, t) # sub)"
proof (rule acyclicI)
  fix P x assume H: "\<And>v'. (\<And>t' w. map_of ((v, t) # sub) v' = Some t' \<Longrightarrow> w \<in> variables t' \<Longrightarrow> P w) \<Longrightarrow> P v'"
  have un: "P w" if "w \<in> variables t" for w
  proof (rule H)
    fix t' u assume "map_of ((v, t) # sub) w = Some t'"
    then show "P u" using assms(3,4) that by (auto split: if_splits)
  qed
  have v: "P v" by (rule H) (use un in simp)
  show "P x"
    using assms(1)
  proof (induction x rule: acyclic_induct)
    case (step x)
    show ?case
    proof (cases "x = v")
      case False
      then have "map_of ((v, t) # sub) x = map_of sub x" by simp
      then show ?thesis using H step by metis
    qed (use v in simp)
  qed
qed

lemma solves_Cons:
  "map_of sub v = None \<Longrightarrow> solves \<theta> ((v, t) # sub) \<longleftrightarrow> \<theta> v = inst \<theta> t \<and> solves \<theta> sub"
  by (auto simp: solves_def)

lemma map_of_mapped: "map_of (map (\<lambda>(v, t). (v, g t)) base) v = map_option g (map_of base v)"
  by (induction base) auto

lemma map_of_unbound: "map_of (filter (\<lambda>(v, t). map_of base v = None) other) v =
    (if map_of base v = None then map_of other v else None)"
  by (induction other) auto

lemma compose_acyclic:
  assumes "acyclic_sub other"
  obtains c where "compose base other = Some c"
    "\<And>v. map_of c v = (case map_of base v of Some t \<Rightarrow> Some (inst (full other) t) | None \<Rightarrow> map_of other v)"
proof -
  have "mapo (\<lambda>(var, t). do { t' \<leftarrow> substitute other t; Some (var, t') }) base =
      Some (map (\<lambda>(v, t). (v, inst (full other) t)) base)"
    by (rule mapo_Some) (auto simp: substitute_full [OF assms])
  then show thesis
    by (intro that [of "map (\<lambda>(v, t). (v, inst (full other) t)) base @ filter (\<lambda>(var, t). map_of base var = None) other"])
      (auto simp: compose_def map_add_def map_of_mapped map_of_unbound split: option.splits)
qed

text \<open>
  Composition with a substitution that does not touch the variables bound so far: the result is
  acyclic, its solutions solve both, and it is the second applied after the first.
\<close>

lemma compose_fresh:
  assumes "acyclic_sub base" and "acyclic_sub other" and fresh: "\<And>w. w \<in> sub_vars other \<Longrightarrow> map_of base w = None"
  obtains c where "compose base other = Some c" "acyclic_sub c" "\<And>\<theta>. solves \<theta> c \<longleftrightarrow> solves \<theta> base \<and> solves \<theta> other"
    "\<And>v. full c v = inst (full other) (full base v)" "sub_vars c \<subseteq> sub_vars base \<union> sub_vars other"
    "\<And>v. map_of c v = None \<longleftrightarrow> map_of base v = None \<and> map_of other v = None"
proof -
  obtain c where c: "compose base other = Some c"
    "\<And>v. map_of c v = (case map_of base v of Some t \<Rightarrow> Some (inst (full other) t) | None \<Rightarrow> map_of other v)"
    using compose_acyclic [OF assms(2), of base] by metis
  have keep: "map_of base v = None" if "map_of other v = Some t" for v t
    using fresh that by (auto simp: sub_vars_def)
  have vars_other: "map_of base w = None" if "map_of other v = Some t" "w \<in> variables t" for v t w
    using fresh that by (auto simp: sub_vars_def)
  have none: "map_of c v = None \<longleftrightarrow> map_of base v = None \<and> map_of other v = None" for v
    using c(2) by (auto split: option.splits)
  have ac: "acyclic_sub c"
  proof (rule acyclicI)
    fix P x assume H: "\<And>v. (\<And>t w. map_of c v = Some t \<Longrightarrow> w \<in> variables t \<Longrightarrow> P w) \<Longrightarrow> P v"
    have out: "map_of base v = None \<Longrightarrow> P v" for v
      using assms(2)
    proof (induction v rule: acyclic_induct)
      case (step v)
      show ?case
      proof (rule H)
        fix t w assume "map_of c v = Some t" "w \<in> variables t"
        then have "map_of other v = Some t" using c(2) step.prems by simp
        then show "P w" using \<open>w \<in> variables t\<close> by (intro step.IH vars_other)
      qed
    qed
    show "P x"
      using assms(1)
    proof (induction x rule: acyclic_induct)
      case (step v)
      show ?case
      proof (rule H)
        fix t w assume t: "map_of c v = Some t" "w \<in> variables t"
        show "P w"
        proof (cases "map_of base v")
          case (Some u)
          then have "w \<in> variables (inst (full other) u)" using t c(2) by simp
          then obtain x where x: "x \<in> variables u" "w \<in> variables (full other x)" by (auto simp: variables_inst)
          show ?thesis
            using vars_full [OF assms(2) x(2)] step [OF Some x(1)] out [of w] fresh by auto
        next
          case None
          then show ?thesis using t c(2) vars_other out by simp
        qed
      qed
    qed
  qed
  have sol: "solves \<theta> c \<longleftrightarrow> solves \<theta> base \<and> solves \<theta> other" for \<theta>
  proof
    assume s: "solves \<theta> c"
    have o: "solves \<theta> other"
      unfolding solves_def
    proof (intro allI impI)
      fix v t assume "map_of other v = Some t"
      then have "map_of c v = Some t" using c(2) keep by simp
      then show "\<theta> v = inst \<theta> t" using s by (simp add: solves_def)
    qed
    have "\<theta> v = inst \<theta> t" if "map_of base v = Some t" for v t
    proof -
      have "map_of c v = Some (inst (full other) t)" using that c(2) by simp
      then have "\<theta> v = inst \<theta> (inst (full other) t)" using s by (simp add: solves_def)
      then show ?thesis by (simp add: solves_inst [OF assms(2) o])
    qed
    with o show "solves \<theta> base \<and> solves \<theta> other" by (simp add: solves_def)
  next
    assume s: "solves \<theta> base \<and> solves \<theta> other"
    show "solves \<theta> c"
      unfolding solves_def
    proof (intro allI impI)
      fix v t assume "map_of c v = Some t"
      then show "\<theta> v = inst \<theta> t"
        using s c(2) solves_inst [OF assms(2)] by (auto simp: solves_def split: option.splits)
    qed
  qed
  let ?f = "\<lambda>v. inst (full other) (full base v)"
  have f: "solves ?f base" "solves ?f other"
  proof -
    show "solves ?f base" using full_bound [OF assms(1)] by (simp add: solves_def inst_inst)
    show "solves ?f other"
      unfolding solves_def
    proof (intro allI impI)
      fix v t assume v: "map_of other v = Some t"
      have "inst ?f t = inst (full other) t" by (rule inst_cong) (use vars_other [OF v] in simp)
      then show "?f v = inst ?f t" using full_bound [OF assms(2) v] keep [OF v] by simp
    qed
  qed
  have eq: "full c v = ?f v" for v
  proof -
    have "inst ?f (full c v) = ?f v" by (rule solves_full [OF ac]) (use f sol in blast)
    moreover have "inst ?f (full c v) = full c v"
    proof (rule inst_ident)
      fix w assume "w \<in> variables (full c v)"
      then have "map_of c w = None" using vars_full [OF ac] by blast
      then show "?f w = Variable w" using none [of w] by simp
    qed
    ultimately show ?thesis by simp
  qed
  have "w \<in> sub_vars base \<union> sub_vars other" if "w \<in> sub_vars c" for w
  proof -
    from that obtain v t where v: "map_of c v = Some t" "w = v \<or> w \<in> variables t" by (auto simp: sub_vars_def)
    show ?thesis
    proof (cases "map_of base v")
      case (Some u)
      then have "t = inst (full other) u" using v c(2) by simp
      then show ?thesis using v(2) Some vars_inst_full [OF assms(2), of w u] by (auto simp: sub_vars_def)
    next
      case None
      then show ?thesis using v c(2) by (auto simp: sub_vars_def)
    qed
  qed
  with c(1) ac sol eq none show thesis by (intro that) auto
qed

section \<open>Correctness of unification\<close>

text \<open>
  The result of a run from an acyclic substitution over the variables of \<open>V\<close>: no solution of the
  substitution unifies the terms, or the answer is an acyclic extension over the same variables
  whose solutions are exactly those that also unify the terms.
\<close>

definition unified :: "u32 set \<Rightarrow> substitution \<Rightarrow> (fol_term \<times> fol_term) list \<Rightarrow> substitution option \<Rightarrow> bool" where
  "unified V sub ps r \<longleftrightarrow>
     (case r of
        None \<Rightarrow> \<not> (\<exists>\<theta>. solves \<theta> sub \<and> (\<forall>(a, b) \<in> set ps. inst \<theta> a = inst \<theta> b))
      | Some s \<Rightarrow> acyclic_sub s \<and> sub_vars s \<subseteq> V \<and> dom (map_of sub) \<subseteq> dom (map_of s) \<and>
          (s = sub \<or> dom (map_of sub) \<subset> dom (map_of s)) \<and>
          (\<forall>\<theta>. solves \<theta> s \<longleftrightarrow> solves \<theta> sub \<and> (\<forall>(a, b) \<in> set ps. inst \<theta> a = inst \<theta> b)))"

lemma unified_cong:
  assumes "unified V sub ps r"
    and "\<And>\<theta>. solves \<theta> sub \<Longrightarrow> (\<forall>(a, b) \<in> set ps. inst \<theta> a = inst \<theta> b) \<longleftrightarrow> (\<forall>(a, b) \<in> set qs. inst \<theta> a = inst \<theta> b)"
  shows "unified V sub qs r"
proof -
  have "solves \<theta> sub \<and> (\<forall>(a, b) \<in> set ps. inst \<theta> a = inst \<theta> b) \<longleftrightarrow> solves \<theta> sub \<and> (\<forall>(a, b) \<in> set qs. inst \<theta> a = inst \<theta> b)" for \<theta>
    using assms(2) by blast
  then show ?thesis using assms(1) unfolding unified_def by (simp only:)
qed

definition unbound :: "u32 set \<Rightarrow> substitution \<Rightarrow> nat" where
  "unbound V sub = card (V - dom (map_of sub))"

lemma unbound_less:
  "finite V \<Longrightarrow> sub_vars s \<subseteq> V \<Longrightarrow> dom (map_of sub) \<subset> dom (map_of s) \<Longrightarrow> unbound V s < unbound V sub"
proof -
  assume V: "finite V" "sub_vars s \<subseteq> V" and d: "dom (map_of sub) \<subset> dom (map_of s)"
  have "dom (map_of s) \<subseteq> V" using V(2) by (auto simp: sub_vars_def)
  then have "V - dom (map_of s) \<subset> V - dom (map_of sub)" using d by blast
  then show ?thesis unfolding unbound_def using V(1) by (intro psubset_card_mono) auto
qed

lemma unified_bind:
  assumes "acyclic_sub sub" and "sub_vars sub \<subseteq> V" and "map_of sub v = None" and "v \<in> V"
    and "t = inst (full sub) u" and "variables u \<subseteq> V" and "t \<noteq> Variable v" and "ps = [(Variable v, u)] \<or> ps = [(u, Variable v)]"
  shows "unified V sub ps (if contains_var t v then None else Some ((v, t) # sub))"
proof (cases "v \<in> variables t")
  case True
  have "\<theta> v \<noteq> inst \<theta> u" if "solves \<theta> sub" for \<theta>
    using occurs_no_solution [OF True assms(7), of \<theta>] solves_inst [OF assms(1) that, of u] assms(5) by simp
  then have "\<not> (\<exists>\<theta>. solves \<theta> sub \<and> (\<forall>(a, b) \<in> set ps. inst \<theta> a = inst \<theta> b))" using assms(8) by fastforce
  then show ?thesis using True by (simp add: unified_def)
next
  case False
  have out: "map_of sub w = None \<and> w \<in> V" if "w \<in> variables t" for w
    using vars_inst_full [OF assms(1), of w u] that assms(2,5,6) by auto
  have "acyclic_sub ((v, t) # sub)" by (rule acyclic_Cons) (use assms False out in auto)
  moreover have "sub_vars ((v, t) # sub) \<subseteq> V"
    using assms(2,4) out by (auto simp: sub_vars_def split: if_splits)
  moreover have "solves \<theta> ((v, t) # sub) \<longleftrightarrow> solves \<theta> sub \<and> \<theta> v = inst \<theta> u" for \<theta>
    using solves_Cons [OF assms(3)] solves_inst [OF assms(1), of \<theta> u] assms(5) by auto
  moreover have "dom (map_of sub) \<subset> dom (map_of ((v, t) # sub))" using assms(3) by auto
  ultimately show ?thesis using False assms(8) by (auto simp: unified_def)
qed

lemma unify_args_correct:
  assumes U: "\<And>a b s. (a, b) \<in> set ps \<Longrightarrow> acyclic_sub s \<Longrightarrow> sub_vars s \<subseteq> V \<Longrightarrow> s = sub \<or> dom (map_of sub) \<subset> dom (map_of s) \<Longrightarrow>
      \<exists>r. U a b s = Some r \<and> unified V s [(a, b)] r"
    and s: "acyclic_sub s" "sub_vars s \<subseteq> V" "s = sub \<or> dom (map_of sub) \<subset> dom (map_of s)"
  shows "\<exists>r. unify_args U ps s = Some r \<and> unified V s ps r"
  using U s
proof (induction ps arbitrary: s)
  case Nil
  then show ?case by (auto simp: unified_def)
next
  case (Cons p ps)
  obtain a b where p: "p = (a, b)" by (cases p)
  obtain r where r: "U a b s = Some r" "unified V s [(a, b)] r"
    using Cons.prems(1) [of a b s] Cons.prems(2-4) p by auto
  show ?case
  proof (cases r)
    case None
    then show ?thesis using r p by (auto simp: unified_def)
  next
    case (Some s')
    then have s': "acyclic_sub s'" "sub_vars s' \<subseteq> V" "dom (map_of s) \<subseteq> dom (map_of s')"
      "s' = s \<or> dom (map_of s) \<subset> dom (map_of s')"
      "\<And>\<theta>. solves \<theta> s' \<longleftrightarrow> solves \<theta> s \<and> inst \<theta> a = inst \<theta> b"
      using r(2) by (auto simp: unified_def)
    have "s' = sub \<or> dom (map_of sub) \<subset> dom (map_of s')" using s'(3,4) Cons.prems(4) by blast
    then obtain q where q: "unify_args U ps s' = Some q" "unified V s' ps q"
      using Cons.IH [of s'] Cons.prems(1) s'(1,2) by auto
    have "unified V s (p # ps) q"
    proof (cases q)
      case None
      then show ?thesis using q(2) s'(5) p by (auto simp: unified_def)
    next
      case (Some x)
      have "dom (map_of s) \<subseteq> dom (map_of x)" "x = s \<or> dom (map_of s) \<subset> dom (map_of x)"
        using q(2) s'(3,4) unfolding unified_def Some option.case by blast+
      then show ?thesis using q(2) s'(5) p Some by (auto simp: unified_def)
    qed
    then show ?thesis using q(1) r(1) Some p by simp
  qed
qed

lemma unify_with_sub_correct:
  assumes "finite V"
  shows "acyclic_sub sub \<Longrightarrow> sub_vars sub \<subseteq> V \<Longrightarrow> variables u1 \<union> variables u2 \<subseteq> V \<Longrightarrow>
    \<exists>r. unify_with_sub u1 u2 sub = Some r \<and> unified V sub [(u1, u2)] r"
proof (induction "(unbound V sub, size (inst (full sub) u1))" arbitrary: sub u1 u2
    rule: wf_induct_rule [OF wf_lex_prod [OF wf_less_than wf_less_than]])
  case (1 sub u1 u2)
  let ?t1 = "inst (full sub) u1" and ?t2 = "inst (full sub) u2"
  note ac = 1(2) and V = 1(3,4)
  have un: "map_of sub w = None \<and> w \<in> V" if "w \<in> variables ?t1 \<union> variables ?t2" for w
    using vars_inst_full [OF ac, of w] that V by blast
  have step: "unify_with_sub u1 u2 sub = (if ?t1 = ?t2 then Some (Some sub) else
      (case (?t1, ?t2) of
         (Variable v, _) \<Rightarrow> Some (if contains_var ?t2 v then None else Some ((v, ?t2) # sub))
       | (_, Variable v) \<Rightarrow> Some (if contains_var ?t1 v then None else Some ((v, ?t1) # sub))
       | (Compound f1 args1, Compound f2 args2) \<Rightarrow>
           if f1 \<noteq> f2 \<or> length args1 \<noteq> length args2 then Some None
           else unify_args unify_with_sub (zip args1 args2) sub
       | _ \<Rightarrow> Some None))"
    by (subst unify_with_sub.simps) (simp only: apply_sub_def substitute_full [OF ac] Option.bind.simps)
  have eqs: "inst \<theta> u1 = inst \<theta> u2 \<longleftrightarrow> inst \<theta> ?t1 = inst \<theta> ?t2" if "solves \<theta> sub" for \<theta>
    by (simp add: solves_inst [OF ac that])
  have lifted: "unified V sub [(u1, u2)] r" if "unified V sub [(?t1, ?t2)] r" for r
    by (rule unified_cong [OF that]) (use eqs in simp)
  show ?case
  proof (cases "?t1 = ?t2")
    case True
    then show ?thesis using step ac V eqs by (auto simp: unified_def)
  next
    case ne: False
    show ?thesis
    proof (cases "(\<exists>v. ?t1 = Variable v) \<or> (\<exists>v. ?t2 = Variable v)")
      case True
      then consider v where "?t1 = Variable v" | v where "?t2 = Variable v" "\<forall>v. ?t1 \<noteq> Variable v" by blast
      then show ?thesis
      proof cases
        case (1 v)
        have "unified V sub [(Variable v, ?t2)] (if contains_var ?t2 v then None else Some ((v, ?t2) # sub))"
          by (rule unified_bind [OF ac V(1), where u = ?t2]) (use un 1 ne in \<open>auto simp: full_idem [OF ac]\<close>)
        then show ?thesis using step ne 1 lifted by (intro exI conjI) auto
      next
        case (2 v)
        have "unified V sub [(?t1, Variable v)] (if contains_var ?t1 v then None else Some ((v, ?t1) # sub))"
          by (rule unified_bind [OF ac V(1), where u = ?t1]) (use un 2 ne in \<open>auto simp: full_idem [OF ac]\<close>)
        moreover have "unify_with_sub u1 u2 sub = Some (if contains_var ?t1 v then None else Some ((v, ?t1) # sub))"
          unfolding step using ne 2 by (auto split: fol_term.splits)
        ultimately show ?thesis using lifted [unfolded 2(1)] by blast
      qed
    next
      case False
      show ?thesis
      proof (cases "\<exists>f xs ys. ?t1 = Compound f xs \<and> ?t2 = Compound f ys \<and> length xs = length ys")
        case True
        then obtain f xs ys where t: "?t1 = Compound f xs" "?t2 = Compound f ys" "length xs = length ys" by blast
        have "\<exists>r. unify_args unify_with_sub (zip xs ys) sub = Some r \<and> unified V sub (zip xs ys) r"
        proof (rule unify_args_correct [where sub = sub])
          fix a b s assume ab: "(a, b) \<in> set (zip xs ys)" and s: "acyclic_sub s" "sub_vars s \<subseteq> V"
            "s = sub \<or> dom (map_of sub) \<subset> dom (map_of s)"
          have mem: "a \<in> set xs" "b \<in> set ys" using ab by (auto dest: set_zip_leftD set_zip_rightD)
          then have vs: "variables a \<union> variables b \<subseteq> V" "\<And>w. w \<in> variables a \<Longrightarrow> map_of sub w = None"
            using un t(1,2) by fastforce+
          have "inst (full sub) a = a" by (rule inst_ident) (use vs(2) in simp)
          moreover have "size a < size ?t1" unfolding t(1) using size_list_estimation' [of a xs "size a" size] mem(1) by simp
          ultimately have "unbound V s < unbound V sub \<or> unbound V s = unbound V sub \<and> size (inst (full s) a) < size ?t1"
            using s(3) unbound_less [OF assms s(2)] by auto
          then show "\<exists>r. unify_with_sub a b s = Some r \<and> unified V s [(a, b)] r"
            by (intro 1(1) s(1,2) vs(1)) auto
        qed (use ac V(1) in auto)
        then obtain r where r: "unify_args unify_with_sub (zip xs ys) sub = Some r" "unified V sub (zip xs ys) r" by blast
        have "(\<forall>(a, b) \<in> set (zip xs ys). inst \<theta> a = inst \<theta> b) \<longleftrightarrow> inst \<theta> ?t1 = inst \<theta> ?t2" for \<theta>
          unfolding t(1,2) using t(3) by (induction xs ys rule: list_induct2) auto
        then have "unified V sub [(?t1, ?t2)] r" by (intro unified_cong [OF r(2)]) simp
        then show ?thesis using r(1) step ne t lifted by auto
      next
        case no: False
        have "inst \<theta> ?t1 \<noteq> inst \<theta> ?t2" for \<theta>
          using False no ne by (cases ?t1; cases ?t2) (auto dest: map_eq_imp_length_eq)
        then have "unified V sub [(?t1, ?t2)] None" by (simp add: unified_def)
        moreover have "unify_with_sub u1 u2 sub = Some None"
          using step ne False no by (auto split: fol_term.splits)
        ultimately show ?thesis using lifted by blast
      qed
    qed
  qed
qed

lemma unify_correct:
  obtains r where "unify t1 t2 = Some r" "unified (variables t1 \<union> variables t2) [] [(t1, t2)] r"
  using unify_with_sub_correct [of "variables t1 \<union> variables t2" "[]" t1 t2]
  by (auto simp: unify_def sub_vars_def)

text \<open>
  C14. Unification returns and decides: on every pair of terms it returns, and it answers None exactly when no assignment of terms to the variables makes the
  two terms equal.
\<close>

theorem unify_returns_and_decides:
  "\<exists>r. unify t1 t2 = Some r \<and> (r = None \<longleftrightarrow> (\<forall>\<theta>. inst \<theta> t1 \<noteq> inst \<theta> t2))"
proof -
  obtain r where r: "unify t1 t2 = Some r" "unified (variables t1 \<union> variables t2) [] [(t1, t2)] r"
    by (rule unify_correct)
  have "inst (full s) t1 = inst (full s) t2" if "r = Some s" for s
    using r(2) full_solves [of s] that by (auto simp: unified_def)
  then show ?thesis using r by (auto simp: unified_def solves_def split: option.splits)
qed

text \<open>
  C15. The unifier is most general: the substitution that is returned makes the two terms equal
  when it is applied, and every assignment that makes them equal is an instance of it.
\<close>

theorem unify_most_general:
  assumes "unify t1 t2 = Some (Some s)"
  shows "(\<exists>t. apply_sub s t1 = Some t \<and> apply_sub s t2 = Some t) \<and>
    (\<forall>\<theta>. inst \<theta> t1 = inst \<theta> t2 \<longrightarrow> (\<forall>v. \<exists>t. apply_sub s (Variable v) = Some t \<and> inst \<theta> t = \<theta> v))"
proof -
  obtain r where r: "unify t1 t2 = Some r" "unified (variables t1 \<union> variables t2) [] [(t1, t2)] r"
    by (rule unify_correct)
  then have s: "acyclic_sub s" "\<And>\<theta>. solves \<theta> s \<longleftrightarrow> inst \<theta> t1 = inst \<theta> t2"
    using assms by (auto simp: unified_def solves_def [of _ "[]"])
  have "inst (full s) t1 = inst (full s) t2" using s(2) full_solves [OF s(1)] by blast
  then show ?thesis using s(2) solves_full [OF s(1)] by (simp add: apply_sub_def substitute_full [OF s(1)])
qed

theorem unify_most_general_witness:
  "\<exists>s. unify (Compound 1 [Variable 0, Variable 1]) (Compound 1 [Compound 2 [Variable 1], Constant 7]) = Some (Some s) \<and>
     apply_sub s (Variable 0) = Some (Compound 2 [Constant 7])"
proof -
  let ?a = "Compound 1 [Variable 0, Variable 1]" and ?b = "Compound 1 [Compound 2 [Variable 1], Constant 7]"
  let ?s = "[(1, Constant 7), (0, Compound 2 [Variable 1])] :: substitution"
  have u: "unify ?a ?b = Some (Some ?s)"
    by (simp add: unify_def unify_with_sub.simps apply_sub_def substitute.simps)
  let ?\<theta> = "\<lambda>v. if v = 0 then Compound 2 [Constant 7] else Constant 7 :: fol_term"
  have "apply_sub ?s (Variable 0) = Some (Compound 2 [Constant 7])"
    by (simp add: apply_sub_def substitute.simps)
  with u unify_most_general [OF u] show ?thesis by blast
qed

text \<open>
  C16. A unifier is well formed: its bindings are acyclic and only mention variables of the two
  terms, so applying it to any term returns, and no variable that it binds is left in the result.
\<close>

theorem unifier_well_formed:
  assumes "unify t1 t2 = Some (Some s)"
  shows "acyclic_sub s \<and> sub_vars s \<subseteq> variables t1 \<union> variables t2 \<and>
    (\<forall>t. \<exists>t'. apply_sub s t = Some t' \<and> variables t' \<inter> dom (map_of s) = {})"
proof -
  obtain r where r: "unify t1 t2 = Some r" "unified (variables t1 \<union> variables t2) [] [(t1, t2)] r"
    by (rule unify_correct)
  then have s: "acyclic_sub s" "sub_vars s \<subseteq> variables t1 \<union> variables t2" using assms by (auto simp: unified_def)
  have "variables (inst (full s) t) \<inter> dom (map_of s) = {}" for t
    using vars_inst_full [OF s(1)] by fastforce
  with s show ?thesis by (auto simp: apply_sub_def substitute_full)
qed

theorem unifier_well_formed_witness:
  "\<exists>s. unify (Variable 0) (Compound 2 [Variable 1]) = Some (Some s) \<and> sub_vars s \<subseteq> {0, 1}"
proof -
  have u: "unify (Variable 0) (Compound 2 [Variable 1]) = Some (Some [(0, Compound 2 [Variable 1])])"
    by (simp add: unify_def unify_with_sub.simps apply_sub_def substitute.simps)
  from unifier_well_formed [OF u] u show ?thesis by auto
qed

section \<open>The symbol table\<close>

text \<open>The two directions agree: an identifier is the index of its name.\<close>

definition symbols_ok :: "symbol_table \<Rightarrow> bool" where
  "symbols_ok st \<longleftrightarrow> length (to_name st) \<le> 2 ^ 32 \<and>
     (\<forall>name i. to_id st name = Some i \<longleftrightarrow> unat i < length (to_name st) \<and> to_name st ! unat i = name)"

lemma new_symbols_ok: "symbols_ok new_symbols"
  by (simp add: symbols_ok_def new_symbols_def)

text \<open>
  Interning is a round trip: with fewer than two to the power 32 names, the symbol of a name
  resolves to the name, a second request gives the same symbol and leaves the table as it is,
  and the symbols given before resolve as before.
\<close>

theorem intern_resolves:
  assumes "symbols_ok st" and "length (to_name st) < 2 ^ 32" and "intern_symbol name st = (s, st')"
  shows "symbols_ok st' \<and> try_resolve st' s = Some name \<and> intern_symbol name st' = (s, st') \<and>
    (\<forall>x n. try_resolve st x = Some n \<longrightarrow> try_resolve st' x = Some n)"
proof (cases "to_id st name")
  case (Some i)
  then have "s = i" "st' = st" using assms(3) by (simp_all add: intern_symbol_def)
  moreover have "unat i < length (to_name st) \<and> to_name st ! unat i = name"
    using assms(1) Some unfolding symbols_ok_def by blast
  ultimately show ?thesis using assms(1,3) by (simp add: try_resolve_def)
next
  case None
  let ?n = "length (to_name st)"
  have st': "s = of_nat ?n" "st' = \<lparr>to_id = (to_id st)(name \<mapsto> of_nat ?n), to_name = to_name st @ [name]\<rparr>"
    using assms(3) None by (auto simp: intern_symbol_def Let_def)
  have n: "unat (of_nat ?n :: u32) = ?n" by (rule unat_of_nat_less) (use assms(2) in simp)
  have new: "to_name st ! unat i \<noteq> name" if "unat i < ?n" for i :: u32
  proof
    assume "to_name st ! unat i = name"
    then have "to_id st name = Some i" using assms(1) that unfolding symbols_ok_def by blast
    then show False using None by simp
  qed
  have "to_id st' x = Some i \<longleftrightarrow> unat i < length (to_name st') \<and> to_name st' ! unat i = x" for x and i :: u32
  proof (cases "unat i = ?n")
    case True
    then have "i = of_nat ?n" using n by (metis word_unat_eq_iff)
    then show ?thesis using assms(1) n by (auto simp: st' symbols_ok_def nth_append)
  next
    case False
    then have "i \<noteq> of_nat ?n" using n by auto
    then show ?thesis using assms(1) new False by (auto simp: st' symbols_ok_def nth_append less_Suc_eq)
  qed
  then have "symbols_ok st'" using assms(2) by (simp add: symbols_ok_def st')
  moreover have "try_resolve st' s = Some name" "intern_symbol name st' = (s, st')"
    using n by (simp_all add: st' intern_symbol_def try_resolve_def)
  moreover have "try_resolve st' x = Some m" if "try_resolve st x = Some m" for x m
    using that by (simp add: st'(2) try_resolve_def nth_append split: if_splits)
  ultimately show ?thesis by blast
qed

theorem intern_resolves_witness:
  "\<exists>s st'. intern_symbol ''alice'' new_symbols = (s, st') \<and> try_resolve st' s = Some ''alice''"
proof -
  obtain s st' where i: "intern_symbol ''alice'' new_symbols = (s, st')" by fastforce
  have "length (to_name new_symbols) < 2 ^ 32" by (simp add: new_symbols_def)
  from intern_resolves [OF new_symbols_ok this i] i show ?thesis by blast
qed

end
