(* ===== verification/Formulas.thy ===== *)
theory Formulas
  imports Terms
begin

text \<open>
  First-order formulas and the inference rules over them
  (\<open>aether-core/crates/aether-logic/src/formula.rs\<close> and \<open>inference.rs\<close>), with a semantics
  against which the rules are proved sound where they are: formulas without quantifiers. As in
  Terms, the outer option is a call that returns.
\<close>

section \<open>Formulas\<close>

datatype formula =
    Atom symbol "fol_term list"
  | Not formula
  | And "formula list"
  | Or "formula list"
  | Implies formula formula
  | ForAll u32 formula
  | Exists u32 formula

text \<open>The free variables, with the two sets that the traversal mutates.\<close>

fun collect_free_vars :: "formula \<Rightarrow> u32 set \<times> u32 set \<Rightarrow> u32 set \<times> u32 set" where
  "collect_free_vars (Atom p terms) (free, bound) =
     (fold (\<lambda>t free. free \<union> (variables t - bound)) terms free, bound)"
| "collect_free_vars (Not f) st = collect_free_vars f st"
| "collect_free_vars (And fs) st = fold collect_free_vars fs st"
| "collect_free_vars (Or fs) st = fold collect_free_vars fs st"
| "collect_free_vars (Implies a b) st = collect_free_vars b (collect_free_vars a st)"
| "collect_free_vars (ForAll v body) (free, bound) =
     (let (free', bound') = collect_free_vars body (free, insert v bound) in (free', bound' - {v}))"
| "collect_free_vars (Exists v body) (free, bound) =
     (let (free', bound') = collect_free_vars body (free, insert v bound) in (free', bound' - {v}))"

definition free_variables :: "formula \<Rightarrow> u32 set" where
  "free_variables f = fst (collect_free_vars f ({}, {}))"

fun fsubst :: "substitution \<Rightarrow> formula \<Rightarrow> formula option" where
  "fsubst bindings (Atom pred terms) = do { ts \<leftarrow> mapo (substitute bindings) terms; Some (Atom pred ts) }"
| "fsubst bindings (Not f) = do { g \<leftarrow> fsubst bindings f; Some (Not g) }"
| "fsubst bindings (And fs) = do { gs \<leftarrow> mapo (fsubst bindings) fs; Some (And gs) }"
| "fsubst bindings (Or fs) = do { gs \<leftarrow> mapo (fsubst bindings) fs; Some (Or gs) }"
| "fsubst bindings (Implies a b) = do { c \<leftarrow> fsubst bindings a; d \<leftarrow> fsubst bindings b; Some (Implies c d) }"
| "fsubst bindings (ForAll v body) =
     do { b \<leftarrow> fsubst (filter (\<lambda>p. fst p \<noteq> v) bindings) body; Some (ForAll v b) }"
| "fsubst bindings (Exists v body) =
     do { b \<leftarrow> fsubst (filter (\<lambda>p. fst p \<noteq> v) bindings) body; Some (Exists v b) }"

fun negate :: "formula \<Rightarrow> formula" where
  "negate (Not inner) = inner"
| "negate other = Not other"

fun is_atom :: "formula \<Rightarrow> bool" where
  "is_atom (Atom p args) \<longleftrightarrow> True"
| "is_atom _ \<longleftrightarrow> False"

fun is_implication :: "formula \<Rightarrow> bool" where
  "is_implication (Implies a b) \<longleftrightarrow> True"
| "is_implication _ \<longleftrightarrow> False"

fun atom_predicate :: "formula \<Rightarrow> (symbol \<times> nat) option" where
  "atom_predicate (Atom pred args) = Some (pred, length args)"
| "atom_predicate _ = None"

section \<open>Unification of formulas\<close>

fun unify_atoms :: "formula \<Rightarrow> formula \<Rightarrow> substitution option option" where
  "unify_atoms (Atom p1 args1) (Atom p2 args2) =
     (if p1 \<noteq> p2 \<or> length args1 \<noteq> length args2 then Some None
      else unify_args unify_with_sub (zip args1 args2) [])"
| "unify_atoms _ _ = Some None"

text \<open>The loop over two conjunctions of the same length, and the structural unification.\<close>

fun unify_conjuncts ::
  "(formula \<Rightarrow> formula \<Rightarrow> substitution option option) \<Rightarrow> (formula \<times> formula) list \<Rightarrow> substitution \<Rightarrow>
   substitution option option"
where
  "unify_conjuncts U [] sub = Some (Some sub)"
| "unify_conjuncts U ((a, b) # rest) sub =
     do { a' \<leftarrow> fsubst sub a;
          b' \<leftarrow> fsubst sub b;
          r \<leftarrow> U a' b';
          case r of
            Some partial \<Rightarrow> do { sub' \<leftarrow> compose sub partial; unify_conjuncts U rest sub' }
          | None \<Rightarrow> Some None }"

lemma unify_conjuncts_mono [partial_function_mono]:
  assumes "\<And>a b. mono_option (\<lambda>f. B a b f)"
  shows "mono_option (\<lambda>f. unify_conjuncts (\<lambda>a b. B a b f) ps sub)"
proof (induction ps arbitrary: sub)
  case Nil
  show ?case by (simp add: option.const_mono)
next
  case (Cons p ps)
  obtain a b where p: "p = (a, b)" by (cases p)
  have "mono_option (\<lambda>f. case r of
      Some partial \<Rightarrow> do { sub' \<leftarrow> compose sub partial; unify_conjuncts (\<lambda>a b. B a b f) ps sub' }
    | None \<Rightarrow> Some None)" for r
    by (cases r) (auto intro!: bind_mono Cons option.const_mono)
  then show ?case unfolding p unify_conjuncts.simps by (intro bind_mono assms option.const_mono)
qed

partial_function (option) unify_formulas :: "formula \<Rightarrow> formula \<Rightarrow> substitution option option" where
  "unify_formulas f1 f2 =
     (case (f1, f2) of
        (Atom p1 args1, Atom p2 args2) \<Rightarrow> unify_atoms (Atom p1 args1) (Atom p2 args2)
      | (And fs1, And fs2) \<Rightarrow>
          if length fs1 = length fs2 then unify_conjuncts (\<lambda>a b. unify_formulas a b) (zip fs1 fs2) []
          else Some None
      | _ \<Rightarrow> Some None)"

section \<open>Inference rules\<close>

record derivation =
  conclusion :: formula
  substitution :: substitution
  rule_name :: string

definition modus_ponens :: "formula \<Rightarrow> formula \<Rightarrow> derivation option option" where
  "modus_ponens premise implication =
     (case implication of
        Implies antecedent consequent \<Rightarrow>
          do { r \<leftarrow> unify_formulas premise antecedent;
               case r of
                 None \<Rightarrow> Some None
               | Some sub \<Rightarrow>
                   do { c \<leftarrow> fsubst sub consequent;
                        Some (Some \<lparr>conclusion = c, substitution = sub, rule_name = ''modus_ponens''\<rparr>) } }
      | _ \<Rightarrow> Some None)"

definition modus_tollens :: "formula \<Rightarrow> formula \<Rightarrow> derivation option option" where
  "modus_tollens negated_consequent implication =
     (case (negated_consequent, implication) of
        (Not q, Implies antecedent consequent) \<Rightarrow>
          do { r \<leftarrow> unify_formulas q consequent;
               case r of
                 None \<Rightarrow> Some None
               | Some sub \<Rightarrow>
                   do { a \<leftarrow> fsubst sub antecedent;
                        Some (Some \<lparr>conclusion = negate a, substitution = sub, rule_name = ''modus_tollens''\<rparr>) } }
      | _ \<Rightarrow> Some None)"

definition universal_instantiation :: "formula \<Rightarrow> fol_term \<Rightarrow> formula option option" where
  "universal_instantiation forall t =
     (case forall of
        ForAll var body \<Rightarrow> do { f \<leftarrow> fsubst [(var, t)] body; Some (Some f) }
      | _ \<Rightarrow> Some None)"

definition try_resolve_pair :: "formula \<Rightarrow> formula \<Rightarrow> substitution option option" where
  "try_resolve_pair lit1 lit2 =
     (case lit2 of
        Not inner2 \<Rightarrow> unify_formulas lit1 inner2
      | _ \<Rightarrow> (case lit1 of Not inner1 \<Rightarrow> unify_formulas inner1 lit2 | _ \<Rightarrow> Some None))"

text \<open>The literals of a clause without the one at index \<open>i\<close>, and the two nested loops.\<close>

definition without :: "nat \<Rightarrow> 'a list \<Rightarrow> 'a list" where
  "without i xs = take i xs @ drop (Suc i) xs"

definition resolvent_formula :: "formula list \<Rightarrow> formula" where
  "resolvent_formula resolvent =
     (case resolvent of [] \<Rightarrow> And [] | [l] \<Rightarrow> l | _ \<Rightarrow> Or resolvent)"

fun resolve_pairs :: "formula list \<Rightarrow> formula list \<Rightarrow> (nat \<times> nat) list \<Rightarrow> derivation option option" where
  "resolve_pairs clause1 clause2 [] = Some None"
| "resolve_pairs clause1 clause2 ((i, j) # rest) =
     do { r \<leftarrow> try_resolve_pair (clause1 ! i) (clause2 ! j);
          case r of
            None \<Rightarrow> resolve_pairs clause1 clause2 rest
          | Some sub \<Rightarrow>
              do { ls1 \<leftarrow> mapo (fsubst sub) (without i clause1);
                   ls2 \<leftarrow> mapo (fsubst sub) (without j clause2);
                   Some (Some \<lparr>conclusion = resolvent_formula (ls1 @ ls2), substitution = sub,
                     rule_name = ''resolution''\<rparr>) } }"

definition resolution :: "formula list \<Rightarrow> formula list \<Rightarrow> derivation option option" where
  "resolution clause1 clause2 =
     resolve_pairs clause1 clause2 (List.product [0..<length clause1] [0..<length clause2])"

definition hypothetical_syllogism :: "formula \<Rightarrow> formula \<Rightarrow> derivation option option" where
  "hypothetical_syllogism imp1 imp2 =
     (case (imp1, imp2) of
        (Implies a b, Implies b_prime c) \<Rightarrow>
          do { r \<leftarrow> unify_formulas b b_prime;
               case r of
                 None \<Rightarrow> Some None
               | Some sub \<Rightarrow>
                   do { a' \<leftarrow> fsubst sub a;
                        c' \<leftarrow> fsubst sub c;
                        Some (Some \<lparr>conclusion = Implies a' c', substitution = sub,
                          rule_name = ''hypothetical_syllogism''\<rparr>) } }
      | _ \<Rightarrow> Some None)"

section \<open>Semantics\<close>

record 'a interp =
  i_const :: "symbol \<Rightarrow> 'a"
  i_fun :: "symbol \<Rightarrow> 'a list \<Rightarrow> 'a"
  i_pred :: "symbol \<Rightarrow> 'a list \<Rightarrow> bool"

fun tval :: "'a interp \<Rightarrow> (u32 \<Rightarrow> 'a) \<Rightarrow> fol_term \<Rightarrow> 'a" where
  "tval I env (Variable v) = env v"
| "tval I env (Constant c) = i_const I c"
| "tval I env (Compound f args) = i_fun I f (map (tval I env) args)"

fun holds :: "'a interp \<Rightarrow> (u32 \<Rightarrow> 'a) \<Rightarrow> formula \<Rightarrow> bool" where
  "holds I env (Atom p args) \<longleftrightarrow> i_pred I p (map (tval I env) args)"
| "holds I env (Not f) \<longleftrightarrow> \<not> holds I env f"
| "holds I env (And fs) \<longleftrightarrow> list_all (holds I env) fs"
| "holds I env (Or fs) \<longleftrightarrow> list_ex (holds I env) fs"
| "holds I env (Implies a b) \<longleftrightarrow> (holds I env a \<longrightarrow> holds I env b)"
| "holds I env (ForAll v f) \<longleftrightarrow> (\<forall>x. holds I (env(v := x)) f)"
| "holds I env (Exists v f) \<longleftrightarrow> (\<exists>x. holds I (env(v := x)) f)"

text \<open>Free variables of premises stand for all values, as in a clause.\<close>

definition valid :: "'a interp \<Rightarrow> formula \<Rightarrow> bool" where
  "valid I f \<longleftrightarrow> (\<forall>env. holds I env f)"

fun quantifier_free :: "formula \<Rightarrow> bool" where
  "quantifier_free (Atom p args) \<longleftrightarrow> True"
| "quantifier_free (Not f) \<longleftrightarrow> quantifier_free f"
| "quantifier_free (And fs) \<longleftrightarrow> list_all quantifier_free fs"
| "quantifier_free (Or fs) \<longleftrightarrow> list_all quantifier_free fs"
| "quantifier_free (Implies a b) \<longleftrightarrow> quantifier_free a \<and> quantifier_free b"
| "quantifier_free (ForAll v f) \<longleftrightarrow> False"
| "quantifier_free (Exists v f) \<longleftrightarrow> False"

text \<open>Instances and variables of formulas without quantifiers.\<close>

fun finst :: "(u32 \<Rightarrow> fol_term) \<Rightarrow> formula \<Rightarrow> formula" where
  "finst \<theta> (Atom p args) = Atom p (map (inst \<theta>) args)"
| "finst \<theta> (Not f) = Not (finst \<theta> f)"
| "finst \<theta> (And fs) = And (map (finst \<theta>) fs)"
| "finst \<theta> (Or fs) = Or (map (finst \<theta>) fs)"
| "finst \<theta> (Implies a b) = Implies (finst \<theta> a) (finst \<theta> b)"
| "finst \<theta> (ForAll v f) = ForAll v f"
| "finst \<theta> (Exists v f) = Exists v f"

fun fvars :: "formula \<Rightarrow> u32 set" where
  "fvars (Atom p args) = \<Union> (variables ` set args)"
| "fvars (Not f) = fvars f"
| "fvars (And fs) = \<Union> (set (map fvars fs))"
| "fvars (Or fs) = \<Union> (set (map fvars fs))"
| "fvars (Implies a b) = fvars a \<union> fvars b"
| "fvars (ForAll v f) = fvars f"
| "fvars (Exists v f) = fvars f"

text \<open>The nesting of conjunctions, on which the structural unification recurses.\<close>

fun shape :: "formula \<Rightarrow> nat" where
  "shape (And fs) = Suc (sum_list (map shape fs))"
| "shape f = 0"

lemma tval_inst: "tval I env (inst \<theta> t) = tval I (\<lambda>v. tval I env (\<theta> v)) t"
  by (induction t) (simp_all add: comp_def cong: map_cong)

lemma tval_cong: "(\<And>v. v \<in> variables t \<Longrightarrow> env v = env' v) \<Longrightarrow> tval I env t = tval I env' t"
proof (induction t)
  case (Compound f args)
  have "map (tval I env) args = map (tval I env') args" by (rule map_cong) (use Compound in auto)
  then show ?case by (simp only: tval.simps)
qed auto

lemma holds_finst:
  "quantifier_free f \<Longrightarrow> holds I env (finst \<theta> f) \<longleftrightarrow> holds I (\<lambda>v. tval I env (\<theta> v)) f"
  by (induction f) (auto simp: tval_inst comp_def list_all_iff list_ex_iff)

lemma finst_finst: "quantifier_free f \<Longrightarrow> finst \<theta> (finst \<sigma> f) = finst (\<lambda>v. inst \<theta> (\<sigma> v)) f"
  by (induction f) (auto simp: inst_inst list_all_iff)

lemma finst_cong: "(\<And>v. v \<in> fvars f \<Longrightarrow> \<theta> v = \<theta>' v) \<Longrightarrow> finst \<theta> f = finst \<theta>' f"
  by (induction f) (auto intro: inst_cong)

lemma finst_Variable [simp]: "finst Variable f = f"
  by (induction f) (auto intro: map_idI)

lemma fvars_finst: "quantifier_free f \<Longrightarrow> fvars (finst \<theta> f) = (\<Union>v \<in> fvars f. variables (\<theta> v))"
  by (induction f) (fastforce simp: variables_inst list_all_iff)+

lemma solves_finst:
  "acyclic_sub s \<Longrightarrow> solves \<theta> s \<Longrightarrow> quantifier_free f \<Longrightarrow> finst \<theta> (finst (full s) f) = finst \<theta> f"
  by (simp add: finst_finst solves_full)

section \<open>Substitution in formulas\<close>

lemma map_of_filter_key: "map_of (filter (\<lambda>p. fst p \<noteq> v) s) w = (if w = v then None else map_of s w)"
  by (induction s) auto

lemma acyclic_filter: "acyclic_sub s \<Longrightarrow> acyclic_sub (filter (\<lambda>p. fst p \<noteq> v) s)"
  unfolding acyclic_sub_def by (rule wf_subset) (auto simp: depends_def map_of_filter_key split: if_splits)

lemma mapo_ex:
  "(\<And>x. x \<in> set xs \<Longrightarrow> \<exists>y. f x = Some y \<and> P x y) \<Longrightarrow> \<exists>ys. mapo f xs = Some ys \<and> list_all2 P xs ys"
  by (induction xs) fastforce+

lemma fsubst_returns:
  "acyclic_sub s \<Longrightarrow> \<exists>g. fsubst s f = Some g \<and> shape g = shape f \<and> quantifier_free g = quantifier_free f"
proof (induction f arbitrary: s)
  case (And fs)
  have "\<exists>gs. mapo (fsubst s) fs = Some gs \<and> list_all2 (\<lambda>f g. shape g = shape f \<and> quantifier_free g = quantifier_free f) fs gs"
    by (rule mapo_ex) (use And in blast)
  then obtain gs where gs: "mapo (fsubst s) fs = Some gs"
    "list_all2 (\<lambda>f g. shape g = shape f \<and> quantifier_free g = quantifier_free f) fs gs" by blast
  from gs(2) have "map shape gs = map shape fs \<and> list_all quantifier_free gs = list_all quantifier_free fs"
    by (induction rule: list_all2_induct) auto
  then show ?case using gs(1) by simp
next
  case (Or fs)
  have "\<exists>gs. mapo (fsubst s) fs = Some gs \<and> list_all2 (\<lambda>f g. shape g = shape f \<and> quantifier_free g = quantifier_free f) fs gs"
    by (rule mapo_ex) (use Or in blast)
  then obtain gs where gs: "mapo (fsubst s) fs = Some gs"
    "list_all2 (\<lambda>f g. shape g = shape f \<and> quantifier_free g = quantifier_free f) fs gs" by blast
  from gs(2) have "list_all quantifier_free gs = list_all quantifier_free fs"
    by (induction rule: list_all2_induct) auto
  then show ?case using gs(1) by simp
next
  case (Atom p ts)
  then show ?case by (simp add: mapo_Some [OF substitute_full])
next
  case (Not f)
  then show ?case by fastforce
next
  case (Implies a b)
  then show ?case by fastforce
next
  case (ForAll v f)
  obtain g where "fsubst (filter (\<lambda>p. fst p \<noteq> v) s) f = Some g"
    using ForAll.IH [OF acyclic_filter [OF ForAll.prems, of v]] by blast
  then show ?case by simp
next
  case (Exists v f)
  obtain g where "fsubst (filter (\<lambda>p. fst p \<noteq> v) s) f = Some g"
    using Exists.IH [OF acyclic_filter [OF Exists.prems, of v]] by blast
  then show ?case by simp
qed

lemma fsubst_finst: "acyclic_sub s \<Longrightarrow> quantifier_free f \<Longrightarrow> fsubst s f = Some (finst (full s) f)"
  by (induction f) (simp_all add: list_all_iff mapo_Some [OF substitute_full] mapo_Some [where g = "finst (full s)"])

section \<open>Correctness of the unification of formulas\<close>

definition formulas_unified :: "formula \<Rightarrow> formula \<Rightarrow> substitution option \<Rightarrow> bool" where
  "formulas_unified f g r \<longleftrightarrow>
     (\<forall>s. r = Some s \<longrightarrow> acyclic_sub s \<and> quantifier_free f \<and> quantifier_free g \<and> sub_vars s \<subseteq> fvars f \<union> fvars g \<and>
        (\<forall>\<theta>. solves \<theta> s \<longleftrightarrow> finst \<theta> f = finst \<theta> g))"

lemma unify_atoms_decides:
  "\<exists>r. unify_atoms f g = Some r \<and> formulas_unified f g r \<and>
     (r = None \<and> is_atom f \<and> is_atom g \<longrightarrow> (\<forall>\<theta>. finst \<theta> f \<noteq> finst \<theta> g))"
proof (cases "\<exists>p as bs. f = Atom p as \<and> g = Atom p bs \<and> length as = length bs")
  case True
  then obtain p as' bs where f: "f = Atom p as'" "g = Atom p bs" "length as' = length bs" by blast
  let ?V = "fvars f \<union> fvars g"
  have fin: "finite ?V" by (simp add: f)
  have "\<exists>r. unify_args unify_with_sub (zip as' bs) [] = Some r \<and> unified ?V [] (zip as' bs) r"
  proof (rule unify_args_correct [where sub = "[]"])
    fix a b s assume "(a, b) \<in> set (zip as' bs)" and s: "acyclic_sub s" "sub_vars s \<subseteq> ?V"
    then have "variables a \<union> variables b \<subseteq> ?V" by (auto simp: f dest: set_zip_leftD set_zip_rightD)
    then show "\<exists>r. unify_with_sub a b s = Some r \<and> unified ?V s [(a, b)] r"
      by (rule unify_with_sub_correct [OF fin s])
  qed (auto simp: sub_vars_def)
  then obtain r where r: "unify_args unify_with_sub (zip as' bs) [] = Some r" "unified ?V [] (zip as' bs) r" by blast
  have "(\<forall>(a, b) \<in> set (zip as' bs). inst \<theta> a = inst \<theta> b) \<longleftrightarrow> map (inst \<theta>) as' = map (inst \<theta>) bs" for \<theta>
    using f(3) by (induction as' bs rule: list_induct2) auto
  then have "formulas_unified f g r" "r = None \<longrightarrow> (\<forall>\<theta>. finst \<theta> f \<noteq> finst \<theta> g)"
    using r(2) unfolding formulas_unified_def unified_def
    by (cases r; simp add: f solves_def [of _ "[]"])+
  then show ?thesis using r(1) f by simp
next
  case False
  then have "unify_atoms f g = Some None" by (cases "(f, g)" rule: unify_atoms.cases) auto
  moreover have "finst \<theta> f \<noteq> finst \<theta> g" if "is_atom f" "is_atom g" for \<theta>
    using False that by (cases f; cases g) (auto dest: map_eq_imp_length_eq)
  ultimately show ?thesis by (simp add: formulas_unified_def)
qed

lemma unify_atoms_correct: "\<exists>r. unify_atoms f g = Some r \<and> formulas_unified f g r"
  using unify_atoms_decides by blast

lemma unify_conjuncts_correct:
  assumes "\<And>a b a' b'. (a, b) \<in> set ps \<Longrightarrow> shape a' = shape a \<Longrightarrow> \<exists>r. U a' b' = Some r \<and> formulas_unified a' b' r"
    and "acyclic_sub sub" and "sub_vars sub \<subseteq> V" and "\<And>a b. (a, b) \<in> set ps \<Longrightarrow> fvars a \<union> fvars b \<subseteq> V"
  shows "\<exists>r. unify_conjuncts U ps sub = Some r \<and>
    (\<forall>s. r = Some s \<longrightarrow> acyclic_sub s \<and> (\<forall>(a, b) \<in> set ps. quantifier_free a \<and> quantifier_free b) \<and> sub_vars s \<subseteq> V \<and>
       (\<forall>\<theta>. solves \<theta> s \<longleftrightarrow> solves \<theta> sub \<and> (\<forall>(a, b) \<in> set ps. finst \<theta> a = finst \<theta> b)))"
  using assms
proof (induction ps arbitrary: sub)
  case (Cons p ps)
  obtain a b where p: "p = (a, b)" by (cases p)
  obtain a' b' where ab: "fsubst sub a = Some a'" "fsubst sub b = Some b'" "shape a' = shape a"
    "quantifier_free a' = quantifier_free a" "quantifier_free b' = quantifier_free b"
    using fsubst_returns [OF Cons.prems(2), of a] fsubst_returns [OF Cons.prems(2), of b] by blast
  obtain r where r: "U a' b' = Some r" "formulas_unified a' b' r"
    using Cons.prems(1) [of a b a' b'] ab(3) p by auto
  show ?case
  proof (cases r)
    case None
    then show ?thesis using ab r p by simp
  next
    case (Some s)
    have s: "acyclic_sub s" "quantifier_free a" "quantifier_free b" "sub_vars s \<subseteq> fvars a' \<union> fvars b'"
      "\<And>\<theta>. solves \<theta> s \<longleftrightarrow> finst \<theta> a' = finst \<theta> b'"
      using r(2) ab(4,5) Some by (auto simp: formulas_unified_def)
    have ab': "a' = finst (full sub) a" "b' = finst (full sub) b"
      using ab(1,2) fsubst_finst [OF Cons.prems(2)] s(2,3) by auto
    have V: "map_of sub w = None \<and> w \<in> V" if "w \<in> fvars a' \<union> fvars b'" for w
      using that vars_full [OF Cons.prems(2), of w] Cons.prems(3) Cons.prems(4) [of a b] s(2,3) p
      by (auto simp: ab' fvars_finst)
    obtain c where c: "compose sub s = Some c" "acyclic_sub c" "\<And>\<theta>. solves \<theta> c \<longleftrightarrow> solves \<theta> sub \<and> solves \<theta> s"
      "sub_vars c \<subseteq> sub_vars sub \<union> sub_vars s"
      using compose_fresh [OF Cons.prems(2) s(1)] s(4) V by (metis subsetD)
    have cV: "sub_vars c \<subseteq> V" using c(4) Cons.prems(3) s(4) V by blast
    obtain q where q: "unify_conjuncts U ps c = Some q"
      "\<forall>s. q = Some s \<longrightarrow> acyclic_sub s \<and> (\<forall>(a, b) \<in> set ps. quantifier_free a \<and> quantifier_free b) \<and> sub_vars s \<subseteq> V \<and>
         (\<forall>\<theta>. solves \<theta> s \<longleftrightarrow> solves \<theta> c \<and> (\<forall>(a, b) \<in> set ps. finst \<theta> a = finst \<theta> b))"
      using Cons.IH [OF _ c(2) cV] Cons.prems(1,4) by fastforce
    have eq: "solves \<theta> c \<longleftrightarrow> solves \<theta> sub \<and> finst \<theta> a = finst \<theta> b" for \<theta>
      using c(3) s(5) solves_finst [OF Cons.prems(2)] s(2,3) by (auto simp: ab')
    show ?thesis using q eq ab(1,2) r(1) Some c(1) s(2,3) p by auto
  qed
qed auto

lemma unify_formulas_correct: "\<exists>r. unify_formulas f g = Some r \<and> formulas_unified f g r"
proof (induction "shape f" arbitrary: f g rule: less_induct)
  case less
  consider p as1 q bs where "f = Atom p as1" "g = Atom q bs" | fs gs where "f = And fs" "g = And gs" "length fs = length gs"
    | "unify_formulas f g = Some None"
    by (cases f; cases g; cases "length (case f of And fs \<Rightarrow> fs | _ \<Rightarrow> []) = length (case g of And gs \<Rightarrow> gs | _ \<Rightarrow> [])")
      (auto simp: unify_formulas.simps)
  then show ?case
  proof cases
    case 1
    then show ?thesis using unify_atoms_correct [of f g] by (simp add: unify_formulas.simps)
  next
    case 2
    have "\<exists>r. unify_conjuncts unify_formulas (zip fs gs) [] = Some r \<and>
      (\<forall>s. r = Some s \<longrightarrow> acyclic_sub s \<and> (\<forall>(a, b) \<in> set (zip fs gs). quantifier_free a \<and> quantifier_free b) \<and>
         sub_vars s \<subseteq> fvars f \<union> fvars g \<and>
         (\<forall>\<theta>. solves \<theta> s \<longleftrightarrow> solves \<theta> [] \<and> (\<forall>(a, b) \<in> set (zip fs gs). finst \<theta> a = finst \<theta> b)))"
    proof (rule unify_conjuncts_correct)
      fix a b a' b' assume "(a, b) \<in> set (zip fs gs)" "shape a' = shape a"
      then have "shape a' < shape f" using 2(1) member_le_sum_list [of "shape a" "map shape fs"]
        by (auto dest: set_zip_leftD simp: less_Suc_eq_le)
      then show "\<exists>r. unify_formulas a' b' = Some r \<and> formulas_unified a' b' r" by (rule less)
    qed (use 2 in \<open>auto simp: sub_vars_def dest: set_zip_leftD set_zip_rightD\<close>)
    then obtain r where r: "unify_conjuncts unify_formulas (zip fs gs) [] = Some r"
      "\<And>s. r = Some s \<Longrightarrow> acyclic_sub s \<and> (\<forall>(a, b) \<in> set (zip fs gs). quantifier_free a \<and> quantifier_free b) \<and>
         sub_vars s \<subseteq> fvars f \<union> fvars g \<and>
         (\<forall>\<theta>. solves \<theta> s \<longleftrightarrow> solves \<theta> [] \<and> (\<forall>(a, b) \<in> set (zip fs gs). finst \<theta> a = finst \<theta> b))" by blast
    have "(\<forall>(a, b) \<in> set (zip fs gs). finst \<theta> a = finst \<theta> b) \<longleftrightarrow> map (finst \<theta>) fs = map (finst \<theta>) gs" for \<theta>
      using 2(3) by (induction fs gs rule: list_induct2) auto
    moreover have "(\<forall>(a, b) \<in> set (zip fs gs). quantifier_free a \<and> quantifier_free b) \<longleftrightarrow>
        list_all quantifier_free fs \<and> list_all quantifier_free gs"
      using 2(3) by (induction fs gs rule: list_induct2) auto
    ultimately have "formulas_unified f g r"
      using r(2) 2 by (auto simp: formulas_unified_def solves_def [of _ "[]"])
    then show ?thesis using r(1) 2 by (simp add: unify_formulas.simps)
  qed (simp_all add: formulas_unified_def unify_formulas.simps)
qed

section \<open>Soundness of the rules\<close>

text \<open>A unifier applied to a valid formula without quantifiers gives a valid formula.\<close>

lemma valid_finst: "quantifier_free f \<Longrightarrow> valid I f \<Longrightarrow> valid I (finst \<theta> f)"
  by (simp add: valid_def holds_finst)

lemma unify_formulas_E:
  obtains "unify_formulas f g = Some None"
  | s where "unify_formulas f g = Some (Some s)" "acyclic_sub s" "quantifier_free f" "quantifier_free g"
      "finst (full s) f = finst (full s) g" "sub_vars s \<subseteq> fvars f \<union> fvars g"
proof -
  obtain r where r: "unify_formulas f g = Some r" "formulas_unified f g r" using unify_formulas_correct by blast
  show thesis
  proof (cases r)
    case None
    then show thesis using that(1) r(1) by simp
  next
    case (Some s)
    then have "acyclic_sub s" "\<And>\<theta>. solves \<theta> s \<longleftrightarrow> finst \<theta> f = finst \<theta> g" using r(2) by (auto simp: formulas_unified_def)
    then have "finst (full s) f = finst (full s) g" using full_solves by blast
    then show thesis using that(2) [of s] r Some by (simp add: formulas_unified_def)
  qed
qed

lemma holds_negate: "holds I env (negate f) \<longleftrightarrow> \<not> holds I env f"
  by (cases f rule: negate.cases) auto

lemma modus_ponens_E:
  obtains "modus_ponens p (Implies a c) = Some None"
  | s c' where "modus_ponens p (Implies a c) = Some (Some \<lparr>conclusion = c', substitution = s, rule_name = ''modus_ponens''\<rparr>)"
      "acyclic_sub s" "quantifier_free p" "quantifier_free a" "finst (full s) p = finst (full s) a" "fsubst s c = Some c'"
proof (cases rule: unify_formulas_E [of p a])
  case 1
  then show thesis using that(1) by (simp add: modus_ponens_def)
next
  case (2 s)
  obtain c' where "fsubst s c = Some c'" using fsubst_returns [OF 2(2), of c] by blast
  then show thesis using that(2) [of c' s] 2 by (simp add: modus_ponens_def)
qed

lemma modus_ponens_returns: "modus_ponens p i \<noteq> None"
proof (cases i)
  case (Implies a c)
  then show ?thesis by (cases rule: modus_ponens_E [of p a c]) auto
qed (simp_all add: modus_ponens_def)

lemma modus_ponens_valid:
  assumes "modus_ponens p i = Some (Some d)" and "valid I p" and "valid I i" and "quantifier_free i"
  shows "valid I (conclusion d) \<and> quantifier_free (conclusion d)"
proof -
  obtain a c where i: "i = Implies a c" using assms(1) by (cases i) (auto simp: modus_ponens_def)
  show ?thesis
  proof (cases rule: modus_ponens_E [of p a c])
    case 1
    then show ?thesis using assms(1) i by simp
  next
    case (2 s c')
    have c: "quantifier_free c" using assms(4) i by simp
    then have c': "c' = finst (full s) c" using fsubst_finst [OF 2(2)] 2(6) by simp
    have "valid I (finst (full s) p)" "valid I (Implies (finst (full s) a) (finst (full s) c))"
      using valid_finst [OF 2(3) assms(2)] valid_finst [OF assms(4,3), of "full s"] i by simp_all
    then have "valid I c'" using 2(5) c' by (auto simp: valid_def)
    moreover have "quantifier_free c'" using fsubst_returns [OF 2(2), of c] 2(6) c by auto
    ultimately show ?thesis using assms(1) i 2(1) by auto
  qed
qed

lemma unifier_transfers:
  assumes "valid I f" and "quantifier_free f" and "quantifier_free g" and "finst \<theta> f = finst \<theta> g"
  shows "holds I (\<lambda>v. tval I env (\<theta> v)) g"
  using assms(1) holds_finst [OF assms(2), of I env \<theta>] holds_finst [OF assms(3), of I env \<theta>] assms(4)
  by (simp add: valid_def)

lemma modus_tollens_valid:
  assumes "modus_tollens n i = Some (Some d)" and "valid I n" and "valid I i" and "quantifier_free i"
  shows "valid I (conclusion d)"
proof -
  obtain q a c where i: "n = Not q" "i = Implies a c" using assms(1)
    by (cases n; cases i) (auto simp: modus_tollens_def)
  show ?thesis
  proof (cases rule: unify_formulas_E [of q c])
    case 1
    then show ?thesis using assms(1) i by (simp add: modus_tollens_def)
  next
    case (2 s)
    have a: "quantifier_free a" using assms(4) i by simp
    then have d: "conclusion d = negate (finst (full s) a)"
      using assms(1) i 2(1) fsubst_finst [OF 2(2) a] by (auto simp: modus_tollens_def)
    have "holds I (\<lambda>v. tval I env (full s v)) (Not c)" for env
      by (rule unifier_transfers [where f = n]) (use assms(2) i 2 in auto)
    then have "\<not> holds I (\<lambda>v. tval I env (full s v)) a" for env using assms(3) i by (fastforce simp: valid_def)
    then show ?thesis using a by (simp add: d valid_def holds_negate holds_finst)
  qed
qed

lemma hypothetical_syllogism_valid:
  assumes "hypothetical_syllogism i j = Some (Some d)" and "valid I i" and "valid I j"
    and "quantifier_free i" and "quantifier_free j"
  shows "valid I (conclusion d)"
proof -
  obtain a b b' c where i: "i = Implies a b" "j = Implies b' c" using assms(1)
    by (cases i; cases j) (auto simp: hypothetical_syllogism_def)
  show ?thesis
  proof (cases rule: unify_formulas_E [of b b'])
    case 1
    then show ?thesis using assms(1) i by (simp add: hypothetical_syllogism_def)
  next
    case (2 s)
    have q: "quantifier_free a" "quantifier_free c" using assms(4,5) i by auto
    then have d: "conclusion d = finst (full s) (Implies a c)"
      using assms(1) i 2(1) fsubst_finst [OF 2(2)] by (auto simp: hypothetical_syllogism_def)
    have "holds I (\<lambda>v. tval I env (full s v)) b \<longleftrightarrow> holds I (\<lambda>v. tval I env (full s v)) b'" for env
      using holds_finst [OF 2(3), of I env "full s"] holds_finst [OF 2(4), of I env "full s"] 2(5) by simp
    then show ?thesis using assms(2,3) i q by (auto simp: d valid_def holds_finst)
  qed
qed

lemma try_resolve_pair_E:
  obtains "try_resolve_pair l1 l2 = Some None"
  | s where "try_resolve_pair l1 l2 = Some (Some s)" "acyclic_sub s"
    "finst (full s) l2 = Not (finst (full s) l1) \<or> finst (full s) l1 = Not (finst (full s) l2)"
proof (cases "\<exists>g. l2 = Not g")
  case True
  then obtain g where g: "l2 = Not g" by blast
  show thesis
    by (cases rule: unify_formulas_E [of l1 g]) (use that g in \<open>auto simp: try_resolve_pair_def\<close>)
next
  case no: False
  show thesis
  proof (cases "\<exists>g. l1 = Not g")
    case True
    then obtain g where g: "l1 = Not g" by blast
    have "try_resolve_pair l1 l2 = unify_formulas g l2" using g no by (cases l2) (auto simp: try_resolve_pair_def)
    with that g show thesis by (cases rule: unify_formulas_E [of g l2]) auto
  next
    case False
    then show thesis using that(1) no by (cases l1; cases l2) (auto simp: try_resolve_pair_def)
  qed
qed

lemma fsubst_list:
  "acyclic_sub s \<Longrightarrow> list_all quantifier_free ls \<Longrightarrow> mapo (fsubst s) ls = Some (map (finst (full s)) ls)"
  by (rule mapo_Some) (auto simp: list_all_iff fsubst_finst)

lemma resolvent_formula_holds: "ls \<noteq> [] \<Longrightarrow> holds I env (resolvent_formula ls) \<longleftrightarrow> (\<exists>l \<in> set ls. holds I env l)"
  by (auto simp: resolvent_formula_def list_ex_iff split: list.splits)

lemma set_without: "i < length xs \<Longrightarrow> x \<in> set xs \<Longrightarrow> x \<noteq> xs ! i \<Longrightarrow> x \<in> set (without i xs)"
  by (subst (asm) id_take_nth_drop [of i xs]) (auto simp: without_def)

lemma set_without_subset: "set (without i xs) \<subseteq> set xs"
  by (auto simp: without_def dest: in_set_takeD in_set_dropD)

lemma resolve_pairs_returns: "resolve_pairs c1 c2 ps \<noteq> None"
proof (induction ps)
  case (Cons p ps)
  obtain i j where p: "p = (i, j)" by (cases p)
  show ?case
  proof (cases rule: try_resolve_pair_E [of "c1 ! i" "c2 ! j"])
    case 1
    then show ?thesis using Cons p by simp
  next
    case (2 s)
    have "\<exists>gs. mapo (fsubst s) ls = Some gs \<and> list_all2 (\<lambda>_ _. True) ls gs" for ls
      by (rule mapo_ex) (use fsubst_returns [OF 2(2)] in blast)
    then obtain g1 g2 where "mapo (fsubst s) (without i c1) = Some g1" "mapo (fsubst s) (without j c2) = Some g2" by metis
    then show ?thesis using 2(1) p by simp
  qed
qed simp

lemma resolve_pairs_valid:
  assumes "resolve_pairs c1 c2 ps = Some (Some d)" and "\<And>i j. (i, j) \<in> set ps \<Longrightarrow> i < length c1 \<and> j < length c2"
    and "valid I (Or c1)" and "valid I (Or c2)" and "list_all quantifier_free c1" and "list_all quantifier_free c2"
  shows "valid I (conclusion d)"
  using assms(1,2)
proof (induction ps)
  case (Cons p ps)
  obtain i j where p: "p = (i, j)" by (cases p)
  have ij: "i < length c1" "j < length c2" using Cons.prems(2) p by auto
  show ?case
  proof (cases rule: try_resolve_pair_E [of "c1 ! i" "c2 ! j"])
    case 1
    show ?thesis by (rule Cons.IH) (use Cons.prems p 1 in auto)
  next
    case (2 s)
    let ?r = "map (finst (full s)) (without i c1 @ without j c2)"
    have qw: "list_all quantifier_free (without i c1)" "list_all quantifier_free (without j c2)"
      using assms(5,6) set_without_subset [of i c1] set_without_subset [of j c2] by (auto simp: list_all_iff)
    have d: "conclusion d = resolvent_formula ?r"
      using Cons.prems(1) p 2(1) fsubst_list [OF 2(2) qw(1)] fsubst_list [OF 2(2) qw(2)] by auto
    have some: "\<exists>l \<in> set ?r. holds I env l" for env
    proof -
      let ?e = "\<lambda>v. tval I env (full s v)"
      obtain l1 l2 where l: "l1 \<in> set c1" "holds I ?e l1" "l2 \<in> set c2" "holds I ?e l2"
      proof -
        have "holds I ?e (Or c1)" "holds I ?e (Or c2)" using assms(3,4) unfolding valid_def by blast+
        then show ?thesis using that by (auto simp: list_ex_iff)
      qed
      have "quantifier_free l1" "quantifier_free l2" using assms(5,6) l by (auto simp: list_all_iff)
      then have h: "holds I env (finst (full s) l1)" "holds I env (finst (full s) l2)" using l by (simp_all add: holds_finst)
      then have "l1 \<noteq> c1 ! i \<or> l2 \<noteq> c2 ! j" using 2(3) by auto
      then show ?thesis using h set_without [OF ij(1) l(1)] set_without [OF ij(2) l(3)] by auto
    qed
    then have "?r \<noteq> []" by force
    from resolvent_formula_holds [OF this] some show ?thesis unfolding d valid_def by blast
  qed
qed simp

lemma unify_fsubst_returns:
  "\<exists>r. unify_formulas a b = Some r \<and> (\<forall>s. r = Some s \<longrightarrow> (\<forall>h. \<exists>g. fsubst s h = Some g))"
  using unify_formulas_correct [of a b] fsubst_returns unfolding formulas_unified_def by meson

lemma rules_return: "modus_tollens f g \<noteq> None" "hypothetical_syllogism f g \<noteq> None"
proof -
  have "modus_tollens (Not q) (Implies a c) \<noteq> None" for q a c
  proof -
    obtain r where r: "unify_formulas q c = Some r" "\<And>s h. r = Some s \<Longrightarrow> \<exists>g. fsubst s h = Some g"
      using unify_fsubst_returns by blast
    show ?thesis
    proof (cases r)
      case (Some s)
      then obtain a' where "fsubst s a = Some a'" using r(2) by blast
      then show ?thesis using r(1) Some by (simp add: modus_tollens_def)
    qed (use r in \<open>simp add: modus_tollens_def\<close>)
  qed
  then show "modus_tollens f g \<noteq> None" by (cases f; cases g) (simp_all add: modus_tollens_def)
  have "hypothetical_syllogism (Implies a b) (Implies b' c) \<noteq> None" for a b b' c
  proof -
    obtain r where r: "unify_formulas b b' = Some r" "\<And>s h. r = Some s \<Longrightarrow> \<exists>g. fsubst s h = Some g"
      using unify_fsubst_returns by blast
    show ?thesis
    proof (cases r)
      case (Some s)
      then obtain a' c' where "fsubst s a = Some a'" "fsubst s c = Some c'"
        using r(2) [OF Some, of a] r(2) [OF Some, of c] by blast
      then show ?thesis using r(1) Some by (simp add: hypothetical_syllogism_def)
    qed (use r in \<open>simp add: hypothetical_syllogism_def\<close>)
  qed
  then show "hypothetical_syllogism f g \<noteq> None" by (cases f; cases g) (simp_all add: hypothetical_syllogism_def)
qed

text \<open>
  Modus ponens, modus tollens and the hypothetical syllogism return and are sound on formulas
  without quantifiers: what they derive from two formulas that hold in an interpretation for
  every value of their variables holds there for every value of its variables.
\<close>

theorem inference_rules_sound:
  assumes "valid I f" and "valid I g" and "quantifier_free f" and "quantifier_free g"
  shows "(\<exists>r. modus_ponens f g = Some r \<and> (\<forall>d. r = Some d \<longrightarrow> valid I (conclusion d))) \<and>
    (\<exists>r. modus_tollens f g = Some r \<and> (\<forall>d. r = Some d \<longrightarrow> valid I (conclusion d))) \<and>
    (\<exists>r. hypothetical_syllogism f g = Some r \<and> (\<forall>d. r = Some d \<longrightarrow> valid I (conclusion d)))"
proof (intro conjI)
  show "\<exists>r. modus_ponens f g = Some r \<and> (\<forall>d. r = Some d \<longrightarrow> valid I (conclusion d))"
    using modus_ponens_returns [of f g] modus_ponens_valid [OF _ assms(1,2,4)] by auto
  show "\<exists>r. modus_tollens f g = Some r \<and> (\<forall>d. r = Some d \<longrightarrow> valid I (conclusion d))"
    using rules_return(1) [of f g] modus_tollens_valid [OF _ assms(1,2,4)] by auto
  show "\<exists>r. hypothetical_syllogism f g = Some r \<and> (\<forall>d. r = Some d \<longrightarrow> valid I (conclusion d))"
    using rules_return(2) [of f g] hypothetical_syllogism_valid [OF _ assms] by auto
qed

text \<open>For the witnesses: even numbers, and the successor of the successor of one is another.\<close>

definition even_interp :: "nat interp" where
  "even_interp = \<lparr>i_const = (\<lambda>_. 0), i_fun = (\<lambda>_ xs. sum_list xs + 2), i_pred = (\<lambda>_ xs. list_all even xs)\<rparr>"

theorem inference_rules_sound_witness:
  "\<exists>d. modus_ponens (Atom 0 [Constant 1]) (Implies (Atom 0 [Variable 0]) (Atom 0 [Compound 2 [Variable 0]])) = Some (Some d) \<and>
     conclusion d = Atom 0 [Compound 2 [Constant 1]] \<and> valid even_interp (conclusion d)"
proof -
  let ?f = "Atom 0 [Constant 1]" and ?g = "Implies (Atom 0 [Variable 0]) (Atom 0 [Compound 2 [Variable 0]])"
  have v: "valid even_interp ?f" "valid even_interp ?g" by (simp_all add: valid_def even_interp_def)
  have "\<exists>d. modus_ponens ?f ?g = Some (Some d) \<and> conclusion d = Atom 0 [Compound 2 [Constant 1]]"
    by (simp add: modus_ponens_def unify_formulas.simps unify_with_sub.simps apply_sub_def substitute.simps)
  then show ?thesis using inference_rules_sound [OF v] by auto
qed

text \<open>
  Resolution returns and is sound: the resolvent of two clauses without quantifiers holds
  wherever both clauses do.
\<close>

theorem resolution_sound:
  assumes "valid I (Or clause1)" and "valid I (Or clause2)"
    and "list_all quantifier_free clause1" and "list_all quantifier_free clause2"
  shows "\<exists>r. resolution clause1 clause2 = Some r \<and> (\<forall>d. r = Some d \<longrightarrow> valid I (conclusion d))"
proof -
  have "valid I (conclusion d)" if "resolution clause1 clause2 = Some (Some d)" for d
    by (rule resolve_pairs_valid [OF that [unfolded resolution_def] _ assms]) auto
  moreover have "resolution clause1 clause2 \<noteq> None" unfolding resolution_def by (rule resolve_pairs_returns)
  ultimately show ?thesis by auto
qed

theorem resolution_sound_witness:
  "\<exists>d. resolution [Not (Atom 0 [Variable 0]), Atom 0 [Compound 2 [Variable 0]]] [Atom 0 [Constant 1]] = Some (Some d) \<and>
     valid even_interp (conclusion d)"
proof -
  let ?c = "[Not (Atom 0 [Variable 0]), Atom 0 [Compound 2 [Variable 0]]]" and ?d = "[Atom 0 [Constant 1]]"
  have v: "valid even_interp (Or ?c)" "valid even_interp (Or ?d)" by (simp_all add: valid_def even_interp_def)
  have "\<exists>d. resolution ?c ?d = Some (Some d)"
    by (simp add: resolution_def try_resolve_pair_def unify_formulas.simps unify_with_sub.simps apply_sub_def
      substitute.simps without_def upt_rec)
  then show ?thesis using resolution_sound [OF v] by auto
qed

section \<open>Universal instantiation\<close>

lemma fsubst_Nil: "fsubst [] f = Some f"
proof (induction f)
  case (And fs)
  have "mapo (fsubst []) fs = Some (map (\<lambda>x. x) fs)" by (rule mapo_Some) (rule And)
  then show ?case by simp
next
  case (Or fs)
  have "mapo (fsubst []) fs = Some (map (\<lambda>x. x) fs)" by (rule mapo_Some) (rule Or)
  then show ?case by simp
qed (simp_all add: mapo_Some [OF substitute_full [OF acyclic_Nil]])

lemma list_all2_pointwise:
  "list_all2 (\<lambda>x y. Q y \<longleftrightarrow> P x) xs ys \<Longrightarrow> list_all Q ys = list_all P xs \<and> list_ex Q ys = list_ex P xs"
  by (induction rule: list_all2_induct) auto

lemma ground_binding:
  assumes "variables t = {}" and U: "\<And>env. U env = env(v := tval I env t)"
  shows "\<exists>g. fsubst [(v, t)] f = Some g \<and> (\<forall>env. holds I env g \<longleftrightarrow> holds I (U env) f)"
proof -
  have ac: "acyclic_sub [(v, t)]" by (rule acyclic_Cons) (use assms in auto)
  have fu: "full [(v, t)] = Variable(v := t)"
    using full_bound [OF ac, of v t] inst_ground [OF assms(1)] by (auto simp: fun_eq_iff)
  have te: "tval I (env(w := x)) t = tval I env t" for env w x
    using tval_cong [of t "env(w := x)" env I] assms(1) by simp
  have tv: "tval I env (inst (full [(v, t)]) u) = tval I (U env) u" for env u
    unfolding tval_inst fu U by (rule arg_cong [of _ _ "\<lambda>e. tval I e u"]) auto
  have Uv: "(U env)(v := x) = env(v := x)" for env x by (simp add: U)
  have Uw: "w \<noteq> v \<Longrightarrow> (U env)(w := x) = U (env(w := x))" for env w x by (simp add: U te fun_upd_twist)
  let ?P = "\<lambda>f g. \<forall>env. holds I env g \<longleftrightarrow> holds I (U env) f"
  have list: "list_all2 ?P fs gs \<Longrightarrow> list_all (holds I env) gs = list_all (holds I (U env)) fs \<and>
      list_ex (holds I env) gs = list_ex (holds I (U env)) fs" for fs gs env
    by (rule list_all2_pointwise, erule list_all2_mono) blast
  show ?thesis
  proof (induction f)
    case (Atom p ts)
    then show ?case by (simp add: mapo_Some [OF substitute_full [OF ac]] tv comp_def)
  next
    case (And fs)
    have "\<exists>gs. mapo (fsubst [(v, t)]) fs = Some gs \<and> list_all2 ?P fs gs" by (rule mapo_ex) (use And in blast)
    then obtain gs where "mapo (fsubst [(v, t)]) fs = Some gs" "list_all2 ?P fs gs" by blast
    then show ?case using list [of fs gs] by simp
  next
    case (Or fs)
    have "\<exists>gs. mapo (fsubst [(v, t)]) fs = Some gs \<and> list_all2 ?P fs gs" by (rule mapo_ex) (use Or in blast)
    then obtain gs where "mapo (fsubst [(v, t)]) fs = Some gs" "list_all2 ?P fs gs" by blast
    then show ?case using list [of fs gs] by simp
  next
    case (ForAll w f)
    then show ?case by (cases "w = v") (auto simp: fsubst_Nil Uv Uw fun_upd_def [symmetric])
  next
    case (Exists w f)
    then show ?case by (cases "w = v") (auto simp: fsubst_Nil Uv Uw fun_upd_def [symmetric])
  qed auto
qed

text \<open>
  Universal instantiation with a ground term returns and is sound, for any body: an
  interpretation and a valuation that make the quantified formula hold make its instance hold.
\<close>

theorem universal_instantiation_sound:
  assumes "is_ground t" and "holds I env (ForAll v body)"
  shows "\<exists>g. universal_instantiation (ForAll v body) t = Some (Some g) \<and> holds I env g"
proof -
  obtain g where "fsubst [(v, t)] body = Some g" "\<forall>env. holds I env g \<longleftrightarrow> holds I (env(v := tval I env t)) body"
    using ground_binding [OF assms(1) [unfolded is_ground_iff], of "\<lambda>env. env(v := tval I env t)" v I body] by blast
  then show ?thesis using assms(2) by (simp add: universal_instantiation_def)
qed

theorem universal_instantiation_sound_witness:
  "\<exists>g. universal_instantiation (ForAll 0 (Or [Atom 0 [Compound 2 [Variable 0]], Not (Atom 0 [Variable 0])])) (Constant 5) =
     Some (Some g) \<and> holds even_interp (\<lambda>_. 0) g"
  by (rule universal_instantiation_sound) (simp_all add: even_interp_def)

section \<open>Limits of the rules\<close>

text \<open>
  Quantifiers are captured: modus ponens applied to a premise and a rule that hold in an
  interpretation for every value of their variables derives a formula that does not hold there.
  The substitution in a quantified formula only drops the binding of the quantified variable;
  it does not rename it away from the variables of the terms that are substituted.
\<close>

theorem modus_ponens_captures:
  "\<exists>p i d (I :: nat interp). valid I p \<and> valid I i \<and> modus_ponens p i = Some (Some d) \<and> \<not> valid I (conclusion d)"
proof -
  let ?p = "Atom 0 [Compound 2 [Variable 1]]"
  let ?i = "Implies (Atom 0 [Variable 0]) (Exists 1 (Atom 1 [Variable 0, Variable 1]))"
  let ?I = "\<lparr>i_const = (\<lambda>_. 0), i_fun = (\<lambda>_ xs. Suc (hd xs)),
     i_pred = (\<lambda>q xs. q = 0 \<or> hd xs = hd (tl xs))\<rparr> :: nat interp"
  have "\<exists>d. modus_ponens ?p ?i = Some (Some d) \<and> conclusion d = Exists 1 (Atom 1 [Compound 2 [Variable 1], Variable 1])"
    by (simp add: modus_ponens_def unify_formulas.simps unify_with_sub.simps apply_sub_def substitute.simps)
  then obtain d where "modus_ponens ?p ?i = Some (Some d)"
    "conclusion d = Exists 1 (Atom 1 [Compound 2 [Variable 1], Variable 1])" by blast
  moreover have "valid ?I ?p" by (simp add: valid_def)
  moreover have "valid ?I ?i" by (simp add: valid_def)
  moreover have "\<not> valid ?I (Exists 1 (Atom 1 [Compound 2 [Variable 1], Variable 1]))" by (simp add: valid_def)
  ultimately show ?thesis by (intro exI [of _ ?p] exI [of _ ?i] exI [of _ d] exI [of _ ?I]) simp
qed

text \<open>The resolvent of two contradictory clauses is the empty conjunction, which always holds.\<close>

lemma empty_resolvent_holds:
  "\<exists>d. resolution [Atom 0 []] [Not (Atom 0 [])] = Some (Some d) \<and> conclusion d = And [] \<and> valid I (conclusion d)"
  by (simp add: resolution_def try_resolve_pair_def unify_formulas.simps without_def resolvent_formula_def valid_def)

text \<open>Instantiation with a term that contains the quantified variable does not return.\<close>

lemma substitute_self_loops: "map_of s v = Some (Variable v) \<Longrightarrow> substitute s (Variable v) = None"
proof -
  assume v: "map_of s v = Some (Variable v)"
  have "\<not> (b = s \<and> t = Variable v)" if r: "substitute b t = Some r" for b t r
    by (rule substitute.raw_induct [where P = "\<lambda>b t r. \<not> (b = s \<and> t = Variable v)", OF _ r]) (use v in fastforce)
  then show ?thesis by fastforce
qed

lemma instantiation_with_itself_loops:
  "universal_instantiation (ForAll v (Atom p [Variable v])) (Variable v) = None"
  by (simp add: universal_instantiation_def substitute_self_loops)

text \<open>A quantifier inside another over the same variable makes later occurrences count as free.\<close>

lemma free_variables_of_closed_formula:
  "free_variables (ForAll 0 (And [Exists 0 (Atom 1 [Variable 0]), Atom 2 [Variable 0]])) = {0}"
  by (simp add: free_variables_def)

end
