(* ===== verification/KnowledgeBase.thy ===== *)
theory KnowledgeBase
  imports Formulas
begin

text \<open>
  The knowledge base with forward and backward chaining
  (\<open>aether-core/crates/aether-logic/src/knowledge_base.rs\<close>). The 64-bit hash of a formula
  (\<open>DefaultHasher\<close>) is a parameter; trace output is left out. Forward chaining is proved sound
  and, without hash collisions, saturating; backward chaining is proved to decide derivability
  for ground goals and rules whose conditions only have variables of their conclusion, and shown
  to prove a false goal outside of that.
\<close>

section \<open>Proofs and knowledge bases\<close>

datatype inference_rule =
    Axiom
  | ModusPonens
  | ModusTollens
  | UniversalInstantiation
  | Resolution
  | HypotheticalSyllogism

datatype proof_step =
  ProofStep (step_conclusion: formula) (step_rule: inference_rule) (step_premises: "proof_step list")

definition axiom_step :: "formula \<Rightarrow> proof_step" where
  "axiom_step known = ProofStep known Axiom []"

definition derived_step :: "formula \<Rightarrow> inference_rule \<Rightarrow> proof_step list \<Rightarrow> proof_step" where
  "derived_step c rule premises = ProofStep c rule premises"

fun step_depth :: "proof_step \<Rightarrow> nat" where
  "step_depth (ProofStep c r premises) =
     (if premises = [] then 0 else 1 + foldr max (map step_depth premises) 0)"

fun step_size :: "proof_step \<Rightarrow> nat" where
  "step_size (ProofStep c r premises) = 1 + sum_list (map step_size premises)"

record kb_proof =
  root :: proof_step
  proof_substitution :: substitution

record knowledge_base =
  facts :: "formula list"
  rules :: "formula list"

definition new_kb :: knowledge_base where
  "new_kb = \<lparr>facts = [], rules = []\<rparr>"

definition add_fact :: "formula \<Rightarrow> knowledge_base \<Rightarrow> knowledge_base" where
  "add_fact known kb = kb\<lparr>facts := facts kb @ [known]\<rparr>"

definition add_rule :: "formula \<Rightarrow> knowledge_base \<Rightarrow> knowledge_base" where
  "add_rule rule kb = kb\<lparr>rules := rules kb @ [rule]\<rparr>"

definition fact_count :: "knowledge_base \<Rightarrow> nat" where
  "fact_count kb = length (facts kb)"

definition rule_count :: "knowledge_base \<Rightarrow> nat" where
  "rule_count kb = length (rules kb)"

section \<open>Forward chaining\<close>

fun derive_from_facts ::
  "(formula \<Rightarrow> u64) \<Rightarrow> formula \<Rightarrow> formula list \<Rightarrow> u64 set \<times> formula list \<Rightarrow> (u64 set \<times> formula list) option" where
  "derive_from_facts hash rule [] st = Some st"
| "derive_from_facts hash rule (known # rest) (seen, derived) =
     do { r \<leftarrow> modus_ponens known rule;
          case r of
            None \<Rightarrow> derive_from_facts hash rule rest (seen, derived)
          | Some d \<Rightarrow>
              (let h = hash (conclusion d)
               in if h \<in> seen then derive_from_facts hash rule rest (seen, derived)
                  else derive_from_facts hash rule rest (insert h seen, derived @ [conclusion d])) }"

fun derive_from_rules ::
  "(formula \<Rightarrow> u64) \<Rightarrow> formula list \<Rightarrow> formula list \<Rightarrow> u64 set \<times> formula list \<Rightarrow> (u64 set \<times> formula list) option" where
  "derive_from_rules hash [] all_facts st = Some st"
| "derive_from_rules hash (rule # rest) all_facts st =
     do { st' \<leftarrow> derive_from_facts hash rule all_facts st; derive_from_rules hash rest all_facts st' }"

fun chain_steps ::
  "(formula \<Rightarrow> u64) \<Rightarrow> knowledge_base \<Rightarrow> nat \<Rightarrow> u64 set \<Rightarrow> formula list \<Rightarrow> formula list option" where
  "chain_steps hash kb 0 seen new_facts = Some new_facts"
| "chain_steps hash kb (Suc n) seen new_facts =
     do { (seen', derived) \<leftarrow> derive_from_rules hash (rules kb) (facts kb @ new_facts) (seen, []);
          if derived = [] then Some new_facts else chain_steps hash kb n seen' (new_facts @ derived) }"

definition forward_chain ::
  "(formula \<Rightarrow> u64) \<Rightarrow> nat \<Rightarrow> knowledge_base \<Rightarrow> (formula list \<times> knowledge_base) option" where
  "forward_chain hash max_steps kb =
     do { new_facts \<leftarrow> chain_steps hash kb max_steps (hash ` set (facts kb)) [];
          Some (new_facts, kb\<lparr>facts := facts kb @ new_facts\<rparr>) }"

section \<open>Backward chaining\<close>

text \<open>
  The three loops of a call: over the facts, over the subgoals of a rule, and over the rules.
  \<open>B\<close> is the recursive call with one unit of depth less; the set of visited hashes is threaded.
\<close>

type_synonym prover = "formula \<Rightarrow> u64 set \<Rightarrow> (kb_proof option \<times> u64 set) option"

fun find_fact :: "formula \<Rightarrow> formula list \<Rightarrow> kb_proof option option" where
  "find_fact goal [] = Some None"
| "find_fact goal (known # rest) =
     do { r \<leftarrow> unify_atoms goal known;
          case r of
            Some sub \<Rightarrow> Some (Some \<lparr>root = axiom_step known, proof_substitution = sub\<rparr>)
          | None \<Rightarrow> find_fact goal rest }"

fun prove_all ::
  "prover \<Rightarrow> formula list \<Rightarrow> substitution \<Rightarrow> proof_step list \<Rightarrow> u64 set \<Rightarrow>
   ((substitution \<times> proof_step list) option \<times> u64 set) option"
where
  "prove_all B [] combined premises visited = Some (Some (combined, premises), visited)"
| "prove_all B (sg # rest) combined premises visited =
     do { sg_applied \<leftarrow> fsubst combined sg;
          (r, visited') \<leftarrow> B sg_applied visited;
          case r of
            Some p \<Rightarrow>
              do { combined' \<leftarrow> compose combined (proof_substitution p);
                   prove_all B rest combined' (premises @ [root p]) visited' }
          | None \<Rightarrow> Some (None, visited') }"

definition conjuncts :: "formula \<Rightarrow> formula list" where
  "conjuncts f = (case f of And fs \<Rightarrow> fs | _ \<Rightarrow> [f])"

fun try_rules :: "prover \<Rightarrow> formula \<Rightarrow> formula list \<Rightarrow> u64 set \<Rightarrow> (kb_proof option \<times> u64 set) option" where
  "try_rules B goal [] visited = Some (None, visited)"
| "try_rules B goal (rule # rest) visited =
     (case rule of
        Implies antecedent consequent \<Rightarrow>
          do { r \<leftarrow> unify_atoms goal consequent;
               case r of
                 None \<Rightarrow> try_rules B goal rest visited
               | Some sub \<Rightarrow>
                   do { subgoal \<leftarrow> fsubst sub antecedent;
                        (q, visited') \<leftarrow> prove_all B (conjuncts subgoal) sub [] visited;
                        case q of
                          Some (combined, premises) \<Rightarrow>
                            do { c \<leftarrow> fsubst combined goal;
                                 Some (Some \<lparr>root = derived_step c ModusPonens premises,
                                   proof_substitution = combined\<rparr>, visited') }
                        | None \<Rightarrow> try_rules B goal rest visited' } }
      | _ \<Rightarrow> try_rules B goal rest visited)"

fun backward_chain_inner :: "(formula \<Rightarrow> u64) \<Rightarrow> knowledge_base \<Rightarrow> nat \<Rightarrow> prover" where
  "backward_chain_inner hash kb 0 goal visited = Some (None, visited)"
| "backward_chain_inner hash kb (Suc depth) goal visited =
     (let goal_hash = hash goal
      in if goal_hash \<in> visited then Some (None, visited)
         else do { r \<leftarrow> find_fact goal (facts kb);
                   case r of
                     Some p \<Rightarrow> Some (Some p, insert goal_hash visited - {goal_hash})
                   | None \<Rightarrow>
                       do { (q, visited') \<leftarrow> try_rules (backward_chain_inner hash kb depth) goal (rules kb)
                              (insert goal_hash visited);
                            Some (q, visited' - {goal_hash}) } })"

definition backward_chain :: "(formula \<Rightarrow> u64) \<Rightarrow> knowledge_base \<Rightarrow> formula \<Rightarrow> nat \<Rightarrow> kb_proof option option" where
  "backward_chain hash kb goal max_depth = do { (r, visited) \<leftarrow> backward_chain_inner hash kb max_depth goal {}; Some r }"

section \<open>Forward chaining is sound and saturates\<close>

text \<open>
  What a pass over facts and rules keeps and adds: it returns, derives formulas that are not
  known yet and that are conclusions of modus ponens, and records their hashes.
\<close>

definition consequences :: "formula set \<Rightarrow> formula set \<Rightarrow> formula set" where
  "consequences fs rs = {conclusion d |d f r. f \<in> fs \<and> r \<in> rs \<and> modus_ponens f r = Some (Some d)}"

lemma consequences_single:
  "consequences fs {r} = (\<Union>f \<in> fs. case modus_ponens f r of Some (Some d) \<Rightarrow> {conclusion d} | _ \<Rightarrow> {})"
  by (fastforce simp: consequences_def split: option.splits)

definition pass_ok ::
  "(formula \<Rightarrow> u64) \<Rightarrow> formula set \<Rightarrow> formula set \<Rightarrow> u64 set \<times> formula list \<Rightarrow> u64 set \<times> formula list \<Rightarrow> bool" where
  "pass_ok hash fs rs st st' \<longleftrightarrow>
     (\<exists>new. snd st' = snd st @ new \<and> fst st' = fst st \<union> hash ` set new \<and> distinct (map hash new) \<and>
        hash ` set new \<inter> fst st = {} \<and> set new \<subseteq> consequences fs rs \<and> hash ` consequences fs rs \<subseteq> fst st')"

lemma pass_ok_trans:
  assumes "pass_ok hash fs rs st st'" and "pass_ok hash fs' rs' st' st''"
    and "consequences fs'' rs'' = consequences fs rs \<union> consequences fs' rs'"
  shows "pass_ok hash fs'' rs'' st st''"
proof -
  obtain m where m: "snd st' = snd st @ m" "fst st' = fst st \<union> hash ` set m" "distinct (map hash m)"
      "hash ` set m \<inter> fst st = {}" "set m \<subseteq> consequences fs rs" "hash ` consequences fs rs \<subseteq> fst st'"
    using assms(1) unfolding pass_ok_def by blast
  obtain n where n: "snd st'' = snd st' @ n" "fst st'' = fst st' \<union> hash ` set n" "distinct (map hash n)"
      "hash ` set n \<inter> fst st' = {}" "set n \<subseteq> consequences fs' rs'" "hash ` consequences fs' rs' \<subseteq> fst st''"
    using assms(2) unfolding pass_ok_def by blast
  have "distinct (map hash (m @ n))" using m(2,3) n(3,4) by auto
  moreover have "hash ` set (m @ n) \<inter> fst st = {}" using m(2,4) n(4) by auto
  moreover have "set (m @ n) \<subseteq> consequences fs'' rs''" using m(5) n(5) assms(3) by auto
  moreover have "hash ` consequences fs'' rs'' \<subseteq> fst st''" using m(6) n(2,6) assms(3) by auto
  moreover have "snd st'' = snd st @ (m @ n)" using m(1) n(1) by simp
  moreover have "fst st'' = fst st \<union> hash ` set (m @ n)" using m(2) n(2) by auto
  ultimately show ?thesis unfolding pass_ok_def by blast
qed

lemma derive_from_facts_ok: "\<exists>st'. derive_from_facts hash rule fs st = Some st' \<and> pass_ok hash (set fs) {rule} st st'"
proof (induction fs arbitrary: st)
  case Nil
  then show ?case by (auto simp: pass_ok_def consequences_def)
next
  case (Cons f fs)
  obtain seen derived where st: "st = (seen, derived)" by (cases st)
  obtain r where r: "modus_ponens f rule = Some r" using modus_ponens_returns [of f rule] by blast
  define st1 where "st1 = (case r of None \<Rightarrow> (seen, derived) | Some d \<Rightarrow>
      if hash (conclusion d) \<in> seen then (seen, derived) else (insert (hash (conclusion d)) seen, derived @ [conclusion d]))"
  have one: "pass_ok hash {f} {rule} st st1"
    using r by (cases r) (auto simp: pass_ok_def consequences_def st st1_def)
  obtain st' where st': "derive_from_facts hash rule fs st1 = Some st'" "pass_ok hash (set fs) {rule} st1 st'"
    using Cons.IH by blast
  have "derive_from_facts hash rule (f # fs) st = derive_from_facts hash rule fs st1"
    using r by (cases r) (simp_all add: st st1_def Let_def)
  moreover have "pass_ok hash (set (f # fs)) {rule} st st'"
    by (rule pass_ok_trans [OF one st'(2)]) (auto simp: consequences_def)
  ultimately show ?case using st'(1) by simp
qed

lemma derive_from_rules_ok: "\<exists>st'. derive_from_rules hash rs fs st = Some st' \<and> pass_ok hash (set fs) (set rs) st st'"
proof (induction rs arbitrary: st)
  case Nil
  then show ?case by (auto simp: pass_ok_def consequences_def)
next
  case (Cons r rs)
  obtain st1 where st1: "derive_from_facts hash r fs st = Some st1" "pass_ok hash (set fs) {r} st st1"
    using derive_from_facts_ok by blast
  obtain st' where st': "derive_from_rules hash rs fs st1 = Some st'" "pass_ok hash (set fs) (set rs) st1 st'"
    using Cons.IH by blast
  have "pass_ok hash (set fs) (set (r # rs)) st st'"
    by (rule pass_ok_trans [OF st1(2) st'(2)]) (auto simp: consequences_def)
  then show ?case using st1(1) st'(1) by simp
qed

text \<open>\<open>P\<close> is any predicate that modus ponens with the rules preserves.\<close>

lemma chain_steps_ok:
  assumes step: "\<And>f r d. P f \<Longrightarrow> r \<in> set (rules kb) \<Longrightarrow> modus_ponens f r = Some (Some d) \<Longrightarrow> P (conclusion d)"
  shows "seen = hash ` set (facts kb @ new) \<Longrightarrow> \<forall>f \<in> set (facts kb @ new). P f \<Longrightarrow>
   \<exists>derived. chain_steps hash kb n seen new = Some (new @ derived) \<and> distinct (map hash derived) \<and>
     hash ` set derived \<inter> seen = {} \<and> (\<forall>f \<in> set derived. P f) \<and>
     (length derived < n \<longrightarrow> hash ` consequences (set (facts kb @ new @ derived)) (set (rules kb)) \<subseteq>
        hash ` set (facts kb @ new @ derived))"
proof (induction n arbitrary: seen new)
  case (Suc n)
  let ?C = "consequences (set (facts kb @ new)) (set (rules kb))"
  obtain seen' m where d: "derive_from_rules hash (rules kb) (facts kb @ new) (seen, []) = Some (seen', m)"
    "pass_ok hash (set (facts kb @ new)) (set (rules kb)) (seen, []) (seen', m)"
    using derive_from_rules_ok by (metis surj_pair)
  then have m: "seen' = seen \<union> hash ` set m" "distinct (map hash m)" "hash ` set m \<inter> seen = {}"
    "set m \<subseteq> ?C" "hash ` ?C \<subseteq> seen'" by (auto simp: pass_ok_def)
  show ?case
  proof (cases "m = []")
    case True
    then show ?thesis using d(1) m(1,5) Suc.prems(1) by (intro exI [of _ "[]"]) auto
  next
    case False
    have "\<forall>f \<in> set m. P f" using m(4) Suc.prems(2) step by (fastforce simp: consequences_def)
    then have P: "\<forall>f \<in> set (facts kb @ (new @ m)). P f" using Suc.prems(2) by auto
    have s: "seen' = hash ` set (facts kb @ (new @ m))" using m(1) Suc.prems(1) by auto
    obtain k where k: "chain_steps hash kb n seen' (new @ m) = Some ((new @ m) @ k)" "distinct (map hash k)"
      "hash ` set k \<inter> seen' = {}" "\<forall>f \<in> set k. P f"
      "length k < n \<longrightarrow> hash ` consequences (set (facts kb @ (new @ m) @ k)) (set (rules kb)) \<subseteq>
        hash ` set (facts kb @ (new @ m) @ k)"
      using Suc.IH [OF s P] by blast
    have "distinct (map hash (m @ k))" "hash ` set (m @ k) \<inter> seen = {}" using m(1,2,3) k(2,3) by auto
    moreover have "length (m @ k) < Suc n \<Longrightarrow> length k < n" using False by (cases m) auto
    moreover have "\<forall>f \<in> set (m @ k). P f" using k(4) P by auto
    ultimately show ?thesis
      using d(1) False k(1,5) by (intro exI [of _ "m @ k"]) simp
  qed
qed auto

lemma forward_chain_ok:
  assumes "\<And>f r d. P f \<Longrightarrow> r \<in> set (rules kb) \<Longrightarrow> modus_ponens f r = Some (Some d) \<Longrightarrow> P (conclusion d)"
    and "\<forall>f \<in> set (facts kb). P f"
  obtains new where "forward_chain hash n kb = Some (new, kb\<lparr>facts := facts kb @ new\<rparr>)" "distinct (map hash new)"
    "hash ` set new \<inter> hash ` set (facts kb) = {}" "\<forall>f \<in> set new. P f"
    "length new < n \<Longrightarrow> hash ` consequences (set (facts kb @ new)) (set (rules kb)) \<subseteq> hash ` set (facts kb @ new)"
proof -
  have "\<exists>derived. chain_steps hash kb n (hash ` set (facts kb)) [] = Some ([] @ derived) \<and> distinct (map hash derived) \<and>
     hash ` set derived \<inter> hash ` set (facts kb) = {} \<and> (\<forall>f \<in> set derived. P f) \<and>
     (length derived < n \<longrightarrow> hash ` consequences (set (facts kb @ [] @ derived)) (set (rules kb)) \<subseteq>
        hash ` set (facts kb @ [] @ derived))"
    by (rule chain_steps_ok [of P kb, OF assms(1)]) (use assms(2) in auto)
  then obtain new where "chain_steps hash kb n (hash ` set (facts kb)) [] = Some new" "distinct (map hash new)"
    "hash ` set new \<inter> hash ` set (facts kb) = {}" "\<forall>f \<in> set new. P f"
    "length new < n \<Longrightarrow> hash ` consequences (set (facts kb @ new)) (set (rules kb)) \<subseteq> hash ` set (facts kb @ new)"
    by auto
  then show thesis by (intro that [of new]) (simp_all add: forward_chain_def)
qed

text \<open>
  Forward chaining returns and is sound: when the facts and the rules hold in an interpretation
  for every value of their variables and the rules have no quantifiers, so do the facts it adds;
  the rules and the old facts stay, and no fact is added twice.
\<close>

theorem forward_chain_sound:
  assumes "\<forall>f \<in> set (facts kb). valid I f" and "\<forall>r \<in> set (rules kb). valid I r \<and> quantifier_free r"
  shows "\<exists>new kb'. forward_chain hash n kb = Some (new, kb') \<and> facts kb' = facts kb @ new \<and> rules kb' = rules kb \<and>
    distinct new \<and> set new \<inter> set (facts kb) = {} \<and> (\<forall>f \<in> set new. valid I f)"
proof -
  have step: "valid I (conclusion d)" if "valid I f" "r \<in> set (rules kb)" "modus_ponens f r = Some (Some d)" for f r d
    using modus_ponens_valid [OF that(3,1)] assms(2) that(2) by blast
  obtain new where "forward_chain hash n kb = Some (new, kb\<lparr>facts := facts kb @ new\<rparr>)" "distinct (map hash new)"
    "hash ` set new \<inter> hash ` set (facts kb) = {}" "\<forall>f \<in> set new. valid I f"
    by (rule forward_chain_ok [of "valid I" kb, OF step assms(1)])
  moreover from this have "distinct new" "set new \<inter> set (facts kb) = {}" by (auto simp: distinct_map)
  ultimately show ?thesis by simp
qed

definition example_kb :: knowledge_base where
  "example_kb = \<lparr>facts = [Atom 0 [Constant 1]], rules = [Implies (Atom 0 [Variable 0]) (Atom 0 [Compound 2 [Variable 0]])]\<rparr>"

theorem forward_chain_sound_witness:
  "\<exists>new kb'. forward_chain (\<lambda>f. of_nat (size f)) 2 example_kb = Some (new, kb') \<and> (\<forall>f \<in> set new. valid even_interp f)"
proof -
  have "\<forall>f \<in> set (facts example_kb). valid even_interp f"
    "\<forall>r \<in> set (rules example_kb). valid even_interp r \<and> quantifier_free r"
    by (simp_all add: example_kb_def valid_def even_interp_def)
  from forward_chain_sound [OF this] show ?thesis by blast
qed

text \<open>
  Forward chaining saturates: when it adds fewer facts than the number of steps allowed and
  no consequence collides with a known fact under the hash, every consequence of one use of
  modus ponens on the resulting facts and the rules is among the facts.
\<close>

theorem forward_chain_saturates:
  assumes "forward_chain hash n kb = Some (new, kb')" and "length new < n"
    and "inj_on hash (set (facts kb') \<union> consequences (set (facts kb')) (set (rules kb)))"
  shows "consequences (set (facts kb')) (set (rules kb)) \<subseteq> set (facts kb')"
proof -
  obtain m where m: "forward_chain hash n kb = Some (m, kb\<lparr>facts := facts kb @ m\<rparr>)"
    "length m < n \<Longrightarrow> hash ` consequences (set (facts kb @ m)) (set (rules kb)) \<subseteq> hash ` set (facts kb @ m)"
    by (rule forward_chain_ok [of "\<lambda>_. True" kb hash n]) auto
  then have k: "new = m" "facts kb' = facts kb @ m" using assms(1) by auto
  let ?C = "consequences (set (facts kb')) (set (rules kb))"
  have "hash ` ?C \<subseteq> hash ` set (facts kb')" using m(2) assms(2) k by simp
  then show ?thesis using assms(3) by (fastforce dest: inj_onD)
qed

theorem forward_chain_saturates_witness:
  "\<exists>new kb'. forward_chain (\<lambda>f. of_nat (size f)) 2 \<lparr>facts = [Atom 0 []], rules = [Implies (Atom 0 []) (Not (Atom 0 []))]\<rparr> =
     Some (new, kb') \<and> consequences (set (facts kb')) {Implies (Atom 0 []) (Not (Atom 0 []))} \<subseteq> set (facts kb')"
proof -
  let ?r = "Implies (Atom 0 []) (Not (Atom 0 []))" and ?h = "\<lambda>f :: formula. of_nat (size f) :: u64"
  let ?kb = "\<lparr>facts = [Atom 0 []], rules = [?r]\<rparr>"
  have mp: "modus_ponens (Atom 0 []) ?r = Some (Some \<lparr>conclusion = Not (Atom 0 []), substitution = [], rule_name = ''modus_ponens''\<rparr>)"
    "modus_ponens (Not (Atom 0 [])) ?r = Some None"
    by (simp_all add: modus_ponens_def unify_formulas.simps)
  have f: "forward_chain ?h 2 ?kb = Some ([Not (Atom 0 [])], ?kb\<lparr>facts := [Atom 0 [], Not (Atom 0 [])]\<rparr>)"
    by (simp add: forward_chain_def numeral_2_eq_2 mp Let_def)
  have c: "consequences {Atom 0 [], Not (Atom 0 [])} {?r} = {Not (Atom 0 [])}"
    by (simp add: consequences_single mp)
  show ?thesis
    using forward_chain_saturates [OF f] f c by auto
qed

section \<open>Backward chaining on ground goals\<close>

definition ground :: "formula \<Rightarrow> bool" where
  "ground f \<longleftrightarrow> quantifier_free f \<and> fvars f = {}"

definition ground_sub :: "substitution \<Rightarrow> bool" where
  "ground_sub s \<longleftrightarrow> (\<forall>(v, t) \<in> set s. variables t = {})"

lemma ground_sub_simps [simp]:
  "ground_sub []" "ground_sub ((v, t) # s) \<longleftrightarrow> variables t = {} \<and> ground_sub s"
  by (auto simp: ground_sub_def)

lemma ground_sub_acyclic: "ground_sub s \<Longrightarrow> acyclic_sub s"
proof (rule acyclicI)
  fix P v assume s: "ground_sub s" and H: "\<And>v. (\<And>t w. map_of s v = Some t \<Longrightarrow> w \<in> variables t \<Longrightarrow> P w) \<Longrightarrow> P v"
  show "P v" by (rule H) (use s in \<open>auto simp: ground_sub_def dest!: map_of_SomeD\<close>)
qed

lemma substitute_ground: "variables t = {} \<Longrightarrow> substitute s t = Some t"
  using substitute_by_vars [of t s] by (simp add: inst_ground)

lemma fsubst_ground: "ground f \<Longrightarrow> fsubst s f = Some f"
  unfolding ground_def
proof (induction f)
  case (Atom p ts)
  have "mapo (substitute s) ts = Some (map (\<lambda>t. t) ts)"
    by (rule mapo_Some) (use Atom in \<open>auto intro: substitute_ground\<close>)
  then show ?case by simp
next
  case (And fs)
  have "mapo (fsubst s) fs = Some (map (\<lambda>f. f) fs)" by (rule mapo_Some) (use And in \<open>auto simp: list_all_iff\<close>)
  then show ?case by simp
next
  case (Or fs)
  have "mapo (fsubst s) fs = Some (map (\<lambda>f. f) fs)" by (rule mapo_Some) (use Or in \<open>auto simp: list_all_iff\<close>)
  then show ?case by simp
qed auto

lemma compose_ground:
  assumes "ground_sub base" and "ground_sub other"
  obtains c where "compose base other = Some c" "ground_sub c"
proof -
  have "mapo (\<lambda>(var, t). do { t' \<leftarrow> substitute other t; Some (var, t') }) base = Some (map (\<lambda>b. b) base)"
    by (rule mapo_Some) (use assms(1) in \<open>auto simp: ground_sub_def substitute_ground\<close>)
  then have "compose base other = Some (base @ filter (\<lambda>(var, t). map_of base var = None) other)" by (simp add: compose_def)
  moreover have "ground_sub (base @ filter (\<lambda>(var, t). map_of base var = None) other)"
    using assms(1,2) by (auto simp: ground_sub_def)
  ultimately show thesis by (rule that)
qed

lemma unify_args_ground:
  assumes "\<And>a b s r. (a, b) \<in> set ps \<Longrightarrow> U a b s = Some (Some r) \<Longrightarrow> ground_sub s \<Longrightarrow> ground_sub r"
  shows "unify_args U ps s = Some (Some r) \<Longrightarrow> ground_sub s \<Longrightarrow> ground_sub r"
  using assms
proof (induction ps arbitrary: s)
  case (Cons p ps)
  obtain a b where p: "p = (a, b)" by (cases p)
  from Cons.prems(1) p obtain s' where s': "U a b s = Some (Some s')" "unify_args U ps s' = Some (Some r)"
    by (auto split: Option.bind_splits option.splits)
  have "ground_sub s'" by (rule Cons.prems(3) [OF _ s'(1) Cons.prems(2)]) (simp add: p)
  show ?case by (rule Cons.IH [OF s'(2) \<open>ground_sub s'\<close>]) (use Cons.prems(3) in auto)
qed simp

lemma unify_with_sub_ground:
  assumes "unify_with_sub t1 t2 s = Some r"
  shows "variables t1 = {} \<longrightarrow> ground_sub s \<longrightarrow> (\<forall>x. r = Some x \<longrightarrow> ground_sub x)"
proof (rule unify_with_sub.raw_induct
    [where P = "\<lambda>t1 t2 s r. variables t1 = {} \<longrightarrow> ground_sub s \<longrightarrow> (\<forall>x. r = Some x \<longrightarrow> ground_sub x)", OF _ assms],
    intro impI allI)
  fix U u1 u2 s r x
  assume IH: "\<And>u1 u2 s r. U u1 u2 s = Some r \<Longrightarrow> variables u1 = {} \<longrightarrow> ground_sub s \<longrightarrow> (\<forall>x. r = Some x \<longrightarrow> ground_sub x)"
    and body: "apply_sub s u1 \<bind> (\<lambda>t1. apply_sub s u2 \<bind> (\<lambda>t2.
        if t1 = t2 then Some (Some s)
        else (case (t1, t2) of
                (Variable v, _) \<Rightarrow> Some (if contains_var t2 v then None else Some ((v, t2) # s))
              | (_, Variable v) \<Rightarrow> Some (if contains_var t1 v then None else Some ((v, t1) # s))
              | (Compound f1 args1, Compound f2 args2) \<Rightarrow>
                  if f1 \<noteq> f2 \<or> length args1 \<noteq> length args2 then Some None else unify_args U (zip args1 args2) s
              | _ \<Rightarrow> Some None))) = Some r"
    and g: "variables u1 = {}" "ground_sub s" and r: "r = Some x"
  have t1: "apply_sub s u1 = Some u1" by (simp add: apply_sub_def substitute_ground [OF g(1)])
  obtain t2 where t2: "apply_sub s u2 = Some t2" using body t1 by (cases "apply_sub s u2") auto
  show "ground_sub x"
  proof (cases u1)
    case (Variable v)
    then show ?thesis using g(1) by simp
  next
    case (Constant c)
    then show ?thesis using body t1 t2 g r by (auto split: fol_term.splits if_splits)
  next
    case (Compound f as1)
    show ?thesis
    proof (cases "\<exists>bs. t2 = Compound f bs \<and> length as1 = length bs \<and> as1 \<noteq> bs")
      case True
      then obtain bs where bs: "t2 = Compound f bs" "length as1 = length bs" "as1 \<noteq> bs" by blast
      then have "unify_args U (zip as1 bs) s = Some (Some x)" using body t1 t2 r Compound by simp
      then show ?thesis
        by (rule unify_args_ground [rotated]) (use IH g Compound in \<open>force dest: set_zip_leftD\<close>)+
    next
      case False
      then show ?thesis
        using body t1 t2 g r Compound by (auto split: fol_term.splits if_splits)
    qed
  qed
qed

lemma inst_eq_on_vars: "inst \<theta> t = inst \<theta>' t \<Longrightarrow> v \<in> variables t \<Longrightarrow> \<theta> v = \<theta>' v"
  by (induction t) auto

text \<open>Unification of a ground goal with an atom: matching.\<close>

lemma unify_atoms_ground:
  assumes "ground goal"
  obtains "unify_atoms goal f = Some None" "\<not> (\<exists>\<theta>. is_atom f \<and> finst \<theta> f = goal)"
  | s where "unify_atoms goal f = Some (Some s)" "ground_sub s" "is_atom f" "finst (full s) f = goal"
      "\<And>\<theta> v. finst \<theta> f = goal \<Longrightarrow> v \<in> fvars f \<Longrightarrow> full s v = \<theta> v"
proof -
  obtain r where r: "unify_atoms goal f = Some r" "formulas_unified goal f r"
    "r = None \<and> is_atom goal \<and> is_atom f \<longrightarrow> (\<forall>\<theta>. finst \<theta> goal \<noteq> finst \<theta> f)"
    using unify_atoms_decides by blast
  have fix_goal: "finst \<theta> goal = goal" for \<theta>
    using assms finst_cong [of goal \<theta> Variable] by (simp add: ground_def)
  show thesis
  proof (cases r)
    case None
    have "is_atom goal" if "is_atom f" "finst \<theta> f = goal" for \<theta> using that by (cases f) auto
    then show thesis using that(1) r(1,3) None fix_goal by metis
  next
    case (Some s)
    have atoms: "is_atom goal" "is_atom f"
      using r(1) Some by (cases "(goal, f)" rule: unify_atoms.cases; auto)+
    then obtain p as1 q bs where f: "goal = Atom p as1" "f = Atom q bs" by (cases goal; cases f) auto
    have s: "acyclic_sub s" "\<And>\<theta>. solves \<theta> s \<longleftrightarrow> finst \<theta> goal = finst \<theta> f"
      using r(2) Some by (auto simp: formulas_unified_def)
    have m: "finst (full s) f = goal" using s(2) full_solves [OF s(1)] fix_goal by metis
    have "unify_args unify_with_sub (zip as1 bs) [] = Some (Some s)"
      using r(1) Some f by (simp split: if_splits)
    then have gs: "ground_sub s"
    proof (rule unify_args_ground [rotated])
      fix a b s r assume ab: "(a, b) \<in> set (zip as1 bs)" "unify_with_sub a b s = Some (Some r)" "ground_sub s"
      have "variables a = {}" using assms ab(1) f(1) by (auto simp: ground_def dest: set_zip_leftD)
      then show "ground_sub r" using unify_with_sub_ground [OF ab(2)] ab(3) by simp
    qed (simp add: ground_sub_def)
    have agree: "full s v = \<theta> v" if i: "finst \<theta> f = goal" and v: "v \<in> fvars f" for \<theta> v
    proof -
      have "map (inst (full s)) bs = map (inst \<theta>) bs" using m i f by simp
      then have "\<forall>b \<in> set bs. inst (full s) b = inst \<theta> b" by simp
      moreover obtain b where "b \<in> set bs" "v \<in> variables b" using v f by auto
      ultimately show ?thesis using inst_eq_on_vars by blast
    qed
    show thesis by (rule that(2) [of s]) (use r(1) Some gs atoms(2) m agree in simp_all)
  qed
qed

text \<open>
  Derivability by a tree of bounded height: a goal is an instance of an atomic fact, or of the
  conclusion of a rule all of whose instantiated conditions are derivable.
\<close>

inductive derives :: "knowledge_base \<Rightarrow> nat \<Rightarrow> formula \<Rightarrow> bool" for kb where
  derives_fact: "f \<in> set (facts kb) \<Longrightarrow> is_atom f \<Longrightarrow> derives kb (Suc n) (finst \<theta> f)"
| derives_rule: "Implies a c \<in> set (rules kb) \<Longrightarrow> is_atom c \<Longrightarrow> (\<And>sg. sg \<in> set (conjuncts (finst \<theta> a)) \<Longrightarrow> derives kb n sg) \<Longrightarrow>
    derives kb (Suc n) (finst \<theta> c)"

inductive_cases derives_SucE: "derives kb m g"

lemma derives_mono: "derives kb n g \<Longrightarrow> n \<le> m \<Longrightarrow> derives kb m g"
proof (induction arbitrary: m rule: derives.induct)
  case (derives_fact f n \<theta>)
  then show ?case by (cases m) (auto intro: derives.derives_fact)
next
  case (derives_rule a c \<theta> n)
  then show ?case by (cases m) (auto intro!: derives.derives_rule)
qed

definition safe_rules :: "knowledge_base \<Rightarrow> bool" where
  "safe_rules kb \<longleftrightarrow> (\<forall>a c. Implies a c \<in> set (rules kb) \<longrightarrow> quantifier_free a \<and> fvars a \<subseteq> fvars c)"

lemma conjuncts_ground: "ground f \<Longrightarrow> sg \<in> set (conjuncts f) \<Longrightarrow> ground sg"
  by (cases f) (auto simp: conjuncts_def ground_def list_all_iff)

text \<open>What is required of the recursive call, and what the loops make of it.\<close>

definition prover_ok :: "knowledge_base \<Rightarrow> nat \<Rightarrow> prover \<Rightarrow> bool" where
  "prover_ok kb n B \<longleftrightarrow> (\<forall>g visited. ground g \<longrightarrow> (\<exists>r. B g visited = Some (r, visited) \<and>
     (\<forall>p. r = Some p \<longrightarrow> ground_sub (proof_substitution p) \<and> derives kb n g)))"

lemma find_fact_ok:
  assumes "ground goal"
  obtains "find_fact goal fs = Some None" "\<not> (\<exists>f \<in> set fs. \<exists>\<theta>. is_atom f \<and> finst \<theta> f = goal)"
  | p f \<theta> where "find_fact goal fs = Some (Some p)" "f \<in> set fs" "is_atom f" "finst \<theta> f = goal"
      "ground_sub (proof_substitution p)" "root p = axiom_step f"
proof -
  have "find_fact goal fs = Some None \<and> \<not> (\<exists>f \<in> set fs. \<exists>\<theta>. is_atom f \<and> finst \<theta> f = goal) \<or>
    (\<exists>p f \<theta>. find_fact goal fs = Some (Some p) \<and> f \<in> set fs \<and> is_atom f \<and> finst \<theta> f = goal \<and>
      ground_sub (proof_substitution p) \<and> root p = axiom_step f)"
  proof (induction fs)
    case (Cons f fs)
    show ?case
    proof (cases rule: unify_atoms_ground [OF assms, of f])
      case 1
      then show ?thesis using Cons by auto
    next
      case (2 s)
      then show ?thesis by (intro disjI2 exI [of _ "\<lparr>root = axiom_step f, proof_substitution = s\<rparr>"] exI [of _ f] exI [of _ "full s"]) simp
    qed
  qed simp
  then show thesis using that by blast
qed

lemma prove_all_ok:
  assumes B: "prover_ok kb n B"
  shows "(\<And>sg. sg \<in> set sgs \<Longrightarrow> ground sg) \<Longrightarrow> ground_sub combined \<Longrightarrow>
    \<exists>r. prove_all B sgs combined pms visited = Some (r, visited) \<and>
      (\<forall>c ps. r = Some (c, ps) \<longrightarrow> ground_sub c \<and> (\<forall>sg \<in> set sgs. derives kb n sg)) \<and>
      ((\<forall>sg \<in> set sgs. \<exists>p. B sg visited = Some (Some p, visited)) \<longrightarrow> r \<noteq> None)"
proof (induction sgs arbitrary: combined pms)
  case (Cons sg sgs)
  have sg: "ground sg" using Cons.prems(1) by simp
  obtain r where r: "B sg visited = Some (r, visited)"
    "\<And>p. r = Some p \<Longrightarrow> ground_sub (proof_substitution p) \<and> derives kb n sg"
    using B sg unfolding prover_ok_def by blast
  show ?case
  proof (cases r)
    case None
    then show ?thesis using r fsubst_ground [OF sg] by auto
  next
    case (Some p)
    obtain c where c: "compose combined (proof_substitution p) = Some c" "ground_sub c"
      using compose_ground [OF Cons.prems(2)] r(2) [OF Some] by blast
    have "\<And>sg. sg \<in> set sgs \<Longrightarrow> ground sg" using Cons.prems(1) by simp
    from Cons.IH [OF this c(2), of "pms @ [root p]"] obtain q where q:
      "prove_all B sgs c (pms @ [root p]) visited = Some (q, visited)"
      "\<forall>c ps. q = Some (c, ps) \<longrightarrow> ground_sub c \<and> (\<forall>sg \<in> set sgs. derives kb n sg)"
      "(\<forall>sg \<in> set sgs. \<exists>p. B sg visited = Some (Some p, visited)) \<longrightarrow> q \<noteq> None" by blast
    have "prove_all B (sg # sgs) combined pms visited = Some (q, visited)"
      using r(1) Some c(1) q(1) fsubst_ground [OF sg] by simp
    then show ?thesis using q(2,3) r(2) [OF Some] by auto
  qed
qed simp

definition applicable :: "prover \<Rightarrow> formula \<Rightarrow> u64 set \<Rightarrow> formula list \<Rightarrow> bool" where
  "applicable B goal visited rs \<longleftrightarrow>
     (\<exists>a c \<theta>. Implies a c \<in> set rs \<and> is_atom c \<and> finst \<theta> c = goal \<and>
        (\<forall>sg \<in> set (conjuncts (finst \<theta> a)). \<exists>p. B sg visited = Some (Some p, visited)))"

lemma applicable_Cons:
  "applicable B goal visited (rule # rs) \<longleftrightarrow> applicable B goal visited rs \<or>
     (\<exists>a c \<theta>. rule = Implies a c \<and> is_atom c \<and> finst \<theta> c = goal \<and>
        (\<forall>sg \<in> set (conjuncts (finst \<theta> a)). \<exists>p. B sg visited = Some (Some p, visited)))"
  by (simp only: applicable_def list.set insert_iff) blast

lemma try_rules_ok:
  assumes B: "prover_ok kb n B" and goal: "ground goal" and safe: "safe_rules kb"
  shows "set rs \<subseteq> set (rules kb) \<Longrightarrow>
    \<exists>r. try_rules B goal rs visited = Some (r, visited) \<and>
      (\<forall>p. r = Some p \<longrightarrow> ground_sub (proof_substitution p) \<and> derives kb (Suc n) goal \<and> step_conclusion (root p) = goal) \<and>
      (applicable B goal visited rs \<longrightarrow> r \<noteq> None)"
proof (induction rs)
  case (Cons rule rs)
  then obtain r where r: "try_rules B goal rs visited = Some (r, visited)"
    "\<And>p. r = Some p \<Longrightarrow> ground_sub (proof_substitution p) \<and> derives kb (Suc n) goal \<and> step_conclusion (root p) = goal"
    "applicable B goal visited rs \<longrightarrow> r \<noteq> None" by auto
  show ?case
  proof (cases "is_implication rule")
    case False
    then have "try_rules B goal (rule # rs) visited = try_rules B goal rs visited" by (cases rule) auto
    moreover have "applicable B goal visited (rule # rs) \<Longrightarrow> applicable B goal visited rs"
      using False by (auto simp: applicable_Cons)
    ultimately show ?thesis using r by simp
  next
    case True
    then obtain a c where rule: "rule = Implies a c" by (cases rule) auto
    then have a: "quantifier_free a" "fvars a \<subseteq> fvars c" using safe Cons.prems by (auto simp: safe_rules_def)
    show ?thesis
    proof (cases rule: unify_atoms_ground [OF goal, of c])
      case 1
      then have "applicable B goal visited (rule # rs) \<Longrightarrow> applicable B goal visited rs"
        using rule by (auto simp: applicable_Cons)
      then show ?thesis using r rule 1(1) by simp
    next
      case (2 s)
      let ?a = "finst (full s) a"
      have "variables (full s v) = {}" if "v \<in> fvars a" for v
      proof -
        have "quantifier_free c" using 2(3) by (cases c) auto
        then have "fvars goal = (\<Union>v \<in> fvars c. variables (full s v))" using fvars_finst [of c "full s"] 2(4) by simp
        then show ?thesis using goal that a(2) by (auto simp: ground_def)
      qed
      then have ga: "ground ?a"
        using fvars_finst [OF a(1), of "full s"] fsubst_returns [OF ground_sub_acyclic [OF 2(2)], of a]
          fsubst_finst [OF ground_sub_acyclic [OF 2(2)] a(1)] a(1) by (auto simp: ground_def)
      obtain q where q: "prove_all B (conjuncts ?a) s [] visited = Some (q, visited)"
        "\<And>c ps. q = Some (c, ps) \<Longrightarrow> ground_sub c \<and> (\<forall>sg \<in> set (conjuncts ?a). derives kb n sg)"
        "(\<forall>sg \<in> set (conjuncts ?a). \<exists>p. B sg visited = Some (Some p, visited)) \<Longrightarrow> q \<noteq> None"
        using prove_all_ok [OF B _ 2(2), of "conjuncts ?a" "[]" visited] conjuncts_ground [OF ga] by blast
      have fs: "fsubst s a = Some ?a" by (rule fsubst_finst [OF ground_sub_acyclic [OF 2(2)] a(1)])
      show ?thesis
      proof (cases q)
        case None
        have "try_rules B goal (rule # rs) visited = Some (r, visited)"
          using rule 2(1) fs q(1) None r(1) by simp
        moreover have "finst \<theta> a = ?a" if "finst \<theta> c = goal" for \<theta>
          using 2(5) [OF that] a(2) by (intro finst_cong) auto
        then have "applicable B goal visited (rule # rs) \<Longrightarrow> applicable B goal visited rs"
          using q(3) None rule by (fastforce simp: applicable_Cons)
        ultimately show ?thesis using r(2,3) by simp
      next
        case (Some cp)
        obtain cs ps where cp: "cp = (cs, ps)" by (cases cp)
        have "derives kb (Suc n) (finst (full s) c)"
          by (rule derives_rule [where a = a]) (use Cons.prems rule 2(3) q(2) Some cp in auto)
        then show ?thesis using rule 2(1,4) fs q(1,2) Some cp fsubst_ground [OF goal] by (auto simp: derived_step_def)
      qed
    qed
  qed
qed (simp add: applicable_def)

lemma inner_ok: "safe_rules kb \<Longrightarrow> prover_ok kb n (backward_chain_inner hash kb n)"
proof (induction n)
  case 0
  then show ?case by (simp add: prover_ok_def)
next
  case (Suc n)
  let ?B = "backward_chain_inner hash kb n"
  have B: "prover_ok kb n ?B" by (rule Suc.IH [OF Suc.prems])
  have "\<exists>r. backward_chain_inner hash kb (Suc n) g visited = Some (r, visited) \<and>
      (\<forall>p. r = Some p \<longrightarrow> ground_sub (proof_substitution p) \<and> derives kb (Suc n) g)" if g: "ground g" for g visited
  proof (cases "hash g \<in> visited")
    case True
    then show ?thesis by simp
  next
    case new: False
    show ?thesis
    proof (cases rule: find_fact_ok [OF g, of "facts kb"])
      case 1
      obtain r where "try_rules ?B g (rules kb) (insert (hash g) visited) = Some (r, insert (hash g) visited)"
        "\<forall>p. r = Some p \<longrightarrow> ground_sub (proof_substitution p) \<and> derives kb (Suc n) g \<and> step_conclusion (root p) = g"
        using try_rules_ok [OF B g Suc.prems, of "rules kb" "insert (hash g) visited"] by blast
      then show ?thesis using 1(1) new by (simp add: Let_def)
    next
      case (2 p f \<theta>)
      have "derives kb (Suc n) g" using derives_fact [OF 2(2,3), of n \<theta>] 2(4) by simp
      then show ?thesis using 2(1,5) new by (simp add: Let_def)
    qed
  qed
  then show ?case unfolding prover_ok_def by blast
qed

text \<open>
  Completeness: the hashes on the path belong to goals that need higher derivations than the
  goal at hand, so the check for repeated goals does not cut it off.
\<close>

definition subgoals_closed :: "knowledge_base \<Rightarrow> formula set \<Rightarrow> bool" where
  "subgoals_closed kb G \<longleftrightarrow> (\<forall>a c \<theta>. Implies a c \<in> set (rules kb) \<longrightarrow> is_atom c \<longrightarrow> finst \<theta> c \<in> G \<longrightarrow>
     set (conjuncts (finst \<theta> a)) \<subseteq> G)"

lemma inner_complete:
  assumes safe: "safe_rules kb" and G: "\<forall>g \<in> G. ground g" "inj_on hash G" "subgoals_closed kb G"
  shows "g \<in> G \<Longrightarrow> derives kb m g \<Longrightarrow> m \<le> n \<Longrightarrow> (\<And>g'. g' \<in> G \<Longrightarrow> hash g' \<in> visited \<Longrightarrow> \<not> derives kb m g') \<Longrightarrow>
    \<exists>p. backward_chain_inner hash kb n g visited = Some (Some p, visited)"
proof (induction n arbitrary: g m visited)
  case 0
  then show ?case by (auto elim: derives.cases)
next
  case (Suc n)
  let ?B = "backward_chain_inner hash kb n"
  have g: "ground g" and new: "hash g \<notin> visited" using G(1) Suc.prems by auto
  define k where "k = (LEAST k. derives kb k g)"
  have k: "derives kb k g" "k \<le> m" "\<And>j. derives kb j g \<Longrightarrow> k \<le> j"
    using Suc.prems(2) unfolding k_def by (auto intro: LeastI Least_le)
  show ?case
  proof (cases rule: find_fact_ok [OF g, of "facts kb"])
    case (2 p f \<theta>)
    then show ?thesis using new by (simp add: Let_def)
  next
    case 1
    from k(1) obtain a c \<theta> j where r: "k = Suc j" "g = finst \<theta> c" "Implies a c \<in> set (rules kb)" "is_atom c"
      "\<And>sg. sg \<in> set (conjuncts (finst \<theta> a)) \<Longrightarrow> derives kb j sg"
      by (cases rule: derives.cases) (use 1(2) in auto)
    have "\<exists>p. ?B sg (insert (hash g) visited) = Some (Some p, insert (hash g) visited)"
      if sg: "sg \<in> set (conjuncts (finst \<theta> a))" for sg
    proof (rule Suc.IH [OF _ r(5) [OF sg]])
      show "sg \<in> G" using G(3) r sg Suc.prems(1) unfolding subgoals_closed_def by blast
      show "j \<le> n" using r(1) k(2) Suc.prems(3) by simp
      fix g' assume g': "g' \<in> G" "hash g' \<in> insert (hash g) visited"
      show "\<not> derives kb j g'"
      proof (cases "hash g' = hash g")
        case True
        then have "g' = g" using G(2) g'(1) Suc.prems(1) by (auto dest: inj_onD)
        then show ?thesis using k(3) [of j] r(1) by auto
      next
        case False
        then have "\<not> derives kb m g'" using Suc.prems(4) g' by auto
        then show ?thesis using derives_mono [of kb j g' m] r(1) k(2) by auto
      qed
    qed
    then have "applicable ?B g (insert (hash g) visited) (rules kb)"
      using r unfolding applicable_def by blast
    then obtain p where "try_rules ?B g (rules kb) (insert (hash g) visited) = Some (Some p, insert (hash g) visited)"
      using try_rules_ok [OF inner_ok [OF safe, of n hash] g safe, of "rules kb" "insert (hash g) visited"] by auto
    then show ?thesis using 1(1) new by (simp add: Let_def)
  qed
qed

lemma atom_quantifier_free: "is_atom f \<Longrightarrow> quantifier_free f"
  by (cases f) auto

lemma derives_valid:
  assumes "\<forall>f \<in> set (facts kb). valid I f" and "\<forall>r \<in> set (rules kb). valid I r" and "safe_rules kb"
  shows "derives kb n g \<Longrightarrow> valid I g"
proof (induction rule: derives.induct)
  case (derives_fact f n \<theta>)
  then show ?case using assms(1) valid_finst [OF atom_quantifier_free, of f I \<theta>] by blast
next
  case (derives_rule a c \<theta> n)
  have q: "quantifier_free a" "quantifier_free c"
    using assms(3) derives_rule(1,2) atom_quantifier_free by (auto simp: safe_rules_def)
  have "holds I env (finst \<theta> a)" for env
    using derives_rule(4) by (cases "finst \<theta> a") (auto simp: conjuncts_def valid_def list_all_iff)
  then show ?case
    using assms(2) derives_rule(1) q by (auto simp: valid_def holds_finst)
qed

text \<open>
  Backward chaining on a ground goal returns and is sound: when every variable of the
  conditions of a rule occurs in its conclusion, a proof is found only of a goal that holds in
  every interpretation in which the facts and the rules hold.
\<close>

theorem backward_chain_sound:
  assumes "safe_rules kb" and "ground goal"
    and "\<forall>f \<in> set (facts kb). valid I f" and "\<forall>r \<in> set (rules kb). valid I r"
  shows "\<exists>r. backward_chain hash kb goal n = Some r \<and> (r \<noteq> None \<longrightarrow> valid I goal)"
proof -
  obtain r where "backward_chain_inner hash kb n goal {} = Some (r, {})" "\<And>p. r = Some p \<Longrightarrow> derives kb n goal"
    using inner_ok [OF assms(1), of n hash] assms(2) unfolding prover_ok_def by blast
  then show ?thesis using derives_valid [OF assms(3,4,1)] by (auto simp: backward_chain_def)
qed

text \<open>For the witnesses: a fact, and a rule that gives the same of another predicate.\<close>

definition even_kb :: knowledge_base where
  "even_kb = \<lparr>facts = [Atom 0 [Constant 1]], rules = [Implies (Atom 0 [Variable 0]) (Atom 3 [Variable 0])]\<rparr>"

lemma even_kb_safe: "safe_rules even_kb"
  by (simp add: safe_rules_def even_kb_def)

theorem backward_chain_sound_witness:
  "\<exists>r. backward_chain (\<lambda>f. of_nat (size f)) even_kb (Atom 3 [Constant 1]) 2 = Some r \<and>
     (r \<noteq> None \<longrightarrow> valid even_interp (Atom 3 [Constant 1]))"
  by (rule backward_chain_sound [OF even_kb_safe])
    (simp_all add: ground_def even_kb_def valid_def even_interp_def)

text \<open>
  C17. Backward chaining decides derivability: on ground goals whose subgoals do not collide under
  the hash, with every variable of the conditions of a rule in its conclusion, a proof is found
  exactly when there is a derivation of height at most the depth limit; the check for repeated
  goals loses nothing.
\<close>

theorem backward_chain_decides:
  assumes "safe_rules kb" and "goal \<in> G" and "\<forall>g \<in> G. ground g" and "inj_on hash G" and "subgoals_closed kb G"
  shows "\<exists>r. backward_chain hash kb goal n = Some r \<and> (r \<noteq> None \<longleftrightarrow> derives kb n goal)"
proof -
  obtain r where r: "backward_chain_inner hash kb n goal {} = Some (r, {})" "\<And>p. r = Some p \<Longrightarrow> derives kb n goal"
    using inner_ok [OF assms(1), of n hash] assms(2,3) unfolding prover_ok_def by blast
  have "r \<noteq> None" if "derives kb n goal"
    using inner_complete [OF assms(1,3-5,2) that, of n "{}"] r(1) by auto
  then show ?thesis using r by (auto simp: backward_chain_def)
qed

theorem backward_chain_decides_witness:
  "\<exists>r. backward_chain (\<lambda>f. if f = Atom 0 [Constant 1] then 1 else 2) even_kb (Atom 3 [Constant 1]) 2 = Some r \<and> r \<noteq> None"
proof -
  let ?G = "{Atom 3 [Constant 1], Atom 0 [Constant 1]}"
  have fact: "derives even_kb (Suc 0) (finst Variable (Atom 0 [Constant 1]))"
    by (rule derives_fact) (simp_all add: even_kb_def)
  have "derives even_kb (Suc (Suc 0)) (finst (\<lambda>_. Constant 1) (Atom 3 [Variable 0]))"
    by (rule derives_rule [where a = "Atom 0 [Variable 0]"])
      (use fact in \<open>auto simp: even_kb_def conjuncts_def\<close>)
  then have d: "derives even_kb 2 (Atom 3 [Constant 1])" by (simp add: numeral_2_eq_2)
  have "subgoals_closed even_kb ?G" by (auto simp: subgoals_closed_def even_kb_def conjuncts_def)
  then show ?thesis
    using backward_chain_decides [OF even_kb_safe, of "Atom 3 [Constant 1]" ?G
        "\<lambda>f. if f = Atom 0 [Constant 1] then 1 else 2" 2] d
    by (auto simp: ground_def)
qed

text \<open>Facts and a rule that share the variable 0.\<close>

definition shared_kb :: knowledge_base where
  "shared_kb =
     \<lparr>facts = [Atom 1 [Compound 9 [Variable 0], Variable 0], Atom 2 [Compound 9 [Constant 5]]],
      rules = [Implies (And [Atom 1 [Variable 1, Constant 6], Atom 2 [Variable 1]]) (Atom 3 [Variable 0, Variable 1])]\<rparr>"

text \<open>
  C18. Backward chaining is not sound in general: variables of different rules and facts are not
  kept apart, and there is a knowledge base, all of whose facts and rules hold in an
  interpretation, from which it proves a goal with a conclusion that does not hold there.
\<close>

theorem backward_chain_unsound:
  assumes "hash (Atom 1 [Variable 1, Constant 6]) \<noteq> hash (Atom 3 [Constant 5, Variable 7])"
    and "hash (Atom 2 [Compound 9 [Constant 5]]) \<noteq> hash (Atom 3 [Constant 5, Variable 7])"
  shows "\<exists>p (I :: fol_term interp). backward_chain hash shared_kb (Atom 3 [Constant 5, Variable 7]) 2 = Some (Some p) \<and>
     (\<forall>f \<in> set (facts shared_kb) \<union> set (rules shared_kb). valid I f) \<and> \<not> valid I (step_conclusion (root p))"
proof -
  have two: "(2 :: nat) = Suc (Suc 0)" by simp
  let ?I = "\<lparr>i_const = Constant, i_fun = Compound,
     i_pred = (\<lambda>q xs. q = 1 \<and> (\<exists>t. xs = [Compound 9 [t], t]) \<or> q = 2 \<and> xs = [Compound 9 [Constant 5]])\<rparr> :: fol_term interp"
  have "\<exists>p. backward_chain hash shared_kb (Atom 3 [Constant 5, Variable 7]) 2 = Some (Some p) \<and>
      step_conclusion (root p) = Atom 3 [Constant 5, Compound 9 [Constant 6]]"
    unfolding two using assms by (simp add: backward_chain_def shared_kb_def unify_with_sub.simps apply_sub_def
      substitute.simps Let_def conjuncts_def compose_def derived_step_def)
  then obtain p where p: "backward_chain hash shared_kb (Atom 3 [Constant 5, Variable 7]) 2 = Some (Some p)"
    "step_conclusion (root p) = Atom 3 [Constant 5, Compound 9 [Constant 6]]" by blast
  have "\<forall>f \<in> set (facts shared_kb) \<union> set (rules shared_kb). valid ?I f"
    by (auto simp: shared_kb_def valid_def)
  moreover have "\<not> valid ?I (step_conclusion (root p))" by (simp add: p(2) valid_def)
  ultimately show ?thesis using p(1) by blast
qed

theorem backward_chain_unsound_witness:
  "\<exists>p (I :: fol_term interp).
     backward_chain (\<lambda>f. if f = Atom 3 [Constant 5, Variable 7] then 0 else 1) shared_kb (Atom 3 [Constant 5, Variable 7]) 2 = Some (Some p) \<and>
     \<not> valid I (step_conclusion (root p))"
  using backward_chain_unsound [of "\<lambda>f. if f = Atom 3 [Constant 5, Variable 7] then 0 else 1"] by auto

text \<open>
  Two variables that are bound to each other by different steps make the substitution cyclic, and
  the call does not return.
\<close>

lemma backward_chain_loops:
  assumes "hash (Atom 0 [Variable 0]) \<noteq> hash (Atom 1 [Variable 1])"
  shows "backward_chain hash \<lparr>facts = [Atom 0 [Variable 1]], rules = [Implies (Atom 0 [Variable 0]) (Atom 1 [Variable 0])]\<rparr>
    (Atom 1 [Variable 1]) 2 = None"
proof -
  have two: "(2 :: nat) = Suc (Suc 0)" by simp
  have "substitute [(1, Variable 1), (0, Variable 1)] (Variable 1) = None" by (rule substitute_self_loops) simp
  then show ?thesis
    unfolding two using assms by (simp add: backward_chain_def unify_with_sub.simps apply_sub_def
      substitute.simps [of "[]"] substitute.simps [of "[(1, Variable 0)]"] substitute.simps [of "[(0, Variable 1)]"]
      Let_def conjuncts_def compose_def)
qed

end
