(* ===== verification/Abduction.thy ===== *)
theory Abduction
  imports KnowledgeBase
begin

text \<open>
  Abduction and inductive generalization
  (\<open>aether-core/crates/aether-logic/src/abduction.rs\<close> and \<open>induction.rs\<close>). The floating-point
  operations of the scores and the hash of a term are parameters; the counter of fresh variables,
  a global atomic, is threaded as state.
\<close>

section \<open>Scores\<close>

record 'f float_ops =
  f_add :: "'f \<Rightarrow> 'f \<Rightarrow> 'f"
  f_mul :: "'f \<Rightarrow> 'f \<Rightarrow> 'f"
  f_div :: "'f \<Rightarrow> 'f \<Rightarrow> 'f"
  f_min :: "'f \<Rightarrow> 'f \<Rightarrow> 'f"
  f_less :: "'f \<Rightarrow> 'f \<Rightarrow> bool"
  f_of_nat :: "nat \<Rightarrow> 'f"
  f_tenths :: "nat \<Rightarrow> 'f" \<comment> \<open>the literals 0.3, 0.4 and 0.5\<close>

fun term_size :: "fol_term \<Rightarrow> nat" where
  "term_size (Variable v) = 1"
| "term_size (Constant c) = 1"
| "term_size (Compound f args) = 1 + sum_list (map term_size args)"

fun formula_size :: "formula \<Rightarrow> nat" where
  "formula_size (Atom p terms) = sum_list (map term_size terms) + 1"
| "formula_size (Not f) = formula_size f + 1"
| "formula_size (And fs) = sum_list (map formula_size fs) + 1"
| "formula_size (Or fs) = sum_list (map formula_size fs) + 1"
| "formula_size (Implies a b) = formula_size a + formula_size b + 1"
| "formula_size (ForAll v f) = formula_size f + 1"
| "formula_size (Exists v f) = formula_size f + 1"

definition simplicity_score :: "'f float_ops \<Rightarrow> formula \<Rightarrow> 'f" where
  "simplicity_score F f =
     f_div F (f_of_nat F 1)
       (f_add F (f_add F (f_of_nat F 1) (f_of_nat F (formula_size f)))
          (f_mul F (f_of_nat F (card (free_variables f))) (f_tenths F 5)))"

text \<open>Does the formula unify with one of the facts?\<close>

fun unifies_with_any :: "formula \<Rightarrow> formula list \<Rightarrow> bool option" where
  "unifies_with_any f [] = Some False"
| "unifies_with_any f (g # gs) =
     do { r \<leftarrow> unify_atoms f g; if r = None then unifies_with_any f gs else Some True }"

definition consistency_score :: "'f float_ops \<Rightarrow> formula \<Rightarrow> knowledge_base \<Rightarrow> 'f option" where
  "consistency_score F hypothesis kb =
     do { b \<leftarrow> unifies_with_any (negate hypothesis) (facts kb);
          Some (if b then f_of_nat F 0 else f_of_nat F 1) }"

fun explained_facts :: "formula \<Rightarrow> formula \<Rightarrow> formula list \<Rightarrow> formula list option" where
  "explained_facts derived observation [] = Some []"
| "explained_facts derived observation (g # gs) =
     do { r \<leftarrow> unify_atoms derived g;
          q \<leftarrow> unify_atoms derived observation;
          rest \<leftarrow> explained_facts derived observation gs;
          Some (if r \<noteq> None \<and> q = None then g # rest else rest) }"

fun explained_by_rules :: "formula \<Rightarrow> formula list \<Rightarrow> formula list \<Rightarrow> formula \<Rightarrow> formula list option" where
  "explained_by_rules hypothesis [] fs observation = Some []"
| "explained_by_rules hypothesis (rule # rs) fs observation =
     (case rule of
        Implies antecedent consequent \<Rightarrow>
          do { r \<leftarrow> unify_atoms hypothesis antecedent;
               here \<leftarrow> (case r of
                  Some sub \<Rightarrow> do { derived \<leftarrow> fsubst sub consequent; explained_facts derived observation fs }
                | None \<Rightarrow> Some []);
               rest \<leftarrow> explained_by_rules hypothesis rs fs observation;
               Some (here @ rest) }
      | _ \<Rightarrow> explained_by_rules hypothesis rs fs observation)"

definition explanatory_power :: "'f float_ops \<Rightarrow> formula \<Rightarrow> knowledge_base \<Rightarrow> formula \<Rightarrow> ('f \<times> formula list) option" where
  "explanatory_power F hypothesis kb observation =
     do { explained \<leftarrow> explained_by_rules hypothesis (rules kb) (facts kb) observation;
          Some (if facts kb = [] then f_of_nat F 0
                else f_min F (f_div F (f_of_nat F (length explained)) (f_of_nat F (length (facts kb)))) (f_of_nat F 1),
                explained) }"

section \<open>Hypotheses\<close>

record 'f hypothesis =
  h_formula :: formula
  h_score :: 'f
  h_explains :: "formula list"
  h_observation :: formula

fun abduce_rules :: "'f float_ops \<Rightarrow> knowledge_base \<Rightarrow> formula \<Rightarrow> formula list \<Rightarrow> 'f hypothesis list option" where
  "abduce_rules F kb observation [] = Some []"
| "abduce_rules F kb observation (rule # rs) =
     (case rule of
        Implies antecedent consequent \<Rightarrow>
          do { r \<leftarrow> unify_atoms observation consequent;
               case r of
                 None \<Rightarrow> abduce_rules F kb observation rs
               | Some sub \<Rightarrow>
                   do { h \<leftarrow> fsubst sub antecedent;
                        if h = observation then abduce_rules F kb observation rs
                        else do { known \<leftarrow> unifies_with_any h (facts kb);
                                  if known then abduce_rules F kb observation rs
                                  else do { consistency \<leftarrow> consistency_score F h kb;
                                            (explanatory, explains) \<leftarrow> explanatory_power F h kb observation;
                                            rest \<leftarrow> abduce_rules F kb observation rs;
                                            Some (\<lparr>h_formula = h,
                                                   h_score = f_add F (f_add F (f_mul F (simplicity_score F h) (f_tenths F 4))
                                                     (f_mul F consistency (f_tenths F 3))) (f_mul F explanatory (f_tenths F 3)),
                                                   h_explains = explains, h_observation = observation\<rparr> # rest) } } } }
      | _ \<Rightarrow> abduce_rules F kb observation rs)"

text \<open>The stable sort by decreasing score.\<close>

fun insert_by_score :: "'f float_ops \<Rightarrow> 'f hypothesis \<Rightarrow> 'f hypothesis list \<Rightarrow> 'f hypothesis list" where
  "insert_by_score F h [] = [h]"
| "insert_by_score F h (x # xs) =
     (if f_less F (h_score h) (h_score x) then x # insert_by_score F h xs else h # x # xs)"

definition sort_by_score :: "'f float_ops \<Rightarrow> 'f hypothesis list \<Rightarrow> 'f hypothesis list" where
  "sort_by_score F hs = foldr (insert_by_score F) hs []"

definition abduce :: "'f float_ops \<Rightarrow> knowledge_base \<Rightarrow> formula \<Rightarrow> 'f hypothesis list option" where
  "abduce F kb observation = map_option (sort_by_score F) (abduce_rules F kb observation (rules kb))"

section \<open>What the hypotheses explain\<close>

lemma unifies_with_any_returns: "\<exists>b. unifies_with_any f gs = Some b \<and> (b \<longleftrightarrow> (\<exists>g \<in> set gs. \<exists>s. unify_atoms f g = Some (Some s)))"
proof (induction gs)
  case (Cons g gs)
  obtain r where "unify_atoms f g = Some r" using unify_atoms_correct by blast
  then show ?case using Cons by (cases r) auto
qed auto

lemma explained_facts_returns: "\<exists>gs'. explained_facts d ob gs = Some gs' \<and> set gs' \<subseteq> set gs"
proof (induction gs)
  case (Cons g gs)
  obtain r q where "unify_atoms d g = Some r" "unify_atoms d ob = Some q" using unify_atoms_correct by meson
  then show ?case using Cons by auto
qed simp

lemma unify_atoms_E:
  obtains "unify_atoms f g = Some None"
  | s where "unify_atoms f g = Some (Some s)" "acyclic_sub s" "quantifier_free f" "quantifier_free g" "finst (full s) f = finst (full s) g"
proof -
  obtain r where r: "unify_atoms f g = Some r" "formulas_unified f g r" using unify_atoms_correct by blast
  show thesis
  proof (cases r)
    case None
    then show thesis using that(1) r(1) by simp
  next
    case (Some s)
    then have s: "acyclic_sub s" "\<And>\<theta>. solves \<theta> s \<longleftrightarrow> finst \<theta> f = finst \<theta> g" using r(2) by (auto simp: formulas_unified_def)
    then have "finst (full s) f = finst (full s) g" using full_solves by blast
    then show thesis using that(2) [of s] r Some s(1) by (simp add: formulas_unified_def)
  qed
qed

lemma explained_by_rules_returns: "\<exists>gs. explained_by_rules h rs fs ob = Some gs \<and> set gs \<subseteq> set fs"
proof (induction rs)
  case (Cons rule rs)
  show ?case
  proof (cases "\<exists>a c. rule = Implies a c")
    case True
    then obtain a c where rule: "rule = Implies a c" by blast
    show ?thesis
    proof (cases rule: unify_atoms_E [of h a])
      case 1
      then show ?thesis using Cons rule by auto
    next
      case (2 s)
      obtain d where "fsubst s c = Some d" using fsubst_returns [OF 2(2), of c] by blast
      moreover obtain gs where "explained_facts d ob fs = Some gs" "set gs \<subseteq> set fs" using explained_facts_returns by blast
      ultimately show ?thesis using Cons rule 2(1) by auto
    qed
  next
    case False
    then show ?thesis using Cons by (cases rule) auto
  qed
qed simp

lemma set_sort_by_score: "set (sort_by_score F hs) = set hs" "length (sort_by_score F hs) = length hs"
proof -
  have "set (insert_by_score F h xs) = insert h (set xs) \<and> length (insert_by_score F h xs) = Suc (length xs)" for h xs
    by (induction xs) auto
  then show "set (sort_by_score F hs) = set hs" "length (sort_by_score F hs) = length hs"
    unfolding sort_by_score_def by (induction hs) auto
qed

text \<open>A hypothesis is the instance of the condition of a rule whose conclusion unifies with the observation.\<close>

definition explains_by :: "formula list \<Rightarrow> formula \<Rightarrow> formula \<Rightarrow> bool" where
  "explains_by rs ob h \<longleftrightarrow> (\<exists>a c s. Implies a c \<in> set rs \<and> acyclic_sub s \<and> quantifier_free ob \<and> quantifier_free c \<and>
     finst (full s) ob = finst (full s) c \<and> fsubst s a = Some h)"

definition hypothesis_ok :: "knowledge_base \<Rightarrow> formula list \<Rightarrow> formula \<Rightarrow> 'f hypothesis \<Rightarrow> bool" where
  "hypothesis_ok kb rs ob h \<longleftrightarrow> explains_by rs ob (h_formula h) \<and> h_formula h \<noteq> ob \<and> h_observation h = ob \<and>
     set (h_explains h) \<subseteq> set (facts kb) \<and> (\<forall>g \<in> set (facts kb). unify_atoms (h_formula h) g = Some None)"

lemma hypothesis_ok_Cons: "hypothesis_ok kb rs ob h \<Longrightarrow> hypothesis_ok kb (r # rs) ob h"
  by (auto simp: hypothesis_ok_def explains_by_def)

lemma abduce_rules_ok: "\<exists>hs. abduce_rules F kb ob rs = Some hs \<and> (\<forall>h \<in> set hs. hypothesis_ok kb rs ob h)"
proof (induction rs)
  case (Cons rule rs)
  then obtain hs where hs: "abduce_rules F kb ob rs = Some hs" "\<forall>h \<in> set hs. hypothesis_ok kb (rule # rs) ob h"
    using hypothesis_ok_Cons by blast
  show ?case
  proof (cases "\<exists>a c. rule = Implies a c")
    case True
    then obtain a c where rule: "rule = Implies a c" by blast
    show ?thesis
    proof (cases rule: unify_atoms_E [of ob c])
      case 1
      then show ?thesis using hs rule by auto
    next
      case (2 s)
      obtain h where h: "fsubst s a = Some h" using fsubst_returns [OF 2(2), of a] by blast
      obtain b where b: "unifies_with_any h (facts kb) = Some b"
        "b \<longleftrightarrow> (\<exists>g \<in> set (facts kb). \<exists>s. unify_atoms h g = Some (Some s))" using unifies_with_any_returns by blast
      obtain n where n: "unifies_with_any (negate h) (facts kb) = Some n" using unifies_with_any_returns by blast
      obtain gs where gs: "explained_by_rules h (rules kb) (facts kb) ob = Some gs" "set gs \<subseteq> set (facts kb)"
        using explained_by_rules_returns by blast
      show ?thesis
      proof (cases "h = ob \<or> b")
        case True
        then show ?thesis using hs rule 2(1) h b(1) by auto
      next
        case False
        have "unify_atoms h g = Some None" if "g \<in> set (facts kb)" for g
          using b(2) False that by (cases rule: unify_atoms_E [of h g]) auto
        then have ok: "hypothesis_ok kb (rule # rs) ob \<lparr>h_formula = h, h_score = x, h_explains = gs, h_observation = ob\<rparr>" for x
          using False gs(2) rule 2 h unfolding hypothesis_ok_def explains_by_def by auto
        show ?thesis using False hs rule 2(1) h b(1) n gs(1) ok
          by (auto simp: consistency_score_def explanatory_power_def)
      qed
    qed
  next
    case False
    then show ?thesis using hs by (cases rule) auto
  qed
qed simp

text \<open>
  Abduction returns, and its hypotheses explain the observation: each is an unknown formula
  other than the observation, and in an interpretation in which the rules hold, if it holds
  for every value of its variables then so does an instance of the observation.
\<close>

theorem abduce_explains:
  assumes "\<forall>r \<in> set (rules kb). quantifier_free r \<and> valid I r"
  shows "\<exists>hs. abduce F kb observation = Some hs \<and> (\<forall>h \<in> set hs. h_formula h \<noteq> observation \<and>
    (\<forall>g \<in> set (facts kb). unify_atoms (h_formula h) g = Some None) \<and>
    (valid I (h_formula h) \<longrightarrow> (\<exists>\<theta>. valid I (finst \<theta> observation))))"
proof -
  have "valid I (finst (full s) ob)"
    if "Implies a c \<in> set (rules kb)" "acyclic_sub s" "quantifier_free c" "finst (full s) ob = finst (full s) c"
      "fsubst s a = Some h" "valid I h" for a c s h ob
  proof -
    have q: "quantifier_free (Implies a c)" "valid I (Implies a c)" using assms that(1) by blast+
    then have "valid I (finst (full s) (Implies a c))" by (rule valid_finst)
    then show ?thesis using that(4-6) fsubst_finst [OF that(2), of a] q(1) by (auto simp: valid_def)
  qed
  then have ex: "\<exists>\<theta>. valid I (finst \<theta> observation)" if "explains_by (rules kb) observation h" "valid I h" for h
    using that unfolding explains_by_def by blast
  obtain hs where "abduce_rules F kb observation (rules kb) = Some hs"
    "\<forall>h \<in> set hs. hypothesis_ok kb (rules kb) observation h" using abduce_rules_ok by blast
  then show ?thesis using ex by (auto simp: abduce_def hypothesis_ok_def set_sort_by_score)
qed

definition nat_ops :: "nat float_ops" where
  "nat_ops = \<lparr>f_add = (+), f_mul = (*), f_div = (div), f_min = min, f_less = (<), f_of_nat = (\<lambda>n. n), f_tenths = (\<lambda>n. n)\<rparr>"

theorem abduce_explains_witness:
  "\<exists>hs. abduce nat_ops even_kb (Atom 3 [Constant 5]) = Some hs \<and> (\<forall>h \<in> set hs. h_formula h \<noteq> Atom 3 [Constant 5])"
proof -
  have "\<forall>r \<in> set (rules even_kb). quantifier_free r \<and> valid even_interp r"
    by (simp add: even_kb_def valid_def even_interp_def)
  from abduce_explains [OF this] show ?thesis by blast
qed

text \<open>
  A contradiction is never noticed: whatever the facts, a hypothesis that is not itself a
  negation has the full consistency score, because its negation is a formula that never unifies
  with a fact. A known fact that denies the hypothesis makes no difference.
\<close>

theorem consistency_never_fails:
  "consistency_score F (Atom p args) \<lparr>facts = Not (Atom p args) # fs, rules = rs\<rparr> = Some (f_of_nat F 1)"
proof -
  have "unify_atoms (Not f) g = Some None" for f g by simp
  then have "unifies_with_any (Not f) gs = Some False" for f gs by (induction gs) auto
  then show ?thesis by (simp add: consistency_score_def)
qed

section \<open>Anti-unification\<close>

record anti_state =
  next_var :: u32 \<comment> \<open>the global counter\<close>
  var_map :: "(u32 \<times> fol_term list) list"
  memo :: "((u64 \<times> u64) \<times> u32) list"

definition FRESH_VAR_START :: u32 where
  "FRESH_VAR_START = 10000"

definition generalize_pair :: "(fol_term \<Rightarrow> u64) \<Rightarrow> fol_term \<Rightarrow> fol_term \<Rightarrow> anti_state \<Rightarrow> fol_term \<times> anti_state" where
  "generalize_pair hash t1 t2 st =
     (let key = (hash t1, hash t2)
      in case map_of (memo st) key of
           Some var_id \<Rightarrow> (Variable var_id, st)
         | None \<Rightarrow>
             (let var_id = next_var st
              in (Variable var_id,
                  st\<lparr>next_var := var_id + 1, memo := (key, var_id) # memo st,
                     var_map := (var_id, [t1, t2]) # var_map st\<rparr>)))"

fun anti_unify_inner :: "(fol_term \<Rightarrow> u64) \<Rightarrow> fol_term \<Rightarrow> fol_term \<Rightarrow> anti_state \<Rightarrow> fol_term \<times> anti_state"
  and anti_unify_list :: "(fol_term \<Rightarrow> u64) \<Rightarrow> fol_term list \<Rightarrow> fol_term list \<Rightarrow> anti_state \<Rightarrow> fol_term list \<times> anti_state"
where
  "anti_unify_inner hash t1 t2 st =
     (if t1 = t2 then (t1, st)
      else (case (t1, t2) of
              (Compound f1 args1, Compound f2 args2) \<Rightarrow>
                if f1 = f2 \<and> length args1 = length args2
                then (let (new_args, st') = anti_unify_list hash args1 args2 st in (Compound f1 new_args, st'))
                else generalize_pair hash t1 t2 st
            | _ \<Rightarrow> generalize_pair hash t1 t2 st))"
| "anti_unify_list hash (a1 # as1) (a2 # as2) st =
     (let (t, st') = anti_unify_inner hash a1 a2 st; (ts, st'') = anti_unify_list hash as1 as2 st' in (t # ts, st''))"
| "anti_unify_list hash _ _ st = ([], st)"

declare anti_unify_inner.simps [simp del]

definition anti_unify :: "(fol_term \<Rightarrow> u64) \<Rightarrow> fol_term \<Rightarrow> fol_term \<Rightarrow> u32 \<Rightarrow> (fol_term \<times> (u32 \<times> fol_term list) list) \<times> u32" where
  "anti_unify hash t1 t2 counter =
     (let (result, st) = anti_unify_inner hash t1 t2 \<lparr>next_var = counter, var_map = [], memo = []\<rparr>
      in ((result, var_map st), next_var st))"

fun anti_unify_atoms ::
  "(fol_term \<Rightarrow> u64) \<Rightarrow> formula \<Rightarrow> formula \<Rightarrow> u32 \<Rightarrow> (formula \<times> (u32 \<times> fol_term list) list) option \<times> u32" where
  "anti_unify_atoms hash (Atom p1 args1) (Atom p2 args2) counter =
     (if p1 = p2 \<and> length args1 = length args2
      then (let (args, st) = anti_unify_list hash args1 args2 \<lparr>next_var = counter, var_map = [], memo = []\<rparr>
            in (Some (Atom p1 args, var_map st), next_var st))
      else (None, counter))"
| "anti_unify_atoms hash _ _ counter = (None, counter)"

text \<open>
  The generalization of a group of atoms with the same predicate and arity: the fold of
  anti-unification over the group, and the quantification over the variables that are left. The
  orders in which the sets and maps are iterated are parameters.
\<close>

definition extend_instance :: "u32 \<times> fol_term list \<Rightarrow> (u32 \<times> fol_term list) list \<Rightarrow> (u32 \<times> fol_term list) list" where
  "extend_instance p combined =
     (case map_of combined (fst p) of
        None \<Rightarrow> combined @ [p]
      | Some _ \<Rightarrow> map (\<lambda>(v, ts). if v = fst p then (v, ts @ snd p) else (v, ts)) combined)"

fun generalize_group ::
  "(fol_term \<Rightarrow> u64) \<Rightarrow> formula \<Rightarrow> formula list \<Rightarrow> (u32 \<times> fol_term list) list \<Rightarrow> u32 \<Rightarrow>
   (formula \<times> (u32 \<times> fol_term list) list) \<times> u32"
where
  "generalize_group hash current [] combined counter = ((current, combined), counter)"
| "generalize_group hash current (other # rest) combined counter =
     (case anti_unify_atoms hash current other counter of
        (Some (generalized, vars), counter') \<Rightarrow>
          generalize_group hash generalized rest (fold extend_instance vars combined) counter'
      | (None, counter') \<Rightarrow> generalize_group hash current rest combined counter')"

record generalization =
  g_formula :: formula
  g_coverage :: nat
  g_total_examples :: nat
  g_instances :: "(u32 \<times> fol_term list) list"

definition induce_group ::
  "(fol_term \<Rightarrow> u64) \<Rightarrow> (u32 set \<Rightarrow> u32 list) \<Rightarrow> nat \<Rightarrow> formula list \<Rightarrow> u32 \<Rightarrow> generalization option \<times> u32" where
  "induce_group hash var_order total_examples members counter =
     (if length members < 2 then (None, counter)
      else (let ((current, combined), counter') = generalize_group hash (hd members) (tl members) [] counter
            in (Some \<lparr>g_formula = foldl (\<lambda>f v. ForAll v f) current (var_order (free_variables current)),
                      g_coverage = length members, g_total_examples = total_examples, g_instances = combined\<rparr>, counter')))"

fun induce_groups ::
  "(fol_term \<Rightarrow> u64) \<Rightarrow> (u32 set \<Rightarrow> u32 list) \<Rightarrow> nat \<Rightarrow> formula list list \<Rightarrow> u32 \<Rightarrow> generalization list \<times> u32" where
  "induce_groups hash var_order total_examples [] counter = ([], counter)"
| "induce_groups hash var_order total_examples (members # rest) counter =
     (let (r, counter') = induce_group hash var_order total_examples members counter;
          (results, counter'') = induce_groups hash var_order total_examples rest counter'
      in (case r of Some g \<Rightarrow> g # results | None \<Rightarrow> results, counter''))"

fun add_to_group :: "formula \<Rightarrow> ((symbol \<times> nat) \<times> formula list) list \<Rightarrow> ((symbol \<times> nat) \<times> formula list) list" where
  "add_to_group ex groups =
     (case atom_predicate ex of
        None \<Rightarrow> groups
      | Some key \<Rightarrow>
          (case map_of groups key of
             None \<Rightarrow> groups @ [(key, [ex])]
           | Some _ \<Rightarrow> map (\<lambda>(k, g). if k = key then (k, g @ [ex]) else (k, g)) groups))"

definition ranks_before :: "generalization \<Rightarrow> generalization \<Rightarrow> bool" where
  "ranks_before a b \<longleftrightarrow> g_coverage b < g_coverage a \<or>
     g_coverage a = g_coverage b \<and> card (free_variables (g_formula a)) < card (free_variables (g_formula b))"

fun insert_ranked :: "generalization \<Rightarrow> generalization list \<Rightarrow> generalization list" where
  "insert_ranked g [] = [g]"
| "insert_ranked g (x # xs) = (if ranks_before x g then x # insert_ranked g xs else g # x # xs)"

definition induce ::
  "(fol_term \<Rightarrow> u64) \<Rightarrow> (u32 set \<Rightarrow> u32 list) \<Rightarrow> (formula list list \<Rightarrow> formula list list) \<Rightarrow> formula list \<Rightarrow> u32 \<Rightarrow>
   generalization list \<times> u32"
where
  "induce hash var_order group_order examples counter =
     (if examples = [] then ([], counter)
      else (let groups = group_order (map snd (fold add_to_group examples []));
                (results, counter') = induce_groups hash var_order (length examples) groups counter
            in (foldr insert_ranked results [], counter')))"

section \<open>Anti-unification gives the least general generalization\<close>

lemma size_zip_arg [termination_simp]: "(a, b) \<in> set (zip xs ys) \<Longrightarrow> size a < Suc (size_list size xs)"
  using size_list_estimation' [of a xs "size a" size] by (auto dest: set_zip_leftD)

text \<open>The generalization as a function of the variable chosen for each pair of terms.\<close>

function lgg :: "(fol_term \<Rightarrow> fol_term \<Rightarrow> u32) \<Rightarrow> fol_term \<Rightarrow> fol_term \<Rightarrow> fol_term" where
  "lgg \<phi> t1 t2 =
     (if t1 = t2 then t1
      else (case (t1, t2) of
              (Compound f1 args1, Compound f2 args2) \<Rightarrow>
                if f1 = f2 \<and> length args1 = length args2 then Compound f1 (map (\<lambda>(a, b). lgg \<phi> a b) (zip args1 args2))
                else Variable (\<phi> t1 t2)
            | _ \<Rightarrow> Variable (\<phi> t1 t2)))"
  by pat_completeness auto

termination
  by (relation "measure (\<lambda>(\<phi>, t1, t2). size t1)") (simp, clarify, simp add: size_zip_arg)

declare lgg.simps [simp del]

lemma lgg_same [simp]: "lgg \<phi> t t = t"
  by (simp add: lgg.simps)

lemma lgg_Compound:
  "length as1 = length bs \<Longrightarrow>
   lgg \<phi> (Compound f as1) (Compound f bs) = Compound f (map (\<lambda>(a, b). lgg \<phi> a b) (zip as1 bs))"
proof (cases "as1 = bs")
  case True
  have "map (\<lambda>(a, b). lgg \<phi> a b) (zip bs bs) = bs" by (induction bs) auto
  then show ?thesis using True by simp
next
  case False
  assume "length as1 = length bs"
  with False show ?thesis by (subst lgg.simps) simp
qed

lemma lgg_inst: "lgg \<phi> (inst \<sigma>1 g) (inst \<sigma>2 g) = inst (\<lambda>v. lgg \<phi> (\<sigma>1 v) (\<sigma>2 v)) g"
proof (induction g)
  case (Compound f args)
  then have "map (\<lambda>(a, b). lgg \<phi> a b) (zip (map (inst \<sigma>1) args) (map (inst \<sigma>2) args)) =
      map (inst (\<lambda>v. lgg \<phi> (\<sigma>1 v) (\<sigma>2 v))) args"
    by (induction args) auto
  then show ?case by (simp add: lgg_Compound)
qed simp_all

definition one_each :: "(u32 \<times> fol_term list) list \<Rightarrow> bool" where
  "one_each V \<longleftrightarrow> distinct (map fst V) \<and> distinct (map snd V)"

text \<open>
  The state of a run that starts at counter \<open>c\<close>: the memo is the hashed image of the map, the
  variables are distinct and at or above \<open>c\<close>, and the pairs are distinct terms of \<open>T\<close>.
\<close>

definition anti_ok :: "(fol_term \<Rightarrow> u64) \<Rightarrow> fol_term set \<Rightarrow> nat \<Rightarrow> anti_state \<Rightarrow> bool" where
  "anti_ok hash T c st \<longleftrightarrow>
     memo st = map (\<lambda>(v, ts). ((hash (ts ! 0), hash (ts ! 1)), v)) (var_map st) \<and>
     one_each (var_map st) \<and> unat (next_var st) = c + length (var_map st) \<and>
     (\<forall>(v, ts) \<in> set (var_map st). c \<le> unat v \<and> unat v < unat (next_var st) \<and>
        (\<exists>a \<in> T. \<exists>b \<in> T. ts = [a, b]))"

definition chosen :: "(u32 \<times> fol_term list) list \<Rightarrow> fol_term \<Rightarrow> fol_term \<Rightarrow> u32" where
  "chosen V a b = (case find (\<lambda>p. snd p = [a, b]) V of Some p \<Rightarrow> fst p | None \<Rightarrow> 0)"

text \<open>The substitutions that give the first and the second term back.\<close>

definition side :: "nat \<Rightarrow> (u32 \<times> fol_term list) list \<Rightarrow> u32 \<Rightarrow> fol_term" where
  "side k V v = (case map_of V v of Some ts \<Rightarrow> ts ! k | None \<Rightarrow> Variable v)"

lemma chosen_member: "one_each V \<Longrightarrow> (v, [a, b]) \<in> set V \<Longrightarrow> chosen V a b = v"
proof -
  assume V: "one_each V" "(v, [a, b]) \<in> set V"
  obtain p where p: "find (\<lambda>p. snd p = [a, b]) V = Some p"
    using V(2) find_None_iff [of "\<lambda>p. snd p = [a, b]" V] by fastforce
  then have "p \<in> set V" "snd p = [a, b]" using find_Some_iff [of "\<lambda>p. snd p = [a, b]" V p] by auto
  then have "p = (v, [a, b])" using V inj_onD [of snd "set V" p "(v, [a, b])"] by (simp add: one_each_def distinct_map)
  then show ?thesis using p by (simp add: chosen_def)
qed

lemma side_member: "one_each V \<Longrightarrow> (v, ts) \<in> set V \<Longrightarrow> side k V v = ts ! k"
  by (simp add: side_def one_each_def)

text \<open>
  \<open>G\<close> is what a run over a pair of terms or of argument lists leaves: the new entries are at most
  \<open>n\<close>, and over any larger map the result is the generalization and gives both sides back.
\<close>

definition run_ok :: "(fol_term \<Rightarrow> u64) \<Rightarrow> fol_term set \<Rightarrow> nat \<Rightarrow> nat \<Rightarrow> anti_state \<Rightarrow> anti_state \<Rightarrow> bool" where
  "run_ok hash T c n st st' \<longleftrightarrow>
     anti_ok hash T c st' \<and> (\<exists>new. var_map st' = new @ var_map st \<and> length new \<le> n)"

definition gives :: "anti_state \<Rightarrow> fol_term \<Rightarrow> fol_term \<Rightarrow> fol_term \<Rightarrow> bool" where
  "gives st g t1 t2 \<longleftrightarrow> (\<forall>V. one_each V \<longrightarrow> set (var_map st) \<subseteq> set V \<longrightarrow> g = lgg (chosen V) t1 t2 \<and>
     ((\<forall>v \<in> variables t1 \<union> variables t2. map_of V v = None) \<longrightarrow> inst (side 0 V) g = t1 \<and> inst (side 1 V) g = t2))"

lemma run_ok_trans: "run_ok hash T c n st st' \<Longrightarrow> run_ok hash T c m st' st'' \<Longrightarrow> run_ok hash T c (n + m) st st''"
  unfolding run_ok_def by fastforce

lemma gives_mono: "gives st g t1 t2 \<Longrightarrow> run_ok hash T c n st st' \<Longrightarrow> gives st' g t1 t2"
  unfolding gives_def run_ok_def by fastforce

lemma gives_same: "gives st t t t"
  unfolding gives_def by (auto simp: side_def intro!: inst_ident)

lemma generalize_pair_ok:
  assumes "anti_ok hash T c st" and "a \<in> T" and "b \<in> T" and "inj_on hash T" and "c + length (var_map st) + 1 < 2 ^ 32"
    and "\<And>\<phi>. lgg \<phi> a b = Variable (\<phi> a b)"
  shows "\<exists>g st'. generalize_pair hash a b st = (g, st') \<and> run_ok hash T c 1 st st' \<and> gives st' g a b"
proof -
  let ?key = "(hash a, hash b)"
  have inv: "memo st = map (\<lambda>(v, ts). ((hash (ts ! 0), hash (ts ! 1)), v)) (var_map st)" "one_each (var_map st)"
    "unat (next_var st) = c + length (var_map st)"
    "\<And>v ts. (v, ts) \<in> set (var_map st) \<Longrightarrow> c \<le> unat v \<and> unat v < unat (next_var st) \<and> (\<exists>a \<in> T. \<exists>b \<in> T. ts = [a, b])"
    using assms(1) unfolding anti_ok_def by blast+
  have gives: "gives st' (Variable v) a b" if "(v, [a, b]) \<in> set (var_map st')" for st' v
    unfolding gives_def using that assms(6) by (auto simp: chosen_member side_member)
  show ?thesis
  proof (cases "map_of (memo st) ?key")
    case (Some v)
    then obtain ts where ts: "(v, ts) \<in> set (var_map st)" "hash (ts ! 0) = hash a" "hash (ts ! 1) = hash b"
      unfolding inv(1) by (auto dest!: map_of_SomeD)
    obtain x y where "ts = [x, y]" "x \<in> T" "y \<in> T" using inv(4) [OF ts(1)] by blast
    then have "ts = [a, b]" using ts(2,3) assms(2-4) by (auto dest: inj_onD)
    then have "gives st (Variable v) a b" using gives ts(1) by simp
    then show ?thesis using Some assms(1) by (simp add: generalize_pair_def run_ok_def)
  next
    case None
    let ?v = "next_var st"
    let ?st = "st\<lparr>next_var := ?v + 1, memo := (?key, ?v) # memo st, var_map := (?v, [a, b]) # var_map st\<rparr>"
    have v: "unat (?v + 1) = unat ?v + 1"
      using inv(3) assms(5) unat_add_lem [of ?v 1] by simp
    have new: "?v \<notin> fst ` set (var_map st)" using inv(4) by fastforce
    have "[a, b] \<notin> snd ` set (var_map st)"
    proof
      assume "[a, b] \<in> snd ` set (var_map st)"
      then obtain w where "(w, [a, b]) \<in> set (var_map st)" by auto
      then have "(?key, w) \<in> set (memo st)" unfolding inv(1) by force
      then show False using None by (metis map_of_eq_None_iff fst_conv image_eqI)
    qed
    then have one: "one_each ((?v, [a, b]) # var_map st)" using inv(2) new by (simp add: one_each_def)
    have "anti_ok hash T c ?st"
      unfolding anti_ok_def using inv(1,3) one v assms(2,3) inv(4) by (auto simp: less_Suc_eq)
    moreover have "gives ?st (Variable ?v) a b" by (rule gives) simp
    ultimately show ?thesis using None by (simp add: generalize_pair_def run_ok_def Let_def)
  qed
qed

definition args_closed :: "fol_term set \<Rightarrow> bool" where
  "args_closed T \<longleftrightarrow> (\<forall>f args. Compound f args \<in> T \<longrightarrow> set args \<subseteq> T)"

lemma term_size_pos: "1 \<le> term_size t"
  by (cases t) auto

lemma gives_Compound:
  assumes "length as1 = length as2" and "length gs = length as1"
    and "list_all2 (\<lambda>g (a, b). gives st g a b) gs (zip as1 as2)"
  shows "gives st (Compound f gs) (Compound f as1) (Compound f as2)"
  unfolding gives_def
proof (intro allI impI)
  fix V assume V: "one_each V" "set (var_map st) \<subseteq> set V"
  have nth: "gives st (gs ! i) (as1 ! i) (as2 ! i)" if "i < length gs" for i
    using list_all2_nthD [OF assms(3) that] that assms(1,2) by simp
  then have l: "gs ! i = lgg (chosen V) (as1 ! i) (as2 ! i)" if "i < length gs" for i
    using that V unfolding gives_def by blast
  have "gs = map (\<lambda>(a, b). lgg (chosen V) a b) (zip as1 as2)"
    by (rule nth_equalityI) (use l assms(1,2) in auto)
  moreover have "map (inst (side 0 V)) gs = as1 \<and> map (inst (side 1 V)) gs = as2"
    if fresh: "\<forall>v \<in> variables (Compound f as1) \<union> variables (Compound f as2). map_of V v = None"
  proof -
    have "inst (side 0 V) (gs ! i) = as1 ! i \<and> inst (side 1 V) (gs ! i) = as2 ! i" if i: "i < length gs" for i
    proof -
      have "as1 ! i \<in> set as1" "as2 ! i \<in> set as2" using i assms(1,2) by simp_all
      then have "\<forall>v \<in> variables (as1 ! i) \<union> variables (as2 ! i). map_of V v = None" using fresh by auto
      then show ?thesis using nth [OF i] V unfolding gives_def by blast
    qed
    then show ?thesis using assms(1,2) by (auto intro!: nth_equalityI)
  qed
  ultimately show "Compound f gs = lgg (chosen V) (Compound f as1) (Compound f as2) \<and>
     ((\<forall>v \<in> variables (Compound f as1) \<union> variables (Compound f as2). map_of V v = None) \<longrightarrow>
        inst (side 0 V) (Compound f gs) = Compound f as1 \<and> inst (side 1 V) (Compound f gs) = Compound f as2)"
    using lgg_Compound [OF assms(1)] by simp
qed

lemma anti_unify_ok:
  assumes closed: "args_closed T"
  shows "inj_on hash T \<Longrightarrow> anti_ok hash T c st \<Longrightarrow> t1 \<in> T \<Longrightarrow> t2 \<in> T \<Longrightarrow> c + length (var_map st) + term_size t1 < 2 ^ 32 \<Longrightarrow>
      \<exists>g st'. anti_unify_inner hash t1 t2 st = (g, st') \<and> run_ok hash T c (term_size t1) st st' \<and> gives st' g t1 t2"
    and "inj_on hash T \<Longrightarrow> anti_ok hash T c st \<Longrightarrow> set as1 \<subseteq> T \<Longrightarrow> set as2 \<subseteq> T \<Longrightarrow> length as1 = length as2 \<Longrightarrow>
      c + length (var_map st) + sum_list (map term_size as1) < 2 ^ 32 \<Longrightarrow>
      \<exists>gs st'. anti_unify_list hash as1 as2 st = (gs, st') \<and> run_ok hash T c (sum_list (map term_size as1)) st st' \<and>
        length gs = length as1 \<and> list_all2 (\<lambda>g (a, b). gives st' g a b) gs (zip as1 as2)"
proof (induction hash t1 t2 st and hash as1 as2 st rule: anti_unify_inner_anti_unify_list.induct)
  case (1 hash t1 t2 st)
  consider "t1 = t2"
    | f as1 as2 where "t1 \<noteq> t2" "t1 = Compound f as1" "t2 = Compound f as2" "length as1 = length as2"
    | "t1 \<noteq> t2" "\<not> (\<exists>f as1 as2. t1 = Compound f as1 \<and> t2 = Compound f as2 \<and> length as1 = length as2)" by blast
  then show ?case
  proof cases
    case same: 1
    then show ?thesis using "1.prems"(2) by (auto simp: anti_unify_inner.simps run_ok_def gives_same)
  next
    case 2
    have sub: "set as1 \<subseteq> T" "set as2 \<subseteq> T" using closed "1.prems"(3,4) 2 by (auto simp: args_closed_def)
    have "c + length (var_map st) + sum_list (map term_size as1) < 2 ^ 32" using "1.prems"(5) 2 by simp
    then obtain gs st' where gs: "anti_unify_list hash as1 as2 st = (gs, st')" "run_ok hash T c (sum_list (map term_size as1)) st st'"
      "length gs = length as1" "list_all2 (\<lambda>g (a, b). gives st' g a b) gs (zip as1 as2)"
      using "1.IH" [OF _ _ 2(2,3)] "1.prems"(1,2) 2(1,4) sub by fastforce
    have "gives st' (Compound f gs) t1 t2" unfolding 2(2,3) by (rule gives_Compound [OF 2(4) gs(3,4)])
    moreover have "run_ok hash T c (term_size t1) st st'" using gs(2) 2(2) by (fastforce simp: run_ok_def)
    ultimately show ?thesis using 2 gs(1) by (simp add: anti_unify_inner.simps)
  next
    case 3
    have l: "lgg \<phi> t1 t2 = Variable (\<phi> t1 t2)" for \<phi>
      using 3 by (subst lgg.simps) (auto split: fol_term.splits)
    have inner: "anti_unify_inner hash t1 t2 st = generalize_pair hash t1 t2 st"
      using 3 by (subst anti_unify_inner.simps) (auto split: fol_term.splits)
    have "c + length (var_map st) + 1 < 2 ^ 32" using "1.prems"(5) term_size_pos [of t1] by linarith
    from generalize_pair_ok [OF "1.prems"(2-4,1) this l] obtain g st' where
      g: "generalize_pair hash t1 t2 st = (g, st')" "run_ok hash T c 1 st st'" "gives st' g t1 t2" by blast
    have "run_ok hash T c (term_size t1) st st'" using g(2) term_size_pos [of t1] by (fastforce simp: run_ok_def)
    then show ?thesis using g inner by simp
  qed
next
  case (2 hash a1 as1 a2 as2 st)
  have b: "c + length (var_map st) + term_size a1 < 2 ^ 32" using "2.prems"(6) by simp
  obtain g st1 where g: "anti_unify_inner hash a1 a2 st = (g, st1)" "run_ok hash T c (term_size a1) st st1" "gives st1 g a1 a2"
    using "2.IH"(1) [OF "2.prems"(1,2) _ _ b] "2.prems"(3,4) by auto
  have b': "c + length (var_map st1) + sum_list (map term_size as1) < 2 ^ 32"
    using "2.prems"(6) g(2) by (auto simp: run_ok_def)
  have ok1: "anti_ok hash T c st1" using g(2) by (simp add: run_ok_def)
  obtain gs st' where gs: "anti_unify_list hash as1 as2 st1 = (gs, st')" "run_ok hash T c (sum_list (map term_size as1)) st1 st'"
    "length gs = length as1" "list_all2 (\<lambda>g (a, b). gives st' g a b) gs (zip as1 as2)"
    using "2.IH"(2) [OF g(1) [symmetric] _ "2.prems"(1) ok1 _ _ _ b'] "2.prems"(3-5) by auto
  show ?case
    using g gs run_ok_trans [OF g(2) gs(2)] gives_mono [OF g(3) gs(2)] by simp
qed (auto simp: run_ok_def)

text \<open>
  C19. Anti-unification gives the least general generalization: with no hash collision among the
  subterms, no wrap of the counter and variables below it, the recorded terms give both inputs
  back, and every other common generalization of the inputs has the result as an instance.
\<close>

theorem anti_unify_is_lgg:
  assumes "inj_on hash T" and "args_closed T" and "t1 \<in> T" and "t2 \<in> T"
    and "unat counter + term_size t1 < 2 ^ 32" and "\<forall>v \<in> variables t1 \<union> variables t2. v < counter"
    and "anti_unify hash t1 t2 counter = ((g, vm), counter')"
  shows "inst (side 0 vm) g = t1 \<and> inst (side 1 vm) g = t2 \<and>
    (\<forall>g0 \<sigma>1 \<sigma>2. inst \<sigma>1 g0 = t1 \<longrightarrow> inst \<sigma>2 g0 = t2 \<longrightarrow> (\<exists>\<sigma>. inst \<sigma> g0 = g))"
proof -
  let ?st = "\<lparr>next_var = counter, var_map = [], memo = []\<rparr>"
  have ok: "anti_ok hash T (unat counter) ?st" by (simp add: anti_ok_def one_each_def)
  obtain g' st' where r: "anti_unify_inner hash t1 t2 ?st = (g', st')" "run_ok hash T (unat counter) (term_size t1) ?st st'"
    "gives st' g' t1 t2"
    using anti_unify_ok(1) [OF assms(2,1) ok assms(3,4)] assms(5) by auto
  have g: "g' = g" "var_map st' = vm" using assms(7) r(1) by (simp_all add: anti_unify_def)
  have inv: "one_each vm" "\<And>v ts. (v, ts) \<in> set vm \<Longrightarrow> unat counter \<le> unat v"
    using r(2) g(2) unfolding run_ok_def anti_ok_def by blast+
  have "map_of vm v = None" if "v \<in> variables t1 \<union> variables t2" for v
  proof (cases "map_of vm v")
    case (Some ts)
    then have "unat counter \<le> unat v" by (intro inv(2)) (rule map_of_SomeD)
    moreover have "unat v < unat counter" using assms(6) that unfolding word_less_nat_alt by blast
    ultimately show ?thesis by simp
  qed simp
  then have "inst (side 0 vm) g = t1 \<and> inst (side 1 vm) g = t2" and l: "g = lgg (chosen vm) t1 t2"
    using r(3) inv(1) g unfolding gives_def by auto
  moreover have "\<exists>\<sigma>. inst \<sigma> g0 = g" if "inst \<sigma>1 g0 = t1" "inst \<sigma>2 g0 = t2" for g0 \<sigma>1 \<sigma>2
    using lgg_inst [of "chosen vm" \<sigma>1 g0 \<sigma>2] that l by auto
  ultimately show ?thesis by blast
qed

definition term_code :: "fol_term \<Rightarrow> u64" where
  "term_code t =
     (if t = Constant 1 then 1 else if t = Constant 2 then 2 else if t = Constant 3 then 3
      else if t = Compound 0 [Constant 1, Constant 2] then 4 else 5)"

theorem anti_unify_is_lgg_witness:
  "\<exists>g vm c. anti_unify term_code (Compound 0 [Constant 1, Constant 2]) (Compound 0 [Constant 1, Constant 3]) 10000 = ((g, vm), c) \<and>
     g = Compound 0 [Constant 1, Variable 10000] \<and> inst (side 1 vm) g = Compound 0 [Constant 1, Constant 3]"
proof -
  let ?a = "Compound 0 [Constant 1, Constant 2]" and ?b = "Compound 0 [Constant 1, Constant 3]"
  let ?T = "{?a, ?b, Constant 1, Constant 2, Constant 3}"
  have r: "anti_unify term_code ?a ?b 10000 = ((Compound 0 [Constant 1, Variable 10000], [(10000, [Constant 2, Constant 3])]), 10001)"
    by (simp add: anti_unify_def anti_unify_inner.simps generalize_pair_def term_code_def)
  have "inj_on term_code ?T" "args_closed ?T" by (simp_all add: term_code_def args_closed_def)
  then show ?thesis using anti_unify_is_lgg [OF _ _ _ _ _ _ r, of ?T] r by auto
qed

end
