(* ===== verification/WrappedToken.thy ===== *)
theory WrappedToken
  imports Prelude
begin

text \<open>
  The two bridge programs on Solana, \<open>deployment/solana/wqbc/src/lib.rs\<close> and
  \<open>deployment/solana/wqusd/src/lib.rs\<close>. Apart from names and comments they differ only in the
  fee, so their instructions are translated once, with the fee in basis points as an argument,
  and instantiated for each program. The token program (SPL) is a parameter. An instruction that
  fails or panics leaves no trace, which is the rule of the Solana runtime, so a result is an
  error or the new state.
\<close>

section \<open>Accounts and errors\<close>

type_synonym pubkey = h256

text \<open>\<open>BridgeState\<close> and \<open>TxReceipt\<close>.\<close>

record bridge_state =
  br_authority :: pubkey
  br_mint :: pubkey
  br_fee_recipient :: pubkey
  br_paused :: bool
  br_total_minted :: u64
  br_total_burned :: u64
  br_total_fees :: u64
  br_bump :: u8

record tx_receipt =
  rc_processed :: bool
  rc_source_tx_hash :: h256
  rc_source_chain_id :: u64
  rc_amount :: u64
  rc_recipient :: pubkey
  rc_timestamp :: i64

datatype bridge_event =
    BridgeMintEvent pubkey u64 u64 h256 u64
  | BridgeBurnEvent pubkey u64 u64 u64

text \<open>
  \<open>Paused\<close>, \<open>ZeroAmount\<close> and \<open>AlreadyProcessed\<close> are the program's errors. The others stand for a
  violated account constraint, an account that \<open>init\<close> finds in use, a failed call of the token
  program or of the clock, and a panic of \<open>unwrap\<close>.
\<close>

datatype wrap_error =
  Paused | ZeroAmount | AlreadyProcessed | ConstraintViolated | AccountInUse | AccountMissing
  | TokenError | ClockError | Panicked

text \<open>
  The token program: \<open>mint_to mint to authority amount\<close> and \<open>burn mint from authority amount\<close>
  over its own accounts \<open>'t\<close>; \<open>None\<close> is a failure.
\<close>

record 't spl_token =
  spl_mint_to :: "pubkey \<Rightarrow> pubkey \<Rightarrow> pubkey \<Rightarrow> u64 \<Rightarrow> 't \<Rightarrow> 't option"
  spl_burn :: "pubkey \<Rightarrow> pubkey \<Rightarrow> pubkey \<Rightarrow> u64 \<Rightarrow> 't \<Rightarrow> 't option"

text \<open>
  The accounts of the program: the bridge state at its derived address, the receipts, whose
  addresses are derived from the hash of the source transaction, the token accounts, and the
  events in the order in which they were emitted.
\<close>

record 't wrap_state =
  ws_bridge :: "bridge_state option"
  ws_receipts :: "h256 \<rightharpoonup> tx_receipt"
  ws_tokens :: 't
  ws_events :: "bridge_event list"

text \<open>The accounts an instruction names (\<open>BridgeMint\<close>, \<open>BridgeBurn\<close>).\<close>

record mint_accounts =
  ma_mint :: pubkey
  ma_recipient :: pubkey
  ma_recipient_token :: pubkey
  ma_fee_token :: pubkey
  ma_authority :: pubkey

record burn_accounts =
  ba_mint :: pubkey
  ba_sender :: pubkey
  ba_sender_token :: pubkey

section \<open>Instructions\<close>

definition BPS_DENOMINATOR :: u64 where "BPS_DENOMINATOR = 10000"

definition wqbc_fee_bps :: u64 where "wqbc_fee_bps = 10"

definition wqusd_fee_bps :: u64 where "wqusd_fee_bps = 5"

text \<open>\<open>amount.checked_mul(bps).unwrap() / denominator\<close> and the subtraction that follows it.\<close>

definition bridge_fee :: "u64 \<Rightarrow> u64 \<Rightarrow> wrap_error + u64 \<times> u64" where
  "bridge_fee bps amount =
     (case checked_mul amount bps of
        None \<Rightarrow> Inl Panicked
      | Some product \<Rightarrow>
          (let fee = product div BPS_DENOMINATOR
           in case checked_sub amount fee of
                None \<Rightarrow> Inl Panicked
              | Some net \<Rightarrow> Inr (fee, net)))"

definition wrap_initialize ::
  "pubkey \<Rightarrow> pubkey \<Rightarrow> u8 \<Rightarrow> pubkey \<Rightarrow> 't wrap_state \<Rightarrow> wrap_error + 't wrap_state" where
  "wrap_initialize authority mint bump fee_recipient s =
     (if ws_bridge s \<noteq> None then Inl AccountInUse
      else Inr (s\<lparr>ws_bridge := Some \<lparr>br_authority = authority, br_mint = mint,
             br_fee_recipient = fee_recipient, br_paused = False, br_total_minted = 0,
             br_total_burned = 0, br_total_fees = 0, br_bump = bump\<rparr>\<rparr>))"

text \<open>
  The receipt that \<open>init\<close> creates is zeroed, so the handler's own check of \<open>processed\<close> sees
  \<open>False\<close>; the check is kept as it is written.
\<close>

definition blank_receipt :: tx_receipt where
  "blank_receipt = \<lparr>rc_processed = False, rc_source_tx_hash = 0, rc_source_chain_id = 0,
     rc_amount = 0, rc_recipient = 0, rc_timestamp = 0\<rparr>"

text \<open>The tail of \<open>bridge_mint\<close> after the receipt is filled in: fees, two mints, the totals.\<close>

definition mint_and_count ::
  "'t spl_token \<Rightarrow> u64 \<Rightarrow> pubkey \<Rightarrow> mint_accounts \<Rightarrow> u64 \<Rightarrow> bridge_state \<Rightarrow> 't
     \<Rightarrow> wrap_error + (bridge_state \<times> 't \<times> u64 \<times> u64)" where
  "mint_and_count spl bps bridge_key acc amount state tokens =
     (case bridge_fee bps amount of
        Inl e \<Rightarrow> Inl e
      | Inr (fee, net_amount) \<Rightarrow>
          (case spl_mint_to spl (ma_mint acc) (ma_recipient_token acc) bridge_key net_amount tokens of
             None \<Rightarrow> Inl TokenError
           | Some tokens1 \<Rightarrow>
               (case (if 0 < fee then spl_mint_to spl (ma_mint acc) (ma_fee_token acc) bridge_key fee tokens1
                      else Some tokens1) of
                  None \<Rightarrow> Inl TokenError
                | Some tokens2 \<Rightarrow>
                    (case checked_add (br_total_minted state) amount of
                       None \<Rightarrow> Inl Panicked
                     | Some minted \<Rightarrow>
                         (case checked_add (br_total_fees state) fee of
                            None \<Rightarrow> Inl Panicked
                          | Some fees \<Rightarrow>
                              Inr (state\<lparr>br_total_minted := minted, br_total_fees := fees\<rparr>,
                                   tokens2, fee, net_amount))))))"

definition bridge_mint ::
  "'t spl_token \<Rightarrow> u64 \<Rightarrow> pubkey \<Rightarrow> i64 option \<Rightarrow> mint_accounts \<Rightarrow> u64 \<Rightarrow> h256 \<Rightarrow> u64
     \<Rightarrow> 't wrap_state \<Rightarrow> wrap_error + 't wrap_state" where
  "bridge_mint spl bps bridge_key clock acc amount source_tx_hash source_chain_id s =
     (case ws_bridge s of
        None \<Rightarrow> Inl AccountMissing
      | Some state \<Rightarrow>
          if ws_receipts s source_tx_hash \<noteq> None then Inl AccountInUse
          else if ma_mint acc \<noteq> br_mint state then Inl ConstraintViolated
          else if ma_authority acc \<noteq> br_authority state then Inl ConstraintViolated
          else if br_paused state then Inl Paused
          else if \<not> 0 < amount then Inl ZeroAmount
          else if rc_processed blank_receipt then Inl AlreadyProcessed
          else
            (case clock of
               None \<Rightarrow> Inl ClockError
             | Some now \<Rightarrow>
                 (let receipt = \<lparr>rc_processed = True, rc_source_tx_hash = source_tx_hash,
                        rc_source_chain_id = source_chain_id, rc_amount = amount,
                        rc_recipient = ma_recipient acc, rc_timestamp = now\<rparr>
                  in case mint_and_count spl bps bridge_key acc amount state (ws_tokens s) of
                       Inl e \<Rightarrow> Inl e
                     | Inr (state', tokens', fee, net_amount) \<Rightarrow>
                         Inr (s\<lparr>ws_bridge := Some state',
                                ws_receipts := (ws_receipts s)(source_tx_hash \<mapsto> receipt),
                                ws_tokens := tokens',
                                ws_events := ws_events s @ [BridgeMintEvent (ma_recipient acc)
                                   net_amount fee source_tx_hash source_chain_id]\<rparr>))))"

definition bridge_burn ::
  "'t spl_token \<Rightarrow> u64 \<Rightarrow> burn_accounts \<Rightarrow> u64 \<Rightarrow> u64 \<Rightarrow> 't wrap_state \<Rightarrow> wrap_error + 't wrap_state" where
  "bridge_burn spl bps acc amount dest_chain_id s =
     (case ws_bridge s of
        None \<Rightarrow> Inl AccountMissing
      | Some state \<Rightarrow>
          if ba_mint acc \<noteq> br_mint state then Inl ConstraintViolated
          else if br_paused state then Inl Paused
          else if \<not> 0 < amount then Inl ZeroAmount
          else
            (case bridge_fee bps amount of
               Inl e \<Rightarrow> Inl e
             | Inr (fee, net_burn) \<Rightarrow>
                 (case spl_burn spl (ba_mint acc) (ba_sender_token acc) (ba_sender acc) net_burn (ws_tokens s) of
                    None \<Rightarrow> Inl TokenError
                  | Some tokens' \<Rightarrow>
                      (case checked_add (br_total_burned state) net_burn of
                         None \<Rightarrow> Inl Panicked
                       | Some burned \<Rightarrow>
                           (case checked_add (br_total_fees state) fee of
                              None \<Rightarrow> Inl Panicked
                            | Some fees \<Rightarrow>
                                Inr (s\<lparr>ws_bridge := Some (state\<lparr>br_total_burned := burned, br_total_fees := fees\<rparr>),
                                       ws_tokens := tokens',
                                       ws_events := ws_events s @ [BridgeBurnEvent (ba_sender acc)
                                          net_burn fee dest_chain_id]\<rparr>))))))"

definition set_paused :: "bool \<Rightarrow> pubkey \<Rightarrow> 't wrap_state \<Rightarrow> wrap_error + 't wrap_state" where
  "set_paused b authority s =
     (case ws_bridge s of
        None \<Rightarrow> Inl AccountMissing
      | Some state \<Rightarrow>
          if authority \<noteq> br_authority state then Inl ConstraintViolated
          else Inr (s\<lparr>ws_bridge := Some (state\<lparr>br_paused := b\<rparr>)\<rparr>))"

definition bridge_pause :: "pubkey \<Rightarrow> 't wrap_state \<Rightarrow> wrap_error + 't wrap_state" where
  "bridge_pause = set_paused True"

definition bridge_unpause :: "pubkey \<Rightarrow> 't wrap_state \<Rightarrow> wrap_error + 't wrap_state" where
  "bridge_unpause = set_paused False"

text \<open>The instructions of the two programs.\<close>

definition wqbc_mint where "wqbc_mint spl = bridge_mint spl wqbc_fee_bps"
definition wqbc_burn where "wqbc_burn spl = bridge_burn spl wqbc_fee_bps"
definition wqusd_mint where "wqusd_mint spl = bridge_mint spl wqusd_fee_bps"
definition wqusd_burn where "wqusd_burn spl = bridge_burn spl wqusd_fee_bps"

section \<open>The fee\<close>

lemma bps_values [simp]: "unat wqbc_fee_bps = 10" "unat wqusd_fee_bps = 5" "unat BPS_DENOMINATOR = 10000"
  by (simp_all add: wqbc_fee_bps_def wqusd_fee_bps_def BPS_DENOMINATOR_def)

lemma fee_at_most: "b \<le> 10000 \<Longrightarrow> a * b div 10000 \<le> (a :: nat)"
proof -
  assume "b \<le> 10000"
  then have "a * b div 10000 \<le> a * 10000 div 10000" by (intro div_le_mono mult_le_mono2)
  then show ?thesis by simp
qed

lemma bridge_fee_cases:
  assumes "unat bps \<le> 10000"
  shows "bridge_fee bps amount =
    (if unat amount * unat bps < 2 ^ 64
     then Inr (of_nat (unat amount * unat bps div 10000),
               of_nat (unat amount - unat amount * unat bps div 10000))
     else Inl Panicked)"
proof (cases "unat amount * unat bps < 2 ^ 64")
  case True
  let ?fee = "unat amount * unat bps div 10000"
  have le: "?fee \<le> unat amount" using assms by (rule fee_at_most)
  have lt: "?fee < 2 ^ 64" "unat amount - ?fee < 2 ^ 64" using le u64_less [of amount] by linarith+
  have m: "unat (amount * bps) = unat amount * unat bps" using True by (simp add: unat_mult_lem [THEN iffD1])
  have d: "amount * bps div BPS_DENOMINATOR = of_nat ?fee"
    using lt(1) by (simp add: word_unat_eq_iff unat_div_distrib m unat_of_nat_less)
  have "(of_nat ?fee :: u64) \<le> amount" using le lt(1) by (simp add: word_le_nat_alt unat_of_nat_less)
  moreover from this have "amount - of_nat ?fee = of_nat (unat amount - ?fee)"
    using lt le by (simp add: word_unat_eq_iff unat_sub word_le_nat_alt unat_of_nat_less)
  ultimately show ?thesis using True by (simp add: bridge_fee_def checked_mul_def checked_sub_def Let_def d)
qed (simp add: bridge_fee_def checked_mul_def)

lemma bridge_fee_InrD:
  assumes "bridge_fee bps amount = Inr (fee, net)" and "unat bps \<le> 10000"
  shows "unat fee = unat amount * unat bps div 10000" "unat net + unat fee = unat amount"
proof -
  let ?fee = "unat amount * unat bps div 10000"
  have le: "?fee \<le> unat amount" using assms(2) by (rule fee_at_most)
  have lt: "?fee < 2 ^ 64" "unat amount - ?fee < 2 ^ 64" using le u64_less [of amount] by linarith+
  have "Inr (fee, net) = (Inr (of_nat ?fee, of_nat (unat amount - ?fee)) :: wrap_error + u64 \<times> u64)"
    using assms(1) unfolding bridge_fee_cases [OF assms(2)] by (simp split: if_splits)
  then have e: "fee = of_nat ?fee" "net = of_nat (unat amount - ?fee)" by blast+
  have "unat fee = ?fee" unfolding e(1) by (rule unat_of_nat_less) (use lt(1) in simp)
  moreover have "unat net = unat amount - ?fee" unfolding e(2) by (rule unat_of_nat_less) (use lt(2) in simp)
  ultimately show "unat fee = ?fee" "unat net + unat fee = unat amount" using le by linarith+
qed

section \<open>What a successful instruction did\<close>

lemma mint_and_count_InrD:
  assumes "mint_and_count spl bps key acc amount st t = Inr (st', t', fee, net)"
  obtains t1 minted fees where
    "bridge_fee bps amount = Inr (fee, net)"
    "spl_mint_to spl (ma_mint acc) (ma_recipient_token acc) key net t = Some t1"
    "(if 0 < fee then spl_mint_to spl (ma_mint acc) (ma_fee_token acc) key fee t1 else Some t1) = Some t'"
    "unat minted = unat (br_total_minted st) + unat amount"
    "unat fees = unat (br_total_fees st) + unat fee"
    "st' = st\<lparr>br_total_minted := minted, br_total_fees := fees\<rparr>"
proof -
  from assms obtain t1 minted fees where *: "bridge_fee bps amount = Inr (fee, net)"
    "spl_mint_to spl (ma_mint acc) (ma_recipient_token acc) key net t = Some t1"
    "(if 0 < fee then spl_mint_to spl (ma_mint acc) (ma_fee_token acc) key fee t1 else Some t1) = Some t'"
    "checked_add (br_total_minted st) amount = Some minted" "checked_add (br_total_fees st) fee = Some fees"
    "st' = st\<lparr>br_total_minted := minted, br_total_fees := fees\<rparr>"
    unfolding mint_and_count_def
    by (auto split: sum.split_asm prod.split_asm option.split_asm simp del: word_gt_0)
  show thesis by (rule that [OF *(1-3) checked_add_SomeD [OF *(4)] checked_add_SomeD [OF *(5)] *(6)])
qed

lemma bridge_mint_InrD:
  assumes "bridge_mint spl bps key clock acc amount h chain s = Inr s'"
  obtains st st' t' fee net now where
    "ws_bridge s = Some st" "ws_receipts s h = None" "ma_mint acc = br_mint st"
    "ma_authority acc = br_authority st" "\<not> br_paused st" "0 < amount" "clock = Some now"
    "mint_and_count spl bps key acc amount st (ws_tokens s) = Inr (st', t', fee, net)"
    "s' = s\<lparr>ws_bridge := Some st',
            ws_receipts := (ws_receipts s)(h \<mapsto> \<lparr>rc_processed = True, rc_source_tx_hash = h,
              rc_source_chain_id = chain, rc_amount = amount, rc_recipient = ma_recipient acc,
              rc_timestamp = now\<rparr>),
            ws_tokens := t',
            ws_events := ws_events s @ [BridgeMintEvent (ma_recipient acc) net fee h chain]\<rparr>"
  using assms unfolding bridge_mint_def Let_def
  by (auto split: option.splits if_splits sum.splits prod.splits)

lemma bridge_burn_InrD:
  assumes "bridge_burn spl bps acc amount chain s = Inr s'"
  obtains st t' fee net burned fees where
    "ws_bridge s = Some st" "ba_mint acc = br_mint st" "\<not> br_paused st" "0 < amount"
    "bridge_fee bps amount = Inr (fee, net)"
    "spl_burn spl (ba_mint acc) (ba_sender_token acc) (ba_sender acc) net (ws_tokens s) = Some t'"
    "unat burned = unat (br_total_burned st) + unat net"
    "unat fees = unat (br_total_fees st) + unat fee"
    "s' = s\<lparr>ws_bridge := Some (st\<lparr>br_total_burned := burned, br_total_fees := fees\<rparr>),
            ws_tokens := t',
            ws_events := ws_events s @ [BridgeBurnEvent (ba_sender acc) net fee chain]\<rparr>"
  using assms unfolding bridge_burn_def
  by (auto split: option.splits if_splits sum.splits prod.splits dest!: checked_add_SomeD)

lemma set_paused_InrD:
  assumes "set_paused b a s = Inr s'"
  obtains st where "ws_bridge s = Some st" "a = br_authority st"
    "s' = s\<lparr>ws_bridge := Some (st\<lparr>br_paused := b\<rparr>)\<rparr>"
  using assms by (auto simp: set_paused_def split: option.splits if_splits)

section \<open>Runs\<close>

text \<open>
  What the token program promises of \<open>tsupply\<close>, the supply of a mint, and \<open>balance\<close>: minting raises both by the amount,
  burning takes it from both, and nothing else changes.
\<close>

definition spl_laws :: "('t \<Rightarrow> pubkey \<Rightarrow> nat) \<Rightarrow> ('t \<Rightarrow> pubkey \<Rightarrow> nat) \<Rightarrow> 't spl_token \<Rightarrow> bool" where
  "spl_laws tsupply balance spl \<longleftrightarrow>
     (\<forall>m to a n t t'. spl_mint_to spl m to a n t = Some t' \<longrightarrow>
        tsupply t' = (tsupply t)(m := tsupply t m + unat n) \<and>
        balance t' = (balance t)(to := balance t to + unat n)) \<and>
     (\<forall>m from a n t t'. spl_burn spl m from a n t = Some t' \<longrightarrow>
        unat n \<le> tsupply t m \<and> unat n \<le> balance t from \<and>
        tsupply t' = (tsupply t)(m := tsupply t m - unat n) \<and>
        balance t' = (balance t)(from := balance t from - unat n))"

lemma spl_mintD:
  "spl_laws tsupply balance spl \<Longrightarrow> spl_mint_to spl m to a n t = Some t' \<Longrightarrow>
     tsupply t' = (tsupply t)(m := tsupply t m + unat n) \<and> balance t' = (balance t)(to := balance t to + unat n)"
  unfolding spl_laws_def by blast

lemma spl_burnD:
  "spl_laws tsupply balance spl \<Longrightarrow> spl_burn spl m from a n t = Some t' \<Longrightarrow>
     unat n \<le> tsupply t m \<and> unat n \<le> balance t from \<and>
     tsupply t' = (tsupply t)(m := tsupply t m - unat n) \<and> balance t' = (balance t)(from := balance t from - unat n)"
  unfolding spl_laws_def by blast

text \<open>
  One instruction of the program, or any other change of the token accounts that does not
  create tokens: transfers, and burns by a holder who goes past the bridge. (Only the bridge
  state's address is the mint authority.)
\<close>

inductive wrap_step ::
  "('t \<Rightarrow> pubkey \<Rightarrow> nat) \<Rightarrow> 't spl_token \<Rightarrow> u64 \<Rightarrow> pubkey \<Rightarrow> 't wrap_state \<Rightarrow> 't wrap_state \<Rightarrow> bool"
  for tsupply spl bps key
where
  wrap_mint: "bridge_mint spl bps key clock acc amount h chain s = Inr s' \<Longrightarrow> wrap_step tsupply spl bps key s s'"
| wrap_burn: "bridge_burn spl bps bac amount chain s = Inr s' \<Longrightarrow> wrap_step tsupply spl bps key s s'"
| wrap_pause: "bridge_pause a s = Inr s' \<Longrightarrow> wrap_step tsupply spl bps key s s'"
| wrap_unpause: "bridge_unpause a s = Inr s' \<Longrightarrow> wrap_step tsupply spl bps key s s'"
| wrap_tokens: "(\<And>m. tsupply t' m \<le> tsupply (ws_tokens s) m) \<Longrightarrow>
    wrap_step tsupply spl bps key s (s\<lparr>ws_tokens := t'\<rparr>)"

definition receipts_total :: "'t wrap_state \<Rightarrow> nat" where
  "receipts_total s = storage_sum (\<lambda>r. unat (rc_amount r)) (ws_receipts s)"

definition wrap_inv :: "('t \<Rightarrow> pubkey \<Rightarrow> nat) \<Rightarrow> pubkey \<Rightarrow> 't wrap_state \<Rightarrow> bool" where
  "wrap_inv tsupply mint s \<longleftrightarrow> finite (dom (ws_receipts s)) \<and>
     (\<exists>st. ws_bridge s = Some st \<and> br_mint st = mint \<and> unat (br_total_minted st) = receipts_total s \<and>
        tsupply (ws_tokens s) mint + unat (br_total_burned st) \<le> unat (br_total_minted st))"

lemma two_mints:
  assumes L: "spl_laws tsupply balance spl"
    and "bridge_fee bps amount = Inr (fee, net)" and "unat bps \<le> 10000"
    and a: "spl_mint_to spl m to key net t = Some t1"
    and b: "(if 0 < fee then spl_mint_to spl m to' key fee t1 else Some t1) = Some t'"
  shows "tsupply t' = (tsupply t)(m := tsupply t m + unat amount)"
proof -
  have f: "unat net + unat fee = unat amount" using assms(2,3) by (rule bridge_fee_InrD)
  have s1: "tsupply t1 = (tsupply t)(m := tsupply t m + unat net)" using spl_mintD [OF L a] by blast
  show ?thesis
  proof (cases "0 < fee")
    case True
    then have "tsupply t' = (tsupply t1)(m := tsupply t1 m + unat fee)" using spl_mintD [OF L] b by auto
    then show ?thesis by (simp add: s1 f [symmetric] add.assoc)
  next
    case False
    then show ?thesis using b f s1 by (simp add: word_greater_zero_iff)
  qed
qed

lemma wrap_step_inv:
  assumes "wrap_step tsupply spl bps key s s'" and I: "wrap_inv tsupply mint s"
    and L: "spl_laws tsupply balance spl" and B: "unat bps \<le> 10000"
  shows "wrap_inv tsupply mint s'"
  using assms(1)
proof cases
  case (wrap_mint clock acc amount h chain)
  from wrap_mint obtain st st' t' fee net now where *:
    "ws_bridge s = Some st" "ws_receipts s h = None" "ma_mint acc = br_mint st"
    "mint_and_count spl bps key acc amount st (ws_tokens s) = Inr (st', t', fee, net)"
    and s': "s' = s\<lparr>ws_bridge := Some st',
            ws_receipts := (ws_receipts s)(h \<mapsto> \<lparr>rc_processed = True, rc_source_tx_hash = h,
              rc_source_chain_id = chain, rc_amount = amount, rc_recipient = ma_recipient acc,
              rc_timestamp = now\<rparr>),
            ws_tokens := t',
            ws_events := ws_events s @ [BridgeMintEvent (ma_recipient acc) net fee h chain]\<rparr>"
    by (rule bridge_mint_InrD)
  from *(4) obtain t1 minted fees where f: "bridge_fee bps amount = Inr (fee, net)"
    "spl_mint_to spl (ma_mint acc) (ma_recipient_token acc) key net (ws_tokens s) = Some t1"
    "(if 0 < fee then spl_mint_to spl (ma_mint acc) (ma_fee_token acc) key fee t1 else Some t1) = Some t'"
    "unat minted = unat (br_total_minted st) + unat amount"
    "st' = st\<lparr>br_total_minted := minted, br_total_fees := fees\<rparr>"
    by (rule mint_and_count_InrD)
  have S: "tsupply t' = (tsupply (ws_tokens s))(br_mint st := tsupply (ws_tokens s) (br_mint st) + unat amount)"
    using two_mints [OF L f(1) B f(2,3)] *(3) by simp
  have fin: "finite (dom (ws_receipts s))" using I by (simp add: wrap_inv_def)
  have "receipts_total s' = receipts_total s + unat amount"
    using storage_sum_fresh [OF fin *(2)] by (simp add: receipts_total_def s')
  then show ?thesis using I *(1) f(4,5) S fin by (simp add: wrap_inv_def s')
next
  case (wrap_burn acc amount chain)
  from wrap_burn obtain st t' fee net burned fees where *: "ws_bridge s = Some st" "ba_mint acc = br_mint st"
    "spl_burn spl (ba_mint acc) (ba_sender_token acc) (ba_sender acc) net (ws_tokens s) = Some t'"
    "unat burned = unat (br_total_burned st) + unat net"
    and s': "s' = s\<lparr>ws_bridge := Some (st\<lparr>br_total_burned := burned, br_total_fees := fees\<rparr>),
            ws_tokens := t',
            ws_events := ws_events s @ [BridgeBurnEvent (ba_sender acc) net fee chain]\<rparr>"
    by (rule bridge_burn_InrD)
  have "unat net \<le> tsupply (ws_tokens s) (br_mint st) \<and>
      tsupply t' (br_mint st) = tsupply (ws_tokens s) (br_mint st) - unat net"
    using spl_burnD [OF L *(3)] *(2) by simp
  then show ?thesis using I *(1,4) by (simp add: wrap_inv_def s' receipts_total_def)
next
  case (wrap_tokens t')
  obtain st where st: "ws_bridge s = Some st" "br_mint st = mint" "unat (br_total_minted st) = receipts_total s"
    "tsupply (ws_tokens s) mint + unat (br_total_burned st) \<le> unat (br_total_minted st)"
    using I by (auto simp: wrap_inv_def)
  have "tsupply t' mint \<le> tsupply (ws_tokens s) mint" by (rule wrap_tokens(2))
  then show ?thesis using I st by (simp add: wrap_inv_def wrap_tokens(1) receipts_total_def)
qed (use I in \<open>auto simp: bridge_pause_def bridge_unpause_def wrap_inv_def receipts_total_def elim!: set_paused_InrD\<close>)

lemma wrap_run_inv:
  assumes "rtranclp (wrap_step tsupply spl bps key) s s'" and "wrap_inv tsupply mint s"
    and "spl_laws tsupply balance spl" and "unat bps \<le> 10000"
  shows "wrap_inv tsupply mint s'"
  using assms(1,2) by (induction rule: rtranclp_induct) (auto dest: wrap_step_inv [OF _ _ assms(3,4)])

lemma initialized_inv:
  assumes "wrap_initialize authority mint bump recipient s = Inr s'"
    and "ws_receipts s = Map.empty" and "tsupply (ws_tokens s) mint = 0"
  shows "wrap_inv tsupply mint s'"
  using assms by (auto simp: wrap_initialize_def wrap_inv_def receipts_total_def split: if_splits)

lemma wrap_step_receipts:
  "wrap_step tsupply spl bps key s s' \<Longrightarrow> ws_receipts s h = Some r \<Longrightarrow> ws_receipts s' h = Some r"
  by (induction rule: wrap_step.induct)
    (auto simp: bridge_pause_def bridge_unpause_def elim!: bridge_mint_InrD bridge_burn_InrD set_paused_InrD)

lemma wrap_step_bridge:
  "wrap_step tsupply spl bps key s s' \<Longrightarrow> ws_bridge s \<noteq> None \<Longrightarrow> ws_bridge s' \<noteq> None"
  by (induction rule: wrap_step.induct)
    (auto simp: bridge_pause_def bridge_unpause_def elim!: bridge_mint_InrD bridge_burn_InrD set_paused_InrD)

lemma wrap_run_keeps:
  assumes "rtranclp (wrap_step tsupply spl bps key) s s'" and "ws_receipts s h = Some r" and "ws_bridge s \<noteq> None"
  shows "ws_receipts s' h = Some r \<and> ws_bridge s' \<noteq> None"
  using assms
proof (induction rule: rtranclp_induct)
  case (step y z)
  then show ?case using wrap_step_receipts wrap_step_bridge by blast
qed simp

section \<open>What the bridge guarantees\<close>

text \<open>
  C22. Every wrapped token is backed by a recorded deposit: from the initialisation with a mint
  without tokens, whatever the bridge and the holders do, the supply of the mint plus what was
  burned through the bridge is at most what was minted, and that is exactly the sum of the
  amounts on the receipts, of which there is one per source transaction.
\<close>

theorem wrapped_supply_backed:
  assumes "spl_laws tsupply balance spl" and "unat bps \<le> 10000"
    and "wrap_initialize authority mint bump recipient s0 = Inr s1"
    and "ws_receipts s0 = Map.empty" and "tsupply (ws_tokens s0) mint = 0"
    and "rtranclp (wrap_step tsupply spl bps key) s1 s"
  shows "\<exists>st. ws_bridge s = Some st \<and> br_mint st = mint \<and>
    tsupply (ws_tokens s) mint + unat (br_total_burned st) \<le> unat (br_total_minted st) \<and>
    unat (br_total_minted st) = storage_sum (\<lambda>r. unat (rc_amount r)) (ws_receipts s)"
proof -
  have "wrap_inv tsupply mint s"
    using initialized_inv [where tsupply = tsupply] wrap_run_inv [OF assms(6) _ assms(1,2)] assms(3-5) by blast
  then show ?thesis by (auto simp: wrap_inv_def receipts_total_def)
qed

text \<open>
  A deposit is minted at most once: after a mint for a source transaction was accepted, every
  later mint for the same transaction fails, whatever happens in between and whatever amount,
  accounts, chain or time it names.
\<close>

theorem deposit_minted_once:
  assumes "bridge_mint spl bps key clock acc amount h chain s = Inr s'"
    and "rtranclp (wrap_step tsupply spl bps key) s' s''"
  shows "bridge_mint spl bps key clock' acc' amount' h chain' s'' = Inl AccountInUse"
proof -
  from assms(1) have "ws_receipts s' h \<noteq> None \<and> ws_bridge s' \<noteq> None" by (rule bridge_mint_InrD) simp
  then have "ws_receipts s'' h \<noteq> None \<and> ws_bridge s'' \<noteq> None" using wrap_run_keeps [OF assms(2)] by blast
  then show ?thesis by (auto simp: bridge_mint_def)
qed

text \<open>
  The burn takes no fee: an accepted burn removes only the net amount from the sender and from
  the supply and changes no other balance, so the sender keeps the fee, which is nevertheless
  added to the total of collected fees.
\<close>

theorem burn_takes_no_fee:
  assumes "spl_laws tsupply balance spl" and "unat bps \<le> 10000"
    and "bridge_burn spl bps acc amount chain s = Inr s'"
  shows "\<exists>st st' fee. ws_bridge s = Some st \<and> ws_bridge s' = Some st' \<and>
    fee = unat amount * unat bps div 10000 \<and>
    unat (br_total_fees st') = unat (br_total_fees st) + fee \<and>
    balance (ws_tokens s) (ba_sender_token acc) =
      balance (ws_tokens s') (ba_sender_token acc) + (unat amount - fee) \<and>
    tsupply (ws_tokens s) (br_mint st) = tsupply (ws_tokens s') (br_mint st) + (unat amount - fee) \<and>
    (\<forall>k. k \<noteq> ba_sender_token acc \<longrightarrow> balance (ws_tokens s') k = balance (ws_tokens s) k)"
proof -
  from assms(3) obtain st t' fee net burned fees where *: "ws_bridge s = Some st" "ba_mint acc = br_mint st"
    "bridge_fee bps amount = Inr (fee, net)"
    "spl_burn spl (ba_mint acc) (ba_sender_token acc) (ba_sender acc) net (ws_tokens s) = Some t'"
    "unat fees = unat (br_total_fees st) + unat fee"
    and s': "s' = s\<lparr>ws_bridge := Some (st\<lparr>br_total_burned := burned, br_total_fees := fees\<rparr>),
            ws_tokens := t', ws_events := ws_events s @ [BridgeBurnEvent (ba_sender acc) net fee chain]\<rparr>"
    by (rule bridge_burn_InrD)
  have f: "unat fee = unat amount * unat bps div 10000" "unat net + unat fee = unat amount"
    using bridge_fee_InrD [OF *(3) assms(2)] by blast+
  have n: "unat amount - unat fee = unat net" using f(2) by simp
  show ?thesis
    unfolding f(1) [symmetric] s' n using *(1,5) spl_burnD [OF assms(1) *(4)] *(2) by (simp add: n)
qed

section \<open>A concrete run\<close>

text \<open>A token program that keeps the supply of each mint and the balance of each account.\<close>

type_synonym simple_tokens = "(pubkey \<Rightarrow> nat) \<times> (pubkey \<Rightarrow> nat)"

definition simple_spl :: "simple_tokens spl_token" where
  "simple_spl = \<lparr>
     spl_mint_to = (\<lambda>m to a n (sup, bal). Some (sup(m := sup m + unat n), bal(to := bal to + unat n))),
     spl_burn = (\<lambda>m from a n (sup, bal).
       if unat n \<le> sup m \<and> unat n \<le> bal from
       then Some (sup(m := sup m - unat n), bal(from := bal from - unat n)) else None)\<rparr>"

lemma simple_spl_laws: "spl_laws fst snd simple_spl"
  by (auto simp: spl_laws_def simple_spl_def split: if_splits)

definition wrap_example0 :: "simple_tokens wrap_state" where
  "wrap_example0 = \<lparr>ws_bridge = None, ws_receipts = Map.empty, ws_tokens = (\<lambda>_. 0, \<lambda>_. 0), ws_events = []\<rparr>"

definition wrap_example_accounts :: mint_accounts where
  "wrap_example_accounts = \<lparr>ma_mint = 2, ma_recipient = 5, ma_recipient_token = 6, ma_fee_token = 7, ma_authority = 1\<rparr>"

definition wrap_example1 :: "simple_tokens wrap_state" where
  "wrap_example1 = (case wrap_initialize 1 2 255 3 wrap_example0 of Inr s \<Rightarrow> s | Inl _ \<Rightarrow> wrap_example0)"

definition wrap_example2 :: "simple_tokens wrap_state" where
  "wrap_example2 = (case wqbc_mint simple_spl 9 (Some 100) wrap_example_accounts 5000 77 1 wrap_example1 of
     Inr s \<Rightarrow> s | Inl _ \<Rightarrow> wrap_example0)"

definition wrap_example3 :: "simple_tokens wrap_state" where
  "wrap_example3 = (case wqbc_burn simple_spl \<lparr>ba_mint = 2, ba_sender = 5, ba_sender_token = 6\<rparr> 2000 1 wrap_example2 of
     Inr s \<Rightarrow> s | Inl _ \<Rightarrow> wrap_example0)"

lemmas wrap_defs = wrap_initialize_def bridge_mint_def bridge_burn_def mint_and_count_def bridge_fee_def
  checked_mul_def checked_add_def checked_sub_def BPS_DENOMINATOR_def wqbc_fee_bps_def blank_receipt_def

lemma wrap_example1: "wrap_initialize 1 2 255 3 wrap_example0 = Inr wrap_example1"
  by (simp add: wrap_example1_def wrap_initialize_def wrap_example0_def)

lemma wrap_example2: "wqbc_mint simple_spl 9 (Some 100) wrap_example_accounts 5000 77 1 wrap_example1 = Inr wrap_example2"
  by (simp add: wrap_example2_def wqbc_mint_def wrap_example1_def wrap_example0_def wrap_example_accounts_def
      wrap_defs simple_spl_def)

lemma wrap_example3:
  "wqbc_burn simple_spl \<lparr>ba_mint = 2, ba_sender = 5, ba_sender_token = 6\<rparr> 2000 1 wrap_example2 = Inr wrap_example3"
  by (simp add: wrap_example3_def wrap_example2_def wqbc_mint_def wqbc_burn_def wrap_example1_def wrap_example0_def
      wrap_example_accounts_def wrap_defs simple_spl_def)

theorem wrapped_supply_backed_witness:
  "\<exists>st. ws_bridge wrap_example3 = Some st \<and> br_mint st = 2 \<and>
    fst (ws_tokens wrap_example3) 2 + unat (br_total_burned st) \<le> unat (br_total_minted st) \<and>
    unat (br_total_minted st) = storage_sum (\<lambda>r. unat (rc_amount r)) (ws_receipts wrap_example3)"
proof -
  have a: "wrap_step fst simple_spl 10 9 wrap_example1 wrap_example2"
    using wrap_mint wrap_example2 by (metis wqbc_mint_def wqbc_fee_bps_def)
  have b: "wrap_step fst simple_spl 10 9 wrap_example2 wrap_example3"
    using wrap_burn wrap_example3 by (metis wqbc_burn_def wqbc_fee_bps_def)
  show ?thesis
    by (rule wrapped_supply_backed [OF simple_spl_laws _ wrap_example1 _ _
          rtranclp_trans [OF r_into_rtranclp [where r = "wrap_step fst simple_spl 10 9", OF a]
            r_into_rtranclp [where r = "wrap_step fst simple_spl 10 9", OF b]]])
      (simp_all add: wrap_example0_def)
qed

theorem deposit_minted_once_witness:
  "bridge_mint simple_spl 10 9 (Some 200) wrap_example_accounts 9999 77 3 wrap_example3 = Inl AccountInUse"
proof -
  have b: "wrap_step fst simple_spl 10 9 wrap_example2 wrap_example3"
    using wrap_burn wrap_example3 by (metis wqbc_burn_def wqbc_fee_bps_def)
  show ?thesis
    by (rule deposit_minted_once [OF wrap_example2 [unfolded wqbc_mint_def wqbc_fee_bps_def]
          r_into_rtranclp [where r = "wrap_step fst simple_spl 10 9", OF b]])
qed

theorem burn_takes_no_fee_witness:
  "\<exists>st'. ws_bridge wrap_example3 = Some st' \<and> unat (br_total_fees st') = 5 + 2 \<and>
    snd (ws_tokens wrap_example2) 6 = snd (ws_tokens wrap_example3) 6 + 1998"
proof -
  obtain st where st: "ws_bridge wrap_example2 = Some st" "unat (br_total_fees st) = 5"
    by (simp add: wrap_example2_def wqbc_mint_def wrap_example1_def wrap_example0_def
        wrap_example_accounts_def wrap_defs simple_spl_def)
  show ?thesis
    using burn_takes_no_fee [OF simple_spl_laws _ wrap_example3 [unfolded wqbc_burn_def wqbc_fee_bps_def]] st by auto
qed

end
