(* ===== verification/ShardMerkle.thy ===== *)
theory ShardMerkle
  imports Prelude
begin

text \<open>
  The Merkle tree of the graph shard, \<open>aether-graph-shard/src/merkle.rs\<close>: a sorted map of leaf
  hashes with a cached root, the construction of the root level by level (a node without a
  sibling is paired with itself), inclusion proofs and their verification, and the tree over the
  shards' roots. SHA-256 (crate \<open>sha2\<close>) is a parameter. Node identifiers are signed 64-bit
  numbers that are only compared, so they are integers here.
\<close>

section \<open>Ordered maps\<close>

text \<open>
  \<open>BTreeMap\<close>: its entries in the order of the keys. The laws of the interface are what the
  tree relies on; that the entries are a function of the mapping is proved from them.
\<close>

definition sorted_keys :: "('k::linorder \<times> 'v) list \<Rightarrow> bool" where
  "sorted_keys m \<longleftrightarrow> sorted_wrt (<) (map fst m)"

fun bt_insert :: "'k::linorder \<Rightarrow> 'v \<Rightarrow> ('k \<times> 'v) list \<Rightarrow> ('k \<times> 'v) list" where
  "bt_insert k v [] = [(k, v)]"
| "bt_insert k v ((j, w) # m) =
     (if k < j then (k, v) # (j, w) # m else if k = j then (k, v) # m else (j, w) # bt_insert k v m)"

fun bt_remove :: "'k::linorder \<Rightarrow> ('k \<times> 'v) list \<Rightarrow> ('k \<times> 'v) list" where
  "bt_remove k [] = []"
| "bt_remove k ((j, w) # m) = (if k = j then m else (j, w) # bt_remove k m)"

lemma sorted_keys_simps [simp]:
  "sorted_keys []" "sorted_keys ((k, v) # m) \<longleftrightarrow> (\<forall>j \<in> fst ` set m. k < j) \<and> sorted_keys m"
  by (auto simp: sorted_keys_def)

lemma entries_unique:
  assumes "sorted_keys m" and "sorted_keys n" and "map_of m = map_of n"
  shows "m = n"
proof -
  have e: "map (\<lambda>k. (k, the (map_of xs k))) (map fst xs) = xs" if "sorted_keys xs" for xs :: "('a \<times> 'b) list"
  proof -
    have "distinct (map fst xs)" using that by (simp add: sorted_keys_def strict_sorted_iff)
    then show ?thesis by (force intro!: map_idI simp: comp_def)
  qed
  have "fst ` set m = fst ` set n" using assms(3) by (metis dom_map_of_conv_image_fst)
  then have "map fst m = map fst n"
    using assms(1,2) unfolding sorted_keys_def
    by (intro strict_sorted_equal) (simp_all)
  then show ?thesis using e [OF assms(1)] e [OF assms(2)] assms(3) by metis
qed

locale ordered_map =
  fixes ins :: "'k::linorder \<Rightarrow> 'v \<Rightarrow> ('k \<times> 'v) list \<Rightarrow> ('k \<times> 'v) list"
    and del :: "'k \<Rightarrow> ('k \<times> 'v) list \<Rightarrow> ('k \<times> 'v) list"
  assumes ins_sorted: "sorted_keys m \<Longrightarrow> sorted_keys (ins k v m)"
    and ins_lookup: "sorted_keys m \<Longrightarrow> map_of (ins k v m) = (map_of m)(k \<mapsto> v)"
    and del_sorted: "sorted_keys m \<Longrightarrow> sorted_keys (del k m)"
    and del_lookup: "sorted_keys m \<Longrightarrow> map_of (del k m) = (map_of m)(k := None)"
begin

lemma update_refines:
  assumes "sorted_keys m"
  shows "sorted_keys (case vo of None \<Rightarrow> del k m | Some v \<Rightarrow> ins k v m) \<and>
    map_of (case vo of None \<Rightarrow> del k m | Some v \<Rightarrow> ins k v m) = (map_of m)(k := vo)"
  by (cases vo) (use assms in \<open>simp_all add: ins_sorted ins_lookup del_sorted del_lookup\<close>)

lemma updates_refine:
  assumes "sorted_keys m"
  shows "sorted_keys (fold (\<lambda>(k, vo) n. case vo of None \<Rightarrow> del k n | Some v \<Rightarrow> ins k v n) us m) \<and>
    map_of (fold (\<lambda>(k, vo) n. case vo of None \<Rightarrow> del k n | Some v \<Rightarrow> ins k v n) us m) =
      fold (\<lambda>(k, vo) f. f(k := vo)) us (map_of m)"
  using assms
proof (induction us arbitrary: m)
  case (Cons u us)
  obtain k vo where u: "u = (k, vo)" by (cases u)
  from update_refines [OF Cons.prems, of k vo] Cons.IH show ?case by (simp add: u)
qed simp

end

lemma bt_insert_keys [simp]: "fst ` set (bt_insert k v m) = insert k (fst ` set m)"
  by (induction k v m rule: bt_insert.induct) auto

lemma bt_remove_keys: "fst ` set (bt_remove k m) \<subseteq> fst ` set m"
  by (induction k m rule: bt_remove.induct) auto

lemma bt_insert_sorted: "sorted_keys m \<Longrightarrow> sorted_keys (bt_insert k v m)"
  by (induction k v m rule: bt_insert.induct) force+

lemma bt_remove_sorted: "sorted_keys m \<Longrightarrow> sorted_keys (bt_remove k m)"
  by (induction k m rule: bt_remove.induct) (use bt_remove_keys in \<open>fastforce+\<close>)

lemma bt_insert_lookup: "sorted_keys m \<Longrightarrow> map_of (bt_insert k v m) = (map_of m)(k \<mapsto> v)"
  by (induction k v m rule: bt_insert.induct) (auto simp: fun_eq_iff)

lemma bt_remove_lookup: "sorted_keys m \<Longrightarrow> map_of (bt_remove k m) = (map_of m)(k := None)"
proof (induction k m rule: bt_remove.induct)
  case (2 k j w m)
  then have "map_of m j = None" by (force simp: map_of_eq_None_iff)
  with 2 show ?case by (auto simp: fun_eq_iff)
qed simp

interpretation bt: ordered_map bt_insert bt_remove
  by unfold_locales (auto simp: bt_insert_sorted bt_insert_lookup bt_remove_sorted bt_remove_lookup)

section \<open>The tree\<close>

text \<open>\<open>hash_pair\<close>, one pass over the chunks of two of a level, and the loop over the levels.\<close>

definition hash_pair :: "(u8 list \<Rightarrow> h256) \<Rightarrow> h256 \<Rightarrow> h256 \<Rightarrow> h256" where
  "hash_pair sha left right = sha (be_bytes left @ be_bytes right)"

fun next_level :: "(u8 list \<Rightarrow> h256) \<Rightarrow> h256 list \<Rightarrow> h256 list" where
  "next_level sha (a # b # rest) = hash_pair sha a b # next_level sha rest"
| "next_level sha [a] = [hash_pair sha a a]"
| "next_level sha [] = []"

lemma length_next_level [simp]: "length (next_level sha xs) = (length xs + 1) div 2"
  by (induction sha xs rule: next_level.induct) auto

function reduce_levels :: "(u8 list \<Rightarrow> h256) \<Rightarrow> h256 list \<Rightarrow> h256" where
  "reduce_levels sha level = (if 1 < length level then reduce_levels sha (next_level sha level) else level ! 0)"
  by pat_completeness auto
termination by (relation "measure (length \<circ> snd)") auto

declare reduce_levels.simps [simp del]

definition shard_build_tree :: "(u8 list \<Rightarrow> h256) \<Rightarrow> h256 list \<Rightarrow> h256" where
  "shard_build_tree sha hashes =
     (if hashes = [] then 0 else if length hashes = 1 then hashes ! 0 else reduce_levels sha hashes)"

record shard_tree =
  leaves :: "(int \<times> h256) list"
  cached_root :: "h256 option"
  level_cache :: "u32 \<times> u64 \<Rightarrow> h256 option"
  dirty :: bool

definition tree_new :: shard_tree where
  "tree_new = \<lparr>leaves = [], cached_root = None, level_cache = Map.empty, dirty = True\<rparr>"

definition tree_insert :: "int \<Rightarrow> h256 \<Rightarrow> shard_tree \<Rightarrow> shard_tree" where
  "tree_insert node_id leaf_hash t =
     t\<lparr>leaves := bt_insert node_id leaf_hash (leaves t), dirty := True, cached_root := None\<rparr>"

definition tree_remove :: "int \<Rightarrow> shard_tree \<Rightarrow> bool \<times> shard_tree" where
  "tree_remove node_id t =
     (let removed = map_of (leaves t) node_id \<noteq> None; t1 = t\<lparr>leaves := bt_remove node_id (leaves t)\<rparr>
      in (removed, if removed then t1\<lparr>dirty := True, cached_root := None\<rparr> else t1))"

text \<open>\<open>cache_tree_levels\<close>: the entries of one level, then the next levels.\<close>

definition cache_level ::
  "u32 \<Rightarrow> h256 list \<Rightarrow> (u32 \<times> u64 \<Rightarrow> h256 option) \<Rightarrow> u32 \<times> u64 \<Rightarrow> h256 option" where
  "cache_level depth level cache =
     fold (\<lambda>(pos, h) c. c((depth, of_nat pos) \<mapsto> h)) (zip [0..<length level] level) cache"

function cache_levels ::
  "(u8 list \<Rightarrow> h256) \<Rightarrow> u32 \<Rightarrow> h256 list \<Rightarrow> (u32 \<times> u64 \<Rightarrow> h256 option) \<Rightarrow> u32 \<times> u64 \<Rightarrow> h256 option" where
  "cache_levels sha depth level cache =
     (if 1 < length level
      then (let next = next_level sha level; depth' = depth + 1
            in cache_levels sha depth' next (cache_level depth' next cache))
      else cache)"
  by pat_completeness auto
termination by (relation "measure (\<lambda>(_, _, level, _). length level)") auto

declare cache_levels.simps [simp del]

definition cache_tree_levels ::
  "(u8 list \<Rightarrow> h256) \<Rightarrow> h256 list \<Rightarrow> (u32 \<times> u64 \<Rightarrow> h256 option) \<Rightarrow> u32 \<times> u64 \<Rightarrow> h256 option" where
  "cache_tree_levels sha hashes cache =
     (if hashes = [] then cache else cache_levels sha 0 hashes (cache_level 0 hashes cache))"

definition tree_root :: "(u8 list \<Rightarrow> h256) \<Rightarrow> shard_tree \<Rightarrow> h256 \<times> shard_tree" where
  "tree_root sha t =
     (case cached_root t of
        Some r \<Rightarrow> (r, t)
      | None \<Rightarrow>
          if leaves t = [] then (0, t\<lparr>cached_root := Some 0\<rparr>)
          else
            (let hashes = map snd (leaves t); r = shard_build_tree sha hashes
             in (r, t\<lparr>level_cache := cache_tree_levels sha hashes Map.empty, cached_root := Some r, dirty := False\<rparr>)))"

text \<open>The loop of \<open>proof\<close>: the sibling at each level and whether it stands on the right.\<close>

function proof_levels :: "(u8 list \<Rightarrow> h256) \<Rightarrow> h256 list \<Rightarrow> nat \<Rightarrow> (h256 \<times> bool) list" where
  "proof_levels sha level idx =
     (if 1 < length level
      then (let sibling_idx = if idx mod 2 = 0 then idx + 1 else idx - 1;
                is_right = (idx mod 2 = 0);
                sibling = if sibling_idx < length level then level ! sibling_idx else level ! idx
            in (sibling, is_right) # proof_levels sha (next_level sha level) (idx div 2))
      else [])"
  by pat_completeness auto
termination by (relation "measure (\<lambda>(_, level, _). length level)") auto

declare proof_levels.simps [simp del]

text \<open>\<open>iter().position(..)\<close>\<close>

fun position :: "'a \<Rightarrow> 'a list \<Rightarrow> nat option" where
  "position k [] = None"
| "position k (j # ks) = (if j = k then Some 0 else map_option Suc (position k ks))"

definition tree_proof ::
  "(u8 list \<Rightarrow> h256) \<Rightarrow> int \<Rightarrow> shard_tree \<Rightarrow> (h256 \<times> bool) list option \<times> shard_tree" where
  "tree_proof sha node_id t =
     (let t' = snd (tree_root sha t)
      in (case position node_id (map fst (leaves t')) of
            None \<Rightarrow> None
          | Some pos \<Rightarrow> Some (proof_levels sha (map snd (leaves t')) pos), t'))"

definition verify_step :: "(u8 list \<Rightarrow> h256) \<Rightarrow> h256 \<times> bool \<Rightarrow> h256 \<Rightarrow> h256" where
  "verify_step sha = (\<lambda>(sibling, is_right) current.
     if is_right then hash_pair sha current sibling else hash_pair sha sibling current)"

definition verify_proof :: "(u8 list \<Rightarrow> h256) \<Rightarrow> h256 \<Rightarrow> (h256 \<times> bool) list \<Rightarrow> h256 \<Rightarrow> bool" where
  "verify_proof sha leaf_hash proof1 root = (fold (verify_step sha) proof1 leaf_hash = root)"

text \<open>The tree over the shards' roots.\<close>

record global_tree =
  shard_roots :: "(u32 \<times> h256) list"
  cached_global :: "h256 option"

definition global_new :: global_tree where
  "global_new = \<lparr>shard_roots = [], cached_global = None\<rparr>"

definition update_shard :: "u32 \<Rightarrow> h256 \<Rightarrow> global_tree \<Rightarrow> global_tree" where
  "update_shard shard_id r g = g\<lparr>shard_roots := bt_insert shard_id r (shard_roots g), cached_global := None\<rparr>"

definition global_root :: "(u8 list \<Rightarrow> h256) \<Rightarrow> global_tree \<Rightarrow> h256 \<times> global_tree" where
  "global_root sha g =
     (case cached_global g of
        Some r \<Rightarrow> (r, g)
      | None \<Rightarrow> (let r = shard_build_tree sha (map snd (shard_roots g)) in (r, g\<lparr>cached_global := Some r\<rparr>)))"

section \<open>Levels and proofs\<close>

lemma next_level_nth:
  "2 * j < length xs \<Longrightarrow> next_level sha xs ! j =
     hash_pair sha (xs ! (2 * j)) (xs ! (if 2 * j + 1 < length xs then 2 * j + 1 else 2 * j))"
proof (induction sha xs arbitrary: j rule: next_level.induct)
  case (1 sha a b rest)
  show ?case
  proof (cases j)
    case (Suc i)
    then show ?thesis using "1.IH" [of i] "1.prems" by (auto simp: numeral_2_eq_2)
  qed simp
qed auto

lemma shard_build_tree_reduce: "xs \<noteq> [] \<Longrightarrow> shard_build_tree sha xs = reduce_levels sha xs"
  by (cases xs rule: remdups_adj.cases) (simp_all add: shard_build_tree_def reduce_levels.simps [of sha "[_]"])

lemma verify_step_level:
  assumes "i < length xs"
  shows "verify_step sha (xs ! (if i mod 2 = 0 then if i + 1 < length xs then i + 1 else i else i - 1), i mod 2 = 0) (xs ! i)
    = next_level sha xs ! (i div 2)"
proof (cases "even i")
  case True
  then obtain j where "i = 2 * j" by blast
  then show ?thesis using assms by (simp add: verify_step_def next_level_nth)
next
  case False
  then obtain j where "i = 2 * j + 1" by (blast elim: oddE)
  then show ?thesis using assms by (simp add: verify_step_def next_level_nth)
qed

lemma proof_levels_verify:
  "i < length xs \<Longrightarrow> fold (verify_step sha) (proof_levels sha xs i) (xs ! i) = reduce_levels sha xs"
proof (induction sha xs i rule: proof_levels.induct)
  case (1 sha xs i)
  show ?case
  proof (cases "1 < length xs")
    case True
    have "(let sib = if i mod 2 = 0 then i + 1 else i - 1 in if sib < length xs then xs ! sib else xs ! i) =
        xs ! (if i mod 2 = 0 then if i + 1 < length xs then i + 1 else i else i - 1)"
      using "1.prems" by (auto simp: Let_def)
    then have "fold (verify_step sha) (proof_levels sha xs i) (xs ! i) =
        fold (verify_step sha) (proof_levels sha (next_level sha xs) (i div 2)) (next_level sha xs ! (i div 2))"
      using True verify_step_level [OF "1.prems", of sha]
      by (subst proof_levels.simps) (simp add: Let_def)
    also have "\<dots> = reduce_levels sha (next_level sha xs)"
      by (rule "1.IH" [OF True refl refl refl]) (use "1.prems" True in simp)
    finally show ?thesis using True by (simp add: reduce_levels.simps [of sha xs])
  next
    case False
    then have "i = 0" "length xs = 1" using "1.prems" by linarith+
    then show ?thesis by (simp add: proof_levels.simps [of sha xs] reduce_levels.simps [of sha xs])
  qed
qed

lemma position_Some:
  "position k ks = Some i \<Longrightarrow> i < length ks \<and> ks ! i = k"
  by (induction ks arbitrary: i) (auto split: if_splits)

lemma position_None: "position k ks = None \<longleftrightarrow> k \<notin> set ks"
  by (induction ks) auto

section \<open>Runs of the tree\<close>

datatype tree_call = Insert_call int h256 | Remove_call int | Root_call | Proof_call int

fun tree_exec :: "(u8 list \<Rightarrow> h256) \<Rightarrow> tree_call \<Rightarrow> shard_tree \<Rightarrow> shard_tree" where
  "tree_exec sha (Insert_call k h) t = tree_insert k h t"
| "tree_exec sha (Remove_call k) t = snd (tree_remove k t)"
| "tree_exec sha Root_call t = snd (tree_root sha t)"
| "tree_exec sha (Proof_call k) t = snd (tree_proof sha k t)"

text \<open>What a call does to the contents, and the root that the contents determine.\<close>

fun call_effect :: "tree_call \<Rightarrow> (int \<rightharpoonup> h256) \<Rightarrow> (int \<rightharpoonup> h256)" where
  "call_effect (Insert_call k h) m = m(k \<mapsto> h)"
| "call_effect (Remove_call k) m = m(k := None)"
| "call_effect _ m = m"

definition contents_root :: "(u8 list \<Rightarrow> h256) \<Rightarrow> (int \<rightharpoonup> h256) \<Rightarrow> h256" where
  "contents_root sha m = shard_build_tree sha (map (\<lambda>k. the (m k)) (sorted_list_of_set (dom m)))"

definition tree_inv :: "(u8 list \<Rightarrow> h256) \<Rightarrow> (int \<rightharpoonup> h256) \<Rightarrow> shard_tree \<Rightarrow> bool" where
  "tree_inv sha m t \<longleftrightarrow> sorted_keys (leaves t) \<and> map_of (leaves t) = m \<and>
     (\<forall>r. cached_root t = Some r \<longrightarrow> r = shard_build_tree sha (map snd (leaves t)))"

lemma tree_root_inv:
  assumes "tree_inv sha m t"
  shows "fst (tree_root sha t) = shard_build_tree sha (map snd (leaves t))"
    and "tree_inv sha m (snd (tree_root sha t))" and "leaves (snd (tree_root sha t)) = leaves t"
  using assms by (auto simp: tree_inv_def tree_root_def shard_build_tree_def Let_def split: option.splits)

lemma bt_remove_absent: "k \<notin> fst ` set m \<Longrightarrow> bt_remove k m = m"
  by (induction k m rule: bt_remove.induct) auto

lemma tree_exec_inv:
  assumes "tree_inv sha m t"
  shows "tree_inv sha (call_effect c m) (tree_exec sha c t)"
proof -
  have S: "sorted_keys (leaves t)" and M: "map_of (leaves t) = m"
    and C: "\<And>r. cached_root t = Some r \<Longrightarrow> r = shard_build_tree sha (map snd (leaves t))"
    using assms by (auto simp: tree_inv_def)
  show ?thesis
  proof (cases c)
    case (Insert_call k h)
    then show ?thesis using bt.update_refines [OF S, of k "Some h"] M by (simp add: tree_inv_def tree_insert_def)
  next
    case (Remove_call k)
    have "bt_remove k (leaves t) = leaves t" if "map_of (leaves t) k = None"
      using that by (simp add: bt_remove_absent map_of_eq_None_iff)
    then show ?thesis using bt.update_refines [OF S, of k None] M C Remove_call
      by (auto simp: tree_inv_def tree_remove_def Let_def)
  qed (use assms in \<open>simp_all add: tree_proof_def Let_def tree_root_inv\<close>)
qed

lemma tree_run_inv:
  "tree_inv sha m t \<Longrightarrow> tree_inv sha (fold call_effect calls m) (fold (tree_exec sha) calls t)"
  by (induction calls arbitrary: m t) (simp_all add: tree_exec_inv)

lemma tree_new_inv: "tree_inv sha Map.empty tree_new"
  by (simp add: tree_inv_def tree_new_def)

lemma entries_contents:
  assumes "sorted_keys m"
  shows "map snd m = map (\<lambda>k. the (map_of m k)) (sorted_list_of_set (dom (map_of m)))"
proof -
  have d: "sorted (map fst m)" "distinct (map fst m)" using assms by (simp_all add: sorted_keys_def strict_sorted_iff)
  have "sorted_list_of_set (dom (map_of m)) = map fst m"
    using d by (metis dom_map_of_conv_image_fst list.set_map sorted_list_of_set.idem_if_sorted_distinct)
  then show ?thesis using d(2) by (auto simp: comp_def)
qed

lemma root_of_contents: "tree_inv sha m t \<Longrightarrow> fst (tree_root sha t) = contents_root sha m"
  using entries_contents [of "leaves t"] by (simp add: tree_root_inv contents_root_def) (simp add: tree_inv_def)

section \<open>What the tree guarantees\<close>

text \<open>
  The root is a function of the contents: after any sequence of insertions, removals, root
  queries and proofs, the root that is returned, cached or not, is the root over the stored
  hashes in the order of their identifiers. The order in which they came does not matter.
\<close>

theorem shard_root_of_contents:
  "fst (tree_root sha (fold (tree_exec sha) calls tree_new)) =
     contents_root sha (fold call_effect calls Map.empty)"
  by (rule root_of_contents [OF tree_run_inv [OF tree_new_inv]])

text \<open>
  C39. Inclusion proofs: after any sequence of calls, a node that is stored gets a proof, and the
  proof verifies its hash against the current root; a node that is not stored gets none.
\<close>

theorem shard_proofs_verify:
  "case fold call_effect calls Map.empty node of
     None \<Rightarrow> fst (tree_proof sha node (fold (tree_exec sha) calls tree_new)) = None
   | Some h \<Rightarrow> \<exists>path. fst (tree_proof sha node (fold (tree_exec sha) calls tree_new)) = Some path \<and>
       verify_proof sha h path (fst (tree_root sha (fold (tree_exec sha) calls tree_new)))"
proof -
  define t where "t = fold (tree_exec sha) calls tree_new"
  have I: "tree_inv sha (fold call_effect calls Map.empty) t"
    unfolding t_def by (rule tree_run_inv [OF tree_new_inv])
  let ?m = "leaves t"
  have S: "sorted_keys ?m" and M: "map_of ?m = fold call_effect calls Map.empty"
    using I by (auto simp: tree_inv_def)
  have P: "fst (tree_proof sha node t) =
      map_option (proof_levels sha (map snd ?m)) (position node (map fst ?m))"
    using tree_root_inv(3) [OF I] by (simp add: tree_proof_def Let_def split: option.splits)
  have "\<exists>path. fst (tree_proof sha node t) = Some path \<and> verify_proof sha h path (fst (tree_root sha t))"
    if h: "map_of ?m node = Some h" for h
  proof -
    obtain i where i: "position node (map fst ?m) = Some i"
      using h position_None [of node "map fst ?m"] by (metis not_None_eq map_of_eq_None_iff list.set_map)
    note ii = position_Some [OF i]
    have "map_of ?m (fst (?m ! i)) = Some (snd (?m ! i))"
      by (rule map_of_is_SomeI) (use S ii in \<open>simp_all add: sorted_keys_def strict_sorted_iff\<close>)
    moreover have "fst (?m ! i) = node" using ii by auto
    ultimately have "snd (?m ! i) = h" using h by simp
    moreover have "map snd ?m \<noteq> []" using ii by auto
    ultimately show ?thesis
      using proof_levels_verify [of i "map snd ?m" sha] ii tree_root_inv(1) [OF I]
      by (auto simp: P i verify_proof_def shard_build_tree_reduce)
  qed
  moreover have "fst (tree_proof sha node t) = None" if "map_of ?m node = None"
    using that by (simp add: P position_None map_of_eq_None_iff)
  ultimately show ?thesis unfolding t_def [symmetric] M [symmetric] by (simp split: option.splits)
qed

lemma hash_pair_collision:
  "hash_pair sha a b = hash_pair sha c d \<Longrightarrow> (a, b) \<noteq> (c, d) \<Longrightarrow> \<exists>x y. x \<noteq> y \<and> sha x = sha y"
proof -
  assume e: "hash_pair sha a b = hash_pair sha c d" and n: "(a, b) \<noteq> (c, d)"
  from n have "be_bytes a @ be_bytes b \<noteq> be_bytes c @ be_bytes d" by (simp add: be_bytes_inject)
  with e show ?thesis unfolding hash_pair_def by blast
qed

text \<open>
  Proofs are binding: two proofs with the same directions that verify different hashes, or
  the same hash with different siblings, against one root exhibit a collision of SHA-256.
\<close>

theorem shard_proofs_bind:
  assumes "verify_proof sha leaf path root" and "verify_proof sha leaf' path' root"
    and "map snd path = map snd path'" and "(leaf, path) \<noteq> (leaf', path')"
  shows "\<exists>x y. x \<noteq> y \<and> sha x = sha y"
  using assms
proof (induction path arbitrary: leaf leaf' path')
  case Nil
  then show ?case by (simp add: verify_proof_def)
next
  case (Cons e path)
  obtain sib dir where e: "e = (sib, dir)" by (cases e)
  with Cons.prems(3) obtain sib' rest where p: "path' = (sib', dir) # rest" "map snd path = map snd rest"
    by (cases path') auto
  let ?n = "verify_step sha (sib, dir) leaf" and ?n' = "verify_step sha (sib', dir) leaf'"
  have v: "verify_proof sha ?n path root" "verify_proof sha ?n' rest root"
    using Cons.prems(1,2) by (simp_all add: verify_proof_def e p)
  show ?case
  proof (cases "(?n, path) = (?n', rest)")
    case True
    then have "(leaf, sib) \<noteq> (leaf', sib')" using Cons.prems(4) by (auto simp: e p)
    then show ?thesis using True hash_pair_collision [of sha] by (cases dir) (auto simp: verify_step_def)
  next
    case False
    then show ?thesis by (rule Cons.IH [OF v p(2)])
  qed
qed

lemma next_level_duplicate:
  "odd (length xs) \<Longrightarrow> next_level sha (xs @ [last xs]) = next_level sha xs"
  by (induction sha xs rule: next_level.induct) auto

lemma shard_build_tree_duplicate:
  assumes "odd (length xs)" and "3 \<le> length xs"
  shows "shard_build_tree sha (xs @ [last xs]) = shard_build_tree sha xs"
proof -
  have "xs \<noteq> []" using assms by auto
  then show ?thesis
    using assms(2) next_level_duplicate [OF assms(1)]
    by (simp add: shard_build_tree_reduce reduce_levels.simps [of sha "xs @ _"] reduce_levels.simps [of sha xs])
qed

lemma bt_insert_last:
  "\<forall>j \<in> fst ` set m. j < k \<Longrightarrow> bt_insert k v m = m @ [(k, v)]"
  by (induction k v m rule: bt_insert.induct) auto

text \<open>
  The root does not tell the number of leaves: when the number is odd and at least three,
  storing the hash of the last node once more under any larger identifier changes the
  contents and leaves the root as it was.
\<close>

theorem shard_root_ambiguous:
  assumes "t = fold (tree_exec sha) calls tree_new" and "odd (length (leaves t))" and "3 \<le> length (leaves t)"
    and "fst (last (leaves t)) < node"
  shows "leaves (tree_insert node (snd (last (leaves t))) t) \<noteq> leaves t \<and>
    fst (tree_root sha (tree_insert node (snd (last (leaves t))) t)) = fst (tree_root sha t)"
proof -
  have I: "tree_inv sha (fold call_effect calls Map.empty) t"
    unfolding assms(1) by (rule tree_run_inv [OF tree_new_inv])
  let ?m = "leaves t" and ?h = "snd (last (leaves t))"
  have ne: "?m \<noteq> []" using assms(3) by auto
  have "sorted (map fst ?m)" using I by (simp add: tree_inv_def sorted_keys_def strict_sorted_iff)
  then have "\<forall>j \<in> fst ` set ?m. j \<le> fst (last ?m)"
    using ne by (cases ?m rule: rev_cases) (auto simp: sorted_append)
  then have ins: "bt_insert node ?h ?m = ?m @ [(node, ?h)]"
    using assms(4) by (intro bt_insert_last) force
  have "fst (tree_root sha (tree_insert node ?h t)) = shard_build_tree sha (map snd ?m @ [last (map snd ?m)])"
    using tree_root_inv(1) [OF tree_exec_inv [OF I, of "Insert_call node ?h"]] ne
    by (simp add: tree_insert_def ins last_map)
  also have "\<dots> = fst (tree_root sha t)"
    using assms(2,3) by (simp add: shard_build_tree_duplicate tree_root_inv(1) [OF I])
  finally show ?thesis by (simp add: tree_insert_def ins)
qed

text \<open>The tree over the shards has the same contract.\<close>

definition global_inv :: "(u8 list \<Rightarrow> h256) \<Rightarrow> (u32 \<rightharpoonup> h256) \<Rightarrow> global_tree \<Rightarrow> bool" where
  "global_inv sha m g \<longleftrightarrow> sorted_keys (shard_roots g) \<and> map_of (shard_roots g) = m \<and>
     (\<forall>r. cached_global g = Some r \<longrightarrow> r = shard_build_tree sha (map snd (shard_roots g)))"

lemma global_root_of_contents:
  assumes "global_inv sha m g"
  shows "fst (global_root sha g) = shard_build_tree sha (map (\<lambda>k. the (m k)) (sorted_list_of_set (dom m)))"
    and "global_inv sha m (snd (global_root sha g))"
    and "global_inv sha (m(k \<mapsto> r)) (update_shard k r g)"
proof -
  have S: "sorted_keys (shard_roots g)" using assms by (simp add: global_inv_def)
  show "fst (global_root sha g) = shard_build_tree sha (map (\<lambda>k. the (m k)) (sorted_list_of_set (dom m)))"
    "global_inv sha m (snd (global_root sha g))"
    using assms entries_contents [OF S] by (auto simp: global_inv_def global_root_def Let_def split: option.splits)
  show "global_inv sha (m(k \<mapsto> r)) (update_shard k r g)"
    using assms by (simp add: global_inv_def update_shard_def bt_insert_sorted bt_insert_lookup)
qed

section \<open>Concrete runs\<close>

text \<open>A function on byte strings in the place of SHA-256, and one that has collisions.\<close>

definition sum_sha :: "u8 list \<Rightarrow> h256" where
  "sum_sha bs = of_nat (foldl (\<lambda>n b. 3 * n + unat b) 7 bs)"

definition three_leaves :: "tree_call list" where
  "three_leaves = [Insert_call 4 30, Insert_call (- 1) 10, Root_call, Insert_call 2 20, Insert_call 9 1, Remove_call 9]"

lemma three_leaves: "leaves (fold (tree_exec sha) three_leaves tree_new) = [(- 1, 10), (2, 20), (4, 30)]"
  by (simp add: three_leaves_def tree_new_def tree_insert_def tree_remove_def tree_root_def Let_def)

theorem shard_root_ambiguous_witness:
  "fst (tree_root sum_sha (fold (tree_exec sum_sha) (three_leaves @ [Insert_call 5 30]) tree_new)) =
   fst (tree_root sum_sha (fold (tree_exec sum_sha) three_leaves tree_new))"
  using shard_root_ambiguous [OF refl, of sum_sha three_leaves 5] by (simp add: three_leaves)

definition length_sha :: "u8 list \<Rightarrow> h256" where
  "length_sha bs = of_nat (length bs)"

theorem shard_proofs_bind_witness: "\<exists>x y. x \<noteq> y \<and> length_sha x = length_sha y"
  by (rule shard_proofs_bind [where leaf = 1 and leaf' = 2 and path = "[(3, True)]" and path' = "[(3, True)]" and root = 64])
    (simp_all add: verify_proof_def verify_step_def hash_pair_def length_sha_def)

end
