(* ===== verification/KyberTransport.thy ===== *)
theory KyberTransport
  imports Prelude
begin

text \<open>
  The post-quantum transport, \<open>substrate-node/crypto/kyber-transport/src\<close>: the messages and
  errors (\<open>lib.rs\<close>, \<open>error.rs\<close>), the ML-KEM handshake (\<open>handshake.rs\<close>), the encrypted session
  (\<open>session.rs\<close>) and the transport that combines them (\<open>transport.rs\<close>). ML-KEM, HKDF-SHA256 and
  AES-256-GCM are third-party crates and enter as parameters, randomness as an argument of the
  call that draws it. A method with a mutable receiver returns its result and the object as it
  is left, also when the result is an error.
\<close>

section \<open>Messages and errors\<close>

definition NONCE_SIZE :: nat where "NONCE_SIZE = 12"
definition TAG_SIZE :: nat where "TAG_SIZE = 16"
definition MAX_MESSAGE_SIZE :: nat where "MAX_MESSAGE_SIZE = 65536"
definition PROTOCOL_VERSION :: u8 where "PROTOCOL_VERSION = 1"
definition HKDF_INFO :: "u8 list" where "HKDF_INFO = ascii ''qubitcoin-kyber-session-v1''"
definition EK_SIZE :: nat where "EK_SIZE = 1184"
definition CT_SIZE :: nat where "CT_SIZE = 1088"
definition NONCE_OVERFLOW_THRESHOLD :: u64 where "NONCE_OVERFLOW_THRESHOLD = 4294967295"

lemmas kyber_consts = NONCE_SIZE_def TAG_SIZE_def MAX_MESSAGE_SIZE_def PROTOCOL_VERSION_def
  EK_SIZE_def CT_SIZE_def NONCE_OVERFLOW_THRESHOLD_def

datatype message_type = KyberPubKey | KyberCiphertext | HandshakeComplete | EncryptedData | Rekey

text \<open>
  The errors. The text of a message is kept where it is a constant; the numbers and error
  values that are formatted into the others are kept as arguments.
\<close>

datatype kyber_error =
    InvalidMessageType u8
  | KeyGeneration string
  | Encapsulation string
  | InvalidKeySize nat
  | Decapsulation string
  | InvalidCiphertextSize nat
  | Encryption string
  | Decryption
  | KeyDerivation string
  | Handshake string
  | SessionNotEstablished
  | MessageTooLarge nat nat
  | UnexpectedMessage message_type message_type
  | VersionMismatch u8 u8
  | NonceOverflow
  | Panic

fun message_code :: "message_type \<Rightarrow> u8" where
  "message_code KyberPubKey = 0x01"
| "message_code KyberCiphertext = 0x02"
| "message_code HandshakeComplete = 0x03"
| "message_code EncryptedData = 0x10"
| "message_code Rekey = 0x20"

definition message_type_try_from :: "u8 \<Rightarrow> kyber_error + message_type" where
  "message_type_try_from v =
     (if v = 0x01 then Inr KyberPubKey
      else if v = 0x02 then Inr KyberCiphertext
      else if v = 0x03 then Inr HandshakeComplete
      else if v = 0x10 then Inr EncryptedData
      else if v = 0x20 then Inr Rekey
      else Inl (InvalidMessageType v))"

text \<open>
  The third-party primitives: key generation and encapsulation with their randomness, HKDF
  expansion to 32 bytes, and authenticated encryption. \<open>None\<close> and \<open>Inl\<close> are failures.
\<close>

record ('r, 'dk) crypto_suite =
  kem_generate :: "'r \<Rightarrow> 'dk \<times> u8 list"
  kem_encapsulate :: "'r \<Rightarrow> u8 list \<Rightarrow> string + (u8 list \<times> u8 list)"
  kem_decapsulate :: "'dk \<Rightarrow> u8 list \<Rightarrow> string + u8 list"
  hkdf :: "u8 list \<Rightarrow> u8 list \<Rightarrow> u8 list option"
  aead_encrypt :: "u8 list \<Rightarrow> u8 list \<Rightarrow> u8 list \<Rightarrow> u8 list option"
  aead_decrypt :: "u8 list \<Rightarrow> u8 list \<Rightarrow> u8 list \<Rightarrow> u8 list option"

section \<open>Handshake\<close>

datatype handshake_role = Initiator | Responder

record 'dk handshake =
  hs_role :: handshake_role
  hs_decapsulation_key :: "'dk option"
  hs_kyber_secret :: "u8 list option"
  hs_classical_secret :: "u8 list option"
  hs_complete :: bool

definition handshake_new :: "handshake_role \<Rightarrow> u8 list option \<Rightarrow> 'dk handshake" where
  "handshake_new role classical = \<lparr>hs_role = role, hs_decapsulation_key = None,
     hs_kyber_secret = None, hs_classical_secret = classical, hs_complete = False\<rparr>"

definition initiator_generate_pubkey ::
  "('r, 'dk) crypto_suite \<Rightarrow> 'r \<Rightarrow> 'dk handshake \<Rightarrow> (kyber_error + u8 list) \<times> 'dk handshake" where
  "initiator_generate_pubkey cs rnd h =
     (if hs_role h \<noteq> Initiator then (Inl (Handshake ''only initiator can generate pubkey''), h)
      else (let (dk, ek) = kem_generate cs rnd
            in (Inr (PROTOCOL_VERSION # message_code KyberPubKey # ek), h\<lparr>hs_decapsulation_key := Some dk\<rparr>)))"

text \<open>The checks both peers make of a handshake message: length, version, type.\<close>

definition parse_handshake :: "message_type \<Rightarrow> u8 list \<Rightarrow> kyber_error + u8 list" where
  "parse_handshake expected msg =
     (if length msg < 3 then Inl (Handshake ''message too short'')
      else if msg ! 0 \<noteq> PROTOCOL_VERSION then Inl (VersionMismatch PROTOCOL_VERSION (msg ! 0))
      else (case message_type_try_from (msg ! 1) of
              Inl e \<Rightarrow> Inl e
            | Inr t \<Rightarrow> if t \<noteq> expected then Inl (UnexpectedMessage expected t) else Inr (drop 2 msg)))"

definition responder_encapsulate ::
  "('r, 'dk) crypto_suite \<Rightarrow> 'r \<Rightarrow> u8 list \<Rightarrow> 'dk handshake \<Rightarrow> (kyber_error + u8 list) \<times> 'dk handshake" where
  "responder_encapsulate cs rnd msg h =
     (if hs_role h \<noteq> Responder then (Inl (Handshake ''only responder can encapsulate''), h)
      else (case parse_handshake KyberPubKey msg of
              Inl e \<Rightarrow> (Inl e, h)
            | Inr ek \<Rightarrow>
                if length ek \<noteq> EK_SIZE then (Inl (InvalidKeySize (length ek)), h)
                else (case kem_encapsulate cs rnd ek of
                        Inl e \<Rightarrow> (Inl (Encapsulation e), h)
                      | Inr (ct, ss) \<Rightarrow>
                          (Inr (PROTOCOL_VERSION # message_code KyberCiphertext # ct),
                           h\<lparr>hs_kyber_secret := Some ss\<rparr>))))"

text \<open>The decapsulation key is taken before it is used, so a failed attempt consumes it.\<close>

definition initiator_decapsulate ::
  "('r, 'dk) crypto_suite \<Rightarrow> u8 list \<Rightarrow> 'dk handshake \<Rightarrow> (kyber_error + unit) \<times> 'dk handshake" where
  "initiator_decapsulate cs msg h =
     (if hs_role h \<noteq> Initiator then (Inl (Handshake ''only initiator can decapsulate''), h)
      else (case parse_handshake KyberCiphertext msg of
              Inl e \<Rightarrow> (Inl e, h)
            | Inr ct \<Rightarrow>
                if length ct \<noteq> CT_SIZE then (Inl (InvalidCiphertextSize (length ct)), h)
                else (case hs_decapsulation_key h of
                        None \<Rightarrow> (Inl (Decapsulation ''decapsulation key already consumed''), h)
                      | Some dk \<Rightarrow>
                          (let h1 = h\<lparr>hs_decapsulation_key := None\<rparr>
                           in case kem_decapsulate cs dk ct of
                                Inl e \<Rightarrow> (Inl (Decapsulation e), h1)
                              | Inr ss \<Rightarrow> (Inr (), h1\<lparr>hs_kyber_secret := Some ss\<rparr>)))))"

definition complete_message :: "u8 list" where
  "complete_message = [PROTOCOL_VERSION, message_code HandshakeComplete]"

definition verify_complete :: "u8 list \<Rightarrow> kyber_error + unit" where
  "verify_complete msg =
     (if length msg < 2 then Inl (Handshake ''complete message too short'')
      else if msg ! 0 \<noteq> PROTOCOL_VERSION then Inl (VersionMismatch PROTOCOL_VERSION (msg ! 0))
      else (case message_type_try_from (msg ! 1) of
              Inl e \<Rightarrow> Inl e
            | Inr t \<Rightarrow> if t \<noteq> HandshakeComplete then Inl (UnexpectedMessage HandshakeComplete t) else Inr ()))"

definition derive_session_key ::
  "('r, 'dk) crypto_suite \<Rightarrow> 'dk handshake \<Rightarrow> (kyber_error + u8 list) \<times> 'dk handshake" where
  "derive_session_key cs h =
     (case hs_kyber_secret h of
        None \<Rightarrow> (Inl (KeyDerivation ''kyber shared secret not available''), h)
      | Some ss \<Rightarrow>
          (let h1 = h\<lparr>hs_kyber_secret := None\<rparr>;
               ikm = (case hs_classical_secret h of None \<Rightarrow> [] | Some classical \<Rightarrow> classical) @ ss
           in case hkdf cs ikm HKDF_INFO of
                None \<Rightarrow> (Inl (KeyDerivation ''HKDF expand failed''), h1)
              | Some key \<Rightarrow> (Inr key, h1\<lparr>hs_complete := True\<rparr>)))"

section \<open>Session\<close>

record session =
  ss_send_key :: "u8 list"
  ss_recv_key :: "u8 list"
  ss_send_nonce :: u64
  ss_recv_nonce :: u64
  ss_bytes_encrypted :: u64
  ss_bytes_decrypted :: u64
  ss_messages_sent :: u64
  ss_messages_received :: u64

text \<open>\<open>derive_directional_keys\<close>; \<open>None\<close> is the panic of \<open>expect\<close>.\<close>

definition derive_directional_keys ::
  "('r, 'dk) crypto_suite \<Rightarrow> u8 list \<Rightarrow> bool \<Rightarrow> (u8 list \<times> u8 list) option" where
  "derive_directional_keys cs key is_initiator =
     (case hkdf cs key (ascii ''qubitcoin-session-init-to-resp-v1'') of
        None \<Rightarrow> None
      | Some init_to_resp \<Rightarrow>
          (case hkdf cs key (ascii ''qubitcoin-session-resp-to-init-v1'') of
             None \<Rightarrow> None
           | Some resp_to_init \<Rightarrow>
               Some (if is_initiator then (init_to_resp, resp_to_init) else (resp_to_init, init_to_resp))))"

definition session_new :: "('r, 'dk) crypto_suite \<Rightarrow> u8 list \<Rightarrow> bool \<Rightarrow> kyber_error + session" where
  "session_new cs key is_initiator =
     (case derive_directional_keys cs key is_initiator of
        None \<Rightarrow> Inl Panic
      | Some (send_key, recv_key) \<Rightarrow>
          Inr \<lparr>ss_send_key = send_key, ss_recv_key = recv_key, ss_send_nonce = 0, ss_recv_nonce = 0,
               ss_bytes_encrypted = 0, ss_bytes_decrypted = 0, ss_messages_sent = 0, ss_messages_received = 0\<rparr>)"

definition build_nonce :: "u64 \<Rightarrow> u8 list" where
  "build_nonce counter = replicate 4 0 @ be_bytes counter"

definition session_encrypt ::
  "('r, 'dk) crypto_suite \<Rightarrow> u8 list \<Rightarrow> session \<Rightarrow> (kyber_error + u8 list) \<times> session" where
  "session_encrypt cs plaintext s =
     (if MAX_MESSAGE_SIZE < length plaintext then (Inl (MessageTooLarge (length plaintext) MAX_MESSAGE_SIZE), s)
      else if NONCE_OVERFLOW_THRESHOLD \<le> ss_send_nonce s then (Inl NonceOverflow, s)
      else (let nonce = build_nonce (ss_send_nonce s)
            in case aead_encrypt cs (ss_send_key s) nonce plaintext of
                 None \<Rightarrow> (Inl (Encryption ''AES-GCM encrypt failed''), s)
               | Some ciphertext \<Rightarrow>
                   (Inr (message_code EncryptedData # nonce @ ciphertext),
                    s\<lparr>ss_send_nonce := ss_send_nonce s + 1,
                      ss_bytes_encrypted := ss_bytes_encrypted s + of_nat (length plaintext),
                      ss_messages_sent := ss_messages_sent s + 1\<rparr>)))"

definition session_decrypt ::
  "('r, 'dk) crypto_suite \<Rightarrow> u8 list \<Rightarrow> session \<Rightarrow> (kyber_error + u8 list) \<times> session" where
  "session_decrypt cs frame s =
     (if length frame < 1 + NONCE_SIZE + TAG_SIZE then (Inl Decryption, s)
      else (case message_type_try_from (frame ! 0) of
              Inl e \<Rightarrow> (Inl e, s)
            | Inr t \<Rightarrow>
                if t \<noteq> EncryptedData then (Inl (UnexpectedMessage EncryptedData t), s)
                else (let nonce = take NONCE_SIZE (drop 1 frame); ciphertext = drop (1 + NONCE_SIZE) frame
                      in if nonce \<noteq> build_nonce (ss_recv_nonce s) then (Inl Decryption, s)
                         else (case aead_decrypt cs (ss_recv_key s) nonce ciphertext of
                                 None \<Rightarrow> (Inl Decryption, s)
                               | Some plaintext \<Rightarrow>
                                   (Inr plaintext,
                                    s\<lparr>ss_recv_nonce := ss_recv_nonce s + 1,
                                      ss_bytes_decrypted := ss_bytes_decrypted s + of_nat (length plaintext),
                                      ss_messages_received := ss_messages_received s + 1\<rparr>)))))"

definition rekey_request :: "u8 list" where
  "rekey_request = [message_code Rekey]"

definition reset_after_rekey ::
  "('r, 'dk) crypto_suite \<Rightarrow> u8 list \<Rightarrow> bool \<Rightarrow> session \<Rightarrow> kyber_error + session" where
  "reset_after_rekey cs new_key is_initiator s =
     (case derive_directional_keys cs new_key is_initiator of
        None \<Rightarrow> Inl Panic
      | Some (send_key, recv_key) \<Rightarrow>
          Inr (s\<lparr>ss_send_key := send_key, ss_recv_key := recv_key, ss_send_nonce := 0, ss_recv_nonce := 0\<rparr>))"

section \<open>Transport\<close>

datatype transport_phase = New | Handshaking | Established | Closed

record 'dk transport =
  tp_state :: transport_phase
  tp_handshake :: "'dk handshake"
  tp_session :: "session option"

definition transport_new :: "handshake_role \<Rightarrow> u8 list option \<Rightarrow> 'dk transport" where
  "transport_new role classical =
     \<lparr>tp_state = New, tp_handshake = handshake_new role classical, tp_session = None\<rparr>"

definition start_handshake ::
  "('r, 'dk) crypto_suite \<Rightarrow> 'r \<Rightarrow> 'dk transport \<Rightarrow> (kyber_error + u8 list) \<times> 'dk transport" where
  "start_handshake cs rnd t =
     (if tp_state t \<noteq> New then (Inl (Handshake ''handshake already started''), t)
      else (case initiator_generate_pubkey cs rnd (tp_handshake t) of
              (Inl e, h) \<Rightarrow> (Inl e, t\<lparr>tp_handshake := h\<rparr>)
            | (Inr msg, h) \<Rightarrow> (Inr msg, t\<lparr>tp_handshake := h, tp_state := Handshaking\<rparr>)))"

definition process_handshake_message ::
  "('r, 'dk) crypto_suite \<Rightarrow> 'r \<Rightarrow> u8 list \<Rightarrow> 'dk transport \<Rightarrow> (kyber_error + u8 list option) \<times> 'dk transport" where
  "process_handshake_message cs rnd msg t =
     (case hs_role (tp_handshake t) of
        Responder \<Rightarrow>
          (let t1 = t\<lparr>tp_state := Handshaking\<rparr>
           in case responder_encapsulate cs rnd msg (tp_handshake t) of
                (Inl e, h) \<Rightarrow> (Inl e, t1\<lparr>tp_handshake := h\<rparr>)
              | (Inr response, h) \<Rightarrow> (Inr (Some response), t1\<lparr>tp_handshake := h\<rparr>))
      | Initiator \<Rightarrow>
          (case initiator_decapsulate cs msg (tp_handshake t) of
             (Inl e, h) \<Rightarrow> (Inl e, t\<lparr>tp_handshake := h\<rparr>)
           | (Inr _, h) \<Rightarrow> (Inr None, t\<lparr>tp_handshake := h\<rparr>)))"

definition finalize_handshake ::
  "('r, 'dk) crypto_suite \<Rightarrow> 'dk transport \<Rightarrow> (kyber_error + u8 list) \<times> 'dk transport" where
  "finalize_handshake cs t =
     (case derive_session_key cs (tp_handshake t) of
        (Inl e, h) \<Rightarrow> (Inl e, t\<lparr>tp_handshake := h\<rparr>)
      | (Inr key, h) \<Rightarrow>
          (case session_new cs key (hs_role h = Initiator) of
             Inl e \<Rightarrow> (Inl e, t\<lparr>tp_handshake := h\<rparr>)
           | Inr s \<Rightarrow> (Inr complete_message,
               t\<lparr>tp_handshake := h, tp_session := Some s, tp_state := Established\<rparr>)))"

definition transport_encrypt ::
  "('r, 'dk) crypto_suite \<Rightarrow> u8 list \<Rightarrow> 'dk transport \<Rightarrow> (kyber_error + u8 list) \<times> 'dk transport" where
  "transport_encrypt cs plaintext t =
     (case tp_session t of
        None \<Rightarrow> (Inl SessionNotEstablished, t)
      | Some s \<Rightarrow> (let (r, s') = session_encrypt cs plaintext s in (r, t\<lparr>tp_session := Some s'\<rparr>)))"

definition transport_decrypt ::
  "('r, 'dk) crypto_suite \<Rightarrow> u8 list \<Rightarrow> 'dk transport \<Rightarrow> (kyber_error + u8 list) \<times> 'dk transport" where
  "transport_decrypt cs frame t =
     (case tp_session t of
        None \<Rightarrow> (Inl SessionNotEstablished, t)
      | Some s \<Rightarrow> (let (r, s') = session_decrypt cs frame s in (r, t\<lparr>tp_session := Some s'\<rparr>)))"

definition transport_close :: "'dk transport \<Rightarrow> 'dk transport" where
  "transport_close t = t\<lparr>tp_state := Closed, tp_session := None\<rparr>"

section \<open>What is relied on\<close>

text \<open>
  ML-KEM: an encapsulation for a generated key succeeds and is decapsulated to the same secret,
  and keys and ciphertexts have their fixed sizes. HKDF does not fail at 32 bytes. AES-GCM
  decrypts what it encrypted under the same key and nonce, and adds a tag of 16 bytes.
\<close>

definition kem_laws :: "('r, 'dk) crypto_suite \<Rightarrow> bool" where
  "kem_laws cs \<longleftrightarrow> (\<forall>r. length (snd (kem_generate cs r)) = EK_SIZE \<and>
     (\<forall>r'. \<exists>ct ss. kem_encapsulate cs r' (snd (kem_generate cs r)) = Inr (ct, ss) \<and>
        length ct = CT_SIZE \<and> kem_decapsulate cs (fst (kem_generate cs r)) ct = Inr ss))"

definition hkdf_laws :: "('r, 'dk) crypto_suite \<Rightarrow> bool" where
  "hkdf_laws cs \<longleftrightarrow> (\<forall>ikm info. hkdf cs ikm info \<noteq> None)"

definition aead_laws :: "('r, 'dk) crypto_suite \<Rightarrow> bool" where
  "aead_laws cs \<longleftrightarrow> (\<forall>k n p. \<exists>c. aead_encrypt cs k n p = Some c \<and>
     length c = length p + TAG_SIZE \<and> aead_decrypt cs k n c = Some p)"

section \<open>The handshake\<close>

lemma message_type_roundtrip [simp]: "message_type_try_from (message_code t) = Inr t"
  by (cases t) (simp_all add: message_type_try_from_def)

lemma message_type_decoded: "message_type_try_from v = Inr t \<Longrightarrow> v = message_code t"
  by (auto simp: message_type_try_from_def split: if_splits)

declare message_code.simps [simp del]

lemma parse_handshake_built [simp]:
  "body \<noteq> [] \<Longrightarrow> parse_handshake t (PROTOCOL_VERSION # message_code t # body) = Inr body"
  by (cases body) (simp_all add: parse_handshake_def)

text \<open>The peers of an open channel: each sends with the key the other receives with.\<close>

definition paired :: "session \<Rightarrow> session \<Rightarrow> bool" where
  "paired a b \<longleftrightarrow> ss_send_key a = ss_recv_key b \<and> ss_recv_key a = ss_send_key b \<and>
     ss_send_nonce a = ss_recv_nonce b \<and> ss_recv_nonce a = ss_send_nonce b"

lemma sessions_paired:
  assumes "session_new cs key True = Inr a" and "session_new cs key False = Inr b"
  shows "paired a b \<and> ss_send_nonce a = 0 \<and> ss_recv_nonce a = 0"
  using assms by (auto simp: session_new_def derive_directional_keys_def paired_def split: option.splits)

lemma session_new_succeeds: "hkdf_laws cs \<Longrightarrow> \<exists>s. session_new cs key b = Inr s"
proof -
  assume "hkdf_laws cs"
  then obtain k1 k2 where "hkdf cs key (ascii ''qubitcoin-session-init-to-resp-v1'') = Some k1"
    "hkdf cs key (ascii ''qubitcoin-session-resp-to-init-v1'') = Some k2"
    unfolding hkdf_laws_def by blast
  then show ?thesis by (cases b) (simp_all add: session_new_def derive_directional_keys_def)
qed

text \<open>
  C23. The handshake establishes the channel: with correct primitives and the same classical secret
  on both sides, the three messages are accepted, both peers finish, and the two sessions are
  paired, so that each can read what the other writes.
\<close>

theorem handshake_establishes_channel:
  assumes "kem_laws cs" and "hkdf_laws cs"
  shows "\<exists>m1 m2 i1 r1 i2 i3 r3 a b.
    start_handshake cs x (transport_new Initiator classical) = (Inr m1, i1) \<and>
    process_handshake_message cs y m1 (transport_new Responder classical) = (Inr (Some m2), r1) \<and>
    process_handshake_message cs z m2 i1 = (Inr None, i2) \<and>
    finalize_handshake cs i2 = (Inr complete_message, i3) \<and>
    finalize_handshake cs r1 = (Inr complete_message, r3) \<and>
    verify_complete complete_message = Inr () \<and>
    tp_state i3 = Established \<and> tp_state r3 = Established \<and>
    tp_session i3 = Some a \<and> tp_session r3 = Some b \<and> paired a b \<and>
    ss_send_nonce a = 0 \<and> ss_recv_nonce a = 0"
proof -
  obtain dk ek where g: "kem_generate cs x = (dk, ek)" by fastforce
  have ek: "length ek = EK_SIZE" using assms(1) g by (metis kem_laws_def snd_conv)
  obtain ct ss where e: "kem_encapsulate cs y ek = Inr (ct, ss)" "length ct = CT_SIZE" "kem_decapsulate cs dk ct = Inr ss"
    using assms(1) g unfolding kem_laws_def by (metis fst_conv snd_conv)
  have ne: "ek \<noteq> []" "ct \<noteq> []" using ek e(2) by (auto simp: kyber_consts)
  obtain key where key: "hkdf cs ((case classical of None \<Rightarrow> [] | Some c \<Rightarrow> c) @ ss) HKDF_INFO = Some key"
    using assms(2) unfolding hkdf_laws_def by blast
  obtain a b where ab: "session_new cs key True = Inr a" "session_new cs key False = Inr b"
    using session_new_succeeds [OF assms(2)] by blast
  note defs = start_handshake_def transport_new_def handshake_new_def initiator_generate_pubkey_def
    process_handshake_message_def responder_encapsulate_def initiator_decapsulate_def
    finalize_handshake_def derive_session_key_def
  have "verify_complete complete_message = Inr ()"
    by (simp add: verify_complete_def complete_message_def)
  then show ?thesis using sessions_paired [OF ab]
    by (simp add: defs g ek e ne key ab)
qed

section \<open>The session\<close>

definition frame_nonce :: "u8 list \<Rightarrow> u8 list" where
  "frame_nonce frame = take NONCE_SIZE (drop 1 frame)"

lemma length_build_nonce [simp]: "length (build_nonce c) = NONCE_SIZE"
  by (simp add: build_nonce_def NONCE_SIZE_def)

lemma build_nonce_inject [simp]: "build_nonce c = build_nonce d \<longleftrightarrow> c = d"
  by (simp add: build_nonce_def be_bytes_inject)

lemma session_encrypt_InrD:
  assumes "session_encrypt cs p s = (Inr frame, s')"
  shows "frame_nonce frame = build_nonce (ss_send_nonce s)" "ss_send_nonce s' = ss_send_nonce s + 1"
    "ss_send_nonce s < NONCE_OVERFLOW_THRESHOLD" "ss_recv_nonce s' = ss_recv_nonce s"
    "ss_send_key s' = ss_send_key s" "ss_recv_key s' = ss_recv_key s" "length p \<le> MAX_MESSAGE_SIZE"
  using assms by (auto simp: session_encrypt_def frame_nonce_def Let_def split: if_splits option.splits)

lemma session_encrypt_InlD: "session_encrypt cs p s = (Inl e, s') \<Longrightarrow> s' = s"
  by (auto simp: session_encrypt_def Let_def split: if_splits option.splits)

lemma session_decrypt_InrD:
  assumes "session_decrypt cs frame s = (Inr p, s')"
  shows "frame_nonce frame = build_nonce (ss_recv_nonce s)" "ss_recv_nonce s' = ss_recv_nonce s + 1"
    "ss_send_nonce s' = ss_send_nonce s" "ss_send_key s' = ss_send_key s" "ss_recv_key s' = ss_recv_key s"
    "aead_decrypt cs (ss_recv_key s) (frame_nonce frame) (drop (1 + NONCE_SIZE) frame) = Some p"
  using assms
  by (auto simp: session_decrypt_def frame_nonce_def Let_def split: if_splits option.splits sum.splits)

lemma session_decrypt_InlD: "session_decrypt cs frame s = (Inl e, s') \<Longrightarrow> s' = s"
  by (auto simp: session_decrypt_def Let_def split: if_splits option.splits sum.splits)

text \<open>A message that fits and whose counter has room goes through.\<close>

lemma session_roundtrip:
  assumes "aead_laws cs" and "ss_send_key s = ss_recv_key r" and "ss_send_nonce s = ss_recv_nonce r"
    and "length p \<le> MAX_MESSAGE_SIZE" and "ss_send_nonce s < NONCE_OVERFLOW_THRESHOLD"
  shows "\<exists>frame s' r'. session_encrypt cs p s = (Inr frame, s') \<and> session_decrypt cs frame r = (Inr p, r')"
proof -
  let ?n = "build_nonce (ss_send_nonce s)"
  obtain c where c: "aead_encrypt cs (ss_send_key s) ?n p = Some c" "length c = length p + TAG_SIZE"
    "aead_decrypt cs (ss_send_key s) ?n c = Some p"
    using assms(1) unfolding aead_laws_def by blast
  let ?f = "message_code EncryptedData # ?n @ c"
  have "take NONCE_SIZE (drop 1 ?f) = ?n" "drop (1 + NONCE_SIZE) ?f = c"
    "message_type_try_from (?f ! 0) = Inr EncryptedData" "\<not> length ?f < 1 + NONCE_SIZE + TAG_SIZE"
    using c(2) by (simp_all)
  then have "fst (session_decrypt cs ?f r) = Inr p"
    using c(3) assms(2,3) by (simp add: session_decrypt_def Let_def)
  moreover have "fst (session_encrypt cs p s) = Inr ?f"
    using c(1) assms(4,5) by (simp add: session_encrypt_def Let_def)
  ultimately show ?thesis by (metis prod.collapse)
qed

text \<open>Sending, and receiving, a sequence of messages, up to the first error.\<close>

fun send_all :: "('r, 'dk) crypto_suite \<Rightarrow> u8 list list \<Rightarrow> session \<Rightarrow> (kyber_error + u8 list list) \<times> session" where
  "send_all cs [] s = (Inr [], s)"
| "send_all cs (p # ps) s =
     (case session_encrypt cs p s of
        (Inl e, s1) \<Rightarrow> (Inl e, s1)
      | (Inr f, s1) \<Rightarrow> (case send_all cs ps s1 of (Inl e, s2) \<Rightarrow> (Inl e, s2) | (Inr fs, s2) \<Rightarrow> (Inr (f # fs), s2)))"

fun receive_all :: "('r, 'dk) crypto_suite \<Rightarrow> u8 list list \<Rightarrow> session \<Rightarrow> (kyber_error + u8 list list) \<times> session" where
  "receive_all cs [] s = (Inr [], s)"
| "receive_all cs (f # fs) s =
     (case session_decrypt cs f s of
        (Inl e, s1) \<Rightarrow> (Inl e, s1)
      | (Inr p, s1) \<Rightarrow> (case receive_all cs fs s1 of (Inl e, s2) \<Rightarrow> (Inl e, s2) | (Inr ps, s2) \<Rightarrow> (Inr (p # ps), s2)))"

lemma threshold [simp]: "unat NONCE_OVERFLOW_THRESHOLD = 4294967295"
  by (simp add: NONCE_OVERFLOW_THRESHOLD_def)

lemma unat_next: "w < NONCE_OVERFLOW_THRESHOLD \<Longrightarrow> unat (w + 1) = unat w + 1"
  using unat_add_lem [of w 1] by (simp add: word_less_nat_alt)

lemma channel_delivers:
  assumes "aead_laws cs" and "ss_send_key s = ss_recv_key r" and "ss_send_nonce s = ss_recv_nonce r"
    and "\<forall>p \<in> set ps. length p \<le> MAX_MESSAGE_SIZE"
    and "unat (ss_send_nonce s) + length ps \<le> 4294967295"
  shows "\<exists>frames s' r'. send_all cs ps s = (Inr frames, s') \<and> receive_all cs frames r = (Inr ps, r') \<and>
    ss_send_nonce s' = ss_recv_nonce r'"
  using assms
proof (induction ps arbitrary: s r)
  case (Cons p ps)
  have lt: "ss_send_nonce s < NONCE_OVERFLOW_THRESHOLD" using Cons.prems(5) by (simp add: word_less_nat_alt)
  obtain f s1 r1 where 1: "session_encrypt cs p s = (Inr f, s1)" "session_decrypt cs f r = (Inr p, r1)"
    using session_roundtrip [OF Cons.prems(1-3) _ lt] Cons.prems(4) by fastforce
  note s1 = session_encrypt_InrD [OF 1(1)] and r1 = session_decrypt_InrD [OF 1(2)]
  have "\<exists>frames s' r'. send_all cs ps s1 = (Inr frames, s') \<and> receive_all cs frames r1 = (Inr ps, r') \<and>
      ss_send_nonce s' = ss_recv_nonce r'"
    by (rule Cons.IH [OF Cons.prems(1)]) (use s1 r1 Cons.prems unat_next [OF lt] in simp_all)
  then show ?case using 1 by fastforce
qed simp

text \<open>
  C24. The channel delivers: between paired sessions, a sequence of messages of at most 64 KiB, as
  long as the nonce counter has room for them, is encrypted without error, and the frames,
  received in order, decrypt to exactly these messages.
\<close>

theorem channel_delivers_in_order:
  assumes "aead_laws cs" and "paired s r"
    and "\<forall>p \<in> set ps. length p \<le> MAX_MESSAGE_SIZE"
    and "unat (ss_send_nonce s) + length ps \<le> 4294967295"
  shows "\<exists>frames s' r'. send_all cs ps s = (Inr frames, s') \<and> receive_all cs frames r = (Inr ps, r')"
  using channel_delivers [OF assms(1) _ _ assms(3,4), of r] assms(2) unfolding paired_def by blast

section \<open>Nonces and replays\<close>

text \<open>
  A run of a session: any sequence of messages to send and frames to receive, errors ignored,
  with the frames sent and the frames accepted, in order.
\<close>

datatype session_action = Send "u8 list" | Receive "u8 list"

fun session_run :: "('r, 'dk) crypto_suite \<Rightarrow> session_action list \<Rightarrow> session \<Rightarrow> u8 list list \<times> u8 list list \<times> session" where
  "session_run cs [] s = ([], [], s)"
| "session_run cs (Send p # acts) s =
     (case session_encrypt cs p s of
        (Inl e, s1) \<Rightarrow> session_run cs acts s1
      | (Inr f, s1) \<Rightarrow> (let (sent, accepted, s2) = session_run cs acts s1 in (f # sent, accepted, s2)))"
| "session_run cs (Receive f # acts) s =
     (case session_decrypt cs f s of
        (Inl e, s1) \<Rightarrow> session_run cs acts s1
      | (Inr p, s1) \<Rightarrow> (let (sent, accepted, s2) = session_run cs acts s1 in (sent, f # accepted, s2)))"

lemma len_u64: "LENGTH(64) = 64"
  by simp

definition counter_nonces :: "u64 \<Rightarrow> nat \<Rightarrow> u8 list list" where
  "counter_nonces c n = map (\<lambda>j. build_nonce (c + of_nat j)) [0..<n]"

lemma counter_nonces_Suc: "counter_nonces c (Suc n) = build_nonce c # counter_nonces (c + 1) n"
  unfolding counter_nonces_def by (simp add: upt_conv_Cons map_Suc_upt [symmetric] comp_def add.assoc del: upt_Suc)

lemma counter_nonces_0 [simp]: "counter_nonces c 0 = []"
  by (simp add: counter_nonces_def)

lemma distinct_counter_nonces:
  assumes "n \<le> 2 ^ 64"
  shows "distinct (counter_nonces c n)"
proof -
  have "inj_on (\<lambda>j. build_nonce (c + of_nat j)) {0..<n}"
  proof (rule inj_onI)
    fix i j assume "i \<in> {0..<n}" "j \<in> {0..<n}" and "build_nonce (c + of_nat i) = build_nonce (c + of_nat j)"
    then have "(of_nat i :: u64) = of_nat j" "i < 2 ^ 64" "j < 2 ^ 64" using assms by auto
    then show "i = j" using unat_of_nat_less [where 'a = 64] by (metis len_u64)
  qed
  then show ?thesis by (simp add: counter_nonces_def distinct_map)
qed

lemma session_run_nonces:
  assumes "session_run cs acts s = (sent, accepted, s')" and "unat (ss_send_nonce s) \<le> 4294967295"
  shows "map frame_nonce sent = counter_nonces (ss_send_nonce s) (length sent) \<and>
    map frame_nonce accepted = counter_nonces (ss_recv_nonce s) (length accepted) \<and>
    length accepted \<le> length acts \<and> unat (ss_send_nonce s) + length sent \<le> 4294967295"
  using assms
proof (induction acts arbitrary: s sent accepted s')
  case (Cons act acts)
  show ?case
  proof (cases act)
    case (Send p)
    obtain r s1 where e: "session_encrypt cs p s = (r, s1)" by fastforce
    show ?thesis
    proof (cases r)
      case (Inl err)
      then show ?thesis using Cons.IH [of s sent accepted s'] Cons.prems Send e session_encrypt_InlD [of cs p s err s1] by simp
    next
      case (Inr f)
      note E = session_encrypt_InrD [OF e [unfolded Inr]]
      obtain sent1 where t: "sent = f # sent1" "session_run cs acts s1 = (sent1, accepted, s')"
        using Cons.prems(1) by (auto simp: Send e Inr split: prod.splits)
      have u: "unat (ss_send_nonce s1) = unat (ss_send_nonce s) + 1" using unat_next [OF E(3)] E(2) by simp
      have "unat (ss_send_nonce s1) \<le> 4294967295" using u E(3) by (simp add: word_less_nat_alt)
      then show ?thesis using Cons.IH [OF t(2)] u E by (simp add: t counter_nonces_Suc)
    qed
  next
    case (Receive f)
    obtain r s1 where e: "session_decrypt cs f s = (r, s1)" by fastforce
    show ?thesis
    proof (cases r)
      case (Inl err)
      then show ?thesis using Cons.IH [of s sent accepted s'] Cons.prems Receive e session_decrypt_InlD [of cs f s err s1] by simp
    next
      case (Inr p)
      note E = session_decrypt_InrD [OF e [unfolded Inr]]
      obtain acc1 where t: "accepted = f # acc1" "session_run cs acts s1 = (sent, acc1, s')"
        using Cons.prems(1) by (auto simp: Receive e Inr split: prod.splits)
      show ?thesis using Cons.IH [OF t(2)] Cons.prems(2) E by (simp add: t counter_nonces_Suc)
    qed
  qed
qed simp

text \<open>
  No nonce is used twice and no frame is accepted twice: over any run of a new session, with
  any frames arriving, the frames it sends carry the counters from zero on, each once, and are
  at most 2^32 - 1, and the frames it accepts carry the counters from zero on, each once, so a
  replayed or reordered frame is not accepted.
\<close>

theorem nonces_and_replays:
  assumes "session_new cs key is_initiator = Inr s" and "session_run cs acts s = (sent, accepted, s')"
    and "length acts \<le> 2 ^ 64"
  shows "distinct (map frame_nonce sent) \<and> distinct (map frame_nonce accepted) \<and>
    map frame_nonce sent = map (\<lambda>j. build_nonce (of_nat j)) [0..<length sent] \<and>
    map frame_nonce accepted = map (\<lambda>j. build_nonce (of_nat j)) [0..<length accepted] \<and>
    length sent \<le> 2 ^ 32 - 1"
proof -
  have z: "ss_send_nonce s = 0" "ss_recv_nonce s = 0"
    using assms(1) by (auto simp: session_new_def split: option.splits)
  have N: "map frame_nonce sent = counter_nonces 0 (length sent)"
    "map frame_nonce accepted = counter_nonces 0 (length accepted)"
    "length accepted \<le> length acts" "length sent \<le> 4294967295"
    using session_run_nonces [OF assms(2)] z by simp_all
  have "length sent \<le> 2 ^ 64" "length accepted \<le> 2 ^ 64" using N(3,4) assms(3) by simp_all
  note D = this [THEN distinct_counter_nonces, of 0]
  show ?thesis using D N(4) unfolding N(1,2) by (simp add: counter_nonces_def)
qed

text \<open>
  Closing a transport is not final: a peer that holds a shared secret can finish the handshake
  after \<open>close\<close> and is established again.
\<close>

lemma close_is_not_final:
  assumes "hkdf_laws cs" and "hs_kyber_secret (tp_handshake t) = Some ss"
  shows "\<exists>t'. finalize_handshake cs (transport_close t) = (Inr complete_message, t') \<and> tp_state t' = Established"
proof -
  obtain key where key: "hkdf cs ((case hs_classical_secret (tp_handshake t) of None \<Rightarrow> [] | Some c \<Rightarrow> c) @ ss) HKDF_INFO = Some key"
    using assms(1) unfolding hkdf_laws_def by blast
  obtain s where "session_new cs key (hs_role (tp_handshake t) = Initiator) = Inr s"
    using session_new_succeeds [OF assms(1)] by blast
  then show ?thesis using assms(2) key
    by (simp add: finalize_handshake_def transport_close_def derive_session_key_def)
qed

section \<open>A concrete suite\<close>

text \<open>
  Primitives that satisfy the laws: the secret is the first 32 bytes of the ciphertext, and
  encryption appends a tag made from the key.
\<close>

definition toy_suite :: "(u8, unit) crypto_suite" where
  "toy_suite = \<lparr>
     kem_generate = (\<lambda>r. ((), replicate EK_SIZE r)),
     kem_encapsulate = (\<lambda>r ek. Inr (replicate CT_SIZE r, replicate 32 r)),
     kem_decapsulate = (\<lambda>dk ct. Inr (take 32 ct)),
     hkdf = (\<lambda>ikm info. Some (take 32 (info @ ikm))),
     aead_encrypt = (\<lambda>k n p. Some (p @ take 16 (k @ replicate 16 0))),
     aead_decrypt = (\<lambda>k n c. if drop (length c - 16) c = take 16 (k @ replicate 16 0)
       then Some (take (length c - 16) c) else None)\<rparr>"

lemma toy_suite_laws: "kem_laws toy_suite" "hkdf_laws toy_suite" "aead_laws toy_suite"
  by (simp_all add: kem_laws_def hkdf_laws_def aead_laws_def toy_suite_def kyber_consts min_def)

theorem handshake_establishes_channel_witness:
  "\<exists>m1 i1. start_handshake toy_suite 5 (transport_new Initiator None) = (Inr m1, i1)"
  using handshake_establishes_channel [OF toy_suite_laws(1,2), of 5 None] by blast

definition toy_session :: "bool \<Rightarrow> session" where
  "toy_session b = (case session_new toy_suite [1, 2, 3] b of Inr s \<Rightarrow> s | Inl _ \<Rightarrow> undefined)"

lemma toy_session: "session_new toy_suite [1, 2, 3] b = Inr (toy_session b)"
  unfolding toy_session_def using session_new_succeeds [OF toy_suite_laws(2)] by (metis sum.simps(6))

theorem channel_delivers_in_order_witness:
  "\<exists>frames s' r'. send_all toy_suite [ascii ''ping'', []] (toy_session True) = (Inr frames, s') \<and>
     receive_all toy_suite frames (toy_session False) = (Inr [ascii ''ping'', []], r')"
  by (rule channel_delivers_in_order [OF toy_suite_laws(3)])
    (use sessions_paired [OF toy_session toy_session] in \<open>simp_all add: MAX_MESSAGE_SIZE_def ascii_def\<close>)

theorem nonces_and_replays_witness:
  "distinct (map frame_nonce (fst (session_run toy_suite [Send [7], Send [8], Receive [1], Send []] (toy_session True))))"
proof -
  obtain sent accepted s' where r:
    "session_run toy_suite [Send [7], Send [8], Receive [1], Send []] (toy_session True) = (sent, accepted, s')"
    using prod_cases3 by blast
  have "length [Send [7], Send [8], Receive [1], Send []] \<le> 2 ^ 64" by simp
  then have "distinct (map frame_nonce sent)" using nonces_and_replays [OF toy_session r] by blast
  then show ?thesis unfolding r by simp
qed

end
