(* ===== verification/SecurityCore.thy ===== *)
theory SecurityCore
  imports Prelude
begin

text \<open>
  The finality votes and the Bloom filter of \<open>security-core/src\<close> (\<open>finality.rs\<close>, \<open>bloom.rs\<close>).
  Stakes are \<open>f64\<close>: their operations are a parameter, and so is the order in which a \<open>HashMap\<close>
  is iterated. A method is one step; the locks it takes are held for the state it reads or
  writes. SHA-256 is a parameter.
\<close>

section \<open>Finality votes\<close>

record 'f stake_ops =
  st_zero :: 'f
  st_add :: "'f \<Rightarrow> 'f \<Rightarrow> 'f"
  st_div :: "'f \<Rightarrow> 'f \<Rightarrow> 'f"
  st_le :: "'f \<Rightarrow> 'f \<Rightarrow> bool" \<comment> \<open>\<open>a <= b\<close>, false when one of them is not a number\<close>

record 'f validator =
  vd_address :: string
  vd_stake :: 'f

record vote =
  vt_voter :: string
  vt_block_height :: u64
  vt_block_hash :: string

record 'f finality_core =
  fc_validators :: "string \<rightharpoonup> 'f validator"
  fc_votes :: "u64 \<rightharpoonup> vote list"
  fc_last_finalized :: u64
  fc_threshold :: 'f
  fc_vote_expiry_blocks :: u64

definition finality_new :: "'f \<Rightarrow> u64 \<Rightarrow> 'f finality_core" where
  "finality_new threshold expiry = \<lparr>fc_validators = Map.empty, fc_votes = Map.empty,
     fc_last_finalized = 0, fc_threshold = threshold, fc_vote_expiry_blocks = expiry\<rparr>"

definition add_validator :: "string \<Rightarrow> 'f \<Rightarrow> 'f finality_core \<Rightarrow> 'f finality_core" where
  "add_validator address stake s =
     s\<lparr>fc_validators := (fc_validators s)(address \<mapsto> \<lparr>vd_address = address, vd_stake = stake\<rparr>)\<rparr>"

definition remove_validator :: "string \<Rightarrow> 'f finality_core \<Rightarrow> 'f finality_core" where
  "remove_validator address s = s\<lparr>fc_validators := (fc_validators s)(address := None)\<rparr>"

text \<open>
  \<open>entry(..).or_insert_with(Vec::new)\<close> leaves an empty list behind even when the vote is then
  refused as a duplicate; a duplicate needs a vote, so that list is never new.
\<close>

definition record_finality_vote :: "string \<Rightarrow> u64 \<Rightarrow> string \<Rightarrow> 'f finality_core \<Rightarrow> bool \<times> 'f finality_core" where
  "record_finality_vote voter height hash s =
     (if fc_validators s voter = None then (False, s)
      else
        (let height_votes = (case fc_votes s height of None \<Rightarrow> [] | Some vs \<Rightarrow> vs);
             s1 = s\<lparr>fc_votes := (fc_votes s)(height \<mapsto> height_votes)\<rparr>
         in if list_ex (\<lambda>v. vt_voter v = voter) height_votes then (False, s1)
            else (True, s\<lparr>fc_votes := (fc_votes s)(height \<mapsto> height_votes @
                    [\<lparr>vt_voter = voter, vt_block_height = height, vt_block_hash = hash\<rparr>])\<rparr>)))"

text \<open>\<open>validators.values().map(|v| v.stake).sum()\<close>, with the keys in the order of iteration.\<close>

definition stake_sum :: "'f stake_ops \<Rightarrow> 'f list \<Rightarrow> 'f" where
  "stake_sum ops stakes = foldl (st_add ops) (st_zero ops) stakes"

definition total_stake ::
  "'f stake_ops \<Rightarrow> ((string \<rightharpoonup> 'f validator) \<Rightarrow> string list) \<Rightarrow> 'f finality_core \<Rightarrow> 'f" where
  "total_stake ops iter s =
     stake_sum ops (map (\<lambda>k. vd_stake (the (fc_validators s k))) (iter (fc_validators s)))"

definition calculate_vote_weight ::
  "'f stake_ops \<Rightarrow> ((string \<rightharpoonup> 'f validator) \<Rightarrow> string list) \<Rightarrow> u64 \<Rightarrow> 'f finality_core \<Rightarrow> 'f \<times> 'f" where
  "calculate_vote_weight ops iter height s =
     (let total = total_stake ops iter s;
          voted = (case fc_votes s height of
             None \<Rightarrow> st_zero ops
           | Some vs \<Rightarrow> stake_sum ops (List.map_filter (\<lambda>v. map_option vd_stake (fc_validators s (vt_voter v))) vs))
      in (voted, total))"

definition check_finality ::
  "'f stake_ops \<Rightarrow> ((string \<rightharpoonup> 'f validator) \<Rightarrow> string list) \<Rightarrow> u64 \<Rightarrow> 'f finality_core \<Rightarrow> bool \<times> 'f finality_core" where
  "check_finality ops iter height s =
     (if height \<le> fc_last_finalized s then (True, s)
      else
        (let (voted, total) = calculate_vote_weight ops iter height s
         in if st_le ops total (st_zero ops) then (False, s)
            else if st_le ops (fc_threshold s) (st_div ops voted total)
            then (True, if fc_last_finalized s < height then s\<lparr>fc_last_finalized := height\<rparr> else s)
            else (False, s)))"

definition get_last_finalized :: "'f finality_core \<Rightarrow> u64" where
  "get_last_finalized s = fc_last_finalized s"

definition validator_count :: "'f finality_core \<Rightarrow> nat" where
  "validator_count s = card (dom (fc_validators s))"

definition vote_count :: "u64 \<Rightarrow> 'f finality_core \<Rightarrow> nat" where
  "vote_count height s = (case fc_votes s height of None \<Rightarrow> 0 | Some vs \<Rightarrow> length vs)"

definition prune_votes :: "u64 \<Rightarrow> 'f finality_core \<Rightarrow> 'f finality_core" where
  "prune_votes current s =
     (if current \<le> fc_vote_expiry_blocks s then s
      else (let cutoff = current - fc_vote_expiry_blocks s
            in s\<lparr>fc_votes := (\<lambda>h. if cutoff \<le> h then fc_votes s h else None)\<rparr>))"

text \<open>A call of the engine, with the answer of those that have one.\<close>

datatype 'f finality_call =
    Add_validator string 'f
  | Remove_validator string
  | Record_vote string u64 string
  | Check_finality u64
  | Prune_votes u64

fun finality_exec ::
  "'f stake_ops \<Rightarrow> ((string \<rightharpoonup> 'f validator) \<Rightarrow> string list) \<Rightarrow> 'f finality_call \<Rightarrow> 'f finality_core
     \<Rightarrow> bool option \<times> 'f finality_core" where
  "finality_exec ops iter (Add_validator a w) s = (None, add_validator a w s)"
| "finality_exec ops iter (Remove_validator a) s = (None, remove_validator a s)"
| "finality_exec ops iter (Record_vote a h x) s = (let (b, s') = record_finality_vote a h x s in (Some b, s'))"
| "finality_exec ops iter (Check_finality h) s = (let (b, s') = check_finality ops iter h s in (Some b, s'))"
| "finality_exec ops iter (Prune_votes h) s = (None, prune_votes h s)"

fun finality_run ::
  "'f stake_ops \<Rightarrow> ((string \<rightharpoonup> 'f validator) \<Rightarrow> string list) \<Rightarrow> 'f finality_call list \<Rightarrow> 'f finality_core
     \<Rightarrow> bool option list \<times> 'f finality_core" where
  "finality_run ops iter [] s = ([], s)"
| "finality_run ops iter (c # cs) s =
     (let (b, s1) = finality_exec ops iter c s; (bs, s2) = finality_run ops iter cs s1 in (b # bs, s2))"

section \<open>Finality is irreversible\<close>

lemma finality_exec_last: "fc_last_finalized s \<le> fc_last_finalized (snd (finality_exec ops iter c s))"
  by (cases c) (auto simp: add_validator_def remove_validator_def record_finality_vote_def check_finality_def
      prune_votes_def Let_def split: prod.splits)

lemma finality_run_last: "fc_last_finalized s \<le> fc_last_finalized (snd (finality_run ops iter cs s))"
proof (induction cs arbitrary: s)
  case (Cons c cs)
  show ?case using order_trans [OF finality_exec_last [of s ops iter c] Cons.IH [of "snd (finality_exec ops iter c s)"]]
    by (simp add: split_def Let_def)
qed simp

lemma check_finality_True:
  "check_finality ops iter h s = (True, s') \<Longrightarrow> h \<le> fc_last_finalized s'"
  by (auto simp: check_finality_def Let_def split: if_splits prod.splits)

text \<open>
  Finality is irreversible: once a height is reported final, it and every lower height are
  reported final after any further calls, whatever validators leave, votes are pruned or
  stakes change.
\<close>

theorem finality_irreversible:
  assumes "check_finality ops iter h s = (True, s1)" and "h' \<le> h"
  shows "fst (check_finality ops iter h' (snd (finality_run ops iter cs s1))) = True"
proof -
  have "h' \<le> fc_last_finalized (snd (finality_run ops iter cs s1))"
    using check_finality_True [OF assms(1)] assms(2) finality_run_last [of s1 ops iter cs] by order
  then show ?thesis by (simp add: check_finality_def)
qed

section \<open>Votes\<close>

text \<open>At each height a voter has one vote, filed under the height it names.\<close>

definition votes_inv :: "'f finality_core \<Rightarrow> bool" where
  "votes_inv s \<longleftrightarrow> (\<forall>h vs. fc_votes s h = Some vs \<longrightarrow>
     distinct (map vt_voter vs) \<and> (\<forall>v \<in> set vs. vt_block_height v = h))"

lemma votes_inv_exec: "votes_inv s \<Longrightarrow> votes_inv (snd (finality_exec ops iter c s))"
proof (cases c)
  case (Record_vote a h x)
  assume I: "votes_inv s"
  have "distinct (map vt_voter (case fc_votes s h of None \<Rightarrow> [] | Some vs \<Rightarrow> vs)) \<and>
    (\<forall>v \<in> set (case fc_votes s h of None \<Rightarrow> [] | Some vs \<Rightarrow> vs). vt_block_height v = h)"
    using I by (cases "fc_votes s h") (simp_all add: votes_inv_def)
  then show ?thesis using I Record_vote
    by (auto simp: record_finality_vote_def Let_def votes_inv_def list_ex_iff split_def)
qed (auto simp: votes_inv_def add_validator_def remove_validator_def check_finality_def prune_votes_def Let_def split_def)

lemma votes_inv_run: "votes_inv s \<Longrightarrow> votes_inv (snd (finality_run ops iter cs s))"
  by (induction cs arbitrary: s) (simp_all add: split_def Let_def votes_inv_exec)

lemma votes_inv_new: "votes_inv (finality_new t e)"
  by (simp add: votes_inv_def finality_new_def)

section \<open>Votes for different blocks are counted together\<close>

text \<open>Calls that differ at most in the block hashes voted for, and states likewise.\<close>

fun same_but_hash :: "'f finality_call \<Rightarrow> 'f finality_call \<Rightarrow> bool" where
  "same_but_hash (Record_vote a h x) c = (\<exists>y. c = Record_vote a h y)"
| "same_but_hash c d = (c = d)"

definition forget_hashes :: "'f finality_core \<Rightarrow> 'f finality_core" where
  "forget_hashes s = s\<lparr>fc_votes := (\<lambda>h. map_option (map (\<lambda>v. v\<lparr>vt_block_hash := []\<rparr>)) (fc_votes s h))\<rparr>"

lemma map_filter_map: "List.map_filter f (map g xs) = List.map_filter (f \<circ> g) xs"
  by (induction xs) (simp_all add: List.map_filter_def)

lemma weight_forgets: "calculate_vote_weight ops iter h (forget_hashes s) = calculate_vote_weight ops iter h s"
  by (auto simp: calculate_vote_weight_def total_stake_def forget_hashes_def map_filter_map comp_def Let_def
      split: option.splits)

lemma check_forgets:
  "check_finality ops iter h (forget_hashes s) = map_prod id forget_hashes (check_finality ops iter h s)"
  unfolding check_finality_def weight_forgets by (auto simp: forget_hashes_def Let_def split: prod.splits)

lemma record_forgets:
  "map_prod id forget_hashes (record_finality_vote a h x s) = map_prod id forget_hashes (record_finality_vote a h y (forget_hashes s))"
proof -
  have e: "list_ex (\<lambda>v. vt_voter v = a) (map (\<lambda>v. v\<lparr>vt_block_hash := []\<rparr>) vs) = list_ex (\<lambda>v. vt_voter v = a) vs" for vs
    by (induction vs) simp_all
  show ?thesis
    by (cases "fc_votes s h") (auto simp: record_finality_vote_def forget_hashes_def Let_def e fun_eq_iff comp_def option.map_comp)
qed

lemma forget_hashes_eq:
  "forget_hashes s = forget_hashes s' \<longleftrightarrow>
     fc_validators s = fc_validators s' \<and> fc_last_finalized s = fc_last_finalized s' \<and>
     fc_threshold s = fc_threshold s' \<and> fc_vote_expiry_blocks s = fc_vote_expiry_blocks s' \<and>
     (\<forall>h. map_option (map (\<lambda>v. v\<lparr>vt_block_hash := []\<rparr>)) (fc_votes s h) =
          map_option (map (\<lambda>v. v\<lparr>vt_block_hash := []\<rparr>)) (fc_votes s' h))"
  by (cases s; cases s') (auto simp: forget_hashes_def fun_eq_iff)

lemma exec_same:
  assumes "same_but_hash c d" and "forget_hashes s = forget_hashes s'"
  shows "map_prod id forget_hashes (finality_exec ops iter c s) = map_prod id forget_hashes (finality_exec ops iter d s')"
proof (cases c)
  case (Record_vote a h x)
  then obtain y where d: "d = Record_vote a h y" using assms(1) by auto
  have "map_prod id forget_hashes (record_finality_vote a h x s) = map_prod id forget_hashes (record_finality_vote a h y s')"
    using record_forgets [of a h x s y] record_forgets [of a h y s' y] assms(2) by simp
  then show ?thesis using Record_vote d
    by (simp add: split_def Let_def map_prod_def prod_eq_iff)
next
  case (Check_finality h)
  then have d: "d = Check_finality h" using assms(1) by simp
  have "map_prod id forget_hashes (check_finality ops iter h s) = map_prod id forget_hashes (check_finality ops iter h s')"
    by (simp add: check_forgets [symmetric] assms(2))
  then show ?thesis using Check_finality d by (simp add: split_def Let_def map_prod_def prod_eq_iff)
qed (use assms in \<open>auto simp: add_validator_def remove_validator_def prune_votes_def forget_hashes_eq Let_def\<close>)

lemma run_same:
  "list_all2 same_but_hash cs ds \<Longrightarrow> forget_hashes s = forget_hashes s' \<Longrightarrow>
     fst (finality_run ops iter cs s) = fst (finality_run ops iter ds s')"
proof (induction cs ds arbitrary: s s' rule: list_all2_induct)
  case (Cons c cs d ds)
  note E = exec_same [OF Cons.hyps(1) Cons.prems, of ops iter]
  then have "fst (finality_exec ops iter c s) = fst (finality_exec ops iter d s')"
    "forget_hashes (snd (finality_exec ops iter c s)) = forget_hashes (snd (finality_exec ops iter d s'))"
    by (simp_all add: prod_eq_iff)
  then show ?case using Cons.IH [of "snd (finality_exec ops iter c s)" "snd (finality_exec ops iter d s')"]
    by (simp add: split_def Let_def)
qed simp

text \<open>
  The block a vote names plays no part: two sequences of calls that differ only in the block
  hashes voted for get the same answers to every vote and every finality check. Votes for
  conflicting blocks of one height are counted together.
\<close>

theorem finality_ignores_hashes:
  assumes "list_all2 same_but_hash cs ds"
  shows "fst (finality_run ops iter cs s) = fst (finality_run ops iter ds s)"
  by (rule run_same [OF assms refl])

text \<open>Stakes in whole numbers, the ratio in thousandths.\<close>

definition milli_ops :: "nat stake_ops" where
  "milli_ops = \<lparr>st_zero = 0, st_add = (+), st_div = (\<lambda>a b. 1000 * a div b), st_le = (\<le>)\<rparr>"

definition split_vote :: "string \<Rightarrow> string \<Rightarrow> nat finality_call list" where
  "split_vote x y = [Add_validator ''a'' 100, Add_validator ''b'' 100, Add_validator ''c'' 100,
     Record_vote ''a'' 10 x, Record_vote ''b'' 10 y, Check_finality 10]"

definition abc_order :: "(string \<rightharpoonup> nat validator) \<Rightarrow> string list" where
  "abc_order m = filter (\<lambda>k. m k \<noteq> None) [''a'', ''b'', ''c'']"

lemmas split_vote_run = split_vote_def finality_new_def add_validator_def record_finality_vote_def check_finality_def
  calculate_vote_weight_def total_stake_def stake_sum_def milli_ops_def abc_order_def Let_def List.map_filter_def

theorem finality_ignores_hashes_witness:
  "fst (finality_run milli_ops abc_order (split_vote ''left'' ''right'') (finality_new 660 1000)) =
     [None, None, None, Some True, Some True, Some True]"
proof -
  have "list_all2 same_but_hash (split_vote ''left'' ''right'') (split_vote ''left'' ''left'')"
    by (simp add: split_vote_def)
  moreover have "fst (finality_run milli_ops abc_order (split_vote ''left'' ''left'') (finality_new 660 1000)) =
      [None, None, None, Some True, Some True, Some True]"
    by (simp add: split_vote_run)
  ultimately show ?thesis using finality_ignores_hashes by fastforce
qed

theorem finality_irreversible_witness:
  "fst (check_finality milli_ops abc_order 4 (snd (finality_run milli_ops abc_order
     [Remove_validator ''a'', Prune_votes 5000, Check_finality 11]
     (snd (finality_run milli_ops abc_order (split_vote ''x'' ''x'') (finality_new 660 1000)))))) = True"
proof -
  let ?s = "snd (finality_run milli_ops abc_order (split_vote ''x'' ''x'') (finality_new 660 1000))"
  have "fc_last_finalized ?s = 10" by (simp add: split_vote_run)
  then have "check_finality milli_ops abc_order 10 ?s = (True, ?s)" by (simp add: check_finality_def)
  then show ?thesis by (rule finality_irreversible) simp
qed

section \<open>Bloom filter\<close>

record bloom_filter =
  bf_bits :: "u8 list"
  bf_size :: u64
  bf_hash_count :: u64
  bf_count :: u64

text \<open>
  \<open>hash_indices\<close>: double hashing with wrapping arithmetic, modulo the number of bits; a
  remainder by zero panics, which is \<open>None\<close>. Rust's strings are byte strings here.
\<close>

definition hash_indices :: "(u8 list \<Rightarrow> h256) \<Rightarrow> u8 list \<Rightarrow> bloom_filter \<Rightarrow> u64 list option" where
  "hash_indices sha item b =
     (let h1_bytes = be_bytes (sha item);
          h2_bytes = be_bytes (sha (h1_bytes @ ascii ''bloom2''));
          h1 = of_nat (le_value (take 8 h1_bytes));
          h2 = of_nat (le_value (take 8 h2_bytes));
          bit_size = bf_size b * 8
      in if bf_hash_count b \<noteq> 0 \<and> bit_size = 0 then None
         else Some (map (\<lambda>i. (h1 + of_nat i * h2) mod bit_size) [0..<unat (bf_hash_count b)]))"

definition bloom_new :: "u64 \<Rightarrow> u64 \<Rightarrow> bloom_filter" where
  "bloom_new nbytes hash_count =
     \<lparr>bf_bits = replicate (unat nbytes) 0, bf_size = nbytes, bf_hash_count = hash_count, bf_count = 0\<rparr>"

text \<open>One index: the byte, with the bounds check of the vector, and the bit.\<close>

definition set_index :: "u64 \<Rightarrow> u8 list \<Rightarrow> u8 list option" where
  "set_index idx bits =
     (let byte_idx = unat (idx div 8); bit_idx = unat (idx mod 8)
      in if byte_idx < length bits then Some (bits[byte_idx := or (bits ! byte_idx) (push_bit bit_idx 1)]) else None)"

fun set_indices :: "u64 list \<Rightarrow> u8 list \<Rightarrow> u8 list option" where
  "set_indices [] bits = Some bits"
| "set_indices (idx # rest) bits =
     (case set_index idx bits of None \<Rightarrow> None | Some bits' \<Rightarrow> set_indices rest bits')"

definition bloom_insert :: "(u8 list \<Rightarrow> h256) \<Rightarrow> u8 list \<Rightarrow> bloom_filter \<Rightarrow> bloom_filter option" where
  "bloom_insert sha item b =
     (case hash_indices sha item b of
        None \<Rightarrow> None
      | Some indices \<Rightarrow>
          (case set_indices indices (bf_bits b) of
             None \<Rightarrow> None
           | Some bits \<Rightarrow> Some (b\<lparr>bf_bits := bits, bf_count := bf_count b + 1\<rparr>)))"

fun check_indices :: "u64 list \<Rightarrow> u8 list \<Rightarrow> bool option" where
  "check_indices [] bits = Some True"
| "check_indices (idx # rest) bits =
     (let byte_idx = unat (idx div 8); bit_idx = unat (idx mod 8)
      in if byte_idx < length bits
         then (if and (bits ! byte_idx) (push_bit bit_idx 1) = 0 then Some False else check_indices rest bits)
         else None)"

definition bloom_check :: "(u8 list \<Rightarrow> h256) \<Rightarrow> u8 list \<Rightarrow> bloom_filter \<Rightarrow> bool option" where
  "bloom_check sha item b =
     (case hash_indices sha item b of None \<Rightarrow> None | Some indices \<Rightarrow> check_indices indices (bf_bits b))"

definition bloom_to_bytes :: "bloom_filter \<Rightarrow> u8 list" where
  "bloom_to_bytes b = bf_bits b"

definition bloom_from_bytes :: "u8 list \<Rightarrow> u64 \<Rightarrow> bloom_filter" where
  "bloom_from_bytes data hash_count =
     \<lparr>bf_bits = data, bf_size = of_nat (length data), bf_hash_count = hash_count, bf_count = 0\<rparr>"

definition bloom_union :: "bloom_filter \<Rightarrow> bloom_filter \<Rightarrow> bloom_filter" where
  "bloom_union other b =
     (let min_len = min (length (bf_bits b)) (length (bf_bits other))
      in b\<lparr>bf_bits := map2 or (take min_len (bf_bits b)) (bf_bits other) @ drop min_len (bf_bits b)\<rparr>)"

definition bloom_item_count :: "bloom_filter \<Rightarrow> u64" where
  "bloom_item_count b = bf_count b"

definition bloom_byte_size :: "bloom_filter \<Rightarrow> u64" where
  "bloom_byte_size b = bf_size b"

section \<open>No false negatives\<close>

definition bit_at :: "u8 list \<Rightarrow> u64 \<Rightarrow> bool" where
  "bit_at bits idx = bit (bits ! unat (idx div 8)) (unat (idx mod 8))"

definition in_range :: "u8 list \<Rightarrow> u64 \<Rightarrow> bool" where
  "in_range bits idx \<longleftrightarrow> unat (idx div 8) < length bits"

lemma mod8_less: "unat (idx mod 8 :: u64) < 8"
  by (simp add: unat_mod_distrib)

lemma and_power_eq_0: "and (w :: u8) (push_bit k 1) = 0 \<longleftrightarrow> \<not> bit w k"
  using bit_iff_and_push_bit_not_eq_0 [of w k] by blast

lemma check_indices_iff:
  "\<forall>idx \<in> set idxs. in_range bits idx \<Longrightarrow>
     check_indices idxs bits = Some (\<forall>idx \<in> set idxs. bit_at bits idx)"
  by (induction idxs) (auto simp: Let_def in_range_def bit_at_def and_power_eq_0 simp del: push_bit_of_1)

lemma set_index_in_range:
  assumes "in_range bits idx"
  shows "\<exists>bits'. set_index idx bits = Some bits' \<and> length bits' = length bits \<and> bit_at bits' idx \<and>
    (\<forall>j. bit_at bits j \<longrightarrow> in_range bits j \<longrightarrow> bit_at bits' j)"
proof -
  let ?b = "bits[unat (idx div 8) := or (bits ! unat (idx div 8)) (push_bit (unat (idx mod 8)) 1)]"
  have "set_index idx bits = Some ?b" using assms by (simp add: set_index_def in_range_def Let_def)
  moreover have "bit_at ?b idx" using assms mod8_less [of idx] by (simp add: bit_at_def in_range_def bit_simps)
  moreover have "bit_at ?b j" if "bit_at bits j" "in_range bits j" for j
    using that by (cases "unat (idx div 8) = unat (j div 8)") (simp_all add: bit_at_def in_range_def bit_simps)
  ultimately show ?thesis by (intro exI [of _ ?b]) simp
qed

lemma set_indices_in_range:
  "\<forall>idx \<in> set idxs. in_range bits idx \<Longrightarrow>
     \<exists>bits'. set_indices idxs bits = Some bits' \<and> length bits' = length bits \<and>
       (\<forall>idx \<in> set idxs. bit_at bits' idx) \<and> (\<forall>j. bit_at bits j \<longrightarrow> in_range bits j \<longrightarrow> bit_at bits' j)"
proof (induction idxs arbitrary: bits)
  case (Cons idx idxs)
  then have "in_range bits idx" by simp
  then obtain b1 where b1: "set_index idx bits = Some b1" "length b1 = length bits" "bit_at b1 idx"
    "\<forall>j. bit_at bits j \<longrightarrow> in_range bits j \<longrightarrow> bit_at b1 j"
    using set_index_in_range by blast
  have r: "in_range b1 j = in_range bits j" for j by (simp add: in_range_def b1(2))
  obtain b2 where "set_indices idxs b1 = Some b2" "length b2 = length b1" "\<forall>idx \<in> set idxs. bit_at b2 idx"
    "\<forall>j. bit_at b1 j \<longrightarrow> in_range b1 j \<longrightarrow> bit_at b2 j"
    using Cons.IH [of b1] Cons.prems r by auto
  then show ?case using b1 r Cons.prems by auto
qed simp

definition bloom_inv :: "u64 \<Rightarrow> u64 \<Rightarrow> bloom_filter \<Rightarrow> bool" where
  "bloom_inv nbytes k b \<longleftrightarrow> bf_size b = nbytes \<and> bf_hash_count b = k \<and> length (bf_bits b) = unat nbytes"

lemma hash_indices_in_range:
  assumes "bloom_inv nbytes k b" and "0 < nbytes" and "unat nbytes < 2 ^ 61"
  obtains idxs where "hash_indices sha item b = Some idxs" "\<forall>idx \<in> set idxs. in_range (bf_bits b) idx"
    "\<forall>c. bloom_inv nbytes k c \<longrightarrow> hash_indices sha item c = Some idxs"
proof -
  have s: "bf_size b = nbytes" "bf_hash_count b = k" "length (bf_bits b) = unat nbytes"
    using assms(1) by (simp_all add: bloom_inv_def)
  have m: "unat (nbytes * 8) = unat nbytes * 8"
    using assms(3) unat_mult_lem [of nbytes 8] by simp
  then have nz: "nbytes * 8 \<noteq> 0" using assms(2) by (auto simp: word_less_nat_alt)
  have "in_range (bf_bits b) (x mod (nbytes * 8))" for x
  proof -
    have "unat (x mod (nbytes * 8)) < unat nbytes * 8"
      unfolding m [symmetric] unat_mod_distrib using nz by (simp add: m [symmetric] unat_gt_0)
    then show ?thesis by (simp add: in_range_def s unat_div_distrib less_mult_imp_div_less)
  qed
  then show thesis
    using nz by (intro that [of "map (\<lambda>i. (of_nat (le_value (take 8 (be_bytes (sha item)))) +
        of_nat i * of_nat (le_value (take 8 (be_bytes (sha (be_bytes (sha item) @ ascii ''bloom2'')))))) mod
        (nbytes * 8)) [0..<unat k]"])
      (auto simp: hash_indices_def Let_def s bloom_inv_def)
qed

text \<open>
  The filters that are built from a new one by insertions, unions with filters of the same
  size, and the transfer of the bytes, with the items they stand for.
\<close>

inductive bloom_built :: "(u8 list \<Rightarrow> h256) \<Rightarrow> u64 \<Rightarrow> u64 \<Rightarrow> bloom_filter \<Rightarrow> u8 list set \<Rightarrow> bool"
  for sha nbytes k
where
  built_new: "bloom_built sha nbytes k (bloom_new nbytes k) {}"
| built_insert: "bloom_built sha nbytes k b S \<Longrightarrow> bloom_insert sha item b = Some b' \<Longrightarrow>
    bloom_built sha nbytes k b' (insert item S)"
| built_union: "bloom_built sha nbytes k b S \<Longrightarrow> bloom_built sha nbytes k c T \<Longrightarrow>
    bloom_built sha nbytes k (bloom_union c b) (S \<union> T)"
| built_transfer: "bloom_built sha nbytes k b S \<Longrightarrow>
    bloom_built sha nbytes k (bloom_from_bytes (bloom_to_bytes b) k) S"

definition bloom_has :: "(u8 list \<Rightarrow> h256) \<Rightarrow> bloom_filter \<Rightarrow> u8 list \<Rightarrow> bool" where
  "bloom_has sha b item \<longleftrightarrow>
     (\<exists>idxs. hash_indices sha item b = Some idxs \<and> (\<forall>idx \<in> set idxs. in_range (bf_bits b) idx \<and> bit_at (bf_bits b) idx))"

lemma bloom_has_check: "bloom_has sha b item \<Longrightarrow> bloom_check sha item b = Some True"
  by (auto simp: bloom_has_def bloom_check_def check_indices_iff)

text \<open>More bits in a filter of the same shape keep the items.\<close>

lemma bloom_has_mono:
  assumes "bloom_has sha b item" and "bloom_inv nbytes k b" and "bloom_inv nbytes k c"
    and "0 < nbytes" and "unat nbytes < 2 ^ 61"
    and "\<And>j. bit_at (bf_bits b) j \<Longrightarrow> in_range (bf_bits b) j \<Longrightarrow> bit_at (bf_bits c) j"
  shows "bloom_has sha c item"
proof -
  obtain idxs where i: "hash_indices sha item b = Some idxs"
    "\<forall>c. bloom_inv nbytes k c \<longrightarrow> hash_indices sha item c = Some idxs"
    using hash_indices_in_range [OF assms(2,4,5), of sha item] by metis
  have "length (bf_bits b) = length (bf_bits c)" using assms(2,3) by (simp add: bloom_inv_def)
  then show ?thesis using assms(1,6) i(1) i(2) assms(3) by (auto simp: bloom_has_def in_range_def)
qed

lemma bloom_insert_has:
  assumes "bloom_inv nbytes k b" and "0 < nbytes" and "unat nbytes < 2 ^ 61"
  shows "\<exists>b'. bloom_insert sha item b = Some b' \<and> bloom_inv nbytes k b' \<and> bloom_has sha b' item \<and>
    (\<forall>x. bloom_has sha b x \<longrightarrow> bloom_has sha b' x)"
proof -
  obtain idxs where i: "hash_indices sha item b = Some idxs" "\<forall>idx \<in> set idxs. in_range (bf_bits b) idx"
    "\<forall>c. bloom_inv nbytes k c \<longrightarrow> hash_indices sha item c = Some idxs"
    using hash_indices_in_range [OF assms, of sha item] by metis
  obtain bits where bits: "set_indices idxs (bf_bits b) = Some bits" "length bits = length (bf_bits b)"
    "\<forall>idx \<in> set idxs. bit_at bits idx" "\<forall>j. bit_at (bf_bits b) j \<longrightarrow> in_range (bf_bits b) j \<longrightarrow> bit_at bits j"
    using set_indices_in_range [OF i(2)] by blast
  let ?b = "b\<lparr>bf_bits := bits, bf_count := bf_count b + 1\<rparr>"
  have inv: "bloom_inv nbytes k ?b" using assms(1) bits(2) by (simp add: bloom_inv_def)
  have "bloom_insert sha item b = Some ?b" by (simp add: bloom_insert_def i(1) bits(1))
  moreover have "bloom_has sha ?b item"
    using i(3) inv i(2) bits(2,3) by (auto simp: bloom_has_def in_range_def)
  moreover have "bloom_has sha ?b x" if "bloom_has sha b x" for x
    by (rule bloom_has_mono [OF that assms(1) inv assms(2,3)]) (use bits(4) in simp)
  ultimately show ?thesis using inv by blast
qed

lemma bloom_union_has:
  assumes "bloom_inv nbytes k b" and "bloom_inv nbytes k c" and "0 < nbytes" and "unat nbytes < 2 ^ 61"
  shows "bloom_inv nbytes k (bloom_union c b) \<and>
    (\<forall>x. bloom_has sha b x \<or> bloom_has sha c x \<longrightarrow> bloom_has sha (bloom_union c b) x)"
proof -
  have l: "length (bf_bits b) = length (bf_bits c)" using assms(1,2) by (simp add: bloom_inv_def)
  have bits: "bf_bits (bloom_union c b) = map2 or (bf_bits b) (bf_bits c)"
    using l by (simp add: bloom_union_def Let_def)
  have inv: "bloom_inv nbytes k (bloom_union c b)"
    using assms(1) l by (simp add: bloom_inv_def bits) (simp add: bloom_union_def Let_def)
  have "bit_at (bf_bits (bloom_union c b)) j"
    if "bit_at (bf_bits b) j \<and> in_range (bf_bits b) j \<or> bit_at (bf_bits c) j \<and> in_range (bf_bits c) j" for j
    using that l unfolding bits by (auto simp: bit_at_def in_range_def bit_simps)
  then show ?thesis using inv bloom_has_mono [OF _ assms(1) inv assms(3,4)] bloom_has_mono [OF _ assms(2) inv assms(3,4)]
    by blast
qed

lemma bloom_built_has:
  assumes "bloom_built sha nbytes k b S" and "0 < nbytes" and "unat nbytes < 2 ^ 61"
  shows "bloom_inv nbytes k b \<and> (\<forall>item \<in> S. bloom_has sha b item)"
  using assms(1)
proof induction
  case built_new
  show ?case by (simp add: bloom_inv_def bloom_new_def)
next
  case (built_insert b S item b')
  then show ?case using bloom_insert_has [of nbytes k b sha item] assms(2,3) by auto
next
  case (built_union b S c T)
  then show ?case using bloom_union_has [of nbytes k b c sha] assms(2,3) by blast
next
  case (built_transfer b S)
  then have inv: "bloom_inv nbytes k (bloom_from_bytes (bloom_to_bytes b) k)"
    by (simp add: bloom_inv_def bloom_from_bytes_def bloom_to_bytes_def)
  have "bloom_has sha (bloom_from_bytes (bloom_to_bytes b) k) x" if "bloom_has sha b x" for x
    by (rule bloom_has_mono [OF that _ inv assms(2,3)])
      (use built_transfer in \<open>simp_all add: bloom_from_bytes_def bloom_to_bytes_def\<close>)
  then show ?case using inv built_transfer by blast
qed

text \<open>
  No false negatives: a filter built from a new one of at least one byte by insertions, unions
  with filters of the same shape and transfers answers yes for every item that went in, and a
  further insertion does not panic.
\<close>

theorem bloom_no_false_negatives:
  assumes "bloom_built sha nbytes k b S" and "0 < nbytes" and "unat nbytes < 2 ^ 61"
  shows "(\<forall>item. item \<in> S \<longrightarrow> bloom_check sha item b = Some True) \<and> (\<forall>item. bloom_insert sha item b \<noteq> None)"
  using bloom_built_has [OF assms] bloom_has_check bloom_insert_has [of nbytes k b, OF _ assms(2,3)] by fastforce

definition first_sha :: "u8 list \<Rightarrow> h256" where
  "first_sha bs = push_bit 248 (ucast (foldr (+) bs 0))"

theorem bloom_no_false_negatives_witness:
  "\<exists>b. bloom_insert first_sha [1, 2] (bloom_new 4 3) = Some b \<and> bloom_check first_sha [1, 2] b = Some True"
proof -
  have new: "bloom_built first_sha 4 3 (bloom_new 4 3) {}" by (rule built_new)
  obtain b where b: "bloom_insert first_sha [1, 2] (bloom_new 4 3) = Some b"
    using bloom_no_false_negatives [OF new] by fastforce
  show ?thesis using bloom_no_false_negatives [OF built_insert [OF new b]] b by simp
qed

definition nine_sha :: "u8 list \<Rightarrow> h256" where
  "nine_sha bs = of_nat (be_value (9 # replicate 31 0))"

lemma nine_sha_bytes: "be_bytes (nine_sha bs) = 9 # replicate 31 0"
  unfolding nine_sha_def by (rule be_bytes_of_value) simp_all

lemma le_value_zeros: "le_value (replicate n 0) = 0"
  by (induction n) simp_all

lemma nine_indices:
  "hash_indices nine_sha item b = (if bf_hash_count b \<noteq> 0 \<and> bf_size b * 8 = 0 then None
     else Some (map (\<lambda>i. (9 + of_nat i * 9) mod (bf_size b * 8)) [0..<unat (bf_hash_count b)]))"
  by (simp add: hash_indices_def nine_sha_bytes le_value_zeros Let_def)

text \<open>
  A union with a filter of another size loses the items of the other filter: the bytes are
  combined position by position, but the position of an item's bits depends on the size.
\<close>

lemma bloom_union_of_sizes_loses:
  "\<exists>b. bloom_insert nine_sha [1] (bloom_new 1 1) = Some b \<and> bloom_check nine_sha [1] b = Some True \<and>
     bloom_check nine_sha [1] (bloom_union b (bloom_new 2 1)) = Some False"
  by (simp add: bloom_insert_def bloom_check_def nine_indices bloom_new_def bloom_union_def set_index_def Let_def)
end
