(* ===== verification/TemporalLogic.thy ===== *)
theory TemporalLogic
  imports Prelude
begin

text \<open>
  Linear temporal logic over finite traces, \<open>aether-temporal/src/temporal_logic.rs\<close>: the model
  checker and the mining of patterns from a trace. A state is the set of the propositions that
  hold; the order in which a \<open>HashSet\<close> of propositions is iterated is a parameter. The semantics
  the checker is compared with is stated with quantifiers over positions.
\<close>

section \<open>The model checker\<close>

datatype tl_formula =
    TL_Prop string
  | TL_Not tl_formula
  | TL_And tl_formula tl_formula
  | TL_Or tl_formula tl_formula
  | TL_Next tl_formula
  | TL_Until tl_formula tl_formula
  | TL_Eventually tl_formula
  | TL_Always tl_formula
  | TL_Since tl_formula tl_formula

type_synonym tl_trace = "string set list"

text \<open>The loops of \<open>Until\<close> and \<open>Since\<close>, over the positions they visit, with the checks as arguments.\<close>

fun until_loop :: "(nat \<Rightarrow> bool) \<Rightarrow> (nat \<Rightarrow> bool) \<Rightarrow> nat list \<Rightarrow> bool" where
  "until_loop p q [] = False"
| "until_loop p q (i # is) = (if q i then True else if \<not> p i then False else until_loop p q is)"

fun since_loop :: "(nat \<Rightarrow> bool) \<Rightarrow> (nat \<Rightarrow> bool) \<Rightarrow> nat \<Rightarrow> nat list \<Rightarrow> bool" where
  "since_loop p q pos [] = False"
| "since_loop p q pos (j # js) =
     (if q j \<and> list_all p [j + 1..<pos + 1] then True else since_loop p q pos js)"

fun check_at :: "tl_formula \<Rightarrow> tl_trace \<Rightarrow> nat \<Rightarrow> bool" where
  "check_at f trace pos =
     (if length trace \<le> pos
      then (case f of
              TL_Always g \<Rightarrow> True
            | TL_Not g \<Rightarrow> \<not> check_at g trace pos
            | TL_And a b \<Rightarrow> check_at a trace pos \<and> check_at b trace pos
            | TL_Or a b \<Rightarrow> check_at a trace pos \<or> check_at b trace pos
            | _ \<Rightarrow> False)
      else (case f of
              TL_Prop p \<Rightarrow> p \<in> trace ! pos
            | TL_Not g \<Rightarrow> \<not> check_at g trace pos
            | TL_And a b \<Rightarrow> check_at a trace pos \<and> check_at b trace pos
            | TL_Or a b \<Rightarrow> check_at a trace pos \<or> check_at b trace pos
            | TL_Next g \<Rightarrow> check_at g trace (pos + 1)
            | TL_Until p q \<Rightarrow>
                until_loop (\<lambda>i. check_at p trace i) (\<lambda>i. check_at q trace i) [pos..<length trace]
            | TL_Eventually g \<Rightarrow> list_ex (\<lambda>i. check_at g trace i) [pos..<length trace]
            | TL_Always g \<Rightarrow> list_all (\<lambda>i. check_at g trace i) [pos..<length trace]
            | TL_Since p q \<Rightarrow>
                since_loop (\<lambda>i. check_at p trace i) (\<lambda>i. check_at q trace i) pos (rev [0..<pos + 1])))"

declare check_at.simps [simp del]

definition model_check :: "tl_formula \<Rightarrow> tl_trace \<Rightarrow> bool" where
  "model_check f trace = check_at f trace 0"

section \<open>Mining patterns\<close>

definition all_props :: "tl_trace \<Rightarrow> string set" where
  "all_props trace = \<Union> (set trace)"

definition always_patterns :: "string list \<Rightarrow> tl_trace \<Rightarrow> tl_formula list" where
  "always_patterns props trace =
     map (\<lambda>p. TL_Always (TL_Prop p)) (filter (\<lambda>p. list_all (\<lambda>s. p \<in> s) trace) props)"

definition within_window :: "string \<Rightarrow> nat \<Rightarrow> tl_trace \<Rightarrow> bool" where
  "within_window p window trace =
     list_all (\<lambda>start. list_ex (\<lambda>i. p \<in> trace ! i) [start..<min (start + window) (length trace)]) [0..<length trace]"

definition eventually_patterns :: "string list \<Rightarrow> tl_trace \<Rightarrow> tl_formula list" where
  "eventually_patterns props trace =
     (let window = max (length trace div 4) 1
      in map (\<lambda>p. TL_Eventually (TL_Prop p))
           (filter (\<lambda>p. \<not> list_all (\<lambda>s. p \<in> s) trace \<and> within_window p window trace) props))"

definition next_pairs :: "string list \<Rightarrow> tl_trace \<Rightarrow> (string \<times> string) list" where
  "next_pairs props trace =
     filter (\<lambda>(a, b). a \<noteq> b \<and>
         length (filter (\<lambda>t. a \<in> trace ! t) [0..<length trace - 1]) \<noteq> 0 \<and>
         list_all (\<lambda>t. b \<in> trace ! (t + 1)) (filter (\<lambda>t. a \<in> trace ! t) [0..<length trace - 1]))
       (List.product props props)"

definition next_patterns :: "string list \<Rightarrow> tl_trace \<Rightarrow> tl_formula list" where
  "next_patterns props trace =
     (if 2 \<le> length trace
      then map (\<lambda>(a, b). TL_Next (TL_And (TL_Prop a) (TL_Prop b))) (next_pairs props trace) else [])"

text \<open>\<open>trace.iter().position(|s| s.contains(b))\<close>\<close>

fun first_position :: "string \<Rightarrow> tl_trace \<Rightarrow> nat option" where
  "first_position b [] = None"
| "first_position b (s # trace) = (if b \<in> s then Some 0 else map_option Suc (first_position b trace))"

definition until_patterns :: "string list \<Rightarrow> tl_trace \<Rightarrow> tl_formula list" where
  "until_patterns props trace =
     map (\<lambda>(a, b). TL_Until (TL_Prop a) (TL_Prop b))
       (filter (\<lambda>(a, b). a \<noteq> b \<and>
          (case first_position b trace of
             None \<Rightarrow> False
           | Some fb \<Rightarrow> 0 < fb \<and> list_all (\<lambda>t. a \<in> trace ! t) [0..<fb]))
        (List.product props props))"

definition extract_patterns :: "(string set \<Rightarrow> string list) \<Rightarrow> tl_trace \<Rightarrow> tl_formula list" where
  "extract_patterns order trace =
     (if trace = [] then []
      else (let props = order (all_props trace)
            in always_patterns props trace @ eventually_patterns props trace @
               next_patterns props trace @ until_patterns props trace))"

section \<open>Semantics\<close>

fun tl_holds :: "tl_formula \<Rightarrow> tl_trace \<Rightarrow> nat \<Rightarrow> bool" where
  "tl_holds (TL_Prop p) t i = (i < length t \<and> p \<in> t ! i)"
| "tl_holds (TL_Not f) t i = (\<not> tl_holds f t i)"
| "tl_holds (TL_And f g) t i = (tl_holds f t i \<and> tl_holds g t i)"
| "tl_holds (TL_Or f g) t i = (tl_holds f t i \<or> tl_holds g t i)"
| "tl_holds (TL_Next f) t i = (i < length t \<and> tl_holds f t (i + 1))"
| "tl_holds (TL_Until f g) t i =
     (\<exists>j. i \<le> j \<and> j < length t \<and> tl_holds g t j \<and> (\<forall>k. i \<le> k \<and> k < j \<longrightarrow> tl_holds f t k))"
| "tl_holds (TL_Eventually f) t i = (\<exists>j. i \<le> j \<and> j < length t \<and> tl_holds f t j)"
| "tl_holds (TL_Always f) t i = (\<forall>j. i \<le> j \<and> j < length t \<longrightarrow> tl_holds f t j)"
| "tl_holds (TL_Since f g) t i =
     (i < length t \<and> (\<exists>j \<le> i. tl_holds g t j \<and> (\<forall>k. j < k \<and> k \<le> i \<longrightarrow> tl_holds f t k)))"

lemma until_loop_iff:
  "until_loop p q [i..<n] \<longleftrightarrow> (\<exists>j. i \<le> j \<and> j < n \<and> q j \<and> (\<forall>k. i \<le> k \<and> k < j \<longrightarrow> p k))"
proof (induction "n - i" arbitrary: i)
  case (Suc d)
  then have i: "i < n" by simp
  have IH: "until_loop p q [Suc i..<n] \<longleftrightarrow> (\<exists>j. Suc i \<le> j \<and> j < n \<and> q j \<and> (\<forall>k. Suc i \<le> k \<and> k < j \<longrightarrow> p k))"
    by (rule Suc.hyps(1)) (use Suc.hyps(2) in simp)
  have *: "(\<exists>j. i \<le> j \<and> j < n \<and> q j \<and> (\<forall>k. i \<le> k \<and> k < j \<longrightarrow> p k)) \<longleftrightarrow>
      q i \<or> p i \<and> (\<exists>j. Suc i \<le> j \<and> j < n \<and> q j \<and> (\<forall>k. Suc i \<le> k \<and> k < j \<longrightarrow> p k))" (is "?L \<longleftrightarrow> ?R")
  proof
    assume ?L
    then obtain j where j: "i \<le> j" "j < n" "q j" "\<forall>k. i \<le> k \<and> k < j \<longrightarrow> p k" by blast
    show ?R
    proof (cases "i = j")
      case False
      then have "p i" "Suc i \<le> j" using j(1,4) by auto
      then show ?thesis using j by (metis Suc_leD)
    qed (use j in simp)
  next
    assume ?R
    then show ?L
    proof
      assume "p i \<and> (\<exists>j. Suc i \<le> j \<and> j < n \<and> q j \<and> (\<forall>k. Suc i \<le> k \<and> k < j \<longrightarrow> p k))"
      then obtain j where "p i" "Suc i \<le> j" "j < n" "q j" "\<forall>k. Suc i \<le> k \<and> k < j \<longrightarrow> p k" by blast
      then show ?thesis by (intro exI [of _ j]) (metis Suc_leD le_eq_less_or_eq Suc_leI)
    qed (use i in auto)
  qed
  show ?case unfolding * using i IH by (simp add: upt_conv_Cons)
qed auto

lemma since_loop_iff: "since_loop p q pos js \<longleftrightarrow> (\<exists>j \<in> set js. q j \<and> (\<forall>k. j < k \<and> k \<le> pos \<longrightarrow> p k))"
  by (induction js) (auto simp: list_all_iff less_Suc_eq_le Suc_le_eq)

lemma since_loop_all:
  "since_loop p q pos (rev [0..<pos + 1]) \<longleftrightarrow> (\<exists>j \<le> pos. q j \<and> (\<forall>k. j < k \<and> k \<le> pos \<longrightarrow> p k))"
proof -
  have "set (rev [0..<pos + 1]) = {j. j \<le> pos}" by auto
  then show ?thesis unfolding since_loop_iff by auto
qed

lemma check_at_holds: "check_at f trace pos = tl_holds f trace pos"
proof (induction f arbitrary: pos)
  case (TL_Prop p)
  show ?case by (simp add: check_at.simps [of "TL_Prop p"])
next
  case (TL_Not f)
  then show ?case by (simp add: check_at.simps [of "TL_Not f"])
next
  case (TL_And f g)
  then show ?case by (simp add: check_at.simps [of "TL_And f g"])
next
  case (TL_Or f g)
  then show ?case by (simp add: check_at.simps [of "TL_Or f g"])
next
  case (TL_Next f)
  then show ?case by (simp add: check_at.simps [of "TL_Next f"])
next
  case (TL_Until f g)
  then show ?case
    by (cases "length trace \<le> pos") (simp_all add: check_at.simps [of "TL_Until f g"] until_loop_iff)
next
  case (TL_Eventually f)
  have "\<not> (pos \<le> j \<and> j < length trace)" if "length trace \<le> pos" for j using that by simp
  then show ?case using TL_Eventually
    by (cases "length trace \<le> pos") (simp_all add: check_at.simps [of "TL_Eventually f"] list_ex_iff Bex_def)
next
  case (TL_Always f)
  show ?case
  proof (cases "length trace \<le> pos")
    case True
    have "\<forall>j. pos \<le> j \<and> j < length trace \<longrightarrow> tl_holds f trace j" using True by (meson le_trans not_less)
    then show ?thesis using True by (simp only: check_at.simps [of "TL_Always f"] tl_holds.simps) simp
  qed (simp add: check_at.simps [of "TL_Always f"] list_all_iff Ball_def TL_Always)
next
  case (TL_Since f g)
  then show ?case
    by (cases "length trace \<le> pos")
      (simp_all add: check_at.simps [of "TL_Since f g"] since_loop_all [unfolded Suc_eq_plus1 [symmetric]] del: upt_Suc)
qed

text \<open>
  C40. The checker decides the semantics: at every position of every finite trace, also past its
  end, it accepts a formula exactly when the formula holds there.
\<close>

theorem check_decides_semantics:
  "check_at f trace pos = tl_holds f trace pos \<and> model_check f trace = tl_holds f trace 0"
  by (simp_all add: check_at_holds model_check_def)

text \<open>
  The operators the documentation calls sugar are that: \<open>Eventually\<close> and \<open>Always\<close> are dual, and
  \<open>Until\<close> obeys its fixed-point equation inside the trace.
\<close>

lemma check_dualities:
  "check_at (TL_Always f) trace pos = check_at (TL_Not (TL_Eventually (TL_Not f))) trace pos"
  "pos < length trace \<Longrightarrow> check_at (TL_Until f g) trace pos =
     check_at (TL_Or g (TL_And f (TL_Next (TL_Until f g)))) trace pos"
proof -
  show "check_at (TL_Always f) trace pos = check_at (TL_Not (TL_Eventually (TL_Not f))) trace pos"
    by (auto simp: check_at_holds)
  assume "pos < length trace"
  then show "check_at (TL_Until f g) trace pos =
     check_at (TL_Or g (TL_And f (TL_Next (TL_Until f g)))) trace pos"
    using until_loop_iff [of "tl_holds f trace" "tl_holds g trace" pos "length trace"]
      until_loop_iff [of "tl_holds f trace" "tl_holds g trace" "pos + 1" "length trace"]
    by (cases "tl_holds g trace pos"; cases "tl_holds f trace pos") (simp_all add: check_at_holds upt_conv_Cons)
qed

section \<open>What is mined\<close>

lemma first_position_Some:
  "first_position b trace = Some i \<Longrightarrow> i < length trace \<and> b \<in> trace ! i"
  by (induction trace arbitrary: i) (auto split: if_splits)

lemma always_mined: "f \<in> set (always_patterns props trace) \<Longrightarrow> model_check f trace"
  by (auto simp: always_patterns_def model_check_def check_at_holds list_all_length)

lemma eventually_mined:
  assumes "f \<in> set (eventually_patterns props trace)" and "trace \<noteq> []"
  shows "\<exists>g. f = TL_Eventually g \<and> (\<forall>start < length trace. \<exists>i. start \<le> i \<and> i < length trace \<and>
    i < start + max (length trace div 4) 1 \<and> check_at g trace i)"
proof -
  obtain p where f: "f = TL_Eventually (TL_Prop p)" and w: "within_window p (max (length trace div 4) 1) trace"
    using assms(1) by (auto simp: eventually_patterns_def Let_def)
  have "\<exists>i. start \<le> i \<and> i < length trace \<and> i < start + max (length trace div 4) 1 \<and> p \<in> trace ! i"
    if "start < length trace" for start
    using w that by (force simp: within_window_def list_all_iff list_ex_iff)
  then show ?thesis using f by (auto simp: check_at_holds)
qed

lemma until_mined:
  assumes "f \<in> set (until_patterns props trace)"
  shows "model_check f trace"
proof -
  from assms obtain a b fb where f: "f = TL_Until (TL_Prop a) (TL_Prop b)" "first_position b trace = Some fb"
    "\<forall>t < fb. a \<in> trace ! t"
    by (auto simp: until_patterns_def list_all_iff split: option.splits)
  from first_position_Some [OF f(2)] have "fb < length trace" "b \<in> trace ! fb" by auto
  then show ?thesis using f by (auto simp: model_check_def check_at_holds intro!: exI [of _ fb])
qed

text \<open>
  The mined patterns hold: of a finite trace, every \<open>Always\<close>, \<open>Eventually\<close> and \<open>Until\<close> pattern
  that is extracted is accepted by the checker on that trace, whatever the order of the
  propositions.
\<close>

theorem mined_patterns_hold:
  assumes "f \<in> set (extract_patterns order trace)" and "\<forall>g. f \<noteq> TL_Next g"
  shows "model_check f trace"
proof -
  have ne: "trace \<noteq> []" using assms(1) by (auto simp: extract_patterns_def)
  from assms consider "f \<in> set (always_patterns (order (all_props trace)) trace)"
    | "f \<in> set (eventually_patterns (order (all_props trace)) trace)"
    | "f \<in> set (until_patterns (order (all_props trace)) trace)"
    by (fastforce simp: extract_patterns_def Let_def next_patterns_def split: if_splits)
  then show ?thesis
  proof cases
    case 2
    then obtain g where "f = TL_Eventually g" "\<exists>i. i < length trace \<and> check_at g trace i"
      using eventually_mined [OF _ ne] ne by blast
    then show ?thesis by (auto simp: model_check_def check_at_holds)
  qed (auto intro: always_mined until_mined)
qed

text \<open>
  The \<open>Next\<close> patterns are not formulas of the trace: they record that one proposition follows
  another, but as written they say that both hold at the second position.
\<close>

definition blink :: tl_trace where
  "blink = [{''on''}, {''off''}, {''on''}, {''off''}]"

definition blink_order :: "string set \<Rightarrow> string list" where
  "blink_order A = filter (\<lambda>p. p \<in> A) [''on'', ''off'']"

theorem next_pattern_fails:
  "\<exists>f. f \<in> set (extract_patterns blink_order blink) \<and> \<not> model_check f blink"
proof (intro exI conjI)
  let ?f = "TL_Next (TL_And (TL_Prop ''on'') (TL_Prop ''off''))"
  have props: "blink_order (all_props blink) = [''on'', ''off'']"
    by (simp add: blink_order_def all_props_def blink_def)
  have "(''on'', ''off'') \<in> set (next_pairs [''on'', ''off''] blink)"
    by (simp add: next_pairs_def blink_def upt_rec)
  then have "?f \<in> set (next_patterns [''on'', ''off''] blink)"
    by (force simp: next_patterns_def blink_def)
  then show "?f \<in> set (extract_patterns blink_order blink)"
    by (simp add: extract_patterns_def props Let_def) (simp add: blink_def)
  show "\<not> model_check ?f blink" by (simp add: model_check_def check_at_holds blink_def)
qed

theorem mined_patterns_hold_witness:
  "model_check (TL_Until (TL_Prop ''on'') (TL_Prop ''off'')) blink"
proof (rule mined_patterns_hold [where order = blink_order])
  have props: "blink_order (all_props blink) = [''on'', ''off'']"
    by (simp add: blink_order_def all_props_def blink_def)
  have "TL_Until (TL_Prop ''on'') (TL_Prop ''off'') \<in> set (until_patterns [''on'', ''off''] blink)"
    by (simp add: until_patterns_def blink_def)
  then show "TL_Until (TL_Prop ''on'') (TL_Prop ''off'') \<in> set (extract_patterns blink_order blink)"
    by (simp add: extract_patterns_def props Let_def) (simp add: blink_def)
qed simp

end
