(* ===== verification/Floats.thy ===== *)
theory Floats
  imports Complex_Main Prelude "HOL-Library.Multiset"
begin

text \<open>
  The floating-point operations of Rust as a parameter, and the sorting and the printing of
  numbers of the standard library.
  The kernel has no \<open>f64\<close>, so a program that computes with it takes the operations as an
  argument; exact arithmetic on \<open>rat\<close>, arithmetic rounded to 53 digits and exact arithmetic with
  \<open>NaN\<close> are the instances here. \<open>slice::sort_by\<close> is a stable
  sort of which only the answers \<open>Greater\<close> of the comparator matter; it is correct where the
  comparator is a total preorder on the elements, which is the contract of the locale below.
\<close>

section \<open>Operations of f64\<close>

record 'f f64_ops =
  fl_lit :: "int \<Rightarrow> nat \<Rightarrow> 'f" \<comment> \<open>the literal with this mantissa and this number of decimals\<close>
  fl_of_nat :: "nat \<Rightarrow> 'f" \<comment> \<open>\<open>as f64\<close> of an unsigned integer\<close>
  fl_add :: "'f \<Rightarrow> 'f \<Rightarrow> 'f"
  fl_sub :: "'f \<Rightarrow> 'f \<Rightarrow> 'f"
  fl_mul :: "'f \<Rightarrow> 'f \<Rightarrow> 'f"
  fl_div :: "'f \<Rightarrow> 'f \<Rightarrow> 'f"
  fl_min :: "'f \<Rightarrow> 'f \<Rightarrow> 'f"
  fl_max :: "'f \<Rightarrow> 'f \<Rightarrow> 'f"
  fl_round :: "'f \<Rightarrow> 'f"
  fl_lt :: "'f \<Rightarrow> 'f \<Rightarrow> bool"
  fl_eq :: "'f \<Rightarrow> 'f \<Rightarrow> bool"

definition fl_zero :: "'f f64_ops \<Rightarrow> 'f" where
  "fl_zero F = fl_lit F 0 1"

definition fl_le :: "'f f64_ops \<Rightarrow> 'f \<Rightarrow> 'f \<Rightarrow> bool" where
  "fl_le F a b \<longleftrightarrow> fl_lt F a b \<or> fl_eq F a b"

text \<open>No two numbers are both \<open>a < b\<close> and \<open>b <= a\<close>; with \<open>NaN\<close> both are false.\<close>

definition fl_consistent :: "'f f64_ops \<Rightarrow> bool" where
  "fl_consistent F \<longleftrightarrow> (\<forall>a b. fl_lt F a b \<longrightarrow> \<not> fl_le F b a)"

text \<open>Exact arithmetic; \<open>round\<close> goes away from zero at one half.\<close>

definition exact_ops :: "rat f64_ops" where
  "exact_ops = \<lparr>fl_lit = (\<lambda>m d. of_int m / 10 ^ d), fl_of_nat = of_nat,
     fl_add = (+), fl_sub = (-), fl_mul = (*), fl_div = (/), fl_min = min, fl_max = max,
     fl_round = (\<lambda>x. if x < 0 then - of_int \<lfloor>1 / 2 - x\<rfloor> else of_int \<lfloor>x + 1 / 2\<rfloor>),
     fl_lt = (<), fl_eq = (=)\<rparr>"

lemma exact_ops_simps [simp]:
  "fl_lit exact_ops m d = of_int m / 10 ^ d" "fl_of_nat exact_ops n = of_nat n"
  "fl_add exact_ops x y = x + y" "fl_sub exact_ops x y = x - y"
  "fl_mul exact_ops x y = x * y" "fl_div exact_ops x y = x / y"
  "fl_min exact_ops x y = min x y" "fl_max exact_ops x y = max x y"
  "fl_lt exact_ops x y \<longleftrightarrow> x < y" "fl_eq exact_ops x y \<longleftrightarrow> x = y"
  "fl_le exact_ops x y \<longleftrightarrow> x \<le> y" "fl_zero exact_ops = 0"
  by (auto simp: exact_ops_def fl_le_def fl_zero_def)

lemma exact_consistent: "fl_consistent exact_ops"
  by (simp add: fl_consistent_def)

section \<open>Rounded arithmetic\<close>

text \<open>
  A second instance: every result is rounded to 53 binary digits, to the nearest and to even digits
  between two, as \<open>f64\<close> does as long as exponents are in range. It has no \<open>NaN\<close> and no infinities.
\<close>

text \<open>The number of binary digits.\<close>

function bit_count :: "int \<Rightarrow> int" where
  "bit_count n = (if n \<le> 0 then 0 else 1 + bit_count (n div 2))"
  by pat_completeness auto
termination by (relation "measure nat") simp_all

declare bit_count.simps [simp del]

text \<open>The nearest integer, the even one of two.\<close>

definition half_even :: "rat \<Rightarrow> int" where
  "half_even x = (let f = \<lfloor>x\<rfloor> in if x - of_int f < 1 / 2 \<or> x - of_int f = 1 / 2 \<and> even f then f else f + 1)"

text \<open>The power of two below the number gives the unit of its last digit.\<close>

definition round53 :: "rat \<Rightarrow> rat" where
  "round53 x =
     (if x = 0 then 0
      else (let (n, d) = quotient_of \<bar>x\<bar>;
                e = bit_count n - bit_count d;
                unit = 2 powi ((if \<bar>x\<bar> < 2 powi e then e - 1 else e) - 52)
            in of_int (half_even (x / unit)) * unit))"

definition rounded_ops :: "rat f64_ops" where
  "rounded_ops = exact_ops\<lparr>fl_lit := (\<lambda>m d. round53 (of_int m / 10 ^ d)), fl_of_nat := (\<lambda>n. round53 (of_nat n)),
     fl_add := (\<lambda>x y. round53 (x + y)), fl_sub := (\<lambda>x y. round53 (x - y)),
     fl_mul := (\<lambda>x y. round53 (x * y)), fl_div := (\<lambda>x y. round53 (x / y))\<rparr>"

lemma rounded_ops_simps:
  "fl_lit rounded_ops m d = round53 (of_int m / 10 ^ d)"
  "fl_add rounded_ops x y = round53 (x + y)" "fl_sub rounded_ops x y = round53 (x - y)"
  "fl_min rounded_ops x y = min x y" "fl_lt rounded_ops x y \<longleftrightarrow> x < y" "fl_le rounded_ops x y \<longleftrightarrow> x \<le> y"
  by (simp_all add: rounded_ops_def fl_le_def) (auto simp: exact_ops_def)

lemma rounded_consistent: "fl_consistent rounded_ops"
  by (simp add: fl_consistent_def rounded_ops_simps)

section \<open>Exact arithmetic with NaN\<close>

text \<open>
  A third instance adds a value \<open>None\<close> for \<open>NaN\<close>, which every operation passes on but \<open>min\<close> and
  \<open>max\<close>, and of which every comparison is false. A division by zero gives it.
\<close>

definition nan_ops :: "rat option f64_ops" where
  "nan_ops = \<lparr>fl_lit = (\<lambda>m d. Some (of_int m / 10 ^ d)), fl_of_nat = (\<lambda>n. Some (of_nat n)),
     fl_add = (\<lambda>x y. Option.bind x (\<lambda>a. map_option ((+) a) y)),
     fl_sub = (\<lambda>x y. Option.bind x (\<lambda>a. map_option ((-) a) y)),
     fl_mul = (\<lambda>x y. Option.bind x (\<lambda>a. map_option ((*) a) y)),
     fl_div = (\<lambda>x y. if y = Some 0 then None else Option.bind x (\<lambda>a. map_option ((/) a) y)),
     fl_min = (\<lambda>x y. case (x, y) of (Some a, Some b) \<Rightarrow> Some (min a b) | (Some a, None) \<Rightarrow> Some a | (None, _) \<Rightarrow> y),
     fl_max = (\<lambda>x y. case (x, y) of (Some a, Some b) \<Rightarrow> Some (max a b) | (Some a, None) \<Rightarrow> Some a | (None, _) \<Rightarrow> y),
     fl_round = map_option (fl_round exact_ops),
     fl_lt = (\<lambda>x y. case (x, y) of (Some a, Some b) \<Rightarrow> a < b | _ \<Rightarrow> False),
     fl_eq = (\<lambda>x y. case (x, y) of (Some a, Some b) \<Rightarrow> a = b | _ \<Rightarrow> False)\<rparr>"

lemma nan_ops_simps [simp]:
  "fl_lit nan_ops m d = Some (of_int m / 10 ^ d)" "fl_zero nan_ops = Some 0"
  "fl_add nan_ops (Some a) (Some b) = Some (a + b)" "fl_add nan_ops None y = None" "fl_add nan_ops x None = None"
  "fl_sub nan_ops (Some a) (Some b) = Some (a - b)" "fl_sub nan_ops None y = None" "fl_sub nan_ops x None = None"
  "fl_mul nan_ops (Some a) (Some b) = Some (a * b)" "fl_mul nan_ops None y = None" "fl_mul nan_ops x None = None"
  "fl_div nan_ops (Some a) (Some b) = (if b = 0 then None else Some (a / b))"
  "fl_div nan_ops None y = None" "fl_div nan_ops x None = None"
  "fl_lt nan_ops (Some a) (Some b) \<longleftrightarrow> a < b" "\<not> fl_lt nan_ops None y" "\<not> fl_lt nan_ops x None"
  "fl_le nan_ops (Some a) (Some b) \<longleftrightarrow> a \<le> b" "\<not> fl_le nan_ops None y" "\<not> fl_le nan_ops x None"
  by (auto simp: nan_ops_def fl_le_def fl_zero_def split: option.splits)

text \<open>Values of which every comparison with the left side is false and that sums and differences pass on.\<close>

definition nan_values :: "'f f64_ops \<Rightarrow> 'f set \<Rightarrow> bool" where
  "nan_values F N \<longleftrightarrow> (\<forall>n \<in> N. \<forall>x. \<not> fl_lt F n x \<and> \<not> fl_le F n x \<and> fl_add F x n \<in> N \<and> fl_sub F n x \<in> N)"

lemma nan_is_nan: "nan_values nan_ops {None}"
  by (simp add: nan_values_def)

section \<open>Printing numbers\<close>

text \<open>\<open>format!("{:x}", digest)\<close>.\<close>

definition hex_digit :: "u8 \<Rightarrow> char" where
  "hex_digit d = ''0123456789abcdef'' ! unat d"

definition hex_lower :: "u8 list \<Rightarrow> string" where
  "hex_lower bs = concat (map (\<lambda>b. [hex_digit (drop_bit 4 b), hex_digit (and b 0x0f)]) bs)"

text \<open>The decimal digits of a number.\<close>

fun decimal :: "nat \<Rightarrow> string" where
  "decimal n = (if n < 10 then [''0123456789'' ! n] else decimal (n div 10) @ [''0123456789'' ! (n mod 10)])"

declare decimal.simps [simp del]

definition digit_value :: "char \<Rightarrow> nat" where
  "digit_value c = of_char c - 48"

definition undecimal :: "string \<Rightarrow> nat" where
  "undecimal s = foldl (\<lambda>a c. 10 * a + digit_value c) 0 s"

lemma digit_value_nth: "n < 10 \<Longrightarrow> digit_value (''0123456789'' ! n) = n"
proof -
  assume "n < 10"
  then have "n \<in> {0, 1, 2, 3, 4, 5, 6, 7, 8, 9}" by auto
  then show ?thesis by (auto simp: digit_value_def)
qed

lemma undecimal_decimal: "undecimal (decimal n) = n"
proof (induction n rule: decimal.induct)
  case (1 n)
  show ?case
  proof (cases "n < 10")
    case True
    then show ?thesis by (simp add: decimal.simps [of n] undecimal_def digit_value_nth)
  next
    case False
    have "undecimal (decimal n) = 10 * undecimal (decimal (n div 10)) + n mod 10"
      using False by (subst decimal.simps) (simp add: undecimal_def digit_value_nth)
    then show ?thesis using 1 False by simp
  qed
qed

lemma undecimal_zeros: "undecimal (replicate n (CHR ''0'') @ s) = undecimal s"
  by (induction n) (simp_all add: undecimal_def digit_value_def)

lemma decimal_inject: "decimal m = decimal n \<longleftrightarrow> m = n"
  by (metis undecimal_decimal)

lemma set_decimal: "set (decimal n) \<subseteq> set ''0123456789''"
proof (induction n rule: decimal.induct)
  case (1 n)
  have digit: "''0123456789'' ! k \<in> set ''0123456789''" if "k < 10" for k
    by (rule nth_mem) (use that in simp)
  show ?case using 1 digit [of n] digit [of "n mod 10"] by (subst decimal.simps) auto
qed

section \<open>Stable sorting\<close>

text \<open>\<open>gt a b\<close> says that the comparator answers \<open>Greater\<close> on \<open>a\<close> and \<open>b\<close>.\<close>

fun insert_sorted :: "('a \<Rightarrow> 'a \<Rightarrow> bool) \<Rightarrow> 'a \<Rightarrow> 'a list \<Rightarrow> 'a list" where
  "insert_sorted gt x [] = [x]"
| "insert_sorted gt x (y # ys) = (if gt x y then y # insert_sorted gt x ys else x # y # ys)"

definition sort_by :: "('a \<Rightarrow> 'a \<Rightarrow> bool) \<Rightarrow> 'a list \<Rightarrow> 'a list" where
  "sort_by gt xs = foldr (insert_sorted gt) xs []"

lemma sort_by_Nil [simp]: "sort_by gt [] = []"
  by (simp add: sort_by_def)

lemma sort_by_Cons [simp]: "sort_by gt (x # xs) = insert_sorted gt x (sort_by gt xs)"
  by (simp add: sort_by_def)

lemma mset_insert_sorted [simp]: "mset (insert_sorted gt x xs) = add_mset x (mset xs)"
  by (induction xs) simp_all

lemma mset_sort_by [simp]: "mset (sort_by gt xs) = mset xs"
  by (induction xs) simp_all

lemma set_sort_by [simp]: "set (sort_by gt xs) = set xs"
  by (rule mset_eq_setD) simp

lemma length_sort_by [simp]: "length (sort_by gt xs) = length xs"
  by (rule mset_eq_length) simp

lemma set_insert_sorted [simp]: "set (insert_sorted gt x xs) = insert x (set xs)"
  by (induction xs) auto

lemma insert_sorted_Cons:
  "(\<And>y. y \<in> set ys \<Longrightarrow> \<not> gt x y) \<Longrightarrow> insert_sorted gt x ys = x # ys"
  by (cases ys) auto

text \<open>Merging two lists; from equal heads the left one is taken.\<close>

fun merge_by :: "('a \<Rightarrow> 'a \<Rightarrow> bool) \<Rightarrow> 'a list \<Rightarrow> 'a list \<Rightarrow> 'a list" where
  "merge_by gt [] ys = ys"
| "merge_by gt (x # xs) [] = x # xs"
| "merge_by gt (x # xs) (y # ys) = (if gt x y then y # merge_by gt (x # xs) ys else x # merge_by gt xs (y # ys))"

lemma merge_by_Nil [simp]: "merge_by gt xs [] = xs"
  by (cases xs) simp_all

lemma take_merge_by:
  "k \<le> m \<Longrightarrow> k \<le> n \<Longrightarrow> take k (merge_by gt (take m xs) (take n ys)) = take k (merge_by gt xs ys)"
proof (induction gt xs ys arbitrary: k m n rule: merge_by.induct)
  case (3 gt x xs y ys)
  show ?case
  proof (cases k)
    case (Suc j)
    then obtain l h where "m = Suc l" "n = Suc h" using "3.prems" by (metis Suc_le_D)
    with Suc "3.prems" "3.IH"(1) [of j "Suc l" h] "3.IH"(2) [of j l "Suc h"] show ?thesis by simp
  qed simp
qed (auto simp: min_def)

text \<open>The comparator is a total preorder on the elements of \<open>A\<close>.\<close>

locale preorder_sort =
  fixes gt :: "'a \<Rightarrow> 'a \<Rightarrow> bool" and A :: "'a set"
  assumes greater_asym: "a \<in> A \<Longrightarrow> b \<in> A \<Longrightarrow> gt a b \<Longrightarrow> \<not> gt b a"
    and not_greater_trans: "a \<in> A \<Longrightarrow> b \<in> A \<Longrightarrow> c \<in> A \<Longrightarrow> \<not> gt a b \<Longrightarrow> \<not> gt b c \<Longrightarrow> \<not> gt a c"
begin

definition ascending :: "'a list \<Rightarrow> bool" where
  "ascending xs \<longleftrightarrow> sorted_wrt (\<lambda>a b. \<not> gt a b) xs"

lemma insert_ascending:
  assumes "insert x (set xs) \<subseteq> A" and "ascending xs"
  shows "ascending (insert_sorted gt x xs)"
  using assms
proof (induction xs)
  case (Cons y ys)
  have A: "x \<in> A" "y \<in> A" "set ys \<subseteq> A" using Cons.prems(1) by auto
  have S: "\<forall>z \<in> set ys. \<not> gt y z" "ascending ys"
    using Cons.prems(2) by (simp_all add: ascending_def)
  show ?case
  proof (cases "gt x y")
    case True
    then have "\<not> gt y x" using A by (simp add: greater_asym)
    then show ?thesis using True S A Cons.IH by (simp add: ascending_def)
  next
    case False
    have "\<forall>z \<in> set ys. \<not> gt x z"
      using not_greater_trans [of x y] False S(1) A by blast
    then show ?thesis using False S by (simp add: ascending_def)
  qed
qed (simp add: ascending_def)

lemma sort_ascending: "set xs \<subseteq> A \<Longrightarrow> ascending (sort_by gt xs)"
proof (induction xs)
  case (Cons x xs)
  then show ?case using insert_ascending [of x "sort_by gt xs"] by simp
qed (simp add: ascending_def)

lemma sort_of_ascending: "ascending xs \<Longrightarrow> sort_by gt xs = xs"
  by (induction xs) (simp_all add: ascending_def insert_sorted_Cons)

text \<open>What is cut off behind a prefix of the sorted list is not smaller than anything in it.\<close>

lemma prefix_is_least:
  assumes "set xs \<subseteq> A" and "a \<in> set (take n (sort_by gt xs))" and "b \<in> set (drop n (sort_by gt xs))"
  shows "\<not> gt a b"
  using sort_ascending [OF assms(1)] assms(2,3) append_take_drop_id [of n "sort_by gt xs"]
  unfolding ascending_def by (metis sorted_wrt_append)

lemma left_out_is_least:
  assumes "set xs \<subseteq> A" and "a \<in> set (take n (sort_by gt xs))"
    and "b \<in> set xs" and "b \<notin> set (take n (sort_by gt xs))"
  shows "\<not> gt a b"
proof (rule prefix_is_least [OF assms(1,2)])
  have "b \<in> set (take n (sort_by gt xs)) \<union> set (drop n (sort_by gt xs))"
    using assms(3) by (simp only: set_append [symmetric] append_take_drop_id set_sort_by)
  then show "b \<in> set (drop n (sort_by gt xs))" using assms(4) by simp
qed

text \<open>A new last element of an ascending list ends up behind those it is not smaller than.\<close>

lemma sort_snoc:
  assumes "ascending xs" and "insert y (set xs) \<subseteq> A"
  shows "sort_by gt (xs @ [y]) =
     takeWhile (\<lambda>x. \<not> gt x y) xs @ [y] @ dropWhile (\<lambda>x. \<not> gt x y) xs"
  using assms
proof (induction xs)
  case (Cons x xs)
  have A: "x \<in> A" "y \<in> A" "set xs \<subseteq> A" and S: "\<forall>z \<in> set xs. \<not> gt x z" "ascending xs"
    using Cons.prems by (simp_all add: ascending_def)
  note IH = Cons.IH [OF S(2)]
  show ?case
  proof (cases "gt x y")
    case True
    have "\<not> (\<not> gt z y)" if z: "z \<in> set xs" for z
      using not_greater_trans [of x z y] S(1) True A z by blast
    then have e: "takeWhile (\<lambda>x. \<not> gt x y) xs = []" "dropWhile (\<lambda>x. \<not> gt x y) xs = xs"
      by (cases xs, simp_all)
    then show ?thesis using True IH A S(1) by (simp add: insert_sorted_Cons)
  next
    case False
    let ?zs = "takeWhile (\<lambda>x. \<not> gt x y) xs @ [y] @ dropWhile (\<lambda>x. \<not> gt x y) xs"
    have "\<not> gt x z" if "z \<in> set ?zs" for z
      using that False S(1) by (auto dest: set_takeWhileD set_dropWhileD)
    then have "insert_sorted gt x ?zs = x # ?zs" by (rule insert_sorted_Cons)
    then show ?thesis using False IH A by simp
  qed
qed simp

text \<open>Sorting two lists is merging the sorted ones, so the best of all are the best of the best.\<close>

lemma insert_merge:
  "insert x (set xs \<union> set ys) \<subseteq> A \<Longrightarrow>
   insert_sorted gt x (merge_by gt xs ys) = merge_by gt (insert_sorted gt x xs) ys"
proof (induction xs arbitrary: ys)
  case Nil
  have "insert_sorted gt x ys = merge_by gt [x] ys" by (induction ys) simp_all
  then show ?case by simp
next
  case (Cons a xs)
  note left = Cons.IH
  show ?case using Cons.prems
  proof (induction ys)
    case (Cons b ys)
    have A: "x \<in> A" "a \<in> A" "b \<in> A" using Cons.prems by auto
    have right: "insert_sorted gt x (merge_by gt (a # xs) ys) = merge_by gt (insert_sorted gt x (a # xs)) ys"
      using Cons.IH Cons.prems by auto
    have rest: "insert_sorted gt x (merge_by gt xs (b # ys)) = merge_by gt (insert_sorted gt x xs) (b # ys)"
      using left Cons.prems by auto
    have 1: "\<not> gt x a" if "gt a b" "\<not> gt x b"
      using not_greater_trans [of x b a] greater_asym [of a b] A that by blast
    have 2: "\<not> gt x b" if "\<not> gt a b" "\<not> gt x a"
      using not_greater_trans [of x a b] A that by blast
    show ?case
    proof (cases "gt a b")
      case True
      then show ?thesis using right 1 by (cases "gt x b"; cases "gt x a") simp_all
    next
      case False
      then show ?thesis using rest 2 by (cases "gt x a") simp_all
    qed
  qed simp
qed

lemma sort_append:
  "set xs \<union> set ys \<subseteq> A \<Longrightarrow> sort_by gt (xs @ ys) = merge_by gt (sort_by gt xs) (sort_by gt ys)"
proof (induction xs)
  case (Cons x xs)
  have "insert x (set (sort_by gt xs) \<union> set (sort_by gt ys)) \<subseteq> A" using Cons.prems by simp
  note insert = insert_merge [OF this]
  have "sort_by gt (xs @ ys) = merge_by gt (sort_by gt xs) (sort_by gt ys)" using Cons by simp
  then show ?case by (simp only: append_Cons sort_by_Cons insert)
qed simp

lemma ascending_take: "ascending xs \<Longrightarrow> ascending (take n xs)"
  by (simp add: ascending_def sorted_wrt_take)

lemma top_left:
  assumes "set xs \<union> set ys \<subseteq> A" "k \<le> m"
  shows "take k (sort_by gt (take m (sort_by gt xs) @ ys)) = take k (sort_by gt (xs @ ys))"
proof -
  have "sort_by gt (take m (sort_by gt xs)) = take m (sort_by gt xs)"
    by (rule sort_of_ascending [OF ascending_take [OF sort_ascending]]) (use assms(1) in simp)
  moreover have "set (take m (sort_by gt xs)) \<union> set ys \<subseteq> A"
    using assms(1) set_take_subset [of m "sort_by gt xs"] by auto
  ultimately show ?thesis
    using assms take_merge_by [of k m "length ys + k" gt "sort_by gt xs" "sort_by gt ys"]
    by (simp add: sort_append)
qed

lemma top_right:
  assumes "set xs \<union> set ys \<union> set zs \<subseteq> A" "take k (sort_by gt ys) = take k (sort_by gt zs)"
  shows "take k (sort_by gt (xs @ ys)) = take k (sort_by gt (xs @ zs))"
proof -
  have "take k (merge_by gt (sort_by gt xs) (sort_by gt ys)) = take k (merge_by gt (sort_by gt xs) (sort_by gt zs))"
    using assms(2) take_merge_by [of k "length xs + k" k gt "sort_by gt xs" "sort_by gt ys"]
      take_merge_by [of k "length xs + k" k gt "sort_by gt xs" "sort_by gt zs"] by simp
  then show ?thesis using assms(1) by (simp add: sort_append)
qed

text \<open>The best of several lists, from the best of each.\<close>

lemma top_of_tops:
  assumes "\<And>xs. xs \<in> set xss \<Longrightarrow> set xs \<subseteq> A"
  shows "take k (sort_by gt (concat (map (\<lambda>xs. take k (sort_by gt xs)) xss))) = take k (sort_by gt (concat xss))"
  using assms
proof (induction xss)
  case (Cons xs xss)
  let ?tops = "concat (map (\<lambda>xs. take k (sort_by gt xs)) xss)"
  have "set ?tops \<subseteq> set (concat xss)" by (auto dest!: in_set_takeD)
  moreover have "set xs \<subseteq> A" "set (concat xss) \<subseteq> A" using Cons.prems by auto
  ultimately have sub: "set xs \<subseteq> A" "set (concat xss) \<subseteq> A" "set ?tops \<subseteq> A" by auto
  have "take k (sort_by gt (take k (sort_by gt xs) @ ?tops)) = take k (sort_by gt (xs @ ?tops))"
    by (rule top_left) (use sub in auto)
  also have "\<dots> = take k (sort_by gt (xs @ concat xss))"
    by (rule top_right) (use sub Cons in auto)
  finally show ?case by simp
qed simp

end

end
