(* ===== verification/TaskMarket.thy ===== *)
theory TaskMarket
  imports Floats
begin

text \<open>
  The task market of Proof-of-Thought, \<open>aether-protocol/src/task_protocol.rs\<close>: reasoning tasks,
  validators with their stakes, and the protocol that collects votes and settles tasks. Amounts
  are \<open>f64\<close>, whose operations are a parameter. A \<open>HashMap\<close> is a partial map; where the code
  iterates over one, the order of the keys is an argument. The clock, the printing of a time
  stamp and SHA-256 are parameters. Statistics and logging are left out.
\<close>

section \<open>Tasks and validators\<close>

definition MIN_TASK_BOUNTY :: "'f f64_ops \<Rightarrow> 'f" where "MIN_TASK_BOUNTY F = fl_lit F 10 1"
definition MIN_VALIDATOR_STAKE :: "'f f64_ops \<Rightarrow> 'f" where "MIN_VALIDATOR_STAKE F = fl_lit F 1000 1"
definition SLASH_PENALTY :: "'f f64_ops \<Rightarrow> 'f" where "SLASH_PENALTY F = fl_lit F 50 2"
definition VALIDATION_THRESHOLD :: "'f f64_ops \<Rightarrow> 'f" where "VALIDATION_THRESHOLD F = fl_lit F 67 2"
definition UNSTAKING_DELAY_BLOCKS :: u64 where "UNSTAKING_DELAY_BLOCKS = 183272"
definition MAX_TASKS :: nat where "MAX_TASKS = 10000"
definition DEFAULT_MAX_VOTE_WEIGHT :: "'f f64_ops \<Rightarrow> 'f" where "DEFAULT_MAX_VOTE_WEIGHT F = fl_lit F 33 2"

datatype task_status =
    TaskOpen | TaskClaimed | TaskProposed | TaskValidating
  | TaskCompleted | TaskRejected | TaskExpired

record 'f reasoning_task =
  rt_task_id :: string
  rt_submitter :: string
  rt_description :: string
  rt_query_type :: string
  rt_bounty :: 'f
  rt_status :: task_status
  rt_created_block :: u64
  rt_timeout_blocks :: u64
  rt_claimed_by :: string
  rt_solution_hash :: string
  rt_solution_data :: "(string \<times> string) list" \<comment> \<open>the entries in the order of iteration\<close>
  rt_votes :: "string \<rightharpoonup> bool"
  rt_reward_distributed :: bool
  rt_timestamp :: 'f

definition new_task ::
  "(u8 list \<Rightarrow> u8 list) \<Rightarrow> ('f \<Rightarrow> string) \<Rightarrow> string \<Rightarrow> string \<Rightarrow> string \<Rightarrow> 'f \<Rightarrow> u64 \<Rightarrow> u64 \<Rightarrow> 'f \<Rightarrow> 'f reasoning_task" where
  "new_task sha256 show_f64 submitter description query_type bounty created timeout now =
     \<lparr>rt_task_id = take 16 (hex_lower (sha256 (ascii (submitter @ '':'' @ description @ '':'' @ show_f64 now)))),
      rt_submitter = submitter, rt_description = description, rt_query_type = query_type,
      rt_bounty = bounty, rt_status = TaskOpen, rt_created_block = created,
      rt_timeout_blocks = timeout, rt_claimed_by = [], rt_solution_hash = [],
      rt_solution_data = [], rt_votes = Map.empty, rt_reward_distributed = False,
      rt_timestamp = now\<rparr>"

record 'f pot_validator =
  pv_address :: string
  pv_stake :: 'f
  pv_staked_block :: u64
  pv_unstaking_block :: u64 \<comment> \<open>zero when it is not unstaking\<close>
  pv_is_active :: bool
  pv_tasks_validated :: u64
  pv_correct_validations :: u64
  pv_total_slashed :: 'f
  pv_total_rewards :: 'f

definition new_validator :: "'f f64_ops \<Rightarrow> string \<Rightarrow> 'f \<Rightarrow> u64 \<Rightarrow> 'f pot_validator" where
  "new_validator F address stake block =
     \<lparr>pv_address = address, pv_stake = stake, pv_staked_block = block, pv_unstaking_block = 0,
      pv_is_active = True, pv_tasks_validated = 0, pv_correct_validations = 0,
      pv_total_slashed = fl_zero F, pv_total_rewards = fl_zero F\<rparr>"

definition accuracy :: "'f f64_ops \<Rightarrow> 'f pot_validator \<Rightarrow> 'f" where
  "accuracy F v = (if pv_tasks_validated v = 0 then fl_zero F
     else fl_div F (fl_of_nat F (unat (pv_correct_validations v))) (fl_of_nat F (unat (pv_tasks_validated v))))"

definition is_unstaking :: "'f pot_validator \<Rightarrow> bool" where
  "is_unstaking v \<longleftrightarrow> 0 < pv_unstaking_block v"

section \<open>The market\<close>

record 'f task_market =
  tm_tasks :: "string \<rightharpoonup> 'f reasoning_task"
  tm_max_tasks :: nat

definition task_market_new :: "'f task_market" where
  "task_market_new = \<lparr>tm_tasks = Map.empty, tm_max_tasks = MAX_TASKS\<rparr>"

definition finished :: "task_status \<Rightarrow> bool" where
  "finished st \<longleftrightarrow> st = TaskCompleted \<or> st = TaskRejected \<or> st = TaskExpired"

text \<open>
  The older half of the finished tasks, the oldest first; \<open>order\<close> is the order of iteration.
\<close>

definition evict_old_tasks ::
  "'f f64_ops \<Rightarrow> string list \<Rightarrow> (string \<rightharpoonup> 'f reasoning_task) \<Rightarrow> (string \<rightharpoonup> 'f reasoning_task)" where
  "evict_old_tasks F order tasks =
     (let removable = map (\<lambda>k. (k, rt_timestamp (the (tasks k))))
            (filter (\<lambda>k. finished (rt_status (the (tasks k)))) order);
          sorted = sort_by (\<lambda>a b. fl_lt F (snd b) (snd a)) removable;
          remove_count = length sorted div 2
      in fold (\<lambda>e m. m(fst e := None)) (take remove_count sorted) tasks)"

definition submit_task ::
  "'f f64_ops \<Rightarrow> (u8 list \<Rightarrow> u8 list) \<Rightarrow> ('f \<Rightarrow> string) \<Rightarrow> string list \<Rightarrow> 'f \<Rightarrow>
   string \<Rightarrow> string \<Rightarrow> 'f \<Rightarrow> string \<Rightarrow> u64 \<Rightarrow> u64 \<Rightarrow> 'f task_market \<Rightarrow> 'f reasoning_task option \<times> 'f task_market" where
  "submit_task F sha256 show_f64 order now submitter description bounty query_type height timeout m =
     (if fl_lt F bounty (MIN_TASK_BOUNTY F) then (None, m)
      else
        (let task = new_task sha256 show_f64 submitter description query_type bounty height timeout now;
             tasks = (tm_tasks m)(rt_task_id task \<mapsto> task);
             tasks' = (if tm_max_tasks m < card (dom tasks) then evict_old_tasks F order tasks else tasks)
         in (Some task, m\<lparr>tm_tasks := tasks'\<rparr>)))"

definition claim_task :: "string \<Rightarrow> string \<Rightarrow> 'f task_market \<Rightarrow> bool \<times> 'f task_market" where
  "claim_task task_id solver m =
     (case tm_tasks m task_id of
        None \<Rightarrow> (False, m)
      | Some t \<Rightarrow>
          if rt_status t = TaskOpen
          then (True, m\<lparr>tm_tasks := (tm_tasks m)(task_id \<mapsto> t\<lparr>rt_status := TaskClaimed, rt_claimed_by := solver\<rparr>)\<rparr>)
          else (False, m))"

text \<open>
  The entries sorted by key, the bytes of every key followed by those of its value. Strings are
  ordered by their bytes.
\<close>

fun string_less :: "string \<Rightarrow> string \<Rightarrow> bool" where
  "string_less _ [] = False"
| "string_less [] (_ # _) = True"
| "string_less (c # cs) (d # ds) =
     (if (of_char c :: nat) = of_char d then string_less cs ds else (of_char c :: nat) < of_char d)"

definition solution_preimage :: "(string \<times> string) list \<Rightarrow> u8 list" where
  "solution_preimage data =
     concat (map (\<lambda>(k, v). ascii k @ ascii v) (sort_by (\<lambda>a b. string_less (fst b) (fst a)) data))"

definition submit_solution ::
  "(u8 list \<Rightarrow> u8 list) \<Rightarrow> string \<Rightarrow> string \<Rightarrow> (string \<times> string) list \<Rightarrow> 'f task_market \<Rightarrow> bool \<times> 'f task_market" where
  "submit_solution sha256 task_id solver data m =
     (case tm_tasks m task_id of
        None \<Rightarrow> (False, m)
      | Some t \<Rightarrow>
          if rt_status t = TaskClaimed \<and> rt_claimed_by t = solver
          then (True, m\<lparr>tm_tasks := (tm_tasks m)(task_id \<mapsto>
                 t\<lparr>rt_solution_hash := hex_lower (sha256 (solution_preimage data)),
                   rt_solution_data := data, rt_status := TaskProposed\<rparr>)\<rparr>)
          else (False, m))"

text \<open>The bounty times an urgency that grows as the deadline comes closer.\<close>

definition priority_score :: "'f f64_ops \<Rightarrow> 'f reasoning_task \<Rightarrow> u64 \<Rightarrow> 'f" where
  "priority_score F task current =
     (let urgency =
        (if 0 < current \<and> 0 < rt_timeout_blocks task then
           (let elapsed = saturating_sub current (rt_created_block task);
                ratio = fl_sub F (fl_lit F 10 1)
                  (fl_div F (fl_of_nat F (unat elapsed)) (fl_of_nat F (unat (rt_timeout_blocks task))));
                ratio = fl_max F ratio (fl_zero F)
            in if fl_lt F ratio (fl_lit F 1 1) then fl_lit F 30 1
               else if fl_lt F ratio (fl_lit F 3 1) then fl_lit F 20 1
               else if fl_lt F ratio (fl_lit F 5 1) then fl_lit F 15 1
               else fl_lit F 10 1)
         else fl_lit F 10 1)
      in fl_mul F (rt_bounty task) urgency)"

definition get_open_tasks :: "'f f64_ops \<Rightarrow> string list \<Rightarrow> nat \<Rightarrow> u64 \<Rightarrow> 'f task_market \<Rightarrow> 'f reasoning_task list" where
  "get_open_tasks F order limit current m =
     take limit (sort_by (\<lambda>a b. fl_lt F (priority_score F a current) (priority_score F b current))
       (filter (\<lambda>t. rt_status t = TaskOpen) (map (\<lambda>k. the (tm_tasks m k)) order)))"

definition timed_out :: "u64 \<Rightarrow> 'f reasoning_task \<Rightarrow> bool" where
  "timed_out current t \<longleftrightarrow> (rt_status t = TaskOpen \<or> rt_status t = TaskClaimed) \<and>
     rt_timeout_blocks t < saturating_sub current (rt_created_block t)"

definition expire_tasks :: "u64 \<Rightarrow> 'f task_market \<Rightarrow> u64 \<times> 'f task_market" where
  "expire_tasks current m =
     (of_nat (card {k \<in> dom (tm_tasks m). timed_out current (the (tm_tasks m k))}),
      m\<lparr>tm_tasks := (\<lambda>k. map_option
         (\<lambda>t. if timed_out current t then t\<lparr>rt_status := TaskExpired\<rparr> else t) (tm_tasks m k))\<rparr>)"

definition task_count :: "'f task_market \<Rightarrow> nat" where
  "task_count m = card (dom (tm_tasks m))"

definition open_count :: "'f task_market \<Rightarrow> nat" where
  "open_count m = card {k \<in> dom (tm_tasks m). rt_status (the (tm_tasks m k)) = TaskOpen}"

section \<open>The registry of validators\<close>

type_synonym 'f validators = "string \<rightharpoonup> 'f pot_validator"

definition stake :: "'f f64_ops \<Rightarrow> string \<Rightarrow> 'f \<Rightarrow> u64 \<Rightarrow> 'f validators \<Rightarrow> bool \<times> 'f validators" where
  "stake F address amount height vs =
     (if fl_lt F amount (MIN_VALIDATOR_STAKE F) then (False, vs)
      else (True, vs(address \<mapsto> (case vs address of
          Some v \<Rightarrow> v\<lparr>pv_stake := fl_add F (pv_stake v) amount, pv_is_active := True, pv_unstaking_block := 0\<rparr>
        | None \<Rightarrow> new_validator F address amount height))))"

text \<open>The addition wraps in a release build.\<close>

definition request_unstake :: "string \<Rightarrow> u64 \<Rightarrow> 'f validators \<Rightarrow> bool \<times> 'f validators" where
  "request_unstake address height vs =
     (case vs address of
        None \<Rightarrow> (False, vs)
      | Some v \<Rightarrow>
          if pv_is_active v
          then (True, vs(address \<mapsto> v\<lparr>pv_unstaking_block := height + UNSTAKING_DELAY_BLOCKS, pv_is_active := False\<rparr>))
          else (False, vs))"

definition complete_unstake :: "'f f64_ops \<Rightarrow> string \<Rightarrow> u64 \<Rightarrow> 'f validators \<Rightarrow> 'f \<times> 'f validators" where
  "complete_unstake F address height vs =
     (case vs address of
        None \<Rightarrow> (fl_zero F, vs)
      | Some v \<Rightarrow>
          if 0 < pv_unstaking_block v \<and> pv_unstaking_block v \<le> height
          then (pv_stake v, if fl_lt F (fl_zero F) (pv_stake v) then vs(address := None) else vs)
          else (fl_zero F, vs))"

definition slash :: "'f f64_ops \<Rightarrow> string \<Rightarrow> 'f validators \<Rightarrow> 'f \<times> 'f validators" where
  "slash F address vs =
     (case vs address of
        None \<Rightarrow> (fl_zero F, vs)
      | Some v \<Rightarrow>
          (let amount = fl_mul F (pv_stake v) (SLASH_PENALTY F);
               left = fl_sub F (pv_stake v) amount
           in (amount, vs(address \<mapsto> v\<lparr>pv_stake := left,
                 pv_total_slashed := fl_add F (pv_total_slashed v) amount,
                 pv_is_active := fl_le F (MIN_VALIDATOR_STAKE F) left\<rparr>))))"

definition reward :: "'f f64_ops \<Rightarrow> string \<Rightarrow> 'f \<Rightarrow> 'f validators \<Rightarrow> bool \<times> 'f validators" where
  "reward F address amount vs =
     (case vs address of
        None \<Rightarrow> (False, vs)
      | Some v \<Rightarrow> (True, vs(address \<mapsto> v\<lparr>pv_total_rewards := fl_add F (pv_total_rewards v) amount,
                                       pv_correct_validations := pv_correct_validations v + 1\<rparr>)))"

definition record_validation :: "string \<Rightarrow> 'f validators \<Rightarrow> 'f validators" where
  "record_validation address vs =
     (case vs address of
        None \<Rightarrow> vs
      | Some v \<Rightarrow> vs(address \<mapsto> v\<lparr>pv_tasks_validated := pv_tasks_validated v + 1\<rparr>))"

definition get_active_validators :: "'f f64_ops \<Rightarrow> string list \<Rightarrow> 'f validators \<Rightarrow> 'f pot_validator list" where
  "get_active_validators F order vs =
     sort_by (\<lambda>a b. fl_lt F (pv_stake a) (pv_stake b)) (filter pv_is_active (map (\<lambda>k. the (vs k)) order))"

definition pot_active_count :: "'f validators \<Rightarrow> nat" where
  "pot_active_count vs = card {k \<in> dom vs. pv_is_active (the (vs k))}"

definition pot_total_stake :: "'f f64_ops \<Rightarrow> string list \<Rightarrow> 'f validators \<Rightarrow> 'f" where
  "pot_total_stake F order vs = foldl (fl_add F) (fl_zero F) (map (\<lambda>k. pv_stake (the (vs k))) order)"

section \<open>The protocol\<close>

record 'f pot_protocol =
  pp_market :: "'f task_market"
  pp_validators :: "'f validators"
  pp_max_vote_weight :: 'f

definition pot_new :: "'f f64_ops \<Rightarrow> 'f pot_protocol" where
  "pot_new F = \<lparr>pp_market = task_market_new, pp_validators = Map.empty,
     pp_max_vote_weight = DEFAULT_MAX_VOTE_WEIGHT F\<rparr>"

text \<open>\<open>get_task_mut\<close>: the update of a task under the write lock.\<close>

definition update_task :: "string \<Rightarrow> ('f reasoning_task \<Rightarrow> 'f reasoning_task) \<Rightarrow> 'f pot_protocol \<Rightarrow> 'f pot_protocol" where
  "update_task task_id f s =
     s\<lparr>pp_market := (pp_market s)\<lparr>tm_tasks := (case tm_tasks (pp_market s) task_id of
          None \<Rightarrow> tm_tasks (pp_market s)
        | Some t \<Rightarrow> (tm_tasks (pp_market s))(task_id \<mapsto> f t))\<rparr>\<rparr>"

text \<open>
  A vote is checked against copies read under the locks and recorded under locks taken again
  later; the two halves are separate definitions.
\<close>

definition vote_checks :: "string \<Rightarrow> string \<Rightarrow> 'f pot_protocol \<Rightarrow> bool" where
  "vote_checks task_id validator s =
     (case tm_tasks (pp_market s) task_id of
        None \<Rightarrow> False
      | Some t \<Rightarrow>
          if rt_status t = TaskProposed \<or> rt_status t = TaskValidating then
            if rt_claimed_by t \<noteq> [] \<and> rt_claimed_by t = validator then False
            else (case pp_validators s validator of None \<Rightarrow> False | Some v \<Rightarrow> pv_is_active v)
          else False)"

definition vote_writes :: "string \<Rightarrow> string \<Rightarrow> bool \<Rightarrow> 'f pot_protocol \<Rightarrow> 'f pot_protocol" where
  "vote_writes task_id validator approve s =
     (let s1 = update_task task_id (\<lambda>t. t\<lparr>rt_status := TaskValidating, rt_votes := (rt_votes t)(validator \<mapsto> approve)\<rparr>) s
      in s1\<lparr>pp_validators := record_validation validator (pp_validators s1)\<rparr>)"

definition validate_solution :: "string \<Rightarrow> string \<Rightarrow> bool \<Rightarrow> 'f pot_protocol \<Rightarrow> bool \<times> 'f pot_protocol" where
  "validate_solution task_id validator approve s =
     (if vote_checks task_id validator s then (True, vote_writes task_id validator approve s) else (False, s))"

record 'f task_finalization =
  tf_task_id :: string
  tf_approved :: bool
  tf_approval_ratio :: 'f
  tf_votes :: nat
  tf_bounty :: 'f
  tf_solver :: string

text \<open>The raw stake of the registered voters, in the order of iteration.\<close>

definition raw_total :: "'f f64_ops \<Rightarrow> string list \<Rightarrow> 'f validators \<Rightarrow> 'f" where
  "raw_total F order vs = foldl (\<lambda>acc a. case vs a of None \<Rightarrow> acc | Some v \<Rightarrow> fl_add F acc (pv_stake v)) (fl_zero F) order"

definition capped_weight :: "'f f64_ops \<Rightarrow> 'f \<Rightarrow> 'f \<Rightarrow> 'f validators \<Rightarrow> string \<Rightarrow> 'f" where
  "capped_weight F raw max_weight vs a =
     fl_min F (case vs a of None \<Rightarrow> fl_zero F | Some v \<Rightarrow> pv_stake v) (fl_mul F raw max_weight)"

definition vote_totals :: "'f f64_ops \<Rightarrow> 'f \<Rightarrow> string list \<Rightarrow> 'f reasoning_task \<Rightarrow> 'f validators \<Rightarrow> 'f \<times> 'f" where
  "vote_totals F max_weight order task vs =
     (let raw = raw_total F order vs
      in foldl (\<lambda>(cast, approve) a.
           (let capped = capped_weight F raw max_weight vs a
            in (fl_add F cast capped, if the (rt_votes task a) then fl_add F approve capped else approve)))
         (fl_zero F, fl_zero F) order)"

definition reward_voters :: "'f f64_ops \<Rightarrow> string list \<Rightarrow> 'f reasoning_task \<Rightarrow> 'f validators \<Rightarrow> 'f validators" where
  "reward_voters F order task vs =
     foldl (\<lambda>vs a. if the (rt_votes task a)
         then snd (reward F a (fl_div F (fl_mul F (rt_bounty task) (fl_lit F 1 1))
                (fl_of_nat F (max (card (dom (rt_votes task))) 1))) vs)
         else vs) vs order"

definition finalize_task ::
  "'f f64_ops \<Rightarrow> string list \<Rightarrow> string \<Rightarrow> 'f pot_protocol \<Rightarrow> 'f task_finalization option \<times> 'f pot_protocol" where
  "finalize_task F order task_id s =
     (case tm_tasks (pp_market s) task_id of
        None \<Rightarrow> (None, s)
      | Some task \<Rightarrow>
          if \<not> (rt_status task = TaskValidating \<and> rt_votes task \<noteq> Map.empty) then (None, s)
          else if fl_eq F (raw_total F order (pp_validators s)) (fl_zero F) then (None, s)
          else
            (let (cast, approve) = vote_totals F (pp_max_vote_weight s) order task (pp_validators s)
             in if fl_eq F cast (fl_zero F) then (None, s)
                else
                  (let ratio = fl_div F approve cast;
                       approved = fl_le F (VALIDATION_THRESHOLD F) ratio;
                       s1 = (if approved then
                               (let s1 = update_task task_id (\<lambda>t. t\<lparr>rt_status := TaskCompleted, rt_reward_distributed := True\<rparr>) s
                                in s1\<lparr>pp_validators := reward_voters F order task (pp_validators s1)\<rparr>)
                             else
                               (let s1 = update_task task_id (\<lambda>t. t\<lparr>rt_status := TaskRejected\<rparr>) s
                                in if rt_claimed_by task \<noteq> []
                                   then s1\<lparr>pp_validators := snd (slash F (rt_claimed_by task) (pp_validators s1))\<rparr>
                                   else s1))
                   in (Some \<lparr>tf_task_id = task_id, tf_approved = approved,
                         tf_approval_ratio = fl_div F (fl_round F (fl_mul F ratio (fl_lit F 100000 1))) (fl_lit F 100000 1),
                         tf_votes = card (dom (rt_votes task)), tf_bounty = rt_bounty task,
                         tf_solver = rt_claimed_by task\<rparr>, s1))))"

definition process_block :: "u64 \<Rightarrow> 'f pot_protocol \<Rightarrow> (u64 \<times> nat \<times> nat) \<times> 'f pot_protocol" where
  "process_block height s =
     (let (expired, m) = expire_tasks height (pp_market s)
      in ((expired, open_count m, pot_active_count (pp_validators s)), s\<lparr>pp_market := m\<rparr>))"


section \<open>Runs\<close>

text \<open>A call of the public interface, with the orders of iteration and the clock it meets.\<close>

datatype 'f pot_call =
    Submit_task "string list" 'f string string 'f string u64 u64
  | Claim_task string string
  | Submit_solution string string "(string \<times> string) list"
  | Vote string string bool
  | Finalize "string list" string
  | Block u64
  | Stake string 'f u64
  | Request_unstake string u64
  | Complete_unstake string u64
  | Slash string
  | Reward string 'f
  | Record_validation string

fun pot_exec ::
  "'f f64_ops \<Rightarrow> (u8 list \<Rightarrow> u8 list) \<Rightarrow> ('f \<Rightarrow> string) \<Rightarrow> 'f pot_call \<Rightarrow> 'f pot_protocol \<Rightarrow> 'f pot_protocol" where
  "pot_exec F sha256 print (Submit_task order now a d b q h t) s =
     s\<lparr>pp_market := snd (submit_task F sha256 print order now a d b q h t (pp_market s))\<rparr>"
| "pot_exec F sha256 print (Claim_task k a) s = s\<lparr>pp_market := snd (claim_task k a (pp_market s))\<rparr>"
| "pot_exec F sha256 print (Submit_solution k a d) s = s\<lparr>pp_market := snd (submit_solution sha256 k a d (pp_market s))\<rparr>"
| "pot_exec F sha256 print (Vote k a b) s = snd (validate_solution k a b s)"
| "pot_exec F sha256 print (Finalize order k) s = snd (finalize_task F order k s)"
| "pot_exec F sha256 print (Block h) s = snd (process_block h s)"
| "pot_exec F sha256 print (Stake a x h) s = s\<lparr>pp_validators := snd (stake F a x h (pp_validators s))\<rparr>"
| "pot_exec F sha256 print (Request_unstake a h) s = s\<lparr>pp_validators := snd (request_unstake a h (pp_validators s))\<rparr>"
| "pot_exec F sha256 print (Complete_unstake a h) s = s\<lparr>pp_validators := snd (complete_unstake F a h (pp_validators s))\<rparr>"
| "pot_exec F sha256 print (Slash a) s = s\<lparr>pp_validators := snd (slash F a (pp_validators s))\<rparr>"
| "pot_exec F sha256 print (Reward a x) s = s\<lparr>pp_validators := snd (reward F a x (pp_validators s))\<rparr>"
| "pot_exec F sha256 print (Record_validation a) s = s\<lparr>pp_validators := record_validation a (pp_validators s)\<rparr>"

definition pot_run ::
  "'f f64_ops \<Rightarrow> (u8 list \<Rightarrow> u8 list) \<Rightarrow> ('f \<Rightarrow> string) \<Rightarrow> 'f pot_call list \<Rightarrow> 'f pot_protocol \<Rightarrow> 'f pot_protocol" where
  "pot_run F sha256 print cs s = fold (pot_exec F sha256 print) cs s"

lemma pot_run_simps [simp]:
  "pot_run F sha256 print [] s = s"
  "pot_run F sha256 print (c # cs) s = pot_run F sha256 print cs (pot_exec F sha256 print c s)"
  by (simp_all add: pot_run_def)

abbreviation tasks_of :: "'f pot_protocol \<Rightarrow> string \<rightharpoonup> 'f reasoning_task" where
  "tasks_of s \<equiv> tm_tasks (pp_market s)"

text \<open>The permitted changes of a task, from its old to its new value.\<close>

inductive task_change :: "(u8 list \<Rightarrow> u8 list) \<Rightarrow> 'f reasoning_task \<Rightarrow> 'f reasoning_task \<Rightarrow> bool"
  for sha256 :: "u8 list \<Rightarrow> u8 list" where
  claimed: "rt_status t = TaskOpen \<Longrightarrow>
    task_change sha256 t (t\<lparr>rt_status := TaskClaimed, rt_claimed_by := a\<rparr>)"
| proposed: "rt_status t = TaskClaimed \<Longrightarrow>
    task_change sha256 t (t\<lparr>rt_solution_hash := hex_lower (sha256 (solution_preimage d)),
                            rt_solution_data := d, rt_status := TaskProposed\<rparr>)"
| voted: "rt_status t = TaskProposed \<or> rt_status t = TaskValidating \<Longrightarrow>
    \<not> (rt_claimed_by t \<noteq> [] \<and> rt_claimed_by t = a) \<Longrightarrow>
    task_change sha256 t (t\<lparr>rt_status := TaskValidating, rt_votes := (rt_votes t)(a \<mapsto> b)\<rparr>)"
| completed: "rt_status t = TaskValidating \<Longrightarrow> rt_votes t \<noteq> Map.empty \<Longrightarrow>
    task_change sha256 t (t\<lparr>rt_status := TaskCompleted, rt_reward_distributed := True\<rparr>)"
| rejected: "rt_status t = TaskValidating \<Longrightarrow> rt_votes t \<noteq> Map.empty \<Longrightarrow>
    task_change sha256 t (t\<lparr>rt_status := TaskRejected\<rparr>)"
| expired: "rt_status t = TaskOpen \<or> rt_status t = TaskClaimed \<Longrightarrow>
    task_change sha256 t (t\<lparr>rt_status := TaskExpired\<rparr>)"

inductive_cases task_changeE: "task_change sha256 t t'"


text \<open>The task a call puts into the market.\<close>

fun submits :: "'f f64_ops \<Rightarrow> (u8 list \<Rightarrow> u8 list) \<Rightarrow> ('f \<Rightarrow> string) \<Rightarrow> 'f pot_call \<Rightarrow> 'f reasoning_task option" where
  "submits F sha256 print (Submit_task order now a d b q h t) =
     (if fl_lt F b (MIN_TASK_BOUNTY F) then None else Some (new_task sha256 print a d q b h t now))"
| "submits F sha256 print _ = None"

lemma fold_remove: "fold (\<lambda>e m. m(fst e := None)) es m k = (if k \<in> fst ` set es then None else m k)"
  by (induction es arbitrary: m) auto

lemma evict_old_tasks_at:
  "evict_old_tasks F order tasks k = tasks k \<or>
   evict_old_tasks F order tasks k = None \<and> (\<forall>t. tasks k = Some t \<longrightarrow> finished (rt_status t))"
proof -
  let ?r = "map (\<lambda>k. (k, rt_timestamp (the (tasks k)))) (filter (\<lambda>k. finished (rt_status (the (tasks k)))) order)"
  let ?s = "sort_by (\<lambda>a b. fl_lt F (snd b) (snd a)) ?r"
  have "finished (rt_status (the (tasks k)))" if "k \<in> fst ` set (take n ?s)" for n
  proof -
    have "k \<in> fst ` set ?r" using that image_mono [OF set_take_subset [of n ?s], of fst] by auto
    then show ?thesis by auto
  qed
  moreover have "evict_old_tasks F order tasks k =
      (if k \<in> fst ` set (take (length ?s div 2) ?s) then None else tasks k)"
    unfolding evict_old_tasks_def Let_def fold_remove ..
  ultimately show ?thesis
    by (cases "k \<in> fst ` set (take (length ?s div 2) ?s)") (simp only: if_True, fastforce, simp only: if_False, simp)
qed

lemma tasks_of_update_task:
  "tasks_of (update_task k f s) = (case tasks_of s k of None \<Rightarrow> tasks_of s | Some t \<Rightarrow> (tasks_of s)(k \<mapsto> f t))"
  by (simp add: update_task_def)

lemma validators_update_task [simp]: "pp_validators (update_task k f s) = pp_validators s"
  by (simp add: update_task_def)

lemma submit_task_at:
  assumes "submit_task F sha256 print order now a d b q h t m = (r, m')"
  shows "tm_tasks m' k = tm_tasks m k
    \<or> (\<exists>n. r = Some n \<and> rt_task_id n = k \<and> tm_tasks m' k = Some n)
    \<or> tm_tasks m' k = None \<and> (\<forall>t. tm_tasks m k = Some t \<longrightarrow> finished (rt_status t))"
proof (cases "fl_lt F b (MIN_TASK_BOUNTY F)")
  case False
  define n where "n = new_task sha256 print a d q b h t now"
  let ?ts = "(tm_tasks m)(rt_task_id n \<mapsto> n)"
  have r: "r = Some n"
    and m': "tm_tasks m' = (if tm_max_tasks m < card (dom ?ts) then evict_old_tasks F order ?ts else ?ts)"
    using assms False by (auto simp: submit_task_def Let_def n_def)
  have "\<not> finished (rt_status n)" by (simp add: n_def new_task_def finished_def)
  then show ?thesis
    using evict_old_tasks_at [of F order ?ts k] r m' by (cases "k = rt_task_id n") auto
qed (use assms in \<open>simp add: submit_task_def\<close>)

lemma finalize_task_cases:
  obtains (refused) "finalize_task F order k s = (None, s)"
  | (approved) t r where "tasks_of s k = Some t" "rt_status t = TaskValidating" "rt_votes t \<noteq> Map.empty"
      "finalize_task F order k s = (Some r, (update_task k
         (\<lambda>t. t\<lparr>rt_status := TaskCompleted, rt_reward_distributed := True\<rparr>) s)
         \<lparr>pp_validators := reward_voters F order t (pp_validators s)\<rparr>)"
      "tf_approved r" "tf_solver r = rt_claimed_by t"
  | (rejected) t r where "tasks_of s k = Some t" "rt_status t = TaskValidating" "rt_votes t \<noteq> Map.empty"
      "finalize_task F order k s = (Some r, (update_task k (\<lambda>t. t\<lparr>rt_status := TaskRejected\<rparr>) s)
         \<lparr>pp_validators := (if rt_claimed_by t = [] then pp_validators s
              else snd (slash F (rt_claimed_by t) (pp_validators s)))\<rparr>)"
      "\<not> tf_approved r" "tf_solver r = rt_claimed_by t"
proof (cases "tasks_of s k")
  case None
  then show thesis using refused by (simp add: finalize_task_def)
next
  case (Some t)
  let ?raw = "raw_total F order (pp_validators s)"
  obtain cast approve where tot:
    "vote_totals F (pp_max_vote_weight s) order t (pp_validators s) = (cast, approve)" by fastforce
  consider "\<not> (rt_status t = TaskValidating \<and> rt_votes t \<noteq> Map.empty) \<or> fl_eq F ?raw (fl_zero F) \<or> fl_eq F cast (fl_zero F)"
    | "rt_status t = TaskValidating" "rt_votes t \<noteq> Map.empty" "\<not> fl_eq F ?raw (fl_zero F)" "\<not> fl_eq F cast (fl_zero F)"
      "fl_le F (VALIDATION_THRESHOLD F) (fl_div F approve cast)"
    | "rt_status t = TaskValidating" "rt_votes t \<noteq> Map.empty" "\<not> fl_eq F ?raw (fl_zero F)" "\<not> fl_eq F cast (fl_zero F)"
      "\<not> fl_le F (VALIDATION_THRESHOLD F) (fl_div F approve cast)" by blast
  then show thesis
  proof cases
    case 1
    then show ?thesis using refused Some tot by (auto simp: finalize_task_def)
  next
    case 2
    show ?thesis by (rule approved [OF Some 2(1,2)]) (use Some 2 tot in \<open>simp add: finalize_task_def Let_def, simp_all\<close>)
  next
    case 3
    show ?thesis by (rule rejected [OF Some 3(1,2)])
        (use Some 3 tot in \<open>simp add: finalize_task_def Let_def update_task_def, simp_all\<close>)
  qed
qed


text \<open>What a call does to the task filed under an identifier.\<close>

lemma pot_exec_task:
  "tasks_of (pot_exec F sha256 print c s) k = tasks_of s k
   \<or> (\<exists>n. submits F sha256 print c = Some n \<and> rt_task_id n = k \<and> tasks_of (pot_exec F sha256 print c s) k = Some n)
   \<or> tasks_of (pot_exec F sha256 print c s) k = None \<and> (\<forall>t. tasks_of s k = Some t \<longrightarrow> finished (rt_status t))
   \<or> (\<exists>t t'. tasks_of s k = Some t \<and> task_change sha256 t t' \<and> tasks_of (pot_exec F sha256 print c s) k = Some t')"
proof (cases c)
  case (Submit_task order now a d b q h t)
  obtain r m where e: "submit_task F sha256 print order now a d b q h t (pp_market s) = (r, m)" by fastforce
  have "r = submits F sha256 print c" using e Submit_task by (auto simp: submit_task_def Let_def split: if_splits)
  moreover have "tasks_of (pot_exec F sha256 print c s) = tm_tasks m" using e Submit_task by simp
  ultimately show ?thesis using submit_task_at [OF e, of k] by (elim disjE) simp_all
next
  case (Claim_task i a)
  show ?thesis
    by (cases "tasks_of s i") (auto simp: Claim_task claim_task_def intro: task_change.claimed)
next
  case (Submit_solution i a d)
  show ?thesis
    by (cases "tasks_of s i") (auto simp: Submit_solution submit_solution_def intro: task_change.proposed)
next
  case (Vote i a b)
  show ?thesis
  proof (cases "vote_checks i a s")
    case True
    then obtain t where t: "tasks_of s i = Some t" "rt_status t = TaskProposed \<or> rt_status t = TaskValidating"
      "\<not> (rt_claimed_by t \<noteq> [] \<and> rt_claimed_by t = a)"
      by (auto simp: vote_checks_def split: option.splits if_splits)
    show ?thesis using True t(1) task_change.voted [OF t(2,3), of sha256 b]
      by (auto simp: Vote validate_solution_def vote_writes_def tasks_of_update_task Let_def)
  qed (simp add: Vote validate_solution_def)
next
  case (Finalize order i)
  show ?thesis
  proof (rule finalize_task_cases [of F order i s])
    fix t r
    assume t: "tasks_of s i = Some t" "rt_status t = TaskValidating" "rt_votes t \<noteq> Map.empty"
      and "finalize_task F order i s = (Some r, (update_task i
         (\<lambda>t. t\<lparr>rt_status := TaskCompleted, rt_reward_distributed := True\<rparr>) s)
         \<lparr>pp_validators := reward_voters F order t (pp_validators s)\<rparr>)"
    then show ?thesis using task_change.completed [OF t(2,3), of sha256]
      by (cases "k = i") (simp_all add: Finalize tasks_of_update_task)
  next
    fix t r
    assume t: "tasks_of s i = Some t" "rt_status t = TaskValidating" "rt_votes t \<noteq> Map.empty"
      and "finalize_task F order i s = (Some r, (update_task i (\<lambda>t. t\<lparr>rt_status := TaskRejected\<rparr>) s)
         \<lparr>pp_validators := (if rt_claimed_by t = [] then pp_validators s
              else snd (slash F (rt_claimed_by t) (pp_validators s)))\<rparr>)"
    then show ?thesis using task_change.rejected [OF t(2,3), of sha256]
      by (cases "k = i") (simp_all add: Finalize tasks_of_update_task)
  qed (simp add: Finalize)
next
  case (Block h)
  show ?thesis
    by (cases "tasks_of s k") (auto simp: Block process_block_def expire_tasks_def timed_out_def intro: task_change.expired)
qed simp_all

text \<open>
  The invariant of a task. A task that is settled was voted on, by others than a solver with an
  address that is not empty, and its solution hash commits to its solution.
\<close>

definition task_ok :: "(u8 list \<Rightarrow> u8 list) \<Rightarrow> 'f reasoning_task \<Rightarrow> bool" where
  "task_ok sha256 t \<longleftrightarrow>
     finite (dom (rt_votes t)) \<and>
     (rt_votes t = Map.empty \<longleftrightarrow>
        rt_status t \<in> {TaskOpen, TaskClaimed, TaskProposed, TaskExpired}) \<and>
     (rt_reward_distributed t \<longleftrightarrow> rt_status t = TaskCompleted) \<and>
     (rt_claimed_by t \<noteq> [] \<longrightarrow> rt_votes t (rt_claimed_by t) = None) \<and>
     (rt_status t \<in> {TaskProposed, TaskValidating, TaskCompleted, TaskRejected} \<longrightarrow>
        rt_solution_hash t = hex_lower (sha256 (solution_preimage (rt_solution_data t))))"

lemma task_ok_new: "task_ok sha256 (new_task sha256 print a d q b h t now)"
  by (simp add: task_ok_def new_task_def)

lemma task_ok_change: "task_change sha256 t t' \<Longrightarrow> task_ok sha256 t \<Longrightarrow> task_ok sha256 t'"
  by (induction rule: task_change.induct) (auto simp: task_ok_def)

definition pot_ok :: "(u8 list \<Rightarrow> u8 list) \<Rightarrow> 'f pot_protocol \<Rightarrow> bool" where
  "pot_ok sha256 s \<longleftrightarrow> (\<forall>k t. tasks_of s k = Some t \<longrightarrow> task_ok sha256 t)"

lemma submits_ok: "submits F sha256 print c = Some n \<Longrightarrow> task_ok sha256 n"
  by (cases c) (auto simp: task_ok_new split: if_splits)

lemma pot_ok_exec: "pot_ok sha256 s \<Longrightarrow> pot_ok sha256 (pot_exec F sha256 print c s)"
  unfolding pot_ok_def
proof (intro allI impI)
  fix k t
  assume I: "\<forall>k t. tasks_of s k = Some t \<longrightarrow> task_ok sha256 t"
    and t: "tasks_of (pot_exec F sha256 print c s) k = Some t"
  show "task_ok sha256 t"
    using pot_exec_task [of F sha256 print c s k] t I submits_ok [of F sha256 print c] task_ok_change
    by (metis option.distinct(1) option.inject)
qed

lemma pot_ok_run: "pot_ok sha256 s \<Longrightarrow> pot_ok sha256 (pot_run F sha256 print cs s)"
  by (induction cs arbitrary: s) (simp_all add: pot_ok_exec)

lemma pot_ok_new: "pot_ok sha256 (pot_new F)"
  by (simp add: pot_ok_def pot_new_def task_market_new_def)

section \<open>Settled tasks\<close>

text \<open>
  C25. A task that was completed or rejected in a run from the empty market was decided by votes,
  none of them its solver's where the solver's address is not empty; the reward flag is set on the
  completed ones exactly, and the recorded hash is the hash of the recorded solution. A solver with
  the empty address is not kept from voting (\<open>empty_solver_votes\<close>).
\<close>

theorem settled_by_others:
  assumes "tasks_of (pot_run F sha256 print cs (pot_new F)) k = Some t"
    and "rt_status t = TaskCompleted \<or> rt_status t = TaskRejected"
  shows "rt_votes t \<noteq> Map.empty \<and>
    (rt_claimed_by t \<noteq> [] \<longrightarrow> rt_votes t (rt_claimed_by t) = None) \<and>
    (rt_reward_distributed t \<longleftrightarrow> rt_status t = TaskCompleted) \<and>
    rt_solution_hash t = hex_lower (sha256 (solution_preimage (rt_solution_data t)))"
proof -
  have "task_ok sha256 t" using pot_ok_run [OF pot_ok_new] assms(1) unfolding pot_ok_def by blast
  then show ?thesis using assms(2) by (auto simp: task_ok_def)
qed

text \<open>
  The solver check of a vote is skipped for a task that was claimed under the empty address, which
  \<open>claim_task\<close> accepts: then the active validator of that address, the solver, may vote.
\<close>

theorem empty_solver_votes:
  assumes "tasks_of s i = Some t" and "rt_status t = TaskProposed \<or> rt_status t = TaskValidating"
    and "rt_claimed_by t = []" and "pp_validators s [] = Some v" and "pv_is_active v"
  shows "fst (validate_solution i [] approve s) \<and>
    (\<exists>t'. tasks_of (snd (validate_solution i [] approve s)) i = Some t' \<and> rt_claimed_by t' = [] \<and>
      rt_votes t' (rt_claimed_by t') = Some approve)"
  using assms by (auto simp: validate_solution_def vote_checks_def vote_writes_def tasks_of_update_task Let_def)

section \<open>Tasks move forward\<close>

fun stage :: "task_status \<Rightarrow> nat" where
  "stage TaskOpen = 0"
| "stage TaskClaimed = 1"
| "stage TaskProposed = 2"
| "stage TaskValidating = 3"
| "stage _ = 4"

lemma stage_simps [simp]:
  "stage st = 0 \<longleftrightarrow> st = TaskOpen" "stage st \<le> 4" "4 \<le> stage st \<longleftrightarrow> finished st"
  by (cases st; simp add: finished_def)+

text \<open>What a later value of a task keeps of an earlier one.\<close>

definition later_value :: "'f reasoning_task \<Rightarrow> 'f reasoning_task \<Rightarrow> bool" where
  "later_value t t' \<longleftrightarrow>
     rt_task_id t' = rt_task_id t \<and> rt_submitter t' = rt_submitter t \<and> rt_bounty t' = rt_bounty t \<and>
     rt_created_block t' = rt_created_block t \<and> rt_timeout_blocks t' = rt_timeout_blocks t \<and>
     stage (rt_status t) \<le> stage (rt_status t') \<and>
     (1 \<le> stage (rt_status t) \<longrightarrow> rt_claimed_by t' = rt_claimed_by t) \<and>
     (2 \<le> stage (rt_status t) \<longrightarrow>
        rt_solution_data t' = rt_solution_data t \<and> rt_solution_hash t' = rt_solution_hash t) \<and>
     dom (rt_votes t) \<subseteq> dom (rt_votes t') \<and>
     (finished (rt_status t) \<longrightarrow> t' = t)"

lemma later_value_refl [simp]: "later_value t t"
  by (simp add: later_value_def)

lemma later_value_trans: "later_value t t' \<Longrightarrow> later_value t' t'' \<Longrightarrow> later_value t t''"
  unfolding later_value_def by (elim conjE, intro conjI impI) (auto dest: order_trans)

lemma later_value_change: "task_change sha256 t t' \<Longrightarrow> later_value t t'"
  by (induction rule: task_change.induct) (auto simp: later_value_def finished_def)

definition resubmits ::
  "'f f64_ops \<Rightarrow> (u8 list \<Rightarrow> u8 list) \<Rightarrow> ('f \<Rightarrow> string) \<Rightarrow> string \<Rightarrow> 'f pot_call \<Rightarrow> bool" where
  "resubmits F sha256 print k c \<longleftrightarrow> (case submits F sha256 print c of None \<Rightarrow> False | Some n \<Rightarrow> rt_task_id n = k)"

lemma gone_exec:
  "tasks_of s k = None \<Longrightarrow> \<not> resubmits F sha256 print k c \<Longrightarrow> tasks_of (pot_exec F sha256 print c s) k = None"
  using pot_exec_task [of F sha256 print c s k] by (auto simp: resubmits_def)

lemma gone_run:
  "tasks_of s k = None \<Longrightarrow> \<forall>c \<in> set cs. \<not> resubmits F sha256 print k c \<Longrightarrow>
   tasks_of (pot_run F sha256 print cs s) k = None"
  by (induction cs arbitrary: s) (simp_all add: gone_exec)

lemma run_later_value:
  assumes "\<forall>c \<in> set cs. \<not> resubmits F sha256 print k c"
    and "tasks_of s k = Some t" and "tasks_of (pot_run F sha256 print cs s) k = Some t'"
  shows "later_value t t'"
  using assms
proof (induction cs arbitrary: s t)
  case (Cons c cs)
  let ?s = "pot_exec F sha256 print c s"
  obtain u where u: "tasks_of ?s k = Some u"
    using gone_run [of ?s k cs F sha256 print] Cons.prems(1,3) by (cases "tasks_of ?s k") auto
  have "later_value t u"
    using pot_exec_task [of F sha256 print c s k] u Cons.prems(1,2) later_value_change
    by (auto simp: resubmits_def)
  moreover have "later_value u t'"
    using Cons.IH [OF _ u] Cons.prems(1,3) by simp
  ultimately show ?case by (rule later_value_trans)
qed simp

text \<open>
  A task moves forward. As long as its identifier is not submitted again, the terms of the task
  stay, its stage never goes back, its solver and its solution stay once they are set, no vote
  is lost, and a finished task does not change at all.
\<close>

theorem task_moves_forward:
  assumes "\<forall>c \<in> set cs. \<not> resubmits F sha256 print k c"
    and "tasks_of s k = Some t" and "tasks_of (pot_run F sha256 print cs s) k = Some t'"
  shows "later_value t t'"
  by (rule run_later_value [OF assms])

section \<open>Settlement\<close>

lemma reward_voters_at:
  assumes "distinct order"
  shows "reward_voters F order t vs a =
    (if a \<in> set order \<and> the (rt_votes t a)
     then map_option (\<lambda>v. v\<lparr>pv_total_rewards := fl_add F (pv_total_rewards v)
              (fl_div F (fl_mul F (rt_bounty t) (fl_lit F 1 1)) (fl_of_nat F (max (card (dom (rt_votes t))) 1))),
            pv_correct_validations := pv_correct_validations v + 1\<rparr>) (vs a)
     else vs a)"
  using assms unfolding reward_voters_def
proof (induction order arbitrary: vs)
  case (Cons b order)
  show ?case
  proof (cases "b = a")
    case True
    then have "a \<notin> set order" using Cons.prems by simp
    then show ?thesis using True Cons
      by (cases "vs a") (simp_all add: reward_def)
  next
    case False
    then show ?thesis using Cons by (cases "vs b") (simp_all add: reward_def)
  qed
qed simp

lemma finalize_task_approved:
  assumes "finalize_task F order k s = (Some f, s')" and "tasks_of s k = Some t"
    and "vote_totals F (pp_max_vote_weight s) order t (pp_validators s) = (cast, approve)"
  shows "tf_approved f \<longleftrightarrow> fl_le F (VALIDATION_THRESHOLD F) (fl_div F approve cast)"
  using assms by (auto simp: finalize_task_def Let_def split: if_splits)

lemma stake_after_slash:
  "map_option pv_stake (snd (slash F b vs) a) = map_option (\<lambda>v. if a = b
     then fl_sub F (pv_stake v) (fl_mul F (pv_stake v) (SLASH_PENALTY F)) else pv_stake v) (vs a)"
  by (cases "vs b"; cases "vs a") (auto simp: slash_def Let_def)

lemma rewards_after_slash:
  "map_option pv_total_rewards (snd (slash F b vs) a) = map_option pv_total_rewards (vs a)"
  by (cases "vs b"; cases "vs a") (auto simp: slash_def Let_def)

text \<open>
  What finalizing does. Without a result nothing changes. With one, the task was being validated
  and had votes; it was approved exactly when the capped stake for it reaches the threshold, and
  it alone changes its status. An approval pays its share to every voter in favour and moves no
  stake; a rejection halves the stake of the solver and no other.
\<close>

theorem finalize_settles:
  assumes "finalize_task F order k s = (r, s')" and "tasks_of s k = Some t"
    and "distinct order" and "set order = dom (rt_votes t)"
  shows "(r = None \<longrightarrow> s' = s) \<and> (\<forall>f. r = Some f \<longrightarrow>
     (let (cast, approve) = vote_totals F (pp_max_vote_weight s) order t (pp_validators s);
          share = fl_div F (fl_mul F (rt_bounty t) (fl_lit F 1 1)) (fl_of_nat F (max (card (dom (rt_votes t))) 1))
      in rt_status t = TaskValidating \<and> rt_votes t \<noteq> Map.empty \<and>
         (tf_approved f \<longleftrightarrow> fl_le F (VALIDATION_THRESHOLD F) (fl_div F approve cast)) \<and>
         tasks_of s' = (tasks_of s)(k \<mapsto>
           (if tf_approved f then t\<lparr>rt_status := TaskCompleted, rt_reward_distributed := True\<rparr>
            else t\<lparr>rt_status := TaskRejected\<rparr>)) \<and>
         (\<forall>a. map_option pv_stake (pp_validators s' a) =
            map_option (\<lambda>v. if \<not> tf_approved f \<and> a = rt_claimed_by t \<and> a \<noteq> []
              then fl_sub F (pv_stake v) (fl_mul F (pv_stake v) (SLASH_PENALTY F)) else pv_stake v) (pp_validators s a)) \<and>
         (\<forall>a. map_option pv_total_rewards (pp_validators s' a) =
            map_option (\<lambda>v. if tf_approved f \<and> rt_votes t a = Some True
              then fl_add F (pv_total_rewards v) share else pv_total_rewards v) (pp_validators s a))))"
proof (cases r)
  case None
  then show ?thesis using assms(1,2)
    by (auto simp: finalize_task_def Let_def split: if_splits prod.splits)
next
  case (Some f)
  obtain cast approve where tot:
    "vote_totals F (pp_max_vote_weight s) order t (pp_validators s) = (cast, approve)" by fastforce
  note f = assms(1) [unfolded Some]
  have "tf_approved f \<longleftrightarrow> fl_le F (VALIDATION_THRESHOLD F) (fl_div F approve cast)"
    by (rule finalize_task_approved [OF f assms(2) tot])
  moreover have "rt_status t = TaskValidating \<and> rt_votes t \<noteq> Map.empty \<and> tasks_of s' = (tasks_of s)(k \<mapsto>
      (if tf_approved f then t\<lparr>rt_status := TaskCompleted, rt_reward_distributed := True\<rparr>
       else t\<lparr>rt_status := TaskRejected\<rparr>))"
    using f assms(2) by (cases rule: finalize_task_cases [of F order k s]) (auto simp: tasks_of_update_task)
  moreover have "pp_validators s' = (if tf_approved f then reward_voters F order t (pp_validators s)
      else if rt_claimed_by t = [] then pp_validators s
      else snd (slash F (rt_claimed_by t) (pp_validators s)))"
    using f assms(2) by (cases rule: finalize_task_cases [of F order k s]) auto
  ultimately show ?thesis
    unfolding Some option.simps tot Let_def prod.case
    by (auto simp: stake_after_slash rewards_after_slash reward_voters_at [OF assms(3)] assms(4) option.map_comp comp_def
        intro!: option.map_cong)
qed


section \<open>The cap on the weight of a vote\<close>

definition voter_stake :: "rat validators \<Rightarrow> string \<Rightarrow> rat" where
  "voter_stake vs a = (case vs a of None \<Rightarrow> 0 | Some v \<Rightarrow> pv_stake v)"

lemma raw_total_exact:
  "raw_total exact_ops order vs = sum_list (map (voter_stake vs) order)"
proof -
  have "foldl (\<lambda>acc a. case vs a of None \<Rightarrow> acc | Some v \<Rightarrow> fl_add exact_ops acc (pv_stake v)) x order =
      x + sum_list (map (voter_stake vs) order)" for x
    by (induction order arbitrary: x) (auto simp: voter_stake_def split: option.splits)
  then show ?thesis by (simp add: raw_total_def)
qed

lemma capped_weight_exact:
  "capped_weight exact_ops raw w vs a = min (voter_stake vs a) (raw * w)"
  by (simp add: capped_weight_def voter_stake_def split: option.splits)

lemma vote_totals_exact:
  "vote_totals exact_ops w order t vs =
     (let weight = (\<lambda>a. min (voter_stake vs a) (sum_list (map (voter_stake vs) order) * w))
      in (sum_list (map weight order), sum_list (map weight (filter (\<lambda>a. the (rt_votes t a)) order))))"
proof -
  define weight where "weight = (\<lambda>a. min (voter_stake vs a) (sum_list (map (voter_stake vs) order) * w))"
  have "foldl (\<lambda>(cast, approve) a. (cast + weight a, if the (rt_votes t a) then approve + weight a else approve)) (c, p) xs =
      (c + sum_list (map weight xs), p + sum_list (map weight (filter (\<lambda>a. the (rt_votes t a)) xs)))" for c p xs
    by (induction xs arbitrary: c p) (simp_all add: add.assoc)
  then have "foldl (\<lambda>(cast, approve) a. (cast + weight a, if the (rt_votes t a) then approve + weight a else approve)) (0, 0) order =
      (sum_list (map weight order), sum_list (map weight (filter (\<lambda>a. the (rt_votes t a)) order)))" by simp
  then show ?thesis
    unfolding vote_totals_def capped_weight_exact raw_total_exact Let_def exact_ops_simps weight_def
    by (simp only:)
qed

text \<open>
  The cap does not stop a large validator from deciding alone. Even in exact arithmetic, with
  the default weight of 33 percent, a voter in favour who holds six times the stake of all the
  other voters together has the task approved whatever they vote, because the cap is taken of
  the raw total while the ratio is taken of the capped one.
\<close>

theorem large_voter_decides_alone:
  assumes "tasks_of s k = Some t" and "rt_status t = TaskValidating" and "rt_votes t a = Some True"
    and "distinct order" and "set order = dom (rt_votes t)"
    and "pp_max_vote_weight s = DEFAULT_MAX_VOTE_WEIGHT exact_ops"
    and "\<forall>b. 0 \<le> voter_stake (pp_validators s) b" and "0 < voter_stake (pp_validators s) a"
    and "6 * (\<Sum>b \<in> dom (rt_votes t) - {a}. voter_stake (pp_validators s) b) \<le> voter_stake (pp_validators s) a"
  shows "\<exists>f s'. finalize_task exact_ops order k s = (Some f, s') \<and> tf_approved f"
proof -
  let ?st = "voter_stake (pp_validators s)"
  let ?yes = "\<lambda>b. the (rt_votes t b)"
  define W S where "W = ?st a" and "S = (\<Sum>b \<in> dom (rt_votes t) - {a}. ?st b)"
  define cap where "cap = (W + S) * (33 / 100)"
  define weight where "weight = (\<lambda>b. min (?st b) cap)"
  have a: "a \<in> set order" using assms(3,5) by auto
  have S0: "0 \<le> S" unfolding S_def by (rule sum_nonneg) (use assms(7) in simp)
  have WS: "0 < W" "6 * S \<le> W" using assms(8,9) by (simp_all add: W_def S_def)
  have raw: "sum_list (map ?st order) = W + S"
    unfolding sum_list_distinct_conv_sum_set [OF assms(4)] assms(5) W_def S_def
    using a assms(5) finite_set [of order] by (simp add: sum.remove)
  have cap: "0 < cap" "cap \<le> W" using WS S0 by (simp_all add: cap_def)
  have pos: "0 \<le> weight b" for b using assms(7) cap by (simp add: weight_def)
  define cast approve where "cast = sum_list (map weight order)"
    and "approve = sum_list (map weight (filter ?yes order))"
  have tot: "vote_totals exact_ops (pp_max_vote_weight s) order t (pp_validators s) = (cast, approve)"
    unfolding vote_totals_exact raw assms(6) cast_def approve_def weight_def cap_def
    by (simp add: DEFAULT_MAX_VOTE_WEIGHT_def Let_def)
  have approve: "cap \<le> approve"
  proof -
    have "approve = (\<Sum>b \<in> {b \<in> set order. ?yes b}. weight b)"
      unfolding approve_def using assms(4) by (simp add: sum_list_distinct_conv_sum_set)
    moreover have "weight a \<le> (\<Sum>b \<in> {b \<in> set order. ?yes b}. weight b)"
      using a assms(3) pos by (intro member_le_sum) auto
    ultimately show ?thesis using cap by (simp add: weight_def W_def)
  qed
  have cast: "cast \<le> approve + S"
  proof -
    have "cast = approve + sum_list (map weight (filter (\<lambda>b. \<not> ?yes b) order))"
      unfolding cast_def approve_def by (induction order) (simp_all add: add_ac)
    moreover have "sum_list (map weight (filter (\<lambda>b. \<not> ?yes b) order)) = (\<Sum>b \<in> {b \<in> set order. \<not> ?yes b}. weight b)"
      using assms(4) by (simp add: sum_list_distinct_conv_sum_set)
    moreover have "\<dots> \<le> (\<Sum>b \<in> {b \<in> set order. \<not> ?yes b}. ?st b)" by (rule sum_mono) (simp add: weight_def)
    moreover have "\<dots> \<le> S" unfolding S_def
      by (rule sum_mono2) (use assms(3,5,7) finite_set [of order] in auto)
    ultimately show ?thesis by linarith
  qed
  have ge: "approve \<le> cast" unfolding cast_def approve_def
    by (induction order) (simp_all add: pos add_increasing)
  have "33 * W + 33 * S \<le> 100 * approve" using approve by (simp add: cap_def field_simps)
  then have "67 * cast \<le> 100 * approve" using cast WS S0 by linarith
  then have "67 / 100 * cast \<le> approve" by (simp add: field_simps)
  then have "67 / 100 \<le> approve / cast" using ge approve cap(1) by (simp add: pos_le_divide_eq)
  moreover have "cast \<noteq> 0" "W + S \<noteq> 0" using ge approve cap(1) WS S0 by linarith+
  ultimately show ?thesis
    using assms(1-3) tot raw
    by (auto simp: finalize_task_def raw_total_exact Let_def VALIDATION_THRESHOLD_def)
qed


section \<open>A vote that is recorded late\<close>

text \<open>
  The checks of a vote and its writes hold the locks separately. A vote that was checked before
  the task was finalized and is recorded after it takes the settled task back to validation: it
  can be settled again, although the reward of an approved task was already distributed.
\<close>

theorem late_vote_reopens:
  assumes "vote_checks k a s" and "finalize_task F order k s = (Some f, s1)"
  shows "\<exists>t t'. tasks_of s1 k = Some t \<and> finished (rt_status t) \<and>
    tasks_of (vote_writes k a b s1) k = Some t' \<and> rt_status t' = TaskValidating \<and> rt_votes t' a = Some b \<and>
    rt_reward_distributed t' = rt_reward_distributed t \<and> (tf_approved f \<longrightarrow> rt_reward_distributed t)"
  using assms(2)
  by (cases rule: finalize_task_cases [of F order k s])
    (auto simp: vote_writes_def tasks_of_update_task finished_def Let_def)

section \<open>The cooldown\<close>

text \<open>
  The calls a cooldown withstands: everything but a new stake or request of the validator and
  its own attempts to complete at the deadline or later.
\<close>

fun withstands :: "string \<Rightarrow> u64 \<Rightarrow> 'f pot_call \<Rightarrow> bool" where
  "withstands a h (Stake b _ _) \<longleftrightarrow> b \<noteq> a"
| "withstands a h (Request_unstake b _) \<longleftrightarrow> b \<noteq> a"
| "withstands a h (Complete_unstake b h') \<longleftrightarrow> b \<noteq> a \<or> h' < h"
| "withstands a h _ \<longleftrightarrow> True"

definition unstakes_at :: "string \<Rightarrow> u64 \<Rightarrow> 'f validators \<Rightarrow> bool" where
  "unstakes_at a h vs \<longleftrightarrow> (\<exists>v. vs a = Some v \<and> pv_unstaking_block v = h)"

lemma unstakes_at_slash: "unstakes_at a h vs \<Longrightarrow> unstakes_at a h (snd (slash F b vs))"
  by (auto simp: unstakes_at_def slash_def Let_def split: option.splits)

lemma unstakes_at_reward: "unstakes_at a h vs \<Longrightarrow> unstakes_at a h (snd (reward F b x vs))"
  by (auto simp: unstakes_at_def reward_def split: option.splits)

lemma unstakes_at_record: "unstakes_at a h vs \<Longrightarrow> unstakes_at a h (record_validation b vs)"
  by (auto simp: unstakes_at_def record_validation_def split: option.splits)

lemma unstakes_at_reward_voters: "unstakes_at a h vs \<Longrightarrow> unstakes_at a h (reward_voters F order t vs)"
  unfolding reward_voters_def by (induction order arbitrary: vs) (simp_all add: unstakes_at_reward)

lemma unstakes_at_exec:
  assumes "unstakes_at a h (pp_validators s)" and "withstands a h c"
  shows "unstakes_at a h (pp_validators (pot_exec F sha256 print c s))"
proof (cases c)
  case (Finalize order i)
  show ?thesis using assms(1)
    by (cases rule: finalize_task_cases [of F order i s])
      (simp_all add: Finalize unstakes_at_slash unstakes_at_reward_voters)
next
  case (Stake b x h')
  then show ?thesis using assms by (auto simp: unstakes_at_def stake_def)
next
  case (Request_unstake b h')
  then show ?thesis using assms by (auto simp: unstakes_at_def request_unstake_def split: option.splits)
next
  case (Complete_unstake b h')
  then show ?thesis using assms by (auto simp: unstakes_at_def complete_unstake_def split: option.splits)
qed (use assms(1) in \<open>simp_all add: validate_solution_def vote_writes_def Let_def unstakes_at_record unstakes_at_slash
    unstakes_at_reward process_block_def split_def\<close>)

lemma unstakes_at_run:
  "unstakes_at a h (pp_validators s) \<Longrightarrow> \<forall>c \<in> set cs. withstands a h c \<Longrightarrow>
   unstakes_at a h (pp_validators (pot_run F sha256 print cs s))"
  by (induction cs arbitrary: s) (simp_all add: unstakes_at_exec)

text \<open>
  Stake stays for the cooldown. Once a validator has asked to leave at a height, it remains
  registered and gets nothing back before 183272 blocks have passed, whatever tasks, votes,
  settlements, slashes and calls of others come in between, unless it stakes or asks again.
\<close>

theorem unstake_waits:
  assumes "request_unstake a h (pp_validators s) = (True, vs)"
    and "\<forall>c \<in> set cs. withstands a (h + UNSTAKING_DELAY_BLOCKS) c"
    and "h' < h + UNSTAKING_DELAY_BLOCKS"
  shows "pp_validators (pot_run F sha256 print cs (s\<lparr>pp_validators := vs\<rparr>)) a \<noteq> None \<and>
    complete_unstake F a h' (pp_validators (pot_run F sha256 print cs (s\<lparr>pp_validators := vs\<rparr>))) =
      (fl_zero F, pp_validators (pot_run F sha256 print cs (s\<lparr>pp_validators := vs\<rparr>)))"
proof -
  have "unstakes_at a (h + UNSTAKING_DELAY_BLOCKS) (pp_validators (s\<lparr>pp_validators := vs\<rparr>))"
    using assms(1) by (auto simp: request_unstake_def unstakes_at_def split: option.splits if_splits)
  then have "unstakes_at a (h + UNSTAKING_DELAY_BLOCKS) (pp_validators (pot_run F sha256 print cs (s\<lparr>pp_validators := vs\<rparr>)))"
    using assms(2) by (rule unstakes_at_run)
  then show ?thesis using assms(3) by (auto simp: unstakes_at_def complete_unstake_def)
qed

text \<open>
  A slash decides the activity of a validator by its remaining stake alone. It takes a validator
  in its cooldown back among the active ones, who vote, while its deadline goes on.
\<close>

theorem slash_reactivates:
  assumes "vs a = Some v" and "is_unstaking v"
    and "fl_le F (MIN_VALIDATOR_STAKE F) (fl_sub F (pv_stake v) (fl_mul F (pv_stake v) (SLASH_PENALTY F)))"
  shows "\<exists>v'. snd (slash F a vs) a = Some v' \<and> pv_is_active v' \<and> is_unstaking v' \<and>
    (\<forall>h. pv_unstaking_block v \<le> h \<longrightarrow> fst (complete_unstake F a h (snd (slash F a vs))) = pv_stake v')"
  using assms by (auto simp: slash_def complete_unstake_def is_unstaking_def Let_def)

text \<open>
  A validator slashed below the minimum that was not in its cooldown can neither ask to leave
  nor complete: what is left of its stake comes back only after a new stake of the minimum.
\<close>

theorem slashed_stake_is_stuck:
  assumes "vs a = Some v" and "\<not> is_unstaking v"
    and "\<not> fl_le F (MIN_VALIDATOR_STAKE F) (fl_sub F (pv_stake v) (fl_mul F (pv_stake v) (SLASH_PENALTY F)))"
  shows "\<not> fst (request_unstake a h (snd (slash F a vs))) \<and>
    complete_unstake F a h (snd (slash F a vs)) = (fl_zero F, snd (slash F a vs))"
  using assms by (auto simp: slash_def complete_unstake_def request_unstake_def is_unstaking_def Let_def)

section \<open>Open tasks and the bound of the market\<close>

interpretation exact_priority: preorder_sort
  "\<lambda>a b. fl_lt exact_ops (priority_score exact_ops a current) (priority_score exact_ops b current)" UNIV
  for current
  by unfold_locales auto

text \<open>
  The list of open tasks holds as many open tasks as there are, up to the limit, ordered by
  priority, and no open task it leaves out has a higher priority than one it holds.
\<close>

theorem open_tasks_by_priority:
  assumes "set order = dom (tm_tasks m)" and "distinct order"
    and "preorder_sort (\<lambda>a b. fl_lt F (priority_score F a current) (priority_score F b current)) (ran (tm_tasks m))"
  shows "length (get_open_tasks F order limit current m) = min limit (open_count m) \<and>
    set (get_open_tasks F order limit current m) \<subseteq> {t \<in> ran (tm_tasks m). rt_status t = TaskOpen} \<and>
    sorted_wrt (\<lambda>a b. \<not> fl_lt F (priority_score F a current) (priority_score F b current))
      (get_open_tasks F order limit current m) \<and>
    (\<forall>t \<in> set (get_open_tasks F order limit current m). \<forall>u \<in> ran (tm_tasks m).
       rt_status u = TaskOpen \<longrightarrow> u \<notin> set (get_open_tasks F order limit current m) \<longrightarrow>
       \<not> fl_lt F (priority_score F t current) (priority_score F u current))"
proof -
  let ?gt = "\<lambda>a b. fl_lt F (priority_score F a current) (priority_score F b current)"
  let ?open = "filter (\<lambda>t. rt_status t = TaskOpen) (map (\<lambda>k. the (tm_tasks m k)) order)"
  note L = preorder_sort.sort_ascending [OF assms(3)] preorder_sort.ascending_def [OF assms(3)]
  have opens: "set ?open = {t \<in> ran (tm_tasks m). rt_status t = TaskOpen}"
    using assms(1) by (auto simp: ran_def image_iff set_eq_iff dom_def) (metis option.sel)+
  then have sub: "set ?open \<subseteq> ran (tm_tasks m)" by blast
  have "length ?open = card {k \<in> set order. rt_status (the (tm_tasks m k)) = TaskOpen}"
    using assms(2) by (simp add: filter_map comp_def distinct_length_filter Int_def conj_commute)
  then have len: "length ?open = open_count m" by (simp add: open_count_def assms(1))
  have "sorted_wrt (\<lambda>a b. \<not> ?gt a b) (take limit (sort_by ?gt ?open))"
    using L(1) [OF sub] unfolding L(2) by (rule sorted_wrt_take)
  moreover have "length (take limit (sort_by ?gt ?open)) = min limit (open_count m)"
    by (simp only: length_take length_sort_by len min.commute)
  moreover have "set (take limit (sort_by ?gt ?open)) \<subseteq> {t \<in> ran (tm_tasks m). rt_status t = TaskOpen}"
    using set_take_subset [of limit "sort_by ?gt ?open"] unfolding set_sort_by opens .
  moreover have "\<not> ?gt t u" if "t \<in> set (take limit (sort_by ?gt ?open))" "u \<in> ran (tm_tasks m)"
    "rt_status u = TaskOpen" "u \<notin> set (take limit (sort_by ?gt ?open))" for t u
    by (rule preorder_sort.left_out_is_least [OF assms(3) sub that(1) _ that(4)]) (simp only: opens that(2,3) mem_Collect_eq simp_thms)
  ultimately show ?thesis unfolding get_open_tasks_def by blast
qed

text \<open>
  The market has no bound while its tasks are live: a submission evicts finished tasks only, and
  if none is finished it adds one task more, however many there are.
\<close>

theorem live_market_grows:
  assumes "submit_task F sha256 print order now a d b q h t m = (Some n, m')"
    and "finite (dom (tm_tasks m))" and "set order \<subseteq> insert (rt_task_id n) (dom (tm_tasks m))"
    and "tm_tasks m (rt_task_id n) = None" and "\<forall>u \<in> ran (tm_tasks m). \<not> finished (rt_status u)"
  shows "task_count m' = Suc (task_count m)"
proof -
  let ?ts = "(tm_tasks m)(rt_task_id n \<mapsto> n)"
  have n: "n = new_task sha256 print a d q b h t now"
    and m': "tm_tasks m' = (if tm_max_tasks m < card (dom ?ts) then evict_old_tasks F order ?ts else ?ts)"
    using assms(1) by (auto simp: submit_task_def Let_def split: if_splits)
  have "\<not> finished (rt_status n)" by (simp add: n new_task_def finished_def)
  then have "evict_old_tasks F order ?ts k = ?ts k" for k
    using evict_old_tasks_at [of F order ?ts k] assms(5)
    by (metis fun_upd_other fun_upd_same option.sel ranI not_Some_eq)
  then have "tm_tasks m' = ?ts" using m' by (simp add: fun_eq_iff)
  then show ?thesis using assms(2,4) by (simp add: task_count_def card_insert_if domIff)
qed


section \<open>An example\<close>

definition demo_hash :: "u8 list \<Rightarrow> u8 list" where "demo_hash bs = [1]"
definition demo_print :: "rat \<Rightarrow> string" where "demo_print x = ''t''"

definition demo_calls :: "rat pot_call list" where
  "demo_calls = [Stake ''v'' 600 0, Stake ''w'' 100 0, Submit_task [] 1 ''s'' ''d'' 5 ''q'' 0 10,
     Claim_task ''01'' ''x'', Submit_solution ''01'' ''x'' [], Vote ''01'' ''v'' True, Vote ''01'' ''w'' False]"

definition demo_state :: "rat pot_protocol" where
  "demo_state = pot_run exact_ops demo_hash demo_print demo_calls (pot_new exact_ops)"

definition demo_task :: "rat reasoning_task" where
  "demo_task = \<lparr>rt_task_id = ''01'', rt_submitter = ''s'', rt_description = ''d'', rt_query_type = ''q'',
     rt_bounty = 5, rt_status = TaskValidating, rt_created_block = 0, rt_timeout_blocks = 10,
     rt_claimed_by = ''x'', rt_solution_hash = ''01'', rt_solution_data = [],
     rt_votes = [''v'' \<mapsto> True, ''w'' \<mapsto> False], rt_reward_distributed = False, rt_timestamp = 1\<rparr>"

definition demo_validator :: "string \<Rightarrow> rat \<Rightarrow> rat pot_validator" where
  "demo_validator a x = \<lparr>pv_address = a, pv_stake = x, pv_staked_block = 0, pv_unstaking_block = 0,
     pv_is_active = True, pv_tasks_validated = 1, pv_correct_validations = 0,
     pv_total_slashed = 0, pv_total_rewards = 0\<rparr>"

lemma demo_state:
  "demo_state = \<lparr>pp_market = \<lparr>tm_tasks = [''01'' \<mapsto> demo_task], tm_max_tasks = 10000\<rparr>,
     pp_validators = [''v'' \<mapsto> demo_validator ''v'' 600, ''w'' \<mapsto> demo_validator ''w'' 100],
     pp_max_vote_weight = 33 / 100\<rparr>"
  by (simp add: demo_state_def demo_calls_def pot_new_def task_market_new_def stake_def MIN_VALIDATOR_STAKE_def
      new_validator_def submit_task_def MIN_TASK_BOUNTY_def new_task_def demo_hash_def hex_lower_def hex_digit_def
      MAX_TASKS_def claim_task_def submit_solution_def validate_solution_def vote_checks_def vote_writes_def
      update_task_def record_validation_def demo_task_def demo_validator_def DEFAULT_MAX_VOTE_WEIGHT_def Let_def
      fun_upd_twist)


definition demo_finalization :: "rat task_finalization" where
  "demo_finalization = \<lparr>tf_task_id = ''01'', tf_approved = True, tf_approval_ratio = 6979 / 10000,
     tf_votes = 2, tf_bounty = 5, tf_solver = ''x''\<rparr>"

definition demo_settled :: "rat pot_protocol" where
  "demo_settled = \<lparr>pp_market = \<lparr>tm_tasks = [''01'' \<mapsto> demo_task\<lparr>rt_status := TaskCompleted, rt_reward_distributed := True\<rparr>],
       tm_max_tasks = 10000\<rparr>,
     pp_validators = [''v'' \<mapsto> (demo_validator ''v'' 600)\<lparr>pv_total_rewards := 1 / 4, pv_correct_validations := 1\<rparr>,
       ''w'' \<mapsto> demo_validator ''w'' 100],
     pp_max_vote_weight = 33 / 100\<rparr>"

lemma demo_votes: "dom (rt_votes demo_task) = {''v'', ''w''}"
  by (auto simp: demo_task_def)

lemma demo_finalize:
  "finalize_task exact_ops [''v'', ''w''] ''01'' demo_state = (Some demo_finalization, demo_settled)"
proof -
  have vs: "vote_totals exact_ops (33 / 100) [''v'', ''w''] demo_task
      [''v'' \<mapsto> demo_validator ''v'' 600, ''w'' \<mapsto> demo_validator ''w'' 100] = (331, 231)"
    by (simp add: vote_totals_exact voter_stake_def demo_validator_def demo_task_def)
  have rw: "reward_voters exact_ops [''v'', ''w''] demo_task
      [''v'' \<mapsto> demo_validator ''v'' 600, ''w'' \<mapsto> demo_validator ''w'' 100] =
      [''v'' \<mapsto> (demo_validator ''v'' 600)\<lparr>pv_total_rewards := 1 / 4, pv_correct_validations := 1\<rparr>,
       ''w'' \<mapsto> demo_validator ''w'' 100]"
    by (simp add: reward_voters_def reward_def demo_votes) (simp add: demo_task_def demo_validator_def fun_upd_twist)
  have "rt_status demo_task = TaskValidating" "rt_votes demo_task \<noteq> Map.empty" "rt_claimed_by demo_task = ''x''"
    "rt_bounty demo_task = 5"
    by (auto simp: demo_task_def fun_eq_iff)
  moreover have "\<lfloor>4620331 / 662 :: rat\<rfloor> = 6979" by (simp add: floor_eq_iff)
  ultimately show ?thesis
    by (simp add: finalize_task_def demo_state vs rw raw_total_exact voter_stake_def demo_votes
        demo_settled_def demo_finalization_def update_task_def VALIDATION_THRESHOLD_def)
      (simp add: demo_validator_def exact_ops_def)
qed

lemma finalize_settles_witness:
  "\<exists>s' f. finalize_task exact_ops [''v'', ''w''] ''01'' demo_state = (Some f, s') \<and> tf_approved f \<and>
     map_option pv_total_rewards (pp_validators s' ''v'') = Some (1 / 4) \<and>
     map_option pv_stake (pp_validators s' ''v'') = Some 600"
  using finalize_settles [OF demo_finalize, of demo_task] demo_finalize
  by (simp add: demo_state demo_votes demo_settled_def demo_finalization_def) (simp add: demo_validator_def)

lemma settled_by_others_witness:
  "rt_votes (demo_task\<lparr>rt_status := TaskCompleted, rt_reward_distributed := True\<rparr>) ''x'' = None"
proof -
  have "pot_run exact_ops demo_hash demo_print (demo_calls @ [Finalize [''v'', ''w''] ''01'']) (pot_new exact_ops) = demo_settled"
    using demo_finalize by (simp add: pot_run_def demo_state_def)
  then have "tasks_of (pot_run exact_ops demo_hash demo_print (demo_calls @ [Finalize [''v'', ''w''] ''01''])
      (pot_new exact_ops)) ''01'' = Some (demo_task\<lparr>rt_status := TaskCompleted, rt_reward_distributed := True\<rparr>)"
    by (simp add: demo_settled_def)
  from settled_by_others [OF this] show ?thesis by (simp add: demo_task_def)
qed

text \<open>A task that its solver, under the empty address, approves alone.\<close>

definition empty_solver_calls :: "rat pot_call list" where
  "empty_solver_calls = [Stake [] 600 0, Submit_task [] 1 ''s'' ''d'' 5 ''q'' 0 10,
     Claim_task ''01'' [], Submit_solution ''01'' [] [], Vote ''01'' [] True, Finalize [[]] ''01'']"

theorem empty_solver_settles_alone:
  "\<exists>t. tasks_of (pot_run exact_ops demo_hash demo_print empty_solver_calls (pot_new exact_ops)) ''01'' = Some t \<and>
     rt_status t = TaskCompleted \<and> rt_claimed_by t = [] \<and> rt_votes t = [[] \<mapsto> True]"
  by (simp add: empty_solver_calls_def pot_run_def pot_new_def task_market_new_def stake_def MIN_VALIDATOR_STAKE_def
      new_validator_def submit_task_def MIN_TASK_BOUNTY_def new_task_def demo_hash_def hex_lower_def hex_digit_def
      MAX_TASKS_def claim_task_def submit_solution_def validate_solution_def vote_checks_def vote_writes_def
      update_task_def record_validation_def DEFAULT_MAX_VOTE_WEIGHT_def Let_def finalize_task_def raw_total_exact
      vote_totals_exact voter_stake_def VALIDATION_THRESHOLD_def)

lemma task_moves_forward_witness:
  "later_value demo_task (demo_task\<lparr>rt_status := TaskCompleted, rt_reward_distributed := True\<rparr>)"
  by (rule task_moves_forward [of "[Finalize [''v'', ''w''] ''01'']" exact_ops demo_hash demo_print "''01''" demo_state])
    (simp add: resubmits_def, simp add: demo_state, simp add: demo_finalize demo_settled_def)

lemma large_voter_witness:
  "\<exists>f s'. finalize_task exact_ops [''v'', ''w''] ''01'' demo_state = (Some f, s') \<and> tf_approved f"
proof (rule large_voter_decides_alone [of demo_state "''01''" demo_task "''v''"])
  show "tasks_of demo_state ''01'' = Some demo_task" by (simp add: demo_state)
  show "pp_max_vote_weight demo_state = DEFAULT_MAX_VOTE_WEIGHT exact_ops"
    by (simp add: demo_state DEFAULT_MAX_VOTE_WEIGHT_def)
  show "\<forall>b. 0 \<le> voter_stake (pp_validators demo_state) b"
    by (simp add: demo_state voter_stake_def demo_validator_def)
  have "dom (rt_votes demo_task) - {''v''} = {''w''}" by (auto simp: demo_votes)
  then show "6 * (\<Sum>b \<in> dom (rt_votes demo_task) - {''v''}. voter_stake (pp_validators demo_state) b)
      \<le> voter_stake (pp_validators demo_state) ''v''"
    by (simp add: demo_state voter_stake_def demo_validator_def)
qed (simp_all add: demo_votes demo_state voter_stake_def demo_validator_def, simp_all add: demo_task_def)

text \<open>
  Recorded late, the second vote of \<open>w\<close> reopens the settled task; finalizing it again pays \<open>v\<close> a
  second time.
\<close>

lemma demo_checks: "vote_checks ''01'' ''w'' demo_state"
  by (simp add: vote_checks_def demo_state) (simp add: demo_task_def demo_validator_def)

lemma demo_reopened:
  "vote_writes ''01'' ''w'' True demo_settled = demo_settled\<lparr>
     pp_market := \<lparr>tm_tasks = [''01'' \<mapsto> demo_task\<lparr>rt_votes := [''v'' \<mapsto> True, ''w'' \<mapsto> True], rt_reward_distributed := True\<rparr>],
       tm_max_tasks = 10000\<rparr>,
     pp_validators := (pp_validators demo_settled)(''w'' \<mapsto> (demo_validator ''w'' 100)\<lparr>pv_tasks_validated := 2\<rparr>)\<rparr>"
  by (simp add: vote_writes_def update_task_def demo_settled_def record_validation_def Let_def)
    (simp add: demo_task_def demo_validator_def)

lemma demo_settled_twice:
  "map_option pv_total_rewards (pp_validators (snd (finalize_task exact_ops [''v'', ''w''] ''01''
     (vote_writes ''01'' ''w'' True demo_settled))) ''v'') = Some (1 / 2)"
proof -
  have "card {''v'', ''w''} = (2 :: nat)" by simp
  moreover have "dom [''v'' \<mapsto> True, ''w'' \<mapsto> True] = {''v'', ''w''}" by auto
  moreover have "[''v'' \<mapsto> True, ''w'' \<mapsto> True] \<noteq> Map.empty" by (auto simp: fun_eq_iff)
  moreover have "rt_status demo_task = TaskValidating" "rt_bounty demo_task = 5" by (simp_all add: demo_task_def)
  ultimately show ?thesis
    unfolding demo_reopened
    by (simp add: finalize_task_def demo_settled_def vote_totals_exact raw_total_exact voter_stake_def
        update_task_def VALIDATION_THRESHOLD_def reward_voters_def reward_def Let_def)
      (simp add: demo_validator_def)
qed

lemma late_vote_witness:
  "map_option rt_reward_distributed (tasks_of (vote_writes ''01'' ''w'' True demo_settled) ''01'') = Some True \<and>
   map_option rt_status (tasks_of (vote_writes ''01'' ''w'' True demo_settled) ''01'') = Some TaskValidating \<and>
   map_option pv_total_rewards (pp_validators (snd (finalize_task exact_ops [''v'', ''w''] ''01''
     (vote_writes ''01'' ''w'' True demo_settled))) ''v'') = Some (1 / 2)"
  using late_vote_reopens [OF demo_checks demo_finalize, of True] demo_settled_twice
  by (auto simp: demo_finalization_def)

text \<open>A validator asks to leave at height 5, is slashed, and does not get its stake at height 100.\<close>

lemma unstake_waits_witness:
  "complete_unstake exact_ops ''v'' 100 (pp_validators (pot_run exact_ops demo_hash demo_print [Slash ''v'']
     (demo_state\<lparr>pp_validators := snd (request_unstake ''v'' 5 (pp_validators demo_state))\<rparr>))) =
   (0, pp_validators (pot_run exact_ops demo_hash demo_print [Slash ''v'']
     (demo_state\<lparr>pp_validators := snd (request_unstake ''v'' 5 (pp_validators demo_state))\<rparr>)))"
proof -
  have "request_unstake ''v'' 5 (pp_validators demo_state) =
      (True, snd (request_unstake ''v'' 5 (pp_validators demo_state)))"
    by (simp add: request_unstake_def demo_state) (simp add: demo_validator_def)
  from unstake_waits [OF this, of "[Slash ''v'']" 100 exact_ops demo_hash demo_print]
  show ?thesis by (simp add: UNSTAKING_DELAY_BLOCKS_def)
qed

text \<open>
  The bytes that are hashed have no separators, so different solutions have the same hash.
\<close>

theorem solution_hash_ambiguous:
  "solution_preimage [(''ab'', ''c'')] = solution_preimage [(''a'', ''bc'')]"
  by (simp add: solution_preimage_def ascii_def)

lemma demo_get_open:
  "map rt_task_id (get_open_tasks exact_ops [''01''] 3 0
     \<lparr>tm_tasks = [''01'' \<mapsto> demo_task\<lparr>rt_status := TaskOpen\<rparr>], tm_max_tasks = 10\<rparr>) = [''01'']"
  by (simp add: get_open_tasks_def) (simp add: demo_task_def)

end
