(* ===== verification/OrderBook.thy ===== *)
theory OrderBook
  imports Floats "HOL-Library.Sublist"
begin

text \<open>
  The order book of \<open>qbc-exchange/src/orderbook.rs\<close> with its types (\<open>types.rs\<close>): one trading
  pair, price-time priority, limit and market orders. Prices are \<open>OrderedFloat\<close>, a type of that
  crate whose comparison is a total order: they are the elements of a linear order, and
  \<open>into_inner\<close> is a parameter. Sizes are \<open>f64\<close>, whose operations are a parameter, as are the
  identifiers and times given to the trades.
\<close>

section \<open>Types\<close>

datatype side = Buy | Sell

datatype order_type = LimitOrder | MarketOrder

datatype order_status = OrderOpen | OrderPartial | OrderFilled | OrderCancelled

record ('p, 'f) exch_order =
  eo_id :: string
  eo_pair :: string
  eo_side :: side
  eo_type :: order_type
  eo_price :: 'p
  eo_size :: 'f
  eo_filled :: 'f
  eo_address :: string
  eo_timestamp :: u64
  eo_status :: order_status

record 'f trade =
  td_id :: string
  td_pair :: string
  td_price :: 'f
  td_size :: 'f
  td_side :: side
  td_maker :: string
  td_taker :: string
  td_timestamp :: u64

record 'f market_config =
  mc_pair :: string
  mc_base :: string
  mc_quote :: string
  mc_tick_size :: 'f
  mc_min_order :: 'f
  mc_maker_fee :: 'f
  mc_taker_fee :: 'f

text \<open>The parameters: arithmetic, \<open>into_inner\<close>, and the identifier and time of the n-th trade.\<close>

record ('p, 'f) book_env =
  be_f64 :: "'f f64_ops"
  be_inner :: "'p \<Rightarrow> 'f"
  be_fresh :: "nat \<Rightarrow> string \<times> u64"

definition remaining :: "'f f64_ops \<Rightarrow> ('p, 'f) exch_order \<Rightarrow> 'f" where
  "remaining F ord = fl_sub F (eo_size ord) (eo_filled ord)"

definition DUST :: "'f f64_ops \<Rightarrow> 'f" where
  "DUST F = fl_lit F 1 12" \<comment> \<open>\<open>1e-12\<close>\<close>

record ('p, 'f) order_book =
  ob_config :: "'f market_config"
  ob_bids :: "('p, 'f) exch_order list"
  ob_asks :: "('p, 'f) exch_order list"
  ob_trades :: "'f trade list"
  ob_all :: "string \<rightharpoonup> ('p, 'f) exch_order"
  ob_counter :: u64

definition order_book_new :: "'f market_config \<Rightarrow> ('p, 'f) order_book" where
  "order_book_new config = \<lparr>ob_config = config, ob_bids = [], ob_asks = [], ob_trades = [],
     ob_all = Map.empty, ob_counter = 0\<rparr>"

text \<open>\<open>format!("ord-{:08}", counter)\<close>: decimal digits, padded to eight.\<close>

definition order_name :: "u64 \<Rightarrow> string" where
  "order_name c = ''ord-'' @ replicate (8 - length (decimal (unat c))) (CHR ''0'') @ decimal (unat c)"

definition next_order_id :: "('p, 'f) order_book \<Rightarrow> string \<times> ('p, 'f) order_book" where
  "next_order_id b = (order_name (ob_counter b + 1), b\<lparr>ob_counter := ob_counter b + 1\<rparr>)"

section \<open>Matching\<close>

text \<open>When the comparators of \<open>sort_bids\<close> and \<open>sort_asks\<close> answer \<open>Greater\<close>.\<close>

definition bid_gt :: "('p::linorder, 'f) exch_order \<Rightarrow> ('p, 'f) exch_order \<Rightarrow> bool" where
  "bid_gt a b \<longleftrightarrow> eo_price a < eo_price b \<or> eo_price a = eo_price b \<and> eo_timestamp b < eo_timestamp a"

definition ask_gt :: "('p::linorder, 'f) exch_order \<Rightarrow> ('p, 'f) exch_order \<Rightarrow> bool" where
  "ask_gt a b \<longleftrightarrow> eo_price b < eo_price a \<or> eo_price a = eo_price b \<and> eo_timestamp b < eo_timestamp a"

definition sort_bids :: "('p::linorder, 'f) exch_order list \<Rightarrow> ('p, 'f) exch_order list" where
  "sort_bids bids = sort_by bid_gt bids"

definition sort_asks :: "('p::linorder, 'f) exch_order list \<Rightarrow> ('p, 'f) exch_order list" where
  "sort_asks asks = sort_by ask_gt asks"

text \<open>The state of the matching loop beside the opposite side of the book.\<close>

record ('p, 'f) match_state =
  ms_taker :: "('p, 'f) exch_order"
  ms_fills :: "'f trade list"
  ms_trades :: "'f trade list"
  ms_all :: "string \<rightharpoonup> ('p, 'f) exch_order"

definition beyond_limit :: "('p::linorder, 'f) exch_order \<Rightarrow> ('p, 'f) exch_order \<Rightarrow> bool" where
  "beyond_limit taker maker \<longleftrightarrow> (case eo_side taker of
     Buy \<Rightarrow> eo_price taker < eo_price maker | Sell \<Rightarrow> eo_price maker < eo_price taker)"

text \<open>The smaller of the two remainders changes hands at the price of the maker.\<close>

definition fill_against ::
  "('p, 'f) book_env \<Rightarrow> ('p, 'f) exch_order \<Rightarrow> ('p, 'f) match_state \<Rightarrow> ('p, 'f) exch_order \<times> ('p, 'f) match_state" where
  "fill_against X maker st =
     (let F = be_f64 X; taker = ms_taker st;
          fill_size = fl_min F (remaining F taker) (remaining F maker);
          (uuid, now) = be_fresh X (length (ms_trades st));
          trade = \<lparr>td_id = take 8 uuid, td_pair = eo_pair taker, td_price = be_inner X (eo_price maker),
                   td_size = fill_size, td_side = eo_side taker, td_maker = eo_id maker,
                   td_taker = eo_id taker, td_timestamp = now\<rparr>
      in (maker\<lparr>eo_filled := fl_add F (eo_filled maker) fill_size\<rparr>,
          st\<lparr>ms_taker := taker\<lparr>eo_filled := fl_add F (eo_filled taker) fill_size\<rparr>,
             ms_fills := ms_fills st @ [trade], ms_trades := ms_trades st @ [trade]\<rparr>))"

definition store_filled :: "string \<Rightarrow> ('p, 'f) match_state \<Rightarrow> ('p, 'f) match_state" where
  "store_filled i st = (case ms_all st i of None \<Rightarrow> st
     | Some ord \<Rightarrow> st\<lparr>ms_all := (ms_all st)(i \<mapsto> ord\<lparr>eo_filled := eo_size ord, eo_status := OrderFilled\<rparr>)\<rparr>)"

definition store_partial :: "('p, 'f) exch_order \<Rightarrow> ('p, 'f) match_state \<Rightarrow> ('p, 'f) match_state" where
  "store_partial maker st = (case ms_all st (eo_id maker) of None \<Rightarrow> st
     | Some ord \<Rightarrow> st\<lparr>ms_all := (ms_all st)(eo_id maker \<mapsto> ord\<lparr>eo_filled := eo_filled maker, eo_status := OrderPartial\<rparr>)\<rparr>)"

text \<open>The loop of \<open>match_limit\<close>; the list is the book from the index on.\<close>

fun match_limit_loop ::
  "('p::linorder, 'f) book_env \<Rightarrow> ('p, 'f) exch_order list \<Rightarrow> ('p, 'f) match_state \<Rightarrow>
   ('p, 'f) exch_order list \<times> ('p, 'f) match_state" where
  "match_limit_loop X [] st = ([], st)"
| "match_limit_loop X (maker # book) st =
     (if \<not> fl_lt (be_f64 X) (DUST (be_f64 X)) (remaining (be_f64 X) (ms_taker st)) then (maker # book, st)
      else if beyond_limit (ms_taker st) maker then (maker # book, st)
      else
        (let (maker', st') = fill_against X maker st
         in if fl_le (be_f64 X) (remaining (be_f64 X) maker') (DUST (be_f64 X))
            then match_limit_loop X book (store_filled (eo_id maker') st')
            else (let (book', st'') = match_limit_loop X book (store_partial maker' st')
                  in (maker' # book', st''))))"

text \<open>
  The loop of \<open>match_market\<close>, which stays at the head of the book while that is not used up:
  whether it ends depends on the arithmetic.
\<close>

partial_function (option) match_market_loop ::
  "('p, 'f) book_env \<Rightarrow> ('p, 'f) exch_order list \<Rightarrow> ('p, 'f) match_state \<Rightarrow>
   (('p, 'f) exch_order list \<times> ('p, 'f) match_state) option" where
  "match_market_loop X book st =
     (case book of
        [] \<Rightarrow> Some ([], st)
      | maker # rest \<Rightarrow>
          if \<not> fl_lt (be_f64 X) (DUST (be_f64 X)) (remaining (be_f64 X) (ms_taker st)) then Some (book, st)
          else
            (let (maker', st') = fill_against X maker st
             in if fl_le (be_f64 X) (remaining (be_f64 X) maker') (DUST (be_f64 X))
                then match_market_loop X rest (store_filled (eo_id maker') st')
                else match_market_loop X (maker' # rest) (store_partial maker' st')))"

text \<open>The end of both: the taker is filled when only dust remains; its side of the book is untouched.\<close>

definition finish_match ::
  "'f f64_ops \<Rightarrow> side \<Rightarrow> ('p, 'f) exch_order list \<times> ('p, 'f) match_state \<Rightarrow> ('p, 'f) order_book \<Rightarrow>
   'f trade list \<times> ('p, 'f) exch_order \<times> ('p, 'f) order_book" where
  "finish_match F sd r b =
     (let (book', st) = r;
          b' = b\<lparr>ob_trades := ms_trades st, ob_all := ms_all st\<rparr>;
          b'' = (case sd of Buy \<Rightarrow> b'\<lparr>ob_asks := book'\<rparr> | Sell \<Rightarrow> b'\<lparr>ob_bids := book'\<rparr>);
          taker = ms_taker st
      in (ms_fills st,
          if fl_le F (remaining F taker) (DUST F) then taker\<lparr>eo_status := OrderFilled\<rparr> else taker, b''))"

definition opposite :: "side \<Rightarrow> ('p, 'f) order_book \<Rightarrow> ('p, 'f) exch_order list" where
  "opposite sd b = (case sd of Buy \<Rightarrow> ob_asks b | Sell \<Rightarrow> ob_bids b)"

definition match_start :: "('p, 'f) exch_order \<Rightarrow> ('p, 'f) order_book \<Rightarrow> ('p, 'f) match_state" where
  "match_start taker b = \<lparr>ms_taker = taker, ms_fills = [], ms_trades = ob_trades b, ms_all = ob_all b\<rparr>"

definition match_limit ::
  "('p::linorder, 'f) book_env \<Rightarrow> ('p, 'f) exch_order \<Rightarrow> ('p, 'f) order_book \<Rightarrow>
   'f trade list \<times> ('p, 'f) exch_order \<times> ('p, 'f) order_book" where
  "match_limit X taker b =
     finish_match (be_f64 X) (eo_side taker)
       (match_limit_loop X (opposite (eo_side taker) b) (match_start taker b)) b"

definition match_market ::
  "('p, 'f) book_env \<Rightarrow> ('p, 'f) exch_order \<Rightarrow> ('p, 'f) order_book \<Rightarrow>
   ('f trade list \<times> ('p, 'f) exch_order \<times> ('p, 'f) order_book) option" where
  "match_market X taker b =
     map_option (\<lambda>r. finish_match (be_f64 X) (eo_side taker) r b)
       (match_market_loop X (opposite (eo_side taker) b) (match_start taker b))"

definition add_order ::
  "('p::linorder, 'f) book_env \<Rightarrow> ('p, 'f) exch_order \<Rightarrow> ('p, 'f) order_book \<Rightarrow>
   ('f trade list \<times> ('p, 'f) order_book) option" where
  "add_order X taker b =
     (let F = be_f64 X;
          matched = (case eo_type taker of MarketOrder \<Rightarrow> match_market X taker b
                       | LimitOrder \<Rightarrow> Some (match_limit X taker b))
      in case matched of
        None \<Rightarrow> None
      | Some (fills, ord, b1) \<Rightarrow>
          (let (ord', b2) =
             (if fl_lt F (DUST F) (remaining F ord) \<and> eo_type ord = LimitOrder then
                (let ord1 = (if fl_lt F (fl_zero F) (eo_filled ord) then ord\<lparr>eo_status := OrderPartial\<rparr> else ord)
                 in (ord1, case eo_side ord1 of
                       Buy \<Rightarrow> b1\<lparr>ob_bids := sort_bids (ob_bids b1 @ [ord1])\<rparr>
                     | Sell \<Rightarrow> b1\<lparr>ob_asks := sort_asks (ob_asks b1 @ [ord1])\<rparr>))
              else (ord, b1))
           in Some (fills, b2\<lparr>ob_all := (ob_all b2)(eo_id ord' \<mapsto> ord')\<rparr>)))"

definition cancel_order :: "string \<Rightarrow> string \<Rightarrow> ('p, 'f) order_book \<Rightarrow> bool \<times> ('p, 'f) order_book" where
  "cancel_order order_id owner b =
     (case ob_all b order_id of
        None \<Rightarrow> (False, b)
      | Some ord \<Rightarrow>
          if eo_status ord = OrderFilled \<or> eo_status ord = OrderCancelled then (False, b)
          else if owner \<noteq> [] \<and> eo_address ord \<noteq> owner then (False, b)
          else (True, b\<lparr>ob_bids := filter (\<lambda>x. eo_id x \<noteq> order_id) (ob_bids b),
                       ob_asks := filter (\<lambda>x. eo_id x \<noteq> order_id) (ob_asks b),
                       ob_all := (ob_all b)(order_id \<mapsto> ord\<lparr>eo_status := OrderCancelled\<rparr>)\<rparr>))"

section \<open>Queries\<close>

record 'f book_snapshot =
  bs_pair :: string
  bs_bids :: "('f \<times> 'f) list"
  bs_asks :: "('f \<times> 'f) list"
  bs_spread :: 'f
  bs_mid_price :: 'f
  bs_best_bid :: 'f
  bs_best_ask :: 'f

text \<open>The remainders added up by price; every price occurs once, so the order of the map plays no part.\<close>

fun add_level :: "'f f64_ops \<Rightarrow> 'p \<Rightarrow> 'f \<Rightarrow> ('p \<times> 'f) list \<Rightarrow> ('p \<times> 'f) list" where
  "add_level F p r [] = [(p, fl_add F (fl_zero F) r)]"
| "add_level F p r ((q, x) # levels) = (if q = p then (q, fl_add F x r) # levels else (q, x) # add_level F p r levels)"

definition levels_of :: "'f f64_ops \<Rightarrow> ('p, 'f) exch_order list \<Rightarrow> ('p \<times> 'f) list" where
  "levels_of F orders = foldl (\<lambda>levels ord. add_level F (eo_price ord) (remaining F ord) levels) [] orders"

definition get_orderbook ::
  "('p::linorder, 'f) book_env \<Rightarrow> nat \<Rightarrow> ('p, 'f) order_book \<Rightarrow> 'f book_snapshot" where
  "get_orderbook X depth b =
     (let F = be_f64 X;
          level = (\<lambda>(p, s). (be_inner X p, s));
          bids = map level (take depth (sort_by (\<lambda>x y. fst x < fst y) (levels_of F (take (depth * 5) (ob_bids b)))));
          asks = map level (take depth (sort_by (\<lambda>x y. fst y < fst x) (levels_of F (take (depth * 5) (ob_asks b)))));
          best_bid = (case bids of [] \<Rightarrow> fl_zero F | l # _ \<Rightarrow> fst l);
          best_ask = (case asks of [] \<Rightarrow> fl_zero F | l # _ \<Rightarrow> fst l);
          both = fl_lt F (fl_zero F) best_bid \<and> fl_lt F (fl_zero F) best_ask
      in \<lparr>bs_pair = mc_pair (ob_config b), bs_bids = bids, bs_asks = asks,
          bs_spread = (if both then fl_sub F best_ask best_bid else fl_zero F),
          bs_mid_price = (if both then fl_div F (fl_add F best_bid best_ask) (fl_lit F 20 1) else fl_zero F),
          bs_best_bid = best_bid, bs_best_ask = best_ask\<rparr>)"

definition get_recent_trades :: "nat \<Rightarrow> ('p, 'f) order_book \<Rightarrow> 'f trade list" where
  "get_recent_trades limit b = drop (length (ob_trades b) - limit) (ob_trades b)"

definition get_user_orders :: "string \<Rightarrow> ('p, 'f) order_book \<Rightarrow> ('p, 'f) exch_order list" where
  "get_user_orders address b =
     filter (\<lambda>ord. eo_address ord = address \<and> (eo_status ord = OrderOpen \<or> eo_status ord = OrderPartial))
       (ob_bids b @ ob_asks b)"

definition open_order_count :: "('p, 'f) order_book \<Rightarrow> nat" where
  "open_order_count b = length (ob_bids b) + length (ob_asks b)"


section \<open>Order identifiers\<close>

lemma order_name_inject: "order_name c = order_name d \<longleftrightarrow> c = d"
proof
  assume "order_name c = order_name d"
  then have "undecimal (drop 4 (order_name c)) = undecimal (drop 4 (order_name d))" by simp
  then show "c = d" by (simp add: order_name_def undecimal_zeros undecimal_decimal word_unat_eq_iff)
qed simp

section \<open>The course of a match\<close>

text \<open>What matching leaves alone in an order.\<close>

definition order_terms :: "('p, 'f) exch_order \<Rightarrow> string \<times> string \<times> side \<times> order_type \<times> 'p \<times> 'f \<times> string \<times> u64" where
  "order_terms ord = (eo_id ord, eo_pair ord, eo_side ord, eo_type ord, eo_price ord, eo_size ord,
     eo_address ord, eo_timestamp ord)"

text \<open>
  Both loops are runs of one relation: the head of the book is used up and removed, or partly
  filled and passed, or partly filled and met again.
\<close>

inductive matched ::
  "('p, 'f) book_env \<Rightarrow> ('p, 'f) exch_order list \<Rightarrow> ('p, 'f) match_state \<Rightarrow>
   ('p, 'f) exch_order list \<Rightarrow> ('p, 'f) match_state \<Rightarrow> bool"
  for X :: "('p, 'f) book_env" where
  stop: "matched X book st book st"
| used_up: "fill_against X maker st = (maker', st1) \<Longrightarrow>
    matched X book (store_filled (eo_id maker') st1) book' st' \<Longrightarrow>
    matched X (maker # book) st book' st'"
| passed: "fill_against X maker st = (maker', st1) \<Longrightarrow>
    matched X book (store_partial maker' st1) book' st' \<Longrightarrow>
    matched X (maker # book) st (maker' # book') st'"
| again: "fill_against X maker st = (maker', st1) \<Longrightarrow>
    matched X (maker' # book) (store_partial maker' st1) book' st' \<Longrightarrow>
    matched X (maker # book) st book' st'"

lemma limit_loop_matched:
  "match_limit_loop X book st = (book', st') \<Longrightarrow> matched X book st book' st'"
proof (induction X book st arbitrary: book' st' rule: match_limit_loop.induct)
  case (2 X maker book st)
  obtain maker' st1 where f: "fill_against X maker st = (maker', st1)" by fastforce
  show ?case using 2 f
    by (auto simp: Let_def split: if_splits prod.splits intro: matched.intros)
qed (simp add: matched.stop)

lemma market_loop_matched:
  assumes "match_market_loop X book st = Some (book', st')"
  shows "matched X book st book' st'"
proof -
  have "\<forall>book' st'. r = (book', st') \<longrightarrow> matched X book st book' st'"
    if "match_market_loop X book st = Some r" for r
  proof (rule match_market_loop.raw_induct [where P = "\<lambda>X book st r. \<forall>book' st'. r = (book', st') \<longrightarrow> matched X book st book' st'", OF _ that])
    fix loop :: "('a, 'b) book_env \<Rightarrow> ('a, 'b) exch_order list \<Rightarrow> ('a, 'b) match_state \<Rightarrow> (('a, 'b) exch_order list \<times> ('a, 'b) match_state) option"
      and X book st r
    assume IH: "\<And>X book st r. loop X book st = Some r \<Longrightarrow> \<forall>book' st'. r = (book', st') \<longrightarrow> matched X book st book' st'"
      and r: "(case book of [] \<Rightarrow> Some ([], st) | maker # rest \<Rightarrow>
          if \<not> fl_lt (be_f64 X) (DUST (be_f64 X)) (remaining (be_f64 X) (ms_taker st)) then Some (book, st)
          else (let (maker', st') = fill_against X maker st
             in if fl_le (be_f64 X) (remaining (be_f64 X) maker') (DUST (be_f64 X))
                then loop X rest (store_filled (eo_id maker') st')
                else loop X (maker' # rest) (store_partial maker' st'))) = Some r"
    show "\<forall>book' st'. r = (book', st') \<longrightarrow> matched X book st book' st'"
    proof (cases book)
      case (Cons maker rest)
      obtain maker' st1 where f: "fill_against X maker st = (maker', st1)" by fastforce
      show ?thesis using r Cons f IH matched.used_up [OF f] matched.again [OF f]
        by (auto simp: Let_def split: if_splits intro: matched.stop)
    qed (use r in \<open>auto intro: matched.stop\<close>)
  qed
  then show ?thesis using assms by blast
qed

lemma fill_against_simps:
  assumes "fill_against X maker st = (maker', st')"
  shows "order_terms maker' = order_terms maker" "eo_status maker' = eo_status maker"
    "order_terms (ms_taker st') = order_terms (ms_taker st)" "eo_status (ms_taker st') = eo_status (ms_taker st)"
    "ms_all st' = ms_all st" "eo_id maker' = eo_id maker"
  using assms by (auto simp: fill_against_def order_terms_def Let_def split: prod.splits)

lemma store_taker [simp]:
  "ms_taker (store_filled i st) = ms_taker st" "ms_taker (store_partial maker st) = ms_taker st"
  "ms_fills (store_filled i st) = ms_fills st" "ms_fills (store_partial maker st) = ms_fills st"
  "ms_trades (store_filled i st) = ms_trades st" "ms_trades (store_partial maker st) = ms_trades st"
  by (simp_all add: store_filled_def store_partial_def split: option.splits)

lemma matched_terms:
  "matched X book st book' st' \<Longrightarrow> subseq (map order_terms book') (map order_terms book) \<and>
     order_terms (ms_taker st') = order_terms (ms_taker st) \<and> eo_status (ms_taker st') = eo_status (ms_taker st)"
  by (induction rule: matched.induct) (auto simp: fill_against_simps)


lemma matched_all_other:
  "matched X book st book' st' \<Longrightarrow> i \<notin> eo_id ` set book \<Longrightarrow> ms_all st' i = ms_all st i"
  by (induction rule: matched.induct)
    (auto simp: fill_against_simps store_filled_def store_partial_def split: option.splits)

lemma store_dom [simp]:
  "dom (ms_all (store_filled i st)) = dom (ms_all st)" "dom (ms_all (store_partial maker st)) = dom (ms_all st)"
  by (auto simp: store_filled_def store_partial_def split: option.splits if_splits)

lemma matched_dom: "matched X book st book' st' \<Longrightarrow> dom (ms_all st') = dom (ms_all st)"
  by (induction rule: matched.induct) (simp_all add: fill_against_simps)

lemma store_all_other [simp]:
  "j \<noteq> i \<Longrightarrow> ms_all (store_filled i st) j = ms_all st j"
  "j \<noteq> eo_id maker \<Longrightarrow> ms_all (store_partial maker st) j = ms_all st j"
  by (simp_all add: store_filled_def store_partial_def split: option.splits)

section \<open>The invariant of the book\<close>

text \<open>
  A resting order has a copy among all orders, with the same terms and the same filled size,
  that is open or partly filled.
\<close>

definition mirrored :: "(string \<rightharpoonup> ('p, 'f) exch_order) \<Rightarrow> ('p, 'f) exch_order \<Rightarrow> bool" where
  "mirrored all ord \<longleftrightarrow> (\<exists>c. all (eo_id ord) = Some c \<and> order_terms c = order_terms ord \<and>
     eo_filled c = eo_filled ord \<and> eo_status c \<in> {OrderOpen, OrderPartial})"

definition side_inv ::
  "side \<Rightarrow> (('p, 'f) exch_order \<Rightarrow> ('p, 'f) exch_order \<Rightarrow> bool) \<Rightarrow> (string \<rightharpoonup> ('p, 'f) exch_order) \<Rightarrow>
   ('p, 'f) exch_order list \<Rightarrow> bool" where
  "side_inv sd gt all xs \<longleftrightarrow> sorted_wrt (\<lambda>x y. \<not> gt x y) xs \<and> distinct (map eo_id xs) \<and>
     (\<forall>ord \<in> set xs. eo_side ord = sd \<and> eo_type ord = LimitOrder \<and> mirrored all ord)"

definition book_inv :: "('p::linorder, 'f) order_book \<Rightarrow> bool" where
  "book_inv b \<longleftrightarrow> side_inv Buy bid_gt (ob_all b) (ob_bids b) \<and> side_inv Sell ask_gt (ob_all b) (ob_asks b)"

interpretation bids: preorder_sort bid_gt UNIV
  by unfold_locales (auto simp: bid_gt_def)

interpretation asks: preorder_sort ask_gt UNIV
  by unfold_locales (auto simp: ask_gt_def)

lemma subseq_sorted_wrt: "subseq xs ys \<Longrightarrow> sorted_wrt P ys \<Longrightarrow> sorted_wrt P xs"
  by (induction rule: list_emb.induct) (auto dest: list_emb_set)

lemma subseq_set: "subseq xs ys \<Longrightarrow> set xs \<subseteq> set ys"
  using list_emb_set [of "(=)" xs ys] by blast

lemma subseq_distinct: "subseq xs ys \<Longrightarrow> distinct ys \<Longrightarrow> distinct xs"
  by (induction rule: list_emb.induct) (auto dest: list_emb_set)

lemma subseq_map_sorted_wrt:
  assumes "subseq (map f xs) (map f ys)" and "sorted_wrt P ys"
    and "\<And>a b a' b'. f a = f a' \<Longrightarrow> f b = f b' \<Longrightarrow> P a b \<longleftrightarrow> P a' b'"
  shows "sorted_wrt P xs"
proof -
  let ?Q = "\<lambda>u v. \<exists>a b. f a = u \<and> f b = v \<and> P a b"
  have "sorted_wrt ?Q (map f ys)" unfolding sorted_wrt_map
    by (rule sorted_wrt_mono_rel [OF _ assms(2)]) auto
  then have "sorted_wrt ?Q (map f xs)" by (rule subseq_sorted_wrt [OF assms(1)])
  then show ?thesis unfolding sorted_wrt_map
    by (rule sorted_wrt_mono_rel [rotated]) (use assms(3) in blast)
qed

lemma gt_terms:
  "order_terms a = order_terms a' \<Longrightarrow> order_terms b = order_terms b' \<Longrightarrow> bid_gt a b = bid_gt a' b'"
  "order_terms a = order_terms a' \<Longrightarrow> order_terms b = order_terms b' \<Longrightarrow> ask_gt a b = ask_gt a' b'"
  by (simp_all add: order_terms_def bid_gt_def ask_gt_def)

lemma subseq_terms_ids: "subseq (map order_terms xs) (map order_terms ys) \<Longrightarrow> subseq (map eo_id xs) (map eo_id ys)"
  using subseq_map [of "map order_terms xs" "map order_terms ys" fst] by (simp add: comp_def order_terms_def)

lemma subseq_terms_mem:
  "subseq (map order_terms xs) (map order_terms ys) \<Longrightarrow> x \<in> set xs \<Longrightarrow> \<exists>y \<in> set ys. order_terms y = order_terms x"
  by (drule list_emb_set [of _ _ _ "order_terms x"]) auto

lemma mirrored_other:
  assumes "distinct (map eo_id (maker # book))" and "\<forall>ord \<in> set book. mirrored all ord"
    and "\<And>j. j \<noteq> eo_id maker \<Longrightarrow> all' j = all j"
  shows "\<forall>ord \<in> set book. mirrored all' ord"
proof
  fix ord assume "ord \<in> set book"
  moreover from this have "eo_id ord \<noteq> eo_id maker"
    using assms(1) by (metis distinct.simps(2) image_eqI list.set_map list.simps(9))
  ultimately show "mirrored all' ord" using assms(2,3) by (simp add: mirrored_def)
qed

lemma mirrored_partial:
  assumes "fill_against X maker st = (maker', st1)" and "mirrored (ms_all st) maker"
  shows "mirrored (ms_all (store_partial maker' st1)) maker'"
  using assms(2) fill_against_simps(1) [OF assms(1)]
  by (auto simp: mirrored_def store_partial_def fill_against_simps(5,6) [OF assms(1)] order_terms_def)

lemma matched_mirrored:
  "matched X book st book' st' \<Longrightarrow> distinct (map eo_id book) \<Longrightarrow>
   \<forall>ord \<in> set book. mirrored (ms_all st) ord \<Longrightarrow> \<forall>ord \<in> set book'. mirrored (ms_all st') ord"
proof (induction rule: matched.induct)
  case (used_up maker st maker' st1 book book' st')
  note f = fill_against_simps [OF used_up.hyps(1)]
  have "\<forall>ord \<in> set book. mirrored (ms_all (store_filled (eo_id maker') st1)) ord"
    by (rule mirrored_other [OF used_up.prems(1), of "ms_all st"]) (use used_up.prems in \<open>simp_all add: f\<close>)
  then show ?case using used_up by simp
next
  case (passed maker st maker' st1 book book' st')
  note f = fill_against_simps [OF passed.hyps(1)]
  have "\<forall>ord \<in> set book. mirrored (ms_all (store_partial maker' st1)) ord"
    by (rule mirrored_other [OF passed.prems(1), of "ms_all st"]) (use passed.prems in \<open>simp_all add: f\<close>)
  moreover have "mirrored (ms_all st') maker'"
    using mirrored_partial [OF passed.hyps(1)] passed.prems matched_all_other [OF passed.hyps(2), of "eo_id maker'"]
    by (simp add: mirrored_def f)
  ultimately show ?case using passed by simp
next
  case (again maker st maker' st1 book book' st')
  note f = fill_against_simps [OF again.hyps(1)]
  have "\<forall>ord \<in> set book. mirrored (ms_all (store_partial maker' st1)) ord"
    by (rule mirrored_other [OF again.prems(1), of "ms_all st"]) (use again.prems in \<open>simp_all add: f\<close>)
  then show ?case using again mirrored_partial [OF again.hyps(1)] f(6) by simp
qed

text \<open>One call of the book: an order with a new identifier, or a cancellation.\<close>

inductive book_step :: "('p::linorder, 'f) book_env \<Rightarrow> ('p, 'f) order_book \<Rightarrow> ('p, 'f) order_book \<Rightarrow> bool"
  for X :: "('p::linorder, 'f) book_env" where
  place: "next_order_id b = (eo_id ord, b1) \<Longrightarrow> unat (ob_counter b) < 2 ^ 64 - 1 \<Longrightarrow> eo_status ord = OrderOpen \<Longrightarrow>
    add_order X ord b1 = Some (fills, b') \<Longrightarrow> book_step X b b'"
| cancel: "cancel_order i owner b = (r, b') \<Longrightarrow> book_step X b b'"

definition book_steps :: "('p::linorder, 'f) book_env \<Rightarrow> ('p, 'f) order_book \<Rightarrow> ('p, 'f) order_book \<Rightarrow> bool" where
  "book_steps X = (book_step X)\<^sup>*\<^sup>*"

text \<open>The identifiers given out so far.\<close>

definition named_orders :: "('p, 'f) order_book \<Rightarrow> bool" where
  "named_orders b \<longleftrightarrow> (\<forall>i \<in> dom (ob_all b). \<exists>c. i = order_name c \<and> unat c \<le> unat (ob_counter b))"

lemma next_order_id_fresh:
  assumes "named_orders b" and "next_order_id b = (i, b1)" and "unat (ob_counter b) < 2 ^ 64 - 1"
  shows "ob_all b1 i = None" "ob_all b1 = ob_all b" "ob_bids b1 = ob_bids b" "ob_asks b1 = ob_asks b"
    "ob_trades b1 = ob_trades b" "i = order_name (ob_counter b1)" "unat (ob_counter b1) = Suc (unat (ob_counter b))"
proof -
  have c: "unat (ob_counter b + 1) = Suc (unat (ob_counter b))"
    using assms(3) unat_add_lem [of "ob_counter b" 1] by simp
  show "ob_all b1 = ob_all b" "ob_bids b1 = ob_bids b" "ob_asks b1 = ob_asks b" "ob_trades b1 = ob_trades b"
    "i = order_name (ob_counter b1)"
    using assms(2) by (auto simp: next_order_id_def)
  show "unat (ob_counter b1) = Suc (unat (ob_counter b))" using assms(2) c by (auto simp: next_order_id_def)
  show "ob_all b1 i = None"
  proof (rule ccontr)
    assume "ob_all b1 i \<noteq> None"
    then have "i \<in> dom (ob_all b)" using assms(2) by (auto simp: next_order_id_def)
    then obtain d where "i = order_name d" "unat d \<le> unat (ob_counter b)"
      using assms(1) unfolding named_orders_def by blast
    then show False using assms(2) c by (auto simp: next_order_id_def order_name_inject)
  qed
qed


text \<open>How \<open>add_order\<close> is put together: a match, and an order that may rest.\<close>

lemma add_order_cases:
  assumes "add_order X taker b = Some (fills, b')"
  obtains book' st ord where
    "matched X (opposite (eo_side taker) b) (match_start taker b) book' st"
    "fills = ms_fills st" "order_terms ord = order_terms taker" "eo_filled ord = eo_filled (ms_taker st)"
    "eo_status taker = OrderOpen \<longrightarrow> fl_consistent (be_f64 X) \<longrightarrow>
       fl_lt (be_f64 X) (DUST (be_f64 X)) (remaining (be_f64 X) (ms_taker st)) \<longrightarrow> eo_status ord \<in> {OrderOpen, OrderPartial}"
    "ob_trades b' = ms_trades st" "ob_all b' = (ms_all st)(eo_id taker \<mapsto> ord)" "ob_counter b' = ob_counter b"
    "ob_config b' = ob_config b"
    "opposite (eo_side taker) b' = book'"
    "opposite (case eo_side taker of Buy \<Rightarrow> Sell | Sell \<Rightarrow> Buy) b' =
       (if fl_lt (be_f64 X) (DUST (be_f64 X)) (remaining (be_f64 X) (ms_taker st)) \<and> eo_type taker = LimitOrder
        then (case eo_side taker of Buy \<Rightarrow> sort_bids (ob_bids b @ [ord]) | Sell \<Rightarrow> sort_asks (ob_asks b @ [ord]))
        else opposite (case eo_side taker of Buy \<Rightarrow> Sell | Sell \<Rightarrow> Buy) b)"
    "eo_type taker = LimitOrder \<longrightarrow>
       match_limit_loop X (opposite (eo_side taker) b) (match_start taker b) = (book', st)"
    "eo_type taker = MarketOrder \<longrightarrow>
       match_market_loop X (opposite (eo_side taker) b) (match_start taker b) = Some (book', st)"
proof -
  let ?F = "be_f64 X" and ?sd = "eo_side taker"
  obtain book' st where m: "eo_type taker = LimitOrder \<longrightarrow>
       match_limit_loop X (opposite ?sd b) (match_start taker b) = (book', st)"
    "eo_type taker = MarketOrder \<longrightarrow>
       match_market_loop X (opposite ?sd b) (match_start taker b) = Some (book', st)"
  proof (cases "eo_type taker")
    case LimitOrder
    then show thesis using that by (cases "match_limit_loop X (opposite ?sd b) (match_start taker b)") auto
  next
    case MarketOrder
    then show thesis using that assms by (auto simp: add_order_def match_market_def Let_def split: option.splits)
  qed
  have M: "matched X (opposite ?sd b) (match_start taker b) book' st"
    using m by (cases "eo_type taker") (auto intro: limit_loop_matched market_loop_matched)
  note t = matched_terms [OF M]
  have tt: "eo_side (ms_taker st) = ?sd" "eo_type (ms_taker st) = eo_type taker" "eo_id (ms_taker st) = eo_id taker"
    using t by (simp_all add: order_terms_def match_start_def)
  define o1 where "o1 = (if fl_le ?F (remaining ?F (ms_taker st)) (DUST ?F)
     then (ms_taker st)\<lparr>eo_status := OrderFilled\<rparr> else ms_taker st)"
  define rests where "rests \<longleftrightarrow> fl_lt ?F (DUST ?F) (remaining ?F (ms_taker st)) \<and> eo_type taker = LimitOrder"
  define ord where "ord = (if rests \<and> fl_lt ?F (fl_zero ?F) (eo_filled (ms_taker st))
     then o1\<lparr>eo_status := OrderPartial\<rparr> else o1)"
  have o1: "remaining ?F o1 = remaining ?F (ms_taker st)" "eo_side o1 = ?sd" "eo_type o1 = eo_type taker"
    "eo_id o1 = eo_id taker" "eo_filled o1 = eo_filled (ms_taker st)"
    by (simp_all add: o1_def tt remaining_def)
  have ord: "order_terms ord = order_terms taker" "eo_filled ord = eo_filled (ms_taker st)" "eo_id ord = eo_id taker"
    "eo_status taker = OrderOpen \<longrightarrow> fl_consistent ?F \<longrightarrow>
       fl_lt ?F (DUST ?F) (remaining ?F (ms_taker st)) \<longrightarrow> eo_status ord \<in> {OrderOpen, OrderPartial}"
    using t by (auto simp: ord_def o1_def order_terms_def match_start_def fl_consistent_def)
  have "add_order X taker b = Some (ms_fills st,
     (let b1 = snd (snd (finish_match ?F ?sd (book', st) b));
          b2 = (if rests then (case ?sd of Buy \<Rightarrow> b1\<lparr>ob_bids := sort_bids (ob_bids b1 @ [ord])\<rparr>
                  | Sell \<Rightarrow> b1\<lparr>ob_asks := sort_asks (ob_asks b1 @ [ord])\<rparr>) else b1)
      in b2\<lparr>ob_all := (ob_all b2)(eo_id taker \<mapsto> ord)\<rparr>))"
    using m ord(3)
    by (cases "eo_type taker"; cases rests)
      (auto simp: add_order_def match_limit_def match_market_def finish_match_def Let_def o1_def [symmetric] o1
        ord_def rests_def split: side.splits)
  then have b': "fills = ms_fills st" "b' = (let b1 = snd (snd (finish_match ?F ?sd (book', st) b));
          b2 = (if rests then (case ?sd of Buy \<Rightarrow> b1\<lparr>ob_bids := sort_bids (ob_bids b1 @ [ord])\<rparr>
                  | Sell \<Rightarrow> b1\<lparr>ob_asks := sort_asks (ob_asks b1 @ [ord])\<rparr>) else b1)
      in b2\<lparr>ob_all := (ob_all b2)(eo_id taker \<mapsto> ord)\<rparr>)"
    using assms by simp_all
  show thesis
    by (rule that [OF M b'(1) ord(1,2,4) _ _ _ _ _ _ m])
      (cases ?sd; cases rests; simp add: b'(2) finish_match_def Let_def opposite_def rests_def [symmetric])+
qed


lemma side_inv_other:
  "side_inv sd gt all xs \<Longrightarrow> (\<And>i. i \<in> eo_id ` set xs \<Longrightarrow> all' i = all i) \<Longrightarrow> side_inv sd gt all' xs"
  by (auto simp: side_inv_def mirrored_def)

lemma side_inv_matched:
  assumes "matched X book st book' st'" and "side_inv sd gt (ms_all st) book"
    and "\<And>a b a' b'. order_terms a = order_terms a' \<Longrightarrow> order_terms b = order_terms b' \<Longrightarrow> gt a b = gt a' b'"
  shows "side_inv sd gt (ms_all st') book'"
proof -
  have sub: "subseq (map order_terms book') (map order_terms book)" using matched_terms [OF assms(1)] by simp
  have "sorted_wrt (\<lambda>x y. \<not> gt x y) book'"
    by (rule subseq_map_sorted_wrt [OF sub _ arg_cong [where f = Not, OF assms(3)]])
      (use assms(2) in \<open>simp_all add: side_inv_def\<close>)
  moreover have "distinct (map eo_id book')"
    using subseq_distinct [OF subseq_terms_ids [OF sub]] assms(2) by (simp add: side_inv_def)
  moreover have "\<forall>ord \<in> set book'. mirrored (ms_all st') ord"
    using matched_mirrored [OF assms(1)] assms(2) by (simp add: side_inv_def)
  moreover have "\<forall>ord \<in> set book'. eo_side ord = sd \<and> eo_type ord = LimitOrder"
    using subseq_terms_mem [OF sub] assms(2) by (fastforce simp: side_inv_def order_terms_def)
  ultimately show ?thesis by (simp add: side_inv_def)
qed

lemma side_inv_rest:
  assumes "preorder_sort gt UNIV" and "side_inv sd gt all xs" and "eo_id ord \<notin> eo_id ` set xs"
    and "eo_side ord = sd" and "eo_type ord = LimitOrder" and "mirrored all ord"
  shows "side_inv sd gt all (sort_by gt (xs @ [ord]))"
proof -
  have "sorted_wrt (\<lambda>x y. \<not> gt x y) (sort_by gt (xs @ [ord]))"
    using preorder_sort.sort_ascending [OF assms(1)] by (simp add: preorder_sort.ascending_def [OF assms(1)])
  moreover have "mset (map eo_id (sort_by gt (xs @ [ord]))) = mset (map eo_id (xs @ [ord]))" by simp
  then have "distinct (map eo_id (sort_by gt (xs @ [ord])))"
    unfolding mset_eq_imp_distinct_iff [OF \<open>mset _ = mset _\<close>] using assms(2,3) by (simp add: side_inv_def)
  ultimately show ?thesis using assms(2-) by (auto simp: side_inv_def)
qed

lemma side_inv_filter: "side_inv sd gt all xs \<Longrightarrow> side_inv sd gt all (filter P xs)"
  by (auto simp: side_inv_def sorted_wrt_filter distinct_map_filter)

lemma side_inv_stored: "side_inv sd gt all xs \<Longrightarrow> i \<in> eo_id ` set xs \<Longrightarrow> \<exists>c. all i = Some c \<and> eo_status c \<in> {OrderOpen, OrderPartial} \<and> eo_side c = sd"
  by (auto simp: side_inv_def mirrored_def order_terms_def)

lemma side_inv_disjoint:
  "side_inv Buy gt all xs \<Longrightarrow> side_inv Sell gt' all ys \<Longrightarrow> i \<in> eo_id ` set xs \<Longrightarrow> i \<notin> eo_id ` set ys"
  using side_inv_stored [of Buy gt all xs i] side_inv_stored [of Sell gt' all ys i] by auto


lemma sides_after:
  assumes M: "matched X opp (match_start taker b) book' st"
    and opp: "side_inv sd' gt' (ob_all b) opp" and own: "side_inv sd gt (ob_all b) own"
    and disjoint: "\<And>i. i \<in> eo_id ` set own \<Longrightarrow> i \<notin> eo_id ` set opp"
    and fresh: "ob_all b (eo_id taker) = None"
    and terms: "\<And>a b a' b'. order_terms a = order_terms a' \<Longrightarrow> order_terms b = order_terms b' \<Longrightarrow> gt' a b = gt' a' b'"
  shows "side_inv sd' gt' ((ms_all st)(eo_id taker \<mapsto> ord)) book'"
    "side_inv sd gt ((ms_all st)(eo_id taker \<mapsto> ord)) own" "eo_id taker \<notin> eo_id ` set own"
proof -
  have start: "ms_all (match_start taker b) = ob_all b" by (simp add: match_start_def)
  have book': "side_inv sd' gt' (ms_all st) book'"
    by (rule side_inv_matched [OF M _ terms]) (simp_all add: start opp)
  have none: "i \<noteq> eo_id taker" if "side_inv s g (ob_all b) xs" "i \<in> eo_id ` set xs" for s g xs i
    using side_inv_stored [OF that] fresh by auto
  have own_id: "i \<noteq> eo_id taker" if "i \<in> eo_id ` set own" for i by (rule none [OF own that])
  have "set (map eo_id book') \<subseteq> set (map eo_id opp)"
    by (rule subseq_set [OF subseq_terms_ids]) (use matched_terms [OF M] in simp)
  then have "i \<noteq> eo_id taker" if "i \<in> eo_id ` set book'" for i using none [OF opp] that by auto
  then show "side_inv sd' gt' ((ms_all st)(eo_id taker \<mapsto> ord)) book'"
    by (intro side_inv_other [OF book']) simp
  show "side_inv sd gt ((ms_all st)(eo_id taker \<mapsto> ord)) own"
    using own_id matched_all_other [OF M] disjoint start by (intro side_inv_other [OF own]) simp
  show "eo_id taker \<notin> eo_id ` set own" using own_id by blast
qed

lemma add_order_inv:
  assumes "book_inv b" and "ob_all b (eo_id taker) = None" and "eo_status taker = OrderOpen"
    and "fl_consistent (be_f64 X)" and "add_order X taker b = Some (fills, b')"
  shows "book_inv b'"
proof (rule add_order_cases [OF assms(5)])
  fix book' st ord
  assume M: "matched X (opposite (eo_side taker) b) (match_start taker b) book' st"
    and t: "order_terms ord = order_terms taker"
    and status: "eo_status taker = OrderOpen \<longrightarrow> fl_consistent (be_f64 X) \<longrightarrow>
       fl_lt (be_f64 X) (DUST (be_f64 X)) (remaining (be_f64 X) (ms_taker st)) \<longrightarrow> eo_status ord \<in> {OrderOpen, OrderPartial}"
    and all: "ob_all b' = (ms_all st)(eo_id taker \<mapsto> ord)"
    and opp: "opposite (eo_side taker) b' = book'"
    and own: "opposite (case eo_side taker of Buy \<Rightarrow> Sell | Sell \<Rightarrow> Buy) b' =
       (if fl_lt (be_f64 X) (DUST (be_f64 X)) (remaining (be_f64 X) (ms_taker st)) \<and> eo_type taker = LimitOrder
        then (case eo_side taker of Buy \<Rightarrow> sort_bids (ob_bids b @ [ord]) | Sell \<Rightarrow> sort_asks (ob_asks b @ [ord]))
        else opposite (case eo_side taker of Buy \<Rightarrow> Sell | Sell \<Rightarrow> Buy) b)"
  have I: "side_inv Buy bid_gt (ob_all b) (ob_bids b)" "side_inv Sell ask_gt (ob_all b) (ob_asks b)"
    using assms(1) by (simp_all add: book_inv_def)
  note disjoint = side_inv_disjoint [OF I]
  have ids: "eo_id ord = eo_id taker" "eo_side ord = eo_side taker" "eo_type ord = eo_type taker"
    using t by (simp_all add: order_terms_def)
  let ?rests = "fl_lt (be_f64 X) (DUST (be_f64 X)) (remaining (be_f64 X) (ms_taker st)) \<and> eo_type taker = LimitOrder"
  have mirror: "mirrored (ob_all b') ord" if "?rests" using that status assms(3,4) ids by (simp add: mirrored_def all)
  show ?thesis
  proof (cases "eo_side taker")
    case Buy
    then have M': "matched X (ob_asks b) (match_start taker b) book' st" using M by (simp add: opposite_def)
    have S: "side_inv Sell ask_gt (ob_all b') book'" "side_inv Buy bid_gt (ob_all b') (ob_bids b)"
      "eo_id taker \<notin> eo_id ` set (ob_bids b)"
      unfolding all by (rule sides_after [OF M' I(2,1) disjoint assms(2)]; (assumption | erule (1) gt_terms(2)))+
    have "side_inv Sell ask_gt (ob_all b') (ob_asks b')"
      using S(1) opp Buy by (simp add: opposite_def)
    moreover have "side_inv Buy bid_gt (ob_all b') (ob_bids b')"
    proof (cases ?rests)
      case True
      then have "ob_bids b' = sort_by bid_gt (ob_bids b @ [ord])" using own Buy by (simp add: opposite_def sort_bids_def)
      then show ?thesis
        using side_inv_rest [OF bids.preorder_sort_axioms S(2)] S(3) ids Buy mirror True by simp
    next
      case False
      then have "ob_bids b' = ob_bids b" using own Buy by (simp only: opposite_def side.simps if_False)
      then show ?thesis using S(2) by simp
    qed
    ultimately show ?thesis by (simp add: book_inv_def)
  next
    case Sell
    then have M': "matched X (ob_bids b) (match_start taker b) book' st" using M by (simp add: opposite_def)
    have disjoint': "i \<notin> eo_id ` set (ob_bids b)" if "i \<in> eo_id ` set (ob_asks b)" for i using disjoint that by blast
    have S: "side_inv Buy bid_gt (ob_all b') book'" "side_inv Sell ask_gt (ob_all b') (ob_asks b)"
      "eo_id taker \<notin> eo_id ` set (ob_asks b)"
      unfolding all by (rule sides_after [OF M' I(1,2) disjoint' assms(2)]; (assumption | erule (1) gt_terms(1)))+
    have "side_inv Buy bid_gt (ob_all b') (ob_bids b')"
      using S(1) opp Sell by (simp add: opposite_def)
    moreover have "side_inv Sell ask_gt (ob_all b') (ob_asks b')"
    proof (cases ?rests)
      case True
      then have "ob_asks b' = sort_by ask_gt (ob_asks b @ [ord])" using own Sell by (simp add: opposite_def sort_asks_def)
      then show ?thesis
        using side_inv_rest [OF asks.preorder_sort_axioms S(2)] S(3) ids Sell mirror True by simp
    next
      case False
      then have "ob_asks b' = ob_asks b" using own Sell by (simp only: opposite_def side.simps if_False)
      then show ?thesis using S(2) by simp
    qed
    ultimately show ?thesis by (simp add: book_inv_def)
  qed
qed


lemma cancel_order_cases:
  assumes "cancel_order i owner b = (r, b')"
  obtains (refused) "b' = b" "\<not> r"
  | (cancelled) ord where "r" "ob_all b i = Some ord" "eo_status ord \<in> {OrderOpen, OrderPartial}"
      "owner = [] \<or> eo_address ord = owner"
      "b' = b\<lparr>ob_bids := filter (\<lambda>x. eo_id x \<noteq> i) (ob_bids b), ob_asks := filter (\<lambda>x. eo_id x \<noteq> i) (ob_asks b),
         ob_all := (ob_all b)(i \<mapsto> ord\<lparr>eo_status := OrderCancelled\<rparr>)\<rparr>"
proof -
  consider "b' = b \<and> \<not> r" | ord where "r" "ob_all b i = Some ord" "eo_status ord \<noteq> OrderFilled" "eo_status ord \<noteq> OrderCancelled"
      "owner = [] \<or> eo_address ord = owner"
      "b' = b\<lparr>ob_bids := filter (\<lambda>x. eo_id x \<noteq> i) (ob_bids b), ob_asks := filter (\<lambda>x. eo_id x \<noteq> i) (ob_asks b),
         ob_all := (ob_all b)(i \<mapsto> ord\<lparr>eo_status := OrderCancelled\<rparr>)\<rparr>"
    using assms by (auto simp: cancel_order_def split: option.splits if_splits)
  then show thesis
  proof cases
    case (2 ord)
    have "eo_status ord \<in> {OrderOpen, OrderPartial}" using 2(3,4) by (cases "eo_status ord") simp_all
    from cancelled [OF 2(1,2) this 2(5,6)] show ?thesis .
  qed (use refused in blast)
qed

lemma cancel_order_inv:
  assumes "book_inv b" and "cancel_order i owner b = (r, b')"
  shows "book_inv b'"
  using assms(2)
proof (cases rule: cancel_order_cases)
  case (cancelled ord)
  have I: "side_inv Buy bid_gt (ob_all b) (ob_bids b)" "side_inv Sell ask_gt (ob_all b) (ob_asks b)"
    using assms(1) by (simp_all add: book_inv_def)
  have "side_inv sd gt (ob_all b') (filter (\<lambda>x. eo_id x \<noteq> i) xs)" if "side_inv sd gt (ob_all b) xs" for sd gt xs
    by (rule side_inv_other [OF side_inv_filter [OF that]]) (auto simp: cancelled(5))
  from this [OF I(1)] this [OF I(2)] show ?thesis by (simp add: book_inv_def cancelled(5))
qed (use assms(1) in simp)

lemma named_orders_add:
  assumes "named_orders b" and "next_order_id b = (eo_id ord, b1)" and "unat (ob_counter b) < 2 ^ 64 - 1"
    and "add_order X ord b1 = Some (fills, b')"
  shows "named_orders b'"
proof (rule add_order_cases [OF assms(4)])
  fix book' st ord'
  assume M: "matched X (opposite (eo_side ord) b1) (match_start ord b1) book' st"
    and all: "ob_all b' = (ms_all st)(eo_id ord \<mapsto> ord')" and c: "ob_counter b' = ob_counter b1"
  note N = next_order_id_fresh [OF assms(1-3)]
  have d: "dom (ob_all b') = insert (eo_id ord) (dom (ob_all b))"
    using matched_dom [OF M] by (simp add: match_start_def all N(2))
  show ?thesis unfolding named_orders_def d c
  proof
    fix i assume "i \<in> insert (eo_id ord) (dom (ob_all b))"
    then consider "i = eo_id ord" | "i \<in> dom (ob_all b)" by blast
    then show "\<exists>c. i = order_name c \<and> unat c \<le> unat (ob_counter b1)"
    proof cases
      case 2
      then obtain c where "i = order_name c" "unat c \<le> unat (ob_counter b)"
        using assms(1) unfolding named_orders_def by blast
      then show ?thesis using N(7) by (intro exI [of _ c]) simp
    qed (use N(6) in blast)
  qed
qed

lemma book_steps_inv:
  assumes "book_steps X b b'" and "book_inv b" and "named_orders b" and "fl_consistent (be_f64 X)"
  shows "book_inv b' \<and> named_orders b'"
  using assms(1) unfolding book_steps_def
proof (induction rule: rtranclp_induct)
  case (step b1 b2)
  from step.hyps(2) show ?case
  proof cases
    case (place ord b0 fills)
    have I: "book_inv b1" "named_orders b1" using step.IH by auto
    note N = next_order_id_fresh [OF I(2) place(1,2)]
    have "book_inv b0" using I(1) N by (simp add: book_inv_def)
    then have "book_inv b2" by (rule add_order_inv [OF _ N(1) place(3) assms(4) place(4)])
    then show ?thesis using named_orders_add [OF I(2) place(1,2,4)] by simp
  next
    case (cancel i owner r)
    have "dom (ob_all b2) = dom (ob_all b1) \<and> ob_counter b2 = ob_counter b1"
      using cancel by (cases rule: cancel_order_cases) (simp_all add: domI insert_absorb)
    then show ?thesis using step.IH cancel_order_inv [OF _ cancel] by (simp add: named_orders_def)
  qed
qed (use assms in simp)

text \<open>
  C26. The book over any sequence of orders and cancellations. Bids and asks stay in price-time
  order and on their own sides, every identifier rests once, and an order that rests is recorded
  among all orders with the same terms and filled size, open or partly filled: nothing that was
  filled or cancelled is left on the book.
\<close>

theorem order_book_invariant:
  assumes "book_steps X (order_book_new config) b" and "fl_consistent (be_f64 X)"
  shows "sorted_wrt (\<lambda>x y. \<not> bid_gt x y) (ob_bids b) \<and> sorted_wrt (\<lambda>x y. \<not> ask_gt x y) (ob_asks b) \<and>
    distinct (map eo_id (ob_bids b @ ob_asks b)) \<and>
    (\<forall>ord \<in> set (ob_bids b). eo_side ord = Buy) \<and> (\<forall>ord \<in> set (ob_asks b). eo_side ord = Sell) \<and>
    (\<forall>ord \<in> set (ob_bids b @ ob_asks b). eo_type ord = LimitOrder \<and> mirrored (ob_all b) ord)"
proof -
  have "book_inv (order_book_new config)" "named_orders (order_book_new config)"
    by (simp_all add: book_inv_def side_inv_def named_orders_def order_book_new_def)
  then have "book_inv b" using book_steps_inv [OF assms(1) _ _ assms(2)] by blast
  then have I: "side_inv Buy bid_gt (ob_all b) (ob_bids b)" "side_inv Sell ask_gt (ob_all b) (ob_asks b)"
    by (simp_all add: book_inv_def)
  have "set (map eo_id (ob_bids b)) \<inter> set (map eo_id (ob_asks b)) = {}"
    using side_inv_disjoint [OF I] by auto
  then show ?thesis using I by (auto simp: side_inv_def)
qed


section \<open>Price-time priority\<close>

lemma fill_against_fills:
  assumes "fill_against X maker st = (maker', st')"
  obtains tr where "ms_fills st' = ms_fills st @ [tr]" "td_maker tr = eo_id maker" "td_taker tr = eo_id (ms_taker st)"
    "td_price tr = be_inner X (eo_price maker)"
    "td_size tr = fl_min (be_f64 X) (remaining (be_f64 X) (ms_taker st)) (remaining (be_f64 X) maker)"
    "eo_filled (ms_taker st') = fl_add (be_f64 X) (eo_filled (ms_taker st)) (td_size tr)"
    "eo_filled maker' = fl_add (be_f64 X) (eo_filled maker) (td_size tr)"
  using assms by (auto simp: fill_against_def Let_def split: prod.splits)

lemma beyond_limit_terms:
  "order_terms taker = order_terms taker' \<Longrightarrow> order_terms maker = order_terms maker' \<Longrightarrow>
   beyond_limit taker maker = beyond_limit taker' maker'"
  by (simp add: beyond_limit_def order_terms_def split: side.splits)

text \<open>The trades of the loop: with the first orders of the book, one each, up to where it stops.\<close>

definition fills_prefix ::
  "('p::linorder, 'f) book_env \<Rightarrow> ('p, 'f) exch_order \<Rightarrow> ('p, 'f) exch_order list \<Rightarrow> nat \<Rightarrow> 'f trade list \<Rightarrow> bool" where
  "fills_prefix X taker book n fills \<longleftrightarrow> n \<le> length book \<and>
     map td_maker fills = map eo_id (take n book) \<and>
     map td_price fills = map (\<lambda>m. be_inner X (eo_price m)) (take n book) \<and>
     (\<forall>f \<in> set fills. td_taker f = eo_id taker) \<and>
     (\<forall>m \<in> set (take n book). \<not> beyond_limit taker m)"

lemma fills_prefix_Cons:
  assumes "fills_prefix X taker' book n fills" and "order_terms taker' = order_terms taker"
    and "\<not> beyond_limit taker maker" and "td_maker tr = eo_id maker" and "td_taker tr = eo_id taker"
    and "td_price tr = be_inner X (eo_price maker)"
  shows "fills_prefix X taker (maker # book) (Suc n) (tr # fills)"
proof -
  have "eo_id taker' = eo_id taker" using assms(2) by (simp add: order_terms_def)
  then show ?thesis using assms(1,3-) beyond_limit_terms [OF assms(2) refl] by (auto simp: fills_prefix_def)
qed

lemma limit_loop_fills:
  assumes "match_limit_loop X book st = (book', st')"
  shows "\<exists>n fills. ms_fills st' = ms_fills st @ fills \<and> fills_prefix X (ms_taker st) book n fills \<and>
    (n < length book \<longrightarrow> beyond_limit (ms_taker st) (book ! n) \<or>
       \<not> fl_lt (be_f64 X) (DUST (be_f64 X)) (remaining (be_f64 X) (ms_taker st')))"
  using assms
proof (induction X book st arbitrary: book' st' rule: match_limit_loop.induct)
  case (2 X maker book st)
  let ?F = "be_f64 X"
  show ?case
  proof (cases "\<not> fl_lt ?F (DUST ?F) (remaining ?F (ms_taker st)) \<or> beyond_limit (ms_taker st) maker")
    case True
    then have "ms_fills st' = ms_fills st @ [] \<and> fills_prefix X (ms_taker st) (maker # book) 0 [] \<and>
      (beyond_limit (ms_taker st) maker \<or> \<not> fl_lt ?F (DUST ?F) (remaining ?F (ms_taker st')))"
      using "2.prems" by (auto simp: fills_prefix_def split: if_splits)
    then show ?thesis by (intro exI [of _ 0] exI [of _ "[]"]) simp
  next
    case False
    then have go: "fl_lt ?F (DUST ?F) (remaining ?F (ms_taker st))" "\<not> beyond_limit (ms_taker st) maker" by simp_all
    obtain maker' st1 where f: "fill_against X maker st = (maker', st1)" by fastforce
    obtain tr where tr: "ms_fills st1 = ms_fills st @ [tr]" "td_maker tr = eo_id maker" "td_taker tr = eo_id (ms_taker st)"
      "td_price tr = be_inner X (eo_price maker)" by (rule fill_against_fills [OF f]) blast
    note t = fill_against_simps(3) [OF f]
    obtain st2 book2 where rec: "match_limit_loop X book st2 = (book2, st')"
      and st2: "ms_fills st2 = ms_fills st1" "ms_taker st2 = ms_taker st1"
      and IH: "\<exists>n fills. ms_fills st' = ms_fills st2 @ fills \<and> fills_prefix X (ms_taker st2) book n fills \<and>
        (n < length book \<longrightarrow> beyond_limit (ms_taker st2) (book ! n) \<or>
           \<not> fl_lt ?F (DUST ?F) (remaining ?F (ms_taker st')))"
    proof (cases "fl_le ?F (remaining ?F maker') (DUST ?F)")
      case True
      have "match_limit_loop X book (store_filled (eo_id maker') st1) = (book', st')"
        using "2.prems" go f True by (simp add: Let_def)
      with "2.IH"(1) [OF _ _ f [symmetric] refl True this] go that show thesis by simp
    next
      case False
      obtain book2 where "match_limit_loop X book (store_partial maker' st1) = (book2, st')"
        using "2.prems" go f False by (auto simp: Let_def split: prod.splits)
      with "2.IH"(2) [OF _ _ f [symmetric] refl False this] go that show thesis by simp
    qed
    from IH obtain n fills where n: "ms_fills st' = ms_fills st2 @ fills" "fills_prefix X (ms_taker st2) book n fills"
      "n < length book \<longrightarrow> beyond_limit (ms_taker st2) (book ! n) \<or> \<not> fl_lt ?F (DUST ?F) (remaining ?F (ms_taker st'))" by blast
    have "fills_prefix X (ms_taker st) (maker # book) (Suc n) (tr # fills)"
      by (rule fills_prefix_Cons [OF n(2) _ go(2) tr(2-4)]) (simp add: st2 t)
    then show ?thesis using n st2 tr(1) beyond_limit_terms [OF t refl]
      by (intro exI [of _ "Suc n"] exI [of _ "tr # fills"]) simp
  qed
qed (auto simp: fills_prefix_def)

text \<open>
  C27. A limit order trades by priority: with the first orders of the opposite side in the order
  of the book, once with each, at the price each of them asked and within its own limit; it stops
  only at the end of the book, at a price beyond its limit, or with nothing but dust left.
\<close>

theorem limit_fills_by_priority:
  assumes "add_order X taker b = Some (fills, b')" and "eo_type taker = LimitOrder"
  shows "\<exists>n ord. fills_prefix X taker (opposite (eo_side taker) b) n fills \<and> ob_all b' (eo_id taker) = Some ord \<and>
    (n < length (opposite (eo_side taker) b) \<longrightarrow> beyond_limit taker (opposite (eo_side taker) b ! n) \<or>
       \<not> fl_lt (be_f64 X) (DUST (be_f64 X)) (remaining (be_f64 X) ord))"
proof (rule add_order_cases [OF assms(1)])
  fix book' st ord
  assume fills: "fills = ms_fills st" and t: "order_terms ord = order_terms taker"
    and filled: "eo_filled ord = eo_filled (ms_taker st)" and all: "ob_all b' = (ms_all st)(eo_id taker \<mapsto> ord)"
    and M: "matched X (opposite (eo_side taker) b) (match_start taker b) book' st"
    and "eo_type taker = LimitOrder \<longrightarrow> match_limit_loop X (opposite (eo_side taker) b) (match_start taker b) = (book', st)"
  then have "match_limit_loop X (opposite (eo_side taker) b) (match_start taker b) = (book', st)" using assms(2) by simp
  moreover have "eo_size ord = eo_size (ms_taker st)"
    using t matched_terms [OF M] by (simp add: order_terms_def match_start_def)
  then have "remaining (be_f64 X) ord = remaining (be_f64 X) (ms_taker st)" using filled by (simp add: remaining_def)
  ultimately show ?thesis using limit_loop_fills [of X "opposite (eo_side taker) b" "match_start taker b" book' st] fills all
    by (auto simp: match_start_def)
qed


section \<open>Crossed orders\<close>

text \<open>What lies behind an order beyond the limit is beyond the limit too.\<close>

definition behind_limit :: "('p::linorder, 'f) exch_order \<Rightarrow> ('p, 'f) exch_order list \<Rightarrow> bool" where
  "behind_limit taker book \<longleftrightarrow> sorted_wrt (\<lambda>m m'. beyond_limit taker m \<longrightarrow> beyond_limit taker m') book"

lemma behind_limit_sorted:
  assumes "side_inv sd gt all book" and "eo_side taker = Buy \<and> gt = ask_gt \<or> eo_side taker = Sell \<and> gt = bid_gt"
  shows "behind_limit taker book"
  unfolding behind_limit_def
proof (rule sorted_wrt_mono_rel)
  show "sorted_wrt (\<lambda>x y. \<not> gt x y) book" using assms(1) by (simp add: side_inv_def)
qed (use assms(2) in \<open>auto simp: beyond_limit_def ask_gt_def bid_gt_def\<close>)

lemma matched_trades:
  "matched X book st book' st' \<Longrightarrow> ms_trades st = ts @ ms_fills st \<Longrightarrow> ms_trades st' = ts @ ms_fills st'"
proof (induction rule: matched.induct)
  case (used_up maker st maker' st1 book book' st')
  then show ?case by (auto simp: fill_against_def Let_def split: prod.splits)
next
  case (passed maker st maker' st1 book book' st')
  then show ?case by (auto simp: fill_against_def Let_def split: prod.splits)
next
  case (again maker st maker' st1 book book' st')
  then show ?case by (auto simp: fill_against_def Let_def split: prod.splits)
qed

text \<open>Two orders that have traded with each other.\<close>

definition have_traded :: "'f trade list \<Rightarrow> ('p, 'f) exch_order \<Rightarrow> ('p, 'f) exch_order \<Rightarrow> bool" where
  "have_traded ts x y \<longleftrightarrow> (\<exists>t \<in> set ts. {td_maker t, td_taker t} = {eo_id x, eo_id y})"

lemma have_traded_sym: "have_traded ts x y = have_traded ts y x"
  by (simp add: have_traded_def insert_commute)

lemma have_traded_mono:
  "have_traded ts x y \<Longrightarrow> set ts \<subseteq> set ts' \<Longrightarrow> eo_id x' = eo_id x \<Longrightarrow> eo_id y' = eo_id y \<Longrightarrow> have_traded ts' x' y'"
  by (auto simp: have_traded_def)

text \<open>What is left of the book when more than dust is left of the taker: it was met, or is beyond the limit.\<close>

lemma limit_loop_meets:
  assumes "match_limit_loop X book st = (book', st')" and "behind_limit (ms_taker st) book" and "ms_fills st = []"
    and "fl_lt (be_f64 X) (DUST (be_f64 X)) (remaining (be_f64 X) (ms_taker st'))"
    and "m \<in> set book'" and "\<not> beyond_limit (ms_taker st) m"
  shows "\<exists>t \<in> set (ms_fills st'). td_maker t = eo_id m \<and> td_taker t = eo_id (ms_taker st)"
proof -
  obtain n where n: "fills_prefix X (ms_taker st) book n (ms_fills st')"
    "n < length book \<longrightarrow> beyond_limit (ms_taker st) (book ! n)"
    using limit_loop_fills [OF assms(1)] assms(3,4) by auto
  obtain i where i: "i < length book" "order_terms (book ! i) = order_terms m"
    using subseq_terms_mem [OF conjunct1 [OF matched_terms [OF limit_loop_matched [OF assms(1)]]] assms(5)]
    by (auto simp: in_set_conv_nth)
  have near: "\<not> beyond_limit (ms_taker st) (book ! i)" using assms(6) beyond_limit_terms [OF refl i(2)] by blast
  have "i < n"
  proof (rule ccontr)
    assume "\<not> i < n"
    then have "n < length book" "n = i \<or> n < i" using i(1) by auto
    then show False
      using n(2) near assms(2) i(1) sorted_wrt_nth_less [of _ book n i] unfolding behind_limit_def by blast
  qed
  then have "eo_id (book ! i) \<in> set (map td_maker (ms_fills st'))"
    using n(1) i(1) unfolding fills_prefix_def by (metis (no_types, lifting) image_eqI in_set_conv_nth length_take list.set_map min_less_iff_conj nth_take)
  then show ?thesis using n(1) i(2) by (auto simp: fills_prefix_def order_terms_def)
qed

text \<open>Wherever a bid is not below an ask, the two have traded with each other.\<close>

definition crossed_traded :: "('p::linorder, 'f) order_book \<Rightarrow> bool" where
  "crossed_traded b \<longleftrightarrow> (\<forall>x \<in> set (ob_bids b). \<forall>y \<in> set (ob_asks b).
     eo_price y \<le> eo_price x \<longrightarrow> have_traded (ob_trades b) x y)"

lemma add_order_crossed:
  assumes "crossed_traded b" and "book_inv b" and "add_order X taker b = Some (fills, b')"
  shows "crossed_traded b'"
proof (rule add_order_cases [OF assms(3)])
  fix book' st ord
  assume M: "matched X (opposite (eo_side taker) b) (match_start taker b) book' st"
    and t: "order_terms ord = order_terms taker" and trades: "ob_trades b' = ms_trades st"
    and opp: "opposite (eo_side taker) b' = book'"
    and own: "opposite (case eo_side taker of Buy \<Rightarrow> Sell | Sell \<Rightarrow> Buy) b' =
       (if fl_lt (be_f64 X) (DUST (be_f64 X)) (remaining (be_f64 X) (ms_taker st)) \<and> eo_type taker = LimitOrder
        then (case eo_side taker of Buy \<Rightarrow> sort_bids (ob_bids b @ [ord]) | Sell \<Rightarrow> sort_asks (ob_asks b @ [ord]))
        else opposite (case eo_side taker of Buy \<Rightarrow> Sell | Sell \<Rightarrow> Buy) b)"
    and loop: "eo_type taker = LimitOrder \<longrightarrow>
       match_limit_loop X (opposite (eo_side taker) b) (match_start taker b) = (book', st)"
  let ?rests = "fl_lt (be_f64 X) (DUST (be_f64 X)) (remaining (be_f64 X) (ms_taker st)) \<and> eo_type taker = LimitOrder"
  have ord: "eo_price ord = eo_price taker" "eo_id ord = eo_id taker" using t by (simp_all add: order_terms_def)
  have "ms_trades st = ob_trades b @ ms_fills st"
    using matched_trades [OF M, of "ob_trades b"] by (simp add: match_start_def)
  then have grow: "set (ob_trades b) \<subseteq> set (ob_trades b')" "set (ms_fills st) \<subseteq> set (ob_trades b')"
    by (simp_all add: trades)
  have sub: "\<exists>y \<in> set (opposite (eo_side taker) b). eo_price y = eo_price x \<and> eo_id y = eo_id x" if "x \<in> set book'" for x
    using subseq_terms_mem [OF conjunct1 [OF matched_terms [OF M]] that] by (auto simp: order_terms_def)
  have met: "have_traded (ob_trades b') m ord" if r: ?rests and m: "m \<in> set book'" "\<not> beyond_limit taker m" for m
  proof -
    have "behind_limit taker (opposite (eo_side taker) b)"
      using assms(2) by (cases "eo_side taker") (auto simp: book_inv_def opposite_def intro: behind_limit_sorted)
    then obtain tr where "tr \<in> set (ms_fills st)" "td_maker tr = eo_id m" "td_taker tr = eo_id taker"
      using limit_loop_meets [of X "opposite (eo_side taker) b" "match_start taker b" book' st m] loop r m
      by (auto simp: match_start_def)
    then show ?thesis using grow(2) ord(2) by (auto simp: have_traded_def)
  qed
  have before: "have_traded (ob_trades b') x y"
    if "x \<in> set (ob_bids b)" "y \<in> set (ob_asks b)" "eo_price y \<le> eo_price x" for x y
    using assms(1) that grow(1) have_traded_mono unfolding crossed_traded_def by metis
  show ?thesis unfolding crossed_traded_def
  proof (intro ballI impI)
    fix x y assume x: "x \<in> set (ob_bids b')" and y: "y \<in> set (ob_asks b')" and c: "eo_price y \<le> eo_price x"
    show "have_traded (ob_trades b') x y"
    proof (cases "eo_side taker")
      case Buy
      have y': "y \<in> set book'" using y opp Buy by (simp add: opposite_def)
      then obtain y0 where "y0 \<in> set (ob_asks b)" "eo_price y0 = eo_price y" "eo_id y0 = eo_id y"
        using sub Buy by (auto simp: opposite_def)
      then have old: "x \<in> set (ob_bids b) \<Longrightarrow> ?thesis"
        using before [of x y0] have_traded_mono [of _ x y0 _ x y] c by simp
      have "x \<in> set (ob_bids b) \<or> ?rests \<and> x = ord"
        using x own Buy by (auto simp: opposite_def sort_bids_def split: if_splits)
      then show ?thesis using old met [OF _ y'] c ord(1) Buy have_traded_sym [of _ x y] by (auto simp: beyond_limit_def)
    next
      case Sell
      have x': "x \<in> set book'" using x opp Sell by (simp add: opposite_def)
      then obtain x0 where "x0 \<in> set (ob_bids b)" "eo_price x0 = eo_price x" "eo_id x0 = eo_id x"
        using sub Sell by (auto simp: opposite_def)
      then have old: "y \<in> set (ob_asks b) \<Longrightarrow> ?thesis"
        using before [of x0 y] have_traded_mono [of _ x0 y _ x y] c by simp
      have "y \<in> set (ob_asks b) \<or> ?rests \<and> y = ord"
        using y own Sell by (auto simp: opposite_def sort_asks_def split: if_splits)
      then show ?thesis using old met [OF _ x'] c ord(1) Sell by (auto simp: beyond_limit_def)
    qed
  qed
qed

text \<open>
  C28. No order passes by a matching one. If, after any sequence of orders and cancellations, a
  resting bid is not below a resting ask, then the two have traded with each other. Rounded
  arithmetic does leave such a book (\<open>crossed_book\<close>, the witness); exact arithmetic does not
  (\<open>exact_book_never_crossed\<close>).
\<close>

theorem crossed_orders_have_traded:
  assumes "book_steps X (order_book_new config) b" and "fl_consistent (be_f64 X)"
    and "bid \<in> set (ob_bids b)" and "ask \<in> set (ob_asks b)" and "eo_price ask \<le> eo_price bid"
  shows "\<exists>t \<in> set (ob_trades b). {td_maker t, td_taker t} = {eo_id bid, eo_id ask}"
proof -
  have "crossed_traded b \<and> book_inv b \<and> named_orders b"
    using assms(1) unfolding book_steps_def
  proof (induction rule: rtranclp_induct)
    case (step b1 b2)
    have I: "book_inv b2 \<and> named_orders b2"
      by (rule book_steps_inv [of X b1]) (use step assms(2) in \<open>auto simp: book_steps_def\<close>)
    from step.hyps(2) have "crossed_traded b2"
    proof cases
      case (place ord b0 fills)
      note N = next_order_id_fresh [OF _ place(1,2)]
      have "crossed_traded b0" "book_inv b0" using step.IH N by (simp_all add: crossed_traded_def book_inv_def)
      then show ?thesis by (rule add_order_crossed [OF _ _ place(4)])
    next
      case (cancel i owner r)
      then show ?thesis using step.IH by (cases rule: cancel_order_cases) (auto simp: crossed_traded_def)
    qed
    then show ?case using I by simp
  qed (simp add: crossed_traded_def order_book_new_def book_inv_def side_inv_def named_orders_def)
  then show ?thesis using assms(3-5) by (simp add: crossed_traded_def have_traded_def)
qed

section \<open>In exact arithmetic the book is never crossed\<close>

text \<open>
  After a fill by the smaller remainder, one of the two orders has nothing but dust left. Exact
  arithmetic does this; \<open>f64\<close> does not for sizes of a few thousand units, whose rounding errors
  exceed the dust (\<open>rounded_fills_do_not_settle\<close> below).
\<close>

definition fills_settle :: "'f f64_ops \<Rightarrow> bool" where
  "fills_settle F \<longleftrightarrow> (\<forall>s1 f1 s2 f2.
     (let x = fl_min F (fl_sub F s1 f1) (fl_sub F s2 f2)
      in fl_lt F (DUST F) (fl_sub F s1 (fl_add F f1 x)) \<longrightarrow> fl_le F (fl_sub F s2 (fl_add F f2 x)) (DUST F)))"

lemma exact_settle: "fills_settle exact_ops"
  by (auto simp: fills_settle_def DUST_def min_def Let_def)

lemma fill_settles:
  assumes "fills_settle (be_f64 X)" and "fill_against X maker st = (maker', st')"
    and "fl_lt (be_f64 X) (DUST (be_f64 X)) (remaining (be_f64 X) (ms_taker st'))"
  shows "fl_le (be_f64 X) (remaining (be_f64 X) maker') (DUST (be_f64 X))"
  using assms by (auto simp: fills_settle_def fill_against_def remaining_def Let_def split: prod.splits)

lemma limit_loop_clears:
  assumes "match_limit_loop X book st = (book', st')" and "fills_settle (be_f64 X)"
    and "behind_limit (ms_taker st) book"
    and "fl_lt (be_f64 X) (DUST (be_f64 X)) (remaining (be_f64 X) (ms_taker st'))"
  shows "\<forall>m \<in> set book'. beyond_limit (ms_taker st) m"
  using assms
proof (induction X book st arbitrary: book' st' rule: match_limit_loop.induct)
  case (2 X maker book st)
  let ?F = "be_f64 X"
  show ?case
  proof (cases "\<not> fl_lt ?F (DUST ?F) (remaining ?F (ms_taker st)) \<or> beyond_limit (ms_taker st) maker")
    case True
    then show ?thesis using "2.prems" by (auto simp: behind_limit_def split: if_splits)
  next
    case False
    then have go: "fl_lt ?F (DUST ?F) (remaining ?F (ms_taker st))" "\<not> beyond_limit (ms_taker st) maker" by simp_all
    obtain maker' st1 where f: "fill_against X maker st = (maker', st1)" by fastforce
    note t = fill_against_simps(3) [OF f]
    have bl: "beyond_limit (ms_taker st1) = beyond_limit (ms_taker st)" using beyond_limit_terms [OF t refl] by blast
    show ?thesis
    proof (cases "fl_le ?F (remaining ?F maker') (DUST ?F)")
      case True
      have "match_limit_loop X book (store_filled (eo_id maker') st1) = (book', st')"
        using "2.prems" go f True by (simp add: Let_def)
      moreover have "behind_limit (ms_taker (store_filled (eo_id maker') st1)) book"
        using "2.prems"(3) by (simp add: behind_limit_def bl)
      ultimately have "\<forall>m \<in> set book'. beyond_limit (ms_taker (store_filled (eo_id maker') st1)) m"
        using "2.IH"(1) [OF _ _ f [symmetric] refl True] go "2.prems"(2,4) by blast
      then show ?thesis by (simp add: bl)
    next
      case False
      then have stop: "\<not> fl_lt ?F (DUST ?F) (remaining ?F (ms_taker st1))" using fill_settles [OF "2.prems"(2) f] by blast
      then have "match_limit_loop X book (store_partial maker' st1) = (book, store_partial maker' st1)" by (cases book) simp_all
      then have "ms_taker st' = ms_taker st1" using "2.prems"(1) go f False by (auto simp: Let_def)
      then show ?thesis using stop "2.prems"(4) by simp
    qed
  qed
qed simp

definition uncrossed :: "('p::linorder, 'f) order_book \<Rightarrow> bool" where
  "uncrossed b \<longleftrightarrow> (\<forall>x \<in> set (ob_bids b). \<forall>y \<in> set (ob_asks b). eo_price x < eo_price y)"

lemma add_order_uncrossed:
  assumes "uncrossed b" and "book_inv b" and "fills_settle (be_f64 X)" and "add_order X taker b = Some (fills, b')"
  shows "uncrossed b'"
proof (rule add_order_cases [OF assms(4)])
  fix book' st ord
  assume M: "matched X (opposite (eo_side taker) b) (match_start taker b) book' st"
    and t: "order_terms ord = order_terms taker"
    and opp: "opposite (eo_side taker) b' = book'"
    and own: "opposite (case eo_side taker of Buy \<Rightarrow> Sell | Sell \<Rightarrow> Buy) b' =
       (if fl_lt (be_f64 X) (DUST (be_f64 X)) (remaining (be_f64 X) (ms_taker st)) \<and> eo_type taker = LimitOrder
        then (case eo_side taker of Buy \<Rightarrow> sort_bids (ob_bids b @ [ord]) | Sell \<Rightarrow> sort_asks (ob_asks b @ [ord]))
        else opposite (case eo_side taker of Buy \<Rightarrow> Sell | Sell \<Rightarrow> Buy) b)"
    and loop: "eo_type taker = LimitOrder \<longrightarrow>
       match_limit_loop X (opposite (eo_side taker) b) (match_start taker b) = (book', st)"
  have price: "eo_price ord = eo_price taker" using t by (simp add: order_terms_def)
  have sub: "\<exists>y \<in> set (opposite (eo_side taker) b). eo_price y = eo_price x" if "x \<in> set book'" for x
    using subseq_terms_mem [OF conjunct1 [OF matched_terms [OF M]] that] by (auto simp: order_terms_def)
  have clear: "\<forall>m \<in> set book'. beyond_limit taker m"
    if "fl_lt (be_f64 X) (DUST (be_f64 X)) (remaining (be_f64 X) (ms_taker st)) \<and> eo_type taker = LimitOrder"
  proof -
    have "behind_limit taker (opposite (eo_side taker) b)"
      using assms(2) by (cases "eo_side taker")
        (auto simp: book_inv_def opposite_def intro: behind_limit_sorted)
    then show ?thesis
      using limit_loop_clears [of X "opposite (eo_side taker) b" "match_start taker b" book' st] loop that assms(3)
      by (simp add: match_start_def)
  qed
  show ?thesis
  proof (cases "eo_side taker")
    case Buy
    then have asks: "ob_asks b' = book'" and
      bids: "set (ob_bids b') \<subseteq> insert ord (set (ob_bids b))"
      "ord \<in> set (ob_bids b') \<Longrightarrow> ord \<notin> set (ob_bids b) \<Longrightarrow> \<forall>m \<in> set book'. eo_price ord < eo_price m"
      using opp own clear by (auto simp: opposite_def sort_bids_def price beyond_limit_def split: if_splits)
    show ?thesis unfolding uncrossed_def asks
    proof (intro ballI)
      fix x y assume x: "x \<in> set (ob_bids b')" and y: "y \<in> set book'"
      show "eo_price x < eo_price y"
      proof (cases "x \<in> set (ob_bids b)")
        case True
        moreover obtain y' where "y' \<in> set (ob_asks b)" "eo_price y' = eo_price y"
          using sub [OF y] Buy by (auto simp: opposite_def)
        ultimately show ?thesis using assms(1) unfolding uncrossed_def by metis
      qed (use bids x y in blast)
    qed
  next
    case Sell
    then have bids: "ob_bids b' = book'" and
      asks: "set (ob_asks b') \<subseteq> insert ord (set (ob_asks b))"
      "ord \<in> set (ob_asks b') \<Longrightarrow> ord \<notin> set (ob_asks b) \<Longrightarrow> \<forall>m \<in> set book'. eo_price m < eo_price ord"
      using opp own clear by (auto simp: opposite_def sort_asks_def price beyond_limit_def split: if_splits)
    show ?thesis unfolding uncrossed_def bids
    proof (intro ballI)
      fix x y assume x: "x \<in> set book'" and y: "y \<in> set (ob_asks b')"
      show "eo_price x < eo_price y"
      proof (cases "y \<in> set (ob_asks b)")
        case True
        moreover obtain x' where "x' \<in> set (ob_bids b)" "eo_price x' = eo_price x"
          using sub [OF x] Sell by (auto simp: opposite_def)
        ultimately show ?thesis using assms(1) unfolding uncrossed_def by metis
      qed (use asks x y in blast)
    qed
  qed
qed

text \<open>Every resting bid is below every resting ask, where no fill is rounded.\<close>

theorem exact_book_never_crossed:
  assumes "book_steps X (order_book_new config) b" and "be_f64 X = exact_ops"
  shows "\<forall>x \<in> set (ob_bids b). \<forall>y \<in> set (ob_asks b). eo_price x < eo_price y"
proof -
  have "uncrossed b \<and> book_inv b \<and> named_orders b"
    using assms(1) unfolding book_steps_def
  proof (induction rule: rtranclp_induct)
    case (step b1 b2)
    have I: "book_inv b2 \<and> named_orders b2"
      by (rule book_steps_inv [of X b1]) (use step in \<open>auto simp: book_steps_def assms(2) exact_consistent\<close>)
    from step.hyps(2) have "uncrossed b2"
    proof cases
      case (place ord b0 fills)
      note N = next_order_id_fresh [OF _ place(1,2)]
      have "uncrossed b0" "book_inv b0" using step.IH N by (simp_all add: uncrossed_def book_inv_def)
      then show ?thesis using add_order_uncrossed [OF _ _ _ place(4)] by (simp add: assms(2) exact_settle)
    next
      case (cancel i owner r)
      then show ?thesis using step.IH by (cases rule: cancel_order_cases) (auto simp: uncrossed_def)
    qed
    then show ?case using I by simp
  qed (simp add: uncrossed_def order_book_new_def book_inv_def side_inv_def named_orders_def)
  then show ?thesis by (simp add: uncrossed_def)
qed


section \<open>Every order is answered\<close>

lemma market_loop_returns:
  assumes "fills_settle (be_f64 X)"
  shows "\<exists>r. match_market_loop X book st = Some r"
proof (induction book arbitrary: st)
  case Nil
  show ?case by (subst match_market_loop.simps) simp
next
  case (Cons maker book)
  let ?F = "be_f64 X"
  obtain maker' st1 where f: "fill_against X maker st = (maker', st1)" by fastforce
  show ?case
  proof (cases "fl_lt ?F (DUST ?F) (remaining ?F (ms_taker st)) \<and> \<not> fl_le ?F (remaining ?F maker') (DUST ?F)")
    case True
    then have "\<not> fl_lt ?F (DUST ?F) (remaining ?F (ms_taker st1))" using fill_settles [OF assms f] by blast
    then have "match_market_loop X (maker' # book) (store_partial maker' st1) = Some (maker' # book, store_partial maker' st1)"
      by (subst match_market_loop.simps) simp
    then show ?thesis using True f by (subst match_market_loop.simps) simp
  next
    case False
    then show ?thesis using Cons [of "store_filled (eo_id maker') st1"] f by (subst match_market_loop.simps) simp
  qed
qed

text \<open>As long as fills settle, every order is answered: the matching of a market order ends.\<close>

theorem add_order_returns:
  assumes "fills_settle (be_f64 X)"
  shows "\<exists>fills b'. add_order X taker b = Some (fills, b')"
proof (cases "eo_type taker")
  case MarketOrder
  obtain r where "match_market_loop X (opposite (eo_side taker) b) (match_start taker b) = Some r"
    using market_loop_returns [OF assms] by blast
  then show ?thesis using MarketOrder by (auto simp: add_order_def match_market_def Let_def split: prod.splits)
qed (auto simp: add_order_def Let_def split: prod.splits)

section \<open>Closed orders\<close>

definition order_closed :: "('p, 'f) exch_order \<Rightarrow> bool" where
  "order_closed ord \<longleftrightarrow> eo_status ord = OrderFilled \<or> eo_status ord = OrderCancelled"

lemma not_resting_closed:
  assumes "book_inv b" and "ob_all b i = Some ord" and "order_closed ord"
  shows "i \<notin> eo_id ` set (opposite sd b)"
  using assms side_inv_stored [of Buy bid_gt "ob_all b" "ob_bids b" i]
    side_inv_stored [of Sell ask_gt "ob_all b" "ob_asks b" i]
  by (auto simp: order_closed_def book_inv_def opposite_def split: side.splits)

lemma closed_step:
  assumes "book_step X b b'" and "book_inv b" and "named_orders b" and "ob_all b i = Some ord" and "order_closed ord"
  shows "ob_all b' i = Some ord"
  using assms(1)
proof cases
  case (place taker b0 fills)
  note N = next_order_id_fresh [OF assms(3) place(1,2)]
  show ?thesis
  proof (rule add_order_cases [OF place(4)])
    fix book' st ord'
    assume M: "matched X (opposite (eo_side taker) b0) (match_start taker b0) book' st"
      and all: "ob_all b' = (ms_all st)(eo_id taker \<mapsto> ord')"
    have "i \<notin> eo_id ` set (opposite (eo_side taker) b0)"
      using not_resting_closed [OF assms(2,4,5), of "eo_side taker"] N
      by (cases "eo_side taker") (simp_all add: opposite_def)
    then have "ms_all st i = Some ord" using matched_all_other [OF M] N assms(4) by (simp add: match_start_def)
    moreover have "i \<noteq> eo_id taker" using N assms(4) by auto
    ultimately show ?thesis by (simp add: all)
  qed
next
  case (cancel j owner r)
  then show ?thesis using assms(4,5)
    by (cases rule: cancel_order_cases) (auto simp: order_closed_def)
qed

text \<open>An order that was filled or cancelled keeps its record for good.\<close>

theorem closed_orders_stay:
  assumes "book_steps X (order_book_new config) b" and "fl_consistent (be_f64 X)"
    and "ob_all b i = Some ord" and "eo_status ord = OrderFilled \<or> eo_status ord = OrderCancelled"
    and "book_steps X b b'"
  shows "ob_all b' i = Some ord"
proof -
  have I: "book_inv b \<and> named_orders b"
    by (rule book_steps_inv [OF assms(1) _ _ assms(2)])
      (simp_all add: order_book_new_def book_inv_def side_inv_def named_orders_def)
  from assms(5) show ?thesis unfolding book_steps_def
  proof (induction rule: rtranclp_induct)
    case (step b1 b2)
    have "book_inv b1 \<and> named_orders b1"
      by (rule book_steps_inv [of X b]) (use step I assms(2) in \<open>auto simp: book_steps_def\<close>)
    then show ?case using closed_step [OF step.hyps(2) _ _ step.IH] assms(4) by (simp add: order_closed_def)
  qed (rule assms(3))
qed

section \<open>Sizes\<close>

text \<open>The trades between two states of a match add up to what the taker got.\<close>

definition fills_added :: "('p, rat) match_state \<Rightarrow> ('p, rat) match_state \<Rightarrow> bool" where
  "fills_added st st' \<longleftrightarrow> (\<exists>fills. ms_fills st' = ms_fills st @ fills \<and>
     eo_filled (ms_taker st') = eo_filled (ms_taker st) + sum_list (map td_size fills) \<and>
     (\<forall>f \<in> set fills. 0 \<le> td_size f))"

lemma fills_added_trans: "fills_added st st1 \<Longrightarrow> fills_added st1 st' \<Longrightarrow> fills_added st st'"
  unfolding fills_added_def by (elim exE, rule_tac x = "fills @ fillsa" in exI) auto

lemma fills_added_store [simp]:
  "fills_added (store_filled i st) st' = fills_added st st'" "fills_added (store_partial maker st) st' = fills_added st st'"
  by (simp_all add: fills_added_def)

definition within_size :: "('p, rat) exch_order \<Rightarrow> bool" where
  "within_size ord \<longleftrightarrow> eo_filled ord \<le> eo_size ord"

lemma fill_sizes:
  assumes "fill_against X maker st = (maker', st1)" and "be_f64 X = exact_ops"
    and "within_size (ms_taker st)" and "within_size maker"
  shows "within_size (ms_taker st1) \<and> within_size maker' \<and> fills_added st st1"
proof -
  obtain tr where tr: "ms_fills st1 = ms_fills st @ [tr]"
    "td_size tr = min (remaining exact_ops (ms_taker st)) (remaining exact_ops maker)"
    "eo_filled (ms_taker st1) = eo_filled (ms_taker st) + td_size tr" "eo_filled maker' = eo_filled maker + td_size tr"
    by (rule fill_against_fills [OF assms(1)]) (simp add: assms(2))
  have "eo_size (ms_taker st1) = eo_size (ms_taker st)" "eo_size maker' = eo_size maker"
    using fill_against_simps [OF assms(1)] by (simp_all add: order_terms_def)
  moreover have "0 \<le> td_size tr" using assms(3,4) by (simp add: tr(2) remaining_def within_size_def)
  then have "fills_added st st1" unfolding fills_added_def by (intro exI [of _ "[tr]"]) (simp add: tr)
  ultimately show ?thesis using tr(2-4) by (simp add: within_size_def remaining_def min_def split: if_splits)
qed

lemma matched_sizes:
  assumes "matched X book st book' st'" and "be_f64 X = exact_ops"
    and "within_size (ms_taker st)" and "\<forall>m \<in> set book. within_size m"
  shows "within_size (ms_taker st') \<and> (\<forall>m \<in> set book'. within_size m) \<and> fills_added st st'"
  using assms(1,3,4)
proof (induction rule: matched.induct)
  case (stop book st)
  have "fills_added st st" unfolding fills_added_def by (intro exI [of _ "[]"]) simp
  then show ?case using stop by simp
next
  case (used_up maker st maker' st1 book book' st')
  then show ?case using fill_sizes [OF used_up.hyps(1) assms(2)] fills_added_trans [of st st1 st'] by simp
next
  case (passed maker st maker' st1 book book' st')
  then show ?case using fill_sizes [OF passed.hyps(1) assms(2)] fills_added_trans [of st st1 st'] by simp
next
  case (again maker st maker' st1 book book' st')
  then show ?case using fill_sizes [OF again.hyps(1) assms(2)] fills_added_trans [of st st1 st'] by simp
qed

text \<open>
  In exact arithmetic no trade is negative, the trades of an order add up to what it was filled by,
  and neither it nor an order it traded with is filled beyond its size.
\<close>

theorem fills_add_up:
  assumes "add_order X taker b = Some (fills, b')" and "be_f64 X = exact_ops"
    and "eo_filled taker \<le> eo_size taker" and "\<forall>m \<in> set (opposite (eo_side taker) b). eo_filled m \<le> eo_size m"
  shows "\<exists>ord. ob_all b' (eo_id taker) = Some ord \<and>
    eo_filled ord = eo_filled taker + sum_list (map td_size fills) \<and> eo_filled ord \<le> eo_size taker \<and>
    (\<forall>f \<in> set fills. 0 \<le> td_size f) \<and> (\<forall>m \<in> set (opposite (eo_side taker) b'). eo_filled m \<le> eo_size m)"
proof (rule add_order_cases [OF assms(1)])
  fix book' st ord
  assume M: "matched X (opposite (eo_side taker) b) (match_start taker b) book' st" and f: "fills = ms_fills st"
    and t: "order_terms ord = order_terms taker" "eo_filled ord = eo_filled (ms_taker st)"
    and all: "ob_all b' = (ms_all st)(eo_id taker \<mapsto> ord)" and opp: "opposite (eo_side taker) b' = book'"
  have "eo_size (ms_taker st) = eo_size taker"
    using matched_terms [OF M] by (simp add: order_terms_def match_start_def)
  then show ?thesis
    using matched_sizes [OF M assms(2)] assms(3,4) f t all opp
    by (auto simp: within_size_def fills_added_def match_start_def)
qed


section \<open>An example\<close>

definition demo_env :: "(rat, rat) book_env" where
  "demo_env = \<lparr>be_f64 = exact_ops, be_inner = (\<lambda>p. p), be_fresh = (\<lambda>n. (''trade'', 7))\<rparr>"

definition demo_config :: "rat market_config" where
  "demo_config = \<lparr>mc_pair = ''QBC/QUSD'', mc_base = ''QBC'', mc_quote = ''QUSD'', mc_tick_size = 1 / 10000,
     mc_min_order = 1, mc_maker_fee = 0, mc_taker_fee = 0\<rparr>"

definition demo_order :: "string \<Rightarrow> side \<Rightarrow> order_type \<Rightarrow> rat \<Rightarrow> rat \<Rightarrow> string \<Rightarrow> (rat, rat) exch_order" where
  "demo_order i sd ty p x a = \<lparr>eo_id = i, eo_pair = ''QBC/QUSD'', eo_side = sd, eo_type = ty, eo_price = p,
     eo_size = x, eo_filled = 0, eo_address = a, eo_timestamp = 5, eo_status = OrderOpen\<rparr>"

abbreviation demo_ask :: "(rat, rat) exch_order" where
  "demo_ask \<equiv> demo_order ''ord-00000001'' Sell LimitOrder 10 5 ''alice''"

abbreviation demo_bid :: "(rat, rat) exch_order" where
  "demo_bid \<equiv> demo_order ''ord-00000002'' Buy LimitOrder 11 3 ''bob''"

definition demo_book1 :: "(rat, rat) order_book" where
  "demo_book1 = (order_book_new demo_config)\<lparr>ob_asks := [demo_ask], ob_all := [''ord-00000001'' \<mapsto> demo_ask], ob_counter := 1\<rparr>"

definition demo_trade :: "rat trade" where
  "demo_trade = \<lparr>td_id = ''trade'', td_pair = ''QBC/QUSD'', td_price = 10, td_size = 3, td_side = Buy,
     td_maker = ''ord-00000001'', td_taker = ''ord-00000002'', td_timestamp = 7\<rparr>"

definition demo_book2 :: "(rat, rat) order_book" where
  "demo_book2 = demo_book1\<lparr>ob_asks := [demo_ask\<lparr>eo_filled := 3\<rparr>], ob_trades := [demo_trade],
     ob_all := [''ord-00000001'' \<mapsto> demo_ask\<lparr>eo_filled := 3, eo_status := OrderPartial\<rparr>,
                ''ord-00000002'' \<mapsto> demo_bid\<lparr>eo_filled := 3, eo_status := OrderFilled\<rparr>], ob_counter := 2\<rparr>"

lemma order_names: "order_name 1 = ''ord-00000001''" "order_name 2 = ''ord-00000002''" "order_name 3 = ''ord-00000003''"
proof -
  have "decimal 1 = ''1''" "decimal 2 = ''2''" "decimal 3 = ''3''" by (subst decimal.simps; simp)+
  moreover have "replicate 7 (CHR ''0'') = ''0000000''" by (simp add: eval_nat_numeral)
  ultimately show "order_name 1 = ''ord-00000001''" "order_name 2 = ''ord-00000002''" "order_name 3 = ''ord-00000003''"
    by (simp_all add: order_name_def)
qed

lemma demo_add1:
  "add_order demo_env demo_ask ((order_book_new demo_config)\<lparr>ob_counter := 1\<rparr>) = Some ([], demo_book1)"
  by (simp add: add_order_def match_limit_def finish_match_def match_start_def opposite_def order_book_new_def
      demo_env_def demo_book1_def sort_asks_def remaining_def DUST_def demo_order_def Let_def)

lemma demo_add2: "add_order demo_env demo_bid (demo_book1\<lparr>ob_counter := 2\<rparr>) = Some ([demo_trade], demo_book2)"
  by (simp add: add_order_def match_limit_def finish_match_def match_start_def opposite_def demo_book1_def
      demo_env_def demo_book2_def sort_bids_def remaining_def DUST_def demo_order_def Let_def fill_against_def
      beyond_limit_def demo_trade_def store_partial_def order_book_new_def)

lemma demo_step1: "book_step demo_env (order_book_new demo_config) demo_book1"
  by (rule book_step.place [where ord = demo_ask, OF _ _ _ demo_add1])
    (simp_all add: next_order_id_def order_book_new_def order_names demo_order_def)

lemma demo_step2: "book_step demo_env demo_book1 demo_book2"
  by (rule book_step.place [where ord = demo_bid, OF _ _ _ demo_add2])
    (simp_all add: next_order_id_def demo_book1_def order_names demo_order_def)

lemma demo_steps: "book_steps demo_env (order_book_new demo_config) demo_book2"
  unfolding book_steps_def using demo_step1 demo_step2 by (meson rtranclp.rtrancl_refl rtranclp.rtrancl_into_rtrancl)

lemma demo_f64: "be_f64 demo_env = exact_ops"
  by (simp add: demo_env_def)

lemma order_book_invariant_witness:
  "mirrored (ob_all demo_book2) (demo_ask\<lparr>eo_filled := 3\<rparr>)"
  using order_book_invariant [OF demo_steps] exact_consistent by (simp add: demo_f64 demo_book2_def)

text \<open>A second bid rests below the ask that is left.\<close>

abbreviation demo_low_bid :: "(rat, rat) exch_order" where
  "demo_low_bid \<equiv> demo_order ''ord-00000003'' Buy LimitOrder 9 2 ''carol''"

definition demo_book3 :: "(rat, rat) order_book" where
  "demo_book3 = demo_book2\<lparr>ob_bids := [demo_low_bid], ob_all := (ob_all demo_book2)(''ord-00000003'' \<mapsto> demo_low_bid),
     ob_counter := 3\<rparr>"

lemma demo_add3: "add_order demo_env demo_low_bid (demo_book2\<lparr>ob_counter := 3\<rparr>) = Some ([], demo_book3)"
  by (simp add: add_order_def match_limit_def finish_match_def match_start_def opposite_def demo_book1_def
      demo_env_def demo_book2_def demo_book3_def sort_bids_def remaining_def DUST_def demo_order_def Let_def
      beyond_limit_def order_book_new_def)

lemma demo_steps3: "book_steps demo_env (order_book_new demo_config) demo_book3"
proof -
  have "book_step demo_env demo_book2 demo_book3"
    by (rule book_step.place [where ord = demo_low_bid, OF _ _ _ demo_add3])
      (simp_all add: next_order_id_def demo_book2_def order_names demo_order_def)
  then show ?thesis using demo_steps unfolding book_steps_def by (rule rtranclp.rtrancl_into_rtrancl [rotated])
qed

lemma exact_book_never_crossed_witness: "eo_price demo_low_bid < eo_price (demo_ask\<lparr>eo_filled := 3\<rparr>)"
proof -
  have "demo_low_bid \<in> set (ob_bids demo_book3)" "demo_ask\<lparr>eo_filled := 3\<rparr> \<in> set (ob_asks demo_book3)"
    by (simp_all add: demo_book3_def demo_book2_def)
  then show ?thesis using exact_book_never_crossed [OF demo_steps3 demo_f64] by blast
qed

lemma limit_fills_witness: "\<exists>n. fills_prefix demo_env demo_bid [demo_ask] n [demo_trade]"
  using limit_fills_by_priority [OF demo_add2] by (auto simp: opposite_def demo_order_def demo_book1_def)

lemma add_order_returns_witness:
  "\<exists>fills b'. add_order demo_env (demo_order ''ord-00000003'' Buy MarketOrder 0 9 ''eve'') demo_book2 = Some (fills, b')"
  by (rule add_order_returns) (simp add: demo_f64 exact_settle)

lemma closed_orders_witness:
  "ob_all (snd (cancel_order ''ord-00000001'' ''alice'' demo_book2)) ''ord-00000002'' =
   Some (demo_bid\<lparr>eo_filled := 3, eo_status := OrderFilled\<rparr>)"
proof (rule closed_orders_stay [OF demo_steps])
  obtain r b' where "cancel_order ''ord-00000001'' ''alice'' demo_book2 = (r, b')" by fastforce
  then show "book_steps demo_env demo_book2 (snd (cancel_order ''ord-00000001'' ''alice'' demo_book2))"
    unfolding book_steps_def using book_step.cancel [of "''ord-00000001''" "''alice''" demo_book2 r b'] by auto
qed (simp_all add: demo_f64 exact_consistent demo_book2_def)

lemma fills_add_up_witness:
  "\<exists>ord. ob_all demo_book2 ''ord-00000002'' = Some ord \<and> eo_filled ord = 3"
  using fills_add_up [OF demo_add2 demo_f64]
  by (auto simp: demo_order_def opposite_def demo_book1_def demo_trade_def)

text \<open>
  A market order that finds nothing to trade with is recorded as open for good: it does not rest,
  and only a cancellation changes its record.
\<close>

theorem unfilled_market_order_open:
  assumes "opposite (eo_side taker) b = []" and "eo_type taker = MarketOrder" and "eo_status taker = OrderOpen"
    and "\<not> fl_le (be_f64 X) (remaining (be_f64 X) taker) (DUST (be_f64 X))"
  shows "add_order X taker b = Some ([], b\<lparr>ob_all := (ob_all b)(eo_id taker \<mapsto> taker)\<rparr>)"
  using assms by (cases "eo_side taker")
    (simp_all add: add_order_def match_market_def match_market_loop.simps finish_match_def match_start_def opposite_def)

text \<open>Whoever names no owner may cancel the order of anyone.\<close>

theorem anyone_cancels:
  assumes "ob_all b i = Some ord" and "eo_status ord = OrderOpen \<or> eo_status ord = OrderPartial"
  shows "fst (cancel_order i [] b)"
  using assms by (auto simp: cancel_order_def)

section \<open>A crossed book\<close>

text \<open>
  The arithmetic is rounded as \<open>f64\<close> is. An order sells 22488.2 units; 4262.1 are bought from it, and
  a third order buys what is left, 18226.1. The filled size of the first order rounds to 3.6e-12
  below its size, more than the dust of 1e-12, so it stays; the third order wants more and rests
  at the same price.
\<close>

definition sizeS :: rat where "sizeS = 6181509346938061 / 274877906944" \<comment> \<open>22488.2\<close>
definition sizeT :: rat where "sizeT = 2343114254372045 / 549755813888" \<comment> \<open>4262.1\<close>
definition sizeR :: rat where "sizeR = 2504976109876019 / 137438953472" \<comment> \<open>18226.1\<close>
definition sizeM :: rat where "sizeM = 1545377336734515 / 68719476736" \<comment> \<open>their sum as computed\<close>
definition sizeQ :: rat where "sizeQ = 1618192494283981 / 137438953472" \<comment> \<open>what 30000 less it is\<close>
definition sizeU :: rat where "sizeU = 1 / 274877906944" \<comment> \<open>3.6e-12\<close>
definition sizeD :: rat where "sizeD = 4951760157141521 / 4951760157141521099596496896" \<comment> \<open>1e-12\<close>

lemma rounded_sizes:
  "round53 (224882 / 10) = sizeS" "round53 (42621 / 10) = sizeT" "round53 sizeS = sizeS" "round53 sizeT = sizeT" "round53 30000 = 30000"
  "round53 (sizeS - sizeT) = sizeR" "round53 sizeR = sizeR" "round53 (sizeT + sizeR) = sizeM"
  "round53 (sizeS - sizeM) = sizeU" "round53 (30000 - sizeR) = sizeQ" "round53 0 = 0" "round53 (1 / 1000000000000) = sizeD"
  by code_simp+

lemma rounded_bounds:
  "0 < sizeT" "sizeD < sizeS" "sizeD < sizeT" "sizeD < sizeR" "sizeD < sizeQ" "sizeD < 30000"
  "sizeD < sizeU" "0 < sizeD" "0 < sizeR" "0 \<le> sizeD" "\<not> sizeD < 0" "\<not> sizeS \<le> sizeD" "\<not> sizeR \<le> sizeD" "\<not> sizeQ \<le> sizeD" "\<not> sizeU \<le> sizeD"
  "min sizeT sizeS = sizeT" "min 30000 sizeR = sizeR"
  by code_simp+

definition rounded_env :: "(rat, rat) book_env" where
  "rounded_env = demo_env\<lparr>be_f64 := rounded_ops\<rparr>"

abbreviation big_ask :: "(rat, rat) exch_order" where
  "big_ask \<equiv> demo_order ''ord-00000001'' Sell LimitOrder 10 sizeS ''alice''"

abbreviation small_bid :: "(rat, rat) exch_order" where
  "small_bid \<equiv> demo_order ''ord-00000002'' Buy LimitOrder 10 sizeT ''bob''"

abbreviation big_bid :: "(rat, rat) exch_order" where
  "big_bid \<equiv> demo_order ''ord-00000003'' Buy LimitOrder 10 30000 ''carol''"

definition rounded_book1 :: "(rat, rat) order_book" where
  "rounded_book1 = (order_book_new demo_config)\<lparr>ob_asks := [big_ask], ob_all := [''ord-00000001'' \<mapsto> big_ask], ob_counter := 1\<rparr>"

definition rounded_book2 :: "(rat, rat) order_book" where
  "rounded_book2 = rounded_book1\<lparr>ob_asks := [big_ask\<lparr>eo_filled := sizeT\<rparr>], ob_trades := [demo_trade\<lparr>td_size := sizeT\<rparr>],
     ob_all := [''ord-00000001'' \<mapsto> big_ask\<lparr>eo_filled := sizeT, eo_status := OrderPartial\<rparr>,
                ''ord-00000002'' \<mapsto> small_bid\<lparr>eo_filled := sizeT, eo_status := OrderFilled\<rparr>], ob_counter := 2\<rparr>"

abbreviation left_ask :: "(rat, rat) exch_order" where
  "left_ask \<equiv> big_ask\<lparr>eo_filled := sizeM\<rparr>"

abbreviation left_bid :: "(rat, rat) exch_order" where
  "left_bid \<equiv> big_bid\<lparr>eo_filled := sizeR, eo_status := OrderPartial\<rparr>"

definition crossed_book :: "(rat, rat) order_book" where
  "crossed_book = rounded_book2\<lparr>ob_asks := [left_ask], ob_bids := [left_bid],
     ob_trades := [demo_trade\<lparr>td_size := sizeT\<rparr>, demo_trade\<lparr>td_size := sizeR, td_taker := ''ord-00000003''\<rparr>],
     ob_all := (ob_all rounded_book2)(''ord-00000001'' \<mapsto> left_ask\<lparr>eo_status := OrderPartial\<rparr>, ''ord-00000003'' \<mapsto> left_bid),
     ob_counter := 3\<rparr>"

lemmas rounded_simps = add_order_def match_limit_def finish_match_def match_start_def opposite_def order_book_new_def
  rounded_env_def demo_env_def rounded_book1_def sort_asks_def sort_bids_def remaining_def DUST_def demo_order_def Let_def
  rounded_ops_simps rounded_sizes rounded_bounds fill_against_def beyond_limit_def demo_trade_def store_partial_def fl_zero_def

lemma rounded_add1:
  "add_order rounded_env big_ask ((order_book_new demo_config)\<lparr>ob_counter := 1\<rparr>) = Some ([], rounded_book1)"
  by (simp add: rounded_simps)

lemma rounded_add2:
  "add_order rounded_env small_bid (rounded_book1\<lparr>ob_counter := 2\<rparr>) = Some ([demo_trade\<lparr>td_size := sizeT\<rparr>], rounded_book2)"
  by (simp add: rounded_simps rounded_book2_def)

lemma rounded_loop3:
  "match_limit_loop rounded_env [big_ask\<lparr>eo_filled := sizeT\<rparr>] (match_start big_bid (rounded_book2\<lparr>ob_counter := 3\<rparr>)) =
    ([left_ask], \<lparr>ms_taker = big_bid\<lparr>eo_filled := sizeR\<rparr>, ms_fills = [demo_trade\<lparr>td_size := sizeR, td_taker := ''ord-00000003''\<rparr>],
       ms_trades = ob_trades crossed_book, ms_all = (ob_all rounded_book2)(''ord-00000001'' \<mapsto> left_ask\<lparr>eo_status := OrderPartial\<rparr>)\<rparr>)"
  by (simp add: rounded_simps rounded_book2_def crossed_book_def)

lemma rounded_add3:
  "\<exists>fills. add_order rounded_env big_bid (rounded_book2\<lparr>ob_counter := 3\<rparr>) = Some (fills, crossed_book)"
proof -
  have side: "eo_side big_bid = Buy" "eo_type big_bid = LimitOrder" by (simp_all add: demo_order_def)
  have asks: "opposite Buy (rounded_book2\<lparr>ob_counter := 3\<rparr>) = [big_ask\<lparr>eo_filled := sizeT\<rparr>]"
    by (simp add: opposite_def rounded_book2_def)
  have "match_limit rounded_env big_bid (rounded_book2\<lparr>ob_counter := 3\<rparr>) =
    ([demo_trade\<lparr>td_size := sizeR, td_taker := ''ord-00000003''\<rparr>], big_bid\<lparr>eo_filled := sizeR\<rparr>,
      rounded_book2\<lparr>ob_counter := 3, ob_trades := ob_trades crossed_book,
        ob_all := (ob_all rounded_book2)(''ord-00000001'' \<mapsto> left_ask\<lparr>eo_status := OrderPartial\<rparr>), ob_asks := [left_ask]\<rparr>)"
    unfolding match_limit_def side asks rounded_loop3
    by (simp add: finish_match_def rounded_env_def rounded_ops_simps remaining_def DUST_def demo_order_def rounded_sizes rounded_bounds)
  then show ?thesis
    by (simp add: add_order_def side)
      (simp add: rounded_env_def rounded_ops_simps remaining_def DUST_def fl_zero_def demo_order_def rounded_sizes rounded_bounds
        crossed_book_def rounded_book2_def rounded_book1_def order_book_new_def sort_bids_def Let_def fun_upd_twist)
qed

lemma rounded_steps: "book_steps rounded_env (order_book_new demo_config) crossed_book"
proof -
  have "book_step rounded_env (order_book_new demo_config) rounded_book1"
    by (rule book_step.place [where ord = big_ask, OF _ _ _ rounded_add1])
      (simp_all add: next_order_id_def order_book_new_def order_names demo_order_def)
  moreover have "book_step rounded_env rounded_book1 rounded_book2"
    by (rule book_step.place [where ord = small_bid, OF _ _ _ rounded_add2])
      (simp_all add: next_order_id_def rounded_book1_def order_names demo_order_def)
  moreover obtain fills where "add_order rounded_env big_bid (rounded_book2\<lparr>ob_counter := 3\<rparr>) = Some (fills, crossed_book)"
    using rounded_add3 by blast
  then have "book_step rounded_env rounded_book2 crossed_book"
    by (rule book_step.place [where ord = big_bid, rotated 3])
      (simp_all add: next_order_id_def rounded_book2_def order_names demo_order_def)
  ultimately show ?thesis unfolding book_steps_def
    by (meson rtranclp.rtrancl_refl rtranclp.rtrancl_into_rtrancl)
qed

lemma rounded_fills_do_not_settle: "\<not> fills_settle rounded_ops"
proof
  assume "fills_settle rounded_ops"
  then have "let x = fl_min rounded_ops (fl_sub rounded_ops 30000 0) (fl_sub rounded_ops sizeS sizeT)
      in fl_lt rounded_ops (DUST rounded_ops) (fl_sub rounded_ops 30000 (fl_add rounded_ops 0 x)) \<longrightarrow>
        fl_le rounded_ops (fl_sub rounded_ops sizeS (fl_add rounded_ops sizeT x)) (DUST rounded_ops)"
    unfolding fills_settle_def by blast
  then show False by (simp add: rounded_ops_simps DUST_def rounded_sizes rounded_bounds)
qed

lemma crossed_orders_have_traded_witness:
  "\<exists>t \<in> set (ob_trades crossed_book). {td_maker t, td_taker t} = {''ord-00000003'', ''ord-00000001''}"
proof -
  have "left_bid \<in> set (ob_bids crossed_book)" "left_ask \<in> set (ob_asks crossed_book)"
    "eo_price left_ask \<le> eo_price left_bid" "fl_consistent (be_f64 rounded_env)"
    "eo_id left_bid = ''ord-00000003''" "eo_id left_ask = ''ord-00000001''"
    by (simp_all add: crossed_book_def demo_order_def rounded_env_def rounded_consistent)
  then show ?thesis using crossed_orders_have_traded [OF rounded_steps, of left_bid left_ask] by simp
qed

end
