(* ===== verification/Exchange.thy ===== *)
theory Exchange
  imports OrderBook
begin

text \<open>
  The exchange engine around the order books: the synthetic assets with their collateral
  (\<open>qbc-exchange/src/synthetic.rs\<close>) and the handlers of the service that change its state
  (\<open>service.rs\<close>): orders, cancellations, deposits, withdrawals, minting and burning. A request
  runs under the write lock of the whole state and is one step. The oracle prices, the clock and
  the gRPC transport are parameters; error texts are replaced by constructors, queries are left
  out.
\<close>

section \<open>Synthetic assets\<close>

record synthetic_asset =
  sa_symbol :: string
  sa_name :: string
  sa_coingecko_id :: string
  sa_decimals :: u8

record 'f collateral_position =
  cp_address :: string
  cp_symbol :: string
  cp_synthetic_amount :: 'f
  cp_collateral_locked :: 'f

definition collateral_ratio :: "'f f64_ops \<Rightarrow> 'f \<Rightarrow> 'f \<Rightarrow> 'f collateral_position \<Rightarrow> 'f" where
  "collateral_ratio F f64_max price pos =
     (if fl_le F (cp_synthetic_amount pos) (fl_zero F) \<or> fl_le F price (fl_zero F) then f64_max
      else fl_div F (cp_collateral_locked pos) (fl_mul F (cp_synthetic_amount pos) price))"

definition liquidation_price :: "'f f64_ops \<Rightarrow> 'f \<Rightarrow> 'f collateral_position \<Rightarrow> 'f" where
  "liquidation_price F min_ratio pos =
     (if fl_le F (cp_synthetic_amount pos) (fl_zero F) then fl_zero F
      else fl_div F (cp_collateral_locked pos) (fl_mul F (cp_synthetic_amount pos) min_ratio))"

record 'f synthetic_manager =
  sm_assets :: "string \<rightharpoonup> synthetic_asset"
  sm_positions :: "string \<times> string \<rightharpoonup> 'f collateral_position"
  sm_total_supply :: "string \<rightharpoonup> 'f"
  sm_total_collateral :: "string \<rightharpoonup> 'f"
  sm_min_collateral_ratio :: 'f
  sm_liquidation_ratio :: 'f
  sm_fee_rate :: 'f

definition synthetic_manager_new :: "'f f64_ops \<Rightarrow> synthetic_asset list \<Rightarrow> 'f synthetic_manager" where
  "synthetic_manager_new F assets =
     \<lparr>sm_assets = fold (\<lambda>a m. m(sa_symbol a \<mapsto> a)) assets Map.empty,
      sm_positions = Map.empty, sm_total_supply = Map.empty, sm_total_collateral = Map.empty,
      sm_min_collateral_ratio = fl_lit F 15 1, sm_liquidation_ratio = fl_lit F 11 1, sm_fee_rate = fl_lit F 3 3\<rparr>"

datatype synthetic_error =
    UnknownSynthetic | NoOraclePrice | AmountNotPositive | MintTooSmall | NoPosition | InsufficientSynthetic

definition or_default :: "'f f64_ops \<Rightarrow> ('k \<rightharpoonup> 'f) \<Rightarrow> 'k \<Rightarrow> 'f" where
  "or_default F m k = (case m k of None \<Rightarrow> fl_zero F | Some x \<Rightarrow> x)"

definition mint_synthetic ::
  "'f f64_ops \<Rightarrow> string \<Rightarrow> string \<Rightarrow> 'f \<Rightarrow> 'f \<Rightarrow> 'f synthetic_manager \<Rightarrow>
   (synthetic_error + 'f \<times> 'f \<times> 'f) \<times> 'f synthetic_manager" where
  "mint_synthetic F address symbol qusd price m =
     (if sm_assets m symbol = None then (Inl UnknownSynthetic, m)
      else if fl_le F price (fl_zero F) then (Inl NoOraclePrice, m)
      else if fl_le F qusd (fl_zero F) then (Inl AmountNotPositive, m)
      else
        (let effective = fl_div F qusd (sm_min_collateral_ratio m);
             fee = fl_mul F effective (sm_fee_rate m);
             minted = fl_div F (fl_sub F effective fee) price
         in if fl_le F minted (fl_zero F) then (Inl MintTooSmall, m)
            else
              (let pos = (case sm_positions m (address, symbol) of Some p \<Rightarrow> p
                     | None \<Rightarrow> \<lparr>cp_address = address, cp_symbol = symbol,
                                cp_synthetic_amount = fl_zero F, cp_collateral_locked = fl_zero F\<rparr>);
                   pos' = pos\<lparr>cp_synthetic_amount := fl_add F (cp_synthetic_amount pos) minted,
                              cp_collateral_locked := fl_add F (cp_collateral_locked pos) qusd\<rparr>
               in (Inr (minted, qusd, fee),
                   m\<lparr>sm_positions := (sm_positions m)((address, symbol) \<mapsto> pos'),
                     sm_total_supply := (sm_total_supply m)(symbol \<mapsto> fl_add F (or_default F (sm_total_supply m) symbol) minted),
                     sm_total_collateral := (sm_total_collateral m)(symbol \<mapsto> fl_add F (or_default F (sm_total_collateral m) symbol) qusd)\<rparr>))))"

definition burn_synthetic ::
  "'f f64_ops \<Rightarrow> string \<Rightarrow> string \<Rightarrow> 'f \<Rightarrow> 'f \<Rightarrow> 'f synthetic_manager \<Rightarrow>
   (synthetic_error + 'f \<times> 'f) \<times> 'f synthetic_manager" where
  "burn_synthetic F address symbol amount price m =
     (if sm_assets m symbol = None then (Inl UnknownSynthetic, m)
      else if fl_le F price (fl_zero F) then (Inl NoOraclePrice, m)
      else if fl_le F amount (fl_zero F) then (Inl AmountNotPositive, m)
      else (case sm_positions m (address, symbol) of
        None \<Rightarrow> (Inl NoPosition, m)
      | Some pos \<Rightarrow>
          if fl_lt F (cp_synthetic_amount pos) (fl_sub F amount (DUST F)) then (Inl InsufficientSynthetic, m)
          else
            (let proportion = fl_div F amount (cp_synthetic_amount pos);
                 returned = fl_mul F (cp_collateral_locked pos) proportion;
                 fee = fl_mul F returned (sm_fee_rate m);
                 pos' = pos\<lparr>cp_synthetic_amount := fl_sub F (cp_synthetic_amount pos) amount,
                            cp_collateral_locked := fl_sub F (cp_collateral_locked pos) returned\<rparr>;
                 positions = (if fl_lt F (cp_synthetic_amount pos') (DUST F)
                     then (sm_positions m)((address, symbol) := None)
                     else (sm_positions m)((address, symbol) \<mapsto> pos'))
             in (Inr (fl_sub F returned fee, fee),
                 m\<lparr>sm_positions := positions,
                   sm_total_supply := (sm_total_supply m)(symbol \<mapsto> fl_sub F (or_default F (sm_total_supply m) symbol) amount),
                   sm_total_collateral := (sm_total_collateral m)(symbol \<mapsto> fl_sub F (or_default F (sm_total_collateral m) symbol) returned)\<rparr>))))"

text \<open>The loop over the positions; \<open>keys\<close> are their keys in the order of iteration.\<close>

fun liquidate_keys ::
  "'f f64_ops \<Rightarrow> 'f \<Rightarrow> (string \<rightharpoonup> 'f) \<Rightarrow> (string \<times> string) list \<Rightarrow> 'f synthetic_manager \<Rightarrow>
   (string \<times> string \<times> 'f) list \<times> 'f synthetic_manager" where
  "liquidate_keys F f64_max prices [] m = ([], m)"
| "liquidate_keys F f64_max prices ((addr, sy) # keys) m =
     (case sm_assets m sy of
        None \<Rightarrow> liquidate_keys F f64_max prices keys m
      | Some asset \<Rightarrow>
          (case prices (sa_coingecko_id asset) of
             None \<Rightarrow> liquidate_keys F f64_max prices keys m
           | Some price \<Rightarrow>
               if \<not> fl_lt F (fl_zero F) price then liquidate_keys F f64_max prices keys m
               else (case sm_positions m (addr, sy) of
                   None \<Rightarrow> liquidate_keys F f64_max prices keys m
                 | Some pos \<Rightarrow>
                     if fl_lt F (collateral_ratio F f64_max price pos) (sm_liquidation_ratio m)
                     then
                       (let m' = m\<lparr>sm_total_supply := (sm_total_supply m)(sy \<mapsto>
                                    fl_sub F (or_default F (sm_total_supply m) sy) (cp_synthetic_amount pos)),
                                  sm_total_collateral := (sm_total_collateral m)(sy \<mapsto>
                                    fl_sub F (or_default F (sm_total_collateral m) sy) (cp_collateral_locked pos)),
                                  sm_positions := (sm_positions m)((addr, sy) := None)\<rparr>;
                            (liquidated, m'') = liquidate_keys F f64_max prices keys m'
                        in ((addr, sy, cp_synthetic_amount pos) # liquidated, m''))
                     else liquidate_keys F f64_max prices keys m)))"

definition check_liquidations ::
  "'f f64_ops \<Rightarrow> 'f \<Rightarrow> (string \<times> string) list \<Rightarrow> (string \<rightharpoonup> 'f) \<Rightarrow> 'f synthetic_manager \<Rightarrow>
   (string \<times> string \<times> 'f) list \<times> 'f synthetic_manager" where
  "check_liquidations F f64_max keys prices m = liquidate_keys F f64_max prices keys m"

section \<open>The service\<close>

type_synonym 'f balances = "string \<rightharpoonup> (string \<rightharpoonup> 'f)"

record ('p, 'f) exchange_state =
  es_books :: "string \<rightharpoonup> ('p, 'f) order_book"
  es_balances :: "'f balances"
  es_synthetic :: "'f synthetic_manager"
  es_symbol_to_cg :: "string \<rightharpoonup> string"
  es_start_time :: u64

definition normalize_pair :: "string \<Rightarrow> string" where
  "normalize_pair pair =
     (if CHR ''/'' \<notin> set pair \<and> CHR ''-'' \<in> set pair
      then takeWhile (\<lambda>c. c \<noteq> CHR ''-'') pair @ CHR ''/'' # tl (dropWhile (\<lambda>c. c \<noteq> CHR ''-'') pair)
      else pair)"

text \<open>The balances of a user, and a balance; both are empty and zero where there is no entry.\<close>

definition user_balances :: "'f balances \<Rightarrow> string \<Rightarrow> string \<rightharpoonup> 'f" where
  "user_balances bs a = (case bs a of None \<Rightarrow> Map.empty | Some m \<Rightarrow> m)"

definition balance_of_asset :: "'f f64_ops \<Rightarrow> 'f balances \<Rightarrow> string \<Rightarrow> string \<Rightarrow> 'f" where
  "balance_of_asset F bs a x = or_default F (user_balances bs a) x"

definition set_balance :: "string \<Rightarrow> string \<Rightarrow> 'f \<Rightarrow> 'f balances \<Rightarrow> 'f balances" where
  "set_balance a x v bs = bs(a \<mapsto> (user_balances bs a)(x \<mapsto> v))"

datatype exchange_error =
    UnknownPair | MinOrderSize | InsufficientBalance | AmountMustBePositive
  | SyntheticFailed synthetic_error

record ('p, 'f) place_request =
  pr_pair :: string
  pr_side :: i64
  pr_order_type :: i64
  pr_price :: 'p
  pr_size :: 'f
  pr_address :: string

text \<open>The balances are not touched when a fill is settled.\<close>

definition settle_fill :: "'f market_config \<Rightarrow> 'f trade \<Rightarrow> 'f balances \<Rightarrow> 'f balances" where
  "settle_fill config fill bs = bs"

text \<open>\<open>None\<close> stands for a matching loop that does not end.\<close>

definition place_order ::
  "('p::linorder, 'f) book_env \<Rightarrow> u64 \<Rightarrow> ('p, 'f) place_request \<Rightarrow> ('p, 'f) exchange_state \<Rightarrow>
   ((exchange_error + ('p, 'f) exch_order \<times> 'f trade list) \<times> ('p, 'f) exchange_state) option" where
  "place_order X now req s =
     (let F = be_f64 X; pair = normalize_pair (pr_pair req) in
      case es_books s pair of
        None \<Rightarrow> Some (Inl UnknownPair, s)
      | Some book \<Rightarrow>
          (let sd = (if pr_side req = 0 then Buy else Sell);
               ty = (if pr_order_type req = 0 then LimitOrder else MarketOrder)
           in if fl_lt F (pr_size req) (mc_min_order (ob_config book)) then Some (Inl MinOrderSize, s)
              else
                (let checks = pr_address req \<noteq> [] \<and> ty = LimitOrder;
                     s1 = (if checks then s\<lparr>es_balances := (es_balances s)(pr_address req \<mapsto> user_balances (es_balances s) (pr_address req))\<rparr> else s);
                     required = (case sd of
                         Buy \<Rightarrow> (mc_quote (ob_config book), fl_mul F (be_inner X (pr_price req)) (pr_size req))
                       | Sell \<Rightarrow> (mc_base (ob_config book), pr_size req))
                 in if checks \<and> fl_lt F (balance_of_asset F (es_balances s1) (pr_address req) (fst required)) (snd required)
                    then Some (Inl InsufficientBalance, s1)
                    else
                      (let (order_id, book1) = next_order_id book;
                           ord = \<lparr>eo_id = order_id, eo_pair = pair, eo_side = sd, eo_type = ty, eo_price = pr_price req,
                                  eo_size = pr_size req, eo_filled = fl_zero F, eo_address = pr_address req,
                                  eo_timestamp = now, eo_status = OrderOpen\<rparr>
                       in case add_order X ord book1 of
                            None \<Rightarrow> None
                          | Some (fills, book2) \<Rightarrow>
                              (let final = (case ob_all book2 order_id of Some c \<Rightarrow> c | None \<Rightarrow> ord)
                               in Some (Inr (final, fills),
                                    s1\<lparr>es_books := (es_books s1)(pair \<mapsto> book2),
                                       es_balances := fold (settle_fill (ob_config book2)) fills (es_balances s1)\<rparr>))))))"

text \<open>A pair that is not known is looked for in all books, in the order of iteration.\<close>

fun cancel_in_books :: "string \<Rightarrow> string \<Rightarrow> string list \<Rightarrow> (string \<rightharpoonup> ('p, 'f) order_book) \<Rightarrow> bool \<times> (string \<rightharpoonup> ('p, 'f) order_book)" where
  "cancel_in_books i a [] books = (False, books)"
| "cancel_in_books i a (pair # pairs) books =
     (case books pair of
        None \<Rightarrow> cancel_in_books i a pairs books
      | Some book \<Rightarrow>
          (case cancel_order i a book of
             (True, book') \<Rightarrow> (True, books(pair \<mapsto> book'))
           | (False, book') \<Rightarrow> cancel_in_books i a pairs (books(pair \<mapsto> book'))))"

definition cancel_request ::
  "string list \<Rightarrow> string \<Rightarrow> string \<Rightarrow> string \<Rightarrow> ('p, 'f) exchange_state \<Rightarrow> bool \<times> ('p, 'f) exchange_state" where
  "cancel_request iter pair order_id address s =
     (case es_books s (normalize_pair pair) of
        Some book \<Rightarrow> (let (ok, book') = cancel_order order_id address book
                      in (ok, s\<lparr>es_books := (es_books s)(normalize_pair pair \<mapsto> book')\<rparr>))
      | None \<Rightarrow> (let (ok, books) = cancel_in_books order_id address iter (es_books s) in (ok, s\<lparr>es_books := books\<rparr>)))"

definition deposit ::
  "'f f64_ops \<Rightarrow> string \<Rightarrow> string \<Rightarrow> 'f \<Rightarrow> ('p, 'f) exchange_state \<Rightarrow> (exchange_error + 'f) \<times> ('p, 'f) exchange_state" where
  "deposit F address asset amount s =
     (if fl_le F amount (fl_zero F) then (Inl AmountMustBePositive, s)
      else (let bal = fl_add F (balance_of_asset F (es_balances s) address asset) amount
            in (Inr bal, s\<lparr>es_balances := set_balance address asset bal (es_balances s)\<rparr>)))"

definition withdraw ::
  "'f f64_ops \<Rightarrow> string \<Rightarrow> string \<Rightarrow> 'f \<Rightarrow> ('p, 'f) exchange_state \<Rightarrow> (exchange_error + 'f) \<times> ('p, 'f) exchange_state" where
  "withdraw F address asset amount s =
     (if fl_le F amount (fl_zero F) then (Inl AmountMustBePositive, s)
      else
        (let bal = balance_of_asset F (es_balances s) address asset;
             s1 = s\<lparr>es_balances := set_balance address asset bal (es_balances s)\<rparr>
         in if fl_lt F bal amount then (Inl InsufficientBalance, s1)
            else (Inr (fl_sub F bal amount), s1\<lparr>es_balances := set_balance address asset (fl_sub F bal amount) (es_balances s1)\<rparr>)))"

definition oracle_price :: "'f f64_ops \<Rightarrow> (string \<rightharpoonup> 'f) \<Rightarrow> string \<Rightarrow> ('p, 'f) exchange_state \<Rightarrow> 'f" where
  "oracle_price F prices symbol s =
     (case es_symbol_to_cg s symbol of None \<Rightarrow> fl_zero F | Some cg \<Rightarrow> or_default F prices cg)"

definition mint_request ::
  "'f f64_ops \<Rightarrow> (string \<rightharpoonup> 'f) \<Rightarrow> string \<Rightarrow> string \<Rightarrow> 'f \<Rightarrow> ('p, 'f) exchange_state \<Rightarrow>
   (exchange_error + 'f \<times> 'f) \<times> ('p, 'f) exchange_state" where
  "mint_request F prices address symbol qusd s =
     (let price = oracle_price F prices symbol s;
          bal = balance_of_asset F (es_balances s) address ''QUSD'';
          s1 = s\<lparr>es_balances := set_balance address ''QUSD'' bal (es_balances s)\<rparr>
      in if fl_lt F bal qusd then (Inl InsufficientBalance, s1)
         else (case mint_synthetic F address symbol qusd price (es_synthetic s1) of
             (Inl e, m) \<Rightarrow> (Inl (SyntheticFailed e), s1\<lparr>es_synthetic := m\<rparr>)
           | (Inr (minted, collateral, fee), m) \<Rightarrow>
               (let bs1 = set_balance address ''QUSD'' (fl_sub F bal collateral) (es_balances s1);
                    bs2 = set_balance address symbol (fl_add F (balance_of_asset F bs1 address symbol) minted) bs1
                in (Inr (minted, collateral), s1\<lparr>es_synthetic := m, es_balances := bs2\<rparr>))))"

definition burn_request ::
  "'f f64_ops \<Rightarrow> (string \<rightharpoonup> 'f) \<Rightarrow> string \<Rightarrow> string \<Rightarrow> 'f \<Rightarrow> ('p, 'f) exchange_state \<Rightarrow>
   (exchange_error + 'f \<times> 'f) \<times> ('p, 'f) exchange_state" where
  "burn_request F prices address symbol amount s =
     (let price = oracle_price F prices symbol s;
          bal = balance_of_asset F (es_balances s) address symbol;
          s1 = s\<lparr>es_balances := set_balance address symbol bal (es_balances s)\<rparr>
      in if fl_lt F bal amount then (Inl InsufficientBalance, s1)
         else (case burn_synthetic F address symbol amount price (es_synthetic s1) of
             (Inl e, m) \<Rightarrow> (Inl (SyntheticFailed e), s1\<lparr>es_synthetic := m\<rparr>)
           | (Inr (returned, fee), m) \<Rightarrow>
               (let bs1 = set_balance address symbol (fl_sub F bal amount) (es_balances s1);
                    bs2 = set_balance address ''QUSD'' (fl_add F (balance_of_asset F bs1 address ''QUSD'') returned) bs1
                in (Inr (returned, fee), s1\<lparr>es_synthetic := m, es_balances := bs2\<rparr>))))"


section \<open>Orders reserve nothing\<close>

lemma fold_settle [simp]: "fold (settle_fill config) fills bs = bs"
  by (induction fills) (simp_all add: settle_fill_def)

lemma user_balances_touch [simp]:
  "user_balances (bs(a \<mapsto> user_balances bs a)) b = user_balances bs b"
  by (simp add: user_balances_def)

lemma balance_touch [simp]: "balance_of_asset F (bs(a \<mapsto> user_balances bs a)) b x = balance_of_asset F bs b x"
  by (simp add: balance_of_asset_def)

lemma balance_set [simp]:
  "balance_of_asset F (set_balance a x v bs) b y = (if b = a \<and> y = x then v else balance_of_asset F bs b y)"
  by (simp add: balance_of_asset_def set_balance_def user_balances_def or_default_def)

lemma add_order_config: "add_order X ord b = Some (fills, b') \<Longrightarrow> ob_config b' = ob_config b"
  by (erule add_order_cases)

text \<open>The checks of \<open>place_order\<close> that come before an order is made.\<close>

definition funds_suffice ::
  "('p::linorder, 'f) book_env \<Rightarrow> ('p, 'f) place_request \<Rightarrow> ('p, 'f) exchange_state \<Rightarrow> bool" where
  "funds_suffice X req s \<longleftrightarrow> (case es_books s (normalize_pair (pr_pair req)) of
      None \<Rightarrow> False
    | Some book \<Rightarrow>
        \<not> fl_lt (be_f64 X) (pr_size req) (mc_min_order (ob_config book)) \<and>
        (pr_address req \<noteq> [] \<and> pr_order_type req = 0 \<longrightarrow>
          (let (asset, amount) = (if pr_side req = 0
              then (mc_quote (ob_config book), fl_mul (be_f64 X) (be_inner X (pr_price req)) (pr_size req))
              else (mc_base (ob_config book), pr_size req))
           in \<not> fl_lt (be_f64 X) (balance_of_asset (be_f64 X) (es_balances s) (pr_address req) asset) amount)))"

lemma place_order_refused:
  assumes "place_order X now req s = Some (Inl e, s')"
  shows "\<not> funds_suffice X req s"
  using assms by (auto simp: place_order_def funds_suffice_def Let_def split: option.splits if_splits prod.splits)

lemma place_order_cases:
  assumes "place_order X now req s = Some (r, s')"
  obtains (refused) e where "r = Inl e" "\<not> funds_suffice X req s" "es_books s' = es_books s"
      "es_synthetic s' = es_synthetic s" "\<And>a x. balance_of_asset F (es_balances s') a x = balance_of_asset F (es_balances s) a x"
  | (placed) book ord fills book' where "r = Inr (ord, fills)" "funds_suffice X req s"
      "es_books s (normalize_pair (pr_pair req)) = Some book" "ob_config book' = ob_config book"
      "es_books s' = (es_books s)(normalize_pair (pr_pair req) \<mapsto> book')"
      "es_synthetic s' = es_synthetic s" "\<And>a x. balance_of_asset F (es_balances s') a x = balance_of_asset F (es_balances s) a x"
proof (cases r)
  case (Inl e)
  have "es_books s' = es_books s \<and> es_synthetic s' = es_synthetic s \<and>
     (\<forall>a x. balance_of_asset F (es_balances s') a x = balance_of_asset F (es_balances s) a x)"
    using assms Inl by (auto simp: place_order_def Let_def split: option.splits if_splits prod.splits)
  then show thesis using refused [OF Inl place_order_refused [OF assms [unfolded Inl]]] by simp
next
  case (Inr p)
  obtain book where book: "es_books s (normalize_pair (pr_pair req)) = Some book"
    using assms Inr by (auto simp: place_order_def Let_def split: option.splits)
  obtain ord fills book' book1 ord0 where "p = (ord, fills)" "add_order X ord0 book1 = Some (fills, book')"
    "ob_config book1 = ob_config book"
    "es_books s' = (es_books s)(normalize_pair (pr_pair req) \<mapsto> book')"
    "es_synthetic s' = es_synthetic s" "\<forall>a x. balance_of_asset F (es_balances s') a x = balance_of_asset F (es_balances s) a x"
    using assms Inr book
    by (auto simp: place_order_def Let_def next_order_id_def split: option.splits if_splits prod.splits)
  moreover have "funds_suffice X req s"
    using assms Inr book
    by (auto simp: place_order_def funds_suffice_def Let_def split: option.splits if_splits prod.splits)
  ultimately show thesis using placed [of ord fills book book'] Inr book add_order_config by fastforce
qed


lemma place_order_balances:
  assumes "place_order X now req s = Some (r, s')"
  shows "balance_of_asset F (es_balances s') a x = balance_of_asset F (es_balances s) a x"
  by (rule place_order_cases [OF assms, of F]) simp_all

text \<open>
  Orders reserve nothing. A request that was answered with an order is answered with an order
  again, as often as it is repeated, and all balances stay what they were: the same funds back
  any number of orders, and settling a trade moves nothing.
\<close>

theorem same_funds_back_every_order:
  assumes "place_order X now req s = Some (Inr placed, s')"
  shows "(\<forall>a x. balance_of_asset F (es_balances s') a x = balance_of_asset F (es_balances s) a x) \<and>
    (\<forall>now' r s''. place_order X now' req s' = Some (r, s'') \<longrightarrow> (\<exists>placed'. r = Inr placed'))"
proof -
  obtain book book' where p: "funds_suffice X req s" "es_books s (normalize_pair (pr_pair req)) = Some book"
    "ob_config book' = ob_config book" "es_books s' = (es_books s)(normalize_pair (pr_pair req) \<mapsto> book')"
    and b: "\<And>a x. balance_of_asset F (es_balances s') a x = balance_of_asset F (es_balances s) a x"
    by (rule place_order_cases [OF assms, of F]) (simp, blast)
  have "funds_suffice X req s'" using p place_order_balances [OF assms] by (simp add: funds_suffice_def split: if_splits)
  then have "\<exists>placed'. r = Inr placed'" if "place_order X now' req s' = Some (r, s'')" for now' r s''
    using place_order_refused [of X now' req s' _ s''] that by (cases r) auto
  then show ?thesis using b by blast
qed

section \<open>Funds are never negative\<close>

text \<open>The requests that change the state; oracle prices and orders of iteration are arbitrary.\<close>

inductive exch_step :: "('p::linorder, 'f) book_env \<Rightarrow> ('p, 'f) exchange_state \<Rightarrow> ('p, 'f) exchange_state \<Rightarrow> bool"
  for X :: "('p::linorder, 'f) book_env" where
  order: "place_order X now req s = Some (r, s') \<Longrightarrow> exch_step X s s'"
| cancelled: "cancel_request iter pair i a s = (ok, s') \<Longrightarrow> exch_step X s s'"
| deposited: "deposit (be_f64 X) a x amount s = (r, s') \<Longrightarrow> exch_step X s s'"
| withdrawn: "withdraw (be_f64 X) a x amount s = (r, s') \<Longrightarrow> exch_step X s s'"
| minted: "mint_request (be_f64 X) prices a x amount s = (r, s') \<Longrightarrow> exch_step X s s'"
| burned: "burn_request (be_f64 X) prices a x amount s = (r, s') \<Longrightarrow> exch_step X s s'"

text \<open>
  What is used of the signs of \<open>f64\<close>, for all values, infinities and \<open>NaN\<close> included: a comparison with
  \<open>NaN\<close> is false, so the laws say what is not below zero (not at most zero) instead of what is
  above. Rounding to the nearest is monotonic and keeps the numbers it can represent, so a sum, a
  product and a quotient have the sign of the exact one or are zero, a difference is below zero
  only if the first number is the smaller one, and a share of at most one is at most the whole.
\<close>

locale signed_floats =
  fixes F :: "'f f64_ops"
  assumes zero_nonneg: "\<not> fl_lt F (fl_zero F) (fl_zero F)"
    and add_nonneg: "\<not> fl_lt F x (fl_zero F) \<Longrightarrow> \<not> fl_lt F y (fl_zero F) \<Longrightarrow> \<not> fl_lt F (fl_add F x y) (fl_zero F)"
    and add_pos: "\<not> fl_lt F x (fl_zero F) \<Longrightarrow> \<not> fl_le F y (fl_zero F) \<Longrightarrow> \<not> fl_le F (fl_add F x y) (fl_zero F)"
    and sub_nonneg: "\<not> fl_lt F x y \<Longrightarrow> \<not> fl_lt F (fl_sub F x y) (fl_zero F)"
    and mul_nonneg: "\<not> fl_lt F x (fl_zero F) \<Longrightarrow> \<not> fl_lt F y (fl_zero F) \<Longrightarrow> \<not> fl_lt F (fl_mul F x y) (fl_zero F)"
    and div_nonneg: "\<not> fl_le F x (fl_zero F) \<Longrightarrow> \<not> fl_le F y (fl_zero F) \<Longrightarrow> \<not> fl_lt F (fl_div F x y) (fl_zero F)"
    and share_at_most: "\<not> fl_lt F x (fl_zero F) \<Longrightarrow> \<not> fl_lt F p (fl_zero F) \<Longrightarrow> \<not> fl_lt F (fl_lit F 10 1) p \<Longrightarrow>
      \<not> fl_lt F x (fl_mul F x p)"
    and part_at_most: "\<not> fl_le F x (fl_zero F) \<Longrightarrow> \<not> fl_le F y (fl_zero F) \<Longrightarrow> \<not> fl_lt F (fl_sub F y x) (DUST F) \<Longrightarrow>
      \<not> fl_lt F (fl_lit F 10 1) (fl_div F x y)"
    and dust_pos: "\<not> fl_lt F x (DUST F) \<Longrightarrow> \<not> fl_le F x (fl_zero F)"
    and fee_share: "\<not> fl_lt F (fl_lit F 3 3) (fl_zero F)" "\<not> fl_lt F (fl_lit F 10 1) (fl_lit F 3 3)"
begin

abbreviation nonneg :: "'f \<Rightarrow> bool" where
  "nonneg x \<equiv> \<not> fl_lt F x (fl_zero F)"

abbreviation pos :: "'f \<Rightarrow> bool" where
  "pos x \<equiv> \<not> fl_le F x (fl_zero F)"

lemma pos_nonneg: "pos x \<Longrightarrow> nonneg x"
  by (simp add: fl_le_def)

text \<open>The part of a position that a burn takes out, and what it leaves.\<close>

lemma burned_part:
  assumes "pos amount" and "pos whole" and "nonneg locked"
  defines "returned \<equiv> fl_mul F locked (fl_div F amount whole)"
  shows "nonneg returned"
    and "\<not> fl_lt F (fl_sub F whole amount) (DUST F) \<Longrightarrow> nonneg (fl_sub F locked returned)"
proof -
  have p: "nonneg (fl_div F amount whole)" by (rule div_nonneg [OF assms(1,2)])
  show "nonneg returned" unfolding returned_def by (rule mul_nonneg [OF assms(3) p])
  show "nonneg (fl_sub F locked returned)" if "\<not> fl_lt F (fl_sub F whole amount) (DUST F)"
    unfolding returned_def by (rule sub_nonneg [OF share_at_most [OF assms(3) p part_at_most [OF assms(1,2) that]]])
qed

end

interpretation exact_signs: signed_floats exact_ops
proof
  fix x y :: rat
  show "\<not> fl_lt exact_ops x (fl_mul exact_ops x p)"
    if "\<not> fl_lt exact_ops x (fl_zero exact_ops)" "\<not> fl_lt exact_ops p (fl_zero exact_ops)" "\<not> fl_lt exact_ops (fl_lit exact_ops 10 1) p"
    for p using that by (simp add: not_less mult_left_le)
qed (simp_all add: not_less not_le DUST_def field_simps)

interpretation nan_signs: signed_floats nan_ops
proof
  fix x y :: "rat option"
  show "\<not> fl_lt nan_ops x (fl_mul nan_ops x p)"
    if "\<not> fl_lt nan_ops x (fl_zero nan_ops)" "\<not> fl_lt nan_ops p (fl_zero nan_ops)" "\<not> fl_lt nan_ops (fl_lit nan_ops 10 1) p"
    for p using that by (cases x; cases p) (simp_all add: not_less mult_left_le)
  show "\<not> fl_lt nan_ops (fl_div nan_ops x y) (fl_zero nan_ops)"
    if "\<not> fl_le nan_ops x (fl_zero nan_ops)" "\<not> fl_le nan_ops y (fl_zero nan_ops)"
    using that by (cases x; cases y) (simp_all add: not_less)
  show "\<not> fl_lt nan_ops (fl_lit nan_ops 10 1) (fl_div nan_ops x y)"
    if "\<not> fl_le nan_ops x (fl_zero nan_ops)" "\<not> fl_le nan_ops y (fl_zero nan_ops)"
      "\<not> fl_lt nan_ops (fl_sub nan_ops y x) (DUST nan_ops)"
    using that by (cases x; cases y) (auto simp: not_less DUST_def divide_le_eq_1)
qed (auto simp: nan_ops_def fl_le_def fl_zero_def DUST_def not_less not_le split: option.splits Option.bind_splits)

definition positions_signed :: "'f f64_ops \<Rightarrow> 'f synthetic_manager \<Rightarrow> bool" where
  "positions_signed F m \<longleftrightarrow>
     \<not> fl_lt F (sm_fee_rate m) (fl_zero F) \<and> \<not> fl_lt F (fl_lit F 10 1) (sm_fee_rate m) \<and>
     (\<forall>k p. sm_positions m k = Some p \<longrightarrow>
        \<not> fl_le F (cp_synthetic_amount p) (fl_zero F) \<and> \<not> fl_lt F (cp_collateral_locked p) (fl_zero F))"

definition funds_ok :: "'f f64_ops \<Rightarrow> ('p, 'f) exchange_state \<Rightarrow> bool" where
  "funds_ok F s \<longleftrightarrow> (\<forall>a x. \<not> fl_lt F (balance_of_asset F (es_balances s) a x) (fl_zero F)) \<and>
     positions_signed F (es_synthetic s)"

context signed_floats
begin

lemma mint_signed:
  assumes "positions_signed F m" and "mint_synthetic F a x q p m = (r, m')"
  shows "positions_signed F m' \<and> (\<forall>minted coll fee. r = Inr (minted, coll, fee) \<longrightarrow> pos minted \<and> coll = q)"
proof (cases r)
  case (Inl e)
  then show ?thesis using assms by (auto simp: mint_synthetic_def Let_def split: if_splits option.splits)
next
  case (Inr y)
  obtain minted fee o1 where y: "r = Inr (minted, q, fee)" "pos q" "pos minted"
    and o1: "nonneg (cp_synthetic_amount o1)" "nonneg (cp_collateral_locked o1)"
    and m': "sm_fee_rate m' = sm_fee_rate m"
      "sm_positions m' = (sm_positions m)((a, x) \<mapsto> o1\<lparr>cp_synthetic_amount := fl_add F (cp_synthetic_amount o1) minted,
         cp_collateral_locked := fl_add F (cp_collateral_locked o1) q\<rparr>)"
  proof (cases "sm_positions m (a, x)")
    case None
    then show thesis using assms Inr zero_nonneg that [of _ _ "\<lparr>cp_address = a, cp_symbol = x,
        cp_synthetic_amount = fl_zero F, cp_collateral_locked = fl_zero F\<rparr>"]
      by (auto simp: mint_synthetic_def Let_def split: if_splits)
  next
    case (Some o1)
    then have "pos (cp_synthetic_amount o1)" "nonneg (cp_collateral_locked o1)"
      using assms(1) by (auto simp: positions_signed_def)
    then show thesis using assms Inr Some that [of _ _ o1] pos_nonneg
      by (auto simp: mint_synthetic_def Let_def split: if_splits)
  qed
  have "pos (fl_add F (cp_synthetic_amount o1) minted)" "nonneg (fl_add F (cp_collateral_locked o1) q)"
    using o1 y add_pos add_nonneg pos_nonneg by blast+
  then show ?thesis using assms(1) m' y by (auto simp: positions_signed_def)
qed

lemma burn_signed:
  assumes "positions_signed F m" and "burn_synthetic F a x q p m = (r, m')"
  shows "positions_signed F m' \<and> (\<forall>ret fee. r = Inr (ret, fee) \<longrightarrow> nonneg ret)"
proof (cases r)
  case (Inl e)
  then show ?thesis using assms by (auto simp: burn_synthetic_def Let_def split: if_splits option.splits)
next
  case (Inr y)
  obtain o1 where o1: "sm_positions m (a, x) = Some o1" "pos q"
    and y: "y = (let returned = fl_mul F (cp_collateral_locked o1) (fl_div F q (cp_synthetic_amount o1))
        in (fl_sub F returned (fl_mul F returned (sm_fee_rate m)), fl_mul F returned (sm_fee_rate m)))"
    and m': "sm_fee_rate m' = sm_fee_rate m"
      "sm_positions m' = (if fl_lt F (fl_sub F (cp_synthetic_amount o1) q) (DUST F) then (sm_positions m)((a, x) := None)
         else (sm_positions m)((a, x) \<mapsto> o1\<lparr>cp_synthetic_amount := fl_sub F (cp_synthetic_amount o1) q,
           cp_collateral_locked := fl_sub F (cp_collateral_locked o1)
             (fl_mul F (cp_collateral_locked o1) (fl_div F q (cp_synthetic_amount o1)))\<rparr>))"
    using assms(2) Inr by (auto simp: burn_synthetic_def Let_def split: if_splits option.splits)
  let ?returned = "fl_mul F (cp_collateral_locked o1) (fl_div F q (cp_synthetic_amount o1))"
  have P: "pos (cp_synthetic_amount o1)" "nonneg (cp_collateral_locked o1)"
    and fee: "nonneg (sm_fee_rate m)" "\<not> fl_lt F (fl_lit F 10 1) (sm_fee_rate m)"
    using assms(1) o1(1) by (auto simp: positions_signed_def)
  note part = burned_part [OF o1(2) P]
  have "nonneg (fl_sub F ?returned (fl_mul F ?returned (sm_fee_rate m)))"
    by (rule sub_nonneg [OF share_at_most [OF part(1) fee]])
  moreover have "positions_signed F m'"
    using assms(1) m' part(2) dust_pos by (auto simp: positions_signed_def split: if_splits)
  ultimately show ?thesis using Inr y by (simp add: Let_def)
qed

end

lemma cancel_keeps_funds:
  "cancel_request iter pair i a s = (ok, s') \<Longrightarrow> es_balances s' = es_balances s \<and> es_synthetic s' = es_synthetic s"
  by (auto simp: cancel_request_def Let_def split: option.splits prod.splits)

lemma exch_step_ok:
  assumes "exch_step X s s'" and "signed_floats F" and "F = be_f64 X" and "funds_ok F s"
  shows "funds_ok F s'"
  using assms(1)
proof cases
  case (order now req r)
  show ?thesis using assms(4) place_order_balances [OF order]
    by (rule_tac place_order_cases [OF order, of F]) (simp_all add: funds_ok_def)
next
  case (cancelled iter pair i a ok)
  then show ?thesis using assms(4) cancel_keeps_funds [OF cancelled] by (simp add: funds_ok_def)
next
  case (deposited a x amount r)
  then show ?thesis
    using assms(3,4) signed_floats.add_nonneg [OF assms(2)] signed_floats.pos_nonneg [OF assms(2)]
    by (auto simp: deposit_def funds_ok_def Let_def split: if_splits)
next
  case (withdrawn a x amount r)
  then show ?thesis using assms(3,4) signed_floats.sub_nonneg [OF assms(2)]
    by (auto simp: withdraw_def funds_ok_def Let_def split: if_splits)
next
  case (minted prices a x amount r)
  obtain rr m where m: "mint_synthetic F a x amount (oracle_price F prices x s) (es_synthetic s) = (rr, m)"
    by fastforce
  note ok = signed_floats.mint_signed [OF assms(2) _ m]
  note laws = signed_floats.sub_nonneg [OF assms(2)] signed_floats.add_nonneg [OF assms(2)] signed_floats.pos_nonneg [OF assms(2)]
  show ?thesis
    using minted assms(3,4) m ok laws
    by (cases rr) (auto simp: mint_request_def oracle_price_def funds_ok_def Let_def split: if_splits)
next
  case (burned prices a x amount r)
  obtain rr m where m: "burn_synthetic F a x amount (oracle_price F prices x s) (es_synthetic s) = (rr, m)"
    by fastforce
  note ok = signed_floats.burn_signed [OF assms(2) _ m]
  note laws = signed_floats.sub_nonneg [OF assms(2)] signed_floats.add_nonneg [OF assms(2)]
  show ?thesis
    using burned assms(3,4) m ok laws
    by (cases rr) (auto simp: burn_request_def oracle_price_def funds_ok_def Let_def split: if_splits)
qed

lemma funds_ok_run:
  assumes "(exch_step X)\<^sup>*\<^sup>* s0 s" and "signed_floats (be_f64 X)"
    and "es_balances s0 = Map.empty" and "es_synthetic s0 = synthetic_manager_new (be_f64 X) assets"
  shows "funds_ok (be_f64 X) s"
  using assms(1)
proof (induction rule: rtranclp_induct)
  case base
  show ?case using signed_floats.zero_nonneg [OF assms(2)] signed_floats.fee_share [OF assms(2)]
    by (simp add: funds_ok_def assms(3,4) positions_signed_def synthetic_manager_new_def balance_of_asset_def
        user_balances_def or_default_def)
qed (rule exch_step_ok [OF _ assms(2) refl])

text \<open>In exact arithmetic every balance is a number that is not negative.\<close>

theorem exact_funds_nonneg:
  assumes "(exch_step X)\<^sup>*\<^sup>* s0 s" and "be_f64 X = exact_ops"
    and "es_balances s0 = Map.empty" and "es_synthetic s0 = synthetic_manager_new exact_ops assets"
  shows "0 \<le> balance_of_asset exact_ops (es_balances s) a x"
proof -
  have "funds_ok exact_ops s"
    using funds_ok_run [OF assms(1) _ assms(3)] assms(2,4) exact_signs.signed_floats_axioms by simp
  then show ?thesis by (simp add: funds_ok_def not_less)
qed

text \<open>
  C29. Over any sequence of requests from the start of the engine, no balance of any user in any asset
  compares as negative, no position has a collateral that does, and no position an amount that
  compares as zero or negative. This is the arithmetic of \<open>f64\<close>, with its rounding, its infinities
  and \<open>NaN\<close>: of it only the laws of signs are used. A balance may be \<open>NaN\<close>
  (\<open>nan_deposit_backs_withdrawals\<close>).
\<close>

theorem funds_never_negative:
  assumes "(exch_step X)\<^sup>*\<^sup>* s0 s" and "signed_floats (be_f64 X)"
    and "es_balances s0 = Map.empty" and "es_synthetic s0 = synthetic_manager_new (be_f64 X) assets"
  shows "(\<forall>a x. \<not> fl_lt (be_f64 X) (balance_of_asset (be_f64 X) (es_balances s) a x) (fl_zero (be_f64 X))) \<and>
    (\<forall>k p. sm_positions (es_synthetic s) k = Some p \<longrightarrow>
      \<not> fl_le (be_f64 X) (cp_synthetic_amount p) (fl_zero (be_f64 X)) \<and>
      \<not> fl_lt (be_f64 X) (cp_collateral_locked p) (fl_zero (be_f64 X)))"
  using funds_ok_run [OF assms] by (simp add: funds_ok_def positions_signed_def)

text \<open>
  The checks of amounts and balances are comparisons that fail, so \<open>NaN\<close> passes them. A deposit of
  \<open>NaN\<close> is accepted, and from then on every withdrawal of that asset is, of any amount and any
  number of times.
\<close>

theorem nan_deposit_backs_withdrawals:
  assumes "nan_values F N" and "n \<in> N"
  shows "\<exists>v s1. deposit F a x n s = (Inr v, s1) \<and>
    (\<forall>amounts amount. \<not> fl_le F amount (fl_zero F) \<longrightarrow>
      (\<exists>v' s2. withdraw F a x amount (foldl (\<lambda>s y. snd (withdraw F a x y s)) s1 amounts) = (Inr v', s2)))"
proof -
  let ?run = "foldl (\<lambda>s y. snd (withdraw F a x y s))"
  obtain v s1 where d: "deposit F a x n s = (Inr v, s1)" "balance_of_asset F (es_balances s1) a x \<in> N"
    using assms by (auto simp: deposit_def nan_values_def Let_def)
  have "balance_of_asset F (es_balances (?run s' amounts)) a x \<in> N"
    if "balance_of_asset F (es_balances s') a x \<in> N" for s' :: "('b, 'a) exchange_state" and amounts
    using that
  proof (induction amounts arbitrary: s')
    case (Cons y ys)
    have "balance_of_asset F (es_balances (snd (withdraw F a x y s'))) a x \<in> N"
      using assms(1) Cons.prems by (auto simp: withdraw_def nan_values_def Let_def)
    then show ?case using Cons.IH by simp
  qed simp
  then have "balance_of_asset F (es_balances (?run s1 amounts)) a x \<in> N" for amounts using d(2) by blast
  then show ?thesis using d(1) assms(1) by (auto simp: withdraw_def nan_values_def Let_def)
qed

section \<open>Collateral\<close>

text \<open>
  Minting keeps a position collateralized: at the price of the mint, a position that covered
  its amount at least at the minimum ratio still does, and a new position does.
\<close>

theorem mint_keeps_collateral_ratio:
  assumes "mint_synthetic exact_ops a x q p m = (Inr (minted, coll, fee), m')" and "1 \<le> sm_min_collateral_ratio m" and "0 \<le> sm_fee_rate m"
    and "\<forall>pos. sm_positions m (a, x) = Some pos \<longrightarrow>
      sm_min_collateral_ratio m * (cp_synthetic_amount pos * p) \<le> cp_collateral_locked pos"
  shows "\<exists>pos. sm_positions m' (a, x) = Some pos \<and>
    sm_min_collateral_ratio m' * (cp_synthetic_amount pos * p) \<le> cp_collateral_locked pos"
proof -
  define eff where "eff = q / sm_min_collateral_ratio m"
  have v: "0 < p" "0 < q" "minted = (eff - eff * sm_fee_rate m) / p"
    using assms(1) by (auto simp: mint_synthetic_def Let_def eff_def split: if_splits option.splits)
  have r: "1 \<le> sm_min_collateral_ratio m" "0 \<le> sm_fee_rate m" using assms(2,3) by simp_all
  have "0 < eff" using v r by (simp add: eff_def)
  then have "minted * p \<le> eff" using v r by simp
  then have "sm_min_collateral_ratio m * (minted * p) \<le> sm_min_collateral_ratio m * eff"
    by (rule mult_left_mono) (use r in simp)
  then have new: "sm_min_collateral_ratio m * (minted * p) \<le> q" using r by (simp add: eff_def)
  have m': "sm_min_collateral_ratio m' = sm_min_collateral_ratio m"
    "\<exists>pos. sm_positions m' (a, x) = Some pos \<and>
      cp_synthetic_amount pos = (case sm_positions m (a, x) of None \<Rightarrow> 0 | Some o1 \<Rightarrow> cp_synthetic_amount o1) + minted \<and>
      cp_collateral_locked pos = (case sm_positions m (a, x) of None \<Rightarrow> 0 | Some o1 \<Rightarrow> cp_collateral_locked o1) + q"
    using assms(1) by (auto simp: mint_synthetic_def Let_def split: if_splits option.splits)
  then show ?thesis using new assms(4)
    by (cases "sm_positions m (a, x)") (auto simp: distrib_left distrib_right intro: add_mono)
qed


text \<open>
  Minting on a new position and burning all of it gives the collateral back less the fee of 0.3
  percent and closes the position, whatever the price did in between.
\<close>

theorem mint_burn_roundtrip:
  assumes "mint_synthetic exact_ops a x q p m = (Inr (minted, coll, fee), m1)"
    and "sm_positions m (a, x) = None" and "0 < p'"
  shows "\<exists>m2. burn_synthetic exact_ops a x minted p' m1 = (Inr (q - q * sm_fee_rate m, q * sm_fee_rate m), m2) \<and>
    sm_positions m2 = sm_positions m"
proof -
  have m: "0 < minted" "sm_assets m1 = sm_assets m" "sm_assets m x \<noteq> None" "sm_fee_rate m1 = sm_fee_rate m"
    "sm_positions m1 = (sm_positions m)((a, x) \<mapsto> \<lparr>cp_address = a, cp_symbol = x,
       cp_synthetic_amount = minted, cp_collateral_locked = q\<rparr>)"
    using assms(1,2) by (auto simp: mint_synthetic_def Let_def split: if_splits option.splits)
  have "(0 :: rat) < DUST exact_ops" by (simp add: DUST_def)
  then show ?thesis using m assms(2,3) by (auto simp: burn_synthetic_def Let_def)
qed

lemma liquidate_keys_positions:
  assumes "liquidate_keys F f64_max prices keys m = (liq, m')" and "sm_positions m' k = Some pos"
  shows "sm_positions m k = Some pos \<and>
    (\<forall>asset price. k \<in> set keys \<longrightarrow> sm_assets m (snd k) = Some asset \<longrightarrow> prices (sa_coingecko_id asset) = Some price \<longrightarrow>
       fl_lt F (fl_zero F) price \<longrightarrow> \<not> fl_lt F (collateral_ratio F f64_max price pos) (sm_liquidation_ratio m))"
  using assms
proof (induction keys arbitrary: m liq)
  case (Cons key keys)
  obtain addr sy where key: "key = (addr, sy)" by (cases key)
  let ?safe = "\<lambda>m pos. \<forall>asset price. sm_assets m sy = Some asset \<longrightarrow> prices (sa_coingecko_id asset) = Some price \<longrightarrow>
     fl_lt F (fl_zero F) price \<longrightarrow> \<not> fl_lt F (collateral_ratio F f64_max price pos) (sm_liquidation_ratio m)"
  consider (kept) "liquidate_keys F f64_max prices keys m = (liq, m')"
      "\<forall>pos. sm_positions m (addr, sy) = Some pos \<longrightarrow> ?safe m pos"
    | (gone) m1 liq1 where "liquidate_keys F f64_max prices keys m1 = (liq1, m')" "sm_assets m1 = sm_assets m"
      "sm_liquidation_ratio m1 = sm_liquidation_ratio m" "sm_positions m1 = (sm_positions m)((addr, sy) := None)"
    using Cons.prems(1) unfolding key
    by (auto simp: Let_def split: option.splits if_splits prod.splits)
  then show ?case
  proof cases
    case kept
    then show ?thesis using Cons.IH [OF kept(1) Cons.prems(2)] unfolding key by (cases "k = (addr, sy)") auto
  next
    case gone
    note IH = Cons.IH [OF gone(1) Cons.prems(2)]
    then have "k \<noteq> (addr, sy)" by (auto simp: gone)
    then show ?thesis using IH unfolding key by (auto simp: gone)
  qed
qed simp

text \<open>
  A liquidation over all positions leaves those only whose collateral covers the liquidation ratio
  at the given price, where there is one.
\<close>

theorem liquidation_clears:
  assumes "check_liquidations F f64_max keys prices m = (liq, m')" and "dom (sm_positions m) \<subseteq> set keys"
    and "sm_positions m' (a, x) = Some pos" and "sm_assets m x = Some asset"
    and "prices (sa_coingecko_id asset) = Some price" and "fl_lt F (fl_zero F) price"
  shows "sm_positions m (a, x) = Some pos \<and>
    \<not> fl_lt F (collateral_ratio F f64_max price pos) (sm_liquidation_ratio m)"
  using liquidate_keys_positions [OF assms(1) [unfolded check_liquidations_def] assms(3)] assms by auto

text \<open>
  The tolerance of a burn is an absolute amount. On a position smaller than it, a burn within the
  tolerance takes out a multiple of what is locked.
\<close>

theorem burn_takes_more_than_locked:
  "fst (burn_synthetic exact_ops ''a'' ''sBTC'' (1 / 10 ^ 12) 1
     \<lparr>sm_assets = [''sBTC'' \<mapsto> asset],
      sm_positions = [(''a'', ''sBTC'') \<mapsto> \<lparr>cp_address = ''a'', cp_symbol = ''sBTC'',
        cp_synthetic_amount = 1 / 10 ^ 13, cp_collateral_locked = 1\<rparr>],
      sm_total_supply = Map.empty, sm_total_collateral = Map.empty,
      sm_min_collateral_ratio = 3 / 2, sm_liquidation_ratio = 11 / 10, sm_fee_rate = 3 / 1000\<rparr>) =
   Inr (997 / 100, 3 / 100)"
  by (simp add: burn_synthetic_def DUST_def Let_def)

section \<open>An example\<close>

definition demo_exchange :: "(rat, rat) exchange_state" where
  "demo_exchange = \<lparr>es_books = [''QBC/QUSD'' \<mapsto> order_book_new demo_config], es_balances = Map.empty,
     es_synthetic = synthetic_manager_new exact_ops [\<lparr>sa_symbol = ''sBTC'', sa_name = ''Synthetic Bitcoin'',
       sa_coingecko_id = ''bitcoin'', sa_decimals = 8\<rparr>],
     es_symbol_to_cg = [''sBTC'' \<mapsto> ''bitcoin''], es_start_time = 0\<rparr>"

definition demo_funded :: "(rat, rat) exchange_state" where
  "demo_funded = snd (deposit exact_ops ''bob'' ''QUSD'' 30 demo_exchange)"

definition demo_request :: "(rat, rat) place_request" where
  "demo_request = \<lparr>pr_pair = ''QBC-QUSD'', pr_side = 0, pr_order_type = 0, pr_price = 10, pr_size = 3, pr_address = ''bob''\<rparr>"

lemma demo_suffices: "funds_suffice demo_env demo_request demo_funded"
  by (simp add: funds_suffice_def demo_request_def demo_funded_def deposit_def demo_exchange_def normalize_pair_def
      order_book_new_def demo_config_def demo_env_def)
    (simp add: balance_of_asset_def set_balance_def user_balances_def or_default_def)

lemma place_order_returns:
  assumes "fills_settle (be_f64 X)"
  shows "\<exists>r s'. place_order X now req s = Some (r, s')"
proof -
  have "(add_order X t b = None) = False" for t b using add_order_returns [OF assms, of t b] by auto
  note nn = this
  have "place_order X now req s \<noteq> None"
    by (simp add: nn place_order_def Let_def next_order_id_def split: option.split prod.split)
  then show ?thesis by auto
qed

lemma demo_returns: "\<exists>r s'. place_order demo_env now req s = Some (r, s')"
  by (rule place_order_returns) (simp add: demo_f64 exact_settle)

lemma demo_placed: "\<exists>placed s'. place_order demo_env 5 demo_request demo_funded = Some (Inr placed, s')"
proof -
  obtain r s' where "place_order demo_env 5 demo_request demo_funded = Some (r, s')"
    using demo_returns by blast
  then show ?thesis using demo_suffices place_order_refused [of demo_env 5 demo_request demo_funded] by (cases r) auto
qed

text \<open>Thirty units back an order for thirty twice over.\<close>

lemma same_funds_witness:
  "\<exists>placed s' placed' s''. place_order demo_env 5 demo_request demo_funded = Some (Inr placed, s') \<and>
     place_order demo_env 6 demo_request s' = Some (Inr placed', s'')"
proof -
  obtain placed s' where 1: "place_order demo_env 5 demo_request demo_funded = Some (Inr placed, s')"
    using demo_placed by blast
  obtain r s'' where 2: "place_order demo_env 6 demo_request s' = Some (r, s'')"
    using demo_returns by blast
  from same_funds_back_every_order [OF 1] 2 show ?thesis using 1 by blast
qed

text \<open>With \<open>NaN\<close>: Eve deposits it, Bob deposits 30 and may not withdraw 40.\<close>

definition nan_env :: "(rat, rat option) book_env" where
  "nan_env = \<lparr>be_f64 = nan_ops, be_inner = Some, be_fresh = (\<lambda>n. (''trade'', 7))\<rparr>"

definition nan_exchange :: "(rat, rat option) exchange_state" where
  "nan_exchange = \<lparr>es_books = Map.empty, es_balances = Map.empty, es_synthetic = synthetic_manager_new nan_ops [],
     es_symbol_to_cg = Map.empty, es_start_time = 0\<rparr>"

definition nan_state :: "(rat, rat option) exchange_state" where
  "nan_state = snd (withdraw nan_ops ''bob'' ''QUSD'' (Some 40)
     (snd (deposit nan_ops ''bob'' ''QUSD'' (Some 30) (snd (deposit nan_ops ''eve'' ''QUSD'' None nan_exchange)))))"

lemma nan_steps: "(exch_step nan_env)\<^sup>*\<^sup>* nan_exchange nan_state"
proof -
  have d: "exch_step nan_env s (snd (deposit nan_ops a x y s))" for a x y and s :: "(rat, rat option) exchange_state"
    by (rule exch_step.deposited [where r = "fst (deposit nan_ops a x y s)"]) (simp add: nan_env_def)
  have w: "exch_step nan_env s (snd (withdraw nan_ops a x y s))" for a x y and s :: "(rat, rat option) exchange_state"
    by (rule exch_step.withdrawn [where r = "fst (withdraw nan_ops a x y s)"]) (simp add: nan_env_def)
  show ?thesis unfolding nan_state_def using d w by (meson rtranclp.rtrancl_refl rtranclp.rtrancl_into_rtrancl)
qed

lemma funds_never_negative_witness:
  "balance_of_asset nan_ops (es_balances nan_state) ''eve'' ''QUSD'' = None \<and>
   balance_of_asset nan_ops (es_balances nan_state) ''bob'' ''QUSD'' = Some 30 \<and>
   \<not> fl_lt nan_ops (balance_of_asset nan_ops (es_balances nan_state) ''bob'' ''QUSD'') (Some 0)"
proof -
  have F: "be_f64 nan_env = nan_ops" by (simp add: nan_env_def)
  have "\<not> fl_lt nan_ops (balance_of_asset nan_ops (es_balances nan_state) ''bob'' ''QUSD'') (fl_zero nan_ops)"
    using funds_never_negative [OF nan_steps, of "[]"] nan_signs.signed_floats_axioms
    unfolding F by (simp add: nan_exchange_def)
  moreover have "balance_of_asset nan_ops (es_balances nan_exchange) a x = Some 0" for a x
    by (simp add: nan_exchange_def balance_of_asset_def user_balances_def or_default_def)
  ultimately show ?thesis by (simp add: nan_state_def withdraw_def deposit_def Let_def)
qed

text \<open>Eve, who deposited \<open>NaN\<close>, withdraws a million.\<close>

lemma nan_deposit_witness:
  "\<exists>v s2. withdraw nan_ops ''eve'' ''QUSD'' (Some 1000000) (snd (deposit nan_ops ''eve'' ''QUSD'' None nan_exchange)) = (Inr v, s2)"
proof -
  obtain v s1 where d: "deposit nan_ops ''eve'' ''QUSD'' None nan_exchange = (Inr v, s1)"
    and w: "\<forall>amounts amount. \<not> fl_le nan_ops amount (fl_zero nan_ops) \<longrightarrow>
      (\<exists>v' s2. withdraw nan_ops ''eve'' ''QUSD'' amount
         (foldl (\<lambda>s y. snd (withdraw nan_ops ''eve'' ''QUSD'' y s)) s1 amounts) = (Inr v', s2))"
    using nan_deposit_backs_withdrawals [OF nan_is_nan] by blast
  show ?thesis using w [rule_format, where amounts = "[]" and amount = "Some 1000000"] d by simp
qed

lemma demo_mint:
  "\<exists>m. mint_synthetic exact_ops ''bob'' ''sBTC'' 30 10 (es_synthetic demo_exchange) = (Inr (997 / 500, 30, 3 / 50), m)"
  by (simp add: mint_synthetic_def demo_exchange_def synthetic_manager_new_def Let_def)

lemma mint_ratio_witness:
  "\<exists>m pos. mint_synthetic exact_ops ''bob'' ''sBTC'' 30 10 (es_synthetic demo_exchange) = (Inr (997 / 500, 30, 3 / 50), m) \<and>
     sm_positions m (''bob'', ''sBTC'') = Some pos \<and> 3 / 2 * (cp_synthetic_amount pos * 10) \<le> cp_collateral_locked pos"
proof -
  obtain m where m: "mint_synthetic exact_ops ''bob'' ''sBTC'' 30 10 (es_synthetic demo_exchange) = (Inr (997 / 500, 30, 3 / 50), m)"
    using demo_mint by blast
  have r: "sm_min_collateral_ratio m = 3 / 2" using m
    by (auto simp: mint_synthetic_def demo_exchange_def synthetic_manager_new_def Let_def)
  have "1 \<le> sm_min_collateral_ratio (es_synthetic demo_exchange)" "0 \<le> sm_fee_rate (es_synthetic demo_exchange)"
    "sm_positions (es_synthetic demo_exchange) = Map.empty"
    by (simp_all add: demo_exchange_def synthetic_manager_new_def)
  then obtain pos where "sm_positions m (''bob'', ''sBTC'') = Some pos"
    "sm_min_collateral_ratio m * (cp_synthetic_amount pos * 10) \<le> cp_collateral_locked pos"
    using mint_keeps_collateral_ratio [OF m] by auto
  then show ?thesis using m unfolding r by blast
qed

lemma mint_burn_witness:
  "\<exists>m1 m2. mint_synthetic exact_ops ''bob'' ''sBTC'' 30 10 (es_synthetic demo_exchange) = (Inr (997 / 500, 30, 3 / 50), m1) \<and>
     burn_synthetic exact_ops ''bob'' ''sBTC'' (997 / 500) 7 m1 = (Inr (2991 / 100, 9 / 100), m2)"
proof -
  obtain m where m: "mint_synthetic exact_ops ''bob'' ''sBTC'' 30 10 (es_synthetic demo_exchange) = (Inr (997 / 500, 30, 3 / 50), m)"
    using demo_mint by blast
  have "sm_positions (es_synthetic demo_exchange) = Map.empty" "sm_fee_rate (es_synthetic demo_exchange) = 3 / 1000"
    by (simp_all add: demo_exchange_def synthetic_manager_new_def)
  then show ?thesis using mint_burn_roundtrip [OF m, of 7] m by auto
qed

end
