(* ===== verification/CsfRouting.thy ===== *)
theory CsfRouting
  imports Floats
begin

text \<open>
  The roles of the Sephirot and the routing between them, \<open>aether-sephirot/src/csf_transport.rs\<close>:
  the ten roles with their names, the pairs and the topology, and the two breadth-first searches
  with their correctness. Strings are ASCII.
\<close>

section \<open>Roles and topology\<close>

datatype sephirah_role =
    Keter | Chochmah | Binah | Chesed | Gevurah | Tiferet | Netzach | Hod | Yesod | Malkuth

fun role_value :: "sephirah_role \<Rightarrow> string" where
  "role_value Keter = ''keter''"
| "role_value Chochmah = ''chochmah''"
| "role_value Binah = ''binah''"
| "role_value Chesed = ''chesed''"
| "role_value Gevurah = ''gevurah''"
| "role_value Tiferet = ''tiferet''"
| "role_value Netzach = ''netzach''"
| "role_value Hod = ''hod''"
| "role_value Yesod = ''yesod''"
| "role_value Malkuth = ''malkuth''"

definition all_roles :: "sephirah_role list" where
  "all_roles = [Keter, Chochmah, Binah, Chesed, Gevurah, Tiferet, Netzach, Hod, Yesod, Malkuth]"

definition ascii_lower :: "string \<Rightarrow> string" where
  "ascii_lower s = map (\<lambda>c. let n = of_char c :: nat in if 65 \<le> n \<and> n \<le> 90 then char_of (n + 32) else c) s"

definition role_from_str :: "string \<Rightarrow> sephirah_role option" where
  "role_from_str s =
     (let l = ascii_lower s in
      if l = ''keter'' then Some Keter else if l = ''chochmah'' then Some Chochmah
      else if l = ''binah'' then Some Binah else if l = ''chesed'' then Some Chesed
      else if l = ''gevurah'' then Some Gevurah else if l = ''tiferet'' then Some Tiferet
      else if l = ''netzach'' then Some Netzach else if l = ''hod'' then Some Hod
      else if l = ''yesod'' then Some Yesod else if l = ''malkuth'' then Some Malkuth
      else None)"

definition SUSY_PAIRS :: "(sephirah_role \<times> sephirah_role) list" where
  "SUSY_PAIRS = [(Chesed, Gevurah), (Chochmah, Binah), (Netzach, Hod)]"

type_synonym topology_map = "sephirah_role \<rightharpoonup> sephirah_role list"

definition topology :: topology_map where
  "topology = [Keter \<mapsto> [Chochmah, Binah], Chochmah \<mapsto> [Keter, Binah, Chesed],
     Binah \<mapsto> [Keter, Chochmah, Gevurah], Chesed \<mapsto> [Chochmah, Gevurah, Tiferet],
     Gevurah \<mapsto> [Binah, Chesed, Tiferet], Tiferet \<mapsto> [Chesed, Gevurah, Netzach, Hod, Yesod],
     Netzach \<mapsto> [Tiferet, Hod, Yesod], Hod \<mapsto> [Tiferet, Netzach, Yesod],
     Yesod \<mapsto> [Tiferet, Netzach, Hod, Malkuth], Malkuth \<mapsto> [Yesod]]"

lemma role_from_value [simp]: "role_from_str (role_value r) = Some r"
  by (cases r) (simp_all add: role_from_str_def ascii_lower_def Let_def)

lemma role_value_eq [simp]: "role_value a = role_value b \<longleftrightarrow> a = b"
  by (metis option.inject role_from_value)

text \<open>The neighbours of a role, none if the topology does not know it.\<close>

definition nbrs :: "topology_map \<Rightarrow> sephirah_role \<Rightarrow> sephirah_role list" where
  "nbrs t a = (case t a of Some ns \<Rightarrow> ns | None \<Rightarrow> [])"

lemma nbrs_topology [simp]:
  "nbrs topology Keter = [Chochmah, Binah]" "nbrs topology Chochmah = [Keter, Binah, Chesed]"
  "nbrs topology Binah = [Keter, Chochmah, Gevurah]" "nbrs topology Chesed = [Chochmah, Gevurah, Tiferet]"
  "nbrs topology Gevurah = [Binah, Chesed, Tiferet]"
  "nbrs topology Tiferet = [Chesed, Gevurah, Netzach, Hod, Yesod]"
  "nbrs topology Netzach = [Tiferet, Hod, Yesod]" "nbrs topology Hod = [Tiferet, Netzach, Yesod]"
  "nbrs topology Yesod = [Tiferet, Netzach, Hod, Malkuth]" "nbrs topology Malkuth = [Yesod]"
  by (simp_all add: nbrs_def topology_def)

lemma role_univ: "(UNIV :: sephirah_role set) = set all_roles"
proof -
  have "r \<in> set all_roles" for r by (cases r) (simp_all add: all_roles_def)
  then show ?thesis by auto
qed

lemma finite_roles [simp, intro]: "finite (A :: sephirah_role set)"
  by (rule finite_subset [OF subset_UNIV]) (simp only: role_univ finite_set)

section \<open>Breadth-first search\<close>

text \<open>
  The inner loops: neighbours that were not visited are marked and put at the end of the queue,
  each with what the search carries along for it.
\<close>

fun push_unvisited ::
  "(sephirah_role \<Rightarrow> 'a) \<Rightarrow> sephirah_role list \<Rightarrow> sephirah_role set \<Rightarrow> (sephirah_role \<times> 'a) list \<Rightarrow>
   sephirah_role set \<times> (sephirah_role \<times> 'a) list" where
  "push_unvisited f [] visited q = (visited, q)"
| "push_unvisited f (n # ns) visited q =
     (if n \<in> visited then push_unvisited f ns visited q
      else push_unvisited f ns (insert n visited) (q @ [(n, f n)]))"

lemma push_unvisited_measure:
  "push_unvisited f ns visited q = (visited', q') \<Longrightarrow>
   card (- visited') + length q' = card (- visited) + length q"
proof (induction f ns visited q rule: push_unvisited.induct)
  case (2 f n ns visited q)
  show ?case
  proof (cases "n \<in> visited")
    case False
    have "- visited = insert n (- insert n visited)" using False by auto
    then have "card (- visited) = Suc (card (- insert n visited))"
      using card_insert_disjoint [of "- insert n visited" n] by auto
    then show ?thesis using 2 False by simp
  qed (use 2 in simp)
qed simp

text \<open>The loop of \<open>find_next_hop\<close>: each entry carries the first hop on the way to it.\<close>

function hop_loop ::
  "topology_map \<Rightarrow> sephirah_role \<Rightarrow> sephirah_role set \<Rightarrow> (sephirah_role \<times> sephirah_role) list \<Rightarrow>
   sephirah_role option" where
  "hop_loop t destination visited [] = None"
| "hop_loop t destination visited ((node, first_hop) # queue) =
     (if node = destination then Some first_hop
      else (let (visited', queue') = push_unvisited (\<lambda>_. first_hop) (nbrs t node) visited queue
            in hop_loop t destination visited' queue'))"
  by pat_completeness auto

termination
proof (relation "measure (\<lambda>(t, d, v, q). card (- v) + length q)", simp, goal_cases)
  case (1 t d v node fh q x v' q')
  then show ?case using push_unvisited_measure [of "\<lambda>_. fh" "nbrs t node" v q v' q']
    by (metis (no_types, lifting) case_prod_conv in_measure le_imp_less_Suc length_Cons add_Suc_right order_refl)
qed

definition find_next_hop :: "topology_map \<Rightarrow> sephirah_role \<Rightarrow> sephirah_role \<Rightarrow> sephirah_role option" where
  "find_next_hop t current destination =
     (let ns = nbrs t current
      in hop_loop t destination (insert current (set ns)) (map (\<lambda>n. (n, n)) ns))"

text \<open>
  The loop of \<open>find_path\<close>: each entry carries the path to it. The neighbours are looked at one
  after the other, and the loop ends at the first that is the destination.
\<close>

fun scan_neighbors ::
  "sephirah_role \<Rightarrow> sephirah_role list \<Rightarrow> sephirah_role list \<Rightarrow> sephirah_role set \<Rightarrow>
   (sephirah_role \<times> sephirah_role list) list \<Rightarrow>
   sephirah_role list + (sephirah_role set \<times> (sephirah_role \<times> sephirah_role list) list)" where
  "scan_neighbors destination path [] visited q = Inr (visited, q)"
| "scan_neighbors destination path (n # ns) visited q =
     (if n = destination then Inl (path @ [n])
      else if n \<in> visited then scan_neighbors destination path ns visited q
      else scan_neighbors destination path ns (insert n visited) (q @ [(n, path @ [n])]))"

lemma scan_neighbors_push:
  "scan_neighbors d path ns visited q =
     (if d \<in> set ns then Inl (path @ [d]) else Inr (push_unvisited (\<lambda>n. path @ [n]) ns visited q))"
  by (induction d path ns visited q rule: scan_neighbors.induct) auto

function path_loop ::
  "topology_map \<Rightarrow> sephirah_role \<Rightarrow> sephirah_role set \<Rightarrow> (sephirah_role \<times> sephirah_role list) list \<Rightarrow>
   sephirah_role list" where
  "path_loop t destination visited [] = []"
| "path_loop t destination visited ((node, path) # queue) =
     (case scan_neighbors destination path (nbrs t node) visited queue of
        Inl full \<Rightarrow> full
      | Inr (visited', queue') \<Rightarrow> path_loop t destination visited' queue')"
  by pat_completeness auto

termination
proof (relation "measure (\<lambda>(t, d, v, q). card (- v) + length q)", simp, goal_cases)
  case (1 t d v node path q x v' q')
  then have "push_unvisited (\<lambda>n. path @ [n]) (nbrs t node) v q = (v', q')"
    by (simp add: scan_neighbors_push split: if_splits)
  then show ?case using push_unvisited_measure [of "\<lambda>n. path @ [n]" "nbrs t node" v q v' q'] by simp
qed

definition find_path :: "topology_map \<Rightarrow> sephirah_role \<Rightarrow> sephirah_role \<Rightarrow> sephirah_role list" where
  "find_path t source destination =
     (if source = destination then [source]
      else path_loop t destination {source} [(source, [source])])"

section \<open>Distances\<close>

definition route :: "('a \<Rightarrow> 'a list) \<Rightarrow> 'a list \<Rightarrow> bool" where
  "route nb p \<longleftrightarrow> p \<noteq> [] \<and> successively (\<lambda>a b. b \<in> set (nb a)) p"

text \<open>
  What the routing relies on: a distance that no step of the graph can lower by more than one, and
  a choice of the next hop that lowers it by one.
\<close>

locale router =
  fixes nb :: "'a \<Rightarrow> 'a list" and hop :: "'a \<Rightarrow> 'a \<Rightarrow> 'a option" and dist :: "'a \<Rightarrow> 'a \<Rightarrow> nat"
  assumes dist_self: "dist d d = 0"
    and dist_step: "b \<in> set (nb a) \<Longrightarrow> dist a d \<le> Suc (dist b d)"
    and closer_hop: "a \<noteq> d \<Longrightarrow> \<exists>h \<in> set (nb a). hop a d = Some h \<and> dist a d = Suc (dist h d)"
begin

lemma route_single [simp]: "route nb [a]"
  by (simp add: route_def)

lemma route_snoc: "route nb p \<Longrightarrow> b \<in> set (nb (last p)) \<Longrightarrow> route nb (p @ [b])"
  by (simp add: route_def successively_append_iff)

lemma dist_zero: "dist a d = 0 \<longleftrightarrow> a = d"
  using closer_hop [of a d] dist_self [of d] by (cases "a = d") auto

lemma dist_neighbor: "d \<in> set (nb a) \<Longrightarrow> a \<noteq> d \<Longrightarrow> dist a d = 1"
  using dist_step [of d a d] dist_self [of d] dist_zero [of a d] by simp

text \<open>No route is shorter than the distance.\<close>

lemma route_length: "route nb p \<Longrightarrow> last p = d \<Longrightarrow> dist (hd p) d < length p"
proof (induction p)
  case (Cons a p)
  show ?case
  proof (cases p)
    case (Cons b q)
    then have "route nb p" "b \<in> set (nb a)" "last p = d"
      using Cons.prems by (simp_all add: route_def)
    then show ?thesis using Cons.IH dist_step [of b a d] Cons by simp
  qed (use Cons.prems dist_self in auto)
qed (simp add: route_def)

lemma hop_is_neighbor: "hop a d = Some h \<Longrightarrow> a \<noteq> d \<Longrightarrow> h \<in> set (nb a) \<and> dist a d = Suc (dist h d)"
  using closer_hop by fastforce

lemma hop_returns: "a \<noteq> d \<Longrightarrow> hop a d \<noteq> None"
  using closer_hop by fastforce

text \<open>A partial route that lies on a shortest route stays on one with the next hop.\<close>

lemma hop_keeps_shortest:
  assumes "route nb p" and "last p \<noteq> d" and "hop (last p) d = Some h"
    and "length p + dist (last p) d = Suc (dist (hd p) d)"
  shows "route nb (p @ [h]) \<and> hd (p @ [h]) = hd p \<and>
    length (p @ [h]) + dist h d = Suc (dist (hd p) d)"
  using hop_is_neighbor [OF assms(3,2)] assms route_snoc [OF assms(1), of h]
  by (auto simp: route_def)

end

definition hop_distance :: "sephirah_role \<Rightarrow> sephirah_role \<Rightarrow> nat" where
  "hop_distance a d = length (find_path topology a d) - 1"

lemmas bfs_eval = hop_distance_def find_path_def find_next_hop_def scan_neighbors_push

lemma hop_distance_self [simp]: "hop_distance d d = 0"
  by (simp add: bfs_eval)

lemma hop_distance_step: "b \<in> set (nbrs topology a) \<Longrightarrow> hop_distance a d \<le> Suc (hop_distance b d)"
  by (cases a; cases d) (auto simp: bfs_eval)

lemma hop_closer:
  "a \<noteq> d \<Longrightarrow> \<exists>h \<in> set (nbrs topology a).
     find_next_hop topology a d = Some h \<and> hop_distance a d = Suc (hop_distance h d)"
  by (cases a; cases d) (simp_all add: bfs_eval)

lemma hop_distance_le: "hop_distance a d \<le> 5"
  by (cases a; cases d) (simp_all add: bfs_eval)

interpretation tree: router "nbrs topology" "find_next_hop topology" hop_distance
  by unfold_locales (simp, erule hop_distance_step, erule hop_closer)

lemma find_path_ends:
  "find_path topology a d \<noteq> [] \<and> hd (find_path topology a d) = a \<and> last (find_path topology a d) = d"
  by (cases a; cases d) (simp_all add: bfs_eval)

lemma find_path_route: "route (nbrs topology) (find_path topology a d)"
  unfolding route_def
  by (cases a; cases d) (simp_all add: bfs_eval)

text \<open>
  The path search is correct on the topology of the program: it returns a route from the source
  to the destination, every step along an edge, and no route between them is shorter. The first
  hop that the router takes, where there is a step to take, is the start of such a shortest route.
\<close>

theorem find_path_shortest:
  "route (nbrs topology) (find_path topology a d) \<and> hd (find_path topology a d) = a \<and>
   last (find_path topology a d) = d \<and>
   (\<forall>p. route (nbrs topology) p \<longrightarrow> hd p = a \<longrightarrow> last p = d \<longrightarrow> length (find_path topology a d) \<le> length p) \<and>
   (a \<noteq> d \<longrightarrow> (\<exists>h. find_next_hop topology a d = Some h \<and> h \<in> set (nbrs topology a) \<and>
      length (find_path topology a d) = Suc (length (find_path topology h d))))"
proof -
  have len: "length (find_path topology b d) = Suc (hop_distance b d)" for b
    using find_path_ends [of b d] by (cases "find_path topology b d") (simp_all add: hop_distance_def)
  have "length (find_path topology a d) \<le> length p" if "route (nbrs topology) p" "hd p = a" "last p = d" for p
    using tree.route_length [OF that(1,3)] that(2) by (simp add: len)
  then show ?thesis
    using find_path_route find_path_ends tree.closer_hop [of a d] by (auto simp: len)
qed

lemma find_path_shortest_witness:
  "find_path topology Keter Malkuth = [Keter, Chochmah, Chesed, Tiferet, Yesod, Malkuth] \<and>
   find_next_hop topology Keter Malkuth = Some Chochmah"
  using find_path_shortest [of Keter Malkuth] by (simp add: bfs_eval)

end
