(* ===== verification/CsfTransport.thy ===== *)
theory CsfTransport
  imports CsfRouting
begin

text \<open>
  The message queue between the Sephirot, \<open>aether-sephirot/src/csf_transport.rs\<close>: messages, the
  pressure per role, the channel of the paired roles, and the transport with its queue. Priorities
  are \<open>f64\<close>, whose operations are a parameter, as are the clock, its printing and SHA-256. The
  statistics and the conversions to Python objects are left out.
\<close>

section \<open>Messages\<close>

definition MAX_NODE_PRESSURE :: u32 where "MAX_NODE_PRESSURE = 50"
definition BACKPRESSURE_THRESHOLD :: "'f f64_ops \<Rightarrow> 'f" where "BACKPRESSURE_THRESHOLD F = fl_lit F 8 1"
definition DEFAULT_TTL :: u32 where "DEFAULT_TTL = 10"

text \<open>
  What the code takes from outside: the operations of \<open>f64\<close>, the conversion \<open>as u32\<close>, the digest
  and the printing of a time stamp.
\<close>

record 'f csf_env =
  ce_f64 :: "'f f64_ops"
  ce_to_u32 :: "'f \<Rightarrow> u32"
  ce_sha256 :: "u8 list \<Rightarrow> u8 list"
  ce_show :: "'f \<Rightarrow> string"

record 'f csf_message =
  cm_msg_id :: string
  cm_source :: string
  cm_destination :: string
  cm_msg_type :: string
  cm_payload :: string
  cm_priority :: 'f
  cm_ttl :: u32
  cm_timestamp :: 'f
  cm_hops :: "string list"
  cm_delivered :: bool

definition message_new ::
  "'f csf_env \<Rightarrow> 'f \<Rightarrow> sephirah_role \<Rightarrow> sephirah_role \<Rightarrow> string \<Rightarrow> string \<Rightarrow> 'f \<Rightarrow> 'f csf_message" where
  "message_new E now source destination msg_type payload priority =
     \<lparr>cm_msg_id = take 16 (hex_lower (ce_sha256 E
        (ascii (role_value source @ '':'' @ role_value destination @ '':'' @ ce_show E now)))),
      cm_source = role_value source, cm_destination = role_value destination,
      cm_msg_type = msg_type, cm_payload = payload, cm_priority = priority, cm_ttl = DEFAULT_TTL,
      cm_timestamp = now, cm_hops = [], cm_delivered = False\<rparr>"

definition source_role :: "'f csf_message \<Rightarrow> sephirah_role option" where
  "source_role m = role_from_str (cm_source m)"

definition dest_role :: "'f csf_message \<Rightarrow> sephirah_role option" where
  "dest_role m = role_from_str (cm_destination m)"

definition current_position :: "'f csf_message \<Rightarrow> sephirah_role option" where
  "current_position m = (if cm_hops m \<noteq> [] then role_from_str (last (cm_hops m)) else source_role m)"

section \<open>Pressure\<close>

record pressure_monitor =
  pm_max_pressure :: u32
  pm_node_pressure :: "sephirah_role \<rightharpoonup> u32"
  pm_events :: u64

definition pressure_new :: "u32 \<Rightarrow> pressure_monitor" where
  "pressure_new max_pressure =
     \<lparr>pm_max_pressure = max_pressure,
      pm_node_pressure = fold (\<lambda>r m. m(r \<mapsto> 0)) all_roles Map.empty, pm_events = 0\<rparr>"

definition pressure_at :: "pressure_monitor \<Rightarrow> sephirah_role \<Rightarrow> u32" where
  "pressure_at pm d = (case pm_node_pressure pm d of Some w \<Rightarrow> w | None \<Rightarrow> 0)"

definition record_enqueue :: "sephirah_role \<Rightarrow> pressure_monitor \<Rightarrow> pressure_monitor" where
  "record_enqueue d pm =
     pm\<lparr>pm_node_pressure := (pm_node_pressure pm)(d \<mapsto> pressure_at pm d + 1)\<rparr>"

definition record_dequeue :: "sephirah_role \<Rightarrow> pressure_monitor \<Rightarrow> pressure_monitor" where
  "record_dequeue d pm =
     pm\<lparr>pm_node_pressure := (pm_node_pressure pm)(d \<mapsto> saturating_sub (pressure_at pm d) 1)\<rparr>"

definition is_congested :: "'f csf_env \<Rightarrow> pressure_monitor \<Rightarrow> sephirah_role \<Rightarrow> bool" where
  "is_congested E pm d =
     (let threshold = ce_to_u32 E (fl_mul (ce_f64 E) (fl_of_nat (ce_f64 E) (unat (pm_max_pressure pm)))
            (BACKPRESSURE_THRESHOLD (ce_f64 E)))
      in threshold \<le> pressure_at pm d)"

definition get_pressure :: "'f csf_env \<Rightarrow> pressure_monitor \<Rightarrow> sephirah_role \<Rightarrow> 'f" where
  "get_pressure E pm d =
     fl_div (ce_f64 E) (fl_of_nat (ce_f64 E) (unat (pressure_at pm d)))
       (fl_of_nat (ce_f64 E) (unat (max (pm_max_pressure pm) 1)))"

text \<open>\<open>min_by_key\<close> keeps the first of several minima.\<close>

fun least_congested :: "pressure_monitor \<Rightarrow> sephirah_role list \<Rightarrow> sephirah_role option" where
  "least_congested pm [] = None"
| "least_congested pm (n # ns) =
     (case least_congested pm ns of None \<Rightarrow> Some n
      | Some k \<Rightarrow> Some (if pressure_at pm n \<le> pressure_at pm k then n else k))"

definition record_backpressure :: "pressure_monitor \<Rightarrow> pressure_monitor" where
  "record_backpressure pm = pm\<lparr>pm_events := pm_events pm + 1\<rparr>"

section \<open>The channel of paired roles\<close>

record entangled_channel =
  qc_pairs :: "sephirah_role \<rightharpoonup> sephirah_role"
  qc_deliveries :: u64

definition entangled_new :: entangled_channel where
  "entangled_new =
     \<lparr>qc_pairs = fold (\<lambda>(e, c) m. m(e \<mapsto> c, c \<mapsto> e)) SUSY_PAIRS Map.empty, qc_deliveries = 0\<rparr>"

definition is_entangled :: "entangled_channel \<Rightarrow> sephirah_role \<Rightarrow> sephirah_role \<Rightarrow> bool" where
  "is_entangled ch source destination \<longleftrightarrow> qc_pairs ch source = Some destination"

definition get_partner :: "entangled_channel \<Rightarrow> sephirah_role \<Rightarrow> sephirah_role option" where
  "get_partner ch node = qc_pairs ch node"

text \<open>The hop that is recorded, in UTF-8: the word between angle brackets, then an arrow.\<close>

definition entangled_mark :: string where
  "entangled_mark = [CHR 0xE2, CHR 0x9F, CHR 0xA8] @ ''entangled'' @ [CHR 0xE2, CHR 0x9F, CHR 0xA9]
     @ [CHR 0xE2, CHR 0x86, CHR 0x92]"

definition deliver_entangled ::
  "'f csf_message \<Rightarrow> entangled_channel \<Rightarrow> 'f csf_message \<times> entangled_channel" where
  "deliver_entangled m ch =
     (m\<lparr>cm_hops := cm_hops m @ [entangled_mark @ cm_destination m], cm_delivered := True\<rparr>,
      ch\<lparr>qc_deliveries := qc_deliveries ch + 1\<rparr>)"

section \<open>The transport\<close>

record 'f csf_transport =
  ci_queue :: "'f csf_message list"
  ci_delivered :: "'f csf_message list"
  ci_dropped :: u64
  ci_pressure :: pressure_monitor
  ci_entangled :: entangled_channel
  ci_topology :: topology_map

definition csf_transport_new :: "'f csf_transport" where
  "csf_transport_new =
     \<lparr>ci_queue = [], ci_delivered = [], ci_dropped = 0, ci_pressure = pressure_new MAX_NODE_PRESSURE,
      ci_entangled = entangled_new, ci_topology = topology\<rparr>"

text \<open>The comparator answers \<open>Greater\<close> exactly when the second priority is above the first.\<close>

definition lower_priority :: "'f f64_ops \<Rightarrow> 'f csf_message \<Rightarrow> 'f csf_message \<Rightarrow> bool" where
  "lower_priority F a b = fl_lt F (cm_priority a) (cm_priority b)"

definition transport_send ::
  "'f csf_env \<Rightarrow> 'f \<Rightarrow> sephirah_role \<Rightarrow> sephirah_role \<Rightarrow> string \<Rightarrow> string \<Rightarrow> 'f \<Rightarrow> 'f csf_transport \<Rightarrow>
   'f csf_message \<times> 'f csf_transport" where
  "transport_send E now source destination payload msg_type priority s =
     (let new = message_new E now source destination msg_type payload priority;
          msg = new\<lparr>cm_hops := cm_hops new @ [role_value source]\<rparr>
      in if is_entangled (ci_entangled s) source destination
         then (let (m, ch) = deliver_entangled msg (ci_entangled s)
               in (m, s\<lparr>ci_entangled := ch, ci_delivered := ci_delivered s @ [m]\<rparr>))
         else
           (let (m, pm) = (if is_congested E (ci_pressure s) destination
                then (msg\<lparr>cm_priority := fl_mul (ce_f64 E) (cm_priority msg) (fl_lit (ce_f64 E) 5 1)\<rparr>,
                      record_backpressure (ci_pressure s))
                else (msg, ci_pressure s))
            in (m, s\<lparr>ci_pressure := record_enqueue destination pm,
                     ci_queue := sort_by (lower_priority (ce_f64 E)) (ci_queue s @ [m])\<rparr>)))"

text \<open>A broadcast reads the clock for every neighbour.\<close>

fun broadcast_loop ::
  "'f csf_env \<Rightarrow> (sephirah_role \<Rightarrow> 'f) \<Rightarrow> sephirah_role \<Rightarrow> string \<Rightarrow> 'f \<Rightarrow> sephirah_role list \<Rightarrow>
   'f csf_transport \<Rightarrow> 'f csf_message list \<times> 'f csf_transport" where
  "broadcast_loop E clock source payload priority [] s = ([], s)"
| "broadcast_loop E clock source payload priority (d # ds) s =
     (let (m, s1) = transport_send E (clock d) source d payload ''broadcast'' priority s;
          (ms, s2) = broadcast_loop E clock source payload priority ds s1
      in (m # ms, s2))"

definition transport_broadcast ::
  "'f csf_env \<Rightarrow> (sephirah_role \<Rightarrow> 'f) \<Rightarrow> sephirah_role \<Rightarrow> string \<Rightarrow> 'f \<Rightarrow> 'f csf_transport \<Rightarrow>
   'f csf_message list \<times> 'f csf_transport" where
  "transport_broadcast E clock source payload priority s =
     broadcast_loop E clock source payload priority (nbrs (ci_topology s) source) s"

text \<open>One message of a round: the transport, what was delivered, and what stays in the queue.\<close>

type_synonym 'f csf_round = "'f csf_transport \<times> 'f csf_message list \<times> 'f csf_message list"

definition count_dropped :: "'f csf_transport \<Rightarrow> 'f csf_transport" where
  "count_dropped s = s\<lparr>ci_dropped := ci_dropped s + 1\<rparr>"

definition dequeue_for :: "sephirah_role \<Rightarrow> 'f csf_transport \<Rightarrow> 'f csf_transport" where
  "dequeue_for d s = s\<lparr>ci_pressure := record_dequeue d (ci_pressure s)\<rparr>"

definition deliver :: "sephirah_role \<Rightarrow> 'f csf_message \<Rightarrow> 'f csf_round \<Rightarrow> 'f csf_round" where
  "deliver d m r =
     (case r of (s, delivered, remaining) \<Rightarrow>
        (dequeue_for d (s\<lparr>ci_delivered := ci_delivered s @ [m]\<rparr>), delivered @ [m], remaining))"

definition process_message :: "'f csf_message \<Rightarrow> 'f csf_round \<Rightarrow> 'f csf_round" where
  "process_message m r =
     (case r of (s, delivered, remaining) \<Rightarrow>
      if cm_ttl m = 0 then
        (case dest_role m of
           Some d \<Rightarrow> (dequeue_for d (count_dropped s), delivered, remaining)
         | None \<Rightarrow> (count_dropped s, delivered, remaining))
      else
        (case current_position m of
           None \<Rightarrow> (count_dropped s, delivered, remaining)
         | Some current \<Rightarrow>
          (case dest_role m of
             None \<Rightarrow> (count_dropped s, delivered, remaining)
           | Some destination \<Rightarrow>
             if destination = current then deliver destination (m\<lparr>cm_delivered := True\<rparr>) r
             else if destination \<in> set (nbrs (ci_topology s) current) then
               deliver destination
                 (m\<lparr>cm_hops := cm_hops m @ [role_value destination], cm_delivered := True\<rparr>) r
             else
               (case find_next_hop (ci_topology s) current destination of
                  Some hop \<Rightarrow>
                    (s, delivered,
                     remaining @ [m\<lparr>cm_hops := cm_hops m @ [role_value hop], cm_ttl := cm_ttl m - 1\<rparr>])
                | None \<Rightarrow> (dequeue_for destination (count_dropped s), delivered, remaining)))))"

definition process_queue :: "nat \<Rightarrow> 'f csf_transport \<Rightarrow> 'f csf_message list \<times> 'f csf_transport" where
  "process_queue max_messages s =
     (let process_count = min (length (ci_queue s)) max_messages;
          unprocessed = drop process_count (ci_queue s);
          to_process = take process_count (ci_queue s);
          (s', delivered, remaining) = fold process_message to_process (s\<lparr>ci_queue := []\<rparr>, [], [])
      in (delivered, s'\<lparr>ci_queue := remaining @ unprocessed\<rparr>))"

section \<open>The calls from Python\<close>

datatype csf_error = UnknownSephirah string

definition csf_send ::
  "'f csf_env \<Rightarrow> 'f \<Rightarrow> string \<Rightarrow> string \<Rightarrow> string \<Rightarrow> string \<Rightarrow> 'f \<Rightarrow> 'f csf_transport \<Rightarrow>
   (csf_error + 'f csf_message) \<times> 'f csf_transport" where
  "csf_send E now source destination payload msg_type priority s =
     (case role_from_str source of
        None \<Rightarrow> (Inl (UnknownSephirah source), s)
      | Some src \<Rightarrow>
        (case role_from_str destination of
           None \<Rightarrow> (Inl (UnknownSephirah destination), s)
         | Some dst \<Rightarrow> (let (m, s') = transport_send E now src dst payload msg_type priority s in (Inr m, s'))))"

definition csf_broadcast ::
  "'f csf_env \<Rightarrow> (sephirah_role \<Rightarrow> 'f) \<Rightarrow> string \<Rightarrow> string \<Rightarrow> 'f \<Rightarrow> 'f csf_transport \<Rightarrow>
   (csf_error + 'f csf_message list) \<times> 'f csf_transport" where
  "csf_broadcast E clock source payload priority s =
     (case role_from_str source of
        None \<Rightarrow> (Inl (UnknownSephirah source), s)
      | Some src \<Rightarrow> (let (ms, s') = transport_broadcast E clock src payload priority s in (Inr ms, s')))"

definition csf_find_path :: "string \<Rightarrow> string \<Rightarrow> 'f csf_transport \<Rightarrow> csf_error + string list" where
  "csf_find_path source destination s =
     (case role_from_str source of
        None \<Rightarrow> Inl (UnknownSephirah source)
      | Some src \<Rightarrow>
        (case role_from_str destination of
           None \<Rightarrow> Inl (UnknownSephirah destination)
         | Some dst \<Rightarrow> Inr (map role_value (find_path (ci_topology s) src dst))))"

definition csf_is_entangled :: "string \<Rightarrow> string \<Rightarrow> 'f csf_transport \<Rightarrow> csf_error + bool" where
  "csf_is_entangled source destination s =
     (case role_from_str source of
        None \<Rightarrow> Inl (UnknownSephirah source)
      | Some src \<Rightarrow>
        (case role_from_str destination of
           None \<Rightarrow> Inl (UnknownSephirah destination)
         | Some dst \<Rightarrow> Inr (is_entangled (ci_entangled s) src dst)))"

definition get_neighbors :: "string \<Rightarrow> 'f csf_transport \<Rightarrow> csf_error + string list" where
  "get_neighbors node s =
     (case role_from_str node of
        None \<Rightarrow> Inl (UnknownSephirah node)
      | Some r \<Rightarrow> Inr (map role_value (nbrs (ci_topology s) r)))"

definition csf_get_pressure :: "'f csf_env \<Rightarrow> string \<Rightarrow> 'f csf_transport \<Rightarrow> csf_error + 'f" where
  "csf_get_pressure E node s =
     (case role_from_str node of
        None \<Rightarrow> Inl (UnknownSephirah node)
      | Some r \<Rightarrow> Inr (get_pressure E (ci_pressure s) r))"

text \<open>The requests that change the transport, one after the other, with the messages they sent.\<close>

datatype 'f csf_request =
    CsfSend 'f string string string string 'f
  | CsfBroadcast "sephirah_role \<Rightarrow> 'f" string string 'f
  | CsfProcess nat

fun csf_handle :: "'f csf_env \<Rightarrow> 'f csf_request \<Rightarrow> 'f csf_transport \<Rightarrow> 'f csf_message list \<times> 'f csf_transport" where
  "csf_handle E (CsfSend now source destination payload msg_type priority) s =
     (case csf_send E now source destination payload msg_type priority s of
        (Inl _, s') \<Rightarrow> ([], s') | (Inr m, s') \<Rightarrow> ([m], s'))"
| "csf_handle E (CsfBroadcast clock source payload priority) s =
     (case csf_broadcast E clock source payload priority s of
        (Inl _, s') \<Rightarrow> ([], s') | (Inr ms, s') \<Rightarrow> (ms, s'))"
| "csf_handle E (CsfProcess max_messages) s = ([], snd (process_queue max_messages s))"

fun csf_run :: "'f csf_env \<Rightarrow> 'f csf_request list \<Rightarrow> 'f csf_transport \<Rightarrow> 'f csf_message list \<times> 'f csf_transport" where
  "csf_run E [] s = ([], s)"
| "csf_run E (r # rs) s =
     (let (sent, s1) = csf_handle E r s; (later, s2) = csf_run E rs s1 in (sent @ later, s2))"

section \<open>Messages on their way\<close>

definition csf_key :: "'f csf_message \<Rightarrow> string \<times> string \<times> string \<times> string \<times> string" where
  "csf_key m = (cm_msg_id m, cm_source m, cm_destination m, cm_msg_type m, cm_payload m)"

text \<open>A message in the queue has come along a shortest route, and its time to live counts the hops.\<close>

definition travelling :: "'f csf_message \<Rightarrow> bool" where
  "travelling m \<longleftrightarrow> (\<exists>p d. cm_hops m = map role_value p \<and> route (nbrs topology) p \<and>
     cm_source m = role_value (hd p) \<and> cm_destination m = role_value d \<and> \<not> cm_delivered m \<and>
     length p + hop_distance (last p) d = Suc (hop_distance (hd p) d) \<and>
     unat (cm_ttl m) + length p = 11)"

definition arrived :: "'f csf_message \<Rightarrow> bool" where
  "arrived m \<longleftrightarrow> (\<exists>p. cm_hops m = map role_value p \<and> route (nbrs topology) p \<and>
     cm_source m = role_value (hd p) \<and> cm_destination m = role_value (last p) \<and> cm_delivered m \<and>
     length p = Suc (hop_distance (hd p) (last p)))"

definition arrived_entangled :: "'f csf_message \<Rightarrow> bool" where
  "arrived_entangled m \<longleftrightarrow> (\<exists>a b. is_entangled entangled_new a b \<and> cm_source m = role_value a \<and>
     cm_destination m = role_value b \<and> cm_hops m = [role_value a, entangled_mark @ role_value b] \<and>
     cm_delivered m)"

text \<open>How often a message still has to be processed.\<close>

definition todo :: "'f csf_message \<Rightarrow> nat" where
  "todo m = (case (current_position m, dest_role m) of
     (Some a, Some d) \<Rightarrow> max 1 (hop_distance a d) | _ \<Rightarrow> 0)"

lemma todo_at:
  "cm_hops m = map role_value p \<Longrightarrow> p \<noteq> [] \<Longrightarrow> cm_destination m = role_value d \<Longrightarrow>
   todo m = max 1 (hop_distance (last p) d)"
  by (simp add: todo_def current_position_def dest_role_def last_map)

lemma todo_travelling: "travelling m \<Longrightarrow> 1 \<le> todo m \<and> todo m \<le> 5"
  unfolding travelling_def using hop_distance_le by (fastforce simp: todo_at route_def)

lemma ttl_step: "1 \<le> unat t \<Longrightarrow> unat (t - 1) = unat t - 1" for t :: u32
  by (simp add: unat_sub word_le_nat_alt)

text \<open>What the loop does with a message on its way: it delivers it or brings it one hop closer.\<close>

lemma process_travelling:
  assumes t: "travelling m" and top: "ci_topology s = topology"
  obtains (arrives) m' d where "process_message m (s, out, rem) = deliver d m' (s, out, rem)"
      "arrived m'" "cm_destination m = role_value d" "csf_key m' = csf_key m"
      "cm_priority m' = cm_priority m"
    | (moves) m' where "process_message m (s, out, rem) = (s, out, rem @ [m'])" "travelling m'"
      "csf_key m' = csf_key m" "cm_priority m' = cm_priority m" "todo m' < todo m"
proof -
  obtain p d where p: "cm_hops m = map role_value p" "route (nbrs topology) p"
      "cm_source m = role_value (hd p)" "cm_destination m = role_value d" "\<not> cm_delivered m"
      "length p + hop_distance (last p) d = Suc (hop_distance (hd p) d)"
      "unat (cm_ttl m) + length p = 11"
    using t unfolding travelling_def by blast
  have ne: "p \<noteq> []" using p(2) by (simp add: route_def)
  have len: "length p \<le> 6" using p(6) hop_distance_le [of "hd p" d] by simp
  then have ttl: "cm_ttl m \<noteq> 0" using p(7) by auto
  have cur: "current_position m = Some (last p)" and dst: "dest_role m = Some d"
    using p(1,4) ne by (simp_all add: current_position_def dest_role_def last_map)
  consider (here) "last p = d" | (near) "last p \<noteq> d" "d \<in> set (nbrs topology (last p))"
    | (far) "last p \<noteq> d" "d \<notin> set (nbrs topology (last p))" by blast
  then show thesis
  proof cases
    case here
    let ?m = "m\<lparr>cm_delivered := True\<rparr>"
    have a: "arrived ?m" unfolding arrived_def using p here by auto
    have "process_message m (s, out, rem) = deliver d ?m (s, out, rem)"
      using ttl cur dst here by (simp add: process_message_def)
    then show thesis using a p(4) by (rule arrives) (simp_all add: csf_key_def)
  next
    case near
    let ?m = "m\<lparr>cm_hops := cm_hops m @ [role_value d], cm_delivered := True\<rparr>"
    have h: "hop_distance (last p) d = 1" using tree.dist_neighbor near by simp
    have "cm_hops ?m = map role_value (p @ [d]) \<and> route (nbrs topology) (p @ [d]) \<and>
        cm_source ?m = role_value (hd (p @ [d])) \<and> cm_destination ?m = role_value (last (p @ [d])) \<and>
        cm_delivered ?m \<and> length (p @ [d]) = Suc (hop_distance (hd (p @ [d])) (last (p @ [d])))"
      using p ne h tree.route_snoc [OF p(2) near(2)] by simp
    then have a: "arrived ?m" unfolding arrived_def by blast
    have "process_message m (s, out, rem) = deliver d ?m (s, out, rem)"
      using ttl cur dst near top by (simp add: process_message_def)
    then show thesis using a p(4) by (rule arrives) (simp_all add: csf_key_def)
  next
    case far
    obtain h where h: "find_next_hop topology (last p) d = Some h"
      using tree.hop_returns [OF far(1)] by auto
    let ?m = "m\<lparr>cm_hops := cm_hops m @ [role_value h], cm_ttl := cm_ttl m - 1\<rparr>"
    note n = tree.hop_is_neighbor [OF h far(1)]
    note k = tree.hop_keeps_shortest [OF p(2) far(1) h p(6)]
    have far2: "h \<noteq> d" using n far(2) by auto
    have "unat (cm_ttl m - 1) = unat (cm_ttl m) - 1" using p(7) len by (simp add: ttl_step)
    then have "cm_hops ?m = map role_value (p @ [h]) \<and> route (nbrs topology) (p @ [h]) \<and>
        cm_source ?m = role_value (hd (p @ [h])) \<and> cm_destination ?m = role_value d \<and>
        \<not> cm_delivered ?m \<and>
        length (p @ [h]) + hop_distance (last (p @ [h])) d = Suc (hop_distance (hd (p @ [h])) d) \<and>
        unat (cm_ttl ?m) + length (p @ [h]) = 11"
      using p(1,3,4,5,7) len k by simp
    then have a: "travelling ?m" unfolding travelling_def by blast
    have "todo ?m = max 1 (hop_distance h d)" "todo m = hop_distance (last p) d"
      using todo_at [of ?m "p @ [h]" d] todo_at [OF p(1) ne p(4)] p(1,4) n by simp_all
    moreover have "0 < hop_distance h d" using far2 tree.dist_zero [of h d] by simp
    ultimately have less: "todo ?m < todo m" using n by simp
    have "process_message m (s, out, rem) = (s, out, rem @ [?m])"
      using ttl cur dst far top h by (simp add: process_message_def)
    then show thesis using a by (rule moves) (simp_all add: csf_key_def less)
  qed
qed

section \<open>The invariant\<close>

definition waiting_for :: "sephirah_role \<Rightarrow> 'f csf_message list \<Rightarrow> nat" where
  "waiting_for d q = length (filter (\<lambda>m. cm_destination m = role_value d) q)"

definition csf_inv :: "'f csf_message list \<Rightarrow> 'f csf_transport \<Rightarrow> bool" where
  "csf_inv sent s \<longleftrightarrow>
     ci_topology s = topology \<and> qc_pairs (ci_entangled s) = qc_pairs entangled_new \<and>
     ci_dropped s = 0 \<and> (\<forall>m \<in> set (ci_queue s). travelling m) \<and>
     (\<forall>m \<in> set (ci_delivered s). arrived m \<or> arrived_entangled m) \<and>
     (\<forall>d. unat (pressure_at (ci_pressure s) d) = waiting_for d (ci_queue s)) \<and>
     image_mset csf_key (mset sent) =
       image_mset csf_key (mset (ci_queue s)) + image_mset csf_key (mset (ci_delivered s))"

lemma pressure_at_enqueue [simp]:
  "pressure_at (record_enqueue d pm) e = (if e = d then pressure_at pm d + 1 else pressure_at pm e)"
  by (simp add: pressure_at_def record_enqueue_def)

lemma pressure_at_dequeue [simp]:
  "pressure_at (record_dequeue d pm) e =
     (if e = d then saturating_sub (pressure_at pm d) 1 else pressure_at pm e)"
  by (simp add: pressure_at_def record_dequeue_def)

lemma pressure_at_backpressure [simp]: "pressure_at (record_backpressure pm) e = pressure_at pm e"
  by (simp add: pressure_at_def record_backpressure_def)

lemma pressure_at_new [simp]: "pressure_at (pressure_new w) d = 0"
  by (cases d) (simp_all add: pressure_at_def pressure_new_def all_roles_def)

lemma pm_max_simps [simp]:
  "pm_max_pressure (record_enqueue d pm) = pm_max_pressure pm"
  "pm_max_pressure (record_dequeue d pm) = pm_max_pressure pm"
  "pm_max_pressure (record_backpressure pm) = pm_max_pressure pm"
  "pm_max_pressure (pressure_new w) = w"
  by (simp_all add: record_enqueue_def record_dequeue_def record_backpressure_def pressure_new_def)

lemma csf_inv_new: "csf_inv [] csf_transport_new"
  by (simp add: csf_inv_def csf_transport_new_def waiting_for_def)

lemma csf_inv_process:
  assumes inv: "csf_inv sent (s\<lparr>ci_queue := rem @ m # us\<rparr>)"
    and step: "process_message m (s, out, rem) = (s', out', rem')"
  shows "csf_inv sent (s'\<lparr>ci_queue := rem' @ us\<rparr>)"
    and "sum_list (map todo (rem' @ us)) < sum_list (map todo (rem @ m # us))"
proof -
  have t: "travelling m" "ci_topology s = topology" using inv by (simp_all add: csf_inv_def)
  have "csf_inv sent (s'\<lparr>ci_queue := rem' @ us\<rparr>) \<and>
    sum_list (map todo (rem' @ us)) < sum_list (map todo (rem @ m # us))"
  proof (cases rule: process_travelling [OF t, of out rem, case_names arrives moves])
    case (arrives m' d)
    then have e: "s' = dequeue_for d (s\<lparr>ci_delivered := ci_delivered s @ [m']\<rparr>)" "rem' = rem"
      using step by (simp_all add: deliver_def)
    have w: "unat (pressure_at (ci_pressure s) d) = Suc (waiting_for d (rem @ us))"
      using inv arrives(3) by (simp add: csf_inv_def waiting_for_def)
    show ?thesis
      using inv w arrives(2-4) todo_travelling [OF t(1)]
      by (auto simp: e csf_inv_def dequeue_for_def waiting_for_def unat_saturating_sub)
  next
    case (moves m')
    then have e: "s' = s" "rem' = rem @ [m']" using step by simp_all
    have "cm_destination m' = cm_destination m" using moves(3) by (simp add: csf_key_def)
    then show ?thesis using inv moves by (auto simp: e csf_inv_def waiting_for_def)
  qed
  then show "csf_inv sent (s'\<lparr>ci_queue := rem' @ us\<rparr>)"
    "sum_list (map todo (rem' @ us)) < sum_list (map todo (rem @ m # us))" by simp_all
qed

lemma csf_inv_fold:
  assumes "csf_inv sent (s\<lparr>ci_queue := rem @ ms @ us\<rparr>)"
    and "fold process_message ms (s, out, rem) = (s', out', rem')"
  shows "csf_inv sent (s'\<lparr>ci_queue := rem' @ us\<rparr>) \<and>
    sum_list (map todo (rem' @ us)) + length ms \<le> sum_list (map todo (rem @ ms @ us))"
  using assms
proof (induction ms arbitrary: s out rem)
  case (Cons m ms)
  obtain s1 out1 rem1 where p: "process_message m (s, out, rem) = (s1, out1, rem1)"
    by (cases "process_message m (s, out, rem)")
  have i: "csf_inv sent (s\<lparr>ci_queue := rem @ m # (ms @ us)\<rparr>)" using Cons.prems(1) by simp
  note c = csf_inv_process [OF i p]
  have "fold process_message ms (s1, out1, rem1) = (s', out', rem')" using Cons.prems(2) p by simp
  from Cons.IH [OF c(1) this] c(2) show ?case by simp
qed simp

lemma csf_inv_process_queue:
  assumes "csf_inv sent s" and "process_queue n s = (out, s')"
  shows "csf_inv sent s'"
    and "sum_list (map todo (ci_queue s')) + min (length (ci_queue s)) n \<le> sum_list (map todo (ci_queue s))"
proof -
  let ?k = "min (length (ci_queue s)) n"
  obtain s1 out1 rem1 where f:
    "fold process_message (take ?k (ci_queue s)) (s\<lparr>ci_queue := []\<rparr>, [], []) = (s1, out1, rem1)"
    by (cases "fold process_message (take ?k (ci_queue s)) (s\<lparr>ci_queue := []\<rparr>, [], [])")
  have s': "s' = s1\<lparr>ci_queue := rem1 @ drop ?k (ci_queue s)\<rparr>"
    using assms(2) f by (simp add: process_queue_def Let_def)
  have "csf_inv sent (s\<lparr>ci_queue := [], ci_queue := [] @ take ?k (ci_queue s) @ drop ?k (ci_queue s)\<rparr>)"
    using assms(1) by simp
  from csf_inv_fold [OF this f]
  show "csf_inv sent s'"
    and "sum_list (map todo (ci_queue s')) + ?k \<le> sum_list (map todo (ci_queue s))"
    unfolding s' by simp_all
qed

lemma waiting_for_sort [simp]: "waiting_for d (sort_by gt q) = waiting_for d q"
proof -
  have "mset (filter P (sort_by gt q)) = mset (filter P q)" for P by (simp add: mset_filter)
  then show ?thesis unfolding waiting_for_def by (rule mset_eq_length)
qed

lemma travelling_new:
  "travelling ((message_new E now a d ty pl pr)\<lparr>cm_hops := [role_value a], cm_priority := pr'\<rparr>)"
  unfolding travelling_def
  by (intro exI [of _ "[a]"] exI [of _ d]) (simp add: message_new_def DEFAULT_TTL_def)

lemma message_new_simps [simp]:
  "cm_source (message_new E now a d ty pl pr) = role_value a"
  "cm_destination (message_new E now a d ty pl pr) = role_value d"
  "cm_hops (message_new E now a d ty pl pr) = []"
  "\<not> cm_delivered (message_new E now a d ty pl pr)"
  by (simp_all add: message_new_def)

text \<open>A message that is sent either has been delivered over the channel or joins the queue.\<close>

lemma transport_send_cases:
  assumes "transport_send E now a d pl ty pr s = (m, s')"
  obtains (paired) ch where "is_entangled (ci_entangled s) a d"
      "s' = s\<lparr>ci_entangled := ch, ci_delivered := ci_delivered s @ [m]\<rparr>"
      "qc_pairs ch = qc_pairs (ci_entangled s)"
      "cm_source m = role_value a" "cm_destination m = role_value d" "cm_delivered m"
      "cm_hops m = [role_value a, entangled_mark @ role_value d]"
    | (queued) pm where "s' = s\<lparr>ci_pressure := record_enqueue d pm,
        ci_queue := sort_by (lower_priority (ce_f64 E)) (ci_queue s @ [m])\<rparr>"
      "\<And>e. pressure_at pm e = pressure_at (ci_pressure s) e"
      "travelling m" "cm_destination m = role_value d"
proof (cases "is_entangled (ci_entangled s) a d")
  case True
  then show thesis
    using assms
    by (intro paired [of "(ci_entangled s)\<lparr>qc_deliveries := qc_deliveries (ci_entangled s) + 1\<rparr>"])
      (auto simp: transport_send_def deliver_entangled_def Let_def)
next
  case False
  have t: "travelling ((message_new E now a d ty pl pr)\<lparr>cm_hops := [role_value a]\<rparr>)"
    using travelling_new [where E = E and now = now and a = a and d = d and ty = ty and pl = pl and pr = pr and pr' = pr]
    by (simp add: message_new_def)
  show thesis
  proof (cases "is_congested E (ci_pressure s) d")
    case True
    then show thesis
      using assms False travelling_new
      by (intro queued [of "record_backpressure (ci_pressure s)"]) (auto simp: transport_send_def Let_def)
  next
    case no: False
    then show thesis
      using assms False t by (intro queued [of "ci_pressure s"]) (auto simp: transport_send_def Let_def)
  qed
qed

lemma csf_inv_send:
  assumes inv: "csf_inv sent s" and short: "length sent < 2 ^ 32 - 1"
    and send: "transport_send E now a d pl ty pr s = (m, s')"
  shows "csf_inv (sent @ [m]) s'"
proof (cases rule: transport_send_cases [OF send, case_names paired queued])
  case (paired ch)
  then have "arrived_entangled m"
    using inv unfolding arrived_entangled_def csf_inv_def is_entangled_def by auto
  then show ?thesis using inv paired(2,3) by (auto simp: csf_inv_def)
next
  case (queued pm)
  have "size (image_mset csf_key (mset sent)) = length (ci_queue s) + length (ci_delivered s)"
    using inv by (simp add: csf_inv_def)
  then have "length (ci_queue s) < 2 ^ 32 - 1" using short by simp
  then have "waiting_for d (ci_queue s) < 2 ^ 32 - 1"
    unfolding waiting_for_def using length_filter_le le_less_trans by blast
  then have "unat (pressure_at (ci_pressure s) d + 1) = Suc (waiting_for d (ci_queue s))"
    using inv by (simp add: csf_inv_def unat_add_lem [THEN iffD1])
  then show ?thesis
    using inv queued by (auto simp: csf_inv_def) (simp_all add: waiting_for_def)
qed

lemma csf_inv_broadcast:
  "csf_inv sent s \<Longrightarrow> broadcast_loop E clock a pl pr ds s = (ms, s') \<Longrightarrow>
   length (sent @ ms) < 2 ^ 32 \<Longrightarrow> csf_inv (sent @ ms) s'"
proof (induction ds arbitrary: sent s ms s')
  case (Cons d ds)
  obtain m s1 where m: "transport_send E (clock d) a d pl ''broadcast'' pr s = (m, s1)"
    by (cases "transport_send E (clock d) a d pl ''broadcast'' pr s")
  obtain ms' s2 where l: "broadcast_loop E clock a pl pr ds s1 = (ms', s2)"
    by (cases "broadcast_loop E clock a pl pr ds s1")
  have e: "ms = m # ms'" "s' = s2" using Cons.prems(2) m l by simp_all
  have "csf_inv (sent @ [m]) s1"
    using csf_inv_send [OF Cons.prems(1) _ m] Cons.prems(3) e by simp
  from Cons.IH [OF this l] show ?case using Cons.prems(3) e by simp
qed simp

lemma csf_inv_handle:
  assumes "csf_inv sent s" and "csf_handle E r s = (ms, s')" and "length (sent @ ms) < 2 ^ 32"
  shows "csf_inv (sent @ ms) s'"
proof (cases r)
  case (CsfSend now a d pl ty pr)
  then show ?thesis
    using assms csf_inv_send [OF assms(1)]
    by (auto simp: csf_send_def split: option.splits prod.splits sum.splits)
next
  case (CsfBroadcast clock a pl pr)
  then show ?thesis
    using assms csf_inv_broadcast [OF assms(1)]
    by (auto simp: csf_broadcast_def transport_broadcast_def split: option.splits prod.splits)
next
  case (CsfProcess n)
  then show ?thesis
    using assms csf_inv_process_queue(1) [OF assms(1)]
    by (cases "process_queue n s") auto
qed

lemma csf_inv_run:
  "csf_inv sent s \<Longrightarrow> csf_run E rs s = (ms, s') \<Longrightarrow> length (sent @ ms) < 2 ^ 32 \<Longrightarrow> csf_inv (sent @ ms) s'"
proof (induction rs arbitrary: sent s ms s')
  case (Cons r rs)
  obtain ms1 s1 where h: "csf_handle E r s = (ms1, s1)" by (cases "csf_handle E r s")
  obtain ms2 s2 where l: "csf_run E rs s1 = (ms2, s2)" by (cases "csf_run E rs s1")
  have e: "ms = ms1 @ ms2" "s' = s2" using Cons.prems(2) h l by simp_all
  have "csf_inv (sent @ ms1) s1" using csf_inv_handle [OF Cons.prems(1) h] Cons.prems(3) e by simp
  from Cons.IH [OF this l] show ?case using Cons.prems(3) e by simp
qed simp

lemmas csf_inv_from_new = csf_inv_run [OF csf_inv_new, unfolded append_Nil]

section \<open>Order of the queue\<close>

interpretation csf_order: preorder_sort "lower_priority exact_ops" UNIV
  by unfold_locales (simp_all add: lower_priority_def)

lemma ascending_iff:
  "csf_order.ascending q \<longleftrightarrow> sorted_wrt (\<lambda>a b. cm_priority b \<le> cm_priority a) q"
  by (simp add: csf_order.ascending_def lower_priority_def not_less)

text \<open>The loop keeps the order of what stays, and what it keeps or delivers has its old priority.\<close>

lemma process_priorities:
  assumes "process_message m (s, out, rem) = (s', out', rem')"
  obtains "rem' = rem" "out' = out" | m' where "rem' = rem @ [m']" "out' = out" "cm_priority m' = cm_priority m"
    | m' where "rem' = rem" "out' = out @ [m']" "cm_priority m' = cm_priority m"
proof -
  have "rem' = rem \<and> out' = out \<or> (\<exists>m'. rem' = rem @ [m'] \<and> out' = out \<and> cm_priority m' = cm_priority m) \<or>
      (\<exists>m'. rem' = rem \<and> out' = out @ [m'] \<and> cm_priority m' = cm_priority m)"
    using assms unfolding process_message_def deliver_def
    by (simp split: if_split_asm option.split_asm) force+
  then show thesis using that by blast
qed

lemma fold_priorities:
  assumes "fold process_message ms (s, out, rem) = (s', out', rem')"
    and "sorted_wrt (\<ge>) (map cm_priority (rem @ ms @ us))"
  shows "sorted_wrt (\<ge>) (map cm_priority (rem' @ us)) \<and>
    cm_priority ` set out' \<subseteq> cm_priority ` (set out \<union> set ms)"
  using assms
proof (induction ms arbitrary: s out rem)
  case (Cons m ms)
  obtain s1 out1 rem1 where p: "process_message m (s, out, rem) = (s1, out1, rem1)"
    by (cases "process_message m (s, out, rem)")
  have f: "fold process_message ms (s1, out1, rem1) = (s', out', rem')" using Cons.prems(1) p by simp
  have sorted1: "sorted_wrt (\<ge>) (map cm_priority (rem1 @ ms @ us))"
    using Cons.prems(2) by (cases rule: process_priorities [OF p]) (simp_all add: sorted_wrt_append)
  have out1: "cm_priority ` set out1 \<subseteq> insert (cm_priority m) (cm_priority ` set out)"
    by (cases rule: process_priorities [OF p]) auto
  have "cm_priority ` set out' \<subseteq> cm_priority ` (set out1 \<union> set ms)"
    using Cons.IH [OF f sorted1] by blast
  also have "\<dots> \<subseteq> cm_priority ` (set out \<union> set (m # ms))"
    using out1 by (auto simp: image_Un)
  finally show ?case using Cons.IH [OF f sorted1] by blast
qed simp

lemma process_queue_priorities:
  assumes "process_queue n s = (out, s')" and "sorted_wrt (\<ge>) (map cm_priority (ci_queue s))"
  shows "sorted_wrt (\<ge>) (map cm_priority (ci_queue s'))"
    and "cm_priority ` set out \<subseteq> cm_priority ` set (take n (ci_queue s))"
proof -
  let ?k = "min (length (ci_queue s)) n"
  obtain s1 out1 rem1 where f:
    "fold process_message (take ?k (ci_queue s)) (s\<lparr>ci_queue := []\<rparr>, [], []) = (s1, out1, rem1)"
    by (cases "fold process_message (take ?k (ci_queue s)) (s\<lparr>ci_queue := []\<rparr>, [], [])")
  have e: "s' = s1\<lparr>ci_queue := rem1 @ drop ?k (ci_queue s)\<rparr>" "out = out1"
    using assms(1) f by (simp_all add: process_queue_def Let_def)
  have k: "take ?k (ci_queue s) = take n (ci_queue s)" by (simp add: min_def)
  have "sorted_wrt (\<ge>) (map cm_priority ([] @ take ?k (ci_queue s) @ drop ?k (ci_queue s)))"
    using assms(2) by simp
  from fold_priorities [OF f this]
  show "sorted_wrt (\<ge>) (map cm_priority (ci_queue s'))"
    and "cm_priority ` set out \<subseteq> cm_priority ` set (take n (ci_queue s))"
    unfolding e k by simp_all
qed

text \<open>Properties of the transport that every send, broadcast and round keeps.\<close>

lemma csf_run_keeps:
  assumes send: "\<And>now a d pl ty pr s. I s \<Longrightarrow> I (snd (transport_send E now a d pl ty pr s))"
    and process: "\<And>n s. I s \<Longrightarrow> I (snd (process_queue n s))"
  shows "I s \<Longrightarrow> I (snd (csf_run E rs s))"
proof (induction rs arbitrary: s)
  case (Cons r rs)
  have broadcast: "I s \<Longrightarrow> I (snd (broadcast_loop E clock a pl pr ds s))" for clock a pl pr ds s
    by (induction ds arbitrary: s) (auto simp: split_def Let_def send)
  have "I (snd (csf_handle E r s))"
  proof (cases r)
    case (CsfSend now a d pl ty pr)
    then show ?thesis using send Cons.prems
      by (auto simp: csf_send_def split_def Let_def split: option.splits)
  next
    case (CsfBroadcast clock a pl pr)
    then show ?thesis using broadcast Cons.prems
      by (auto simp: csf_broadcast_def transport_broadcast_def split_def Let_def split: option.splits)
  qed (use process Cons.prems in simp)
  then show ?case using Cons.IH by (simp add: split_def Let_def)
qed simp

lemma send_priorities:
  assumes "ce_f64 E = exact_ops" and "sorted_wrt (\<ge>) (map cm_priority (ci_queue s))"
  shows "sorted_wrt (\<ge>) (map cm_priority (ci_queue (snd (transport_send E now a d pl ty pr s))))"
proof -
  obtain m s' where m: "transport_send E now a d pl ty pr s = (m, s')"
    by (cases "transport_send E now a d pl ty pr s")
  have "csf_order.ascending (sort_by (lower_priority exact_ops) (ci_queue s @ [m]))"
    by (rule csf_order.sort_ascending) simp
  then have "sorted_wrt (\<ge>) (map cm_priority (ci_queue s'))"
    using assms by (cases rule: transport_send_cases [OF m])
      (simp_all add: ascending_iff sorted_wrt_map)
  then show ?thesis by (simp add: m)
qed

lemma queue_sorted_run:
  "ce_f64 E = exact_ops \<Longrightarrow> sorted_wrt (\<ge>) (map cm_priority (ci_queue s)) \<Longrightarrow>
   sorted_wrt (\<ge>) (map cm_priority (ci_queue (snd (csf_run E rs s))))"
  by (rule csf_run_keeps [where I = "\<lambda>s. sorted_wrt (\<ge>) (map cm_priority (ci_queue s))"])
    (simp_all add: send_priorities process_queue_priorities(1) [OF prod.collapse [symmetric]])

lemma queue_todo: "csf_inv sent s \<Longrightarrow> m \<in> set (ci_queue s) \<Longrightarrow> 1 \<le> todo m \<and> todo m \<le> 5"
  unfolding csf_inv_def using todo_travelling by blast

text \<open>Rounds only: the work that is left goes down with every message that is processed.\<close>

lemma rounds_work:
  assumes "csf_inv sent s" and "\<forall>n \<in> set ns. 0 < n"
    and "sum_list (map todo (ci_queue s)) \<le> length ns"
    and "csf_run E (map CsfProcess ns) s = (none, s')"
  shows "csf_inv sent s' \<and> ci_queue s' = []"
  using assms
proof (induction ns arbitrary: s none s')
  case Nil
  then have "\<forall>m \<in> set (ci_queue s). todo m = 0" by (simp add: sum_list_nonneg_eq_0_iff)
  then have "\<forall>m. m \<notin> set (ci_queue s)" using queue_todo [OF Nil.prems(1)] by fastforce
  then have "ci_queue s = []" by (simp add: last_in_set [THEN contrapos_pp])
  then show ?case using Nil.prems by simp
next
  case (Cons n ns)
  obtain out s1 where p: "process_queue n s = (out, s1)" by (cases "process_queue n s")
  obtain none' s2 where r: "csf_run E (map CsfProcess ns) s1 = (none', s2)"
    by (cases "csf_run E (map CsfProcess ns) s1")
  have e: "s' = s2" using Cons.prems(4) p r by simp
  note i = csf_inv_process_queue [OF Cons.prems(1) p]
  have "sum_list (map todo (ci_queue s1)) \<le> length ns"
  proof (cases "ci_queue s")
    case Nil
    then have "sum_list (map todo (ci_queue s)) = 0" by simp
    then show ?thesis using i(2) by linarith
  next
    case (Cons a list)
    have "0 < n" using Cons.prems(2) by simp
    then have "1 \<le> min (length (ci_queue s)) n" using Cons by simp
    moreover have "sum_list (map todo (ci_queue s)) \<le> Suc (length ns)" using Cons.prems(3) by simp
    ultimately show ?thesis using i(2) by linarith
  qed
  then show ?case using Cons.IH [OF i(1) _ _ r] Cons.prems(2) e by simp
qed

lemma work_le: "csf_inv sent s \<Longrightarrow> sum_list (map todo (ci_queue s)) \<le> 5 * length (ci_queue s)"
  using sum_list_mono [of "ci_queue s" todo "\<lambda>_. 5"] queue_todo [of sent s]
  by (simp add: sum_list_triv)

section \<open>What the transport promises\<close>

text \<open>
  C30. The transport loses, repeats and misroutes nothing. Over any sequence of sends, broadcasts
  and rounds from an empty transport, with fewer than \<open>2 ^ 32\<close> messages, every message that was
  sent is exactly once in the queue or in the history. None is ever dropped, and the time to live
  is never used up. What was delivered came along a shortest route to its destination or over the
  channel of its pair. The pressure of a role is the number of messages that wait for it.
\<close>

theorem csf_accounts_for_messages:
  assumes "csf_run E rs csf_transport_new = (sent, s)" and "length sent < 2 ^ 32"
  shows "image_mset csf_key (mset sent) = image_mset csf_key (mset (ci_queue s @ ci_delivered s)) \<and>
    ci_dropped s = 0 \<and> (\<forall>m \<in> set (ci_queue s). travelling m) \<and>
    (\<forall>m \<in> set (ci_delivered s). arrived m \<or> arrived_entangled m) \<and>
    (\<forall>d. unat (pressure_at (ci_pressure s) d) = waiting_for d (ci_queue s))"
  using csf_inv_from_new [OF assms] by (simp add: csf_inv_def)

text \<open>
  C31. Everything is delivered. Whatever was sent before, rounds that each may process at least one
  message, five for every message that is in the queue, empty the queue: then all the messages
  that were sent are in the history, and none was dropped.
\<close>

theorem csf_delivers_everything:
  assumes "csf_run E rs csf_transport_new = (sent, s)" and "length sent < 2 ^ 32"
    and "\<forall>n \<in> set ns. 0 < n" and "5 * length (ci_queue s) \<le> length ns"
    and "csf_run E (map CsfProcess ns) s = (none, s')"
  shows "ci_queue s' = [] \<and> ci_dropped s' = 0 \<and>
    image_mset csf_key (mset (ci_delivered s')) = image_mset csf_key (mset sent)"
proof -
  note i = csf_inv_from_new [OF assms(1,2)]
  have "sum_list (map todo (ci_queue s)) \<le> length ns" using work_le [OF i] assms(4) by simp
  from rounds_work [OF i assms(3) this assms(5)] show ?thesis by (simp add: csf_inv_def)
qed

text \<open>
  The queue is served by priority. In exact arithmetic, after any sequence of requests, also
  rounds that forwarded messages, the queue is in the order of falling priority, and a round of at
  most \<open>n\<close> messages delivers none that has a lower priority than one it leaves for later.
\<close>

theorem csf_serves_by_priority:
  assumes "csf_run E rs csf_transport_new = (sent, s)" and "ce_f64 E = exact_ops"
    and "process_queue n s = (out, s')"
  shows "sorted_wrt (\<lambda>a b. cm_priority b \<le> cm_priority a) (ci_queue s) \<and>
    (\<forall>m \<in> set out. \<forall>u \<in> set (drop n (ci_queue s)). cm_priority u \<le> cm_priority m)"
proof -
  have s: "sorted_wrt (\<ge>) (map cm_priority (ci_queue s))"
    using queue_sorted_run [OF assms(2), of csf_transport_new rs] assms(1) by (simp add: csf_transport_new_def)
  have "cm_priority u \<le> cm_priority m" if m: "m \<in> set out" and u: "u \<in> set (drop n (ci_queue s))" for m u
  proof -
    have "sorted_wrt (\<ge>) (map cm_priority (take n (ci_queue s) @ drop n (ci_queue s)))" using s by simp
    then show ?thesis using process_queue_priorities(2) [OF assms(3) s] m u
      unfolding map_append sorted_wrt_append by force
  qed
  then show ?thesis using s by (simp add: sorted_wrt_map)
qed

section \<open>Examples\<close>

definition csf_demo_env :: "rat csf_env" where
  "csf_demo_env = \<lparr>ce_f64 = exact_ops, ce_to_u32 = (\<lambda>x. of_int \<lfloor>x\<rfloor>), ce_sha256 = (\<lambda>_. replicate 32 0),
     ce_show = (\<lambda>_. [])\<rparr>"

definition csf_demo_requests :: "rat csf_request list" where
  "csf_demo_requests = [CsfSend 0 ''chesed'' ''gevurah'' ''a'' ''signal'' 1,
     CsfSend 0 ''keter'' ''binah'' ''b'' ''signal'' 1, CsfSend 0 ''keter'' ''malkuth'' ''c'' ''query'' 2]"

lemmas csf_demo_eval = csf_demo_env_def csf_demo_requests_def csf_send_def role_from_value [of Keter, simplified]
  role_from_value [of Binah, simplified] role_from_value [of Chesed, simplified]
  role_from_value [of Gevurah, simplified] role_from_value [of Malkuth, simplified]
  transport_send_def message_new_def csf_transport_new_def is_entangled_def entangled_new_def
  SUSY_PAIRS_def deliver_entangled_def is_congested_def MAX_NODE_PRESSURE_def BACKPRESSURE_THRESHOLD_def
  lower_priority_def DEFAULT_TTL_def process_queue_def process_message_def current_position_def
  dest_role_def source_role_def

lemma csf_demo_run:
  "\<exists>sent s. csf_run csf_demo_env csf_demo_requests csf_transport_new = (sent, s) \<and> length sent = 3 \<and>
     length (ci_queue s) = 2 \<and> cm_priority (hd (ci_queue s)) = 2 \<and> length (ci_delivered s) = 1"
  by (simp add: csf_demo_eval Let_def)

lemma csf_accounts_for_messages_witness:
  "\<exists>sent s. csf_run csf_demo_env csf_demo_requests csf_transport_new = (sent, s) \<and> length sent = 3 \<and>
     length (ci_queue s @ ci_delivered s) = 3 \<and> ci_dropped s = 0 \<and>
     travelling (hd (ci_queue s)) \<and> unat (pressure_at (ci_pressure s) Malkuth) = waiting_for Malkuth (ci_queue s)"
proof -
  obtain sent s where r: "csf_run csf_demo_env csf_demo_requests csf_transport_new = (sent, s)"
    "length sent = 3" "length (ci_queue s) = 2" "length (ci_delivered s) = 1"
    using csf_demo_run by blast
  have "length sent < 2 ^ 32" using r(2) by simp
  note a = csf_accounts_for_messages [OF r(1) this]
  have "hd (ci_queue s) \<in> set (ci_queue s)" using r(3) by (intro hd_in_set) auto
  then show ?thesis using a r by auto
qed

lemma csf_delivers_everything_witness:
  "\<exists>sent s s'. csf_run csf_demo_env csf_demo_requests csf_transport_new = (sent, s) \<and> length (ci_queue s) = 2 \<and>
     s' = snd (csf_run csf_demo_env (map CsfProcess (replicate 10 1)) s) \<and> ci_queue s' = [] \<and>
     image_mset csf_key (mset (ci_delivered s')) = image_mset csf_key (mset sent)"
proof -
  obtain sent s where r: "csf_run csf_demo_env csf_demo_requests csf_transport_new = (sent, s)"
    "length sent = 3" "length (ci_queue s) = 2"
    using csf_demo_run by blast
  obtain none s' where n: "csf_run csf_demo_env (map CsfProcess (replicate 10 1)) s = (none, s')"
    by (cases "csf_run csf_demo_env (map CsfProcess (replicate 10 1)) s")
  have "ci_queue s' = [] \<and> ci_dropped s' = 0 \<and>
      image_mset csf_key (mset (ci_delivered s')) = image_mset csf_key (mset sent)"
    by (rule csf_delivers_everything [OF r(1) _ _ _ n]) (use r in auto)
  then show ?thesis using r n by (intro exI [of _ sent] exI [of _ s] exI [of _ s']) simp
qed

lemma csf_serves_by_priority_witness:
  "\<exists>sent s. csf_run csf_demo_env csf_demo_requests csf_transport_new = (sent, s) \<and> length (ci_queue s) = 2 \<and>
     sorted_wrt (\<lambda>a b. cm_priority b \<le> cm_priority a) (ci_queue s)"
proof -
  obtain sent s where r: "csf_run csf_demo_env csf_demo_requests csf_transport_new = (sent, s)"
    "length (ci_queue s) = 2"
    using csf_demo_run by blast
  have e: "ce_f64 csf_demo_env = exact_ops" by (simp add: csf_demo_env_def)
  obtain out s' where p: "process_queue 1 s = (out, s')" by (cases "process_queue 1 s")
  show ?thesis using csf_serves_by_priority [OF r(1) e p] r by blast
qed

end
