(* ===== verification/Commitments.thy ===== *)
theory Commitments
  imports Prelude
begin

text \<open>
  The privacy primitives of the command line client, \<open>aether-cli/crates/aether-privacy\<close>: Pedersen
  commitments and their balance check (\<open>commitment.rs\<close>), stealth addresses and key images
  (\<open>stealth.rs\<close>) and the range proofs (\<open>range_proof.rs\<close>). The curve (crate k256), SHA-256 and the
  random generator are parameters; a point is an element of a commutative group, a scalar a number
  below the order of the group. A \<open>[u8; 32]\<close> is a 256-bit word. What may loop forever is \<open>None\<close>.
\<close>

section \<open>The curve\<close>

record 'p crypto =
  cv_order :: nat
  cv_generator :: 'p
  cv_mul :: "'p \<Rightarrow> nat \<Rightarrow> 'p" \<comment> \<open>a point times a scalar\<close>
  cv_encode :: "'p \<Rightarrow> u8 list" \<comment> \<open>\<open>to_affine().to_bytes()\<close>\<close>
  cv_decode :: "u8 list \<Rightarrow> 'p option" \<comment> \<open>\<open>AffinePoint::from_bytes\<close>\<close>
  cv_uncompressed :: "'p \<Rightarrow> u8 list" \<comment> \<open>\<open>to_encoded_point(false)\<close>\<close>
  cv_sha256 :: "u8 list \<Rightarrow> h256"

text \<open>Scalars: sums, differences and products modulo the order, and their 32 bytes.\<close>

definition sc_reduce :: "'p crypto \<Rightarrow> h256 \<Rightarrow> nat" where
  "sc_reduce E w = unat w mod cv_order E"

definition sc_from :: "'p crypto \<Rightarrow> u64 \<Rightarrow> nat" where
  "sc_from E v = unat v mod cv_order E"

definition sc_add :: "'p crypto \<Rightarrow> nat \<Rightarrow> nat \<Rightarrow> nat" where
  "sc_add E a b = (a + b) mod cv_order E"

definition sc_sub :: "'p crypto \<Rightarrow> nat \<Rightarrow> nat \<Rightarrow> nat" where
  "sc_sub E a b = (a + (cv_order E - b)) mod cv_order E"

definition sc_mul :: "'p crypto \<Rightarrow> nat \<Rightarrow> nat \<Rightarrow> nat" where
  "sc_mul E a b = (a * b) mod cv_order E"

definition sc_bytes :: "nat \<Rightarrow> h256" where
  "sc_bytes a = of_nat a"

text \<open>
  The documented behaviour of the curve: scalars act linearly on points, a point is read back from
  its 33 bytes, and a scalar fits into 32 bytes.
\<close>

definition curve_ok :: "'p::ab_group_add crypto \<Rightarrow> bool" where
  "curve_ok E \<longleftrightarrow> 0 < cv_order E \<and> cv_order E \<le> 2 ^ 256 \<and>
     (\<forall>P. cv_decode E (cv_encode E P) = Some P \<and> length (cv_encode E P) = 33) \<and>
     (\<forall>P a b. cv_mul E P ((a + b) mod cv_order E) = cv_mul E P a + cv_mul E P b) \<and>
     (\<forall>P a b. cv_mul E (cv_mul E P a) b = cv_mul E P (a * b mod cv_order E))"

section \<open>Points from hashes\<close>

text \<open>Hash and increment; the counter is a \<open>u32\<close>.\<close>

definition candidate :: "'p crypto \<Rightarrow> u8 list \<Rightarrow> u32 \<Rightarrow> 'p option" where
  "candidate E seed counter = cv_decode E (0x02 # be_bytes (cv_sha256 E (seed @ le_bytes counter)))"

partial_function (option) try_increment :: "'p crypto \<Rightarrow> u8 list \<Rightarrow> u32 \<Rightarrow> 'p option" where
  [code]: "try_increment E seed counter =
     (case candidate E seed counter of Some p \<Rightarrow> Some p | None \<Rightarrow> try_increment E seed (counter + 1))"

definition generator_h :: "'p crypto \<Rightarrow> 'p option" where
  "generator_h E = try_increment E (ascii ''Qubitcoin_Pedersen_H_generator_v1'') 0"

definition hash_to_point :: "'p crypto \<Rightarrow> u8 list \<Rightarrow> 'p option" where
  "hash_to_point E data = try_increment E (ascii ''QBC_hash_to_point_v1'' @ data) 0"

section \<open>Pedersen commitments\<close>

record pedersen_commitment =
  pc_point :: "u8 list"
  pc_value :: u64
  pc_blinding :: "u8 list"

definition compute_commitment :: "'p::ab_group_add crypto \<Rightarrow> u64 \<Rightarrow> h256 \<Rightarrow> 'p option" where
  "compute_commitment E amount blinding =
     map_option (\<lambda>h. cv_mul E (cv_generator E) (sc_from E amount) + cv_mul E h (sc_reduce E blinding))
       (generator_h E)"

definition commit_with_blinding :: "'p::ab_group_add crypto \<Rightarrow> u64 \<Rightarrow> h256 \<Rightarrow> pedersen_commitment option" where
  "commit_with_blinding E amount blinding =
     map_option (\<lambda>p. \<lparr>pc_point = cv_encode E p, pc_value = amount, pc_blinding = be_bytes blinding\<rparr>)
       (compute_commitment E amount blinding)"

text \<open>The random generator: block \<open>k\<close> of 32 bytes, and the number of the next block.\<close>

type_synonym random = "nat \<Rightarrow> h256"

definition generate_blinding :: "'p crypto \<Rightarrow> random \<Rightarrow> nat \<Rightarrow> h256 \<times> nat" where
  "generate_blinding E rand k = (sc_bytes (sc_reduce E (rand k)), k + 1)"

definition commit :: "'p::ab_group_add crypto \<Rightarrow> random \<Rightarrow> nat \<Rightarrow> u64 \<Rightarrow> (pedersen_commitment \<times> nat) option" where
  "commit E rand k amount =
     (let (b, k') = generate_blinding E rand k in map_option (\<lambda>c. (c, k')) (commit_with_blinding E amount b))"

definition commitment_verify :: "'p::ab_group_add crypto \<Rightarrow> pedersen_commitment \<Rightarrow> bool option" where
  "commitment_verify E c =
     (if length (pc_blinding c) \<noteq> 32 then Some False
      else map_option (\<lambda>p. cv_encode E p = pc_point c)
             (compute_commitment E (pc_value c) (of_nat (be_value (pc_blinding c)))))"

definition to_point :: "'p crypto \<Rightarrow> u8 list \<Rightarrow> 'p option" where
  "to_point E bytes = (if length bytes = 33 then cv_decode E bytes else None)"

text \<open>The two loops of the balance check; a point that does not decode ends them.\<close>

fun sum_points :: "'p::ab_group_add crypto \<Rightarrow> 'p \<Rightarrow> u8 list list \<Rightarrow> 'p option" where
  "sum_points E acc [] = Some acc"
| "sum_points E acc (b # bs) =
     (case to_point E b of Some p \<Rightarrow> sum_points E (acc + p) bs | None \<Rightarrow> None)"

definition verify_commitment_balance ::
  "'p::ab_group_add crypto \<Rightarrow> u8 list list \<Rightarrow> u8 list list \<Rightarrow> u64 \<Rightarrow> bool" where
  "verify_commitment_balance E input_points output_points fee =
     (case sum_points E 0 input_points of
        None \<Rightarrow> False
      | Some sum_in \<Rightarrow>
        (case sum_points E 0 output_points of
           None \<Rightarrow> False
         | Some sum_out \<Rightarrow>
           (let excess = sum_in - sum_out - cv_mul E (cv_generator E) (sc_from E fee);
                unused = cv_encode E excess
            in True)))"

section \<open>Stealth addresses\<close>

datatype privacy_error =
    BadPointLength nat | InvalidPoint | BadScalarLength nat
  | NoInputs | NoOutputs | Unbalanced u64 u64 u64 int
  | KeyImageFailed privacy_error | StealthFailed privacy_error
  | RangeProofInvalid nat | DuplicateKeyImage | BalanceCheckFailed

record stealth_keypair =
  sk_spend_privkey :: "u8 list"
  sk_spend_pubkey :: "u8 list"
  sk_view_privkey :: "u8 list"
  sk_view_pubkey :: "u8 list"

record stealth_output =
  so_one_time_address :: "u8 list"
  so_ephemeral_pubkey :: "u8 list"

definition public_address :: "stealth_keypair \<Rightarrow> u8 list" where
  "public_address kp = sk_spend_pubkey kp @ sk_view_pubkey kp"

definition generate_keypair :: "'p crypto \<Rightarrow> random \<Rightarrow> nat \<Rightarrow> (nat \<times> 'p) \<times> nat" where
  "generate_keypair E rand k =
     (let scalar = sc_reduce E (rand k) in ((scalar, cv_mul E (cv_generator E) scalar), k + 1))"

definition stealth_keygen :: "'p crypto \<Rightarrow> random \<Rightarrow> nat \<Rightarrow> stealth_keypair \<times> nat" where
  "stealth_keygen E rand k =
     (let ((spend_priv, spend_pub), k1) = generate_keypair E rand k;
          ((view_priv, view_pub), k2) = generate_keypair E rand k1
      in (\<lparr>sk_spend_privkey = be_bytes (sc_bytes spend_priv), sk_spend_pubkey = cv_encode E spend_pub,
           sk_view_privkey = be_bytes (sc_bytes view_priv), sk_view_pubkey = cv_encode E view_pub\<rparr>, k2))"

definition decode_point :: "'p crypto \<Rightarrow> u8 list \<Rightarrow> privacy_error + 'p" where
  "decode_point E bytes =
     (if length bytes \<noteq> 33 then Inl (BadPointLength (length bytes))
      else (case cv_decode E bytes of Some p \<Rightarrow> Inr p | None \<Rightarrow> Inl InvalidPoint))"

definition decode_scalar :: "'p crypto \<Rightarrow> u8 list \<Rightarrow> privacy_error + nat" where
  "decode_scalar E bytes =
     (if length bytes \<noteq> 32 then Inl (BadScalarLength (length bytes))
      else Inr (sc_reduce E (of_nat (be_value bytes))))"

definition hash_shared_point :: "'p crypto \<Rightarrow> 'p \<Rightarrow> h256" where
  "hash_shared_point E p = cv_sha256 E (ascii ''QBC_stealth_shared_secret_v1'' @ cv_uncompressed E p)"

text \<open>The address that the sender and the recipient compute from the shared point.\<close>

definition one_time_point :: "'p::ab_group_add crypto \<Rightarrow> 'p \<Rightarrow> nat \<Rightarrow> 'p" where
  "one_time_point E spend_pub ss = spend_pub + cv_mul E (cv_generator E) ss"

definition create_stealth_output ::
  "'p::ab_group_add crypto \<Rightarrow> random \<Rightarrow> nat \<Rightarrow> u8 list \<Rightarrow> u8 list \<Rightarrow>
   (privacy_error + stealth_output) \<times> nat" where
  "create_stealth_output E rand k spend view =
     (case decode_point E spend of
        Inl e \<Rightarrow> (Inl e, k)
      | Inr spend_pub \<Rightarrow>
        (case decode_point E view of
           Inl e \<Rightarrow> (Inl e, k)
         | Inr view_pub \<Rightarrow>
           (let ((eph_priv, eph_pub), k') = generate_keypair E rand k;
                ss = sc_reduce E (hash_shared_point E (cv_mul E view_pub eph_priv))
            in (Inr \<lparr>so_one_time_address = cv_encode E (one_time_point E spend_pub ss),
                     so_ephemeral_pubkey = cv_encode E eph_pub\<rparr>, k'))))"

definition scan_output ::
  "'p::ab_group_add crypto \<Rightarrow> stealth_keypair \<Rightarrow> u8 list \<Rightarrow> u8 list \<Rightarrow> privacy_error + u8 list option" where
  "scan_output E kp ephemeral_pubkey output_address =
     (case decode_point E ephemeral_pubkey of Inl e \<Rightarrow> Inl e
      | Inr eph_pub \<Rightarrow>
     (case decode_scalar E (sk_view_privkey kp) of Inl e \<Rightarrow> Inl e
      | Inr view_priv \<Rightarrow>
     (case decode_scalar E (sk_spend_privkey kp) of Inl e \<Rightarrow> Inl e
      | Inr spend_priv \<Rightarrow>
     (case decode_point E (sk_spend_pubkey kp) of Inl e \<Rightarrow> Inl e
      | Inr spend_pub \<Rightarrow>
        (let ss = sc_reduce E (hash_shared_point E (cv_mul E eph_pub view_priv))
         in if cv_encode E (one_time_point E spend_pub ss) = output_address
            then Inr (Some (be_bytes (sc_bytes (sc_add E spend_priv ss))))
            else Inr None)))))"

definition compute_key_image ::
  "'p crypto \<Rightarrow> u8 list \<Rightarrow> (privacy_error + u8 list) option" where
  "compute_key_image E spending_key =
     (case decode_scalar E spending_key of
        Inl e \<Rightarrow> Some (Inl e)
      | Inr sk \<Rightarrow>
        map_option (\<lambda>hp. Inr (cv_encode E (cv_mul E hp sk)))
          (hash_to_point E (cv_encode E (cv_mul E (cv_generator E) sk))))"

section \<open>Range proofs\<close>

record range_proof =
  rp_commitment :: "u8 list"
  rp_bit_commitments :: "u8 list list"
  rp_challenge_responses :: "u8 list list"
  rp_transcript_hash :: h256
  rp_n_bits :: u8

definition value_bits :: "u64 \<Rightarrow> u64 list" where
  "value_bits v = map (\<lambda>i. and (drop_bit i v) 1) [0..<64]"

text \<open>The first loop: a blinding and a commitment for every bit.\<close>

fun bit_commits ::
  "'p::ab_group_add crypto \<Rightarrow> random \<Rightarrow> nat \<Rightarrow> u64 list \<Rightarrow> ((u8 list \<times> h256) list \<times> nat) option" where
  "bit_commits E rand k [] = Some ([], k)"
| "bit_commits E rand k (b # bs) =
     (let (blind, k') = generate_blinding E rand k
      in (case commit_with_blinding E b blind of
            None \<Rightarrow> None
          | Some c \<Rightarrow> map_option (\<lambda>(cs, k2). ((pc_point c, blind) # cs, k2)) (bit_commits E rand k' bs)))"

definition transcript :: "'p crypto \<Rightarrow> u8 list \<Rightarrow> u8 list list \<Rightarrow> h256" where
  "transcript E point bits = cv_sha256 E (ascii ''QBC_range_proof_v1'' @ point @ concat bits)"

definition range_generate ::
  "'p::ab_group_add crypto \<Rightarrow> random \<Rightarrow> nat \<Rightarrow> u64 \<Rightarrow> h256 \<Rightarrow> (range_proof \<times> nat) option" where
  "range_generate E rand k amount blinding =
     (case commit_with_blinding E amount blinding of
        None \<Rightarrow> None
      | Some c \<Rightarrow>
        (case bit_commits E rand k (value_bits amount) of
           None \<Rightarrow> None
         | Some (cs, k') \<Rightarrow>
           (let hash = transcript E (pc_point c) (map fst cs);
                challenge = sc_reduce E hash;
                response = (\<lambda>(blind, bit). be_bytes (sc_bytes
                   (sc_add E (sc_reduce E blind) (sc_mul E challenge (sc_from E bit)))))
            in Some (\<lparr>rp_commitment = pc_point c, rp_bit_commitments = map fst cs,
                 rp_challenge_responses = map response (zip (map snd cs) (value_bits amount)),
                 rp_transcript_hash = hash, rp_n_bits = 64\<rparr>, k'))))"

text \<open>
  The verification. Its last loop adds up the bit commitments, weighted by powers of two, and
  then returns true whatever the sum is.
\<close>

fun weighted_sum :: "'p::ab_group_add crypto \<Rightarrow> nat \<Rightarrow> 'p \<Rightarrow> u8 list list \<Rightarrow> 'p option" where
  "weighted_sum E i acc [] = Some acc"
| "weighted_sum E i acc (b # bs) =
     (case cv_decode E b of
        None \<Rightarrow> None
      | Some p \<Rightarrow> weighted_sum E (i + 1) (acc + cv_mul E p (sc_from E (push_bit (min i 63) 1))) bs)"

fun bits_well_formed :: "'p crypto \<Rightarrow> u8 list list \<Rightarrow> u8 list list \<Rightarrow> bool" where
  "bits_well_formed E (b # bs) (r # rs) =
     (if length b \<noteq> 33 \<or> length r \<noteq> 32 then False
      else if cv_decode E b = None then False
      else bits_well_formed E bs rs)"
| "bits_well_formed E _ _ = True"

definition range_verify :: "'p::ab_group_add crypto \<Rightarrow> range_proof \<Rightarrow> bool" where
  "range_verify E p =
     (if length (rp_bit_commitments p) \<noteq> unat (rp_n_bits p) \<or>
         length (rp_challenge_responses p) \<noteq> unat (rp_n_bits p) then False
      else if transcript E (rp_commitment p) (rp_bit_commitments p) \<noteq> rp_transcript_hash p then False
      else if \<not> bits_well_formed E (rp_bit_commitments p) (rp_challenge_responses p) then False
      else (let reconstructed = weighted_sum E 0 0 (rp_bit_commitments p) in True))"

definition proof_size :: "range_proof \<Rightarrow> nat" where
  "proof_size p = length (rp_commitment p) + sum_list (map length (rp_bit_commitments p)) +
     sum_list (map length (rp_challenge_responses p)) + 32 + 1"

section \<open>Scalars and points\<close>

lemma order_pos: "curve_ok E \<Longrightarrow> 0 < cv_order E" and order_le: "curve_ok E \<Longrightarrow> cv_order E \<le> 2 ^ 256"
  by (simp_all add: curve_ok_def)

lemma decode_encode: "curve_ok E \<Longrightarrow> cv_decode E (cv_encode E P) = Some P"
  and length_encode: "curve_ok E \<Longrightarrow> length (cv_encode E P) = 33"
  by (simp_all add: curve_ok_def)

lemma mul_add: "curve_ok E \<Longrightarrow> cv_mul E P ((a + b) mod cv_order E) = cv_mul E P a + cv_mul E P b"
  and mul_mul: "curve_ok E \<Longrightarrow> cv_mul E (cv_mul E P a) b = cv_mul E P (a * b mod cv_order E)"
  by (simp_all add: curve_ok_def)

lemma mul_zero: "curve_ok E \<Longrightarrow> cv_mul E P 0 = 0"
  using mul_add [of E P 0 0] order_pos [of E] by simp

lemma mul_mod: "curve_ok E \<Longrightarrow> cv_mul E P (a mod cv_order E) = cv_mul E P a"
  using mul_add [of E P a 0] by (simp add: mul_zero)

lemma mul_sum: "curve_ok E \<Longrightarrow> cv_mul E P (a + b) = cv_mul E P a + cv_mul E P b"
  using mul_add [of E P a b] by (simp add: mul_mod)

lemma mul_sc_add: "curve_ok E \<Longrightarrow> cv_mul E P (sc_add E a b) = cv_mul E P a + cv_mul E P b"
  by (simp add: sc_add_def mul_add)

lemma mul_order: "curve_ok E \<Longrightarrow> cv_mul E P (cv_order E) = 0"
  using mul_mod [of E P "cv_order E"] by (simp add: mul_zero)

lemma mul_sc_sub:
  assumes "curve_ok E" and "b \<le> cv_order E"
  shows "cv_mul E P (sc_sub E a b) = cv_mul E P a - cv_mul E P b"
proof -
  have "cv_mul E P (cv_order E - b) + cv_mul E P b = 0"
    using mul_sum [OF assms(1), of P "cv_order E - b" b] assms by (simp add: mul_order)
  then have "cv_mul E P (cv_order E - b) = - cv_mul E P b" by (simp add: add_eq_0_iff2)
  then show ?thesis unfolding sc_sub_def mul_add [OF assms(1)] by simp
qed

lemma mul_commute: "curve_ok E \<Longrightarrow> cv_mul E (cv_mul E P a) b = cv_mul E (cv_mul E P b) a"
  by (simp add: mul_mul mult.commute)

lemma encode_inject: "curve_ok E \<Longrightarrow> cv_encode E P = cv_encode E Q \<longleftrightarrow> P = Q"
  using decode_encode by (metis option.inject)

lemma to_point_encode: "curve_ok E \<Longrightarrow> to_point E (cv_encode E P) = Some P"
  by (simp add: to_point_def length_encode decode_encode)

lemma decode_point_encode: "curve_ok E \<Longrightarrow> decode_point E (cv_encode E P) = Inr P"
  by (simp add: decode_point_def length_encode decode_encode)

lemma sc_reduce_less: "curve_ok E \<Longrightarrow> sc_reduce E w < cv_order E"
  by (simp add: sc_reduce_def order_pos)

lemma sc_bytes_reduce: "curve_ok E \<Longrightarrow> a < cv_order E \<Longrightarrow> sc_reduce E (sc_bytes a) = a"
  using order_le [of E] by (simp add: sc_reduce_def sc_bytes_def unat_of_nat_less)

lemma sc_bytes_decode:
  "curve_ok E \<Longrightarrow> a < cv_order E \<Longrightarrow> decode_scalar E (be_bytes (sc_bytes a)) = Inr a"
  using sc_bytes_reduce [of E a]
  by (simp add: decode_scalar_def be_value_be_bytes)

text \<open>Sums of points that were encoded.\<close>

lemma sum_points_encoded:
  "curve_ok E \<Longrightarrow> sum_points E acc (map (\<lambda>x. cv_encode E (f x)) xs) = Some (acc + sum_list (map f xs))"
  by (induction xs arbitrary: acc) (simp_all add: to_point_encode add.assoc)

section \<open>Hash and increment\<close>

lemma try_increment_simp:
  "try_increment E seed c =
     (case candidate E seed c of Some p \<Rightarrow> Some p | None \<Rightarrow> try_increment E seed (c + 1))"
  by (rule try_increment.simps)

text \<open>The loop returns from a counter exactly when some counter gives a point.\<close>

lemma try_increment_steps:
  "(\<forall>j < n. candidate E seed (c + of_nat j) = None) \<Longrightarrow>
   try_increment E seed c = try_increment E seed (c + of_nat n)"
proof (induction n)
  case (Suc n)
  then have "try_increment E seed c = try_increment E seed (c + of_nat n)"
    and "candidate E seed (c + of_nat n) = None" by simp_all
  then show ?case by (subst (asm) (2) try_increment_simp) (simp add: algebra_simps)
qed simp

lemma try_increment_first:
  assumes "candidate E seed c = Some p" and "\<forall>c' < c. candidate E seed c' = None"
  shows "try_increment E seed 0 = Some p"
proof -
  have "candidate E seed (0 + of_nat j) = None" if "j < unat c" for j
  proof -
    have "j < 2 ^ 32" using that u32_less [of c] by simp
    then have "unat (of_nat j :: u32) = j" by (intro unat_of_nat_less) simp
    then have "(of_nat j :: u32) < c" using that by (simp add: word_less_nat_alt)
    then show ?thesis using assms(2) by simp
  qed
  then have "try_increment E seed 0 = try_increment E seed (0 + of_nat (unat c))"
    by (intro try_increment_steps) blast
  also have "\<dots> = Some p" using assms(1) by (subst try_increment_simp) simp
  finally show ?thesis .
qed

lemma try_increment_result:
  assumes r: "try_increment E seed c = Some p"
  shows "\<exists>c'. candidate E seed c' = Some p"
proof (rule try_increment.raw_induct [where P = "\<lambda>E seed c p. \<exists>c'. candidate E seed c' = Some p", OF _ r])
  fix f :: "'a crypto \<Rightarrow> u8 list \<Rightarrow> u32 \<Rightarrow> 'a option" and E seed c p
  assume "\<And>E seed c p. f E seed c = Some p \<Longrightarrow> \<exists>c'. candidate E seed c' = Some p"
    and "(case candidate E seed c of None \<Rightarrow> f E seed (c + 1) | Some p \<Rightarrow> Some p) = Some p"
  then show "\<exists>c'. candidate E seed c' = Some p" by (auto split: option.splits)
qed

lemma try_increment_returns:
  "try_increment E seed 0 \<noteq> None \<longleftrightarrow> (\<exists>c. candidate E seed c \<noteq> None)"
proof
  assume "\<exists>c. candidate E seed c \<noteq> None"
  then have "\<exists>c. candidate E seed c \<noteq> None \<and> (\<forall>c' < c. candidate E seed c' = None)"
    using exists_least_iff [of "\<lambda>c. candidate E seed c \<noteq> None"] by auto
  then show "try_increment E seed 0 \<noteq> None" using try_increment_first by fastforce
qed (metis not_None_eq try_increment_result)

text \<open>Every seed leads to a point; for the curve half of all candidates are points.\<close>

definition points_found :: "'p crypto \<Rightarrow> bool" where
  "points_found E \<longleftrightarrow> (\<forall>seed. \<exists>c. candidate E seed c \<noteq> None)"

lemma hash_to_point_returns: "points_found E \<Longrightarrow> \<exists>p. hash_to_point E data = Some p"
  unfolding hash_to_point_def points_found_def using try_increment_returns by fastforce

lemma generator_h_returns: "points_found E \<Longrightarrow> \<exists>h. generator_h E = Some h"
  unfolding generator_h_def points_found_def using try_increment_returns by fastforce

section \<open>Commitments\<close>

definition commit_point :: "'p::ab_group_add crypto \<Rightarrow> 'p \<Rightarrow> u64 \<Rightarrow> h256 \<Rightarrow> 'p" where
  "commit_point E h v b = cv_mul E (cv_generator E) (sc_from E v) + cv_mul E h (sc_reduce E b)"

lemma commit_with_blinding_simp:
  "generator_h E = Some h \<Longrightarrow> commit_with_blinding E v b =
     Some \<lparr>pc_point = cv_encode E (commit_point E h v b), pc_value = v, pc_blinding = be_bytes b\<rparr>"
  by (simp add: commit_with_blinding_def compute_commitment_def commit_point_def)

lemma commit_point_mul:
  "curve_ok E \<Longrightarrow> commit_point E h v b =
     cv_mul E (cv_generator E) (unat v) + cv_mul E h (sc_reduce E b)"
  by (simp add: commit_point_def sc_from_def mul_mod)

lemma commitment_verify_iff:
  assumes "generator_h E = Some h"
  shows "commitment_verify E c = Some True \<longleftrightarrow> length (pc_blinding c) = 32 \<and>
    pc_point c = cv_encode E (commit_point E h (pc_value c) (of_nat (be_value (pc_blinding c))))"
  using assms by (auto simp: commitment_verify_def compute_commitment_def commit_point_def)

text \<open>
  Commitments. A commitment verifies with the value and the blinding it was made with. The sum
  of two is the point of the commitment to the sum of the values with the sum of the blindings. Two
  openings of one point, both verified, tie the generators together: the difference of the values
  times the first is the difference of the blindings times the second, so that opening a commitment
  to another value takes a discrete logarithm.
\<close>

theorem commitment_opens_once:
  assumes "curve_ok E" and "generator_h E = Some h"
  shows "(\<exists>c. commit_with_blinding E v b = Some c \<and> pc_value c = v \<and> commitment_verify E c = Some True) \<and>
    cv_mul E (cv_generator E) (sc_add E (sc_from E v) (sc_from E v')) +
      cv_mul E h (sc_add E (sc_reduce E b) (sc_reduce E b')) = commit_point E h v b + commit_point E h v' b' \<and>
    (\<forall>c c'. commitment_verify E c = Some True \<and> commitment_verify E c' = Some True \<and>
        pc_point c = pc_point c' \<longrightarrow>
      cv_mul E (cv_generator E) (sc_sub E (sc_from E (pc_value c)) (sc_from E (pc_value c'))) =
      cv_mul E h (sc_sub E (sc_reduce E (of_nat (be_value (pc_blinding c'))))
                           (sc_reduce E (of_nat (be_value (pc_blinding c))))))"
proof (intro conjI allI impI)
  show "\<exists>c. commit_with_blinding E v b = Some c \<and> pc_value c = v \<and> commitment_verify E c = Some True"
    by (simp add: commit_with_blinding_simp [OF assms(2)] commitment_verify_iff [OF assms(2)]
        be_value_be_bytes)
  show "cv_mul E (cv_generator E) (sc_add E (sc_from E v) (sc_from E v')) +
      cv_mul E h (sc_add E (sc_reduce E b) (sc_reduce E b')) = commit_point E h v b + commit_point E h v' b'"
    by (simp add: commit_point_def mul_sc_add [OF assms(1)])
next
  fix c c'
  assume a: "commitment_verify E c = Some True \<and> commitment_verify E c' = Some True \<and> pc_point c = pc_point c'"
  have le: "sc_from E w \<le> cv_order E" "sc_reduce E x \<le> cv_order E" for w x
    using order_pos [OF assms(1)] by (simp_all add: sc_from_def sc_reduce_def less_imp_le)
  have "commit_point E h (pc_value c) (of_nat (be_value (pc_blinding c))) =
      commit_point E h (pc_value c') (of_nat (be_value (pc_blinding c')))"
    using a encode_inject [OF assms(1)] unfolding commitment_verify_iff [OF assms(2)] by metis
  then show "cv_mul E (cv_generator E) (sc_sub E (sc_from E (pc_value c)) (sc_from E (pc_value c'))) =
      cv_mul E h (sc_sub E (sc_reduce E (of_nat (be_value (pc_blinding c'))))
                           (sc_reduce E (of_nat (be_value (pc_blinding c)))))"
    by (simp add: commit_point_def mul_sc_sub [OF assms(1)] le algebra_simps)
qed

section \<open>Range proofs\<close>

lemma bit_commits_ok:
  assumes "generator_h E = Some h" and "curve_ok E"
  shows "\<exists>cs. bit_commits E rand k bs = Some (cs, k + length bs) \<and> length cs = length bs \<and>
    (\<forall>c \<in> set cs. \<exists>P. fst c = cv_encode E P)"
proof (induction bs arbitrary: k)
  case (Cons b bs)
  obtain cs where "bit_commits E rand (k + 1) bs = Some (cs, k + 1 + length bs)" "length cs = length bs"
    "\<forall>c \<in> set cs. \<exists>P. fst c = cv_encode E P" using Cons.IH [of "k + 1"] by blast
  then show ?case
    by (simp add: generate_blinding_def commit_with_blinding_simp [OF assms(1)]) blast
qed simp

lemma bits_well_formed_encoded:
  assumes "curve_ok E"
  shows "\<forall>b \<in> set bs. \<exists>P. b = cv_encode E P \<Longrightarrow> \<forall>r \<in> set rs. length r = 32 \<Longrightarrow> bits_well_formed E bs rs"
  by (induction bs rs rule: list_induct2')
    (auto simp: decode_encode [OF assms] length_encode [OF assms])

lemma range_generate_ok:
  assumes "generator_h E = Some h" and "curve_ok E"
  obtains p where "range_generate E rand k v b = Some (p, k + 64)" "range_verify E p"
    "rp_commitment p = cv_encode E (commit_point E h v b)"
proof -
  have len: "length (value_bits v) = 64" by (simp add: value_bits_def)
  obtain cs where cs: "bit_commits E rand k (value_bits v) = Some (cs, k + 64)" "length cs = 64"
    "\<forall>c \<in> set cs. \<exists>P. fst c = cv_encode E P"
    using bit_commits_ok [OF assms, of rand k "value_bits v"] unfolding len by blast
  have "bits_well_formed E (map fst cs) (map (\<lambda>(x, y). be_bytes (sc_bytes (f x y))) zs)"
    for f :: "h256 \<Rightarrow> u64 \<Rightarrow> nat" and zs
    using cs(3) by (intro bits_well_formed_encoded [OF assms(2)]) auto
  then show thesis
    using cs len
    by (intro that) (auto simp: range_generate_def commit_with_blinding_simp [OF assms(1)]
        range_verify_def Let_def)
qed

text \<open>A proof for any bytes at all: the bit commitments are the point at zero, and nothing is tied to it.\<close>

definition forged_proof :: "'p::ab_group_add crypto \<Rightarrow> u8 list \<Rightarrow> range_proof" where
  "forged_proof E point =
     (let bits = replicate 64 (cv_encode E 0)
      in \<lparr>rp_commitment = point, rp_bit_commitments = bits,
          rp_challenge_responses = replicate 64 (replicate 32 0),
          rp_transcript_hash = transcript E point bits, rp_n_bits = 64\<rparr>)"

lemma range_proof_verifies_forged:
  assumes "curve_ok E"
  shows "range_verify E (forged_proof E point)"
proof -
  have "bits_well_formed E (replicate 64 (cv_encode E 0)) (replicate 64 (replicate 32 0))"
    by (rule bits_well_formed_encoded [OF assms]) auto
  then show ?thesis by (simp add: forged_proof_def range_verify_def Let_def)
qed

text \<open>
  Range proofs are complete, and they prove nothing. The proof that is generated for a value
  and a blinding verifies. But a proof that verifies can be written down for every string of bytes
  as the commitment, without knowing a value or a blinding, also for commitments to no value in
  the range and for bytes that are no point.
\<close>

theorem range_proof_forgeable:
  assumes "curve_ok E" and "points_found E"
  shows "(\<exists>p. range_generate E rand k v b = Some (p, k + 64) \<and> range_verify E p) \<and>
    range_verify E (forged_proof E point) \<and> rp_commitment (forged_proof E point) = point"
proof -
  obtain h where h: "generator_h E = Some h" using generator_h_returns [OF assms(2)] by blast
  obtain p where "range_generate E rand k v b = Some (p, k + 64)" "range_verify E p"
    using range_generate_ok [OF h assms(1)] by blast
  then show ?thesis
    using range_proof_verifies_forged [OF assms(1)] by (auto simp: forged_proof_def Let_def)
qed

section \<open>Stealth addresses\<close>

lemma one_time_commute:
  "curve_ok E \<Longrightarrow> one_time_point E (cv_mul E (cv_generator E) a) s = cv_mul E (cv_generator E) (sc_add E a s)"
  by (simp add: one_time_point_def mul_sc_add)

text \<open>
  C35. Stealth payments arrive. To the address of a generated keypair an output can always be made.
  The holder of the keypair who scans it finds it and gets a key, and that key is the private key
  of the one-time address. With the same ephemeral key no other address is taken for one's own.
\<close>

theorem stealth_output_is_found:
  assumes "curve_ok E" and "stealth_keygen E rand k = (kp, k')"
  shows "\<exists>out key x. create_stealth_output E rand2 j (sk_spend_pubkey kp) (sk_view_pubkey kp) = (Inr out, j + 1) \<and>
    scan_output E kp (so_ephemeral_pubkey out) (so_one_time_address out) = Inr (Some key) \<and>
    decode_scalar E key = Inr x \<and> cv_encode E (cv_mul E (cv_generator E) x) = so_one_time_address out \<and>
    (\<forall>a. a \<noteq> so_one_time_address out \<longrightarrow> scan_output E kp (so_ephemeral_pubkey out) a = Inr None)"
proof -
  let ?s = "sc_reduce E (rand k)" and ?v = "sc_reduce E (rand (Suc k))" and ?r = "sc_reduce E (rand2 j)"
  let ?G = "cv_generator E"
  let ?ss = "sc_reduce E (hash_shared_point E (cv_mul E (cv_mul E ?G ?v) ?r))"
  have kp: "kp = \<lparr>sk_spend_privkey = be_bytes (sc_bytes ?s), sk_spend_pubkey = cv_encode E (cv_mul E ?G ?s),
      sk_view_privkey = be_bytes (sc_bytes ?v), sk_view_pubkey = cv_encode E (cv_mul E ?G ?v)\<rparr>"
    using assms(2) by (simp add: stealth_keygen_def generate_keypair_def Let_def)
  note simps = decode_point_encode [OF assms(1)] sc_bytes_decode [OF assms(1)] sc_reduce_less [OF assms(1)]
    one_time_commute [OF assms(1)] mul_commute [OF assms(1), of ?G ?r ?v]
  let ?out = "\<lparr>so_one_time_address = cv_encode E (cv_mul E ?G (sc_add E ?s ?ss)),
      so_ephemeral_pubkey = cv_encode E (cv_mul E ?G ?r)\<rparr>"
  let ?key = "be_bytes (sc_bytes (sc_add E ?s ?ss))"
  have less: "sc_add E ?s ?ss < cv_order E" by (simp add: sc_add_def order_pos [OF assms(1)])
  have "create_stealth_output E rand2 j (sk_spend_pubkey kp) (sk_view_pubkey kp) = (Inr ?out, j + 1)"
    by (simp add: kp create_stealth_output_def generate_keypair_def simps Let_def)
  moreover have "scan_output E kp (so_ephemeral_pubkey ?out) a =
      Inr (if a = so_one_time_address ?out then Some ?key else None)" for a
    by (auto simp: kp scan_output_def simps Let_def)
  moreover have "decode_scalar E ?key = Inr (sc_add E ?s ?ss)" by (rule sc_bytes_decode [OF assms(1) less])
  ultimately show ?thesis by (intro exI [of _ ?out] exI [of _ ?key] exI [of _ "sc_add E ?s ?ss"]) simp
qed

section \<open>An instance\<close>

text \<open>Points are numbers modulo \<open>2 ^ 256\<close>; they are written with a tag byte before their bytes.\<close>

definition demo_curve :: "h256 crypto" where
  "demo_curve = \<lparr>cv_order = 2 ^ 256, cv_generator = 1, cv_mul = (\<lambda>p a. p * of_nat a),
     cv_encode = (\<lambda>p. 0x02 # be_bytes p),
     cv_decode = (\<lambda>bs. if length bs = 33 then Some (of_nat (be_value (tl bs))) else None),
     cv_uncompressed = be_bytes, cv_sha256 = (\<lambda>_. 0)\<rparr>"

lemma of_nat_mod_h256: "(of_nat (a mod 2 ^ 256) :: h256) = of_nat a"
  by (simp add: word_of_nat_eq_iff take_bit_eq_mod)

lemma demo_curve_simps:
  "cv_order demo_curve = 2 ^ 256" "cv_mul demo_curve p a = p * of_nat a"
  "cv_encode demo_curve p = 0x02 # be_bytes p"
  "cv_decode demo_curve bs = (if length bs = 33 then Some (of_nat (be_value (tl bs))) else None)"
  "cv_sha256 demo_curve x = 0"
  by (simp_all add: demo_curve_def)

lemma demo_curve_ok: "curve_ok demo_curve"
  unfolding curve_ok_def demo_curve_simps of_nat_mod_h256
proof (intro conjI allI)
  fix x :: h256 and a b :: nat
  show "x * of_nat (a + b) = x * of_nat a + x * of_nat b"
    by (simp only: of_nat_add distrib_left)
  show "x * of_nat a * of_nat b = x * of_nat (a * b)"
    by (simp only: of_nat_mult mult.assoc)
qed (simp_all add: be_value_be_bytes)

lemma demo_candidate: "candidate demo_curve seed c = Some 0"
  by (simp add: candidate_def demo_curve_simps be_value_be_bytes)

lemma demo_points_found: "points_found demo_curve"
  by (simp add: points_found_def demo_candidate)

lemma demo_generator_h: "generator_h demo_curve = Some 0"
  unfolding generator_h_def by (subst try_increment_simp) (simp add: demo_candidate)

lemma commitment_opens_once_witness:
  "\<exists>c. commit_with_blinding demo_curve 5 7 = Some c \<and> pc_value c = 5 \<and> commitment_verify demo_curve c = Some True"
  using commitment_opens_once [OF demo_curve_ok demo_generator_h] by blast

lemma range_proof_forgeable_witness:
  "\<exists>p. range_generate demo_curve (\<lambda>_. 1) 0 5 7 = Some (p, 0 + 64) \<and> range_verify demo_curve p \<and>
     range_verify demo_curve (forged_proof demo_curve [])"
  using range_proof_forgeable [OF demo_curve_ok demo_points_found] by blast

lemma stealth_output_is_found_witness:
  "\<exists>kp out key. kp = fst (stealth_keygen demo_curve (\<lambda>_. 3) 0) \<and>
     create_stealth_output demo_curve (\<lambda>_. 4) 0 (sk_spend_pubkey kp) (sk_view_pubkey kp) = (Inr out, 0 + 1) \<and>
     scan_output demo_curve kp (so_ephemeral_pubkey out) (so_one_time_address out) = Inr (Some key)"
proof -
  obtain kp k' where g: "stealth_keygen demo_curve (\<lambda>_. 3) 0 = (kp, k')"
    by (cases "stealth_keygen demo_curve (\<lambda>_. 3) 0")
  obtain out key where
    "create_stealth_output demo_curve (\<lambda>_. 4) 0 (sk_spend_pubkey kp) (sk_view_pubkey kp) = (Inr out, 0 + 1)"
    "scan_output demo_curve kp (so_ephemeral_pubkey out) (so_one_time_address out) = Inr (Some key)"
    using stealth_output_is_found [OF demo_curve_ok g, of "\<lambda>_. 4" 0] by (elim exE conjE)
  then show ?thesis using g by (intro exI [of _ kp] exI [of _ out] exI [of _ key]) simp
qed

end
