(* ===== verification/ConfidentialTx.thy ===== *)
theory ConfidentialTx
  imports Commitments Floats
begin

text \<open>
  Confidential transactions, \<open>aether-cli/crates/aether-privacy/src/susy_swap.rs\<close>: the builder, the
  transaction it makes, the verification and the summary. The integers wrap as in a release build.
\<close>

section \<open>The transaction\<close>

record confidential_input =
  cin_prev_txid :: h256
  cin_prev_vout :: u32
  cin_value :: u64
  cin_blinding :: h256
  cin_key_image :: "u8 list"
  cin_commitment :: "u8 list"

record confidential_output =
  cout_commitment :: "u8 list"
  cout_range_proof :: range_proof
  cout_stealth :: "stealth_output option"
  cout_value :: u64
  cout_blinding :: h256

record confidential_tx =
  ctx_txid :: h256
  ctx_inputs :: "confidential_input list"
  ctx_outputs :: "confidential_output list"
  ctx_fee :: u64
  ctx_key_images :: "u8 list list"
  ctx_excess_commitment :: "u8 list"
  ctx_signature :: "u8 list"
  ctx_timestamp :: u64

section \<open>The builder\<close>

record builder_input =
  bi_prev_txid :: h256
  bi_prev_vout :: u32
  bi_value :: u64
  bi_blinding :: h256
  bi_spending_key :: "u8 list"

record builder_output =
  bo_value :: u64
  bo_spend_pub :: "u8 list option"
  bo_view_pub :: "u8 list option"

record susy_builder =
  sb_inputs :: "builder_input list"
  sb_outputs :: "builder_output list"
  sb_fee :: u64

definition builder_new :: susy_builder where
  "builder_new = \<lparr>sb_inputs = [], sb_outputs = [], sb_fee = 0\<rparr>"

definition add_input :: "h256 \<Rightarrow> u32 \<Rightarrow> u64 \<Rightarrow> h256 \<Rightarrow> u8 list \<Rightarrow> susy_builder \<Rightarrow> susy_builder" where
  "add_input prev_txid prev_vout amount blinding spending_key b =
     b\<lparr>sb_inputs := sb_inputs b @ [\<lparr>bi_prev_txid = prev_txid, bi_prev_vout = prev_vout,
        bi_value = amount, bi_blinding = blinding, bi_spending_key = spending_key\<rparr>]\<rparr>"

definition add_output :: "u64 \<Rightarrow> u8 list option \<Rightarrow> u8 list option \<Rightarrow> susy_builder \<Rightarrow> susy_builder" where
  "add_output amount spend_pub view_pub b =
     b\<lparr>sb_outputs := sb_outputs b @ [\<lparr>bo_value = amount, bo_spend_pub = spend_pub, bo_view_pub = view_pub\<rparr>]\<rparr>"

definition set_fee :: "u64 \<Rightarrow> susy_builder \<Rightarrow> susy_builder" where
  "set_fee fee b = b\<lparr>sb_fee := fee\<rparr>"

text \<open>The loop over the inputs, with the sum of their blindings; \<open>None\<close> if hashing never returns.\<close>

fun build_inputs ::
  "'p::ab_group_add crypto \<Rightarrow> nat \<Rightarrow> builder_input list \<Rightarrow>
   (privacy_error + (confidential_input list \<times> nat)) option" where
  "build_inputs E acc [] = Some (Inr ([], acc))"
| "build_inputs E acc (i # is) =
     (case commit_with_blinding E (bi_value i) (bi_blinding i) of
        None \<Rightarrow> None
      | Some c \<Rightarrow>
        (case compute_key_image E (bi_spending_key i) of
           None \<Rightarrow> None
         | Some (Inl e) \<Rightarrow> Some (Inl (KeyImageFailed e))
         | Some (Inr ki) \<Rightarrow>
           (case build_inputs E (sc_add E acc (sc_reduce E (bi_blinding i))) is of
              None \<Rightarrow> None
            | Some (Inl e) \<Rightarrow> Some (Inl e)
            | Some (Inr (cins, acc')) \<Rightarrow>
              Some (Inr (\<lparr>cin_prev_txid = bi_prev_txid i, cin_prev_vout = bi_prev_vout i,
                cin_value = bi_value i, cin_blinding = bi_blinding i, cin_key_image = ki,
                cin_commitment = pc_point c\<rparr> # cins, acc')))))"

text \<open>The stealth part of an output, only with both keys.\<close>

definition build_stealth ::
  "'p::ab_group_add crypto \<Rightarrow> random \<Rightarrow> nat \<Rightarrow> builder_output \<Rightarrow>
   (privacy_error + stealth_output option) \<times> nat" where
  "build_stealth E rand k out =
     (case (bo_spend_pub out, bo_view_pub out) of
        (Some spend, Some view) \<Rightarrow>
          (case create_stealth_output E rand k spend view of
             (Inl e, k') \<Rightarrow> (Inl (StealthFailed e), k')
           | (Inr so, k') \<Rightarrow> (Inr (Some so), k'))
      | _ \<Rightarrow> (Inr None, k))"

text \<open>The loop over the outputs; the blinding of the last one makes the sums of both sides equal.\<close>

fun build_outputs ::
  "'p::ab_group_add crypto \<Rightarrow> random \<Rightarrow> nat \<Rightarrow> nat \<Rightarrow> nat \<Rightarrow> builder_output list \<Rightarrow>
   (privacy_error + (confidential_output list \<times> nat)) option" where
  "build_outputs E rand k total_in total_out [] = Some (Inr ([], total_out))"
| "build_outputs E rand k total_in total_out (out # outs) =
     (let (blinding, k1) = (if outs = [] then (sc_bytes (sc_sub E total_in total_out), k)
                            else generate_blinding E rand k)
      in (case commit_with_blinding E (bo_value out) blinding of
            None \<Rightarrow> None
          | Some c \<Rightarrow>
            (case range_generate E rand k1 (bo_value out) blinding of
               None \<Rightarrow> None
             | Some (rp, k2) \<Rightarrow>
               (case build_stealth E rand k2 out of
                  (Inl e, _) \<Rightarrow> Some (Inl e)
                | (Inr stealth, k3) \<Rightarrow>
                  (case build_outputs E rand k3 total_in (sc_add E total_out (sc_reduce E blinding)) outs of
                     None \<Rightarrow> None
                   | Some (Inl e) \<Rightarrow> Some (Inl e)
                   | Some (Inr (couts, acc')) \<Rightarrow>
                     Some (Inr (\<lparr>cout_commitment = pc_point c, cout_range_proof = rp,
                       cout_stealth = stealth, cout_value = bo_value out, cout_blinding = blinding\<rparr>
                       # couts, acc')))))))"

definition txid_bytes :: "confidential_input list \<Rightarrow> confidential_output list \<Rightarrow> u64 \<Rightarrow> u8 list" where
  "txid_bytes ins outs fee =
     ascii ''susy_swap_txid_v1'' @
     concat (map (\<lambda>i. be_bytes (cin_prev_txid i) @ le_bytes (cin_prev_vout i) @ cin_commitment i) ins) @
     concat (map cout_commitment outs) @ le_bytes fee"

text \<open>A spending key as a scalar: its first 32 bytes, filled up with zeros.\<close>

definition key_scalar :: "'p crypto \<Rightarrow> u8 list \<Rightarrow> nat" where
  "key_scalar E key = sc_reduce E (of_nat (be_value (take 32 (take 32 key @ replicate 32 0))))"

definition excess_point :: "'p::ab_group_add crypto \<Rightarrow> u64 \<Rightarrow> nat \<Rightarrow> 'p option" where
  "excess_point E fee excess_blinding =
     map_option (\<lambda>c. cv_mul E (cv_generator E) (sc_from E fee) +
         (case to_point E (pc_point c) of Some p \<Rightarrow> p | None \<Rightarrow> 0))
       (commit_with_blinding E 0 (sc_bytes excess_blinding))"

definition unbalanced :: "susy_builder \<Rightarrow> privacy_error" where
  "unbalanced b =
     (let total_in = sum_list (map bi_value (sb_inputs b)); total_out = sum_list (map bo_value (sb_outputs b))
      in Unbalanced total_in total_out (sb_fee b) (uint total_in - uint total_out - uint (sb_fee b)))"

text \<open>
  The builder is cleared before the transaction is put together, so the fee of the transaction is
  the one of the cleared builder.
\<close>

definition build ::
  "'p::ab_group_add crypto \<Rightarrow> random \<Rightarrow> nat \<Rightarrow> u64 \<Rightarrow> susy_builder \<Rightarrow>
   ((privacy_error + confidential_tx) \<times> susy_builder) option" where
  "build E rand k now b =
     (if sb_inputs b = [] then Some (Inl NoInputs, b)
      else if sb_outputs b = [] then Some (Inl NoOutputs, b)
      else if sum_list (map bi_value (sb_inputs b)) \<noteq> sum_list (map bo_value (sb_outputs b)) + sb_fee b
      then Some (Inl (unbalanced b), b)
      else
        (case build_inputs E 0 (sb_inputs b) of
           None \<Rightarrow> None
         | Some (Inl e) \<Rightarrow> Some (Inl e, b)
         | Some (Inr (conf_inputs, total_in)) \<Rightarrow>
           (case build_outputs E rand k total_in 0 (sb_outputs b) of
              None \<Rightarrow> None
            | Some (Inl e) \<Rightarrow> Some (Inl e, b)
            | Some (Inr (conf_outputs, total_out)) \<Rightarrow>
              (case excess_point E (sb_fee b) (sc_sub E total_in total_out) of
                 None \<Rightarrow> None
               | Some excess \<Rightarrow>
                 (let excess_bytes = cv_encode E excess;
                      key_images = map cin_key_image conf_inputs;
                      txid = cv_sha256 E (txid_bytes conf_inputs conf_outputs (sb_fee b));
                      agg_key = fold (\<lambda>i a. sc_add E a (key_scalar E (bi_spending_key i))) (sb_inputs b) 0;
                      signature = cv_sha256 E (ascii ''susy_swap_sig_v1'' @ be_bytes txid @ excess_bytes @
                         concat key_images @ be_bytes (sc_bytes agg_key));
                      b' = b\<lparr>sb_inputs := [], sb_outputs := [], sb_fee := 0\<rparr>
                  in Some (Inr \<lparr>ctx_txid = txid, ctx_inputs = conf_inputs, ctx_outputs = conf_outputs,
                       ctx_fee = sb_fee b', ctx_key_images = key_images,
                       ctx_excess_commitment = excess_bytes, ctx_signature = be_bytes signature,
                       ctx_timestamp = now\<rparr>, b'))))))"

section \<open>Verification\<close>

fun first_bad_proof :: "'p::ab_group_add crypto \<Rightarrow> nat \<Rightarrow> confidential_output list \<Rightarrow> nat option" where
  "first_bad_proof E i [] = None"
| "first_bad_proof E i (out # outs) =
     (if \<not> range_verify E (cout_range_proof out) then Some i else first_bad_proof E (i + 1) outs)"

fun image_repeats :: "u8 list set \<Rightarrow> u8 list list \<Rightarrow> bool" where
  "image_repeats seen [] = False"
| "image_repeats seen (ki # kis) = (if ki \<in> seen then True else image_repeats (insert ki seen) kis)"

definition verify_transaction :: "'p::ab_group_add crypto \<Rightarrow> confidential_tx \<Rightarrow> privacy_error + bool" where
  "verify_transaction E tx =
     (case first_bad_proof E 0 (ctx_outputs tx) of
        Some i \<Rightarrow> Inl (RangeProofInvalid i)
      | None \<Rightarrow>
        if image_repeats {} (ctx_key_images tx) then Inl DuplicateKeyImage
        else if \<not> verify_commitment_balance E (map cin_commitment (ctx_inputs tx))
                    (map cout_commitment (ctx_outputs tx)) (ctx_fee tx)
        then Inl BalanceCheckFailed
        else Inr True)"

record tx_summary =
  sm_txid :: string
  sm_input_count :: nat
  sm_output_count :: nat
  sm_fee :: u64
  sm_key_images :: nat
  sm_has_stealth :: bool
  sm_total_proof_size :: nat
  sm_timestamp :: u64

definition summary :: "confidential_tx \<Rightarrow> tx_summary" where
  "summary tx = \<lparr>sm_txid = hex_lower (be_bytes (ctx_txid tx)), sm_input_count = length (ctx_inputs tx),
     sm_output_count = length (ctx_outputs tx), sm_fee = ctx_fee tx,
     sm_key_images = length (ctx_key_images tx),
     sm_has_stealth = list_ex (\<lambda>out. cout_stealth out \<noteq> None) (ctx_outputs tx),
     sm_total_proof_size = sum_list (map (proof_size \<circ> cout_range_proof) (ctx_outputs tx)),
     sm_timestamp = ctx_timestamp tx\<rparr>"

section \<open>The verification\<close>

lemma first_bad_proof_None: "first_bad_proof E i outs = None \<longleftrightarrow> (\<forall>out \<in> set outs. range_verify E (cout_range_proof out))"
  by (induction outs arbitrary: i) auto

lemma image_repeats_iff: "image_repeats seen kis \<longleftrightarrow> \<not> distinct kis \<or> set kis \<inter> seen \<noteq> {}"
  by (induction kis arbitrary: seen) auto

lemma balance_iff:
  "verify_commitment_balance E ins outs fee \<longleftrightarrow> sum_points E 0 ins \<noteq> None \<and> sum_points E 0 outs \<noteq> None"
  by (simp add: verify_commitment_balance_def split: option.splits)

lemma verify_transaction_iff:
  "verify_transaction E tx = Inr True \<longleftrightarrow>
     (\<forall>out \<in> set (ctx_outputs tx). range_verify E (cout_range_proof out)) \<and> distinct (ctx_key_images tx) \<and>
     sum_points E 0 (map cin_commitment (ctx_inputs tx)) \<noteq> None \<and>
     sum_points E 0 (map cout_commitment (ctx_outputs tx)) \<noteq> None"
  by (cases "first_bad_proof E 0 (ctx_outputs tx)")
    (simp_all add: verify_transaction_def image_repeats_iff balance_iff flip: first_bad_proof_None [of E 0])

section \<open>The builder\<close>

lemma sc_add_sub:
  assumes "a < cv_order E" and "t < cv_order E"
  shows "sc_add E t (sc_sub E a t) = a"
proof -
  have "(t + (a + (cv_order E - t)) mod cv_order E) mod cv_order E = (a + cv_order E) mod cv_order E"
    using assms(2) by (simp add: mod_add_right_eq)
  then show ?thesis using assms(1) by (simp add: sc_add_def sc_sub_def)
qed

text \<open>The sum of the blindings of the inputs.\<close>

abbreviation input_blindings :: "'p crypto \<Rightarrow> builder_input list \<Rightarrow> nat \<Rightarrow> nat" where
  "input_blindings E \<equiv> fold (\<lambda>i a. sc_add E a (sc_reduce E (bi_blinding i)))"

lemma input_blindings_less: "curve_ok E \<Longrightarrow> t < cv_order E \<Longrightarrow> input_blindings E is t < cv_order E"
proof (induction "is" arbitrary: t)
  case (Cons i "is")
  have "sc_add E t (sc_reduce E (bi_blinding i)) < cv_order E"
    using order_pos [OF Cons.prems(1)] by (simp add: sc_add_def)
  from Cons.IH [OF Cons.prems(1) this] show ?case by simp
qed simp

lemma input_points:
  assumes "curve_ok E"
  shows "sum_list (map (\<lambda>i. commit_point E h (bi_value i) (bi_blinding i)) is) =
    cv_mul E (cv_generator E) (sum_list (map (unat \<circ> bi_value) is)) +
    (cv_mul E h (input_blindings E is t) - cv_mul E h t)"
proof (induction "is" arbitrary: t)
  case (Cons i "is")
  show ?case
    using Cons.IH [of "sc_add E t (sc_reduce E (bi_blinding i))"]
    by (simp add: commit_point_mul [OF assms] mul_sum [OF assms] mul_sc_add [OF assms] algebra_simps)
qed (simp add: mul_zero [OF assms])

lemma compute_key_image_ok:
  assumes "points_found E" and "length key = 32"
  shows "\<exists>ki. compute_key_image E key = Some (Inr ki)"
  using hash_to_point_returns [OF assms(1)] assms(2)
  by (fastforce simp: compute_key_image_def decode_scalar_def)

lemma build_inputs_ok:
  assumes "generator_h E = Some h" and "points_found E"
  shows "\<forall>i \<in> set is. length (bi_spending_key i) = 32 \<Longrightarrow>
    \<exists>cins. build_inputs E t is = Some (Inr (cins, input_blindings E is t)) \<and>
      map cin_commitment cins = map (\<lambda>i. cv_encode E (commit_point E h (bi_value i) (bi_blinding i))) is \<and>
      map (\<lambda>c. Some (Inr (cin_key_image c))) cins = map (\<lambda>i. compute_key_image E (bi_spending_key i)) is"
proof (induction "is" arbitrary: t)
  case (Cons i "is")
  obtain ki where ki: "compute_key_image E (bi_spending_key i) = Some (Inr ki)"
    using compute_key_image_ok [OF assms(2), of "bi_spending_key i"] Cons.prems by auto
  obtain cins where "build_inputs E (sc_add E t (sc_reduce E (bi_blinding i))) is =
        Some (Inr (cins, input_blindings E is (sc_add E t (sc_reduce E (bi_blinding i)))))"
      "map cin_commitment cins = map (\<lambda>i. cv_encode E (commit_point E h (bi_value i) (bi_blinding i))) is"
      "map (\<lambda>c. Some (Inr (cin_key_image c))) cins = map (\<lambda>i. compute_key_image E (bi_spending_key i)) is"
    using Cons.IH Cons.prems by fastforce
  then show ?case using ki by (simp add: commit_with_blinding_simp [OF assms(1)])
qed simp

text \<open>Where both keys of a recipient are given, they are points.\<close>

definition recipient_ok :: "'p crypto \<Rightarrow> builder_output \<Rightarrow> bool" where
  "recipient_ok E out \<longleftrightarrow> (\<forall>s v. bo_spend_pub out = Some s \<longrightarrow> bo_view_pub out = Some v \<longrightarrow>
     (\<exists>P Q. decode_point E s = Inr P \<and> decode_point E v = Inr Q))"

lemma build_stealth_ok: "recipient_ok E out \<Longrightarrow> \<exists>so k'. build_stealth E rand k out = (Inr so, k')"
  by (cases "bo_spend_pub out"; cases "bo_view_pub out")
    (auto simp: recipient_ok_def build_stealth_def create_stealth_output_def generate_keypair_def Let_def)

lemma build_outputs_ok:
  assumes "generator_h E = Some h" and ok: "curve_ok E" and a: "a < cv_order E"
  shows "\<forall>out \<in> set outs. recipient_ok E out \<Longrightarrow> outs \<noteq> [] \<Longrightarrow> t < cv_order E \<Longrightarrow>
    \<exists>couts ps. build_outputs E rand k a t outs = Some (Inr (couts, a)) \<and>
      map cout_value couts = map bo_value outs \<and>
      (\<forall>c \<in> set couts. range_verify E (cout_range_proof c)) \<and>
      map cout_commitment couts = map (cv_encode E) ps \<and>
      sum_list ps = cv_mul E (cv_generator E) (sum_list (map (unat \<circ> bo_value) outs)) +
        (cv_mul E h a - cv_mul E h t)"
proof (induction outs arbitrary: k t)
  case (Cons out outs)
  define bk where "bk = (if outs = [] then (sc_bytes (sc_sub E a t), k) else generate_blinding E rand k)"
  obtain b k1 where b: "bk = (b, k1)" by (cases bk)
  obtain rp where rp: "range_generate E rand k1 (bo_value out) b = Some (rp, k1 + 64)" "range_verify E rp"
    using range_generate_ok [OF assms(1) ok] by blast
  obtain so k3 where so: "build_stealth E rand (k1 + 64) out = (Inr so, k3)"
    using build_stealth_ok Cons.prems(1) by fastforce
  let ?t = "sc_add E t (sc_reduce E b)"
  have t: "?t < cv_order E" using order_pos [OF ok] by (simp add: sc_add_def)
  have "\<exists>couts ps. build_outputs E rand k3 a ?t outs = Some (Inr (couts, a)) \<and>
      map cout_value couts = map bo_value outs \<and> (\<forall>c \<in> set couts. range_verify E (cout_range_proof c)) \<and>
      map cout_commitment couts = map (cv_encode E) ps \<and>
      sum_list ps = cv_mul E (cv_generator E) (sum_list (map (unat \<circ> bo_value) outs)) +
        (cv_mul E h a - cv_mul E h ?t)"
  proof (cases "outs = []")
    case True
    have "sc_sub E a t < cv_order E" using order_pos [OF ok] by (simp add: sc_sub_def)
    then have "sc_reduce E b = sc_sub E a t"
      using b True sc_bytes_reduce [OF ok, of "sc_sub E a t"] by (auto simp: bk_def)
    then have "?t = a" using sc_add_sub [OF a Cons.prems(3)] by simp
    then show ?thesis using True by (simp add: mul_zero [OF ok])
  next
    case False
    have "\<forall>x \<in> set outs. recipient_ok E x" using Cons.prems(1) by simp
    from Cons.IH [OF this False t] show ?thesis .
  qed
  then obtain couts ps where r: "build_outputs E rand k3 a ?t outs = Some (Inr (couts, a))"
      "map cout_value couts = map bo_value outs" "\<forall>c \<in> set couts. range_verify E (cout_range_proof c)"
      "map cout_commitment couts = map (cv_encode E) ps"
      "sum_list ps = cv_mul E (cv_generator E) (sum_list (map (unat \<circ> bo_value) outs)) +
        (cv_mul E h a - cv_mul E h ?t)" by blast
  let ?c = "\<lparr>cout_commitment = cv_encode E (commit_point E h (bo_value out) b), cout_range_proof = rp,
      cout_stealth = so, cout_value = bo_value out, cout_blinding = b\<rparr>"
  show ?case
  proof (intro exI conjI)
    show "build_outputs E rand k a t (out # outs) = Some (Inr (?c # couts, a))"
      using b rp(1) so r(1) by (simp add: bk_def [symmetric] commit_with_blinding_simp [OF assms(1)])
    show "sum_list (commit_point E h (bo_value out) b # ps) =
        cv_mul E (cv_generator E) (sum_list (map (unat \<circ> bo_value) (out # outs))) +
          (cv_mul E h a - cv_mul E h t)"
      using r(5) by (simp add: commit_point_mul [OF ok] mul_sum [OF ok] mul_sc_add [OF ok] algebra_simps)
  qed (use r(2-4) rp(2) in simp_all)
qed simp

text \<open>What the builder is given: amounts that match, keys of 32 bytes, recipients that are points.\<close>

definition builder_ok :: "'p crypto \<Rightarrow> susy_builder \<Rightarrow> bool" where
  "builder_ok E b \<longleftrightarrow> sb_inputs b \<noteq> [] \<and> sb_outputs b \<noteq> [] \<and>
     sum_list (map bi_value (sb_inputs b)) = sum_list (map bo_value (sb_outputs b)) + sb_fee b \<and>
     (\<forall>i \<in> set (sb_inputs b). length (bi_spending_key i) = 32) \<and>
     (\<forall>out \<in> set (sb_outputs b). recipient_ok E out)"

lemma sc_sub_self: "a < cv_order E \<Longrightarrow> sc_sub E a a = 0"
  by (simp add: sc_sub_def)

text \<open>The points in the transaction, with the sum of the blindings equal on both sides.\<close>

lemma build_ok:
  assumes ok: "curve_ok E" and found: "points_found E" and h: "generator_h E = Some h" and b: "builder_ok E b"
  obtains tx ps where "build E rand k now b = Some (Inr tx, builder_new)"
    "map cin_commitment (ctx_inputs tx) =
      map (\<lambda>i. cv_encode E (commit_point E h (bi_value i) (bi_blinding i))) (sb_inputs b)"
    "map cout_commitment (ctx_outputs tx) = map (cv_encode E) ps"
    "sum_list ps = cv_mul E (cv_generator E) (sum_list (map (unat \<circ> bo_value) (sb_outputs b))) +
      cv_mul E h (input_blindings E (sb_inputs b) 0)"
    "\<forall>c \<in> set (ctx_outputs tx). range_verify E (cout_range_proof c)"
    "map cout_value (ctx_outputs tx) = map bo_value (sb_outputs b)" "ctx_fee tx = 0"
    "ctx_excess_commitment tx = cv_encode E (cv_mul E (cv_generator E) (unat (sb_fee b)))"
    "map (\<lambda>ki. Some (Inr ki)) (ctx_key_images tx) = map (\<lambda>i. compute_key_image E (bi_spending_key i)) (sb_inputs b)"
proof -
  let ?a = "input_blindings E (sb_inputs b) 0"
  have a: "?a < cv_order E" using input_blindings_less [OF ok] order_pos [OF ok] by simp
  have keys: "\<forall>i \<in> set (sb_inputs b). length (bi_spending_key i) = 32"
    and rec: "\<forall>out \<in> set (sb_outputs b). recipient_ok E out" "sb_outputs b \<noteq> []"
    using b by (simp_all add: builder_ok_def)
  obtain cins where cins: "build_inputs E 0 (sb_inputs b) = Some (Inr (cins, ?a))"
      "map cin_commitment cins = map (\<lambda>i. cv_encode E (commit_point E h (bi_value i) (bi_blinding i))) (sb_inputs b)"
      "map (\<lambda>c. Some (Inr (cin_key_image c))) cins = map (\<lambda>i. compute_key_image E (bi_spending_key i)) (sb_inputs b)"
    using build_inputs_ok [OF h found keys, of 0] by blast
  obtain couts ps where couts: "build_outputs E rand k ?a 0 (sb_outputs b) = Some (Inr (couts, ?a))"
      "map cout_value couts = map bo_value (sb_outputs b)"
      "\<forall>c \<in> set couts. range_verify E (cout_range_proof c)"
      "map cout_commitment couts = map (cv_encode E) ps"
      "sum_list ps = cv_mul E (cv_generator E) (sum_list (map (unat \<circ> bo_value) (sb_outputs b))) +
        (cv_mul E h ?a - cv_mul E h 0)"
    using build_outputs_ok [OF h ok a rec order_pos [OF ok], of rand k] by blast
  have exc: "excess_point E (sb_fee b) (sc_sub E ?a ?a) =
      Some (cv_mul E (cv_generator E) (unat (sb_fee b)))"
    unfolding sc_sub_self [OF a]
    by (simp add: excess_point_def commit_with_blinding_simp [OF h] to_point_encode [OF ok]
        commit_point_mul [OF ok] mul_zero [OF ok] sc_from_def mul_mod [OF ok] sc_bytes_def sc_reduce_def)
  show thesis
  proof (rule that)
    show "build E rand k now b = Some (Inr \<lparr>
        ctx_txid = cv_sha256 E (txid_bytes cins couts (sb_fee b)),
        ctx_inputs = cins, ctx_outputs = couts, ctx_fee = 0, ctx_key_images = map cin_key_image cins,
        ctx_excess_commitment = cv_encode E (cv_mul E (cv_generator E) (unat (sb_fee b))),
        ctx_signature = be_bytes (cv_sha256 E (ascii ''susy_swap_sig_v1'' @
          be_bytes (cv_sha256 E (txid_bytes cins couts (sb_fee b))) @
          cv_encode E (cv_mul E (cv_generator E) (unat (sb_fee b))) @ concat (map cin_key_image cins) @
          be_bytes (sc_bytes (fold (\<lambda>i a. sc_add E a (key_scalar E (bi_spending_key i))) (sb_inputs b) 0)))),
        ctx_timestamp = now\<rparr>, builder_new)"
      using b by (simp add: build_def builder_ok_def builder_new_def cins(1) couts(1) exc Let_def)
  qed (use cins couts mul_zero [OF ok] in \<open>simp_all add: comp_def\<close>)
qed

section \<open>What the scheme promises\<close>

text \<open>
  C32. Building succeeds. From amounts that match, spending keys of 32 bytes and recipients that are
  points, the builder returns a transaction and is empty afterwards, with one output of the asked
  amount for each that was added. The verification accepts the transaction if its key images
  differ, and otherwise rejects it as a double spend.
\<close>

theorem built_transaction_verifies:
  assumes "curve_ok E" and "points_found E" and "builder_ok E b"
  shows "\<exists>tx. build E rand k now b = Some (Inr tx, builder_new) \<and>
    map cout_value (ctx_outputs tx) = map bo_value (sb_outputs b) \<and>
    map (\<lambda>ki. Some (Inr ki)) (ctx_key_images tx) = map (\<lambda>i. compute_key_image E (bi_spending_key i)) (sb_inputs b) \<and>
    verify_transaction E tx = (if distinct (ctx_key_images tx) then Inr True else Inl DuplicateKeyImage)"
proof -
  obtain h where h: "generator_h E = Some h" using generator_h_returns [OF assms(2)] by blast
  obtain tx ps where tx: "build E rand k now b = Some (Inr tx, builder_new)"
      "map cin_commitment (ctx_inputs tx) =
        map (\<lambda>i. cv_encode E (commit_point E h (bi_value i) (bi_blinding i))) (sb_inputs b)"
      "map cout_commitment (ctx_outputs tx) = map (cv_encode E) ps"
      "\<forall>c \<in> set (ctx_outputs tx). range_verify E (cout_range_proof c)"
      "map cout_value (ctx_outputs tx) = map bo_value (sb_outputs b)"
      "map (\<lambda>ki. Some (Inr ki)) (ctx_key_images tx) = map (\<lambda>i. compute_key_image E (bi_spending_key i)) (sb_inputs b)"
    by (rule build_ok [OF assms(1,2) h assms(3)])
  have "first_bad_proof E 0 (ctx_outputs tx) = None" using tx(4) by (simp add: first_bad_proof_None)
  moreover have "verify_commitment_balance E (map cin_commitment (ctx_inputs tx))
      (map cout_commitment (ctx_outputs tx)) (ctx_fee tx)"
    using sum_points_encoded [OF assms(1), of 0 _ "sb_inputs b"]
      sum_points_encoded [OF assms(1), of 0 "\<lambda>x. x" ps]
    by (simp add: balance_iff tx(2,3))
  ultimately have "verify_transaction E tx =
      (if distinct (ctx_key_images tx) then Inr True else Inl DuplicateKeyImage)"
    by (simp add: verify_transaction_def image_repeats_iff)
  then show ?thesis using tx by blast
qed

text \<open>
  C33. What is built balances, without the fee it was built with. If the amounts do not overflow
  64 bits, the points of the inputs exceed those of the outputs by the fee times the generator, the
  blindings cancel, and the excess commitment is that point. But the fee that the transaction
  states is always zero, so that its own numbers balance only if that point is zero.
\<close>

theorem built_commitments_balance:
  assumes "curve_ok E" and "points_found E" and "builder_ok E b"
    and "sum_list (map (unat \<circ> bi_value) (sb_inputs b)) =
      sum_list (map (unat \<circ> bo_value) (sb_outputs b)) + unat (sb_fee b)"
  shows "\<exists>tx sum_in sum_out. build E rand k now b = Some (Inr tx, builder_new) \<and>
    sum_points E 0 (map cin_commitment (ctx_inputs tx)) = Some sum_in \<and>
    sum_points E 0 (map cout_commitment (ctx_outputs tx)) = Some sum_out \<and>
    sum_in - sum_out = cv_mul E (cv_generator E) (unat (sb_fee b)) \<and>
    ctx_excess_commitment tx = cv_encode E (sum_in - sum_out) \<and> ctx_fee tx = 0 \<and>
    (sum_in - sum_out = cv_mul E (cv_generator E) (unat (ctx_fee tx)) \<longleftrightarrow>
      cv_mul E (cv_generator E) (unat (sb_fee b)) = 0)"
proof -
  obtain h where h: "generator_h E = Some h" using generator_h_returns [OF assms(2)] by blast
  obtain tx ps where tx: "build E rand k now b = Some (Inr tx, builder_new)"
      "map cin_commitment (ctx_inputs tx) =
        map (\<lambda>i. cv_encode E (commit_point E h (bi_value i) (bi_blinding i))) (sb_inputs b)"
      "map cout_commitment (ctx_outputs tx) = map (cv_encode E) ps"
      "sum_list ps = cv_mul E (cv_generator E) (sum_list (map (unat \<circ> bo_value) (sb_outputs b))) +
        cv_mul E h (input_blindings E (sb_inputs b) 0)"
      "ctx_fee tx = 0"
      "ctx_excess_commitment tx = cv_encode E (cv_mul E (cv_generator E) (unat (sb_fee b)))"
    by (rule build_ok [OF assms(1-2) h assms(3)])
  let ?in = "sum_list (map (\<lambda>i. commit_point E h (bi_value i) (bi_blinding i)) (sb_inputs b))"
  have "?in - sum_list ps = cv_mul E (cv_generator E) (unat (sb_fee b))"
    unfolding input_points [OF assms(1), of h "sb_inputs b" 0] assms(4) tx(4)
    by (simp add: mul_sum [OF assms(1)] mul_zero [OF assms(1)])
  moreover have "sum_points E 0 (map cin_commitment (ctx_inputs tx)) = Some ?in"
    using sum_points_encoded [OF assms(1), of 0 _ "sb_inputs b"] by (simp add: tx(2))
  moreover have "sum_points E 0 (map cout_commitment (ctx_outputs tx)) = Some (sum_list ps)"
    using sum_points_encoded [OF assms(1), of 0 "\<lambda>x. x" ps] by (simp add: tx(3))
  ultimately show ?thesis using tx(1,5,6) mul_zero [OF assms(1)] by (intro exI [of _ tx]) auto
qed

text \<open>Outputs of any amounts, with commitments that open to them and proofs that verify.\<close>

definition conjured_output :: "'p::ab_group_add crypto \<Rightarrow> 'p \<Rightarrow> u64 \<Rightarrow> confidential_output" where
  "conjured_output E h v =
     \<lparr>cout_commitment = cv_encode E (commit_point E h v 0),
      cout_range_proof = forged_proof E (cv_encode E (commit_point E h v 0)),
      cout_stealth = None, cout_value = v, cout_blinding = 0\<rparr>"

text \<open>
  C34. The verification does not look at the amounts. If a transaction verifies, then for every list
  of amounts there are outputs with commitments that open to exactly these amounts, such that the
  transaction with these outputs instead of its own verifies as well, with any fee, any identifier
  and any signature. Money can be made from nothing.
\<close>

theorem verification_ignores_amounts:
  assumes "curve_ok E" and "points_found E" and "verify_transaction E tx = Inr True"
  shows "\<exists>outs. map cout_value outs = amounts \<and>
    (\<forall>out \<in> set outs. map_option pc_point (commit_with_blinding E (cout_value out) (cout_blinding out)) =
       Some (cout_commitment out)) \<and>
    (\<forall>fee txid sig. verify_transaction E
       (tx\<lparr>ctx_outputs := outs, ctx_fee := fee, ctx_txid := txid, ctx_signature := sig\<rparr>) = Inr True)"
proof -
  obtain h where h: "generator_h E = Some h" using generator_h_returns [OF assms(2)] by blast
  let ?outs = "map (conjured_output E h) amounts"
  have "range_verify E (forged_proof E point)" for point
    using range_proof_verifies_forged [OF assms(1)] .
  moreover have "sum_points E 0 (map cout_commitment ?outs) \<noteq> None"
    using sum_points_encoded [OF assms(1), of 0 "\<lambda>v. commit_point E h v 0" amounts]
    by (simp add: conjured_output_def comp_def)
  ultimately have "verify_transaction E
      (tx\<lparr>ctx_outputs := ?outs, ctx_fee := fee, ctx_txid := txid, ctx_signature := sig\<rparr>) = Inr True"
    for fee txid sig
    using assms(3) unfolding verify_transaction_iff by (auto simp: conjured_output_def)
  moreover have "map cout_value ?outs = amounts" by (simp add: conjured_output_def comp_def)
  ultimately show ?thesis
    by (intro exI [of _ ?outs]) (auto simp: conjured_output_def commit_with_blinding_simp [OF h])
qed

text \<open>The sums of the builder wrap: outputs far above the inputs are built, too.\<close>

theorem overflowing_outputs_are_built:
  assumes "curve_ok E" and "points_found E" and "length key = 32"
  shows "\<exists>tx. build E rand k now
      (add_output 2 None None (add_output (- 1) None None (add_input ptx 0 1 blind key builder_new))) =
        Some (Inr tx, builder_new) \<and> map cout_value (ctx_outputs tx) = [- 1, 2]"
proof -
  obtain h where h: "generator_h E = Some h" using generator_h_returns [OF assms(2)] by blast
  let ?b = "add_output 2 None None (add_output (- 1) None None (add_input ptx 0 1 blind key builder_new))"
  have "builder_ok E ?b"
    using assms(3) by (simp add: builder_ok_def add_output_def add_input_def builder_new_def recipient_ok_def)
  then obtain tx where "build E rand k now ?b = Some (Inr tx, builder_new)"
      "map cout_value (ctx_outputs tx) = map bo_value (sb_outputs ?b)"
    by (rule build_ok [OF assms(1,2) h])
  then show ?thesis by (intro exI [of _ tx]) (simp add: add_output_def add_input_def builder_new_def)
qed

section \<open>Examples\<close>

definition demo_builder :: susy_builder where
  "demo_builder = set_fee 3 (add_output 7 None None (add_input 0 0 10 5 (replicate 32 1) builder_new))"

lemma demo_builder_ok: "builder_ok E demo_builder"
  by (simp add: demo_builder_def set_fee_def add_output_def add_input_def builder_new_def builder_ok_def
      recipient_ok_def)

lemma demo_builder_simps:
  "map bi_value (sb_inputs demo_builder) = [10]" "map bo_value (sb_outputs demo_builder) = [7]"
  "sb_fee demo_builder = 3" "length (sb_inputs demo_builder) = 1"
  by (simp_all add: demo_builder_def set_fee_def add_output_def add_input_def builder_new_def)

lemma demo_amounts:
  "sum_list (map (unat \<circ> bi_value) (sb_inputs demo_builder)) =
     sum_list (map (unat \<circ> bo_value) (sb_outputs demo_builder)) + unat (sb_fee demo_builder)"
  by (simp add: demo_builder_def set_fee_def add_output_def add_input_def builder_new_def)

definition empty_tx :: confidential_tx where
  "empty_tx = \<lparr>ctx_txid = 0, ctx_inputs = [], ctx_outputs = [], ctx_fee = 0, ctx_key_images = [],
     ctx_excess_commitment = [], ctx_signature = [], ctx_timestamp = 0\<rparr>"

lemma empty_tx_verifies: "verify_transaction E empty_tx = Inr True"
  by (simp add: empty_tx_def verify_transaction_iff)

lemma built_transaction_verifies_witness:
  "\<exists>tx. build demo_curve (\<lambda>_. 2) 0 9 demo_builder = Some (Inr tx, builder_new) \<and>
     map cout_value (ctx_outputs tx) = [7] \<and> verify_transaction demo_curve tx = Inr True"
proof -
  obtain tx where tx: "build demo_curve (\<lambda>_. 2) 0 9 demo_builder = Some (Inr tx, builder_new)"
      "map cout_value (ctx_outputs tx) = map bo_value (sb_outputs demo_builder)"
      "map (\<lambda>ki. Some (Inr ki)) (ctx_key_images tx) =
        map (\<lambda>i. compute_key_image demo_curve (bi_spending_key i)) (sb_inputs demo_builder)"
      "verify_transaction demo_curve tx = (if distinct (ctx_key_images tx) then Inr True else Inl DuplicateKeyImage)"
    using built_transaction_verifies [OF demo_curve_ok demo_points_found demo_builder_ok, of "\<lambda>_. 2" 0 9]
    by blast
  have "length (ctx_key_images tx) = 1"
    using arg_cong [OF tx(3), of length] demo_builder_simps(4) by simp
  then have "distinct (ctx_key_images tx)" by (auto simp: length_Suc_conv)
  then show ?thesis using tx(1,2,4) demo_builder_simps(2) by auto
qed

lemma built_commitments_balance_witness:
  "\<exists>tx sum_in sum_out. build demo_curve (\<lambda>_. 2) 0 9 demo_builder = Some (Inr tx, builder_new) \<and>
     sum_points demo_curve 0 (map cin_commitment (ctx_inputs tx)) = Some sum_in \<and>
     sum_points demo_curve 0 (map cout_commitment (ctx_outputs tx)) = Some sum_out \<and>
     sum_in - sum_out = 3 \<and> ctx_fee tx = 0"
proof -
  have g: "cv_mul demo_curve (cv_generator demo_curve) (unat (sb_fee demo_builder)) = 3"
    by (simp add: demo_curve_def demo_builder_simps(3))
  obtain tx a b where "build demo_curve (\<lambda>_. 2) 0 9 demo_builder = Some (Inr tx, builder_new)"
     "sum_points demo_curve 0 (map cin_commitment (ctx_inputs tx)) = Some a"
     "sum_points demo_curve 0 (map cout_commitment (ctx_outputs tx)) = Some b"
     "a - b = cv_mul demo_curve (cv_generator demo_curve) (unat (sb_fee demo_builder))" "ctx_fee tx = 0"
    using built_commitments_balance [OF demo_curve_ok demo_points_found demo_builder_ok demo_amounts, of "\<lambda>_. 2" 0 9]
    by (elim exE conjE)
  then show ?thesis unfolding g by blast
qed

lemma verification_ignores_amounts_witness:
  "\<exists>outs. map cout_value outs = [100] \<and>
     verify_transaction demo_curve (empty_tx\<lparr>ctx_outputs := outs, ctx_fee := 0, ctx_txid := 1, ctx_signature := []\<rparr>) = Inr True"
proof -
  obtain outs where o: "map cout_value outs = [100]" and v: "\<forall>fee txid sig. verify_transaction demo_curve
      (empty_tx\<lparr>ctx_outputs := outs, ctx_fee := fee, ctx_txid := txid, ctx_signature := sig\<rparr>) = Inr True"
    using verification_ignores_amounts [OF demo_curve_ok demo_points_found empty_tx_verifies, of "[100]"]
    by (elim exE conjE)
  show ?thesis by (rule exI [of _ outs], rule conjI [OF o], rule v [rule_format])
qed

end
