(* ===== verification/ShardStore.thy ===== *)
theory ShardStore
  imports ShardMerkle Floats "HOL-Library.List_Lexorder"
begin

text \<open>
  The store of a graph shard, \<open>aether-graph-shard/src/storage.rs\<close> and \<open>types.rs\<close>: nodes, edges and
  adjacency lists in the column families of a database, a bounded cache of nodes, the Merkle tree
  and the counters. The database is reliable: a column family is a map from bytes to bytes whose
  entries are iterated in the order of the keys. The cache (crate lru), the vector index, the
  encoding (crate bincode), \<open>f64\<close> and SHA-256 are parameters. A batch is applied when it is
  written.
\<close>

section \<open>Nodes and edges\<close>

datatype graph_domain =
    DKeter | DChochmah | DBinah | DChesed | DGevurah | DTiferet | DNetzach | DHod | DYesod | DMalkuth
  | DGeneral | DCrossDomain

definition domain_from_str :: "(string \<Rightarrow> string) \<Rightarrow> string \<Rightarrow> graph_domain" where
  "domain_from_str to_lowercase s =
     (let l = to_lowercase s in
      if l \<in> {''keter'', ''meta_learning'', ''governance''} then DKeter
      else if l \<in> {''chochmah'', ''intuition'', ''quantum_physics'', ''physics''} then DChochmah
      else if l \<in> {''binah'', ''logic'', ''mathematics'', ''computer_science''} then DBinah
      else if l \<in> {''chesed'', ''exploration'', ''biology''} then DChesed
      else if l \<in> {''gevurah'', ''safety'', ''cryptography''} then DGevurah
      else if l \<in> {''tiferet'', ''integration'', ''blockchain''} then DTiferet
      else if l \<in> {''netzach'', ''reinforcement'', ''economics''} then DNetzach
      else if l \<in> {''hod'', ''language'', ''ai_ml''} then DHod
      else if l \<in> {''yesod'', ''memory'', ''technology''} then DYesod
      else if l \<in> {''malkuth'', ''action'', ''general''} then DMalkuth
      else if l = ''cross_domain'' then DCrossDomain
      else DGeneral)"

fun domain_as_str :: "graph_domain \<Rightarrow> string" where
  "domain_as_str DKeter = ''keter''" | "domain_as_str DChochmah = ''chochmah''"
| "domain_as_str DBinah = ''binah''" | "domain_as_str DChesed = ''chesed''"
| "domain_as_str DGevurah = ''gevurah''" | "domain_as_str DTiferet = ''tiferet''"
| "domain_as_str DNetzach = ''netzach''" | "domain_as_str DHod = ''hod''"
| "domain_as_str DYesod = ''yesod''" | "domain_as_str DMalkuth = ''malkuth''"
| "domain_as_str DGeneral = ''general''" | "domain_as_str DCrossDomain = ''cross_domain''"

fun shard_base_id :: "graph_domain \<Rightarrow> u32" where
  "shard_base_id DKeter = 0" | "shard_base_id DChochmah = 1" | "shard_base_id DBinah = 2"
| "shard_base_id DChesed = 3" | "shard_base_id DGevurah = 4" | "shard_base_id DTiferet = 5"
| "shard_base_id DNetzach = 6" | "shard_base_id DHod = 7" | "shard_base_id DYesod = 8"
| "shard_base_id DMalkuth = 9" | "shard_base_id DGeneral = 10" | "shard_base_id DCrossDomain = 11"

definition all_domains :: "graph_domain list" where
  "all_domains = [DKeter, DChochmah, DBinah, DChesed, DGevurah, DTiferet, DNetzach, DHod, DYesod, DMalkuth,
     DGeneral, DCrossDomain]"

record ('f, 'e) shard_node =
  sn_node_id :: i64
  sn_node_type :: string
  sn_content_hash :: string
  sn_content :: "(string \<times> string) list"
  sn_confidence :: 'f
  sn_source_block :: i64
  sn_timestamp :: 'f
  sn_domain :: string
  sn_last_referenced_block :: i64
  sn_reference_count :: i64
  sn_grounding_source :: string
  sn_edges_out :: "i64 list"
  sn_edges_in :: "i64 list"
  sn_embedding :: "'e list option"

record 'f shard_edge =
  ge_from :: i64
  ge_to :: i64
  ge_type :: string
  ge_weight :: 'f
  ge_timestamp :: 'f

record 'f shard_config =
  cfg_shard_id :: u32
  cfg_domain :: graph_domain
  cfg_sub_shard :: u32
  cfg_data_dir :: string
  cfg_cache_capacity :: nat
  cfg_compaction_threshold :: 'f

type_synonym 'f adjacency = "(i64 \<times> string \<times> 'f) list"

text \<open>
  What the code takes from outside. \<open>se_of_int\<close> is \<open>as f64\<close> of a signed integer, \<open>se_show6\<close> the
  format with six decimals; the parsers are those of bincode; \<open>se_get\<close> promotes the entry it finds; \<open>se_lower\<close> and \<open>se_words\<close>
  are \<open>to_lowercase\<close> and \<open>split_whitespace\<close>, which go by the tables of Unicode.
\<close>

record ('f, 'e, 'c, 'v) shard_env =
  se_f64 :: "'f f64_ops"
  se_of_int :: "int \<Rightarrow> 'f"
  se_exp :: "'f \<Rightarrow> 'f"
  se_show6 :: "'f \<Rightarrow> string"
  se_sha256 :: "u8 list \<Rightarrow> h256"
  se_json :: "(string \<times> string) list \<Rightarrow> string"
  se_node_bytes :: "('f, 'e) shard_node \<Rightarrow> u8 list"
  se_node_parse :: "u8 list \<Rightarrow> ('f, 'e) shard_node option"
  se_edge_bytes :: "'f shard_edge \<Rightarrow> u8 list"
  se_edge_parse :: "u8 list \<Rightarrow> 'f shard_edge option"
  se_adj_bytes :: "'f adjacency \<Rightarrow> u8 list"
  se_adj_parse :: "u8 list \<Rightarrow> 'f adjacency option"
  se_cache_new :: "nat \<Rightarrow> 'c"
  se_get :: "i64 \<Rightarrow> 'c \<Rightarrow> ('f, 'e) shard_node option \<times> 'c"
  se_put :: "i64 \<Rightarrow> ('f, 'e) shard_node \<Rightarrow> 'c \<Rightarrow> 'c"
  se_pop :: "i64 \<Rightarrow> 'c \<Rightarrow> 'c"
  se_vec_new :: 'v
  se_vec_upsert :: "i64 \<Rightarrow> 'e list \<Rightarrow> 'v \<Rightarrow> 'v"
  se_lower :: "string \<Rightarrow> string"
  se_words :: "string \<Rightarrow> string list"

definition show_i64 :: "i64 \<Rightarrow> string" where
  "show_i64 w = (if sint w < 0 then ''-'' @ decimal (nat (- sint w)) else decimal (nat (sint w)))"

definition compute_hash :: "('f, 'e, 'c, 'v) shard_env \<Rightarrow> ('f, 'e) shard_node \<Rightarrow> string" where
  "compute_hash E n = hex_lower (be_bytes (se_sha256 E (ascii
     (show_i64 (sn_node_id n) @ '':'' @ sn_node_type n @ '':'' @ se_json E (sn_content n) @ '':'' @
      se_show6 E (sn_confidence n)))))"

definition merkle_leaf :: "('f, 'e, 'c, 'v) shard_env \<Rightarrow> ('f, 'e) shard_node \<Rightarrow> h256" where
  "merkle_leaf E n = se_sha256 E (ascii
     (show_i64 (sn_node_id n) @ '':'' @ sn_content_hash n @ '':'' @ se_show6 E (sn_confidence n)))"

definition type_score :: "'f f64_ops \<Rightarrow> string \<Rightarrow> 'f" where
  "type_score F ty =
     (if ty = ''axiom'' then fl_lit F 10 1 else if ty = ''inference'' then fl_lit F 8 1
      else if ty = ''prediction'' then fl_lit F 7 1 else if ty = ''assertion'' then fl_lit F 6 1
      else if ty = ''meta_observation'' then fl_lit F 5 1 else if ty = ''observation'' then fl_lit F 3 1
      else fl_lit F 2 1)"

definition value_score :: "('f, 'e, 'c, 'v) shard_env \<Rightarrow> i64 \<Rightarrow> ('f, 'e) shard_node \<Rightarrow> 'f" where
  "value_score E current_block n =
     (let F = se_f64 E;
          one = fl_lit F 10 1;
          edge_degree = fl_of_nat F (length (sn_edges_out n) + length (sn_edges_in n));
          edge_score = fl_min F (fl_div F edge_degree (fl_lit F 100 1)) one;
          ref_score = fl_min F (fl_div F (se_of_int E (sint (sn_reference_count n))) (fl_lit F 200 1)) one;
          grounding = (if sn_grounding_source n = ''prediction_verified'' \<or>
              sn_grounding_source n = ''block_oracle'' then one else fl_lit F 3 1);
          since = current_block - sn_last_referenced_block n;
          blocks_since = se_of_int E (if signed_less since 0 then 0 else sint since);
          recency = se_exp E (fl_div F (fl_sub F (fl_zero F) blocks_since) (fl_lit F 500000 1))
      in fl_add F (fl_add F (fl_add F (fl_add F (fl_add F
           (fl_mul F (type_score F (sn_node_type n)) (fl_lit F 30 2))
           (fl_mul F edge_score (fl_lit F 20 2)))
           (fl_mul F ref_score (fl_lit F 20 2)))
           (fl_mul F (sn_confidence n) (fl_lit F 15 2)))
           (fl_mul F recency (fl_lit F 10 2)))
           (fl_mul F grounding (fl_lit F 5 2)))"

definition edge_key :: "i64 \<Rightarrow> i64 \<Rightarrow> string \<Rightarrow> u8 list" where
  "edge_key from to ty = ascii (show_i64 from @ '':'' @ show_i64 to @ '':'' @ ty)"

definition storage_key :: "'f shard_edge \<Rightarrow> u8 list" where
  "storage_key e = edge_key (ge_from e) (ge_to e) (ge_type e)"

section \<open>The store\<close>

type_synonym column = "(u8 list \<times> u8 list) list"

record shard_db =
  db_nodes :: column
  db_edges :: column
  db_adj_out :: column
  db_adj_in :: column

record ('f, 'c, 'v) shard_store =
  st_db :: shard_db
  st_config :: "'f shard_config"
  st_cache :: 'c
  st_merkle :: shard_tree
  st_vec :: 'v
  st_node_count :: i64
  st_edge_count :: i64
  st_hits :: u64
  st_misses :: u64

datatype store_error = CorruptNode | CorruptEdge | CorruptAdjacency | ShardNotFound

definition recount :: "('f, 'c, 'v) shard_store \<Rightarrow> ('f, 'c, 'v) shard_store" where
  "recount s = s\<lparr>st_node_count := of_nat (length (db_nodes (st_db s))),
     st_edge_count := of_nat (length (db_edges (st_db s)))\<rparr>"

definition store_open ::
  "('f, 'e, 'c, 'v) shard_env \<Rightarrow> 'f shard_config \<Rightarrow> shard_db \<Rightarrow> ('f, 'c, 'v) shard_store" where
  "store_open E config db =
     (let cache_cap = (if cfg_cache_capacity config = 0 then 100000 else cfg_cache_capacity config)
      in recount \<lparr>st_db = db, st_config = config, st_cache = se_cache_new E cache_cap,
           st_merkle = tree_new, st_vec = se_vec_new E, st_node_count = 0, st_edge_count = 0,
           st_hits = 0, st_misses = 0\<rparr>)"

definition shard_id :: "('f, 'c, 'v) shard_store \<Rightarrow> u32" where
  "shard_id s = cfg_shard_id (st_config s)"

definition store_domain :: "('f, 'c, 'v) shard_store \<Rightarrow> graph_domain" where
  "store_domain s = cfg_domain (st_config s)"

definition put_node ::
  "('f, 'e, 'c, 'v) shard_env \<Rightarrow> ('f, 'e) shard_node \<Rightarrow> ('f, 'c, 'v) shard_store \<Rightarrow> ('f, 'c, 'v) shard_store" where
  "put_node E n s =
     (let db = st_db s; key = be_bytes (sn_node_id n)
      in s\<lparr>st_db := db\<lparr>db_nodes := bt_insert key (se_node_bytes E n) (db_nodes db)\<rparr>,
           st_cache := se_put E (sn_node_id n) n (st_cache s),
           st_merkle := tree_insert (sint (sn_node_id n)) (merkle_leaf E n) (st_merkle s),
           st_vec := (case sn_embedding n of
               Some emb \<Rightarrow> if emb \<noteq> [] then se_vec_upsert E (sn_node_id n) emb (st_vec s) else st_vec s
             | None \<Rightarrow> st_vec s),
           st_node_count := st_node_count s + 1\<rparr>)"

definition get_node ::
  "('f, 'e, 'c, 'v) shard_env \<Rightarrow> i64 \<Rightarrow> ('f, 'c, 'v) shard_store \<Rightarrow>
   (store_error + ('f, 'e) shard_node option) \<times> ('f, 'c, 'v) shard_store" where
  "get_node E node_id s =
     (let (hit, cache) = se_get E node_id (st_cache s); s1 = s\<lparr>st_cache := cache\<rparr>
      in case hit of
           Some n \<Rightarrow> (Inr (Some n), s1\<lparr>st_hits := st_hits s1 + 1\<rparr>)
         | None \<Rightarrow>
           (let s2 = s1\<lparr>st_misses := st_misses s1 + 1\<rparr>
            in case map_of (db_nodes (st_db s2)) (be_bytes node_id) of
                 None \<Rightarrow> (Inr None, s2)
               | Some data \<Rightarrow>
                 (case se_node_parse E data of
                    None \<Rightarrow> (Inl CorruptNode, s2)
                  | Some n \<Rightarrow> (Inr (Some n), s2\<lparr>st_cache := se_put E node_id n (st_cache s2)\<rparr>))))"

text \<open>The two loops of \<open>get_nodes\<close>; the second skips what does not parse.\<close>

fun cached_nodes ::
  "('f, 'e, 'c, 'v) shard_env \<Rightarrow> i64 list \<Rightarrow> ('f, 'c, 'v) shard_store \<Rightarrow>
   ('f, 'e) shard_node list \<times> i64 list \<times> ('f, 'c, 'v) shard_store" where
  "cached_nodes E [] s = ([], [], s)"
| "cached_nodes E (i # is) s =
     (let (hit, cache) = se_get E i (st_cache s); s1 = s\<lparr>st_cache := cache\<rparr>
      in case hit of
           Some n \<Rightarrow> (let (ns, missing, s2) = cached_nodes E is (s1\<lparr>st_hits := st_hits s1 + 1\<rparr>)
                      in (n # ns, missing, s2))
         | None \<Rightarrow> (let (ns, missing, s2) = cached_nodes E is (s1\<lparr>st_misses := st_misses s1 + 1\<rparr>)
                    in (ns, i # missing, s2)))"

fun fetch_nodes ::
  "('f, 'e, 'c, 'v) shard_env \<Rightarrow> i64 list \<Rightarrow> ('f, 'c, 'v) shard_store \<Rightarrow>
   ('f, 'e) shard_node list \<times> ('f, 'c, 'v) shard_store" where
  "fetch_nodes E [] s = ([], s)"
| "fetch_nodes E (i # is) s =
     (case map_of (db_nodes (st_db s)) (be_bytes i) of
        None \<Rightarrow> fetch_nodes E is s
      | Some data \<Rightarrow>
        (case se_node_parse E data of
           None \<Rightarrow> fetch_nodes E is s
         | Some n \<Rightarrow> (let (ns, s') = fetch_nodes E is (s\<lparr>st_cache := se_put E i n (st_cache s)\<rparr>)
                      in (n # ns, s'))))"

definition get_nodes ::
  "('f, 'e, 'c, 'v) shard_env \<Rightarrow> i64 list \<Rightarrow> ('f, 'c, 'v) shard_store \<Rightarrow>
   ('f, 'e) shard_node list \<times> ('f, 'c, 'v) shard_store" where
  "get_nodes E node_ids s =
     (let (found, missing, s1) = cached_nodes E node_ids s; (fetched, s2) = fetch_nodes E missing s1
      in (found @ fetched, s2))"

text \<open>The keys that the scan of a cascading deletion matches.\<close>

fun contains :: "'a list \<Rightarrow> 'a list \<Rightarrow> bool" where
  "contains pat [] \<longleftrightarrow> pat = []"
| "contains pat (x # xs) \<longleftrightarrow> take (length pat) (x # xs) = pat \<or> contains pat xs"

definition edge_key_matches :: "i64 \<Rightarrow> u8 list \<Rightarrow> bool" where
  "edge_key_matches node_id key \<longleftrightarrow>
     (let prefix = ascii (show_i64 node_id @ '':'') in take (length prefix) key = prefix) \<or>
     contains (ascii ('':'' @ show_i64 node_id @ '':'')) key"


type_synonym i32 = "32 word" \<comment> \<open>read with \<open>sint\<close>\<close>

definition delete_node ::
  "('f, 'e, 'c, 'v) shard_env \<Rightarrow> i64 \<Rightarrow> bool \<Rightarrow> ('f, 'c, 'v) shard_store \<Rightarrow>
   (bool \<times> i32) \<times> ('f, 'c, 'v) shard_store" where
  "delete_node E node_id cascade_edges s =
     (let db = st_db s; key = be_bytes node_id
      in if map_of (db_nodes db) key = None then ((False, 0), s)
         else
           (let db1 = db\<lparr>db_nodes := bt_remove key (db_nodes db)\<rparr>;
                s1 = s\<lparr>st_cache := se_pop E node_id (st_cache s),
                       st_merkle := snd (tree_remove (sint node_id) (st_merkle s)),
                       st_node_count := st_node_count s - 1\<rparr>
            in if cascade_edges then
                 (let doomed = filter (edge_key_matches node_id) (map fst (db_edges db));
                      edges_removed = of_nat (length doomed) :: i32
                  in ((True, edges_removed),
                      s1\<lparr>st_db := db1\<lparr>db_edges := fold bt_remove doomed (db_edges db),
                           db_adj_out := bt_remove key (db_adj_out db),
                           db_adj_in := bt_remove key (db_adj_in db)\<rparr>,
                         st_edge_count := st_edge_count s - scast edges_removed\<rparr>))
               else ((True, 0), s1\<lparr>st_db := db1\<rparr>)))"

definition clamp_unit :: "'f f64_ops \<Rightarrow> 'f \<Rightarrow> 'f" where
  "clamp_unit F x = (if fl_lt F x (fl_zero F) then fl_zero F
     else if fl_lt F (fl_lit F 10 1) x then fl_lit F 10 1 else x)"

definition touched_node :: "('f, 'e, 'c, 'v) shard_env \<Rightarrow> 'f \<Rightarrow> i64 \<Rightarrow> ('f, 'e) shard_node \<Rightarrow> ('f, 'e) shard_node" where
  "touched_node E confidence block n =
     n\<lparr>sn_confidence := clamp_unit (se_f64 E) confidence, sn_last_referenced_block := block,
       sn_reference_count := sn_reference_count n + 1\<rparr>"

definition update_confidence ::
  "('f, 'e, 'c, 'v) shard_env \<Rightarrow> i64 \<Rightarrow> 'f \<Rightarrow> i64 \<Rightarrow> ('f, 'c, 'v) shard_store \<Rightarrow>
   (store_error + 'f option) \<times> ('f, 'c, 'v) shard_store" where
  "update_confidence E node_id confidence block s =
     (case get_node E node_id s of
        (Inl e, s1) \<Rightarrow> (Inl e, s1)
      | (Inr None, s1) \<Rightarrow> (Inr None, s1)
      | (Inr (Some n), s1) \<Rightarrow> (Inr (Some (sn_confidence n)), put_node E (touched_node E confidence block n) s1))"

definition get_adjacency_list ::
  "('f, 'e, 'c, 'v) shard_env \<Rightarrow> column \<Rightarrow> u8 list \<Rightarrow> store_error + 'f adjacency" where
  "get_adjacency_list E cf key =
     (case map_of cf key of
        None \<Rightarrow> Inr []
      | Some data \<Rightarrow> (case se_adj_parse E data of None \<Rightarrow> Inl CorruptAdjacency | Some l \<Rightarrow> Inr l))"

text \<open>An entry for the neighbour and the type is added once; its weight is never changed.\<close>

definition link ::
  "('f, 'e, 'c, 'v) shard_env \<Rightarrow> u8 list \<Rightarrow> i64 \<Rightarrow> string \<Rightarrow> 'f \<Rightarrow> 'f adjacency \<Rightarrow> column \<Rightarrow> column" where
  "link E key other ty w adj cf =
     (if list_ex (\<lambda>(o1, t, _). o1 = other \<and> t = ty) adj then cf
      else bt_insert key (se_adj_bytes E (adj @ [(other, ty, w)])) cf)"

definition put_edge ::
  "('f, 'e, 'c, 'v) shard_env \<Rightarrow> 'f shard_edge \<Rightarrow> ('f, 'c, 'v) shard_store \<Rightarrow>
   (store_error + bool) \<times> ('f, 'c, 'v) shard_store" where
  "put_edge E e s =
     (let db = st_db s; from_key = be_bytes (ge_from e); to_key = be_bytes (ge_to e);
          existed = map_of (db_edges db) (storage_key e) \<noteq> None
      in case get_adjacency_list E (db_adj_out db) from_key of
           Inl err \<Rightarrow> (Inl err, s)
         | Inr adj_out \<Rightarrow>
           (case get_adjacency_list E (db_adj_in db) to_key of
              Inl err \<Rightarrow> (Inl err, s)
            | Inr adj_in \<Rightarrow>
              (let db1 = db\<lparr>db_edges := bt_insert (storage_key e) (se_edge_bytes E e) (db_edges db),
                     db_adj_out := link E from_key (ge_to e) (ge_type e) (ge_weight e) adj_out (db_adj_out db),
                     db_adj_in := link E to_key (ge_from e) (ge_type e) (ge_weight e) adj_in (db_adj_in db)\<rparr>
               in (Inr (\<not> existed),
                   s\<lparr>st_db := db1,
                     st_edge_count := (if existed then st_edge_count s else st_edge_count s + 1)\<rparr>))))"

datatype edge_direction = Outgoing | Incoming | Both

text \<open>An entry of a list for which no edge is stored becomes an edge with the time zero.\<close>

fun listed_edges ::
  "('f, 'e, 'c, 'v) shard_env \<Rightarrow> column \<Rightarrow> (i64 \<Rightarrow> i64 \<times> i64) \<Rightarrow> string option \<Rightarrow> 'f adjacency \<Rightarrow>
   store_error + 'f shard_edge list" where
  "listed_edges E edges ends flt [] = Inr []"
| "listed_edges E edges ends flt ((other, ty, w) # adj) =
     (if flt \<noteq> None \<and> flt \<noteq> Some ty then listed_edges E edges ends flt adj
      else
        (let (from, to) = ends other
         in case map_of edges (edge_key from to ty) of
              None \<Rightarrow> (case listed_edges E edges ends flt adj of
                  Inl e \<Rightarrow> Inl e
                | Inr es \<Rightarrow> Inr (\<lparr>ge_from = from, ge_to = to, ge_type = ty, ge_weight = w,
                    ge_timestamp = fl_zero (se_f64 E)\<rparr> # es))
            | Some data \<Rightarrow>
              (case se_edge_parse E data of
                 None \<Rightarrow> Inl CorruptEdge
               | Some e \<Rightarrow> (case listed_edges E edges ends flt adj of Inl e' \<Rightarrow> Inl e' | Inr es \<Rightarrow> Inr (e # es)))))"

definition get_edges ::
  "('f, 'e, 'c, 'v) shard_env \<Rightarrow> i64 \<Rightarrow> edge_direction \<Rightarrow> string option \<Rightarrow> ('f, 'c, 'v) shard_store \<Rightarrow>
   store_error + 'f shard_edge list" where
  "get_edges E node_id direction flt s =
     (let db = st_db s; key = be_bytes node_id;
          outgoing = (if direction = Incoming then Inr []
            else (case get_adjacency_list E (db_adj_out db) key of
                    Inl e \<Rightarrow> Inl e
                  | Inr adj \<Rightarrow> listed_edges E (db_edges db) (\<lambda>to. (node_id, to)) flt adj))
      in case outgoing of
           Inl e \<Rightarrow> Inl e
         | Inr out \<Rightarrow>
           if direction = Outgoing then Inr out
           else (case get_adjacency_list E (db_adj_in db) key of
                   Inl e \<Rightarrow> Inl e
                 | Inr adj \<Rightarrow>
                   (case listed_edges E (db_edges db) (\<lambda>from. (from, node_id)) flt adj of
                      Inl e \<Rightarrow> Inl e
                    | Inr inn \<Rightarrow> Inr (out @ inn))))"

text \<open>The nodes that a compaction deletes, with their keys.\<close>

fun worthless ::
  "('f, 'e, 'c, 'v) shard_env \<Rightarrow> 'f \<Rightarrow> i64 \<Rightarrow> column \<Rightarrow> store_error + (u8 list \<times> i64) list" where
  "worthless E min_value_score current_block [] = Inr []"
| "worthless E min_value_score current_block ((key, data) # cf) =
     (case se_node_parse E data of
        None \<Rightarrow> Inl CorruptNode
      | Some n \<Rightarrow>
        (case worthless E min_value_score current_block cf of
           Inl e \<Rightarrow> Inl e
         | Inr del \<Rightarrow>
           Inr (if fl_lt (se_f64 E) (value_score E current_block n) min_value_score
                then (key, sn_node_id n) # del else del)))"

text \<open>The size on disk before and after is reported by the database.\<close>

definition compact ::
  "('f, 'e, 'c, 'v) shard_env \<Rightarrow> u64 \<Rightarrow> u64 \<Rightarrow> 'f \<Rightarrow> i64 \<Rightarrow> ('f, 'c, 'v) shard_store \<Rightarrow>
   (store_error + (i64 \<times> u64)) \<times> ('f, 'c, 'v) shard_store" where
  "compact E bytes_before bytes_after min_value_score current_block s =
     (case worthless E min_value_score current_block (db_nodes (st_db s)) of
        Inl e \<Rightarrow> (Inl e, s)
      | Inr to_delete \<Rightarrow>
        (let db = st_db s; pruned = of_nat (length to_delete) :: i64
         in (Inr (pruned, saturating_sub bytes_before bytes_after),
             s\<lparr>st_db := db\<lparr>db_nodes := fold (\<lambda>(key, _) cf. bt_remove key cf) to_delete (db_nodes db)\<rparr>,
               st_cache := fold (\<lambda>(_, i) c. se_pop E i c) to_delete (st_cache s),
               st_merkle := fold (\<lambda>(_, i) t. snd (tree_remove (sint i) t)) to_delete (st_merkle s),
               st_node_count := st_node_count s - pruned\<rparr>)))"

definition merkle_root :: "('f, 'e, 'c, 'v) shard_env \<Rightarrow> ('f, 'c, 'v) shard_store \<Rightarrow> h256 \<times> ('f, 'c, 'v) shard_store" where
  "merkle_root E s = (let (r, t) = tree_root (se_sha256 E) (st_merkle s) in (r, s\<lparr>st_merkle := t\<rparr>))"

text \<open>The statistics of a shard; the size on disk is reported by the database.\<close>

record 'f shard_stats =
  ss_shard_id :: u32
  ss_domain :: string
  ss_node_count :: i64
  ss_edge_count :: i64
  ss_disk_bytes :: u64
  ss_avg_confidence :: 'f
  ss_merkle_root :: string
  ss_cache_hits :: u64
  ss_cache_misses :: u64

definition stats ::
  "('f, 'e, 'c, 'v) shard_env \<Rightarrow> u64 \<Rightarrow> ('f, 'c, 'v) shard_store \<Rightarrow> 'f shard_stats \<times> ('f, 'c, 'v) shard_store" where
  "stats E disk_usage s =
     (let hits = st_hits s; misses = st_misses s; (root, s') = merkle_root E s
      in (\<lparr>ss_shard_id = shard_id s, ss_domain = domain_as_str (store_domain s),
           ss_node_count = st_node_count s, ss_edge_count = st_edge_count s, ss_disk_bytes = disk_usage,
           ss_avg_confidence = fl_zero (se_f64 E), ss_merkle_root = hex_lower (be_bytes root),
           ss_cache_hits = hits, ss_cache_misses = misses\<rparr>, s'))"

fun insert_leaves ::
  "('f, 'e, 'c, 'v) shard_env \<Rightarrow> column \<Rightarrow> shard_tree \<Rightarrow> bool \<times> shard_tree" where
  "insert_leaves E [] t = (True, t)"
| "insert_leaves E ((_, data) # cf) t =
     (case se_node_parse E data of
        None \<Rightarrow> (False, t)
      | Some n \<Rightarrow> insert_leaves E cf (tree_insert (sint (sn_node_id n)) (merkle_leaf E n) t))"

definition rebuild_merkle ::
  "('f, 'e, 'c, 'v) shard_env \<Rightarrow> ('f, 'c, 'v) shard_store \<Rightarrow> (store_error + h256) \<times> ('f, 'c, 'v) shard_store" where
  "rebuild_merkle E s =
     (let (good, t) = insert_leaves E (db_nodes (st_db s)) (st_merkle s)
      in if good then (let (r, t') = tree_root (se_sha256 E) t in (Inr r, s\<lparr>st_merkle := t'\<rparr>))
         else (Inl CorruptNode, s\<lparr>st_merkle := t\<rparr>))"

fun parse_nodes :: "('f, 'e, 'c, 'v) shard_env \<Rightarrow> column \<Rightarrow> store_error + ('f, 'e) shard_node list" where
  "parse_nodes E [] = Inr []"
| "parse_nodes E ((_, data) # cf) =
     (case se_node_parse E data of
        None \<Rightarrow> Inl CorruptNode
      | Some n \<Rightarrow> (case parse_nodes E cf of Inl e \<Rightarrow> Inl e | Inr ns \<Rightarrow> Inr (n # ns)))"

text \<open>The iterator starts at the first key that is not below the bytes of the given identifier.\<close>

definition iter_nodes ::
  "('f, 'e, 'c, 'v) shard_env \<Rightarrow> i64 \<Rightarrow> nat \<Rightarrow> ('f, 'c, 'v) shard_store \<Rightarrow> store_error + ('f, 'e) shard_node list" where
  "iter_nodes E min_node_id batch_size s =
     parse_nodes E (take batch_size (dropWhile (\<lambda>(k, _). k < be_bytes min_node_id) (db_nodes (st_db s))))"

text \<open>
  Keyword search. A node scores one for each term that occurs in its text, times its confidence;
  when more than \<open>top_k * 10\<close> hits are collected, all but the best \<open>top_k * 2\<close> are dropped.
\<close>

fun join_words :: "string list \<Rightarrow> string" where
  "join_words [] = []"
| "join_words [w] = w"
| "join_words (w # v # ws) = w @ '' '' @ join_words (v # ws)"

type_synonym ('f, 'e) hit = "('f, 'e) shard_node \<times> 'f"

definition score_less :: "'f f64_ops \<Rightarrow> ('f, 'e) hit \<Rightarrow> ('f, 'e) hit \<Rightarrow> bool" where
  "score_less F x y \<longleftrightarrow> fl_lt F (snd x) (snd y)"

definition passes :: "'f f64_ops \<Rightarrow> 'f \<Rightarrow> string option \<Rightarrow> ('f, 'e) shard_node \<Rightarrow> bool" where
  "passes F min_confidence node_type_filter n \<longleftrightarrow> \<not> fl_lt F (sn_confidence n) min_confidence \<and>
     (node_type_filter = None \<or> node_type_filter = Some (sn_node_type n))"

definition term_score :: "('f, 'e, 'c, 'v) shard_env \<Rightarrow> string list \<Rightarrow> ('f, 'e) shard_node \<Rightarrow> 'f" where
  "term_score E terms n =
     (let F = se_f64 E; content_text = join_words (map (se_lower E o snd) (sn_content n))
      in fold (\<lambda>term score. if contains term content_text then fl_add F score (fl_lit F 10 1) else score)
           terms (fl_zero F))"

fun search_scan ::
  "('f, 'e, 'c, 'v) shard_env \<Rightarrow> string list \<Rightarrow> nat \<Rightarrow> 'f \<Rightarrow> string option \<Rightarrow> column \<Rightarrow> ('f, 'e) hit list \<Rightarrow>
   store_error + ('f, 'e) hit list" where
  "search_scan E terms top_k min_confidence flt [] scored = Inr scored"
| "search_scan E terms top_k min_confidence flt ((_, data) # cf) scored =
     (case se_node_parse E data of
        None \<Rightarrow> Inl CorruptNode
      | Some n \<Rightarrow>
        if \<not> passes (se_f64 E) min_confidence flt n then search_scan E terms top_k min_confidence flt cf scored
        else
          (let F = se_f64 E; score = term_score E terms n;
               scored1 = (if fl_lt F (fl_zero F) score
                 then scored @ [(n, fl_mul F score (sn_confidence n))] else scored);
               scored2 = (if top_k * 10 < length scored1
                 then take (top_k * 2) (sort_by (score_less F) scored1) else scored1)
           in search_scan E terms top_k min_confidence flt cf scored2))"

definition search_terms :: "('f, 'e, 'c, 'v) shard_env \<Rightarrow> string \<Rightarrow> string list" where
  "search_terms E query = filter (\<lambda>t. 2 \<le> length t) (se_words E (se_lower E query))"

definition search ::
  "('f, 'e, 'c, 'v) shard_env \<Rightarrow> string \<Rightarrow> nat \<Rightarrow> 'f \<Rightarrow> string option \<Rightarrow> ('f, 'c, 'v) shard_store \<Rightarrow>
   store_error + ('f, 'e) hit list" where
  "search E query top_k min_confidence node_type_filter s =
     (let terms = search_terms E query
      in if terms = [] then Inr []
         else (case search_scan E terms top_k min_confidence node_type_filter (db_nodes (st_db s)) [] of
                 Inl e \<Rightarrow> Inl e
               | Inr scored \<Rightarrow> Inr (take top_k (sort_by (score_less (se_f64 E)) scored))))"

text \<open>The answers of the vector index, nearest first, with what the store knows of them.\<close>

fun known_vectors ::
  "('f, 'e, 'c, 'v) shard_env \<Rightarrow> nat \<Rightarrow> 'f \<Rightarrow> (i64 \<times> 'e) list \<Rightarrow> (('f, 'e) shard_node \<times> 'e) list \<Rightarrow>
   ('f, 'c, 'v) shard_store \<Rightarrow> (store_error + (('f, 'e) shard_node \<times> 'e) list) \<times> ('f, 'c, 'v) shard_store" where
  "known_vectors E top_k min_confidence [] scored s = (Inr scored, s)"
| "known_vectors E top_k min_confidence ((i, d) # results) scored s =
     (case get_node E i s of
        (Inl e, s1) \<Rightarrow> (Inl e, s1)
      | (Inr None, s1) \<Rightarrow> known_vectors E top_k min_confidence results scored s1
      | (Inr (Some n), s1) \<Rightarrow>
        if fl_le (se_f64 E) min_confidence (sn_confidence n) then
          (let scored' = scored @ [(n, d)]
           in if top_k \<le> length scored' then (Inr scored', s1)
              else known_vectors E top_k min_confidence results scored' s1)
        else known_vectors E top_k min_confidence results scored s1)"

definition vector_search ::
  "('f, 'e, 'c, 'v) shard_env \<Rightarrow> ('v \<Rightarrow> nat \<Rightarrow> (i64 \<times> 'e) list) \<Rightarrow> nat \<Rightarrow> 'f \<Rightarrow> ('f, 'c, 'v) shard_store \<Rightarrow>
   (store_error + (('f, 'e) shard_node \<times> 'e) list) \<times> ('f, 'c, 'v) shard_store" where
  "vector_search E nearest top_k min_confidence s =
     known_vectors E top_k min_confidence (nearest (st_vec s) (top_k * 2)) [] s"

end
