(* ===== verification/ShardGraph.thy ===== *)
theory ShardGraph
  imports ShardStore
begin

text \<open>
  The store of a shard as a graph: the abstract state is a map from identifiers to nodes and a map
  from the two ends and the type to edges. The invariant \<open>store_inv\<close> relates it to the columns, the
  cache and the Merkle tree of \<open>ShardStore\<close>; every call keeps it.
\<close>

section \<open>What the crates promise\<close>

abbreviation cached :: "('f, 'e, 'c, 'v) shard_env \<Rightarrow> 'c \<Rightarrow> i64 \<Rightarrow> ('f, 'e) shard_node option" where
  "cached E c i \<equiv> fst (se_get E i c)"

text \<open>
  A value that was written is read back (bincode); a cache may forget, but what it answers is the
  last value that was put under the key and not taken out since (lru).
\<close>

definition codecs_ok :: "('f, 'e, 'c, 'v) shard_env \<Rightarrow> bool" where
  "codecs_ok E \<longleftrightarrow> (\<forall>n. se_node_parse E (se_node_bytes E n) = Some n) \<and>
     (\<forall>e. se_edge_parse E (se_edge_bytes E e) = Some e) \<and>
     (\<forall>l. se_adj_parse E (se_adj_bytes E l) = Some l)"

definition node_cache_ok :: "('f, 'e, 'c, 'v) shard_env \<Rightarrow> bool" where
  "node_cache_ok E \<longleftrightarrow> (\<forall>k i. cached E (se_cache_new E k) i = None) \<and>
     (\<forall>c i j n m. cached E (se_put E j n c) i = Some m \<longrightarrow> (if i = j then m = n else cached E c i = Some m)) \<and>
     (\<forall>c i j m. cached E (snd (se_get E j c)) i = Some m \<longrightarrow> cached E c i = Some m) \<and>
     (\<forall>c i j m. cached E (se_pop E j c) i = Some m \<longrightarrow> i \<noteq> j \<and> cached E c i = Some m)"

definition env_ok :: "('f, 'e, 'c, 'v) shard_env \<Rightarrow> bool" where
  "env_ok E \<longleftrightarrow> codecs_ok E \<and> node_cache_ok E"

lemma env_okD:
  assumes "env_ok E"
  shows "se_node_parse E (se_node_bytes E n) = Some n" "se_edge_parse E (se_edge_bytes E e) = Some e"
    "se_adj_parse E (se_adj_bytes E l) = Some l" "cached E (se_cache_new E k) i = None"
    "cached E (se_put E j n c) i = Some m \<Longrightarrow> if i = j then m = n else cached E c i = Some m"
    "cached E (snd (se_get E j c)) i = Some m \<Longrightarrow> cached E c i = Some m"
    "cached E (se_pop E j c) i = Some m \<Longrightarrow> i \<noteq> j \<and> cached E c i = Some m"
  using assms unfolding env_ok_def codecs_ok_def node_cache_ok_def by blast+

section \<open>Keys\<close>

lemma ascii_append: "ascii (s @ t) = ascii s @ ascii t"
  by (simp add: ascii_def)

lemma ascii_inject: "ascii s = ascii t \<longleftrightarrow> s = t"
proof -
  have "inj (\<lambda>c. of_nat (of_char c) :: u8)"
  proof (rule injI)
    fix c d :: char
    assume e: "(of_nat (of_char c) :: u8) = of_nat (of_char d)"
    have "unat (of_nat (of_char c) :: u8) = of_char c" for c :: char by (simp add: unat_of_nat)
    with arg_cong [OF e, of unat] have "(of_char c :: nat) = of_char d" by metis
    then show "c = d" by simp
  qed
  then show ?thesis by (simp add: ascii_def inj_map_eq_map)
qed

lemma show_i64_inject: "show_i64 v = show_i64 w \<longleftrightarrow> v = w"
proof
  assume e: "show_i64 v = show_i64 w"
  have digits: "decimal n \<noteq> CHR ''-'' # s" for n s using set_decimal [of n] by auto
  have "sint v = sint w"
    using e digits digits [symmetric] by (auto simp: show_i64_def decimal_inject split: if_splits)
  then show "v = w" by (rule signed_word_eqI)
qed simp

lemma show_i64_colon: "CHR '':'' \<notin> set (show_i64 w)"
  using set_decimal by (auto simp: show_i64_def)

lemma split_at_colon:
  "CHR '':'' \<notin> set s \<Longrightarrow> CHR '':'' \<notin> set t \<Longrightarrow>
   s @ CHR '':'' # r = t @ CHR '':'' # q \<longleftrightarrow> s = t \<and> r = q"
proof (induction s arbitrary: t)
  case Nil
  then show ?case by (cases t) auto
next
  case (Cons c s)
  then show ?case by (cases t) auto
qed

lemma edge_key_inject: "edge_key a b t = edge_key c d u \<longleftrightarrow> a = c \<and> b = d \<and> t = u"
  by (simp add: edge_key_def ascii_inject split_at_colon show_i64_colon show_i64_inject)

lemma contains_middle: "contains pat (xs @ pat @ ys)"
proof (induction xs)
  case Nil
  then show ?case by (cases "pat @ ys") (auto, metis append_eq_conv_conj)
qed simp

text \<open>The scan of a cascading deletion finds every edge at the node.\<close>

lemma edge_key_matches_ends: "edge_key_matches i (edge_key i b t)" "edge_key_matches i (edge_key a i t)"
proof -
  have k: "edge_key i b t = ascii (show_i64 i @ '':'') @ ascii (show_i64 b @ '':'' @ t)"
    by (simp only: edge_key_def ascii_append append_assoc)
  show "edge_key_matches i (edge_key i b t)" by (simp add: edge_key_matches_def Let_def k)
  have "edge_key a i t = ascii (show_i64 a) @ ascii ('':'' @ show_i64 i @ '':'') @ ascii t"
    by (simp only: edge_key_def ascii_append append_assoc)
  then show "edge_key_matches i (edge_key a i t)"
    by (simp only: edge_key_matches_def contains_middle simp_thms)
qed

section \<open>The nodes\<close>

text \<open>The contents of the Merkle tree for the nodes \<open>m\<close>.\<close>

definition leaf_map :: "('f, 'e, 'c, 'v) shard_env \<Rightarrow> (i64 \<rightharpoonup> ('f, 'e) shard_node) \<Rightarrow> (int \<rightharpoonup> h256)" where
  "leaf_map E m = (\<lambda>z. if sint (word_of_int z :: i64) = z
     then map_option (merkle_leaf E) (m (word_of_int z)) else None)"

lemma leaf_map_update: "leaf_map E (m(i := v)) = (leaf_map E m)(sint i := map_option (merkle_leaf E) v)"
  by (auto simp: leaf_map_def fun_eq_iff)

lemma leaf_map_empty [simp]: "leaf_map E Map.empty = Map.empty"
  by (simp add: leaf_map_def fun_eq_iff)

definition node_rel ::
  "('f, 'e, 'c, 'v) shard_env \<Rightarrow> (i64 \<rightharpoonup> ('f, 'e) shard_node) \<Rightarrow> column \<Rightarrow> 'c \<Rightarrow> shard_tree \<Rightarrow> bool" where
  "node_rel E m cf c t \<longleftrightarrow> sorted_keys cf \<and>
     (\<forall>k. map_of cf k \<noteq> None \<longrightarrow> (\<exists>i :: i64. k = be_bytes i)) \<and>
     (\<forall>i. map_of cf (be_bytes i) = map_option (se_node_bytes E) (m i)) \<and>
     (\<forall>i n. m i = Some n \<longrightarrow> sn_node_id n = i) \<and>
     (\<forall>i n. cached E c i = Some n \<longrightarrow> m i = Some n) \<and>
     tree_inv (se_sha256 E) (leaf_map E m) t"

lemma id_bytes_inject [simp]: "be_bytes (v :: i64) = be_bytes w \<longleftrightarrow> v = w"
  by (rule be_bytes_inject) simp

lemma node_relD:
  assumes "node_rel E m cf c t"
  shows "map_of cf (be_bytes i) = map_option (se_node_bytes E) (m i)" "m i = Some n \<Longrightarrow> sn_node_id n = i"
    "cached E c i = Some n \<Longrightarrow> m i = Some n" "sorted_keys cf"
    "map_of cf k = Some v \<Longrightarrow> \<exists>i :: i64. k = be_bytes i" "tree_inv (se_sha256 E) (leaf_map E m) t"
  using assms unfolding node_rel_def by blast+

lemma node_relI:
  assumes "sorted_keys cf" "\<And>k v. map_of cf k = Some v \<Longrightarrow> \<exists>i :: i64. k = be_bytes i"
    "\<And>i. map_of cf (be_bytes i) = map_option (se_node_bytes E) (m i)"
    "\<And>i n. m i = Some n \<Longrightarrow> sn_node_id n = i" "\<And>i n. cached E c i = Some n \<Longrightarrow> m i = Some n"
    "tree_inv (se_sha256 E) (leaf_map E m) t"
  shows "node_rel E m cf c t"
  using assms unfolding node_rel_def by blast

lemma node_rel_put:
  assumes E: "env_ok E" and R: "node_rel E m cf c t" and n: "sn_node_id n = i"
  shows "node_rel E (m(i \<mapsto> n)) (bt_insert (be_bytes i) (se_node_bytes E n) cf) (se_put E i n c)
    (tree_insert (sint i) (merkle_leaf E n) t)"
proof (rule node_relI)
  note sorted = node_relD(4) [OF R]
  show "sorted_keys (bt_insert (be_bytes i) (se_node_bytes E n) cf)" by (rule bt_insert_sorted [OF sorted])
  show "\<exists>j :: i64. k = be_bytes j"
    if "map_of (bt_insert (be_bytes i) (se_node_bytes E n) cf) k = Some v" for k v
    using that node_relD(5) [OF R, of k v] by (auto simp: bt_insert_lookup [OF sorted] split: if_splits)
  show "map_of (bt_insert (be_bytes i) (se_node_bytes E n) cf) (be_bytes j) =
      map_option (se_node_bytes E) ((m(i \<mapsto> n)) j)" for j
    by (simp add: bt_insert_lookup [OF sorted] node_relD(1) [OF R])
  show "sn_node_id k = j" if "(m(i \<mapsto> n)) j = Some k" for j k
    using that n node_relD(2) [OF R, of j k] by (simp split: if_splits)
  show "(m(i \<mapsto> n)) j = Some k" if "cached E (se_put E i n c) j = Some k" for j k
    using env_okD(5) [OF E that] node_relD(3) [OF R, of j k] by (simp split: if_splits)
  show "tree_inv (se_sha256 E) (leaf_map E (m(i \<mapsto> n))) (tree_insert (sint i) (merkle_leaf E n) t)"
    using tree_exec_inv [OF node_relD(6) [OF R], of "Insert_call (sint i) (merkle_leaf E n)"]
    by (simp add: leaf_map_update)
qed

lemma node_rel_remove:
  assumes E: "env_ok E" and R: "node_rel E m cf c t"
  shows "node_rel E (m(i := None)) (bt_remove (be_bytes i) cf) (se_pop E i c) (snd (tree_remove (sint i) t))"
proof (rule node_relI)
  note sorted = node_relD(4) [OF R]
  show "sorted_keys (bt_remove (be_bytes i) cf)" by (rule bt_remove_sorted [OF sorted])
  show "\<exists>j :: i64. k = be_bytes j" if "map_of (bt_remove (be_bytes i) cf) k = Some v" for k v
    using that node_relD(5) [OF R, of k v] by (simp add: bt_remove_lookup [OF sorted] split: if_splits)
  show "map_of (bt_remove (be_bytes i) cf) (be_bytes j) = map_option (se_node_bytes E) ((m(i := None)) j)" for j
    by (simp add: bt_remove_lookup [OF sorted] node_relD(1) [OF R])
  show "sn_node_id k = j" if "(m(i := None)) j = Some k" for j k
    using that node_relD(2) [OF R, of j k] by (simp split: if_splits)
  show "(m(i := None)) j = Some k" if "cached E (se_pop E i c) j = Some k" for j k
    using env_okD(7) [OF E that] node_relD(3) [OF R, of j k] by simp
  show "tree_inv (se_sha256 E) (leaf_map E (m(i := None))) (snd (tree_remove (sint i) t))"
    using tree_exec_inv [OF node_relD(6) [OF R], of "Remove_call (sint i)"] by (simp add: leaf_map_update)
qed

lemma node_rel_removes:
  assumes "env_ok E" "node_rel E m cf c t"
  shows "node_rel E (\<lambda>i. if i \<in> set is then None else m i)
    (fold (\<lambda>(key, _) cf. bt_remove key cf) (map (\<lambda>i. (be_bytes i, i)) is) cf)
    (fold (\<lambda>(_, i) c. se_pop E i c) (map (\<lambda>i. (be_bytes i :: u8 list, i)) is) c)
    (fold (\<lambda>(_, i) t. snd (tree_remove (sint i) t)) (map (\<lambda>i. (be_bytes i :: u8 list, i)) is) t)"
  using assms(2)
proof (induction "is" arbitrary: m cf c t)
  case (Cons i js)
  have eq: "(\<lambda>k. if k \<in> set js then None else (m(i := None)) k) = (\<lambda>k. if k \<in> set (i # js) then None else m k)"
    by (auto simp: fun_eq_iff)
  from Cons.IH [OF node_rel_remove [OF assms(1) Cons.prems, of i], unfolded eq] show ?case
    by (simp only: list.map fold_simps prod.case)
qed simp

text \<open>Reading a node, from the cache or from the column.\<close>

abbreviation node_inv ::
  "('f, 'e, 'c, 'v) shard_env \<Rightarrow> (i64 \<rightharpoonup> ('f, 'e) shard_node) \<Rightarrow> ('f, 'c, 'v) shard_store \<Rightarrow> bool" where
  "node_inv E m s \<equiv> node_rel E m (db_nodes (st_db s)) (st_cache s) (st_merkle s)"

lemma node_rel_cache:
  "node_rel E m cf c t \<Longrightarrow> (\<And>i n. cached E c' i = Some n \<Longrightarrow> m i = Some n) \<Longrightarrow> node_rel E m cf c' t"
  by (simp add: node_rel_def)

lemma node_rel_get:
  assumes "env_ok E" "node_rel E m cf c t"
  shows "node_rel E m cf (snd (se_get E i c)) t"
  using node_rel_cache [OF assms(2)] env_okD(6) [OF assms(1)] node_relD(3) [OF assms(2)] by blast

lemma node_rel_promote:
  assumes "env_ok E" "node_rel E m cf c t" "m i = Some n"
  shows "node_rel E m cf (se_put E i n c) t"
  by (rule node_rel_cache [OF assms(2)], drule env_okD(5) [OF assms(1)])
    (use node_relD(3) [OF assms(2)] assms(3) in \<open>auto split: if_splits\<close>)

lemma get_node_answer:
  assumes "env_ok E" "node_inv E m s"
  shows "fst (get_node E i s) = Inr (m i)" "node_inv E m (snd (get_node E i s))"
    "st_db (snd (get_node E i s)) = st_db s"
proof -
  obtain hit c where C: "se_get E i (st_cache s) = (hit, c)" by (cases "se_get E i (st_cache s)")
  have c: "node_rel E m (db_nodes (st_db s)) c (st_merkle s)" using node_rel_get [OF assms, of i] C by simp
  have h: "hit = Some n \<Longrightarrow> m i = Some n" for n using node_relD(3) [OF assms(2), of i n] C by simp
  note lookup = node_relD(1) [OF assms(2), of i]
  note parse = env_okD(1) [OF assms(1)]
  note promote = node_rel_promote [OF assms(1) c]
  show "fst (get_node E i s) = Inr (m i)"
    by (simp add: get_node_def C Let_def h lookup parse split: option.splits)
  show "node_inv E m (snd (get_node E i s))"
    by (simp add: get_node_def C Let_def c lookup parse promote split: option.splits)
  show "st_db (snd (get_node E i s)) = st_db s"
    by (simp add: get_node_def C Let_def split: option.splits)
qed

text \<open>A batch: what is cached first, then what is read.\<close>

lemma cached_nodes_answer:
  assumes "env_ok E" "node_inv E m s" "cached_nodes E is s = (ns, missing, s')"
  shows "node_inv E m s' \<and> st_db s' = st_db s \<and>
    mset ns + mset (List.map_filter m missing) = mset (List.map_filter m is)"
  using assms(2,3)
proof (induction "is" arbitrary: s ns missing s')
  case (Cons i js)
  obtain hit c where C: "se_get E i (st_cache s) = (hit, c)" by (cases "se_get E i (st_cache s)")
  have c: "node_rel E m (db_nodes (st_db s)) c (st_merkle s)"
    using node_rel_get [OF assms(1) Cons.prems(1), of i] C by simp
  show ?case
  proof (cases hit)
    case None
    obtain ns1 missing1 s1 where
      r: "cached_nodes E js (s\<lparr>st_cache := c, st_misses := st_misses s + 1\<rparr>) = (ns1, missing1, s1)"
      by (metis prod_cases3)
    have "ns = ns1" "missing = i # missing1" "s' = s1" using Cons.prems(2) r by (simp_all add: C None)
    moreover have "node_inv E m (s\<lparr>st_cache := c, st_misses := st_misses s + 1\<rparr>)" using c by simp
    note Cons.IH [OF this r]
    ultimately show ?thesis by (elim conjE) (simp add: List.map_filter_simps split: option.splits)
  next
    case (Some n)
    then have "m i = Some n" using node_relD(3) [OF Cons.prems(1), of i n] C by simp
    obtain ns1 missing1 s1 where
      r: "cached_nodes E js (s\<lparr>st_cache := c, st_hits := st_hits s + 1\<rparr>) = (ns1, missing1, s1)"
      by (metis prod_cases3)
    have "ns = n # ns1" "missing = missing1" "s' = s1" using Cons.prems(2) r by (simp_all add: C Some)
    moreover have "node_inv E m (s\<lparr>st_cache := c, st_hits := st_hits s + 1\<rparr>)" using c by simp
    note Cons.IH [OF this r]
    ultimately show ?thesis using \<open>m i = Some n\<close> by (elim conjE) (simp add: List.map_filter_simps)
  qed
qed (simp add: List.map_filter_simps)

lemma fetch_nodes_answer:
  assumes "env_ok E" "node_inv E m s" "fetch_nodes E is s = (ns, s')"
  shows "node_inv E m s' \<and> st_db s' = st_db s \<and> ns = List.map_filter m is"
  using assms(2,3)
proof (induction "is" arbitrary: s ns s')
  case (Cons i js)
  show ?case
  proof (cases "m i")
    case None
    have "fetch_nodes E js s = (ns, s')" using Cons.prems(2) None by (simp add: node_relD(1) [OF Cons.prems(1)])
    from Cons.IH [OF Cons.prems(1) this] None show ?thesis by (elim conjE) (simp add: List.map_filter_simps)
  next
    case (Some n)
    obtain ns1 s1 where r: "fetch_nodes E js (s\<lparr>st_cache := se_put E i n (st_cache s)\<rparr>) = (ns1, s1)"
      by (metis surj_pair)
    have "ns = n # ns1" "s' = s1"
      using Cons.prems(2) r by (simp_all add: node_relD(1) [OF Cons.prems(1)] Some env_okD(1) [OF assms(1)])
    moreover have "node_inv E m (s\<lparr>st_cache := se_put E i n (st_cache s)\<rparr>)"
      using node_rel_promote [OF assms(1) Cons.prems(1) Some] by simp
    note Cons.IH [OF this r]
    ultimately show ?thesis using Some by (elim conjE) (simp add: List.map_filter_simps)
  qed
qed (simp add: List.map_filter_simps)

lemma get_nodes_answer:
  assumes "env_ok E" "node_inv E m s"
  shows "mset (fst (get_nodes E is s)) = mset (List.map_filter m is)" "node_inv E m (snd (get_nodes E is s))"
    "st_db (snd (get_nodes E is s)) = st_db s"
proof -
  obtain ns missing s1 where c: "cached_nodes E is s = (ns, missing, s1)" by (metis prod_cases3)
  obtain fs s2 where f: "fetch_nodes E missing s1 = (fs, s2)" by (metis surj_pair)
  have C: "node_inv E m s1" "st_db s1 = st_db s"
      "mset ns + mset (List.map_filter m missing) = mset (List.map_filter m is)"
    using cached_nodes_answer [OF assms c] by blast+
  have F: "node_inv E m s2" "st_db s2 = st_db s1" "fs = List.map_filter m missing"
    using fetch_nodes_answer [OF assms(1) C(1) f] by blast+
  show "mset (fst (get_nodes E is s)) = mset (List.map_filter m is)"
    "node_inv E m (snd (get_nodes E is s))" "st_db (snd (get_nodes E is s)) = st_db s"
    using C(3) F(1) by (simp_all add: get_nodes_def c f F(2,3) C(2))
qed

text \<open>The operations that change nodes.\<close>

lemma put_node_inv:
  assumes "env_ok E" "node_inv E m s"
  shows "node_inv E (m(sn_node_id n \<mapsto> n)) (put_node E n s)"
  using node_rel_put [OF assms refl, of n] by (simp add: put_node_def Let_def)

lemma delete_node_inv:
  assumes "env_ok E" "node_inv E m s"
  shows "node_inv E (m(i := None)) (snd (delete_node E i casc s))"
    "fst (fst (delete_node E i casc s)) \<longleftrightarrow> m i \<noteq> None"
proof -
  show "fst (fst (delete_node E i casc s)) \<longleftrightarrow> m i \<noteq> None"
    using node_relD(1) [OF assms(2), of i] by (simp add: delete_node_def Let_def)
  show "node_inv E (m(i := None)) (snd (delete_node E i casc s))"
  proof (cases "m i")
    case None
    then have "m(i := None) = m" by auto
    with None assms(2) node_relD(1) [OF assms(2), of i] show ?thesis by (simp add: delete_node_def Let_def)
  next
    case (Some n)
    with node_relD(1) [OF assms(2), of i] node_rel_remove [OF assms, of i] show ?thesis
      by (simp add: delete_node_def Let_def)
  qed
qed

lemma update_confidence_inv:
  assumes "env_ok E" "node_inv E m s"
  shows "node_inv E (m(i := map_option (touched_node E f b) (m i))) (snd (update_confidence E i f b s))"
    "fst (update_confidence E i f b s) = Inr (map_option sn_confidence (m i))"
    "db_edges (st_db (snd (update_confidence E i f b s))) = db_edges (st_db s)"
    "db_adj_out (st_db (snd (update_confidence E i f b s))) = db_adj_out (st_db s)"
    "db_adj_in (st_db (snd (update_confidence E i f b s))) = db_adj_in (st_db s)"
proof -
  obtain s1 where g: "get_node E i s = (Inr (m i), s1)" and I: "node_inv E m s1" and db: "st_db s1 = st_db s"
    using get_node_answer [OF assms, of i] by (metis prod.collapse)
  show "fst (update_confidence E i f b s) = Inr (map_option sn_confidence (m i))"
    by (simp add: update_confidence_def g split: option.splits)
  show "node_inv E (m(i := map_option (touched_node E f b) (m i))) (snd (update_confidence E i f b s))"
  proof (cases "m i")
    case None
    then have "m(i := None) = m" by auto
    with None I show ?thesis by (simp add: update_confidence_def g)
  next
    case (Some n)
    then have "sn_node_id (touched_node E f b n) = i"
      using node_relD(2) [OF assms(2)] by (simp add: touched_node_def)
    with put_node_inv [OF assms(1) I, of "touched_node E f b n"] Some show ?thesis
      by (simp add: update_confidence_def g)
  qed
  show "db_edges (st_db (snd (update_confidence E i f b s))) = db_edges (st_db s)"
    "db_adj_out (st_db (snd (update_confidence E i f b s))) = db_adj_out (st_db s)"
    "db_adj_in (st_db (snd (update_confidence E i f b s))) = db_adj_in (st_db s)"
    by (auto simp: update_confidence_def g db put_node_def Let_def split: option.splits)
qed

text \<open>The entries of the column are the nodes; a compaction takes the worthless ones.\<close>

lemma node_rel_entries:
  assumes "env_ok E" "node_rel E m cf c t" "(k, v) \<in> set cf"
  obtains n where "k = be_bytes (sn_node_id n)" "v = se_node_bytes E n" "m (sn_node_id n) = Some n"
proof -
  have "map_of cf k = Some v" using assms(3) node_relD(4) [OF assms(2)]
    by (simp add: sorted_keys_def strict_sorted_iff)
  moreover obtain i :: i64 where "k = be_bytes i" using node_relD(5) [OF assms(2) calculation] by blast
  ultimately obtain n where "m i = Some n" "v = se_node_bytes E n"
    using node_relD(1) [OF assms(2), of i] by auto
  then show ?thesis using that node_relD(2) [OF assms(2)] \<open>k = be_bytes i\<close> by metis
qed

lemma entry_of_node:
  assumes "node_rel E m cf c t" "m i = Some n"
  shows "(be_bytes i, se_node_bytes E n) \<in> set cf"
  using node_relD(1) [OF assms(1), of i] assms(2) by (simp add: map_of_SomeD)

definition is_worthless :: "('f, 'e, 'c, 'v) shard_env \<Rightarrow> 'f \<Rightarrow> i64 \<Rightarrow> ('f, 'e) shard_node \<Rightarrow> bool" where
  "is_worthless E bound block n \<longleftrightarrow> fl_lt (se_f64 E) (value_score E block n) bound"

lemma worthless_entries:
  assumes "env_ok E"
    and "\<And>k v. (k, v) \<in> set cf \<Longrightarrow> \<exists>n. k = be_bytes (sn_node_id n) \<and> v = se_node_bytes E n"
  shows "worthless E bound block cf = Inr (map (\<lambda>i. (be_bytes i, i))
    (map (sn_node_id o the o se_node_parse E o snd)
      (filter (is_worthless E bound block o the o se_node_parse E o snd) cf)))"
  using assms(2)
proof (induction cf)
  case (Cons kv cf)
  obtain k v where kv: "kv = (k, v)" by (cases kv)
  then obtain n where "k = be_bytes (sn_node_id n)" "v = se_node_bytes E n" using Cons.prems by auto
  with Cons kv show ?case by (simp add: env_okD(1) [OF assms(1)] is_worthless_def)
qed simp

lemma compact_inv:
  assumes "env_ok E" "node_inv E m s"
  shows "node_inv E (\<lambda>i. case m i of None \<Rightarrow> None
      | Some n \<Rightarrow> if is_worthless E bound block n then None else Some n) (snd (compact E b a bound block s))"
    "\<exists>r. fst (compact E b a bound block s) = Inr r"
    "db_edges (st_db (snd (compact E b a bound block s))) = db_edges (st_db s)"
    "db_adj_out (st_db (snd (compact E b a bound block s))) = db_adj_out (st_db s)"
    "db_adj_in (st_db (snd (compact E b a bound block s))) = db_adj_in (st_db s)"
proof -
  define cf where "cf = db_nodes (st_db s)"
  have entries: "\<exists>n. k = be_bytes (sn_node_id n) \<and> v = se_node_bytes E n \<and> m (sn_node_id n) = Some n"
    if "(k, v) \<in> set cf" for k v
    by (rule node_rel_entries [OF assms that [unfolded cf_def]]) blast
  define del where "del = map (sn_node_id o the o se_node_parse E o snd)
      (filter (is_worthless E bound block o the o se_node_parse E o snd) cf)"
  have w: "worthless E bound block cf = Inr (map (\<lambda>i. (be_bytes i, i)) del)"
    unfolding del_def by (rule worthless_entries [OF assms(1)]) (use entries in blast)
  have del: "i \<in> set del \<longleftrightarrow> (\<exists>n. m i = Some n \<and> is_worthless E bound block n)" for i
  proof
    assume "i \<in> set del"
    then obtain k v where "(k, v) \<in> set cf" "is_worthless E bound block (the (se_node_parse E v))"
        "i = sn_node_id (the (se_node_parse E v))" by (auto simp: del_def)
    with entries [of k v] show "\<exists>n. m i = Some n \<and> is_worthless E bound block n"
      by (auto simp: env_okD(1) [OF assms(1)])
  next
    assume "\<exists>n. m i = Some n \<and> is_worthless E bound block n"
    then obtain n where n: "m i = Some n" "is_worthless E bound block n" by blast
    have "(be_bytes i, se_node_bytes E n) \<in> set cf" unfolding cf_def by (rule entry_of_node [OF assms(2) n(1)])
    with n node_relD(2) [OF assms(2) n(1)] show "i \<in> set del"
      by (force simp: del_def env_okD(1) [OF assms(1)])
  qed
  have eq: "(\<lambda>i. if i \<in> set del then None else m i) = (\<lambda>i. case m i of None \<Rightarrow> None
      | Some n \<Rightarrow> if is_worthless E bound block n then None else Some n)"
    by (auto simp: fun_eq_iff del split: option.splits)
  show "node_inv E (\<lambda>i. case m i of None \<Rightarrow> None
      | Some n \<Rightarrow> if is_worthless E bound block n then None else Some n) (snd (compact E b a bound block s))"
    using node_rel_removes [OF assms, of del] unfolding eq
    by (simp add: compact_def w [unfolded cf_def] Let_def)
  show "\<exists>r. fst (compact E b a bound block s) = Inr r"
    "db_edges (st_db (snd (compact E b a bound block s))) = db_edges (st_db s)"
    "db_adj_out (st_db (snd (compact E b a bound block s))) = db_adj_out (st_db s)"
    "db_adj_in (st_db (snd (compact E b a bound block s))) = db_adj_in (st_db s)"
    by (simp_all add: compact_def w [unfolded cf_def] Let_def)
qed

text \<open>Root queries, searches and the rebuilding of the tree.\<close>

lemma merkle_root_inv:
  assumes "node_inv E m s"
  shows "node_inv E m (snd (merkle_root E s))" "fst (merkle_root E s) = contents_root (se_sha256 E) (leaf_map E m)"
    "st_db (snd (merkle_root E s)) = st_db s"
proof -
  note I = node_relD(6) [OF assms]
  obtain r t where r: "tree_root (se_sha256 E) (st_merkle s) = (r, t)" by (metis surj_pair)
  then have t: "tree_inv (se_sha256 E) (leaf_map E m) t" using tree_root_inv(2) [OF I] by simp
  show "node_inv E m (snd (merkle_root E s))" using assms t by (simp add: merkle_root_def r node_rel_def)
  show "fst (merkle_root E s) = contents_root (se_sha256 E) (leaf_map E m)"
    using root_of_contents [OF I] by (simp add: merkle_root_def r)
  show "st_db (snd (merkle_root E s)) = st_db s" by (simp add: merkle_root_def r)
qed

lemma insert_leaves_inv:
  assumes "env_ok E" "tree_inv sha l t" "l \<subseteq>\<^sub>m leaf_map E m"
    and "\<And>k v. (k, v) \<in> set cf \<Longrightarrow> \<exists>n. v = se_node_bytes E n \<and> m (sn_node_id n) = Some n"
  shows "\<exists>t' l'. insert_leaves E cf t = (True, t') \<and> tree_inv sha l' t' \<and> l \<subseteq>\<^sub>m l' \<and> l' \<subseteq>\<^sub>m leaf_map E m \<and>
    (\<forall>k n. (k, se_node_bytes E n) \<in> set cf \<longrightarrow> l' (sint (sn_node_id n)) \<noteq> None)"
  using assms(2-4)
proof (induction cf arbitrary: l t)
  case (Cons kv cf)
  obtain k v where kv: "kv = (k, v)" by (cases kv)
  then obtain n where n: "v = se_node_bytes E n" "m (sn_node_id n) = Some n" using Cons.prems(3) by auto
  let ?i = "sint (sn_node_id n)"
  let ?l = "l(?i \<mapsto> merkle_leaf E n)" and ?t = "tree_insert ?i (merkle_leaf E n) t"
  have leaf: "leaf_map E m ?i = Some (merkle_leaf E n)" using n(2) by (simp add: leaf_map_def)
  have "tree_inv sha ?l ?t"
    using tree_exec_inv [OF Cons.prems(1), of "Insert_call ?i (merkle_leaf E n)"] by simp
  moreover have "?l \<subseteq>\<^sub>m leaf_map E m" using Cons.prems(2) leaf by (auto simp: map_le_def)
  moreover have "\<exists>n. v = se_node_bytes E n \<and> m (sn_node_id n) = Some n" if "(k, v) \<in> set cf" for k v
    using Cons.prems(3) that by (simp add: kv) blast
  ultimately obtain t' l' where r: "insert_leaves E cf ?t = (True, t')" "tree_inv sha l' t'" "?l \<subseteq>\<^sub>m l'"
      "l' \<subseteq>\<^sub>m leaf_map E m" "\<And>k n. (k, se_node_bytes E n) \<in> set cf \<Longrightarrow> l' (sint (sn_node_id n)) \<noteq> None"
    using Cons.IH [of ?l ?t] by blast
  have "l \<subseteq>\<^sub>m l'"
    using r(3,4) leaf Cons.prems(2) unfolding map_le_def by (metis domI domIff fun_upd_other fun_upd_same option.inject)
  moreover have "l' (sint (sn_node_id k)) \<noteq> None" if "se_node_bytes E k = v" for k
  proof -
    have "k = n" using that n(1) env_okD(1) [OF assms(1)] by (metis option.inject)
    moreover have "l' ?i = Some (merkle_leaf E n)" using r(3) by (auto simp: map_le_def)
    ultimately show ?thesis by simp
  qed
  ultimately show ?case
    using r by (auto simp: kv n(1) env_okD(1) [OF assms(1)])
next
  case Nil
  then show ?case by (intro exI [of _ t] exI [of _ l]) simp
qed

lemma rebuild_leaves:
  assumes "env_ok E" "node_inv E m s" "tree_inv (se_sha256 E) l t" "l \<subseteq>\<^sub>m leaf_map E m"
  obtains t' where "insert_leaves E (db_nodes (st_db s)) t = (True, t')"
    "tree_inv (se_sha256 E) (leaf_map E m) t'"
proof -
  have entries: "\<And>k v. (k, v) \<in> set (db_nodes (st_db s)) \<Longrightarrow>
      \<exists>n. v = se_node_bytes E n \<and> m (sn_node_id n) = Some n"
    by (erule node_rel_entries [OF assms(1,2)]) blast
  then obtain t' l' where r:
      "insert_leaves E (db_nodes (st_db s)) t = (True, t')" "tree_inv (se_sha256 E) l' t'"
      "l' \<subseteq>\<^sub>m leaf_map E m"
      "\<And>k n. (k, se_node_bytes E n) \<in> set (db_nodes (st_db s)) \<Longrightarrow> l' (sint (sn_node_id n)) \<noteq> None"
    using insert_leaves_inv [OF assms(1,3,4), of "db_nodes (st_db s)"] by blast
  have "dom (leaf_map E m) \<subseteq> dom l'"
  proof
    fix z assume "z \<in> dom (leaf_map E m)"
    then obtain n where z: "sint (word_of_int z :: i64) = z" "m (word_of_int z) = Some n"
      by (auto simp: leaf_map_def split: if_splits)
    have "l' (sint (sn_node_id n)) \<noteq> None"
      by (rule r(4) [OF entry_of_node [OF assms(2) z(2)]])
    with z node_relD(2) [OF assms(2) z(2)] show "z \<in> dom l'" by (simp add: domIff)
  qed
  then have "l' = leaf_map E m" using r(3) by (metis map_le_antisym map_le_def subsetD)
  with r(1,2) that show ?thesis by simp
qed

lemma rebuild_merkle_inv:
  assumes "env_ok E" "node_inv E m s"
  shows "node_inv E m (snd (rebuild_merkle E s))" "st_db (snd (rebuild_merkle E s)) = st_db s"
proof -
  obtain t' where t: "insert_leaves E (db_nodes (st_db s)) (st_merkle s) = (True, t')"
      "tree_inv (se_sha256 E) (leaf_map E m) t'"
    by (rule rebuild_leaves [OF assms node_relD(6) [OF assms(2)] map_le_refl])
  obtain r t2 where r: "tree_root (se_sha256 E) t' = (r, t2)" by (metis surj_pair)
  have "tree_inv (se_sha256 E) (leaf_map E m) t2" using tree_root_inv(2) [OF t(2)] r by simp
  then show "node_inv E m (snd (rebuild_merkle E s))"
    using assms(2) by (simp add: rebuild_merkle_def t(1) r node_rel_def)
  show "st_db (snd (rebuild_merkle E s)) = st_db s" by (simp add: rebuild_merkle_def t(1) r)
qed

lemma get_node_db [simp]: "st_db (snd (get_node E i s)) = st_db s"
  by (simp add: get_node_def Let_def split: prod.splits option.splits)

lemma known_vectors_db [simp]: "st_db (snd (known_vectors E k f rs acc s)) = st_db s"
proof (induction rs arbitrary: acc s)
  case (Cons r rs)
  obtain i d where r: "r = (i, d)" by (cases r)
  obtain a s1 where g: "get_node E i s = (a, s1)" by (metis surj_pair)
  then have "st_db s1 = st_db s" using get_node_db [of E i s] by simp
  then show ?case by (simp add: r g Let_def Cons.IH split: sum.split option.split)
qed simp

lemma known_vectors_inv:
  assumes "env_ok E" "node_inv E m s"
  shows "node_inv E m (snd (known_vectors E k f rs acc s))"
  using assms(2)
proof (induction rs arbitrary: acc s)
  case (Cons r rs)
  obtain i d where r: "r = (i, d)" by (cases r)
  obtain s1 where g: "get_node E i s = (Inr (m i), s1)" and I: "node_inv E m s1" and db: "st_db s1 = st_db s"
    using get_node_answer [OF assms(1) Cons.prems, of i] by (metis prod.collapse)
  have IH: "node_rel E m (db_nodes (st_db s)) (st_cache (snd (known_vectors E k f rs acc s1)))
      (st_merkle (snd (known_vectors E k f rs acc s1)))" for acc
    using Cons.IH [OF I, of acc] by (simp add: db)
  have I': "node_rel E m (db_nodes (st_db s)) (st_cache s1) (st_merkle s1)" using I by (simp add: db)
  show ?case by (simp add: r g Let_def IH I' db split: option.splits)
qed simp

section \<open>The edges\<close>

type_synonym 'f edge_map = "i64 \<times> i64 \<times> string \<rightharpoonup> 'f shard_edge"

definition edge_rel :: "('f, 'e, 'c, 'v) shard_env \<Rightarrow> 'f edge_map \<Rightarrow> column \<Rightarrow> bool" where
  "edge_rel E G cf \<longleftrightarrow> sorted_keys cf \<and>
     (\<forall>a b t. map_of cf (edge_key a b t) = map_option (se_edge_bytes E) (G (a, b, t))) \<and>
     (\<forall>a b t e. G (a, b, t) = Some e \<longrightarrow> ge_from e = a \<and> ge_to e = b \<and> ge_type e = t)"

text \<open>The adjacency lists \<open>A\<close> of a column, and what it means that they list the edges.\<close>

definition adj_rel :: "('f, 'e, 'c, 'v) shard_env \<Rightarrow> (i64 \<Rightarrow> 'f adjacency) \<Rightarrow> column \<Rightarrow> bool" where
  "adj_rel E A cf \<longleftrightarrow> sorted_keys cf \<and> (\<forall>i. get_adjacency_list E cf (be_bytes i) = Inr (A i))"

definition listed :: "i64 \<Rightarrow> string \<Rightarrow> 'f adjacency \<Rightarrow> bool" where
  "listed other ty adj \<longleftrightarrow> list_ex (\<lambda>(o1, t, _). o1 = other \<and> t = ty) adj"

definition link_entry :: "i64 \<Rightarrow> string \<Rightarrow> 'f \<Rightarrow> 'f adjacency \<Rightarrow> 'f adjacency" where
  "link_entry other ty w adj = (if listed other ty adj then adj else adj @ [(other, ty, w)])"

lemma listed_iff: "listed i t adj \<longleftrightarrow> (\<exists>w. (i, t, w) \<in> set adj)"
  by (auto simp: listed_def list_ex_iff)

lemma listed_link_entry [simp]: "listed i t (link_entry j u w adj) \<longleftrightarrow> (i = j \<and> t = u) \<or> listed i t adj"
  by (auto simp: link_entry_def listed_iff)

lemma adj_rel_link:
  assumes "env_ok E" "adj_rel E A cf"
  shows "adj_rel E (A(i := link_entry j t w (A i))) (link E (be_bytes i) j t w (A i) cf)"
  using assms(2) env_okD(3) [OF assms(1)]
  by (auto simp: adj_rel_def link_def link_entry_def listed_def bt_insert_sorted get_adjacency_list_def bt_insert_lookup)

lemma adj_rel_remove: "adj_rel E A cf \<Longrightarrow> adj_rel E (A(i := [])) (bt_remove (be_bytes i) cf)"
  by (auto simp: adj_rel_def bt_remove_sorted get_adjacency_list_def bt_remove_lookup)

lemma edge_rel_put:
  assumes "env_ok E" "edge_rel E G cf"
  shows "edge_rel E (G((ge_from e, ge_to e, ge_type e) \<mapsto> e)) (bt_insert (storage_key e) (se_edge_bytes E e) cf)"
  using assms(2) by (auto simp: edge_rel_def bt_insert_sorted bt_insert_lookup storage_key_def edge_key_inject)

lemma fold_bt_remove:
  "sorted_keys cf \<Longrightarrow> sorted_keys (fold bt_remove ks cf) \<and>
   (\<forall>k. map_of (fold bt_remove ks cf) k = (if k \<in> set ks then None else map_of cf k))"
  by (induction ks arbitrary: cf) (auto simp: bt_remove_sorted bt_remove_lookup)

lemma edge_rel_cascade:
  assumes "edge_rel E G cf"
  shows "edge_rel E (\<lambda>(a, b, t). if edge_key_matches i (edge_key a b t) then None else G (a, b, t))
    (fold bt_remove (filter (edge_key_matches i) (map fst cf)) cf)"
proof -
  have s: "sorted_keys cf" using assms by (simp add: edge_rel_def)
  have gone: "map_of (fold bt_remove (filter (edge_key_matches i) (map fst cf)) cf) k =
      (if edge_key_matches i k then None else map_of cf k)" for k
    using fold_bt_remove [OF s, of "filter (edge_key_matches i) (map fst cf)"]
    by (auto simp: map_of_eq_None_iff)
  show ?thesis using assms fold_bt_remove [OF s, THEN conjunct1] by (auto simp: edge_rel_def gone split: if_splits)
qed

definition edges_rel ::
  "('f, 'e, 'c, 'v) shard_env \<Rightarrow> 'f edge_map \<Rightarrow> (i64 \<Rightarrow> 'f adjacency) \<Rightarrow> (i64 \<Rightarrow> 'f adjacency) \<Rightarrow> shard_db \<Rightarrow> bool" where
  "edges_rel E G Out In db \<longleftrightarrow> edge_rel E G (db_edges db) \<and>
     adj_rel E Out (db_adj_out db) \<and> adj_rel E In (db_adj_in db)"

lemma put_edge_rel:
  assumes "env_ok E" "edges_rel E G Out In (st_db s)"
  shows "edges_rel E (G((ge_from e, ge_to e, ge_type e) \<mapsto> e))
      (Out(ge_from e := link_entry (ge_to e) (ge_type e) (ge_weight e) (Out (ge_from e))))
      (In(ge_to e := link_entry (ge_from e) (ge_type e) (ge_weight e) (In (ge_to e))))
      (st_db (snd (put_edge E e s)))"
    "fst (put_edge E e s) = Inr (G (ge_from e, ge_to e, ge_type e) = None)"
    "db_nodes (st_db (snd (put_edge E e s))) = db_nodes (st_db s)"
    "st_cache (snd (put_edge E e s)) = st_cache s" "st_merkle (snd (put_edge E e s)) = st_merkle s"
proof -
  have R: "edge_rel E G (db_edges (st_db s))" "adj_rel E Out (db_adj_out (st_db s))"
      "adj_rel E In (db_adj_in (st_db s))"
    using assms(2) unfolding edges_rel_def by blast+
  let ?f = "ge_from e" and ?t = "ge_to e" and ?y = "ge_type e" and ?w = "ge_weight e"
  have out: "get_adjacency_list E (db_adj_out (st_db s)) (be_bytes ?f) = Inr (Out ?f)"
    and inn: "get_adjacency_list E (db_adj_in (st_db s)) (be_bytes ?t) = Inr (In ?t)"
    using R(2,3) by (simp_all add: adj_rel_def)
  show "edges_rel E (G((?f, ?t, ?y) \<mapsto> e)) (Out(?f := link_entry ?t ?y ?w (Out ?f)))
      (In(?t := link_entry ?f ?y ?w (In ?t))) (st_db (snd (put_edge E e s)))"
    using edge_rel_put [OF assms(1) R(1)] adj_rel_link [OF assms(1) R(2)] adj_rel_link [OF assms(1) R(3)]
    by (simp add: put_edge_def Let_def out inn edges_rel_def)
  show "fst (put_edge E e s) = Inr (G (?f, ?t, ?y) = None)"
    using R(1) by (simp add: put_edge_def Let_def out inn edge_rel_def storage_key_def)
  show "db_nodes (st_db (snd (put_edge E e s))) = db_nodes (st_db s)"
    "st_cache (snd (put_edge E e s)) = st_cache s" "st_merkle (snd (put_edge E e s)) = st_merkle s"
    by (simp_all add: put_edge_def Let_def out inn)
qed

lemma cascade_rel:
  assumes "edges_rel E G Out In (st_db s)" "fst (fst (delete_node E i True s))"
  shows "edges_rel E (\<lambda>(a, b, t). if edge_key_matches i (edge_key a b t) then None else G (a, b, t))
    (Out(i := [])) (In(i := [])) (st_db (snd (delete_node E i True s)))"
  using assms edge_rel_cascade [of E G "db_edges (st_db s)" i]
    adj_rel_remove [of E Out "db_adj_out (st_db s)" i] adj_rel_remove [of E In "db_adj_in (st_db s)" i]
  unfolding edges_rel_def by (auto simp: delete_node_def Let_def split: if_splits)

lemma delete_keeps_edges:
  "\<not> casc \<or> \<not> fst (fst (delete_node E i casc s)) \<Longrightarrow>
   db_edges (st_db (snd (delete_node E i casc s))) = db_edges (st_db s) \<and>
   db_adj_out (st_db (snd (delete_node E i casc s))) = db_adj_out (st_db s) \<and>
   db_adj_in (st_db (snd (delete_node E i casc s))) = db_adj_in (st_db s)"
  by (auto simp: delete_node_def Let_def)

lemma edges_rel_cong:
  "edges_rel E G Out In db \<Longrightarrow> db_edges db' = db_edges db \<Longrightarrow> db_adj_out db' = db_adj_out db \<Longrightarrow>
   db_adj_in db' = db_adj_in db \<Longrightarrow> edges_rel E G Out In db'"
  by (simp add: edges_rel_def)

text \<open>What the edges of a node are: an entry for which no edge is stored is made up.\<close>

definition listed_edge ::
  "'f f64_ops \<Rightarrow> 'f edge_map \<Rightarrow> (i64 \<Rightarrow> i64 \<times> i64) \<Rightarrow> i64 \<times> string \<times> 'f \<Rightarrow> 'f shard_edge" where
  "listed_edge F G ends = (\<lambda>(other, ty, w). let (a, b) = ends other in case G (a, b, ty) of
     Some e \<Rightarrow> e
   | None \<Rightarrow> \<lparr>ge_from = a, ge_to = b, ge_type = ty, ge_weight = w, ge_timestamp = fl_zero F\<rparr>)"

lemma listed_edge_known: "listed_edge F G ends x \<in> ran G \<union> {e. ge_timestamp e = fl_zero F}"
proof -
  obtain j t w where x: "x = (j, t, w)" by (cases x)
  obtain a b where ab: "ends j = (a, b)" by (cases "ends j")
  show ?thesis by (cases "G (a, b, t)") (auto simp: x ab listed_edge_def intro: ranI)
qed

lemma listed_edges_answer:
  assumes "env_ok E" "edge_rel E G cf"
  shows "listed_edges E cf ends flt adj =
    Inr (map (listed_edge (se_f64 E) G ends) (filter (\<lambda>(_, ty, _). flt = None \<or> flt = Some ty) adj))"
proof (induction adj)
  case (Cons x adj)
  obtain j t w where x: "x = (j, t, w)" by (cases x)
  obtain a b where ends: "ends j = (a, b)" by (cases "ends j")
  have "map_of cf (edge_key a b t) = map_option (se_edge_bytes E) (G (a, b, t))"
    using assms(2) by (simp add: edge_rel_def)
  with Cons.IH show ?case
    by (cases "G (a, b, t)") (auto simp: x ends listed_edge_def env_okD(2) [OF assms(1)])
qed simp

lemma get_edges_answer:
  assumes "env_ok E" "edges_rel E G Out In (st_db s)"
  shows "get_edges E i dir flt s = Inr (
    (if dir = Incoming then [] else map (listed_edge (se_f64 E) G (\<lambda>to. (i, to)))
       (filter (\<lambda>(_, ty, _). flt = None \<or> flt = Some ty) (Out i))) @
    (if dir = Outgoing then [] else map (listed_edge (se_f64 E) G (\<lambda>from. (from, i)))
       (filter (\<lambda>(_, ty, _). flt = None \<or> flt = Some ty) (In i))))"
proof -
  have R: "edge_rel E G (db_edges (st_db s))" "adj_rel E Out (db_adj_out (st_db s))"
      "adj_rel E In (db_adj_in (st_db s))"
    using assms(2) unfolding edges_rel_def by blast+
  have "get_adjacency_list E (db_adj_out (st_db s)) (be_bytes i) = Inr (Out i)"
    "get_adjacency_list E (db_adj_in (st_db s)) (be_bytes i) = Inr (In i)"
    using R(2,3) by (simp_all add: adj_rel_def)
  then show ?thesis by (cases dir) (simp_all add: get_edges_def Let_def listed_edges_answer [OF assms(1) R(1)])
qed

section \<open>Runs\<close>

record ('f, 'e) shard_graph =
  sg_nodes :: "i64 \<rightharpoonup> ('f, 'e) shard_node"
  sg_edges :: "'f edge_map"
  sg_out :: "i64 \<Rightarrow> 'f adjacency"
  sg_in :: "i64 \<Rightarrow> 'f adjacency"

datatype ('f, 'e, 'v) store_call =
    Put_node "('f, 'e) shard_node" | Get_node i64 | Get_nodes "i64 list" | Delete_node i64 bool
  | Update_confidence i64 'f i64 | Put_edge "'f shard_edge" | Compact u64 u64 'f i64
  | Vector_search "'v \<Rightarrow> nat \<Rightarrow> (i64 \<times> 'e) list" nat 'f | Merkle_root | Rebuild_merkle

fun store_exec ::
  "('f, 'e, 'c, 'v) shard_env \<Rightarrow> ('f, 'e, 'v) store_call \<Rightarrow> ('f, 'c, 'v) shard_store \<Rightarrow> ('f, 'c, 'v) shard_store" where
  "store_exec E (Put_node n) s = put_node E n s"
| "store_exec E (Get_node i) s = snd (get_node E i s)"
| "store_exec E (Get_nodes is) s = snd (get_nodes E is s)"
| "store_exec E (Delete_node i casc) s = snd (delete_node E i casc s)"
| "store_exec E (Update_confidence i f b) s = snd (update_confidence E i f b s)"
| "store_exec E (Put_edge e) s = snd (put_edge E e s)"
| "store_exec E (Compact b a f block) s = snd (compact E b a f block s)"
| "store_exec E (Vector_search nearest k f) s = snd (vector_search E nearest k f s)"
| "store_exec E Merkle_root s = snd (merkle_root E s)"
| "store_exec E Rebuild_merkle s = snd (rebuild_merkle E s)"

text \<open>What the calls mean for the graph.\<close>

fun graph_effect ::
  "('f, 'e, 'c, 'v) shard_env \<Rightarrow> ('f, 'e, 'v) store_call \<Rightarrow> ('f, 'e) shard_graph \<Rightarrow> ('f, 'e) shard_graph" where
  "graph_effect E (Put_node n) g = g\<lparr>sg_nodes := (sg_nodes g)(sn_node_id n \<mapsto> n)\<rparr>"
| "graph_effect E (Delete_node i casc) g =
     (if sg_nodes g i = None then g
      else if casc then g\<lparr>sg_nodes := (sg_nodes g)(i := None),
        sg_edges := (\<lambda>(a, b, t). if edge_key_matches i (edge_key a b t) then None else sg_edges g (a, b, t)),
        sg_out := (sg_out g)(i := []), sg_in := (sg_in g)(i := [])\<rparr>
      else g\<lparr>sg_nodes := (sg_nodes g)(i := None)\<rparr>)"
| "graph_effect E (Update_confidence i f b) g =
     g\<lparr>sg_nodes := (sg_nodes g)(i := map_option (touched_node E f b) (sg_nodes g i))\<rparr>"
| "graph_effect E (Put_edge e) g = g\<lparr>sg_edges := (sg_edges g)((ge_from e, ge_to e, ge_type e) \<mapsto> e),
     sg_out := (sg_out g)(ge_from e := link_entry (ge_to e) (ge_type e) (ge_weight e) (sg_out g (ge_from e))),
     sg_in := (sg_in g)(ge_to e := link_entry (ge_from e) (ge_type e) (ge_weight e) (sg_in g (ge_to e)))\<rparr>"
| "graph_effect E (Compact b a f block) g =
     g\<lparr>sg_nodes := (\<lambda>i. case sg_nodes g i of None \<Rightarrow> None
       | Some n \<Rightarrow> if is_worthless E f block n then None else Some n)\<rparr>"
| "graph_effect E _ g = g"

definition empty_graph :: "('f, 'e) shard_graph" where
  "empty_graph = \<lparr>sg_nodes = Map.empty, sg_edges = Map.empty, sg_out = (\<lambda>_. []), sg_in = (\<lambda>_. [])\<rparr>"

definition empty_db :: shard_db where
  "empty_db = \<lparr>db_nodes = [], db_edges = [], db_adj_out = [], db_adj_in = []\<rparr>"

definition store_rel ::
  "('f, 'e, 'c, 'v) shard_env \<Rightarrow> ('f, 'e) shard_graph \<Rightarrow> ('f, 'c, 'v) shard_store \<Rightarrow> bool" where
  "store_rel E g s \<longleftrightarrow> node_inv E (sg_nodes g) s \<and> edges_rel E (sg_edges g) (sg_out g) (sg_in g) (st_db s)"

lemma store_exec_rel:
  assumes "env_ok E" "store_rel E g s"
  shows "store_rel E (graph_effect E call g) (store_exec E call s)"
proof -
  have N: "node_inv E (sg_nodes g) s" and R: "edges_rel E (sg_edges g) (sg_out g) (sg_in g) (st_db s)"
    using assms(2) by (auto simp: store_rel_def)
  show ?thesis
  proof (cases call)
    case (Delete_node i casc)
    show ?thesis
      using delete_node_inv [OF assms(1) N, of i casc] cascade_rel [OF R, of i]
        edges_rel_cong [OF R] delete_keeps_edges [of casc E i s] N
      by (cases casc) (auto simp: store_rel_def Delete_node fun_upd_idem)
  next
    case (Put_edge e)
    show ?thesis using put_edge_rel [OF assms(1) R, of e] N by (simp add: store_rel_def Put_edge)
  next
    case (Compact b a f block)
    show ?thesis using compact_inv [OF assms(1) N, where bound = f and block = block and b = b and a = a] edges_rel_cong [OF R]
      by (simp add: store_rel_def Compact)
  next
    case (Update_confidence i f b)
    show ?thesis using update_confidence_inv [OF assms(1) N, where i = i and f = f and b = b] edges_rel_cong [OF R]
      by (simp add: store_rel_def Update_confidence)
  qed (use N R put_node_inv [OF assms(1) N] get_node_answer(2) [OF assms(1) N] get_nodes_answer(2,3) [OF assms(1) N]
      known_vectors_inv [OF assms(1) N] merkle_root_inv(1,3) [OF N] rebuild_merkle_inv [OF assms(1) N]
    in \<open>simp_all add: store_rel_def put_node_def Let_def vector_search_def edges_rel_def\<close>)
qed

lemma fresh_rel:
  assumes "env_ok E"
  shows "store_rel E empty_graph (store_open E config empty_db)"
  using tree_new_inv [of "se_sha256 E"]
  by (auto simp: store_rel_def empty_graph_def store_open_def recount_def empty_db_def Let_def node_rel_def
      edges_rel_def edge_rel_def adj_rel_def get_adjacency_list_def sorted_keys_def env_okD(4) [OF assms])

lemma store_run_rel:
  assumes "env_ok E"
  shows "store_rel E (fold (graph_effect E) calls empty_graph) (fold (store_exec E) calls (store_open E config empty_db))"
proof -
  have "store_rel E g s \<Longrightarrow> store_rel E (fold (graph_effect E) calls g) (fold (store_exec E) calls s)" for g s
    by (induction calls arbitrary: g s) (simp_all add: store_exec_rel [OF assms])
  then show ?thesis by (simp add: fresh_rel [OF assms])
qed

end
