(* ===== verification/ShardSearch.thy ===== *)
theory ShardSearch
  imports ShardGraph
begin

text \<open>
  The keyword search. The scan of a shard drops hits while it collects, and the router merges what
  its shards answer; where the scores are comparable this is the search of the reference: all hits,
  sorted, cut off.
\<close>

section \<open>The hits of a column\<close>

definition hit_score :: "('f, 'e, 'c, 'v) shard_env \<Rightarrow> string list \<Rightarrow> ('f, 'e) shard_node \<Rightarrow> 'f" where
  "hit_score E terms n = fl_mul (se_f64 E) (term_score E terms n) (sn_confidence n)"

definition node_hits ::
  "('f, 'e, 'c, 'v) shard_env \<Rightarrow> string list \<Rightarrow> 'f \<Rightarrow> string option \<Rightarrow> ('f, 'e) shard_node list \<Rightarrow> ('f, 'e) hit list" where
  "node_hits E terms min_confidence flt ns = map (\<lambda>n. (n, hit_score E terms n))
     (filter (\<lambda>n. passes (se_f64 E) min_confidence flt n \<and> fl_lt (se_f64 E) (fl_zero (se_f64 E)) (term_score E terms n)) ns)"

text \<open>The comparison of the scores is a strict weak order.\<close>

definition scores_ordered :: "'f f64_ops \<Rightarrow> bool" where
  "scores_ordered F \<longleftrightarrow> (\<forall>x y. fl_lt F x y \<longrightarrow> \<not> fl_lt F y x) \<and>
     (\<forall>x y z. \<not> fl_lt F x y \<longrightarrow> \<not> fl_lt F y z \<longrightarrow> \<not> fl_lt F x z)"

lemma scores_preorder: "scores_ordered F \<Longrightarrow> preorder_sort (score_less F) UNIV"
  unfolding scores_ordered_def score_less_def by (intro preorder_sort.intro) blast+

interpretation exact_scores: preorder_sort "score_less exact_ops" UNIV
  by (rule scores_preorder) (auto simp: scores_ordered_def)

lemma search_scan_hits:
  assumes "env_ok E" "scores_ordered (se_f64 E)"
    and "snd ` set cf \<subseteq> range (se_node_bytes E)"
  shows "\<exists>hs. search_scan E terms k conf flt cf scored = Inr hs \<and>
    take k (sort_by (score_less (se_f64 E)) hs) = take k (sort_by (score_less (se_f64 E))
      (scored @ node_hits E terms conf flt (map (the o se_node_parse E o snd) cf)))"
  using assms(3)
proof (induction cf arbitrary: scored)
  case (Cons kv cf)
  obtain j v where kv: "kv = (j, v)" by (cases kv)
  then obtain n where n: "v = se_node_bytes E n" using Cons.prems by auto
  let ?F = "se_f64 E" and ?hits = "node_hits E terms conf flt (map (the o se_node_parse E o snd) cf)"
  let ?sort = "sort_by (score_less ?F)"
  have "snd ` set cf \<subseteq> range (se_node_bytes E)" using Cons.prems by simp
  note IH = Cons.IH [OF this]
  show ?case
  proof (cases "passes ?F conf flt n")
    case False
    with IH [of scored] show ?thesis by (simp add: kv n env_okD(1) [OF assms(1)] node_hits_def)
  next
    case True
    let ?new = "if fl_lt ?F (fl_zero ?F) (term_score E terms n) then [(n, hit_score E terms n)] else []"
    let ?kept = "if k * 10 < length (scored @ ?new) then take (k * 2) (?sort (scored @ ?new)) else scored @ ?new"
    have step: "search_scan E terms k conf flt (kv # cf) scored = search_scan E terms k conf flt cf ?kept"
      using True by (simp add: kv n env_okD(1) [OF assms(1)] Let_def hit_score_def)
    have "take k (?sort (take (k * 2) (?sort (scored @ ?new)) @ ?hits)) = take k (?sort ((scored @ ?new) @ ?hits))"
      by (rule preorder_sort.top_left [OF scores_preorder [OF assms(2)]]) simp_all
    then have "take k (?sort (?kept @ ?hits)) = take k (?sort ((scored @ ?new) @ ?hits))" by simp
    moreover have "(scored @ ?new) @ ?hits = scored @ node_hits E terms conf flt (map (the o se_node_parse E o snd) (kv # cf))"
      using True by (simp add: kv n env_okD(1) [OF assms(1)] node_hits_def)
    moreover obtain hs where "search_scan E terms k conf flt cf ?kept = Inr hs"
        "take k (?sort hs) = take k (?sort (?kept @ ?hits))"
      using IH [of ?kept] by blast
    ultimately show ?thesis unfolding step append_assoc by (intro exI [of _ hs]) (simp only: simp_thms)
  qed
qed (simp add: node_hits_def)

text \<open>The nodes of a column in the order of the keys, and the search as it would be specified.\<close>

definition column_nodes :: "('f, 'e, 'c, 'v) shard_env \<Rightarrow> column \<Rightarrow> ('f, 'e) shard_node list" where
  "column_nodes E cf = map (the o se_node_parse E o snd) cf"

definition all_hits ::
  "('f, 'e, 'c, 'v) shard_env \<Rightarrow> string \<Rightarrow> 'f \<Rightarrow> string option \<Rightarrow> ('f, 'c, 'v) shard_store \<Rightarrow> ('f, 'e) hit list" where
  "all_hits E query conf flt s = (let terms = search_terms E query in
     if terms = [] then [] else node_hits E terms conf flt (column_nodes E (db_nodes (st_db s))))"

lemma column_nodes_ran:
  assumes "env_ok E" "node_rel E m cf c t"
  shows "set (column_nodes E cf) = ran m" and "snd ` set cf \<subseteq> range (se_node_bytes E)"
proof -
  have entry: "\<exists>n. v = se_node_bytes E n \<and> m (sn_node_id n) = Some n" if "(k, v) \<in> set cf" for k v
    by (rule node_rel_entries [OF assms that]) blast
  then show "snd ` set cf \<subseteq> range (se_node_bytes E)" by force
  have "n \<in> ran m" if "n \<in> set (column_nodes E cf)" for n
  proof -
    note found = that
    obtain k v where kv: "(k, v) \<in> set cf" "n = the (se_node_parse E v)"
      using found by (auto simp: column_nodes_def)
    with entry [OF kv(1)] show ?thesis by (auto simp: env_okD(1) [OF assms(1)] ranI)
  qed
  moreover have "n \<in> set (column_nodes E cf)" if "n \<in> ran m" for n
  proof -
    note found = that
    obtain i where "m i = Some n" using found by (auto simp: ran_def)
    from entry_of_node [OF assms(2) this] show ?thesis
      by (force simp: column_nodes_def env_okD(1) [OF assms(1)])
  qed
  ultimately show "set (column_nodes E cf) = ran m" by blast
qed

lemma search_answer:
  assumes "env_ok E" "scores_ordered (se_f64 E)" "node_inv E m s"
  shows "search E query k conf flt s = Inr (take k (sort_by (score_less (se_f64 E)) (all_hits E query conf flt s)))"
  using search_scan_hits [OF assms(1,2) column_nodes_ran(2) [OF assms(1,3)],
      of "search_terms E query" k conf flt "[]"]
  by (auto simp: search_def all_hits_def column_nodes_def Let_def)

end
