(* ===== verification/ShardRouter.thy ===== *)
theory ShardRouter
  imports ShardSearch "HOL-Library.AList" "HOL-Library.Char_ord"
begin

text \<open>
  The router of the graph service, \<open>aether-graph-shard/src/router.rs\<close>: one store for each domain and
  sub-shard, every operation sent to the store of its domain and identifier, searches gathered from
  the stores, one Merkle tree over the roots of the shards. The map of the shards (crate dashmap) is
  a list in its order of iteration; what the disk holds under a directory and the sizes that the
  database reports are arguments.
\<close>

section \<open>The router\<close>

definition MAX_SUB_SHARDS :: u32 where
  "MAX_SUB_SHARDS = 256"

record ('f, 'c, 'v) shard_router =
  sr_shards :: "(u32 \<times> ('f, 'c, 'v) shard_store) list"
  sr_global_merkle :: global_tree
  sr_sub_shards :: u32
  sr_data_dir :: string
  sr_cache_per_shard :: nat

definition router_new :: "string \<Rightarrow> nat \<Rightarrow> u32 \<Rightarrow> ('f, 'c, 'v) shard_router" where
  "router_new data_dir cache_per_shard sub_shards_per_domain =
     \<lparr>sr_shards = [], sr_global_merkle = global_new,
      sr_sub_shards = (if sub_shards_per_domain < 1 then 1
        else if MAX_SUB_SHARDS < sub_shards_per_domain then MAX_SUB_SHARDS
        else sub_shards_per_domain),
      sr_data_dir = data_dir, sr_cache_per_shard = cache_per_shard\<rparr>"

definition compute_shard_id :: "graph_domain \<Rightarrow> u32 \<Rightarrow> u32" where
  "compute_shard_id domain sub_shard = shard_base_id domain * MAX_SUB_SHARDS + sub_shard"

definition shard_config_of ::
  "('f, 'e, 'c, 'v) shard_env \<Rightarrow> ('f, 'c, 'v) shard_router \<Rightarrow> graph_domain \<Rightarrow> u32 \<Rightarrow> 'f shard_config" where
  "shard_config_of E r domain sub =
     (let shard_id = compute_shard_id domain sub
      in \<lparr>cfg_shard_id = shard_id, cfg_domain = domain, cfg_sub_shard = sub,
          cfg_data_dir = sr_data_dir r @ ''/shard_'' @ domain_as_str domain @ ''_'' @ decimal (unat shard_id) @
            ''_'' @ decimal (unat sub),
          cfg_cache_capacity = sr_cache_per_shard r, cfg_compaction_threshold = fl_lit (se_f64 E) 1 1\<rparr>)"

definition sub_ids :: "('f, 'c, 'v) shard_router \<Rightarrow> u32 list" where
  "sub_ids r = map of_nat [0..<unat (sr_sub_shards r)]"

definition init_shards ::
  "('f, 'e, 'c, 'v) shard_env \<Rightarrow> (string \<Rightarrow> shard_db) \<Rightarrow> ('f, 'c, 'v) shard_router \<Rightarrow> ('f, 'c, 'v) shard_router" where
  "init_shards E disk r =
     fold (\<lambda>domain r. fold (\<lambda>sub r.
        let config = shard_config_of E r domain sub
        in r\<lparr>sr_shards := AList.update (compute_shard_id domain sub)
               (store_open E config (disk (cfg_data_dir config))) (sr_shards r)\<rparr>) (sub_ids r) r)
       all_domains r"

definition unsigned_abs :: "i64 \<Rightarrow> u64" where
  "unsigned_abs w = (if sint w < 0 then - w else w)"

definition shard_route :: "('f, 'e, 'c, 'v) shard_env \<Rightarrow> ('f, 'c, 'v) shard_router \<Rightarrow> string \<Rightarrow> i64 \<Rightarrow> u32" where
  "shard_route E r domain node_id =
     (let d = domain_from_str (se_lower E) domain;
          sub = (if 1 < sr_sub_shards r then ucast (unsigned_abs node_id mod (ucast (sr_sub_shards r))) else 0)
      in compute_shard_id d sub)"

definition get_shard :: "u32 \<Rightarrow> ('f, 'c, 'v) shard_router \<Rightarrow> ('f, 'c, 'v) shard_store option" where
  "get_shard sid r = map_of (sr_shards r) sid"

definition set_shard ::
  "u32 \<Rightarrow> ('f, 'c, 'v) shard_store \<Rightarrow> ('f, 'c, 'v) shard_router \<Rightarrow> ('f, 'c, 'v) shard_router" where
  "set_shard sid s r = r\<lparr>sr_shards := AList.update sid s (sr_shards r)\<rparr>"

definition shard_for_node ::
  "('f, 'e, 'c, 'v) shard_env \<Rightarrow> string \<Rightarrow> i64 \<Rightarrow> ('f, 'c, 'v) shard_router \<Rightarrow> ('f, 'c, 'v) shard_store option" where
  "shard_for_node E domain node_id r = get_shard (shard_route E r domain node_id) r"

section \<open>Nodes and edges\<close>

text \<open>The first shard, in the order of iteration, that answers; the caches change on the way.\<close>

fun find_in ::
  "('f, 'e, 'c, 'v) shard_env \<Rightarrow> i64 \<Rightarrow> (u32 \<times> ('f, 'c, 'v) shard_store) list \<Rightarrow>
   (store_error + (('f, 'e) shard_node \<times> u32) option) \<times> (u32 \<times> ('f, 'c, 'v) shard_store) list" where
  "find_in E node_id [] = (Inr None, [])"
| "find_in E node_id ((sid, s) # shards) =
     (case get_node E node_id s of
        (Inl e, s1) \<Rightarrow> (Inl e, (sid, s1) # shards)
      | (Inr (Some n), s1) \<Rightarrow> (Inr (Some (n, shard_id s1)), (sid, s1) # shards)
      | (Inr None, s1) \<Rightarrow> (let (a, shards') = find_in E node_id shards in (a, (sid, s1) # shards')))"

definition find_node ::
  "('f, 'e, 'c, 'v) shard_env \<Rightarrow> i64 \<Rightarrow> ('f, 'c, 'v) shard_router \<Rightarrow>
   (store_error + (('f, 'e) shard_node \<times> u32) option) \<times> ('f, 'c, 'v) shard_router" where
  "find_node E node_id r = (let (a, shards) = find_in E node_id (sr_shards r) in (a, r\<lparr>sr_shards := shards\<rparr>))"

definition router_put_node ::
  "('f, 'e, 'c, 'v) shard_env \<Rightarrow> ('f, 'e) shard_node \<Rightarrow> ('f, 'c, 'v) shard_router \<Rightarrow>
   (store_error + u32) \<times> ('f, 'c, 'v) shard_router" where
  "router_put_node E n r =
     (let sid = shard_route E r (sn_domain n) (sn_node_id n)
      in case get_shard sid r of
           None \<Rightarrow> (Inl ShardNotFound, r)
         | Some s \<Rightarrow> (Inr sid, set_shard sid (put_node E n s) r))"

definition router_get_node ::
  "('f, 'e, 'c, 'v) shard_env \<Rightarrow> string \<Rightarrow> i64 \<Rightarrow> ('f, 'c, 'v) shard_router \<Rightarrow>
   (store_error + ('f, 'e) shard_node option) \<times> ('f, 'c, 'v) shard_router" where
  "router_get_node E domain node_id r =
     (let sid = shard_route E r domain node_id
      in case get_shard sid r of
           None \<Rightarrow> (Inr None, r)
         | Some s \<Rightarrow> (let (a, s1) = get_node E node_id s in (a, set_shard sid s1 r)))"

definition get_node_any ::
  "('f, 'e, 'c, 'v) shard_env \<Rightarrow> i64 \<Rightarrow> ('f, 'c, 'v) shard_router \<Rightarrow>
   (store_error + ('f, 'e) shard_node option) \<times> ('f, 'c, 'v) shard_router" where
  "get_node_any E node_id r = (let (a, r') = find_node E node_id r in (map_sum id (map_option fst) a, r'))"

definition router_delete_node ::
  "('f, 'e, 'c, 'v) shard_env \<Rightarrow> string \<Rightarrow> i64 \<Rightarrow> bool \<Rightarrow> ('f, 'c, 'v) shard_router \<Rightarrow>
   (bool \<times> i32) \<times> ('f, 'c, 'v) shard_router" where
  "router_delete_node E domain node_id cascade r =
     (let sid = shard_route E r domain node_id
      in case get_shard sid r of
           None \<Rightarrow> ((False, 0), r)
         | Some s \<Rightarrow> (let (a, s1) = delete_node E node_id cascade s in (a, set_shard sid s1 r)))"

definition router_put_edge ::
  "('f, 'e, 'c, 'v) shard_env \<Rightarrow> 'f shard_edge \<Rightarrow> string \<Rightarrow> ('f, 'c, 'v) shard_router \<Rightarrow>
   (store_error + bool) \<times> ('f, 'c, 'v) shard_router" where
  "router_put_edge E e source_domain r =
     (let sid = shard_route E r source_domain (ge_from e)
      in case get_shard sid r of
           None \<Rightarrow> (Inl ShardNotFound, r)
         | Some s \<Rightarrow> (let (a, s1) = put_edge E e s in (a, set_shard sid s1 r)))"

section \<open>Searches\<close>

fun gather :: "('err + 'a list) list \<Rightarrow> 'err + 'a list" where
  "gather [] = Inr []"
| "gather (Inl e # rs) = Inl e"
| "gather (Inr xs # rs) = (case gather rs of Inl e \<Rightarrow> Inl e | Inr ys \<Rightarrow> Inr (xs @ ys))"

definition best_hits ::
  "('f, 'e, 'c, 'v) shard_env \<Rightarrow> nat \<Rightarrow> store_error + ('f, 'e) hit list \<Rightarrow> store_error + ('f, 'e) hit list" where
  "best_hits E top_k all_results = map_sum id (take top_k o sort_by (score_less (se_f64 E))) all_results"

definition domain_shards ::
  "('f, 'e, 'c, 'v) shard_env \<Rightarrow> string \<Rightarrow> ('f, 'c, 'v) shard_router \<Rightarrow> ('f, 'c, 'v) shard_store list" where
  "domain_shards E domain r = List.map_filter
     (\<lambda>sub. get_shard (compute_shard_id (domain_from_str (se_lower E) domain) sub) r) (sub_ids r)"

definition search_domain ::
  "('f, 'e, 'c, 'v) shard_env \<Rightarrow> string \<Rightarrow> string \<Rightarrow> nat \<Rightarrow> 'f \<Rightarrow> ('f, 'c, 'v) shard_router \<Rightarrow>
   store_error + ('f, 'e) hit list" where
  "search_domain E domain query top_k min_confidence r =
     best_hits E top_k (gather (map (search E query top_k min_confidence None) (domain_shards E domain r)))"

fun search_cross_domain ::
  "('f, 'e, 'c, 'v) shard_env \<Rightarrow> string list \<Rightarrow> string \<Rightarrow> nat \<Rightarrow> 'f \<Rightarrow> ('f, 'c, 'v) shard_router \<Rightarrow>
   (string \<times> ('f, 'e) hit list) list \<Rightarrow> store_error + (string \<times> ('f, 'e) hit list) list" where
  "search_cross_domain E [] query top_k min_confidence r results = Inr results"
| "search_cross_domain E (domain # domains) query top_k min_confidence r results =
     (case search_domain E domain query top_k min_confidence r of
        Inl e \<Rightarrow> Inl e
      | Inr hits \<Rightarrow> search_cross_domain E domains query top_k min_confidence r (bt_insert domain hits results))"

definition search_all ::
  "('f, 'e, 'c, 'v) shard_env \<Rightarrow> string \<Rightarrow> nat \<Rightarrow> 'f \<Rightarrow> ('f, 'c, 'v) shard_router \<Rightarrow>
   store_error + ('f, 'e) hit list" where
  "search_all E query top_k min_confidence r =
     best_hits E top_k (gather (map (search E query top_k min_confidence None o snd) (sr_shards r)))"

text \<open>The nearest vectors, from the shards in turn, whose caches change.\<close>

fun nearest_in ::
  "('f, 'e, 'c, 'v) shard_env \<Rightarrow> ('v \<Rightarrow> nat \<Rightarrow> (i64 \<times> 'e) list) \<Rightarrow> nat \<Rightarrow> 'f \<Rightarrow> u32 list \<Rightarrow>
   ('f, 'c, 'v) shard_router \<Rightarrow> (store_error + (('f, 'e) shard_node \<times> 'e) list) \<times> ('f, 'c, 'v) shard_router" where
  "nearest_in E nearest top_k min_confidence [] r = (Inr [], r)"
| "nearest_in E nearest top_k min_confidence (sid # sids) r =
     (case get_shard sid r of
        None \<Rightarrow> nearest_in E nearest top_k min_confidence sids r
      | Some s \<Rightarrow>
        (case vector_search E nearest top_k min_confidence s of
           (Inl e, s1) \<Rightarrow> (Inl e, set_shard sid s1 r)
         | (Inr results, s1) \<Rightarrow>
           (let (a, r') = nearest_in E nearest top_k min_confidence sids (set_shard sid s1 r)
            in (map_sum id (\<lambda>rest. results @ rest) a, r'))))"

definition router_vector_search ::
  "('f, 'e, 'c, 'v) shard_env \<Rightarrow> ('e \<Rightarrow> 'e \<Rightarrow> bool) \<Rightarrow> ('v \<Rightarrow> nat \<Rightarrow> (i64 \<times> 'e) list) \<Rightarrow> nat \<Rightarrow> string \<Rightarrow> 'f \<Rightarrow>
   ('f, 'c, 'v) shard_router \<Rightarrow> (store_error + (('f, 'e) shard_node \<times> 'e) list) \<times> ('f, 'c, 'v) shard_router" where
  "router_vector_search E below nearest top_k domain_filter min_confidence r =
     (let sids = (if domain_filter = [] then map fst (sr_shards r)
            else map (compute_shard_id (domain_from_str (se_lower E) domain_filter)) (sub_ids r));
          (a, r') = nearest_in E nearest top_k min_confidence sids r
      in (map_sum id (take top_k o sort_by (\<lambda>x y. below (snd y) (snd x))) a, r'))"

section \<open>Merkle roots\<close>

text \<open>A root travels as hexadecimal text; it decodes to the same 32 bytes, so it is passed as a hash.\<close>

fun collect_roots ::
  "('f, 'e, 'c, 'v) shard_env \<Rightarrow> (u32 \<times> ('f, 'c, 'v) shard_store) list \<Rightarrow> global_tree \<Rightarrow>
   (u32 \<times> ('f, 'c, 'v) shard_store) list \<times> global_tree" where
  "collect_roots E [] g = ([], g)"
| "collect_roots E ((sid, s) # shards) g =
     (let (root, s1) = merkle_root E s;
          (shards', g') = collect_roots E shards (update_shard (shard_id s1) root g)
      in ((sid, s1) # shards', g'))"

definition global_merkle_root ::
  "('f, 'e, 'c, 'v) shard_env \<Rightarrow> ('f, 'c, 'v) shard_router \<Rightarrow> h256 \<times> ('f, 'c, 'v) shard_router" where
  "global_merkle_root E r =
     (let (shards, g) = collect_roots E (sr_shards r) (sr_global_merkle r);
          (root, g') = global_root (se_sha256 E) g
      in (root, r\<lparr>sr_shards := shards, sr_global_merkle := g'\<rparr>))"

fun roots_of ::
  "('f, 'e, 'c, 'v) shard_env \<Rightarrow> (u32 \<times> ('f, 'c, 'v) shard_store) list \<Rightarrow> (u32 \<times> h256) list \<Rightarrow>
   (u32 \<times> h256) list \<times> (u32 \<times> ('f, 'c, 'v) shard_store) list" where
  "roots_of E [] roots = (roots, [])"
| "roots_of E ((sid, s) # shards) roots =
     (let (root, s1) = merkle_root E s;
          (roots', shards') = roots_of E shards (bt_insert (shard_id s1) root roots)
      in (roots', (sid, s1) # shards'))"

definition shard_merkle_roots ::
  "('f, 'e, 'c, 'v) shard_env \<Rightarrow> ('f, 'c, 'v) shard_router \<Rightarrow> (u32 \<times> h256) list \<times> ('f, 'c, 'v) shard_router" where
  "shard_merkle_roots E r = (let (roots, shards) = roots_of E (sr_shards r) [] in (roots, r\<lparr>sr_shards := shards\<rparr>))"

section \<open>Statistics and management\<close>

record 'f global_stats =
  gs_total_nodes :: i64
  gs_total_edges :: i64
  gs_nodes_per_domain :: "(string \<times> i64) list"
  gs_nodes_per_type :: "(string \<times> i64) list"
  gs_edges_per_type :: "(string \<times> i64) list"
  gs_avg_confidence :: 'f
  gs_active_shards :: u32
  gs_total_cache_hits :: u64
  gs_total_cache_misses :: u64
  gs_global_merkle_root :: string

definition add_stats :: "'f shard_stats \<Rightarrow> 'f global_stats \<Rightarrow> 'f global_stats" where
  "add_stats s g = g\<lparr>gs_total_nodes := gs_total_nodes g + ss_node_count s,
     gs_total_edges := gs_total_edges g + ss_edge_count s,
     gs_total_cache_hits := gs_total_cache_hits g + ss_cache_hits s,
     gs_total_cache_misses := gs_total_cache_misses g + ss_cache_misses s,
     gs_active_shards := gs_active_shards g + 1,
     gs_nodes_per_domain :=
       (let d = ss_domain s; old = (case map_of (gs_nodes_per_domain g) d of None \<Rightarrow> 0 | Some c \<Rightarrow> c)
        in bt_insert d (old + ss_node_count s) (gs_nodes_per_domain g))\<rparr>"

fun sum_stats ::
  "('f, 'e, 'c, 'v) shard_env \<Rightarrow> (u32 \<Rightarrow> u64) \<Rightarrow> (u32 \<times> ('f, 'c, 'v) shard_store) list \<Rightarrow> 'f global_stats \<Rightarrow>
   'f global_stats \<times> (u32 \<times> ('f, 'c, 'v) shard_store) list" where
  "sum_stats E disk_usage [] g = (g, [])"
| "sum_stats E disk_usage ((sid, s) # shards) g =
     (let (st, s1) = stats E (disk_usage sid) s; (g', shards') = sum_stats E disk_usage shards (add_stats st g)
      in (g', (sid, s1) # shards'))"

definition global_stats_of ::
  "('f, 'e, 'c, 'v) shard_env \<Rightarrow> (u32 \<Rightarrow> u64) \<Rightarrow> ('f, 'c, 'v) shard_router \<Rightarrow>
   'f global_stats \<times> ('f, 'c, 'v) shard_router" where
  "global_stats_of E disk_usage r =
     (let (g, shards) = sum_stats E disk_usage (sr_shards r)
            \<lparr>gs_total_nodes = 0, gs_total_edges = 0, gs_nodes_per_domain = [],
             gs_nodes_per_type = [], gs_edges_per_type = [], gs_avg_confidence = fl_zero (se_f64 E),
             gs_active_shards = 0, gs_total_cache_hits = 0, gs_total_cache_misses = 0, gs_global_merkle_root = ''''\<rparr>;
          (root, r') = global_merkle_root E (r\<lparr>sr_shards := shards\<rparr>)
      in (g\<lparr>gs_global_merkle_root := hex_lower (be_bytes root)\<rparr>, r'))"

definition shard_stats_of ::
  "('f, 'e, 'c, 'v) shard_env \<Rightarrow> u64 \<Rightarrow> u32 \<Rightarrow> ('f, 'c, 'v) shard_router \<Rightarrow>
   'f shard_stats option \<times> ('f, 'c, 'v) shard_router" where
  "shard_stats_of E disk_usage sid r =
     (case get_shard sid r of
        None \<Rightarrow> (None, r)
      | Some s \<Rightarrow> (let (st, s1) = stats E disk_usage s in (Some st, set_shard sid s1 r)))"

text \<open>An error stops the round; the shards before it are compacted.\<close>

fun compact_shards ::
  "('f, 'e, 'c, 'v) shard_env \<Rightarrow> (u32 \<Rightarrow> u64 \<times> u64) \<Rightarrow> 'f \<Rightarrow> i64 \<Rightarrow>
   (u32 \<times> ('f, 'c, 'v) shard_store) list \<Rightarrow> i64 \<times> u64 \<Rightarrow>
   (store_error + (i64 \<times> u64)) \<times> (u32 \<times> ('f, 'c, 'v) shard_store) list" where
  "compact_shards E sizes min_score current_block [] so_far = (Inr so_far, [])"
| "compact_shards E sizes min_score current_block ((sid, s) # shards) so_far =
     (case compact E (fst (sizes sid)) (snd (sizes sid)) min_score current_block s of
        (Inl e, s1) \<Rightarrow> (Inl e, (sid, s1) # shards)
      | (Inr (pruned, reclaimed), s1) \<Rightarrow>
        (let (a, shards') = compact_shards E sizes min_score current_block shards
               (fst so_far + pruned, snd so_far + reclaimed)
         in (a, (sid, s1) # shards')))"

definition compact_all ::
  "('f, 'e, 'c, 'v) shard_env \<Rightarrow> (u32 \<Rightarrow> u64 \<times> u64) \<Rightarrow> 'f \<Rightarrow> i64 \<Rightarrow> ('f, 'c, 'v) shard_router \<Rightarrow>
   (store_error + (i64 \<times> u64)) \<times> ('f, 'c, 'v) shard_router" where
  "compact_all E sizes min_score current_block r =
     (let (a, shards) = compact_shards E sizes min_score current_block (sr_shards r) (0, 0)
      in (a, r\<lparr>sr_shards := shards\<rparr>))"

definition shard_count :: "('f, 'c, 'v) shard_router \<Rightarrow> nat" where
  "shard_count r = length (sr_shards r)"

definition stream_nodes ::
  "('f, 'e, 'c, 'v) shard_env \<Rightarrow> string \<Rightarrow> i64 \<Rightarrow> nat \<Rightarrow> ('f, 'c, 'v) shard_router \<Rightarrow>
   store_error + ('f, 'e) shard_node list" where
  "stream_nodes E domain min_node_id batch_size r =
     (case get_shard (compute_shard_id (domain_from_str (se_lower E) domain) 0) r of
        None \<Rightarrow> Inr []
      | Some s \<Rightarrow> iter_nodes E min_node_id batch_size s)"

end
