(* ===== verification/ByteCodes.thy ===== *)
theory ByteCodes
  imports Complex_Main Prelude
begin

text \<open>
  Writers into bytes and readers that undo them, for numbers, words, strings, lists, pairs, options
  and rationals: a code of the kind that \<open>bincode\<close> provides, as an instance of what the programs
  that store encoded values rely on.
\<close>

section \<open>Writers and readers\<close>

type_synonym 'a reader = "u8 list \<Rightarrow> ('a \<times> u8 list) option"

definition reads :: "('a \<Rightarrow> u8 list) \<Rightarrow> 'a reader \<Rightarrow> bool" where
  "reads w r \<longleftrightarrow> (\<forall>x bs. r (w x @ bs) = Some (x, bs))"

named_theorems readers \<comment> \<open>which reader undoes which writer\<close>

lemma readsD [simp]: "reads w r \<Longrightarrow> r (w x @ bs) = Some (x, bs)"
  by (simp add: reads_def)

definition write_nat :: "nat \<Rightarrow> u8 list" where
  "write_nat n = replicate n 1 @ [0]"

fun read_nat :: "nat reader" where
  "read_nat [] = None"
| "read_nat (b # bs) = (if b = 0 then Some (0, bs) else map_option (\<lambda>(n, r). (Suc n, r)) (read_nat bs))"

lemma read_nat [readers]: "reads write_nat read_nat"
proof -
  have "read_nat (replicate n 1 @ 0 # bs) = Some (n, bs)" for n bs by (induction n) simp_all
  then show ?thesis by (simp add: reads_def write_nat_def)
qed

text \<open>A code for a type that is read through another one.\<close>

definition read_map :: "('a \<Rightarrow> 'b) \<Rightarrow> 'a reader \<Rightarrow> 'b reader" where
  "read_map f r bs = map_option (\<lambda>(x, q). (f x, q)) (r bs)"

lemma read_map: "reads w r \<Longrightarrow> (\<And>x. f (g x) = x) \<Longrightarrow> reads (w o g) (read_map f r)"
  by (simp add: reads_def read_map_def)

definition write_pair :: "('a \<Rightarrow> u8 list) \<Rightarrow> ('b \<Rightarrow> u8 list) \<Rightarrow> 'a \<times> 'b \<Rightarrow> u8 list" where
  "write_pair v w = (\<lambda>(x, y). v x @ w y)"

definition read_pair :: "'a reader \<Rightarrow> 'b reader \<Rightarrow> ('a \<times> 'b) reader" where
  "read_pair r q bs = (case r bs of None \<Rightarrow> None | Some (x, cs) \<Rightarrow> map_option (\<lambda>(y, ds). ((x, y), ds)) (q cs))"

lemma read_pair [readers]: "reads v r \<Longrightarrow> reads w q \<Longrightarrow> reads (write_pair v w) (read_pair r q)"
  by (auto simp: reads_def write_pair_def read_pair_def)

definition write_list :: "('a \<Rightarrow> u8 list) \<Rightarrow> 'a list \<Rightarrow> u8 list" where
  "write_list w xs = write_nat (length xs) @ concat (map w xs)"

fun read_many :: "'a reader \<Rightarrow> nat \<Rightarrow> 'a list reader" where
  "read_many r 0 bs = Some ([], bs)"
| "read_many r (Suc n) bs =
     (case r bs of None \<Rightarrow> None | Some (x, cs) \<Rightarrow> map_option (\<lambda>(xs, ds). (x # xs, ds)) (read_many r n cs))"

definition read_list :: "'a reader \<Rightarrow> 'a list reader" where
  "read_list r bs = (case read_nat bs of None \<Rightarrow> None | Some (n, cs) \<Rightarrow> read_many r n cs)"

lemma read_list [readers]:
  assumes "reads w r"
  shows "reads (write_list w) (read_list r)"
proof -
  have "read_many r (length xs) (concat (map w xs) @ bs) = Some (xs, bs)" for xs bs
    by (induction xs) (use assms in simp_all)
  then show ?thesis unfolding reads_def write_list_def read_list_def by (simp add: readsD [OF read_nat])
qed

definition write_int :: "int \<Rightarrow> u8 list" where
  "write_int z = write_pair write_nat write_nat (nat z, nat (- z))"

definition read_int :: "int reader" where
  "read_int = read_map (\<lambda>(p, m). int p - int m) (read_pair read_nat read_nat)"

lemma read_int [readers]: "reads write_int read_int"
proof -
  have "reads (write_pair write_nat write_nat o (\<lambda>z. (nat z, nat (- z)))) read_int"
    unfolding read_int_def by (rule read_map) (auto intro: readers)
  then show ?thesis by (simp add: reads_def write_int_def)
qed

definition write_i64 :: "i64 \<Rightarrow> u8 list" where
  "write_i64 = write_int o sint"

definition read_i64 :: "i64 reader" where
  "read_i64 = read_map word_of_int read_int"

lemma read_i64 [readers]: "reads write_i64 read_i64"
  unfolding write_i64_def read_i64_def by (rule read_map) (auto intro: readers)

definition write_string :: "string \<Rightarrow> u8 list" where
  "write_string = write_list (write_nat o of_char)"

definition read_string :: "string reader" where
  "read_string = read_list (read_map char_of read_nat)"

lemma read_string [readers]: "reads write_string read_string"
  unfolding write_string_def read_string_def by (intro readers read_map) simp

definition write_option :: "('a \<Rightarrow> u8 list) \<Rightarrow> 'a option \<Rightarrow> u8 list" where
  "write_option w = write_list w o (\<lambda>x. case x of None \<Rightarrow> [] | Some y \<Rightarrow> [y])"

definition read_option :: "'a reader \<Rightarrow> 'a option reader" where
  "read_option r = read_map (\<lambda>xs. if xs = [] then None else Some (hd xs)) (read_list r)"

lemma read_option [readers]: "reads w r \<Longrightarrow> reads (write_option w) (read_option r)"
  unfolding write_option_def read_option_def by (intro readers read_map) (auto split: option.splits)

definition write_rat :: "rat \<Rightarrow> u8 list" where
  "write_rat = write_pair write_int write_int o quotient_of"

definition read_rat :: "rat reader" where
  "read_rat = read_map (\<lambda>(p, q). Fract p q) (read_pair read_int read_int)"

lemma read_rat [readers]: "reads write_rat read_rat"
proof -
  have "(case quotient_of x of (p, q) \<Rightarrow> Fract p q) = x" for x
    using quotient_of_div [of x] by (cases "quotient_of x") (simp add: Fract_of_int_quotient)
  then show ?thesis unfolding write_rat_def read_rat_def by (intro readers read_map)
qed

end
