(* ===== verification/ShardRuns.thy ===== *)
theory ShardRuns
  imports ShardGraph ByteCodes
begin

text \<open>
  What the store of a shard guarantees over the runs of its calls, and an instance of what it takes
  from outside, so that the theorems can be applied: exact arithmetic, a byte code and a bounded
  cache that evicts what was used least recently.
\<close>

section \<open>The instance\<close>

type_synonym demo_node = "(rat, nat) shard_node"

definition node_fields where
  "node_fields n = (sn_node_id n, sn_node_type n, sn_content_hash n, sn_content n, sn_confidence n,
     sn_source_block n, sn_timestamp n, sn_domain n, sn_last_referenced_block n, sn_reference_count n,
     sn_grounding_source n, sn_edges_out n, sn_edges_in n, sn_embedding n)"

definition node_of_fields where
  "node_of_fields = (\<lambda>(i, ty, hash, content, conf, src, ts, dom, lastref, count, ground, out, inn, emb).
     \<lparr>sn_node_id = i, sn_node_type = ty, sn_content_hash = hash, sn_content = content, sn_confidence = conf,
      sn_source_block = src, sn_timestamp = ts, sn_domain = dom, sn_last_referenced_block = lastref,
      sn_reference_count = count, sn_grounding_source = ground, sn_edges_out = out, sn_edges_in = inn,
      sn_embedding = emb\<rparr>)"

definition write_node :: "demo_node \<Rightarrow> u8 list" where
  "write_node = write_pair write_i64 (write_pair write_string (write_pair write_string
     (write_pair (write_list (write_pair write_string write_string)) (write_pair write_rat
     (write_pair write_i64 (write_pair write_rat (write_pair write_string (write_pair write_i64
     (write_pair write_i64 (write_pair write_string (write_pair (write_list write_i64)
     (write_pair (write_list write_i64) (write_option (write_list write_nat)))))))))))))) o node_fields"

definition read_node :: "demo_node reader" where
  "read_node = read_map node_of_fields (read_pair read_i64 (read_pair read_string (read_pair read_string
     (read_pair (read_list (read_pair read_string read_string)) (read_pair read_rat
     (read_pair read_i64 (read_pair read_rat (read_pair read_string (read_pair read_i64
     (read_pair read_i64 (read_pair read_string (read_pair (read_list read_i64)
     (read_pair (read_list read_i64) (read_option (read_list read_nat)))))))))))))))"

lemma read_node [readers]: "reads write_node read_node"
  unfolding write_node_def read_node_def
  by (intro readers read_map) (simp add: node_of_fields_def node_fields_def)

definition write_edge :: "rat shard_edge \<Rightarrow> u8 list" where
  "write_edge = write_pair write_i64 (write_pair write_i64 (write_pair write_string
     (write_pair write_rat write_rat))) o (\<lambda>e. (ge_from e, ge_to e, ge_type e, ge_weight e, ge_timestamp e))"

definition read_edge :: "rat shard_edge reader" where
  "read_edge = read_map (\<lambda>(a, b, t, w, ts). \<lparr>ge_from = a, ge_to = b, ge_type = t, ge_weight = w, ge_timestamp = ts\<rparr>)
     (read_pair read_i64 (read_pair read_i64 (read_pair read_string (read_pair read_rat read_rat))))"

lemma read_edge [readers]: "reads write_edge read_edge"
  unfolding write_edge_def read_edge_def by (intro readers read_map) simp

definition write_adj :: "rat adjacency \<Rightarrow> u8 list" where
  "write_adj = write_list (write_pair write_i64 (write_pair write_string write_rat))"

definition read_adj :: "rat adjacency reader" where
  "read_adj = read_list (read_pair read_i64 (read_pair read_string read_rat))"

lemma read_adj [readers]: "reads write_adj read_adj"
  unfolding write_adj_def read_adj_def by (intro readers)

definition parse :: "'a reader \<Rightarrow> u8 list \<Rightarrow> 'a option" where
  "parse r bs = map_option fst (r bs)"

lemma parse_write: "reads w r \<Longrightarrow> parse r (w x) = Some x"
  using readsD [of w r x "[]"] by (simp add: parse_def)

text \<open>A cache with a bound, most recently used first.\<close>

definition lru_get :: "i64 \<Rightarrow> nat \<times> (i64 \<times> demo_node) list \<Rightarrow> demo_node option \<times> nat \<times> (i64 \<times> demo_node) list" where
  "lru_get i = (\<lambda>(k, l). case map_of l i of None \<Rightarrow> (None, k, l)
     | Some n \<Rightarrow> (Some n, k, (i, n) # filter (\<lambda>(j, _). j \<noteq> i) l))"

definition lru_put :: "i64 \<Rightarrow> demo_node \<Rightarrow> nat \<times> (i64 \<times> demo_node) list \<Rightarrow> nat \<times> (i64 \<times> demo_node) list" where
  "lru_put i n = (\<lambda>(k, l). (k, take k ((i, n) # filter (\<lambda>(j, _). j \<noteq> i) l)))"

definition lru_pop :: "i64 \<Rightarrow> nat \<times> (i64 \<times> demo_node) list \<Rightarrow> nat \<times> (i64 \<times> demo_node) list" where
  "lru_pop i = (\<lambda>(k, l). (k, filter (\<lambda>(j, _). j \<noteq> i) l))"

definition shard_demo_env :: "(rat, nat, nat \<times> (i64 \<times> demo_node) list, (i64 \<times> nat list) list) shard_env" where
  "shard_demo_env = \<lparr>se_f64 = exact_ops, se_of_int = of_int, se_exp = (\<lambda>x. 1 / (1 - x)),
     se_show6 = (\<lambda>x. show_i64 (word_of_int \<lfloor>x * 1000000\<rfloor>)), se_sha256 = (\<lambda>bs. of_nat (sum_list (map unat bs))),
     se_json = concat o map (\<lambda>(k, v). k @ v), se_node_bytes = write_node, se_node_parse = parse read_node,
     se_edge_bytes = write_edge, se_edge_parse = parse read_edge, se_adj_bytes = write_adj,
     se_adj_parse = parse read_adj, se_cache_new = (\<lambda>k. (k, [])), se_get = lru_get, se_put = lru_put,
     se_pop = lru_pop, se_vec_new = [], se_vec_upsert = (\<lambda>i v l. (i, v) # filter (\<lambda>(j, _). j \<noteq> i) l),
     se_lower = id, se_words = (\<lambda>q. [q])\<rparr>"

lemma map_of_take: "map_of (take k l) i = Some n \<Longrightarrow> map_of l i = Some n"
  by (induction l arbitrary: k) (auto simp: take_Cons split: nat.splits if_splits)

lemma map_of_drop_key: "map_of (filter (\<lambda>(j, _). j \<noteq> i) l) = (map_of l)(i := None)"
  by (induction l) (auto simp: fun_eq_iff)

lemma fst_lru_get: "fst (lru_get i (k, l)) = map_of l i"
  by (simp add: lru_get_def split: option.splits)

lemma shard_demo_env_ok: "env_ok shard_demo_env"
  unfolding env_ok_def
proof
  show "codecs_ok shard_demo_env"
    by (simp add: codecs_ok_def shard_demo_env_def parse_write readers)
  have put: "if i = j then m = n else map_of l i = Some m" if "fst (lru_get i (lru_put j n (k, l))) = Some m"
    for i j k l and n m :: demo_node
    using that map_of_take [of k "(j, n) # filter (\<lambda>(h, _). h \<noteq> j) l" i m]
    by (auto simp: lru_put_def fst_lru_get map_of_drop_key)
  have get: "map_of l i = Some m" if "fst (lru_get i (snd (lru_get j (k, l)))) = Some m" for i j k l m
    using that by (auto simp: lru_get_def [of j] fst_lru_get map_of_drop_key split: option.splits if_splits)
  have pop: "i \<noteq> j \<and> map_of l i = Some m" if "fst (lru_get i (lru_pop j (k, l))) = Some m" for i j k l m
    using that by (auto simp: lru_pop_def fst_lru_get map_of_drop_key split: if_splits)
  show "node_cache_ok shard_demo_env"
    unfolding node_cache_ok_def using put get pop by (simp add: shard_demo_env_def fst_lru_get)
qed

section \<open>What the store guarantees\<close>

text \<open>
  The store is a graph: after any run of calls from a fresh store, a look-up answers the node
  that was last put under the identifier and not deleted or compacted since, whatever the cache
  evicted, and the Merkle root is the root over the leaves of exactly these nodes.
\<close>

theorem store_refines_graph:
  assumes "env_ok E"
  shows "let s = fold (store_exec E) calls (store_open E config empty_db);
           g = fold (graph_effect E) calls empty_graph
         in fst (get_node E i s) = Inr (sg_nodes g i) \<and>
            mset (fst (get_nodes E is s)) = mset (List.map_filter (sg_nodes g) is) \<and>
            fst (merkle_root E s) = contents_root (se_sha256 E) (leaf_map E (sg_nodes g))"
proof -
  have "node_inv E (sg_nodes (fold (graph_effect E) calls empty_graph))
      (fold (store_exec E) calls (store_open E config empty_db))"
    using store_run_rel [OF assms] by (simp add: store_rel_def)
  then show ?thesis
    by (simp add: Let_def get_node_answer(1) [OF assms] get_nodes_answer(1) [OF assms] merkle_root_inv(2))
qed

text \<open>The listed ends of the edges of the graph.\<close>

definition listed_ends :: "('f, 'e) shard_graph \<Rightarrow> bool" where
  "listed_ends g \<longleftrightarrow> (\<forall>a b t. sg_edges g (a, b, t) \<noteq> None \<longrightarrow> listed b t (sg_out g a) \<and> listed a t (sg_in g b))"

lemma graph_effect_ends: "listed_ends g \<Longrightarrow> listed_ends (graph_effect E call g)"
  by (cases call) (use edge_key_matches_ends in \<open>auto simp: listed_ends_def\<close>)

lemma graph_run_ends: "listed_ends (fold (graph_effect E) calls empty_graph)"
proof -
  have "listed_ends g \<Longrightarrow> listed_ends (fold (graph_effect E) calls g)" for g :: "('a, 'b) shard_graph"
    by (induction calls arbitrary: g) (simp_all add: graph_effect_ends)
  then show ?thesis by (simp add: listed_ends_def empty_graph_def)
qed

text \<open>
  C37. No edge is lost: after any run of calls from a fresh store, the edges of a node are answered,
  every stored edge that leaves or enters the node in the direction and of the type asked for is
  among them, and an answer that is not a stored edge carries the time zero.
\<close>

theorem edges_are_found:
  assumes "env_ok E"
  shows "\<exists>es. get_edges E i dir flt (fold (store_exec E) calls (store_open E config empty_db)) = Inr es \<and>
    {e. sg_edges (fold (graph_effect E) calls empty_graph) (ge_from e, ge_to e, ge_type e) = Some e \<and>
        (ge_from e = i \<and> dir \<noteq> Incoming \<or> ge_to e = i \<and> dir \<noteq> Outgoing) \<and>
        flt \<in> {None, Some (ge_type e)}} \<subseteq> set es \<and>
    set es \<subseteq> ran (sg_edges (fold (graph_effect E) calls empty_graph)) \<union>
      {e. ge_timestamp e = fl_zero (se_f64 E)}"
proof -
  define g where "g = fold (graph_effect E) calls empty_graph"
  define s where "s = fold (store_exec E) calls (store_open E config empty_db)"
  have R: "edges_rel E (sg_edges g) (sg_out g) (sg_in g) (st_db s)"
    using store_run_rel [OF assms] by (simp add: g_def s_def store_rel_def)
  have L: "listed_ends g" by (simp add: g_def graph_run_ends)
  let ?F = "se_f64 E"
  let ?ok = "\<lambda>(_ :: i64, ty, _). flt = None \<or> flt = Some ty"
  let ?out = "if dir = Incoming then [] else map (listed_edge ?F (sg_edges g) (\<lambda>to. (i, to))) (filter ?ok (sg_out g i))"
  let ?in = "if dir = Outgoing then [] else map (listed_edge ?F (sg_edges g) (\<lambda>from. (from, i))) (filter ?ok (sg_in g i))"
  note answer = get_edges_answer [OF assms R, of i dir flt]
  have "e \<in> set (?out @ ?in)"
    if "sg_edges g (ge_from e, ge_to e, ge_type e) = Some e"
      "ge_from e = i \<and> dir \<noteq> Incoming \<or> ge_to e = i \<and> dir \<noteq> Outgoing" "flt \<in> {None, Some (ge_type e)}" for e
  proof -
    note stored = that
    obtain w v where w: "(ge_to e, ge_type e, w) \<in> set (sg_out g (ge_from e))"
        and v: "(ge_from e, ge_type e, v) \<in> set (sg_in g (ge_to e))"
      using L stored(1) unfolding listed_ends_def listed_iff by blast
    have "listed_edge ?F (sg_edges g) (\<lambda>to. (ge_from e, to)) (ge_to e, ge_type e, w) = e"
      "listed_edge ?F (sg_edges g) (\<lambda>from. (from, ge_to e)) (ge_from e, ge_type e, v) = e"
      using stored(1) by (simp_all add: listed_edge_def)
    with w v stored(2,3) show ?thesis by (auto intro!: image_eqI)
  qed
  moreover have "set (?out @ ?in) \<subseteq> ran (sg_edges g) \<union> {e. ge_timestamp e = fl_zero ?F}"
    using listed_edge_known [of ?F "sg_edges g"] by auto
  ultimately show ?thesis using answer unfolding g_def s_def by blast
qed

text \<open>
  A restart loses the root. A store that is opened again on the columns of a run answers every
  node as before, and its Merkle root is zero, the root of no nodes; rebuilding the tree, which no
  caller does, gives the root of the nodes.
\<close>

theorem reopening_loses_root:
  assumes "env_ok E"
  shows "let g = fold (graph_effect E) calls empty_graph;
           s = store_open E config2 (st_db (fold (store_exec E) calls (store_open E config empty_db)))
         in fst (get_node E i s) = Inr (sg_nodes g i) \<and> fst (merkle_root E s) = 0 \<and>
            fst (rebuild_merkle E s) = Inr (contents_root (se_sha256 E) (leaf_map E (sg_nodes g)))"
proof -
  define g where "g = fold (graph_effect E) calls empty_graph"
  define s1 where "s1 = fold (store_exec E) calls (store_open E config empty_db)"
  define s where "s = store_open E config2 (st_db s1)"
  have N1: "node_inv E (sg_nodes g) s1"
    using store_run_rel [OF assms] by (simp add: store_rel_def g_def s1_def)
  have s: "st_db s = st_db s1" "st_merkle s = tree_new"
    by (simp_all add: s_def store_open_def recount_def Let_def)
  have "node_rel E (sg_nodes g) (db_nodes (st_db s1)) (st_cache s) (st_merkle s1)"
    by (rule node_rel_cache [OF N1]) (simp add: s_def store_open_def recount_def Let_def env_okD(4) [OF assms])
  then have N: "node_inv E (sg_nodes g) (s\<lparr>st_merkle := st_merkle s1\<rparr>)" by (simp add: s)
  have "fst (get_node E i s) = fst (get_node E i (s\<lparr>st_merkle := st_merkle s1\<rparr>))"
    by (simp add: get_node_def Let_def split: prod.splits option.splits)
  then have "fst (get_node E i s) = Inr (sg_nodes g i)" using get_node_answer(1) [OF assms N] by simp
  moreover have "fst (merkle_root E s) = 0"
    by (simp add: merkle_root_def s tree_root_def tree_new_def)
  moreover obtain t where "insert_leaves E (db_nodes (st_db s1)) tree_new = (True, t)"
      "tree_inv (se_sha256 E) (leaf_map E (sg_nodes g)) t"
    by (rule rebuild_leaves [OF assms N1 tree_new_inv map_le_empty])
  then have "fst (rebuild_merkle E s) = Inr (contents_root (se_sha256 E) (leaf_map E (sg_nodes g)))"
    using root_of_contents [of "se_sha256 E" "leaf_map E (sg_nodes g)" t]
    by (cases "tree_root (se_sha256 E) t") (simp add: rebuild_merkle_def s)
  ultimately show ?thesis by (simp add: Let_def g_def s_def s1_def)
qed

text \<open>
  A cascading deletion leaves the lists of the neighbours: the edge that led to the deleted node is
  still answered, with the time zero.
\<close>

theorem deleted_edge_is_answered:
  assumes "env_ok E" "ge_from e \<noteq> ge_to e"
    and "sg_nodes (fold (graph_effect E) calls empty_graph) (ge_to e) \<noteq> None"
  shows "\<exists>es w. get_edges E (ge_from e) Outgoing None (fold (store_exec E)
      (calls @ [Put_edge e, Delete_node (ge_to e) True]) (store_open E config empty_db)) = Inr es \<and>
    \<lparr>ge_from = ge_from e, ge_to = ge_to e, ge_type = ge_type e, ge_weight = w,
      ge_timestamp = fl_zero (se_f64 E)\<rparr> \<in> set es"
proof -
  let ?calls = "calls @ [Put_edge e, Delete_node (ge_to e) True]"
  define g where "g = fold (graph_effect E) ?calls empty_graph"
  define s where "s = fold (store_exec E) ?calls (store_open E config empty_db)"
  have R: "edges_rel E (sg_edges g) (sg_out g) (sg_in g) (st_db s)"
    using store_run_rel [OF assms(1), of ?calls] unfolding g_def s_def store_rel_def by blast
  have "listed (ge_to e) (ge_type e) (sg_out g (ge_from e))"
    using assms(2,3) by (simp add: g_def)
  then obtain w where w: "(ge_to e, ge_type e, w) \<in> set (sg_out g (ge_from e))" by (auto simp: listed_iff)
  have gone: "sg_edges g (ge_from e, ge_to e, ge_type e) = None"
    using assms(3) by (simp add: g_def edge_key_matches_ends)
  have "\<lparr>ge_from = ge_from e, ge_to = ge_to e, ge_type = ge_type e, ge_weight = w,
      ge_timestamp = fl_zero (se_f64 E)\<rparr> =
      listed_edge (se_f64 E) (sg_edges g) (\<lambda>to. (ge_from e, to)) (ge_to e, ge_type e, w)"
    by (simp add: listed_edge_def gone)
  with w get_edges_answer [OF assms(1) R, of "ge_from e" Outgoing None] show ?thesis
    unfolding s_def by (auto intro!: image_eqI)
qed

text \<open>The counter of the nodes counts an update of a node as a new node.\<close>

theorem updates_are_counted:
  assumes "env_ok E" "store_rel E g s" "sg_nodes g i \<noteq> None"
  shows "st_node_count (snd (update_confidence E i f b s)) = st_node_count s + 1"
    and "dom (sg_nodes (graph_effect E (Update_confidence i f b) g)) = dom (sg_nodes g)"
proof -
  obtain n where n: "sg_nodes g i = Some n" using assms(3) by auto
  have c: "st_node_count (snd (get_node E i s)) = st_node_count s"
    by (simp add: get_node_def Let_def split: prod.splits option.splits)
  obtain s1 where g: "get_node E i s = (Inr (Some n), s1)"
    using get_node_answer(1) [OF assms(1), of "sg_nodes g" s i] assms(2) n
    by (metis prod.collapse store_rel_def)
  show "st_node_count (snd (update_confidence E i f b s)) = st_node_count s + 1"
    using c by (simp add: update_confidence_def g put_node_def Let_def)
  show "dom (sg_nodes (graph_effect E (Update_confidence i f b) g)) = dom (sg_nodes g)"
    using n by (auto simp: dom_def)
qed

section \<open>An example\<close>

definition shard_demo_config :: "rat shard_config" where
  "shard_demo_config = \<lparr>cfg_shard_id = 0, cfg_domain = DKeter, cfg_sub_shard = 0, cfg_data_dir = ''d'',
     cfg_cache_capacity = 1, cfg_compaction_threshold = 0\<rparr>"

definition demo_node_of :: "i64 \<Rightarrow> demo_node" where
  "demo_node_of i = \<lparr>sn_node_id = i, sn_node_type = ''axiom'', sn_content_hash = ''00'', sn_content = [(''k'', ''v'')],
     sn_confidence = 1, sn_source_block = 3, sn_timestamp = 5, sn_domain = ''keter'',
     sn_last_referenced_block = 3, sn_reference_count = 0, sn_grounding_source = '''', sn_edges_out = [],
     sn_edges_in = [], sn_embedding = Some [4, 2]\<rparr>"

definition demo_edge :: "rat shard_edge" where
  "demo_edge = \<lparr>ge_from = 1, ge_to = - 2, ge_type = ''supports'', ge_weight = 1 / 2, ge_timestamp = 9\<rparr>"

definition shard_demo_calls :: "(rat, nat, (i64 \<times> nat list) list) store_call list" where
  "shard_demo_calls = [Put_node (demo_node_of 1), Put_node (demo_node_of (- 2)), Put_edge demo_edge, Get_node 1,
     Update_confidence 1 (1 / 2) 7, Merkle_root, Put_node (demo_node_of 3), Delete_node 3 False]"

abbreviation demo_store where
  "demo_store \<equiv> fold (store_exec shard_demo_env) shard_demo_calls (store_open shard_demo_env shard_demo_config empty_db)"

lemma demo_graph:
  "sg_nodes (fold (graph_effect shard_demo_env) shard_demo_calls empty_graph) =
     [1 \<mapsto> touched_node shard_demo_env (1 / 2) 7 (demo_node_of 1), - 2 \<mapsto> demo_node_of (- 2)]"
  "sg_edges (fold (graph_effect shard_demo_env) shard_demo_calls empty_graph) = [(1, - 2, ''supports'') \<mapsto> demo_edge]"
  by (auto simp: shard_demo_calls_def empty_graph_def demo_node_of_def demo_edge_def fun_eq_iff)

theorem store_refines_graph_witness:
  "fst (get_node shard_demo_env 1 demo_store) = Inr (Some (touched_node shard_demo_env (1 / 2) 7 (demo_node_of 1)))"
  using store_refines_graph [OF shard_demo_env_ok, of shard_demo_calls shard_demo_config 1 "[]"]
  by (simp add: Let_def demo_graph)

theorem edges_are_found_witness:
  "\<exists>es. get_edges shard_demo_env (- 2) Incoming None demo_store = Inr es \<and> {demo_edge} \<subseteq> set es"
proof -
  obtain es where "get_edges shard_demo_env (- 2) Incoming None demo_store = Inr es"
      "{e. sg_edges (fold (graph_effect shard_demo_env) shard_demo_calls empty_graph) (ge_from e, ge_to e, ge_type e) = Some e \<and>
        (ge_from e = - 2 \<and> Incoming \<noteq> Incoming \<or> ge_to e = - 2 \<and> Incoming \<noteq> Outgoing) \<and>
        None \<in> {None, Some (ge_type e)}} \<subseteq> set es"
    using edges_are_found [OF shard_demo_env_ok, of "- 2" Incoming None shard_demo_calls shard_demo_config] by blast
  moreover have "ge_from demo_edge = 1" "ge_to demo_edge = - 2" "ge_type demo_edge = ''supports''"
    by (simp_all add: demo_edge_def)
  ultimately show ?thesis by (auto simp: demo_graph subset_iff)
qed

theorem reopening_loses_root_witness:
  "fst (get_node shard_demo_env (- 2) (store_open shard_demo_env shard_demo_config (st_db demo_store))) = Inr (Some (demo_node_of (- 2))) \<and>
   fst (merkle_root shard_demo_env (store_open shard_demo_env shard_demo_config (st_db demo_store))) = 0"
  using reopening_loses_root [OF shard_demo_env_ok, of shard_demo_calls shard_demo_config shard_demo_config "- 2"]
  by (simp add: Let_def demo_graph)

theorem deleted_edge_is_answered_witness:
  "\<exists>es w. get_edges shard_demo_env 1 Outgoing None (fold (store_exec shard_demo_env)
      (shard_demo_calls @ [Put_edge demo_edge, Delete_node (- 2) True]) (store_open shard_demo_env shard_demo_config empty_db)) = Inr es \<and>
    \<lparr>ge_from = 1, ge_to = - 2, ge_type = ''supports'', ge_weight = w, ge_timestamp = 0\<rparr> \<in> set es"
  using deleted_edge_is_answered [OF shard_demo_env_ok, of demo_edge shard_demo_calls shard_demo_config]
  by (simp add: demo_edge_def demo_graph) (simp add: shard_demo_env_def)

end
