(* ===== verification/ShardCluster.thy ===== *)
theory ShardCluster
  imports ShardRouter ShardRuns
begin

text \<open>
  The shards together: the router refines one graph per shard, the relation \<open>router_rel\<close> between the
  two is kept by every call, and what follows for look-ups, searches and the global root.
\<close>

section \<open>The identity of a shard\<close>

lemma get_node_config [simp]: "st_config (snd (get_node E i s)) = st_config s"
  by (simp add: get_node_def Let_def split: prod.splits option.splits)

lemma put_node_config [simp]: "st_config (put_node E n s) = st_config s"
  by (simp add: put_node_def Let_def)

lemma delete_node_config [simp]: "st_config (snd (delete_node E i casc s)) = st_config s"
  by (simp add: delete_node_def Let_def)

lemma put_edge_config [simp]: "st_config (snd (put_edge E e s)) = st_config s"
  by (simp add: put_edge_def Let_def split: sum.splits)

lemma merkle_root_config [simp]: "st_config (snd (merkle_root E s)) = st_config s"
  by (simp add: merkle_root_def split: prod.splits)

lemma compact_config [simp]: "st_config (snd (compact E b a f block s)) = st_config s"
  by (simp add: compact_def Let_def split: sum.splits)

text \<open>The identifiers of the shards do not collide.\<close>

lemma word_bound: "unat (of_nat n :: u32) = n" if "n < 256" for n
  using that by (simp add: unat_of_nat)

lemma base_id_bound: "unat (shard_base_id d) < 12"
  by (cases d) simp_all

lemma base_id_inject: "shard_base_id d = shard_base_id e \<longleftrightarrow> d = e"
  by (cases d; cases e) simp_all

lemma compute_shard_id_nat:
  assumes "unat sub < 256"
  shows "unat (compute_shard_id d sub) = unat (shard_base_id d) * 256 + unat sub"
proof -
  have "unat (shard_base_id d * 256) = unat (shard_base_id d) * 256"
    using base_id_bound [of d] by (subst unat_mult_lem [THEN iffD1]) simp_all
  then show ?thesis
    using base_id_bound [of d] assms
    by (simp add: compute_shard_id_def MAX_SUB_SHARDS_def unat_add_lem [THEN iffD1])
qed

lemma compute_shard_id_inject:
  assumes "unat sub < 256" "unat sub' < 256"
  shows "compute_shard_id d sub = compute_shard_id e sub' \<longleftrightarrow> d = e \<and> sub = sub'"
proof
  assume "compute_shard_id d sub = compute_shard_id e sub'"
  then have "unat (shard_base_id d) * 256 + unat sub = unat (shard_base_id e) * 256 + unat sub'"
    using compute_shard_id_nat [OF assms(1)] compute_shard_id_nat [OF assms(2)] by metis
  moreover have "(x * 256 + y) div 256 = x \<and> (x * 256 + y) mod 256 = y" if "y < 256" for x y :: nat
    using that by simp
  ultimately have "unat (shard_base_id d) = unat (shard_base_id e)" "unat sub = unat sub'"
    using assms by metis+
  then show "d = e \<and> sub = sub'" by (metis base_id_inject word_unat_eq_iff)
qed simp

text \<open>The identifiers in use, and the route of a node among them.\<close>

definition shard_ids :: "u32 \<Rightarrow> u32 set" where
  "shard_ids subs = (\<Union>d. compute_shard_id d ` of_nat ` {..<unat subs})"

lemma all_domains_UNIV: "set all_domains = UNIV"
proof -
  have "d \<in> set all_domains" for d by (cases d) (simp_all add: all_domains_def)
  then show ?thesis by blast
qed

lemma route_in_ids:
  assumes "1 \<le> sr_sub_shards r"
  shows "shard_route E r domain i \<in> shard_ids (sr_sub_shards r)"
proof -
  let ?n = "sr_sub_shards r"
  let ?sub = "(if 1 < ?n then ucast (unsigned_abs i mod ucast ?n) else 0) :: u32"
  have bound: "unat ?n < 4294967296" by (rule order_less_le_trans [OF unsigned_less]) simp
  have pos: "0 < unat ?n" using assms by (simp add: word_le_nat_alt)
  have "unat ?sub < unat ?n"
  proof (cases "1 < ?n")
    case True
    have "unat (ucast ?n :: u64) = unat ?n"
      using bound by (simp add: unsigned_ucast_eq take_bit_nat_eq_self)
    then have small: "unat (unsigned_abs i mod ucast ?n) < unat ?n"
      using pos by (simp add: unat_mod)
    have "unat (ucast (unsigned_abs i mod ucast ?n) :: u32) = unat (unsigned_abs i mod ucast ?n)"
      using small bound by (simp add: unsigned_ucast_eq take_bit_nat_eq_self)
    with small True show ?thesis by simp
  qed (use pos in simp)
  moreover have "w \<in> of_nat ` {..<k}" if "unat w < k" for w :: u32 and k
    by (rule image_eqI [of _ _ "unat w"]) (use that in simp_all)
  ultimately have "?sub \<in> of_nat ` {..<unat ?n}" by blast
  then show ?thesis unfolding shard_route_def Let_def shard_ids_def by blast
qed

section \<open>The shards refine the graphs\<close>

definition shards_rel ::
  "('f, 'e, 'c, 'v) shard_env \<Rightarrow> (u32 \<Rightarrow> ('f, 'e) shard_graph) \<Rightarrow> (u32 \<times> ('f, 'c, 'v) shard_store) list \<Rightarrow> bool" where
  "shards_rel E G xs \<longleftrightarrow> (\<forall>(sid, s) \<in> set xs. store_rel E (G sid) s \<and> shard_id s = sid)"

lemma shards_rel_simps [simp]:
  "shards_rel E G []"
  "shards_rel E G ((sid, s) # xs) \<longleftrightarrow> store_rel E (G sid) s \<and> shard_id s = sid \<and> shards_rel E G xs"
  by (auto simp: shards_rel_def)

definition router_rel ::
  "('f, 'e, 'c, 'v) shard_env \<Rightarrow> u32 \<Rightarrow> (u32 \<Rightarrow> ('f, 'e) shard_graph) \<Rightarrow> ('f, 'c, 'v) shard_router \<Rightarrow> bool" where
  "router_rel E subs G r \<longleftrightarrow> sr_sub_shards r = subs \<and> 1 \<le> subs \<and> distinct (map fst (sr_shards r)) \<and>
     set (map fst (sr_shards r)) = shard_ids subs \<and> shards_rel E G (sr_shards r) \<and>
     (\<exists>m. global_inv (se_sha256 E) m (sr_global_merkle r) \<and> dom m \<subseteq> shard_ids subs)"

lemma router_relD:
  assumes "router_rel E subs G r"
  shows "sr_sub_shards r = subs" "1 \<le> subs" "distinct (map fst (sr_shards r))"
    "set (map fst (sr_shards r)) = shard_ids subs" "shards_rel E G (sr_shards r)"
  using assms by (simp_all add: router_rel_def)

text \<open>The shard that a shard_route leads to.\<close>

lemma routed_shard:
  assumes "router_rel E subs G r"
  obtains s where "get_shard (shard_route E r domain i) r = Some s" "store_rel E (G (shard_route E r domain i)) s"
    "shard_id s = shard_route E r domain i"
proof -
  have "shard_route E r domain i \<in> set (map fst (sr_shards r))"
    using route_in_ids [of r E domain i] router_relD [OF assms] by metis
  then obtain s where s: "map_of (sr_shards r) (shard_route E r domain i) = Some s"
    by (metis list.set_map map_of_eq_None_iff not_None_eq)
  with router_relD(5) [OF assms] map_of_SomeD [OF s] that show ?thesis
    by (auto simp: shards_rel_def get_shard_def)
qed

lemma set_shard_rel:
  assumes "router_rel E subs G r" "get_shard sid r = Some s" "store_rel E g s'" "shard_id s' = sid"
  shows "router_rel E subs (G(sid := g)) (set_shard sid s' r)"
proof -
  note R = router_relD [OF assms(1)]
  have d: "distinct (map fst (AList.update sid s' (sr_shards r)))" using R(3) by (rule distinct_update)
  have "sid \<in> shard_ids subs"
    using assms(2) R(4) by (metis get_shard_def list.set_map map_of_eq_None_iff option.discI)
  then have keys: "set (map fst (AList.update sid s' (sr_shards r))) = shard_ids subs"
    using R(4) by (auto simp: dom_update)
  have "store_rel E ((G(sid := g)) k) x \<and> shard_id x = k"
    if "(k, x) \<in> set (AList.update sid s' (sr_shards r))" for k x
  proof -
    have "map_of (AList.update sid s' (sr_shards r)) k = Some x" using d that by simp
    then have "if k = sid then x = s' else (k, x) \<in> set (sr_shards r)"
      by (auto simp: update_conv' map_of_SomeD split: if_splits)
    with R(5) assms(3,4) show ?thesis by (auto simp: shards_rel_def split: if_splits)
  qed
  then have "shards_rel E (G(sid := g)) (AList.update sid s' (sr_shards r))" by (auto simp: shards_rel_def)
  with d keys assms(1) show ?thesis by (simp add: router_rel_def set_shard_def)
qed

text \<open>The passes over all shards.\<close>

lemma find_in_rel:
  assumes "env_ok E" "shards_rel E G xs"
  shows "shards_rel E G (snd (find_in E i xs)) \<and> map fst (snd (find_in E i xs)) = map fst xs"
  using assms(2)
proof (induction xs)
  case (Cons x xs)
  obtain sid s where x: "x = (sid, s)" by (cases x)
  obtain a s1 where g: "get_node E i s = (a, s1)" by (metis surj_pair)
  have "store_rel E (G sid) s1" "shard_id s1 = sid"
    using Cons.prems store_exec_rel [OF assms(1), of "G sid" s "Get_node i"] get_node_config [of E i s]
    by (simp_all add: x g shard_id_def)
  with Cons show ?case by (auto simp: x g Let_def split: sum.splits option.splits prod.splits)
qed simp

lemma compact_shards_rel:
  assumes "env_ok E" "shards_rel E G xs"
  shows "shards_rel E (\<lambda>sid. graph_effect E (Compact 0 0 f block) (G sid)) (snd (compact_shards E sizes f block xs acc)) \<and>
    map fst (snd (compact_shards E sizes f block xs acc)) = map fst xs"
  using assms(2)
proof (induction xs arbitrary: acc)
  case (Cons x xs)
  obtain sid s where x: "x = (sid, s)" by (cases x)
  let ?c = "compact E (fst (sizes sid)) (snd (sizes sid)) f block s"
  have "node_inv E (sg_nodes (G sid)) s" using Cons.prems by (simp add: x store_rel_def)
  then obtain p q where "fst ?c = Inr (p, q)" using compact_inv(2) [OF assms(1)] by (metis surj_pair)
  then obtain s1 where c: "?c = (Inr (p, q), s1)" by (metis prod.collapse)
  have "store_rel E (graph_effect E (Compact 0 0 f block) (G sid)) s1" "shard_id s1 = sid"
    using Cons.prems store_exec_rel [OF assms(1), of "G sid" s "Compact (fst (sizes sid)) (snd (sizes sid)) f block"]
      compact_config [of E "fst (sizes sid)" "snd (sizes sid)" f block s]
    by (simp_all add: x c shard_id_def)
  with Cons.IH [of "(fst acc + p, snd acc + q)"] Cons.prems show ?case
    by (cases "compact_shards E sizes f block xs (fst acc + p, snd acc + q)") (simp add: x c)
qed simp

lemma collect_roots_rel:
  assumes "env_ok E" "shards_rel E G xs" "global_inv (se_sha256 E) m g" "distinct (map fst xs)"
  shows "shards_rel E G (fst (collect_roots E xs g)) \<and> map fst (fst (collect_roots E xs g)) = map fst xs \<and>
    global_inv (se_sha256 E) (\<lambda>sid. if sid \<in> set (map fst xs)
      then Some (contents_root (se_sha256 E) (leaf_map E (sg_nodes (G sid)))) else m sid) (snd (collect_roots E xs g))"
  using assms(2-4)
proof (induction xs arbitrary: m g)
  case (Cons x xs)
  obtain sid s where x: "x = (sid, s)" by (cases x)
  have S: "store_rel E (G sid) s" "shard_id s = sid" using Cons.prems(1) by (simp_all add: x)
  then have N: "node_inv E (sg_nodes (G sid)) s" by (simp add: store_rel_def)
  obtain root s1 where r: "merkle_root E s = (root, s1)" by (metis surj_pair)
  have root: "root = contents_root (se_sha256 E) (leaf_map E (sg_nodes (G sid)))"
    using merkle_root_inv(2) [OF N] by (simp add: r)
  have s1: "store_rel E (G sid) s1" "shard_id s1 = sid"
    using store_exec_rel [OF assms(1) S(1), of Merkle_root] S(2) merkle_root_config [of E s]
    by (simp_all add: r shard_id_def)
  let ?m = "m(sid \<mapsto> root)"
  have "global_inv (se_sha256 E) ?m (update_shard sid root g)"
    by (rule global_root_of_contents(3) [OF Cons.prems(2)])
  from Cons.IH [OF _ this] Cons.prems
  have IH: "shards_rel E G (fst (collect_roots E xs (update_shard sid root g)))"
      "map fst (fst (collect_roots E xs (update_shard sid root g))) = map fst xs"
      "global_inv (se_sha256 E) (\<lambda>k. if k \<in> set (map fst xs)
        then Some (contents_root (se_sha256 E) (leaf_map E (sg_nodes (G k)))) else ?m k)
        (snd (collect_roots E xs (update_shard sid root g)))"
    by (simp_all add: x)
  have "(\<lambda>k. if k \<in> set (map fst xs)
        then Some (contents_root (se_sha256 E) (leaf_map E (sg_nodes (G k)))) else ?m k) =
      (\<lambda>k. if k \<in> set (map fst (x # xs))
        then Some (contents_root (se_sha256 E) (leaf_map E (sg_nodes (G k)))) else m k)"
    by (auto simp: fun_eq_iff x root)
  with IH s1 show ?case
    by (cases "collect_roots E xs (update_shard sid root g)") (simp add: x r)
qed simp

section \<open>Runs of the router\<close>

datatype ('f, 'e) router_call =
    R_put "('f, 'e) shard_node" | R_get string i64 | R_find i64 | R_delete string i64 bool
  | R_put_edge "'f shard_edge" string | R_compact "u32 \<Rightarrow> u64 \<times> u64" 'f i64 | R_global_root

fun router_exec ::
  "('f, 'e, 'c, 'v) shard_env \<Rightarrow> ('f, 'e) router_call \<Rightarrow> ('f, 'c, 'v) shard_router \<Rightarrow> ('f, 'c, 'v) shard_router" where
  "router_exec E (R_put n) r = snd (router_put_node E n r)"
| "router_exec E (R_get d i) r = snd (router_get_node E d i r)"
| "router_exec E (R_find i) r = snd (find_node E i r)"
| "router_exec E (R_delete d i casc) r = snd (router_delete_node E d i casc r)"
| "router_exec E (R_put_edge e d) r = snd (router_put_edge E e d r)"
| "router_exec E (R_compact sizes f block) r = snd (compact_all E sizes f block r)"
| "router_exec E R_global_root r = snd (global_merkle_root E r)"

text \<open>The effect on the graphs; \<open>rt\<close> is the route.\<close>

fun graphs_effect ::
  "('f, 'e, 'c, 'v) shard_env \<Rightarrow> (string \<Rightarrow> i64 \<Rightarrow> u32) \<Rightarrow> ('f, 'e) router_call \<Rightarrow>
   (u32 \<Rightarrow> ('f, 'e) shard_graph) \<Rightarrow> (u32 \<Rightarrow> ('f, 'e) shard_graph)" where
  "graphs_effect E rt (R_put n) G =
     (let sid = rt (sn_domain n) (sn_node_id n) in G(sid := graph_effect E (Put_node n) (G sid)))"
| "graphs_effect E rt (R_delete d i casc) G =
     (let sid = rt d i in G(sid := graph_effect E (Delete_node i casc) (G sid)))"
| "graphs_effect E rt (R_put_edge e d) G =
     (let sid = rt d (ge_from e) in G(sid := graph_effect E (Put_edge e) (G sid)))"
| "graphs_effect E rt (R_compact sizes f block) G = (\<lambda>sid. graph_effect E (Compact 0 0 f block) (G sid))"
| "graphs_effect E rt _ G = G"

lemma router_exec_rel:
  assumes E: "env_ok E" and R: "router_rel E subs G r"
  shows "router_rel E subs (graphs_effect E (shard_route E r) call G) (router_exec E call r)"
proof (cases call)
  case (R_put n)
  obtain s where s: "get_shard (shard_route E r (sn_domain n) (sn_node_id n)) r = Some s"
      "store_rel E (G (shard_route E r (sn_domain n) (sn_node_id n))) s"
      "shard_id s = shard_route E r (sn_domain n) (sn_node_id n)"
    by (rule routed_shard [OF R])
  from set_shard_rel [OF R s(1) store_exec_rel [OF E s(2), of "Put_node n"]] s show ?thesis
    by (simp add: R_put router_put_node_def Let_def shard_id_def)
next
  case (R_get d i)
  obtain s where s: "get_shard (shard_route E r d i) r = Some s" "store_rel E (G (shard_route E r d i)) s"
      "shard_id s = shard_route E r d i"
    by (rule routed_shard [OF R])
  from set_shard_rel [OF R s(1) store_exec_rel [OF E s(2), of "Get_node i"]] s show ?thesis
    by (simp add: R_get router_get_node_def Let_def shard_id_def split_beta)
next
  case (R_delete d i casc)
  obtain s where s: "get_shard (shard_route E r d i) r = Some s" "store_rel E (G (shard_route E r d i)) s"
      "shard_id s = shard_route E r d i"
    by (rule routed_shard [OF R])
  from set_shard_rel [OF R s(1) store_exec_rel [OF E s(2), of "Delete_node i casc"]] s show ?thesis
    by (simp add: R_delete router_delete_node_def Let_def shard_id_def split_beta)
next
  case (R_put_edge e d)
  obtain s where s: "get_shard (shard_route E r d (ge_from e)) r = Some s" "store_rel E (G (shard_route E r d (ge_from e))) s"
      "shard_id s = shard_route E r d (ge_from e)"
    by (rule routed_shard [OF R])
  from set_shard_rel [OF R s(1) store_exec_rel [OF E s(2), of "Put_edge e"]] s show ?thesis
    by (simp add: R_put_edge router_put_edge_def Let_def shard_id_def split_beta)
next
  case (R_find i)
  from find_in_rel [OF E router_relD(5) [OF R], of i] R show ?thesis
    by (simp add: R_find find_node_def router_rel_def split_beta)
next
  case (R_compact sizes f block)
  from compact_shards_rel [OF E router_relD(5) [OF R], of f block sizes "(0, 0)"] R show ?thesis
    by (simp add: R_compact compact_all_def router_rel_def split_beta)
next
  case R_global_root
  obtain m where m: "global_inv (se_sha256 E) m (sr_global_merkle r)" "dom m \<subseteq> shard_ids subs"
    using R by (auto simp: router_rel_def)
  note C = collect_roots_rel [OF E router_relD(5) [OF R] m(1) router_relD(3) [OF R]]
  note g = global_root_of_contents(2) [OF C [THEN conjunct2, THEN conjunct2]]
  have "dom (\<lambda>sid. if sid \<in> set (map fst (sr_shards r))
      then Some (contents_root (se_sha256 E) (leaf_map E (sg_nodes (G sid)))) else m sid) \<subseteq> shard_ids subs"
    using m(2) router_relD(4) [OF R] by (auto simp: subset_iff domIff split: if_splits)
  with C g R show ?thesis
    by (auto simp: R_global_root global_merkle_root_def router_rel_def split_beta)
qed

text \<open>The route depends on the number of sub-shards only.\<close>

lemma route_cong: "sr_sub_shards r = sr_sub_shards r' \<Longrightarrow> shard_route E r = shard_route E r'"
  by (simp add: shard_route_def fun_eq_iff Let_def)

lemma router_run_rel:
  assumes "env_ok E" "router_rel E subs G r"
  shows "router_rel E subs (fold (graphs_effect E (shard_route E r)) calls G) (fold (router_exec E) calls r)"
proof -
  have "router_rel E subs (fold (graphs_effect E (shard_route E r)) calls G') (fold (router_exec E) calls r')"
    if "router_rel E subs G' r'" for G' r'
    using that
  proof (induction calls arbitrary: G' r')
    case (Cons c calls)
    have "shard_route E r' = shard_route E r"
      by (rule route_cong) (simp add: router_relD(1) [OF Cons.prems] router_relD(1) [OF assms(2)])
    with Cons.IH [OF router_exec_rel [OF assms(1) Cons.prems, of c]] show ?case by simp
  qed simp
  with assms(2) show ?thesis by blast
qed

section \<open>The start\<close>

text \<open>A router whose shards \<open>ids\<close> are open and empty.\<close>

definition opened ::
  "('f, 'e, 'c, 'v) shard_env \<Rightarrow> u32 \<Rightarrow> u32 set \<Rightarrow> ('f, 'c, 'v) shard_router \<Rightarrow> bool" where
  "opened E subs ids r \<longleftrightarrow> sr_sub_shards r = subs \<and> sr_global_merkle r = global_new \<and>
     distinct (map fst (sr_shards r)) \<and> set (map fst (sr_shards r)) = ids \<and>
     shards_rel E (\<lambda>_. empty_graph) (sr_shards r)"

lemma opened_update:
  assumes "env_ok E" "opened E subs ids r" "cfg_shard_id config = sid"
  shows "opened E subs (insert sid ids)
    (r\<lparr>sr_shards := AList.update sid (store_open E config empty_db) (sr_shards r)\<rparr>)"
proof -
  let ?xs = "AList.update sid (store_open E config empty_db) (sr_shards r)"
  have d: "distinct (map fst ?xs)" using assms(2) by (intro distinct_update) (simp add: opened_def)
  have "store_rel E empty_graph x \<and> shard_id x = k" if "(k, x) \<in> set ?xs" for k x
  proof -
    have "map_of ?xs k = Some x" using d that by simp
    then have "if k = sid then x = store_open E config empty_db else (k, x) \<in> set (sr_shards r)"
      by (auto simp: update_conv' map_of_SomeD split: if_splits)
    with assms(2) fresh_rel [OF assms(1), of config] assms(3) show ?thesis
      by (auto simp: opened_def shards_rel_def shard_id_def store_open_def recount_def Let_def split: if_splits)
  qed
  then have "shards_rel E (\<lambda>_. empty_graph) ?xs" by (auto simp: shards_rel_def)
  with d assms(2) show ?thesis by (auto simp: opened_def dom_update)
qed

lemma opened_subs:
  assumes "env_ok E" "opened E subs ids r"
  shows "opened E subs (ids \<union> compute_shard_id d ` set xs)
    (fold (\<lambda>sub r. let config = shard_config_of E r d sub
       in r\<lparr>sr_shards := AList.update (compute_shard_id d sub) (store_open E config empty_db) (sr_shards r)\<rparr>) xs r)"
  using assms(2)
proof (induction xs arbitrary: ids r)
  case (Cons sub xs)
  have "opened E subs (insert (compute_shard_id d sub) ids)
      (r\<lparr>sr_shards := AList.update (compute_shard_id d sub)
        (store_open E (shard_config_of E r d sub) empty_db) (sr_shards r)\<rparr>)"
    by (rule opened_update [OF assms(1) Cons.prems]) (simp add: shard_config_of_def Let_def)
  from Cons.IH [OF this] show ?case by (simp add: Let_def insert_commute)
qed simp

lemma init_shards_opened:
  assumes "env_ok E" "r0 = router_new dir cache n"
  shows "opened E (sr_sub_shards r0) (shard_ids (sr_sub_shards r0)) (init_shards E (\<lambda>_. empty_db) r0)"
proof -
  let ?subs = "sr_sub_shards r0"
  define step where "step = (\<lambda>d r. fold (\<lambda>sub r.
      let config = shard_config_of E r d sub
      in r\<lparr>sr_shards := AList.update (compute_shard_id d sub) (store_open E config empty_db) (sr_shards r)\<rparr>)
      (sub_ids r) r)"
  have "opened E ?subs (ids \<union> (\<Union>d\<in>set ds. compute_shard_id d ` of_nat ` {..<unat ?subs})) (fold step ds r)"
    if "opened E ?subs ids r" for ids ds r
    using that
  proof (induction ds arbitrary: ids r)
    case (Cons d ds)
    have "set (sub_ids r) = of_nat ` {..<unat ?subs}"
      using Cons.prems by (auto simp: sub_ids_def opened_def)
    with opened_subs [OF assms(1) Cons.prems, of d "sub_ids r"]
    have "opened E ?subs (ids \<union> compute_shard_id d ` of_nat ` {..<unat ?subs}) (step d r)"
      by (simp add: step_def)
    from Cons.IH [OF this] show ?case by (simp add: Un_assoc)
  qed simp
  moreover have "opened E ?subs {} r0" by (simp add: opened_def assms(2) router_new_def)
  ultimately have "opened E ?subs ({} \<union> (\<Union>d\<in>set all_domains. compute_shard_id d ` of_nat ` {..<unat ?subs}))
      (fold step all_domains r0)" by blast
  then show ?thesis by (simp add: init_shards_def step_def shard_ids_def all_domains_UNIV)
qed

lemma init_shards_rel:
  assumes "env_ok E" "r0 = router_new dir cache n"
  shows "router_rel E (sr_sub_shards r0) (\<lambda>_. empty_graph) (init_shards E (\<lambda>_. empty_db) r0)"
proof -
  have "1 \<le> sr_sub_shards r0"
    by (simp add: assms(2) router_new_def MAX_SUB_SHARDS_def word_le_nat_alt word_less_nat_alt)
  moreover have "global_inv (se_sha256 E) Map.empty global_new"
    by (simp add: global_inv_def global_new_def sorted_keys_def)
  ultimately show ?thesis using init_shards_opened [OF assms]
    by (auto simp: router_rel_def opened_def)
qed

section \<open>What the router guarantees\<close>

lemma router_get_answer:
  assumes "env_ok E" "router_rel E subs G r"
  shows "fst (router_get_node E d i r) = Inr (sg_nodes (G (shard_route E r d i)) i)"
proof -
  obtain s where s: "get_shard (shard_route E r d i) r = Some s" "store_rel E (G (shard_route E r d i)) s"
    by (rule routed_shard [OF assms(2)])
  then have "node_inv E (sg_nodes (G (shard_route E r d i))) s" by (simp add: store_rel_def)
  from get_node_answer(1) [OF assms(1) this] s show ?thesis
    by (simp add: router_get_node_def Let_def split_beta)
qed

lemma global_root_answer:
  assumes "env_ok E" "router_rel E subs G r"
  shows "fst (global_merkle_root E r) = shard_build_tree (se_sha256 E)
    (map (\<lambda>sid. contents_root (se_sha256 E) (leaf_map E (sg_nodes (G sid)))) (sorted_list_of_set (shard_ids subs)))"
proof -
  let ?root = "\<lambda>sid. contents_root (se_sha256 E) (leaf_map E (sg_nodes (G sid)))"
  obtain m where m: "global_inv (se_sha256 E) m (sr_global_merkle r)" "dom m \<subseteq> shard_ids subs"
    using assms(2) by (auto simp: router_rel_def)
  note keys = router_relD(4) [OF assms(2)]
  let ?m = "\<lambda>sid. if sid \<in> set (map fst (sr_shards r)) then Some (?root sid) else m sid"
  have dom: "dom ?m = shard_ids subs" using m(2) keys by (auto simp: subset_iff domIff split: if_splits)
  have fin: "finite (shard_ids subs)" using keys by (metis List.finite_set)
  have "global_inv (se_sha256 E) ?m (snd (collect_roots E (sr_shards r) (sr_global_merkle r)))"
    using collect_roots_rel [OF assms(1) router_relD(5) [OF assms(2)] m(1) router_relD(3) [OF assms(2)]] by blast
  from global_root_of_contents(1) [OF this, unfolded dom]
  have "fst (global_merkle_root E r) = shard_build_tree (se_sha256 E)
      (map (\<lambda>k. the (?m k)) (sorted_list_of_set (shard_ids subs)))"
    by (simp add: global_merkle_root_def split_beta)
  moreover have "map (\<lambda>k. the (?m k)) (sorted_list_of_set (shard_ids subs)) =
      map ?root (sorted_list_of_set (shard_ids subs))"
    using fin keys by simp
  ultimately show ?thesis by (simp only:)
qed

text \<open>
  C36. The service is a family of graphs: after any run of calls from the start, a node is answered
  under a domain exactly as the graph of its shard holds it, and the global root is the tree over the
  roots of the nodes of all the shards in the order of their identifiers.
\<close>

theorem router_refines_graphs:
  assumes "env_ok E"
  shows "let r0 = init_shards E (\<lambda>_. empty_db) (router_new dir cache n);
           r = fold (router_exec E) calls r0;
           G = fold (graphs_effect E (shard_route E r0)) calls (\<lambda>_. empty_graph)
         in fst (router_get_node E d i r) = Inr (sg_nodes (G (shard_route E r0 d i)) i) \<and>
            fst (global_merkle_root E r) = shard_build_tree (se_sha256 E)
              (map (\<lambda>sid. contents_root (se_sha256 E) (leaf_map E (sg_nodes (G sid))))
                (sorted_list_of_set (shard_ids (sr_sub_shards r0))))"
proof -
  define r0 where "r0 = init_shards E (\<lambda>_. empty_db) (router_new dir cache n)"
  note R0 = init_shards_rel [OF assms refl, of dir cache n, folded r0_def]
  note R = router_run_rel [OF assms R0, of calls]
  have "shard_route E (fold (router_exec E) calls r0) = shard_route E r0"
    by (rule route_cong) (simp only: router_relD(1) [OF R] router_relD(1) [OF R0])
  then show ?thesis
    unfolding Let_def r0_def [symmetric]
    using router_get_answer [OF assms R, of d i] global_root_answer [OF assms R] router_relD(1) [OF R0] by simp
qed

text \<open>A node that is put again under another domain is still answered under the old one, as it was.\<close>

theorem moved_node_is_stale:
  assumes "env_ok E" "sn_node_id n = i" "sn_node_id n' = i"
    and "r0 = init_shards E (\<lambda>_. empty_db) (router_new dir cache k)"
    and "shard_route E r0 (sn_domain n) i \<noteq> shard_route E r0 (sn_domain n') i"
  shows "fst (router_get_node E (sn_domain n) i (fold (router_exec E) (calls @ [R_put n, R_put n']) r0)) = Inr (Some n)"
proof -
  note R0 = init_shards_rel [OF assms(1) refl, of dir cache k, folded assms(4)]
  note R = router_run_rel [OF assms(1) R0, of "calls @ [R_put n, R_put n']"]
  have "shard_route E (fold (router_exec E) (calls @ [R_put n, R_put n']) r0) = shard_route E r0"
    by (rule route_cong) (simp only: router_relD(1) [OF R] router_relD(1) [OF R0])
  with router_get_answer [OF assms(1) R, of "sn_domain n" i] assms(2,3,5) show ?thesis
    by (simp add: Let_def)
qed

text \<open>The nodes of a column are all different.\<close>

lemma column_nodes_distinct:
  assumes "env_ok E" "node_rel E m cf c t"
  shows "distinct (column_nodes E cf)"
proof -
  have "map fst cf = map (be_bytes o sn_node_id) (column_nodes E cf)"
    unfolding column_nodes_def list.map_comp
  proof (rule map_cong [OF refl])
    fix kv assume mem: "kv \<in> set cf"
    obtain k v where k: "kv = (k, v)" by (cases kv)
    note kv = k mem [unfolded k]
    show "fst kv = ((be_bytes o sn_node_id) o (the o se_node_parse E o snd)) kv"
      by (rule node_rel_entries [OF assms kv(2)]) (simp add: kv(1) env_okD(1) [OF assms(1)])
  qed
  moreover have "distinct (map fst cf)"
    using node_relD(4) [OF assms(2)] by (simp add: sorted_keys_def strict_sorted_iff)
  ultimately show ?thesis by (metis distinct_map)
qed

lemma gather_Inr: "gather (map (\<lambda>x. Inr (f x)) xs) = Inr (concat (map f xs))"
  by (induction xs) simp_all

lemma search_all_answer:
  assumes "env_ok E" "scores_ordered (se_f64 E)" "shards_rel E G (sr_shards r)"
  shows "search_all E query k conf r = Inr (take k (sort_by (score_less (se_f64 E))
    (concat (map (node_hits E (search_terms E query) conf None o column_nodes E o db_nodes o st_db o snd) (sr_shards r)))))"
proof -
  let ?sort = "sort_by (score_less (se_f64 E))"
  let ?hits = "node_hits E (search_terms E query) conf None o column_nodes E o db_nodes o st_db o snd"
  have irrefl: "\<not> fl_lt (se_f64 E) x x" for x using assms(2) unfolding scores_ordered_def by blast
  have one: "search E query k conf None s = Inr (take k (?sort (?hits (sid, s))))" if "(sid, s) \<in> set (sr_shards r)" for sid s
  proof -
    have "node_inv E (sg_nodes (G sid)) s" using assms(3) that by (auto simp: shards_rel_def store_rel_def)
    note search_answer [OF assms(1,2) this, of query k conf None]
    moreover have "all_hits E query conf None s = ?hits (sid, s)"
      proof (cases "search_terms E query = []")
      case True
      then show ?thesis by (simp add: all_hits_def Let_def node_hits_def term_score_def irrefl)
    next
      case False
      then show ?thesis by (simp only: all_hits_def Let_def if_False comp_apply snd_conv)
    qed
    ultimately show ?thesis by simp
  qed
  have "map (search E query k conf None o snd) (sr_shards r) = map (\<lambda>x. Inr (take k (?sort (?hits x)))) (sr_shards r)"
    using one by auto
  then have "gather (map (search E query k conf None o snd) (sr_shards r)) =
      Inr (concat (map (\<lambda>hs. take k (?sort hs)) (map ?hits (sr_shards r))))"
    by (simp only: gather_Inr) (simp add: comp_def)
  then show ?thesis
    using preorder_sort.top_of_tops [OF scores_preorder [OF assms(2)], of "map ?hits (sr_shards r)" k]
    by (simp add: search_all_def best_hits_def)
qed

text \<open>
  C38. The distributed search is exact. Where scores are comparable, the search over all shards, each
  of which drops hits while it scans and answers only its best, answers the best of all hits: of the
  nodes that the graphs hold, each once, sorted by score in the order of the shards.
\<close>

theorem search_all_is_exact:
  assumes "env_ok E" "scores_ordered (se_f64 E)"
  shows "let r0 = init_shards E (\<lambda>_. empty_db) (router_new dir cache n);
           r = fold (router_exec E) calls r0;
           G = fold (graphs_effect E (shard_route E r0)) calls (\<lambda>_. empty_graph)
         in \<exists>nodes. search_all E query k conf r = Inr (take k (sort_by (score_less (se_f64 E))
              (concat (map (node_hits E (search_terms E query) conf None) nodes)))) \<and>
            list_all2 (\<lambda>(sid, _) ns. distinct ns \<and> set ns = ran (sg_nodes (G sid))) (sr_shards r) nodes"
proof -
  define r0 where "r0 = init_shards E (\<lambda>_. empty_db) (router_new dir cache n)"
  define r where "r = fold (router_exec E) calls r0"
  define G where "G = fold (graphs_effect E (shard_route E r0)) calls (\<lambda>_. empty_graph)"
  note R0 = init_shards_rel [OF assms(1) refl, of dir cache n, folded r0_def]
  note R = router_run_rel [OF assms(1) R0, of calls, folded r_def G_def]
  define nodes where "nodes = map (column_nodes E o db_nodes o st_db o snd) (sr_shards r)"
  have "search_all E query k conf r = Inr (take k (sort_by (score_less (se_f64 E))
      (concat (map (node_hits E (search_terms E query) conf None) nodes))))"
    using search_all_answer [OF assms router_relD(5) [OF R], of query k conf] by (simp add: nodes_def comp_assoc)
  moreover have "list_all2 (\<lambda>(sid, _) ns. distinct ns \<and> set ns = ran (sg_nodes (G sid))) (sr_shards r) nodes"
    unfolding nodes_def
  proof (rule list_all2_all_nthI)
    fix j assume j: "j < length (sr_shards r)"
    obtain sid s where x: "sr_shards r ! j = (sid, s)" by (cases "sr_shards r ! j")
    then have "node_inv E (sg_nodes (G sid)) s"
      using router_relD(5) [OF R] nth_mem [OF j] by (auto simp: shards_rel_def store_rel_def)
    with column_nodes_distinct [OF assms(1) this] column_nodes_ran(1) [OF assms(1) this] j
    show "(case sr_shards r ! j of (sid, _) \<Rightarrow> \<lambda>ns. distinct ns \<and> set ns = ran (sg_nodes (G sid)))
        (map (column_nodes E o db_nodes o st_db o snd) (sr_shards r) ! j)"
      by (simp add: x)
  qed simp
  ultimately show ?thesis by (auto simp: Let_def r0_def r_def G_def)
qed

section \<open>An example\<close>

abbreviation demo_router where
  "demo_router \<equiv> init_shards shard_demo_env (\<lambda>_. empty_db) (router_new ''d'' 4 1)"

lemma demo_route: "shard_route shard_demo_env demo_router d i = compute_shard_id (domain_from_str id d) 0"
proof -
  have "sr_sub_shards demo_router = 1"
    using router_relD(1) [OF init_shards_rel [OF shard_demo_env_ok refl, of "''d''" 4 1]] by (simp add: router_new_def MAX_SUB_SHARDS_def)
  moreover have "se_lower shard_demo_env = id" by (simp add: shard_demo_env_def)
  ultimately show ?thesis by (simp add: shard_route_def Let_def)
qed

lemma demo_domains: "domain_from_str id ''keter'' = DKeter" "domain_from_str id ''binah'' = DBinah"
  by (simp_all add: domain_from_str_def)

theorem router_refines_graphs_witness:
  "fst (router_get_node shard_demo_env ''keter'' 1
     (fold (router_exec shard_demo_env) [R_put (demo_node_of 1), R_global_root, R_delete ''binah'' 1 True] demo_router)) =
   Inr (Some (demo_node_of 1))"
proof -
  have "sn_domain (demo_node_of 1) = ''keter''" "sn_node_id (demo_node_of 1) = 1" by (simp_all add: demo_node_of_def)
  then show ?thesis
    using router_refines_graphs [OF shard_demo_env_ok, of "''d''" 4 1
        "[R_put (demo_node_of 1), R_global_root, R_delete ''binah'' 1 True]" "''keter''" 1]
    by (simp add: Let_def demo_route demo_domains compute_shard_id_inject)
qed

theorem moved_node_is_stale_witness:
  "fst (router_get_node shard_demo_env ''keter'' 1 (fold (router_exec shard_demo_env)
     ([] @ [R_put (demo_node_of 1), R_put ((demo_node_of 1)\<lparr>sn_domain := ''binah''\<rparr>)]) demo_router)) =
   Inr (Some (demo_node_of 1))"
proof -
  have f: "sn_domain (demo_node_of 1) = ''keter''" "sn_node_id (demo_node_of 1) = 1" by (simp_all add: demo_node_of_def)
  show ?thesis
    using moved_node_is_stale [OF shard_demo_env_ok _ _ refl, of "demo_node_of 1" 1
        "(demo_node_of 1)\<lparr>sn_domain := ''binah''\<rparr>" "''d''" 4 1 "[]"] f
    by (simp add: demo_route demo_domains compute_shard_id_inject)
qed

theorem search_all_is_exact_witness:
  "\<exists>nodes. search_all shard_demo_env ''ab'' 3 0 (fold (router_exec shard_demo_env) [R_put (demo_node_of 1)] demo_router) =
      Inr (take 3 (sort_by (score_less (se_f64 shard_demo_env))
        (concat (map (node_hits shard_demo_env (search_terms shard_demo_env ''ab'') 0 None) nodes)))) \<and>
    list_all2 (\<lambda>(sid, _) ns. distinct ns \<and> set ns = ran (sg_nodes (fold (graphs_effect shard_demo_env (shard_route shard_demo_env demo_router))
      [R_put (demo_node_of 1)] (\<lambda>_. empty_graph) sid)))
      (sr_shards (fold (router_exec shard_demo_env) [R_put (demo_node_of 1)] demo_router)) nodes"
proof -
  have "scores_ordered (se_f64 shard_demo_env)" by (auto simp: shard_demo_env_def scores_ordered_def)
  from search_all_is_exact [OF shard_demo_env_ok this, of "''d''" 4 1 "[R_put (demo_node_of 1)]" "''ab''" 3 0]
  show ?thesis unfolding Let_def .
qed

end
