(* ===== verification/Spec2Isabelle.thy ===== *)
theory Spec2Isabelle
  imports Consensus Reversibility QvmAnchor AetherAnchor ContractBridge Poseidon2 ForkChoice Abduction
    WrappedToken ShardMerkle KyberTransport SecurityCore TemporalLogic TaskMarket Exchange CsfTransport
    ConfidentialTx ShardCluster
begin

text \<open>
  A verification library for the Rust core of Qubitcoin. Its first part is the chain: the
  Substrate pallets under \<open>substrate-node/pallets\<close>, the primitives they share, the reference hash
  and the fork choice of the node. The chain state is changed by extrinsics. A user's transfer
  spends unspent outputs (qbc-utxo) under Dilithium signatures whose keys live in a registry
  (qbc-dilithium); an unsigned mining proof (qbc-consensus) draws the scheduled reward
  (qbc-economics), closes the fees of the block, writes the coinbase output and adjusts the
  difficulty; governors can reverse a recent transaction (qbc-reversibility); two anchors record
  the state of external engines (qbc-qvm-anchor, qbc-aether-anchor). Its second part is what
  stands around the chain: the encrypted transport between nodes, the finality votes, the
  wrapped tokens on Solana, the exchange engine, the confidential transactions of the command line
  client, and of the Aether engine the task market, the message transport, the sharded store of
  the knowledge graph, the first-order logic and the temporal logic. The parts of
  the second kind share no state with the chain; each is a component with its own runs.

  Theories and sources.

  Prelude: machine integers as words, the saturating and checked operations of the Rust standard
  library, byte strings, sums over storage maps, and the dispatch rules of FRAME (origins, errors,
  the rollback of a failed call).
  Primitives: the types and constants of \<open>primitives/src/lib.rs\<close>.
  Ledger_Spec: the contract of a keyed store of amounts, as a locale: taking entries out and
  putting entries in moves the total by the amounts moved. It is interpreted on the ledger in
  Utxo (\<open>ul\<close>) and on the freezing and returning of outputs in Reversibility (\<open>rl\<close>).
  Retention: the contract of a history indexed by height that prunes one window below the height
  it writes, as a locale. It is interpreted in Consensus (\<open>sr\<close>, mining solutions), QvmAnchor
  (\<open>qr\<close>, state roots) and AetherAnchor (\<open>pr\<close>, Phi measurements).
  Dilithium: \<open>qbc-dilithium/src/lib.rs\<close>; \<open>register_key\<close>, \<open>revoke_key\<close>, the administrative
  registration, the native and the WASM verifier.
  Utxo: \<open>qbc-utxo/src/lib.rs\<close>; \<open>submit_transaction\<close> with its checks (\<open>validate_inputs\<close>,
  \<open>sum_outputs\<close>) and its writes (\<open>apply_transaction\<close>), the signed bytes, coinbase outputs, the
  closing of fees, genesis. \<open>spendable\<close>, \<open>tx_valid\<close> and \<open>transaction_effect\<close> are the
  declarative account of the same call, and the handler is proved to implement it.
  Economics: \<open>qbc-economics/src/lib.rs\<close>; the reward of a height, its eras, the cap, the fee burn.
  Consensus: \<open>qbc-consensus/src/lib.rs\<close>; \<open>submit_mining_proof\<close> (checks) and \<open>accept_proof\<close>
  (writes), \<open>validate_unsigned\<close>, \<open>adjust_difficulty\<close> with its rule on numbers (\<open>pace_difficulty\<close>), the
  encodings that are hashed.
  Reversibility: \<open>qbc-reversibility/src/lib.rs\<close>; requests, votes, execution, expiry, governance,
  pruning, and the step relation \<open>rev_step\<close> of its calls.
  QvmAnchor, AetherAnchor, ContractBridge: the two anchors and the calldata builder.
  Poseidon2: \<open>primitives/src/poseidon2.rs\<close>; the field, the permutation with its round constants
  (and the SHA-256 that makes them), the hash of bytes, the Merkle tree.
  ForkChoice: \<open>node/src/weighted_chain.rs\<close>; cumulative weights with their cache, the best leaf,
  the finality target.
  KyberTransport: \<open>crypto/kyber-transport/src\<close>; handshake, session, transport.
  SecurityCore: \<open>security-core/src\<close>; finality votes and the Bloom filter.
  WrappedToken: \<open>deployment/solana/wqbc\<close> and \<open>wqusd\<close>; the instructions of the bridge programs.
  ShardMerkle: \<open>aether-graph-shard/src/merkle.rs\<close>; the tree of a shard and the tree of the shards.
  The interface of the ordered map it is built on is the locale \<open>ordered_map\<close>, interpreted on the
  insertion and removal of a sorted list (\<open>bt\<close>).
  ShardStore, ShardGraph, ShardSearch, ShardRouter, ShardRuns, ShardCluster: \<open>storage.rs\<close>, \<open>types.rs\<close>
  and \<open>router.rs\<close> of the same crate. ShardStore has the columns of the database, the cache, the
  counters and every operation of a shard; ShardGraph the abstract graph and the proof that every
  call implements its effect (\<open>store_rel\<close>); ShardSearch the keyword search against the search that
  sorts all hits, on the contract \<open>preorder_sort\<close> (\<open>exact_scores\<close>); ShardRouter the service over many
  shards, and ShardCluster its refinement of one graph per shard (\<open>router_rel\<close>). ShardRuns has the
  guarantees of one store and a concrete instance; its byte code is in ByteCodes.
  Terms, Formulas, KnowledgeBase, Abduction: the crate \<open>aether-logic\<close>; terms and unification,
  formulas and inference rules, forward and backward chaining, abduction and anti-unification.
  TemporalLogic: \<open>aether-temporal/src/temporal_logic.rs\<close>; the model checker and the mined patterns.
  Floats: the operations of \<open>f64\<close> as a record with three instances, exact arithmetic on \<open>rat\<close>, the same
  rounded to 53 digits (\<open>rounded_ops\<close>) and the same with \<open>NaN\<close> (\<open>nan_ops\<close>), and
  the stable sort of the standard library with its contract, the locale \<open>preorder_sort\<close>.
  TaskMarket: \<open>aether-protocol/src/task_protocol.rs\<close>; tasks, validators, votes and settlement. The
  checks and the writes of a vote are two definitions, as the code takes its locks twice.
  OrderBook, Exchange: \<open>qbc-exchange/src\<close>; the order book of a pair (\<open>orderbook.rs\<close>, \<open>types.rs\<close>), the
  synthetic assets (\<open>synthetic.rs\<close>) and the requests that change the engine (\<open>service.rs\<close>). The
  comparators of bids and asks interpret \<open>preorder_sort\<close> (\<open>bids\<close>, \<open>asks\<close>), exact arithmetic and the one
  with \<open>NaN\<close> the laws of signs \<open>signed_floats\<close> (\<open>exact_signs\<close>, \<open>nan_signs\<close>); both matching loops are
  runs of the relation \<open>matched\<close>.
  CsfRouting, CsfTransport: \<open>aether-sephirot/src/csf_transport.rs\<close>; the roles with their topology
  and the two breadth-first searches, and the message queue over them. What the queue needs of the
  search is the locale \<open>router\<close>, interpreted on the topology of the program (\<open>tree\<close>); the order of
  the queue interprets \<open>preorder_sort\<close> (\<open>csf_order\<close>).
  Commitments, ConfidentialTx: \<open>aether-cli/crates/aether-privacy/src\<close>; Pedersen commitments, stealth
  addresses and range proofs, and the builder and verification of transactions made of them
  (\<open>susy_swap.rs\<close>). A point is an element of a commutative group.
  This theory: the step relation \<open>node_step\<close> of the whole node and the supply invariant over it.

  How state and effects correspond. A pallet's storage is a record with a field per storage item:
  a map with an optional query is a partial map, a map with a default is a total function, a
  double map whose keys are counted or cleared is a list. A handler returns an error or the new
  state; where it writes before it fails it returns both, and \<open>dispatch\<close> discards the writes as
  FRAME does. A method with a mutable receiver whose effects survive an error returns its result
  and the object. Events are kept in order where a property reads them. Machine integers keep their
  width; a plain \<open>+\<close>, \<open>-\<close> or \<open>*\<close> of the source is the wrapping word operation (the release
  build), the saturating and checked ones are written out.

  What the lemmas show. For each pallet: the invariant of its storage and that every call keeps
  it (\<open>ledger_inv\<close>, \<open>dil_inv\<close>, \<open>emission_inv\<close>, \<open>difficulty_inv\<close>, \<open>rate_inv\<close>, \<open>rev_inv\<close>,
  \<open>qvm_inv\<close>, \<open>aether_inv\<close>); what a call accepts, read backwards from its success (the lemmas
  ending in \<open>InrD\<close>); which parts of the state a call leaves alone; conservation of value; and
  injectivity of the encodings that are hashed or signed. For the hash: every operation is the
  arithmetic of the field, and the permutation is its three phases. For the fork choice: the
  cache never changes an answer. For the logic: the semantics, that each procedure returns, and
  that what it derives holds. For the other components: an invariant over their runs
  (\<open>wrap_inv\<close>, \<open>tree_inv\<close>, \<open>votes_inv\<close>, \<open>bloom_inv\<close>, \<open>pot_ok\<close>, \<open>book_inv\<close>, \<open>funds_ok\<close>, \<open>csf_inv\<close>,
  \<open>store_rel\<close>, \<open>router_rel\<close>)
  and what it gives. The numbered properties
  rest on these. Some theorems show what the code does against its comments: an input count
  that is not signed, a hash with collisions, votes for different blocks that add up, settled tasks
  that are opened again, a solver without an address that settles its own task, funds that back any
  number of orders, a deposit of \<open>NaN\<close> that covers every withdrawal, a crossed book, transactions that
  verify whatever their amounts are, a Merkle root that a restart loses, edges to deleted nodes that
  are still answered.

  Parameters. SHA-256 (but for the one that makes the round constants), the Dilithium5 and Ed25519
  verifiers, ML-KEM, HKDF and AES-GCM, the token program of Solana, the client database of the
  node, the block environment (time, parent hash), the hashes of terms and formulas, the
  operations of \<open>f64\<close>, \<open>OrderedFloat\<close>, the prices of the oracle, the order in which hash maps and sets are
  iterated, the curve secp256k1 and the random generator, the cache, the byte code and the vector
  index of the graph store, the tables of Unicode, and the floating-point results of \<open>vqe-verifier\<close> and \<open>bimetric-physics\<close> are arguments of the definitions. What is relied
  on is a named premise (\<open>kem_laws\<close>, \<open>hkdf_laws\<close>, \<open>aead_laws\<close>, \<open>spl_laws\<close>, \<open>linked\<close>, \<open>curve_ok\<close>, \<open>points_found\<close>, \<open>env_ok\<close>, \<open>scores_ordered\<close>,
  \<open>fl_consistent\<close>, \<open>signed_floats\<close>), satisfied by a concrete instance in the witnesses. The last two
  are laws that \<open>f64\<close> keeps for all values, rounding, infinities and \<open>NaN\<close> included. What holds in exact
  arithmetic only is no numbered property: that a book is never crossed and that every order is
  answered (both from \<open>fills_settle\<close>, which rounding breaks), that fills add up, the cap on votes and
  the round trip of minting and burning. No property assumes a hash to be injective; freshness of a
  new output's key is a named premise, and replays and forged proofs are shown to be collisions.

  Fuel and bounds. The pruning scan of Reversibility has fuel; \<open>max (4 * max_entries) 1000 + 2\<close>
  heights are proved enough. The walks of ForkChoice have fuel, and a fuel above the number of the
  block they start from is proved enough on a linked chain. In the logic, functions that may not
  return are partial functions with the result \<open>None\<close>, and the properties show when they return; so
  is the search for a point by hash and increment, which returns exactly if some counter gives a
  point. The breadth-first searches terminate by the roles that are not visited yet.
  The other recursions are structural or terminate by the length of a list.

  The shards of the graph service are iterated in the order in which they were opened, where the
  concurrent map of the source has some order; the scores of a search are compared where they are
  numbers. A database is a map that does not fail; a \<open>usize\<close> that counts results is a natural number, as no
  list is longer than the memory.

  Not modelled: transaction weights and benchmarks, the floating-point crates (the state vector
  simulation, the physics, the neural and embedding crates), the network, the RPC and the
  off-chain services around SQL, gRPC and HTTP, printing and logging, third-party code, and
  everything that is not Rust.
\<close>

section \<open>Runs of the node's value-bearing pallets\<close>

record node_state =
  n_chain :: chain_state
  n_rev :: reversal_state
  n_dil :: dilithium_state

text \<open>
  One accepted call of any of the pallets that can touch value. The side conditions of the
  steps that create outputs are the freshness of the new keys (hashes of new data) and room in
  the 64-bit counter of outputs.
\<close>

inductive node_step ::
  "(u8 list \<Rightarrow> h256) \<Rightarrow> ('pk, 'sig) pqcrypto \<Rightarrow> node_state \<Rightarrow> node_state \<Rightarrow> bool" for sha pq
where
  node_transaction:
    "submit_transaction sha pq (utxo_is_frozen (n_rev s)) (n_dil s) orig inputs outputs sigs (ch_utxo (n_chain s)) = Inr u \<Longrightarrow>
     tx_room sha inputs outputs (ch_utxo (n_chain s)) \<Longrightarrow>
     node_step sha pq s (s\<lparr>n_chain := (n_chain s)\<lparr>ch_utxo := u\<rparr>\<rparr>)"
| node_mining:
    "submit_mining_proof env orig proof pk sg (n_chain s) = Inr c \<Longrightarrow>
     utxo_set (ch_utxo (n_chain s)) (coinbase_txid env (current_height (ch_utxo (n_chain s)) + 1), 0) = None \<Longrightarrow>
     utxo_entries (ch_utxo (n_chain s)) + 1 < 2 ^ 64 \<Longrightarrow>
     node_step sha pq s (s\<lparr>n_chain := c\<rparr>)"
| node_approval:
    "approve_reversal sha orig rid (n_rev s, ch_utxo (n_chain s)) = Inr (r, u) \<Longrightarrow>
     utxo_set (ch_utxo (n_chain s)) (compute_reversal_txid sha rid (current_height (ch_utxo (n_chain s))), 0) = None \<Longrightarrow>
     utxo_entries (ch_utxo (n_chain s)) + 1 < 2 ^ 64 \<Longrightarrow>
     node_step sha pq s (s\<lparr>n_rev := r, n_chain := (n_chain s)\<lparr>ch_utxo := u\<rparr>\<rparr>)"
| node_reversal_call:
    "rev_step sha (n_rev s, ch_utxo (n_chain s)) (r, ch_utxo (n_chain s)) \<Longrightarrow>
     node_step sha pq s (s\<lparr>n_rev := r\<rparr>)"
| node_keys: "dil_step sha pq (n_dil s) d \<Longrightarrow> node_step sha pq s (s\<lparr>n_dil := d\<rparr>)"
| node_initialize:
    "node_step sha pq s (s\<lparr>n_chain := (n_chain s)\<lparr>ch_utxo := utxo_on_initialize (ch_utxo (n_chain s))\<rparr>\<rparr>)"

definition supply_inv :: "nat \<Rightarrow> node_state \<Rightarrow> node_state \<Rightarrow> bool" where
  "supply_inv start s s' \<longleftrightarrow>
     ledger_inv (ch_utxo (n_chain s')) \<and> total_emitted (ch_econ (n_chain s')) \<le> MAX_SUPPLY \<and>
     start + unat (total_emitted (ch_econ (n_chain s'))) =
       circulating (ch_utxo (n_chain s')) + unat (total_emitted (ch_econ (n_chain s)))"

lemma transaction_supply:
  assumes "submit_transaction sha pq fr dil orig inputs outputs sigs u = Inr u'"
    and "ledger_inv u" and "circulating u < 2 ^ 128" and "tx_room sha inputs outputs u"
  shows "ledger_inv u' \<and> circulating u' = circulating u"
proof -
  from submit_transaction_InrD [OF assms(1)] obtain us where
    v: "tx_valid pq fr dil inputs outputs sigs u us" and t: "u' = transaction_effect sha inputs outputs us u"
    by blast
  have lt: "ledger_value u < 2 ^ 128" using assms(3) by (simp add: circulating_def)
  note E = transaction_effect_ledger [OF assms(2) lt v assms(4), folded t]
  have us: "length us = length inputs" "outputs_value outputs \<le> (\<Sum>x \<leftarrow> us. amount_of x)"
    "(\<Sum>x \<leftarrow> us. amount_of x) < 2 ^ 128" using v by (auto simp: tx_valid_def)
  let ?fee = "(\<Sum>x \<leftarrow> us. amount_of x) - outputs_value outputs"
  have fee: "unat (of_nat ?fee :: u128) = ?fee" using us(3) by (intro unat_of_nat_less) simp
  have "?fee \<le> ledger_value u" using E us(2) by linarith
  then have "unat (accumulated_fees u') = unat (accumulated_fees u) + ?fee"
    using assms(3) fee by (simp add: t transaction_effect_frame [OF us(1)] unat_saturating_add circulating_def)
  moreover have "total_fees_burned u' = total_fees_burned u"
    by (simp add: t transaction_effect_frame [OF us(1)])
  moreover have "ledger_value u' + (\<Sum>x \<leftarrow> us. amount_of x) = ledger_value u + outputs_value outputs"
    using E by blast
  moreover obtain d where "(\<Sum>x \<leftarrow> us. amount_of x) = outputs_value outputs + d"
    using us(2) le_Suc_ex by blast
  ultimately have "circulating u' = circulating u" unfolding circulating_def by simp
  with E show ?thesis by blast
qed

lemma initialize_supply:
  "ledger_inv (utxo_on_initialize u) = ledger_inv u" "circulating (utxo_on_initialize u) = circulating u"
  by (simp_all add: utxo_on_initialize_def ledger_inv_def utxo_entries_def circulating_def ledger_value_def)

lemma node_step_supply:
  assumes "node_step sha pq s' s''" and "supply_inv start s s'"
    and "start + 2 * unat MAX_SUPPLY + 1 < 2 ^ 128"
  shows "supply_inv start s s''"
proof -
  let ?u = "ch_utxo (n_chain s')"
  have I: "ledger_inv ?u" "total_emitted (ch_econ (n_chain s')) \<le> MAX_SUPPLY"
    "start + unat (total_emitted (ch_econ (n_chain s'))) = circulating ?u + unat (total_emitted (ch_econ (n_chain s)))"
    using assms(2) by (auto simp: supply_inv_def)
  have room: "circulating ?u + unat MAX_SUPPLY + 1 < 2 ^ 128"
    using I(2,3) assms(3) unfolding word_le_nat_alt by linarith
  then have lt: "circulating ?u < 2 ^ 128" "ledger_value ?u < 2 ^ 128" by (auto simp: circulating_def)
  from assms(1) show ?thesis
  proof (cases rule: node_step.cases)
    case (node_transaction orig ins outs sigs u)
    then show ?thesis
      using transaction_supply [OF node_transaction(2) I(1) lt(1) node_transaction(3)] I
      by (simp add: supply_inv_def)
  next
    case (node_mining env orig vqe pk sg c)
    from node_mining(2) obtain e where c: "c = accept_proof env vqe (pubkey_to_address env pk)
        (current_height ?u + 1) (compute_proof_hash env vqe (pubkey_to_address env pk) (current_height ?u + 1))
        e (n_chain s')"
      by (rule submit_mining_proof_InrD)
    have "emission_inv (ch_econ (n_chain s'))" using I(2) by (simp add: emission_inv_def)
    note V = accept_proof_value [OF I(1) this room node_mining(3,4) c]
    show ?thesis using V I(3) node_mining(1) by (simp add: supply_inv_def emission_inv_def)
  next
    case (node_approval orig rid r u)
    then show ?thesis
      using approve_reversal_value [OF node_approval(2) I(1) lt(2) node_approval(4,3)] I
      by (simp add: supply_inv_def)
  qed (use I in \<open>auto simp: supply_inv_def initialize_supply\<close>)
qed

text \<open>
  C1. The supply of the whole node is accounted for: over any run of accepted transactions,
  mining proofs, reversals, governance calls and key registrations, the ledger invariant holds,
  the emitted total stays under the cap, and the unspent outputs plus the pending and the
  burned fees grow by exactly what is emitted.
\<close>

theorem supply_accounted_over_runs:
  assumes "rtranclp (node_step sha pq) s s'"
    and "ledger_inv (ch_utxo (n_chain s))" and "total_emitted (ch_econ (n_chain s)) \<le> MAX_SUPPLY"
    and "circulating (ch_utxo (n_chain s)) + 2 * unat MAX_SUPPLY + 1 < 2 ^ 128"
  shows "ledger_inv (ch_utxo (n_chain s')) \<and> total_emitted (ch_econ (n_chain s')) \<le> MAX_SUPPLY \<and>
    circulating (ch_utxo (n_chain s)) + unat (total_emitted (ch_econ (n_chain s'))) =
      circulating (ch_utxo (n_chain s')) + unat (total_emitted (ch_econ (n_chain s)))"
proof -
  have "supply_inv (circulating (ch_utxo (n_chain s))) s s'"
    using assms(1)
  proof (induction rule: rtranclp_induct)
    case base
    then show ?case using assms(2,3) by (simp add: supply_inv_def)
  next
    case (step x y)
    from node_step_supply [OF step.hyps(2) step.IH assms(4)] show ?case .
  qed
  then show ?thesis by (simp add: supply_inv_def)
qed

definition example_node :: node_state where
  "example_node = \<lparr>n_chain = example_chain, n_rev = example_rev_state, n_dil = example_keys\<rparr>"

theorem supply_accounted_over_runs_witness:
  "\<exists>c'. submit_mining_proof example_env NoneOrigin example_proof 7 [] example_chain = Inr c' \<and>
    ledger_inv (ch_utxo c') \<and> unat (total_emitted (ch_econ c')) = circulating (ch_utxo c')"
proof -
  obtain c' where c': "submit_mining_proof example_env NoneOrigin example_proof 7 [] example_chain = Inr c'"
    using example_mining by blast
  have "node_step example_sha example_pq example_node (example_node\<lparr>n_chain := c'\<rparr>)"
    by (rule node_mining) (use c' in \<open>simp_all add: example_node_def example_chain_inv\<close>)
  note run = r_into_rtranclp [where r = "node_step example_sha example_pq", OF this]
  have zero: "total_emitted (ch_econ example_chain) = 0"
    by (simp add: example_chain_def economics_genesis_def)
  show ?thesis
    using supply_accounted_over_runs [OF run] c' zero
    by (simp add: example_node_def example_chain_inv qbc_consts)
qed

end
